(* ===== verification/Prelude.thy ===== *)
theory Prelude
  imports Main "HOL-Library.Word"
begin

text \<open>
  Shared ground of the development: the machine types of the runtime's C code, the bit
  primitives that several components use (\<open>ffs\<close>, masks, shifts as \<open>push_bit\<close> and
  \<open>drop_bit\<close>), and generic lemmas on words and lists.

  The configuration modelled throughout is the one the build picks on x86-64 Linux:
  64-bit little-endian words, \<open>sb-thread\<close>, \<open>sb-futex\<close>, \<open>sb-unicode\<close>,
  \<open>immobile-space\<close>, \<open>soft-card-marks\<close>, the generational copying collector and no
  safepoints, unless the opening text of a theory says otherwise.
\<close>

unbundle bit_operations_syntax

section \<open>Machine types\<close>

type_synonym u8 = "8 word"
type_synonym u16 = "16 word"
type_synonym u32 = "32 word"
type_synonym uword = "64 word"  \<comment> \<open>\<open>uword_t\<close>, \<open>sword_t\<close> (read with \<open>sint\<close>), \<open>lispobj\<close>\<close>

named_theorems rt_simps \<open>unfolding and frame facts of the runtime's small helpers\<close>
named_theorems rt_inv \<open>invariant preservation facts\<close>

section \<open>Bits of words\<close>

lemma bit_or_push_1 [simp]:
  fixes w :: "'a::len word"
  assumes "b < LENGTH('a)"
  shows "bit (w OR 2 ^ b) j \<longleftrightarrow> bit w j \<or> j = b"
  using assms by (auto simp: bit_or_iff bit_exp_iff)

lemma bit_xor_push_1 [simp]:
  fixes w :: "'a::len word"
  assumes "b < LENGTH('a)"
  shows "bit (w XOR 2 ^ b) j \<longleftrightarrow> (if j = b then \<not> bit w j else bit w j)"
  using assms by (auto simp: bit_xor_iff bit_exp_iff)

lemma word_bit_length: "bit (w :: 'a::len word) j \<Longrightarrow> j < LENGTH('a)"
  by (rule bit_imp_le_length)

lemma word_neq_0_bit: "(w :: 'a::len word) \<noteq> 0 \<longleftrightarrow> (\<exists>j. bit w j)"
  by (metis bit_0_eq bit_eq_iff bot_apply bot_bool_def)

lemma unat_lt: "unat (w :: 'a::len word) < 2 ^ LENGTH('a)"
  by (fact unsigned_less)

lemma unat_and_le2: "unat (a AND b) \<le> unat (b :: 'a::len word)"
  by (metis word_and_le1 word_le_nat_alt)

lemma unat_and_le1: "unat (a AND b) \<le> unat (a :: 'a::len word)"
  by (metis word_and_le2 word_le_nat_alt)

lemma bit_drop_bit_word: "bit (drop_bit n (w :: 'a::len word)) j \<longleftrightarrow> bit w (n + j)"
  by (simp add: bit_drop_bit_eq)

lemma unat_drop_bit_less:
  assumes "(w :: 'a::len word) \<noteq> 0" and "0 < n"
  shows "unat (drop_bit n w) < unat w"
proof -
  have "unat w > 0" using assms(1) by (simp add: unat_gt_0)
  moreover have "(1::nat) < 2 ^ n" using assms(2) by (rule one_less_power[rotated]) simp
  moreover have "unat (drop_bit n w) = unat w div 2 ^ n"
    by (simp only: unat_drop_bit_eq) (simp add: drop_bit_eq_div)
  ultimately show ?thesis by simp
qed

text \<open>\<open>ffs(3)\<close> of the C library: one plus the index of the least set bit, 0 for 0.\<close>

definition ffs32 :: "u32 \<Rightarrow> nat" where
  "ffs32 w = (case List.find (bit w) [0..<32] of None \<Rightarrow> 0 | Some i \<Rightarrow> Suc i)"

lemma find_upt_Some:
  "List.find P [a..<b] = Some i \<longleftrightarrow> a \<le> i \<and> i < b \<and> P i \<and> (\<forall>j. a \<le> j \<and> j < i \<longrightarrow> \<not> P j)"
  (is "?L \<longleftrightarrow> ?R")
proof
  assume ?L
  then obtain k where k: "k < length [a..<b]" "P ([a..<b] ! k)" "i = [a..<b] ! k"
      "\<forall>j<k. \<not> P ([a..<b] ! j)"
    by (auto simp: find_Some_iff)
  have "\<not> P j" if "a \<le> j" "j < i" for j
    using k(4)[rule_format, of "j - a"] k(1,3) that by simp
  with k show ?R by simp
next
  assume R: ?R
  then have "P ([a..<b] ! (i - a))" "i - a < length [a..<b]" "i = [a..<b] ! (i - a)" by auto
  moreover have "\<not> P ([a..<b] ! j)" if "j < i - a" for j
  proof -
    have ji: "a + j < i" using that by linarith
    then have "[a..<b] ! j = a + j" using R by (intro nth_upt) linarith
    with ji R show ?thesis by simp
  qed
  ultimately show ?L unfolding find_Some_iff by blast
qed

lemma find_upt_None:
  "List.find P [a..<b] = None \<longleftrightarrow> (\<forall>i. a \<le> i \<and> i < b \<longrightarrow> \<not> P i)"
  by (auto simp: find_None_iff)

lemma find_chunk_None: "List.find P [a..<a + n] = None \<Longrightarrow> i < n \<Longrightarrow> \<not> P (a + i)"
  by (simp add: find_upt_None)

lemma ffs32_bit: "w \<noteq> 0 \<Longrightarrow> bit w (ffs32 w - 1)"
proof -
  assume "w \<noteq> 0"
  then obtain j where "bit w j" "j < 32"
    using word_neq_0_bit[of w] word_bit_length[of w] by auto
  then have "List.find (bit w) [0..<32] \<noteq> None" by (auto simp: find_upt_None)
  then obtain i where i: "List.find (bit w) [0..<32] = Some i" by blast
  then have "bit w i" by (simp add: find_upt_Some)
  with i show ?thesis by (simp add: ffs32_def)
qed

lemma ffs32_pos: "w \<noteq> 0 \<Longrightarrow> 0 < ffs32 w"
proof -
  assume "w \<noteq> 0"
  then obtain j where "bit w j" "j < 32"
    using word_neq_0_bit[of w] word_bit_length[of w] by auto
  then have "List.find (bit w) [0..<32] \<noteq> None" by (auto simp: find_upt_None)
  then show ?thesis by (auto simp: ffs32_def)
qed

lemma bit_mask_shift: "bit (drop_bit (32 - n) (-1 :: u32)) j \<longleftrightarrow> 32 - n + j < 32"
  by (simp add: bit_mask_iff) linarith

section \<open>Maps\<close>

lemma map_eqI:
  assumes "\<And>x. m x = None \<longleftrightarrow> m' x = None" and "\<And>x v. m x = Some v \<Longrightarrow> m' x = Some v"
  shows "m = m'"
proof
  fix x show "m x = m' x" using assms[of x] by (cases "m x") auto
qed

section \<open>Results\<close>

text \<open>
  How a function of the runtime stops the process: \<open>lose()\<close>, a failed \<open>gc_assert()\<close>, or
  \<open>gc_heap_exhausted_error_or_lose(available, requested)\<close>. A function that may is given a result,
  and \<open>rbind\<close> runs the rest of a body when the part before it returned.
\<close>

datatype failure = Lose | Assert_failed | Heap_exhausted int int

type_synonym 'a result = "failure + 'a"

fun rbind :: "'a result \<Rightarrow> ('a \<Rightarrow> 'b result) \<Rightarrow> 'b result" where
  "rbind (Inl e) k = Inl e"
| "rbind (Inr x) k = k x"

definition gc_assert :: "bool \<Rightarrow> 'a result \<Rightarrow> 'a result" where
  "gc_assert b k = (if b then k else Inl Assert_failed)"

text \<open>A loop over a list of indices whose body may stop the process.\<close>

primrec for_each :: "('i \<Rightarrow> 's \<Rightarrow> 's result) \<Rightarrow> 'i list \<Rightarrow> 's \<Rightarrow> 's result" where
  "for_each f [] s = Inr s"
| "for_each f (i # is) s = rbind (f i s) (for_each f is)"

lemma rbind_Inr_iff [simp]: "rbind r k = Inr y \<longleftrightarrow> (\<exists>x. r = Inr x \<and> k x = Inr y)"
  by (cases r) auto

lemma rbind_Inl_iff: "rbind r k = Inl e \<longleftrightarrow> r = Inl e \<or> (\<exists>x. r = Inr x \<and> k x = Inl e)"
  by (cases r) auto

lemma gc_assert_Inr_iff [simp]: "gc_assert b k = Inr y \<longleftrightarrow> b \<and> k = Inr y"
  by (simp add: gc_assert_def)

lemma for_each_inv:
  assumes "for_each f is s = Inr s'" and "P s"
    and "\<And>i s t. i \<in> set is \<Longrightarrow> f i s = Inr t \<Longrightarrow> P s \<Longrightarrow> P t"
  shows "P s'"
  using assms by (induction "is" arbitrary: s) auto

lemma for_each_append:
  "for_each f (xs @ ys) s = rbind (for_each f xs s) (for_each f ys)"
  by (induction xs arbitrary: s) (simp_all, metis rbind.simps sum.exhaust)

end
