(* ===== verification/Hopscotch.thy ===== *)
theory Hopscotch
  imports Prelude
begin

text \<open>
  The hopscotch hash table of \<open>src/src/runtime/hopscotch.c\<close>, used by the collector for
  pinned objects, weak-object triggers, heap coalescing and reachability searches.

  The record mirrors \<open>struct hopscotch_table\<close>. The three arrays that the code carves out of
  one zero-filled allocation are three lists: \<open>ht_keys\<close> (a key of 0 is an empty cell),
  \<open>ht_hops\<close> (one bit mask per logical bin) and \<open>ht_vals\<close> (the empty list for a hash set,
  whose \<open>values\<close> pointer is null). The function pointers \<open>hash\<close> and \<open>compare\<close> are
  \<open>option\<close>-valued fields, null being \<open>None\<close>. The statistics counters, compiled out
  unless \<open>HOPSCOTCH_INSTRUMENT\<close> is defined, are left out.

  An insertion can double the table and, in principle, double it forever when too many keys
  share one bin; the operations that can resize take fuel and return \<open>None\<close> when it runs
  out, and \<open>HopscotchTerm\<close> proves how much is enough.
\<close>

unbundle bit_operations_syntax

section \<open>State\<close>

record hopscotch_table =
  ht_keys :: "uword list"
  ht_hops :: "u32 list"
  ht_vals :: "uword list"
  ht_hash :: "(uword \<Rightarrow> u32) option"
  ht_compare :: "(uword \<Rightarrow> uword \<Rightarrow> bool) option"
  ht_mask :: u32
  ht_hop_range :: nat
  ht_count :: nat
  ht_threshold :: int
  ht_prev_size :: nat
  ht_mem_size :: nat
  ht_value_size :: nat
  ht_hashfun :: nat
  ht_resized :: bool
  ht_rehashing :: bool

text \<open>
  The content-based hash functions and comparator read the heap through the key, so they are
  given by an environment: the functions \<open>sxhash_simple_string\<close>, \<open>vector_sxhash\<close> and
  \<open>vector_eql\<close> at the heap of the moment.
\<close>

record hash_env =
  env_string_hash :: "uword \<Rightarrow> u32"
  env_vector_hash :: "uword \<Rightarrow> u32"
  env_vector_eql :: "uword \<Rightarrow> uword \<Rightarrow> bool"

definition table_size :: "hopscotch_table \<Rightarrow> nat" where
  "table_size ht = 1 + unat (ht_mask ht)"

definition hopscotch_max_key_index :: "hopscotch_table \<Rightarrow> nat" where
  "hopscotch_max_key_index ht = unat (ht_mask ht) + ht_hop_range ht - 1"

section \<open>Hashing\<close>

text \<open>\<open>GENCGC_CARD_SHIFT\<close> is 10 (1024-byte cards), \<open>1 + WORD_SHIFT\<close> is 4 and
  \<open>N_LOWTAG_BITS\<close> is 4.\<close>

definition hopscotch_hmix :: "uword \<Rightarrow> u32" where
  "hopscotch_hmix key =
     (let h = ucast (drop_bit 4 key) :: u32;
          h = h XOR drop_bit 16 h;
          h = h * 0x85ebca6b;
          h = h XOR drop_bit 13 h;
          h = h * 0xc2b2ae35;
          h = h XOR drop_bit 16 h
      in h)"

definition hash :: "hopscotch_table \<Rightarrow> uword \<Rightarrow> u32" where
  "hash ht x = (case ht_hash ht of
       Some f \<Rightarrow> f x
     | None \<Rightarrow> ucast (drop_bit 10 x XOR drop_bit 4 x))"

text \<open>The logical bin of a key: \<open>hash(ht, key) & ht->mask\<close>.\<close>

definition home :: "hopscotch_table \<Rightarrow> uword \<Rightarrow> nat" where
  "home ht key = unat (hash ht key AND ht_mask ht)"

section \<open>Hop masks and values\<close>

definition set_hop_bit :: "hopscotch_table \<Rightarrow> nat \<Rightarrow> nat \<Rightarrow> hopscotch_table" where
  "set_hop_bit ht index b =
     ht\<lparr>ht_hops := (ht_hops ht)[index := ht_hops ht ! index OR push_bit b 1]\<rparr>"

definition set_hop_mask :: "hopscotch_table \<Rightarrow> nat \<Rightarrow> u32 \<Rightarrow> hopscotch_table" where
  "set_hop_mask ht index bits = ht\<lparr>ht_hops := (ht_hops ht)[index := bits]\<rparr>"

definition get_hop_mask :: "hopscotch_table \<Rightarrow> nat \<Rightarrow> u32" where
  "get_hop_mask ht index = ht_hops ht ! index"

text \<open>What a value cell of \<open>n\<close> bytes holds after a store, read back with sign extension.\<close>

definition trunc_val :: "nat \<Rightarrow> uword \<Rightarrow> uword" where
  "trunc_val n v =
     (if n = 8 then v
      else if n = 4 then signed_take_bit 31 v
      else if n = 2 then signed_take_bit 15 v
      else if n = 1 then signed_take_bit 7 v
      else 0)"

definition set_val :: "hopscotch_table \<Rightarrow> nat \<Rightarrow> uword \<Rightarrow> hopscotch_table" where
  "set_val ht index v =
     (if ht_value_size ht \<in> {1, 2, 4, 8}
      then ht\<lparr>ht_vals := (ht_vals ht)[index := trunc_val (ht_value_size ht) v]\<rparr>
      else ht)"

text \<open>For a hash set, the found index plus 1, so that 0 can mean not found.\<close>

definition get_val :: "hopscotch_table \<Rightarrow> nat \<Rightarrow> uword" where
  "get_val ht index =
     (if ht_value_size ht \<in> {1, 2, 4, 8} then ht_vals ht ! index
      else of_nat (index + 1))"

definition put_pair :: "hopscotch_table \<Rightarrow> nat \<Rightarrow> uword \<Rightarrow> uword \<Rightarrow> hopscotch_table" where
  "put_pair ht i k v =
     (let ht = ht\<lparr>ht_keys := (ht_keys ht)[i := k]\<rparr>
      in if ht_value_size ht \<noteq> 0 then set_val ht i v else ht)"

definition bitmask_of_width :: "nat \<Rightarrow> u32" where
  "bitmask_of_width n = drop_bit (32 - n) 0xFFFFFFFF"

section \<open>Creation\<close>

definition hop_range_for :: "nat \<Rightarrow> nat \<Rightarrow> nat" where
  "hop_range_for sz hop_range =
     (if hop_range = 0
      then if sz \<le> 1023 then 8 else if sz \<le> 16384 then 16 else 32
      else hop_range)"

definition storage_size :: "nat \<Rightarrow> nat \<Rightarrow> nat \<Rightarrow> nat" where
  "storage_size value_size sz hop_range =
     (8 + value_size) * (sz + (hop_range - 1)) + 4 * sz"

text \<open>\<open>n_keys * 13 / 16\<close> is computed in \<open>int\<close>: from \<open>2 ^ 28\<close> bins on the product does not
  fit and wraps, as the machine computes it. The quotient is rounded towards 0.\<close>

definition load_threshold :: "nat \<Rightarrow> int" where
  "load_threshold n_keys =
     (let x = sint (of_nat n_keys * 13 :: u32) in if x < 0 then - (- x div 16) else x div 16)"

text \<open>The storage is zero-filled memory, fresh from \<open>cached_allocate\<close> or, when
  \<open>hopscotch_reset\<close> reuses it, just cleared.\<close>

definition hopscotch_realloc :: "hopscotch_table \<Rightarrow> nat \<Rightarrow> nat \<Rightarrow> hopscotch_table" where
  "hopscotch_realloc ht sz hop_range =
     (let hop_range = hop_range_for sz hop_range;
          n_keys = sz + (hop_range - 1)
      in ht\<lparr>ht_keys := replicate n_keys 0,
            ht_mem_size := storage_size (ht_value_size ht) sz hop_range,
            ht_mask := of_nat (sz - 1),
            ht_hop_range := hop_range,
            ht_threshold := load_threshold n_keys,
            ht_hops := replicate sz 0,
            ht_vals := (if ht_value_size ht \<noteq> 0 then replicate n_keys 0 else [])\<rparr>)"

text \<open>\<open>None\<close> where the code asserts or loses: a size that is not a power of two, an
  unknown hash function or value size.\<close>

definition hopscotch_create ::
  "hash_env \<Rightarrow> nat \<Rightarrow> nat \<Rightarrow> nat \<Rightarrow> nat \<Rightarrow> hopscotch_table option" where
  "hopscotch_create env hashfun bytes_per_value sz hop_range =
     (if (of_nat sz :: u32) AND (of_nat sz - 1) \<noteq> 0 then None
      else if hashfun \<notin> {1, 2, 3, 4} then None
      else if bytes_per_value \<notin> {0, 1, 2, 4, 8} then None
      else Some (hopscotch_realloc
        \<lparr>ht_keys = [], ht_hops = [], ht_vals = [],
         ht_hash = (if hashfun = 1 then None
                    else if hashfun = 2 then Some hopscotch_hmix
                    else if hashfun = 3 then Some (env_string_hash env)
                    else Some (env_vector_hash env)),
         ht_compare = (if hashfun \<in> {3, 4} then Some (env_vector_eql env) else None),
         ht_mask = 0, ht_hop_range = 0, ht_count = 0, ht_threshold = 0,
         ht_prev_size = sz, ht_mem_size = 0, ht_value_size = bytes_per_value,
         ht_hashfun = hashfun, ht_resized = False, ht_rehashing = False\<rparr>
        sz hop_range))"

section \<open>Insertion without resizing\<close>

text \<open>\<open>while (ht->keys[++free_index] != 0) if (free_index == limit) ...\<close>: the first
  empty cell after \<open>desired\<close>, up to and including \<open>limit\<close>.\<close>

definition find_free :: "uword list \<Rightarrow> nat \<Rightarrow> nat \<Rightarrow> nat option" where
  "find_free ks desired limit = List.find (\<lambda>i. ks ! i = 0) [Suc desired..<Suc limit]"

text \<open>The search for a bin that owns a cell left of \<open>free_index\<close> and close enough to it:
  the bin and the leftmost such cell's bit.\<close>

fun find_victim :: "u32 list \<Rightarrow> nat \<Rightarrow> nat list \<Rightarrow> (nat \<times> nat) option" where
  "find_victim hs free_index [] = None"
| "find_victim hs free_index (logical_bin # bins) =
     (let displacement = free_index - logical_bin;
          masked_bits = hs ! logical_bin AND bitmask_of_width displacement
      in if masked_bits \<noteq> 0 then Some (logical_bin, ffs32 masked_bits - 1)
         else find_victim hs free_index bins)"

definition victim_bins :: "hopscotch_table \<Rightarrow> nat \<Rightarrow> nat list" where
  "victim_bins ht free_index =
     [free_index - (ht_hop_range ht - 1)..<Suc (min (free_index - 1) (unat (ht_mask ht)))]"

text \<open>Relocate the victim into the free cell and make the victim's cell the free one.\<close>

definition displace :: "hopscotch_table \<Rightarrow> nat \<Rightarrow> nat \<Rightarrow> nat \<Rightarrow> hopscotch_table" where
  "displace ht free_index logical_bin victim =
     (let physical_elt = logical_bin + victim;
          bits = get_hop_mask ht logical_bin;
          displacement = free_index - logical_bin;
          ht = put_pair ht free_index (ht_keys ht ! physical_elt) (get_val ht physical_elt);
          ht = put_pair ht physical_elt 0 0
      in set_hop_mask ht logical_bin
           (bits XOR (push_bit displacement 1 OR push_bit victim 1)))"

lemma bit_bitmask_of_width: "n \<le> 32 \<Longrightarrow> bit (bitmask_of_width n) j \<longleftrightarrow> j < n"
proof -
  assume n: "n \<le> 32"
  have "(0xFFFFFFFF :: u32) = - 1" by simp
  then have "bit (bitmask_of_width n) j \<longleftrightarrow> 32 - n + j < 32"
    by (simp only: bitmask_of_width_def bit_mask_shift)
  with n show ?thesis by linarith
qed

lemma find_victim_SomeD:
  assumes "find_victim hs free_index bins = Some (b, v)"
  shows "b \<in> set bins \<and> bit (hs ! b) v \<and> bit (bitmask_of_width (free_index - b)) v"
  using assms
proof (induction hs free_index bins rule: find_victim.induct)
  case (1 hs free_index)
  then show ?case by simp
next
  case (2 hs free_index logical_bin bins)
  let ?m = "hs ! logical_bin AND bitmask_of_width (free_index - logical_bin)"
  show ?case
  proof (cases "?m = 0")
    case True
    with 2 show ?thesis by simp
  next
    case False
    with 2(2) have bv: "b = logical_bin" "v = ffs32 ?m - 1" by auto
    from ffs32_bit[OF False] bv have "bit ?m v" by simp
    with bv show ?thesis by (simp add: bit_and_iff)
  qed
qed

lemma bit_bitmask_of_width_less: "bit (bitmask_of_width n) j \<Longrightarrow> j < n"
proof -
  assume b: "bit (bitmask_of_width n) j"
  have "(0xFFFFFFFF :: u32) = - 1" by simp
  with b have "32 - n + j < 32"
    by (simp only: bitmask_of_width_def bit_mask_shift)
  then show ?thesis by linarith
qed

lemma find_victim_less:
  "find_victim hs free_index bins = Some (b, v) \<Longrightarrow> b + v < free_index"
  by (drule find_victim_SomeD) (auto dest!: bit_bitmask_of_width_less)

text \<open>The \<open>retry\<close> loop: \<open>Inr\<close> with the table after the key was placed, \<open>Inl\<close> with
  the table as the displacements made so far have left it when nothing more can move.\<close>

function hop_place ::
  "hopscotch_table \<Rightarrow> nat \<Rightarrow> nat \<Rightarrow> uword \<Rightarrow> uword \<Rightarrow> hopscotch_table + hopscotch_table" where
  "hop_place ht desired free_index key v =
     (if free_index - desired < ht_hop_range ht then
        Inr ((set_hop_bit (put_pair ht free_index key v) desired (free_index - desired))
               \<lparr>ht_count := Suc (ht_count ht)\<rparr>)
      else (case find_victim (ht_hops ht) free_index (victim_bins ht free_index) of
          None \<Rightarrow> Inl ht
        | Some (b, victim) \<Rightarrow>
            hop_place (displace ht free_index b victim) desired (b + victim) key v))"
  by pat_completeness auto
termination
  by (relation "measure (\<lambda>(ht, desired, free_index, key, v). free_index)")
     (auto dest: find_victim_less)

declare hop_place.simps [simp del]

text \<open>One attempt at an insertion in the table as it is: \<open>Inr\<close> when the key was placed,
  \<open>Inl\<close> with the table so far where the code goes on to resize or, while rehashing, gives
  up.\<close>

definition insert_attempt ::
  "hopscotch_table \<Rightarrow> uword \<Rightarrow> uword \<Rightarrow> hopscotch_table + hopscotch_table" where
  "insert_attempt ht key v =
     (let desired_index = home ht key
      in if ht_keys ht ! desired_index = 0 then
           Inr ((set_hop_bit (put_pair ht desired_index key v) desired_index 0)
                  \<lparr>ht_count := Suc (ht_count ht)\<rparr>)
         else if \<not> ht_rehashing ht \<and> int (ht_count ht) \<ge> ht_threshold ht then Inl ht
         else (case find_free (ht_keys ht) desired_index (hopscotch_max_key_index ht) of
             None \<Rightarrow> Inl ht
           | Some free_index \<Rightarrow> hop_place ht desired_index free_index key v))"

section \<open>Resizing and insertion\<close>

text \<open>The pairs of the old table in the order the rehash loop visits them, from the highest
  index down. A hash set passes the value 1, which is ignored.\<close>

definition live_pairs :: "hopscotch_table \<Rightarrow> (uword \<times> uword) list" where
  "live_pairs ht =
     map (\<lambda>i. (ht_keys ht ! i, if ht_value_size ht \<noteq> 0 then get_val ht i else 1))
       (filter (\<lambda>i. ht_keys ht ! i \<noteq> 0) (rev [0..<Suc (hopscotch_max_key_index ht)]))"

text \<open>The copy has \<open>rehashing\<close> set, so that an insertion into it never resizes. The doubled
  size is an \<open>int\<close>: past \<open>2 ^ 31\<close> the C code is undefined, and the model has no result.\<close>

fun rehash_into :: "hopscotch_table \<Rightarrow> (uword \<times> uword) list \<Rightarrow> hopscotch_table option" where
  "rehash_into copy [] = Some copy"
| "rehash_into copy ((k, v) # kvs) =
     (case insert_attempt copy k v of
        Inl _ \<Rightarrow> None
      | Inr copy' \<Rightarrow> rehash_into copy' kvs)"

fun resize_loop ::
  "hash_env \<Rightarrow> nat \<Rightarrow> hopscotch_table \<Rightarrow> nat \<Rightarrow> hopscotch_table option" where
  "resize_loop env 0 ht sz = None"
| "resize_loop env (Suc fuel) ht sz =
     (let sz = sz * 2
      in if sz \<ge> 2 ^ 31 then None
         else case hopscotch_create env (ht_hashfun ht) (ht_value_size ht) sz 0 of
           None \<Rightarrow> None
         | Some copy \<Rightarrow>
             let copy = (if ht_hop_range copy > 16 \<and> ht_hash copy = None
                         then copy\<lparr>ht_hash := Some hopscotch_hmix\<rparr> else copy);
                 copy = copy\<lparr>ht_rehashing := True\<rparr>
             in case rehash_into copy (live_pairs ht) of
                  Some copy \<Rightarrow> Some copy
                | None \<Rightarrow> resize_loop env fuel ht sz)"

definition hopscotch_resize_up ::
  "hash_env \<Rightarrow> nat \<Rightarrow> hopscotch_table \<Rightarrow> hopscotch_table option" where
  "hopscotch_resize_up env fuel ht =
     (case resize_loop env fuel ht (unat (ht_mask ht) + 1) of
        None \<Rightarrow> None
      | Some copy \<Rightarrow> Some (ht
          \<lparr>ht_hash := ht_hash copy, ht_mem_size := ht_mem_size copy,
           ht_mask := ht_mask copy, ht_hop_range := ht_hop_range copy,
           ht_threshold := ht_threshold copy, ht_keys := ht_keys copy,
           ht_hops := ht_hops copy, ht_vals := ht_vals copy, ht_resized := True\<rparr>))"

text \<open>The result is the table and the returned count, 0 for a failed insertion into a table
  that is being rehashed.\<close>

fun hopscotch_insert ::
  "hash_env \<Rightarrow> nat \<Rightarrow> hopscotch_table \<Rightarrow> uword \<Rightarrow> uword \<Rightarrow> (hopscotch_table \<times> nat) option" where
  "hopscotch_insert env 0 ht key v = None"
| "hopscotch_insert env (Suc fuel) ht key v =
     (case insert_attempt ht key v of
        Inr ht' \<Rightarrow> Some (ht', ht_count ht')
      | Inl ht' \<Rightarrow>
          if ht_rehashing ht' then Some (ht', 0)
          else (case hopscotch_resize_up env (Suc fuel) ht' of
                  None \<Rightarrow> None
                | Some ht'' \<Rightarrow> hopscotch_insert env fuel ht'' key v))"

section \<open>Lookup\<close>

text \<open>With a custom comparator: one hop bit at a time. The result is the cell found.\<close>

function probe_bits :: "(uword \<Rightarrow> bool) \<Rightarrow> uword list \<Rightarrow> u32 \<Rightarrow> nat \<Rightarrow> nat option" where
  "probe_bits eq ks bits index =
     (if bits = 0 then None
      else if bit bits 0 \<and> eq (ks ! index) then Some index
      else probe_bits eq ks (drop_bit 1 bits) (Suc index))"
  by pat_completeness auto
termination
  by (relation "measure (\<lambda>(eq, ks, bits, index). unat bits)")
     (auto simp del: drop_bit_Suc drop_bit_eq_div intro!: unat_drop_bit_less)

declare probe_bits.simps [simp del]

text \<open>The unrolled loop of \<open>hopscotch_get\<close>, \<open>_get_ref\<close> and \<open>_put\<close>: where any of the
  low four bits is set, all four cells are compared, whether owned or not.\<close>

function probe4 :: "uword \<Rightarrow> uword list \<Rightarrow> u32 \<Rightarrow> nat \<Rightarrow> nat option" where
  "probe4 key ks bits index =
     (if bits = 0 then None
      else if bits AND 0xf \<noteq> 0 \<and> ks ! (index + 0) = key then Some (index + 0)
      else if bits AND 0xf \<noteq> 0 \<and> ks ! (index + 1) = key then Some (index + 1)
      else if bits AND 0xf \<noteq> 0 \<and> ks ! (index + 2) = key then Some (index + 2)
      else if bits AND 0xf \<noteq> 0 \<and> ks ! (index + 3) = key then Some (index + 3)
      else probe4 key ks (drop_bit 4 bits) (index + 4))"
  by pat_completeness auto
termination
  by (relation "measure (\<lambda>(key, ks, bits, index). unat bits)")
     (auto simp del: drop_bit_eq_div intro!: unat_drop_bit_less)

declare probe4.simps [simp del]

text \<open>The 8-way unrolled loop of \<open>hopscotch_containsp\<close>.\<close>

function probe8 :: "uword \<Rightarrow> uword list \<Rightarrow> u32 \<Rightarrow> nat \<Rightarrow> bool" where
  "probe8 key ks bits index =
     (if bits AND 0xff \<noteq> 0 \<and>
         (ks ! (index + 0) = key \<or> ks ! (index + 1) = key \<or> ks ! (index + 2) = key \<or>
          ks ! (index + 3) = key \<or> ks ! (index + 4) = key \<or> ks ! (index + 5) = key \<or>
          ks ! (index + 6) = key \<or> ks ! (index + 7) = key)
      then True
      else if drop_bit 8 bits \<noteq> 0 then probe8 key ks (drop_bit 8 bits) (index + 8)
      else False)"
  by pat_completeness auto
termination
  by (relation "measure (\<lambda>(key, ks, bits, index). unat bits)")
     (auto simp del: drop_bit_eq_div intro!: unat_drop_bit_less)

declare probe8.simps [simp del]

definition lookup_index :: "hopscotch_table \<Rightarrow> uword \<Rightarrow> nat option" where
  "lookup_index ht key =
     (let index = home ht key;
          bits = get_hop_mask ht index
      in case ht_compare ht of
           Some cmp \<Rightarrow> probe_bits (\<lambda>k. cmp k key) (ht_keys ht) bits index
         | None \<Rightarrow> probe4 key (ht_keys ht) bits index)"

definition hopscotch_containsp :: "hopscotch_table \<Rightarrow> uword \<Rightarrow> bool" where
  "hopscotch_containsp ht key =
     (let index = home ht key;
          bits = get_hop_mask ht index
      in case ht_compare ht of
           Some cmp \<Rightarrow> probe_bits (\<lambda>k. cmp k key) (ht_keys ht) bits index \<noteq> None
         | None \<Rightarrow> probe8 key (ht_keys ht) bits index)"

definition hopscotch_get :: "hopscotch_table \<Rightarrow> uword \<Rightarrow> uword \<Rightarrow> uword" where
  "hopscotch_get ht key notfound =
     (case lookup_index ht key of Some i \<Rightarrow> get_val ht i | None \<Rightarrow> notfound)"

section \<open>Updates\<close>

text \<open>The returned reference is the index of the value cell.\<close>

fun hopscotch_get_ref ::
  "hash_env \<Rightarrow> nat \<Rightarrow> hopscotch_table \<Rightarrow> uword \<Rightarrow> (hopscotch_table \<times> nat) option" where
  "hopscotch_get_ref env 0 ht key = None"
| "hopscotch_get_ref env (Suc fuel) ht key =
     (case lookup_index ht key of
        Some i \<Rightarrow> Some (ht, i)
      | None \<Rightarrow> (case hopscotch_insert env (Suc fuel) ht key 0 of
                   None \<Rightarrow> None
                 | Some (ht', _) \<Rightarrow> hopscotch_get_ref env fuel ht' key))"

definition hopscotch_put ::
  "hash_env \<Rightarrow> nat \<Rightarrow> hopscotch_table \<Rightarrow> uword \<Rightarrow> uword \<Rightarrow> (hopscotch_table \<times> nat) option" where
  "hopscotch_put env fuel ht key v =
     (case lookup_index ht key of
        Some i \<Rightarrow> Some (set_val ht i v, 0)
      | None \<Rightarrow> hopscotch_insert env fuel ht key v)"

definition hopscotch_delete :: "hopscotch_table \<Rightarrow> uword \<Rightarrow> hopscotch_table \<times> nat" where
  "hopscotch_delete ht key =
     (let logical_index = home ht key;
          bits = get_hop_mask ht logical_index;
          eq = (case ht_compare ht of Some cmp \<Rightarrow> (\<lambda>k. cmp k key) | None \<Rightarrow> (\<lambda>k. k = key))
      in case probe_bits eq (ht_keys ht) bits logical_index of
           None \<Rightarrow> (ht, 0)
         | Some physical_index \<Rightarrow>
             let ht = ht\<lparr>ht_keys := (ht_keys ht)[physical_index := 0]\<rparr>;
                 ht = set_val ht physical_index 0;
                 ht = set_hop_mask ht logical_index
                        (get_hop_mask ht logical_index XOR
                         push_bit (physical_index - logical_index) 1)
             in (ht\<lparr>ht_count := ht_count ht - 1\<rparr>, 1))"

definition hopscotch_reset :: "hopscotch_table \<Rightarrow> hopscotch_table" where
  "hopscotch_reset ht =
     (let ht = (if ht_count ht \<noteq> 0
                then ht\<lparr>ht_keys := map (\<lambda>_. 0) (ht_keys ht),
                        ht_hops := map (\<lambda>_. 0) (ht_hops ht),
                        ht_vals := map (\<lambda>_. 0) (ht_vals ht), ht_count := 0\<rparr>
                else ht);
          sz = table_size ht;
          ht = (if sz > 2 * ht_prev_size ht
                   \<or> (sz = ht_prev_size ht \<and> \<not> ht_resized ht \<and> sz > 8)
                then hopscotch_realloc ht (sz div 2) 0 else ht)
      in ht\<lparr>ht_prev_size := sz, ht_resized := False,
            ht_hash := (if ht_hashfun ht = 1 then None else ht_hash ht)\<rparr>)"

end
