(* ===== verification/HopscotchInv.thy ===== *)
theory HopscotchInv
  imports Hopscotch
begin

text \<open>
  The invariant of a hopscotch table and its preservation: \<open>layout\<close> relates the key array
  and the hop masks (a hop bit is set exactly for a cell that holds a key of that bin, every
  key lies within \<open>hop_range\<close> cells of its bin, no key occurs twice), \<open>hs_inv\<close> adds the
  sizes, the count and the value array.
\<close>

unbundle bit_operations_syntax

section \<open>The layout of keys and hop masks\<close>

definition layout ::
  "(uword \<Rightarrow> nat) \<Rightarrow> nat \<Rightarrow> nat \<Rightarrow> uword list \<Rightarrow> u32 list \<Rightarrow> bool" where
  "layout hm hr n ks hs \<longleftrightarrow>
     length hs = n \<and> length ks = n + (hr - 1) \<and> 0 < hr \<and> hr \<le> 32 \<and> (\<forall>k. hm k < n) \<and>
     (\<forall>i<n. \<forall>j. bit (hs ! i) j \<longleftrightarrow> j < hr \<and> ks ! (i + j) \<noteq> 0 \<and> hm (ks ! (i + j)) = i) \<and>
     (\<forall>p<length ks. ks ! p \<noteq> 0 \<longrightarrow> hm (ks ! p) \<le> p \<and> p < hm (ks ! p) + hr) \<and>
     (\<forall>p<length ks. \<forall>q<length ks. ks ! p \<noteq> 0 \<longrightarrow> ks ! p = ks ! q \<longrightarrow> p = q)"

lemma layoutD:
  assumes "layout hm hr n ks hs"
  shows "length hs = n" "length ks = n + (hr - 1)" "0 < hr" "hr \<le> 32" "hm k < n"
    "i < n \<Longrightarrow> bit (hs ! i) j \<longleftrightarrow> j < hr \<and> ks ! (i + j) \<noteq> 0 \<and> hm (ks ! (i + j)) = i"
    "p < length ks \<Longrightarrow> ks ! p \<noteq> 0 \<Longrightarrow> hm (ks ! p) \<le> p"
    "p < length ks \<Longrightarrow> ks ! p \<noteq> 0 \<Longrightarrow> p < hm (ks ! p) + hr"
    "p < length ks \<Longrightarrow> q < length ks \<Longrightarrow> ks ! p \<noteq> 0 \<Longrightarrow> ks ! p = ks ! q \<Longrightarrow> p = q"
  using assms by (auto simp: layout_def)

lemma layout_empty:
  assumes "\<And>k. hm k < n" and "0 < hr" and "hr \<le> 32"
  shows "layout hm hr n (replicate (n + (hr - 1)) 0) (replicate n 0)"
  using assms by (auto simp: layout_def)

lemma layout_put:
  assumes L: "layout hm hr n ks hs"
    and p: "p < length ks" and free: "ks ! p = 0"
    and k: "k \<noteq> 0" and lo: "hm k \<le> p" and hi: "p < hm k + hr"
    and new: "k \<notin> set ks"
  shows "layout hm hr n (ks[p := k]) (hs[hm k := hs ! hm k OR push_bit (p - hm k) 1])"
proof -
  note D = layoutD[OF L]
  let ?ks = "ks[p := k]" and ?hs = "hs[hm k := hs ! hm k OR push_bit (p - hm k) 1]"
  have d32: "p - hm k < LENGTH(32)" using hi D(4) lo by simp
  have "bit (?hs ! i) j \<longleftrightarrow> j < hr \<and> ?ks ! (i + j) \<noteq> 0 \<and> hm (?ks ! (i + j)) = i"
    if i: "i < n" for i j
  proof (cases "i = hm k")
    case True
    have "bit (?hs ! i) j \<longleftrightarrow> bit (hs ! i) j \<or> j = p - hm k"
      using True D(1) i d32 by simp
    also have "\<dots> \<longleftrightarrow> j < hr \<and> ?ks ! (i + j) \<noteq> 0 \<and> hm (?ks ! (i + j)) = i"
      using True D(6)[OF i, of j] free k lo hi p
      by (cases "i + j = p") auto
    finally show ?thesis .
  next
    case False
    then have "bit (?hs ! i) j \<longleftrightarrow> bit (hs ! i) j" by simp
    also have "\<dots> \<longleftrightarrow> j < hr \<and> ?ks ! (i + j) \<noteq> 0 \<and> hm (?ks ! (i + j)) = i"
      using False D(6)[OF i, of j] free p by (cases "i + j = p") auto
    finally show ?thesis .
  qed
  moreover have "hm (?ks ! q) \<le> q \<and> q < hm (?ks ! q) + hr"
    if "q < length ?ks" "?ks ! q \<noteq> 0" for q
    using that D(7,8)[of q] lo hi p by (cases "q = p") auto
  moreover have "q = r"
    if "q < length ?ks" "r < length ?ks" "?ks ! q \<noteq> 0" "?ks ! q = ?ks ! r" for q r
  proof (cases "q = p"; cases "r = p")
    assume "q \<noteq> p" "r \<noteq> p"
    with that D(9)[of q r] show ?thesis by simp
  next
    assume "q = p" "r \<noteq> p"
    with that p have "k = ks ! r" by simp
    with new that show ?thesis by simp
  next
    assume "q \<noteq> p" "r = p"
    with that p have "ks ! q = k" by simp
    with new that show ?thesis by auto
  qed simp
  ultimately show ?thesis
    using D(1-5) unfolding layout_def by simp
qed

lemma layout_clear:
  assumes L: "layout hm hr n ks hs"
    and p: "p < length ks" and k: "ks ! p = k" "k \<noteq> 0"
  shows "layout hm hr n (ks[p := 0]) (hs[hm k := hs ! hm k XOR push_bit (p - hm k) 1])"
proof -
  note D = layoutD[OF L]
  let ?ks = "ks[p := 0]" and ?hs = "hs[hm k := hs ! hm k XOR push_bit (p - hm k) 1]"
  have lo: "hm k \<le> p" and hi: "p < hm k + hr" using D(7,8)[OF p] k by auto
  have d32: "p - hm k < LENGTH(32)" using hi D(4) lo by simp
  have "bit (?hs ! i) j \<longleftrightarrow> j < hr \<and> ?ks ! (i + j) \<noteq> 0 \<and> hm (?ks ! (i + j)) = i"
    if i: "i < n" for i j
  proof (cases "i = hm k")
    case True
    have "bit (?hs ! i) j \<longleftrightarrow> (if j = p - hm k then \<not> bit (hs ! i) j else bit (hs ! i) j)"
      using True D(1) i d32 by simp
    also have "\<dots> \<longleftrightarrow> j < hr \<and> ?ks ! (i + j) \<noteq> 0 \<and> hm (?ks ! (i + j)) = i"
      using True D(6)[OF i, of j] k lo hi p by (cases "i + j = p") auto
    finally show ?thesis .
  next
    case False
    then have "bit (?hs ! i) j \<longleftrightarrow> bit (hs ! i) j" by simp
    also have "\<dots> \<longleftrightarrow> j < hr \<and> ?ks ! (i + j) \<noteq> 0 \<and> hm (?ks ! (i + j)) = i"
      using False D(6)[OF i, of j] k p by (cases "i + j = p") auto
    finally show ?thesis .
  qed
  moreover have "hm (?ks ! q) \<le> q \<and> q < hm (?ks ! q) + hr"
    if "q < length ?ks" "?ks ! q \<noteq> 0" for q
    using that D(7,8)[of q] p by (cases "q = p") auto
  moreover have "q = r"
    if "q < length ?ks" "r < length ?ks" "?ks ! q \<noteq> 0" "?ks ! q = ?ks ! r" for q r
    using that D(9)[of q r] p
    by (auto simp: nth_list_update split: if_splits)
  ultimately show ?thesis
    using D(1-5) unfolding layout_def by simp
qed

lemma notin_after_clear:
  assumes "layout hm hr n ks hs" "p < length ks" "ks ! p = k" "k \<noteq> 0"
  shows "k \<notin> set (ks[p := 0])"
proof
  assume "k \<in> set (ks[p := 0])"
  then obtain q where q: "q < length ks" "ks[p := 0] ! q = k"
    by (auto simp: in_set_conv_nth)
  with assms(2,4) have "q \<noteq> p" by auto
  with q have "ks ! q = k" by simp
  with layoutD(9)[OF assms(1) q(1) assms(2)] assms(3,4) \<open>q \<noteq> p\<close> show False by auto
qed

text \<open>Moving a key to a free cell of its neighbourhood, the way \<open>displace\<close> does it.\<close>

lemma layout_move:
  assumes L: "layout hm hr n ks hs"
    and p: "p < length ks" and k: "ks ! p = k" "k \<noteq> 0"
    and q: "q < length ks" and free: "ks ! q = 0"
    and lo: "hm k \<le> q" and hi: "q < hm k + hr"
  shows "layout hm hr n ((ks[q := k])[p := 0])
           (hs[hm k := hs ! hm k XOR (push_bit (q - hm k) 1 OR push_bit (p - hm k) 1)])"
proof -
  let ?h1 = "hs[hm k := hs ! hm k XOR push_bit (p - hm k) 1]"
  note D = layoutD[OF L]
  have pq: "p \<noteq> q" using k free by auto
  have lop: "hm k \<le> p" and hip: "p < hm k + hr" using D(7,8)[OF p] k by auto
  have hk: "hm k < length hs" using D(1,5) by simp
  have "layout hm hr n ((ks[p := 0])[q := k])
          (?h1[hm k := ?h1 ! hm k OR push_bit (q - hm k) 1])"
    using layout_put[OF layout_clear[OF L p k], of q k]
      notin_after_clear[OF L p k] q free pq k lo hi by simp
  moreover have "(ks[p := 0])[q := k] = (ks[q := k])[p := 0]"
    using pq by (simp add: list_update_swap)
  moreover have "?h1[hm k := ?h1 ! hm k OR push_bit (q - hm k) 1] =
      hs[hm k := hs ! hm k XOR (push_bit (q - hm k) 1 OR push_bit (p - hm k) 1)]"
  proof -
    have bp: "bit (hs ! hm k) (p - hm k)"
      using D(6)[of "hm k" "p - hm k"] D(5) lop hip k by simp
    have bq: "\<not> bit (hs ! hm k) (q - hm k)"
      using D(6)[of "hm k" "q - hm k"] D(5) lo hi free by simp
    have s: "p - hm k < LENGTH(32)" "q - hm k < LENGTH(32)"
      using lop hip lo hi D(4) by auto
    have ne: "p - hm k \<noteq> q - hm k" using pq lop lo by linarith
    have "(hs ! hm k XOR push_bit (p - hm k) 1) OR push_bit (q - hm k) 1 =
          hs ! hm k XOR (push_bit (q - hm k) 1 OR push_bit (p - hm k) 1)"
      using s ne bp bq
      by (auto intro!: bit_word_eqI simp: bit_or_iff bit_xor_iff bit_exp_iff)
    then show ?thesis using hk by simp
  qed
  ultimately show ?thesis by simp
qed

section \<open>The table invariant and the map it represents\<close>

definition hs_keys :: "hopscotch_table \<Rightarrow> uword set" where
  "hs_keys ht = set (ht_keys ht) - {0}"

definition hs_inv :: "hopscotch_table \<Rightarrow> bool" where
  "hs_inv ht \<longleftrightarrow>
     layout (home ht) (ht_hop_range ht) (table_size ht) (ht_keys ht) (ht_hops ht) \<and>
     8 dvd ht_hop_range ht \<and>
     ht_value_size ht \<in> {0, 1, 2, 4, 8} \<and>
     length (ht_vals ht) = (if ht_value_size ht = 0 then 0 else length (ht_keys ht)) \<and>
     (\<forall>p<length (ht_vals ht). trunc_val (ht_value_size ht) (ht_vals ht ! p) = ht_vals ht ! p) \<and>
     (\<forall>p<length (ht_vals ht). ht_keys ht ! p = 0 \<longrightarrow> ht_vals ht ! p = 0) \<and>
     ht_count ht = card (hs_keys ht)"

text \<open>The cell of a key, found by scanning the whole key array: the specification that the
  probing loops are measured against.\<close>

definition cell_of :: "hopscotch_table \<Rightarrow> uword \<Rightarrow> nat option" where
  "cell_of ht k =
     (if k = 0 then None else List.find (\<lambda>i. ht_keys ht ! i = k) [0..<length (ht_keys ht)])"

definition hs_map :: "hopscotch_table \<Rightarrow> uword \<Rightarrow> uword option" where
  "hs_map ht k = map_option (get_val ht) (cell_of ht k)"

text \<open>Fields that insertions and deletions without a resize leave alone.\<close>

definition same_shape :: "hopscotch_table \<Rightarrow> hopscotch_table \<Rightarrow> bool" where
  "same_shape a b \<longleftrightarrow>
     ht_hash a = ht_hash b \<and> ht_compare a = ht_compare b \<and> ht_mask a = ht_mask b \<and>
     ht_hop_range a = ht_hop_range b \<and> ht_threshold a = ht_threshold b \<and>
     ht_prev_size a = ht_prev_size b \<and> ht_mem_size a = ht_mem_size b \<and>
     ht_value_size a = ht_value_size b \<and> ht_hashfun a = ht_hashfun b \<and>
     ht_resized a = ht_resized b \<and> ht_rehashing a = ht_rehashing b"

lemma same_shape_refl [simp]: "same_shape a a"
  by (simp add: same_shape_def)

lemma same_shape_trans: "same_shape a b \<Longrightarrow> same_shape b c \<Longrightarrow> same_shape a c"
  by (simp add: same_shape_def)

lemma same_shape_home: "same_shape a b \<Longrightarrow> home a = home b"
  by (simp add: same_shape_def home_def hash_def fun_eq_iff)

lemma home_upd [simp]:
  "home (ht\<lparr>ht_keys := ks\<rparr>) = home ht" "home (ht\<lparr>ht_hops := hs\<rparr>) = home ht"
  "home (ht\<lparr>ht_vals := vs\<rparr>) = home ht" "home (ht\<lparr>ht_count := c\<rparr>) = home ht"
  by (simp_all add: home_def hash_def fun_eq_iff)

lemma table_size_upd [simp]:
  "table_size (ht\<lparr>ht_keys := ks\<rparr>) = table_size ht"
  "table_size (ht\<lparr>ht_hops := hs\<rparr>) = table_size ht"
  "table_size (ht\<lparr>ht_vals := vs\<rparr>) = table_size ht"
  "table_size (ht\<lparr>ht_count := c\<rparr>) = table_size ht"
  by (simp_all add: table_size_def)

lemma home_less: "home ht k < table_size ht"
  by (simp add: home_def table_size_def less_Suc_eq_le unat_and_le2)

lemma trunc_val_0 [simp]: "trunc_val n 0 = 0"
  by (simp add: trunc_val_def)

lemma trunc_val_idem [simp]: "trunc_val n (trunc_val n v) = trunc_val n v"
  by (simp add: trunc_val_def signed_take_bit_signed_take_bit)

lemma put_pair_simps [rt_simps]:
  "ht_keys (put_pair ht i k v) = (ht_keys ht)[i := k]"
  "ht_hops (put_pair ht i k v) = ht_hops ht"
  "ht_count (put_pair ht i k v) = ht_count ht"
  "ht_value_size ht \<in> {0, 1, 2, 4, 8} \<Longrightarrow> ht_vals (put_pair ht i k v) =
     (if ht_value_size ht = 0 then ht_vals ht
      else (ht_vals ht)[i := trunc_val (ht_value_size ht) v])"
  "home (put_pair ht i k v) = home ht"
  "table_size (put_pair ht i k v) = table_size ht"
  "ht_hop_range (put_pair ht i k v) = ht_hop_range ht"
  "ht_value_size (put_pair ht i k v) = ht_value_size ht"
  "same_shape ht (put_pair ht i k v)"
  by (auto simp: put_pair_def set_val_def Let_def same_shape_def)

lemma set_hop_simps [rt_simps]:
  "ht_keys (set_hop_mask ht i b) = ht_keys ht"
  "ht_hops (set_hop_mask ht i b) = (ht_hops ht)[i := b]"
  "ht_count (set_hop_mask ht i b) = ht_count ht"
  "ht_vals (set_hop_mask ht i b) = ht_vals ht"
  "home (set_hop_mask ht i b) = home ht"
  "table_size (set_hop_mask ht i b) = table_size ht"
  "ht_hop_range (set_hop_mask ht i b) = ht_hop_range ht"
  "ht_value_size (set_hop_mask ht i b) = ht_value_size ht"
  "set_hop_bit ht i n = set_hop_mask ht i (ht_hops ht ! i OR push_bit n 1)"
  "same_shape ht (set_hop_mask ht i b)"
  by (auto simp: set_hop_mask_def set_hop_bit_def same_shape_def)

lemma hs_invD:
  assumes "hs_inv ht"
  shows "layout (home ht) (ht_hop_range ht) (table_size ht) (ht_keys ht) (ht_hops ht)"
    "8 dvd ht_hop_range ht" "ht_value_size ht \<in> {0, 1, 2, 4, 8}"
    "length (ht_vals ht) = (if ht_value_size ht = 0 then 0 else length (ht_keys ht))"
    "p < length (ht_vals ht) \<Longrightarrow> trunc_val (ht_value_size ht) (ht_vals ht ! p) = ht_vals ht ! p"
    "p < length (ht_vals ht) \<Longrightarrow> ht_keys ht ! p = 0 \<Longrightarrow> ht_vals ht ! p = 0"
    "ht_count ht = card (hs_keys ht)"
  using assms by (auto simp: hs_inv_def)

lemma cell_of_Some:
  assumes "hs_inv ht"
  shows "cell_of ht k = Some p \<longleftrightarrow> k \<noteq> 0 \<and> p < length (ht_keys ht) \<and> ht_keys ht ! p = k"
proof -
  have "ht_keys ht ! j \<noteq> k" if "k \<noteq> 0" "p < length (ht_keys ht)" "ht_keys ht ! p = k" "j < p" for j
    using layoutD(9)[OF hs_invD(1)[OF assms], of p j] that by auto
  then show ?thesis by (auto simp: cell_of_def find_upt_Some)
qed

lemma cell_of_None: "cell_of ht k = None \<longleftrightarrow> k \<notin> hs_keys ht"
  by (auto simp: cell_of_def find_upt_None hs_keys_def in_set_conv_nth)

lemma hs_map_Some:
  assumes "hs_inv ht"
  shows "hs_map ht k = Some v \<longleftrightarrow>
    k \<noteq> 0 \<and> (\<exists>p<length (ht_keys ht). ht_keys ht ! p = k \<and> get_val ht p = v)"
  by (auto simp: hs_map_def cell_of_Some[OF assms])

lemma dom_hs_map: "dom (hs_map ht) = hs_keys ht"
  using cell_of_None[of ht] by (auto simp: dom_def hs_map_def)

lemma hs_map_None: "hs_map ht k = None \<longleftrightarrow> k \<notin> hs_keys ht"
  by (simp add: hs_map_def cell_of_None)

lemma set_update_fresh:
  assumes "p < length ks" "ks ! p = 0" "k \<noteq> (0 :: uword)"
  shows "set (ks[p := k]) - {0} = insert k (set ks - {0})"
proof -
  have "x \<in> set (ks[p := k])" if x: "x \<in> set ks" "x \<noteq> 0" for x
  proof -
    from x obtain q where "q < length ks" "ks ! q = x" by (auto simp: in_set_conv_nth)
    moreover from this x assms(2) have "q \<noteq> p" by auto
    ultimately show ?thesis by (metis length_list_update nth_list_update_neq nth_mem)
  qed
  moreover have "k \<in> set (ks[p := k])" using assms(1) by (rule set_update_memI)
  moreover have "set (ks[p := k]) \<subseteq> insert k (set ks)" by (rule set_update_subset_insert)
  ultimately show ?thesis using assms(3) by auto
qed

section \<open>Placing a key in a free cell\<close>

lemma get_val_eq:
  "get_val ht p = (if ht_value_size ht \<in> {1, 2, 4, 8} then ht_vals ht ! p else of_nat (p + 1))"
  by (simp add: get_val_def)

definition placed :: "hopscotch_table \<Rightarrow> nat \<Rightarrow> uword \<Rightarrow> uword \<Rightarrow> hopscotch_table" where
  "placed ht p k v =
     (set_hop_bit (put_pair ht p k v) (home ht k) (p - home ht k))
       \<lparr>ht_count := Suc (ht_count ht)\<rparr>"

lemma placed_correct:
  assumes I: "hs_inv ht"
    and p: "p < length (ht_keys ht)" and free: "ht_keys ht ! p = 0"
    and k: "k \<noteq> 0" and lo: "home ht k \<le> p" and hi: "p < home ht k + ht_hop_range ht"
    and new: "k \<notin> hs_keys ht"
  shows "hs_inv (placed ht p k v)"
    and "hs_keys (placed ht p k v) = insert k (hs_keys ht)"
    and "ht_value_size ht \<noteq> 0 \<Longrightarrow>
           hs_map (placed ht p k v) = (hs_map ht)(k \<mapsto> trunc_val (ht_value_size ht) v)"
    and "same_shape ht (placed ht p k v)"
proof -
  note D = hs_invD[OF I]
  let ?t = "placed ht p k v"
  have new': "k \<notin> set (ht_keys ht)" using new k by (simp add: hs_keys_def)
  have keys: "ht_keys ?t = (ht_keys ht)[p := k]"
    and hops: "ht_hops ?t = (ht_hops ht)[home ht k := ht_hops ht ! home ht k OR push_bit (p - home ht k) 1]"
    and cnt: "ht_count ?t = Suc (ht_count ht)"
    and vals: "ht_vals ?t = (if ht_value_size ht = 0 then ht_vals ht
      else (ht_vals ht)[p := trunc_val (ht_value_size ht) v])"
    and vs: "ht_value_size ?t = ht_value_size ht"
    and hr: "ht_hop_range ?t = ht_hop_range ht" and hm: "home ?t = home ht"
    and ts: "table_size ?t = table_size ht"
    using D(3) by (simp_all add: placed_def rt_simps del: push_bit_of_1)
  show ks: "hs_keys ?t = insert k (hs_keys ht)"
    using set_update_fresh[OF p free k] by (simp add: hs_keys_def keys)
  have "layout (home ?t) (ht_hop_range ?t) (table_size ?t) (ht_keys ?t) (ht_hops ?t)"
    unfolding keys hops hm hr ts by (rule layout_put[OF D(1) p free k lo hi new'])
  moreover have "ht_count ?t = card (hs_keys ?t)"
    using ks cnt D(7) new by (simp add: hs_keys_def)
  moreover have "length (ht_vals ?t) = (if ht_value_size ?t = 0 then 0 else length (ht_keys ?t))"
    using D(4) by (simp add: vals vs keys)
  moreover have "trunc_val (ht_value_size ?t) (ht_vals ?t ! q) = ht_vals ?t ! q"
    if "q < length (ht_vals ?t)" for q
    using D(5)[of q] that by (cases "q = p") (auto simp: vals vs split: if_splits)
  moreover have "ht_keys ?t ! q = 0 \<longrightarrow> ht_vals ?t ! q = 0" if "q < length (ht_vals ?t)" for q
    using D(6)[of q] D(4) that k p by (cases "q = p") (auto simp: vals keys split: if_splits)
  ultimately show inv: "hs_inv ?t"
    using D(2,3) by (auto simp: hs_inv_def vs hr)
  show "same_shape ht ?t"
    using put_pair_simps(9)[of ht p k v] D(3) by (simp add: placed_def same_shape_def rt_simps set_hop_mask_def)
  assume vs0: "ht_value_size ht \<noteq> 0"
  then have vsn: "ht_value_size ht \<in> {1, 2, 4, 8}" using D(3) by auto
  show "hs_map ?t = (hs_map ht)(k \<mapsto> trunc_val (ht_value_size ht) v)"
  proof (rule map_eqI)
    fix x
    show "(hs_map ?t x = None) = (((hs_map ht)(k \<mapsto> trunc_val (ht_value_size ht) v)) x = None)"
      by (simp add: hs_map_None ks)
    fix w assume "hs_map ?t x = Some w"
    then obtain q where q: "x \<noteq> 0" "q < length (ht_keys ht)" "ht_keys ?t ! q = x" "get_val ?t q = w"
      using hs_map_Some[OF inv] by (auto simp: keys)
    show "((hs_map ht)(k \<mapsto> trunc_val (ht_value_size ht) v)) x = Some w"
    proof (cases "q = p")
      case True
      have x: "x = k" using q(3) p by (simp add: keys True)
      have "get_val ?t q = ht_vals ?t ! q" using vsn by (simp add: get_val_eq vs)
      also have "\<dots> = trunc_val (ht_value_size ht) v"
        using p vs0 D(4) by (simp add: vals True)
      finally show ?thesis using q(4) x by simp
    next
      case False
      then have "ht_keys ht ! q = x" using q(3) by (simp add: keys)
      moreover from this new' q have "x \<noteq> k" by auto
      moreover have "get_val ht q = w"
        using q(4) False vs0 vsn unfolding get_val_eq vs vals by simp
      ultimately show ?thesis using hs_map_Some[OF I, of x w] q by auto
    qed
  qed
qed

section \<open>Displacement\<close>

lemma set_move:
  assumes "p < length ks" "q < length ks" "ks ! p = k" "ks ! q = (0 :: uword)" "k \<noteq> 0"
    and uniq: "\<And>i. i < length ks \<Longrightarrow> ks ! i = k \<Longrightarrow> i = p"
  shows "set ((ks[q := k])[p := 0]) - {0} = set ks - {0}"
proof -
  have pq: "p \<noteq> q" using assms(3-5) by auto
  have "x \<in> set ((ks[q := k])[p := 0]) \<longleftrightarrow> x \<in> set ks" if x: "x \<noteq> 0" for x
  proof (cases "x = k")
    case True
    have "((ks[q := k])[p := 0]) ! q = k" using pq assms(2) by simp
    then have "k \<in> set ((ks[q := k])[p := 0])"
      using assms(2) by (metis length_list_update nth_mem)
    moreover have "k \<in> set ks" using assms(1,3) by auto
    ultimately show ?thesis using True by simp
  next
    case False
    have "((ks[q := k])[p := 0]) ! i = x \<longleftrightarrow> ks ! i = x" if "i < length ks" for i
      using that x False assms(1-4) by (auto simp: nth_list_update)
    then show ?thesis by (auto simp: in_set_conv_nth)
  qed
  then show ?thesis by auto
qed

text \<open>What the retry loop keeps: everything but the positions.\<close>

definition same_contents :: "hopscotch_table \<Rightarrow> hopscotch_table \<Rightarrow> bool" where
  "same_contents a b \<longleftrightarrow> same_shape a b \<and> hs_keys a = hs_keys b \<and>
     (ht_value_size a \<noteq> 0 \<longrightarrow> hs_map a = hs_map b)"

lemma same_contents_refl [simp]: "same_contents a a"
  by (simp add: same_contents_def)

lemma same_contents_trans: "same_contents a b \<Longrightarrow> same_contents b c \<Longrightarrow> same_contents a c"
  unfolding same_contents_def by (auto simp: same_shape_def)

lemma displace_correct:
  assumes I: "hs_inv ht"
    and q: "q < length (ht_keys ht)" and free: "ht_keys ht ! q = 0"
    and hit: "bit (ht_hops ht ! b) v" and b: "b < table_size ht"
    and lo: "b \<le> q" and hi: "q < b + ht_hop_range ht"
  shows "hs_inv (displace ht q b v)" "same_contents ht (displace ht q b v)"
    "b + v < length (ht_keys ht)" "ht_keys (displace ht q b v) ! (b + v) = 0"
proof -
  note D = hs_invD[OF I] and L = layoutD[OF hs_invD(1)[OF I]]
  let ?p = "b + v" and ?t = "displace ht q b v"
  define k where "k = ht_keys ht ! (b + v)"
  have v: "v < ht_hop_range ht" and k0: "k \<noteq> 0" and hk: "home ht k = b"
    using L(6)[OF b, of v] hit by (auto simp: k_def)
  show p: "?p < length (ht_keys ht)" using b v L(2,3) by simp
  have pq: "?p \<noteq> q" using free k0 k_def by auto
  have keys: "ht_keys ?t = ((ht_keys ht)[q := k])[?p := 0]"
    and hops: "ht_hops ?t = (ht_hops ht)[b := ht_hops ht ! b XOR (push_bit (q - b) 1 OR push_bit v 1)]"
    and cnt: "ht_count ?t = ht_count ht"
    and vs: "ht_value_size ?t = ht_value_size ht"
    and hr: "ht_hop_range ?t = ht_hop_range ht" and hm: "home ?t = home ht"
    and ts: "table_size ?t = table_size ht"
    using D(3) by (simp_all add: displace_def Let_def rt_simps get_hop_mask_def k_def del: push_bit_of_1)
  have vals: "ht_vals ?t = (if ht_value_size ht = 0 then ht_vals ht
      else ((ht_vals ht)[q := trunc_val (ht_value_size ht) (get_val ht ?p)])[?p := 0])"
    using D(3) by (auto simp: displace_def Let_def set_hop_mask_def put_pair_def set_val_def)
  show "ht_keys ?t ! ?p = 0" using p by (simp add: keys)
  have shape: "same_shape ht ?t"
    unfolding displace_def Let_def
    by (intro same_shape_trans[OF same_shape_trans[OF put_pair_simps(9) put_pair_simps(9)] set_hop_simps(10)])
  have uniq: "i = ?p" if "i < length (ht_keys ht)" "ht_keys ht ! i = k" for i
    using L(9)[OF that(1) p] that k0 by (simp add: k_def)
  have ks: "hs_keys ?t = hs_keys ht"
    unfolding hs_keys_def keys by (rule set_move[OF p q _ free k0 uniq]) (auto simp: k_def)
  have "layout (home ?t) (ht_hop_range ?t) (table_size ?t) (ht_keys ?t) (ht_hops ?t)"
    using layout_move[OF D(1) p k_def[symmetric] k0 q free] lo hi
    unfolding keys hops hm hr ts by (simp add: hk)
  moreover have "length (ht_vals ?t) = (if ht_value_size ?t = 0 then 0 else length (ht_keys ?t))"
    using D(4) by (simp add: vals vs keys)
  moreover have "trunc_val (ht_value_size ?t) (ht_vals ?t ! i) = ht_vals ?t ! i"
    if "i < length (ht_vals ?t)" for i
    using D(4) D(5)[of i] that p q
    by (simp add: vals vs nth_list_update split: if_splits)
  moreover have "ht_keys ?t ! i = 0 \<longrightarrow> ht_vals ?t ! i = 0" if "i < length (ht_vals ?t)" for i
    using D(6)[of i] D(4) that k0 p q pq
    by (simp add: vals keys nth_list_update split: if_splits)
  ultimately show inv: "hs_inv ?t"
    using D(2,3,7) by (auto simp: hs_inv_def vs hr cnt ks)
  have "hs_map ht = hs_map ?t" if vs0: "ht_value_size ht \<noteq> 0"
  proof (rule map_eqI)
    fix x
    show "(hs_map ht x = None) = (hs_map ?t x = None)" by (simp add: hs_map_None ks)
    fix w assume "hs_map ht x = Some w"
    then obtain i where i: "x \<noteq> 0" "i < length (ht_keys ht)" "ht_keys ht ! i = x" "get_val ht i = w"
      using hs_map_Some[OF I] by auto
    have len: "length (ht_vals ht) = length (ht_keys ht)" using D(4) vs0 by simp
    have vsn: "ht_value_size ht \<in> {1, 2, 4, 8}" using D(3) vs0 by auto
    show "hs_map ?t x = Some w"
    proof (cases "i = ?p")
      case True
      then have "ht_keys ?t ! q = x" using i q pq by (simp add: keys k_def)
      moreover have "get_val ?t q = w"
      proof -
        have w: "ht_vals ht ! ?p = w" using i(4) vsn by (simp add: get_val_eq True)
        have "get_val ?t q = ht_vals ?t ! q" using vsn by (simp add: get_val_eq vs)
        also have "\<dots> = trunc_val (ht_value_size ht) (ht_vals ht ! ?p)"
          using vs0 q len pq vsn by (simp add: vals get_val_eq)
        finally show ?thesis using D(5)[of ?p] p len w by simp
      qed
      ultimately show ?thesis using hs_map_Some[OF inv, of x w] i(1) q by (auto simp: keys)
    next
      case False
      moreover have "i \<noteq> q" using i free by auto
      ultimately have "ht_keys ?t ! i = x" "get_val ?t i = w"
        using i vs0 vsn unfolding keys get_val_eq vs vals by simp_all
      then show ?thesis using hs_map_Some[OF inv, of x w] i(1,2) by (auto simp: keys)
    qed
  qed
  with shape ks show "same_contents ht ?t" by (simp add: same_contents_def)
qed

section \<open>The retry loop and one insertion attempt\<close>

lemma victim_binsD:
  assumes "b \<in> set (victim_bins ht q)" and "ht_hop_range ht \<le> q"
    and "0 < ht_hop_range ht"
  shows "b < q" "q < b + ht_hop_range ht" "b < table_size ht"
  using assms by (auto simp: victim_bins_def table_size_def)

lemma find_victim_None:
  "find_victim hs q bins = None \<longleftrightarrow> (\<forall>b\<in>set bins. hs ! b AND bitmask_of_width (q - b) = 0)"
  by (induction hs q bins rule: find_victim.induct) (auto simp: Let_def)

text \<open>The state after an attempt that placed the key, relative to the state before.\<close>

definition inserted ::
  "hopscotch_table \<Rightarrow> uword \<Rightarrow> uword \<Rightarrow> hopscotch_table \<Rightarrow> bool" where
  "inserted ht k v ht' \<longleftrightarrow> hs_inv ht' \<and> same_shape ht ht' \<and>
     hs_keys ht' = insert k (hs_keys ht) \<and>
     (ht_value_size ht \<noteq> 0 \<longrightarrow>
        hs_map ht' = (hs_map ht)(k \<mapsto> trunc_val (ht_value_size ht) v))"

lemma inserted_same_contents:
  "same_contents a b \<Longrightarrow> inserted b k v c \<Longrightarrow> inserted a k v c"
  by (auto simp: inserted_def same_contents_def same_shape_def)

lemma placed_inserted:
  assumes "hs_inv ht" "p < length (ht_keys ht)" "ht_keys ht ! p = 0" "k \<noteq> 0"
    "home ht k \<le> p" "p < home ht k + ht_hop_range ht" "k \<notin> hs_keys ht"
  shows "inserted ht k v (placed ht p k v)"
  using placed_correct[OF assms] by (simp add: inserted_def)

lemma hop_place_correct:
  assumes "hs_inv ht" "q < length (ht_keys ht)" "ht_keys ht ! q = 0"
    "k \<noteq> 0" "d = home ht k" "d \<le> q" "k \<notin> hs_keys ht"
  shows "case hop_place ht d q k v of
           Inr ht' \<Rightarrow> inserted ht k v ht'
         | Inl ht' \<Rightarrow> hs_inv ht' \<and> same_contents ht ht'"
  using assms
proof (induction ht d q k v rule: hop_place.induct)
  case (1 ht d q k v)
  note L = layoutD[OF hs_invD(1)[OF 1(2)]]
  show ?case
  proof (cases "q - d < ht_hop_range ht")
    case True
    then have "hop_place ht d q k v = Inr (placed ht q k v)"
      using 1(6) by (subst hop_place.simps) (simp add: placed_def)
    moreover have "inserted ht k v (placed ht q k v)"
      using 1(2-8) True by (intro placed_inserted) auto
    ultimately show ?thesis by simp
  next
    case far: False
    show ?thesis
    proof (cases "find_victim (ht_hops ht) q (victim_bins ht q)")
      case None
      with far 1(2) show ?thesis by (simp add: hop_place.simps[of ht d q k v])
    next
      case (Some a)
      obtain b vi where a: "a = (b, vi)" by (cases a)
      note fv = find_victim_SomeD[OF Some[unfolded a]]
      have hq: "ht_hop_range ht \<le> q" using far by simp
      have bq: "b < q" "q < b + ht_hop_range ht" "b < table_size ht"
        using victim_binsD[OF _ hq L(3)] fv by auto
      let ?t = "displace ht q b vi"
      note C = displace_correct[OF 1(2) 1(3) 1(4) _ bq(3) _ bq(2), of vi]
      have C': "hs_inv ?t" "same_contents ht ?t" "b + vi < length (ht_keys ht)"
        "ht_keys ?t ! (b + vi) = 0"
        using C fv bq(1) by auto
      have hm: "home ?t = home ht" and kk: "hs_keys ?t = hs_keys ht"
        and lk: "length (ht_keys ?t) = length (ht_keys ht)"
        using C'(2) same_shape_home[of ht ?t]
        by (auto simp: same_contents_def displace_def Let_def rt_simps)
      have db: "d \<le> b + vi" using far bq(2) L(3) by linarith
      have eq: "hop_place ht d q k v = hop_place ?t d (b + vi) k v"
        using far Some a by (simp add: hop_place.simps[of ht d q k v])
      have "case hop_place ?t d (b + vi) k v of
           Inr ht' \<Rightarrow> inserted ?t k v ht'
         | Inl ht' \<Rightarrow> hs_inv ht' \<and> same_contents ?t ht'"
        using 1(1)[OF far Some a[symmetric]] C' 1(5,6,8) hm kk lk db by simp
      then show ?thesis
        using inserted_same_contents[OF C'(2)] same_contents_trans[OF C'(2)]
        by (auto simp: eq split: sum.splits)
    qed
  qed
qed

lemma insert_attempt_correct:
  assumes I: "hs_inv ht" and k: "k \<noteq> 0" "k \<notin> hs_keys ht"
  shows "case insert_attempt ht k v of
           Inr ht' \<Rightarrow> inserted ht k v ht'
         | Inl ht' \<Rightarrow> hs_inv ht' \<and> same_contents ht ht'"
proof -
  note L = layoutD[OF hs_invD(1)[OF I]]
  have hk: "home ht k < length (ht_keys ht)"
    using L(2) L(5)[of k] by simp
  show ?thesis
  proof (cases "ht_keys ht ! home ht k = 0")
    case True
    then have "insert_attempt ht k v = Inr (placed ht (home ht k) k v)"
      by (simp add: insert_attempt_def placed_def Let_def)
    moreover have "inserted ht k v (placed ht (home ht k) k v)"
      using hk True k L(3) I by (intro placed_inserted) auto
    ultimately show ?thesis by simp
  next
    case occ: False
    show ?thesis
    proof (cases "\<not> ht_rehashing ht \<and> int (ht_count ht) \<ge> ht_threshold ht")
      case True
      with occ I show ?thesis by (simp add: insert_attempt_def)
    next
      case below: False
      show ?thesis
      proof (cases "find_free (ht_keys ht) (home ht k) (hopscotch_max_key_index ht)")
        case None
        with occ below I show ?thesis by (auto simp: insert_attempt_def)
      next
        case (Some q)
        then have q: "home ht k < q" "q \<le> hopscotch_max_key_index ht" "ht_keys ht ! q = 0"
          unfolding find_free_def find_upt_Some by auto
        then have ql: "q < length (ht_keys ht)"
          using L(2,3) by (simp add: hopscotch_max_key_index_def table_size_def)
        have "insert_attempt ht k v = hop_place ht (home ht k) q k v"
          using occ below Some by (auto simp: insert_attempt_def)
        then show ?thesis
          using hop_place_correct[OF I ql q(3) k(1) refl _ k(2), of v] q(1) by simp
      qed
    qed
  qed
qed

section \<open>The probing loops\<close>

lemma probe_bits_Some:
  "probe_bits eq ks bits index = Some p \<Longrightarrow>
     index \<le> p \<and> bit bits (p - index) \<and> eq (ks ! p)"
proof (induction eq ks bits index rule: probe_bits.induct)
  case (1 eq ks bits index)
  show ?case
  proof (cases "bits = 0 \<or> (bit bits 0 \<and> eq (ks ! index))")
    case True
    with 1(2) show ?thesis by (auto simp: probe_bits.simps[of eq ks bits index] split: if_splits)
  next
    case False
    then have "probe_bits eq ks (drop_bit 1 bits) (Suc index) = Some p"
      using 1(2) by (simp add: probe_bits.simps[of eq ks bits index] split: if_splits)
    with 1(1) False have "Suc index \<le> p \<and> bit (drop_bit 1 bits) (p - Suc index) \<and> eq (ks ! p)"
      by blast
    then show ?thesis
      unfolding bit_drop_bit_word by (metis Suc_diff_Suc Suc_leD less_eq_Suc_le plus_1_eq_Suc)
  qed
qed

lemma probe_bits_None:
  "probe_bits eq ks bits index = None \<Longrightarrow> bit bits j \<Longrightarrow> \<not> eq (ks ! (index + j))"
proof (induction eq ks bits index arbitrary: j rule: probe_bits.induct)
  case (1 eq ks bits index)
  have nz: "bits \<noteq> 0" using 1(3) by auto
  have n0: "\<not> (bit bits 0 \<and> eq (ks ! index))"
    and rec: "probe_bits eq ks (drop_bit 1 bits) (Suc index) = None"
    using 1(2) nz by (auto simp: probe_bits.simps[of eq ks bits index] split: if_splits)
  show ?case
  proof (cases j)
    case 0
    with n0 1(3) show ?thesis by simp
  next
    case (Suc i)
    then have "bit (drop_bit 1 bits) i" using 1(3) by (simp only: bit_drop_bit_word plus_1_eq_Suc)
    from 1(1)[OF nz n0 rec this] Suc show ?thesis by simp
  qed
qed

lemma and_15_bit: "(bits AND 0xf :: u32) \<noteq> 0 \<longleftrightarrow> (\<exists>j<4. bit bits j)"
proof -
  have m: "(0xf :: u32) = mask 4" by (simp add: mask_eq_exp_minus_1)
  show ?thesis
    unfolding m word_neq_0_bit bit_and_iff bit_mask_iff by (auto dest: bit_imp_possible_bit)
qed

lemma and_255_bit: "(bits AND 0xff :: u32) \<noteq> 0 \<longleftrightarrow> (\<exists>j<8. bit bits j)"
proof -
  have m: "(0xff :: u32) = mask 8" by (simp add: mask_eq_exp_minus_1)
  show ?thesis
    unfolding m word_neq_0_bit bit_and_iff bit_mask_iff by (auto dest: bit_imp_possible_bit)
qed

text \<open>The unrolled loops, chunk by chunk.\<close>

lemma probe4_chunk:
  "probe4 key ks bits index =
     (if bits = 0 then None
      else case (if bits AND 0xf \<noteq> 0
                 then List.find (\<lambda>i. ks ! i = key) [index..<index + 4] else None) of
             Some p \<Rightarrow> Some p
           | None \<Rightarrow> probe4 key ks (drop_bit 4 bits) (index + 4))"
  by (subst probe4.simps) (simp add: upt_rec numeral_eq_Suc)

lemma probe8_chunk:
  "probe8 key ks bits index =
     (if bits AND 0xff \<noteq> 0 \<and> List.find (\<lambda>i. ks ! i = key) [index..<index + 8] \<noteq> None
      then True else drop_bit 8 bits \<noteq> 0 \<and> probe8 key ks (drop_bit 8 bits) (index + 8))"
  by (subst probe8.simps) (simp add: upt_rec numeral_eq_Suc)

lemma probe4_Some:
  "probe4 key ks bits index = Some p \<Longrightarrow>
     ks ! p = key \<and> index \<le> p \<and> (\<exists>j. bit bits j \<and> (p - index) div 4 = j div 4)"
proof (induction key ks bits index rule: probe4.induct)
  case (1 key ks bits index)
  let ?find = "List.find (\<lambda>i. ks ! i = key) [index..<index + 4]"
  have nz: "bits \<noteq> 0" using 1(2) by (auto simp: probe4_chunk[of key ks bits index])
  show ?case
  proof (cases "bits AND 0xf \<noteq> 0 \<and> ?find \<noteq> None")
    case True
    with 1(2) nz have "?find = Some p" by (auto simp: probe4_chunk[of key ks bits index])
    then have "index \<le> p" "p < index + 4" "ks ! p = key" by (auto simp: find_upt_Some)
    moreover obtain j where "j < 4" "bit bits j" using True and_15_bit by blast
    ultimately show ?thesis by (intro conjI exI[of _ j]) auto
  next
    case False
    then have r: "probe4 key ks (drop_bit 4 bits) (index + 4) = Some p"
      using 1(2) nz by (auto simp: probe4_chunk[of key ks bits index] split: if_splits)
    have "\<not> (bits AND 0xf \<noteq> 0 \<and> ks ! (index + i) = key)" if "i < 4" for i
        using False that find_chunk_None by blast
    from 1(1)[OF nz this[of 0] this[of 1] this[of 2] this[of 3] r]
    obtain j where j: "ks ! p = key" "index + 4 \<le> p" "bit bits (4 + j)"
      "(p - (index + 4)) div 4 = j div 4"
      by (auto simp: bit_drop_bit_word)
    obtain e where "p = index + 4 + e" using j(2) le_iff_add by blast
    with j(4) have "(p - index) div 4 = (4 + j) div 4" by (simp add: div_add_self1)
    with j show ?thesis by (intro conjI exI[of _ "4 + j"]) auto
  qed
qed

lemma probe4_None:
  "probe4 key ks bits index = None \<Longrightarrow> bit bits j \<Longrightarrow> ks ! (index + j) \<noteq> key"
proof (induction key ks bits index arbitrary: j rule: probe4.induct)
  case (1 key ks bits index)
  let ?find = "List.find (\<lambda>i. ks ! i = key) [index..<index + 4]"
  have nz: "bits \<noteq> 0" using 1(3) by auto
  have nf: "\<not> (bits AND 0xf \<noteq> 0 \<and> ?find \<noteq> None)"
    and r: "probe4 key ks (drop_bit 4 bits) (index + 4) = None"
    using 1(2) nz by (auto simp: probe4_chunk[of key ks bits index] split: if_splits option.splits)
  have n: "\<not> (bits AND 0xf \<noteq> 0 \<and> ks ! (index + i) = key)" if "i < 4" for i
    using nf that find_chunk_None by blast
  show ?case
  proof (cases "j < 4")
    case True
    with n[of j] 1(3) and_15_bit show ?thesis by blast
  next
    case False
    then have "bit (drop_bit 4 bits) (j - 4)" using 1(3) by (simp add: bit_drop_bit_word)
    from 1(1)[OF nz n[of 0] n[of 1] n[of 2] n[of 3] r this] False show ?thesis by simp
  qed
qed

lemma probe8_True:
  "probe8 key ks bits index \<Longrightarrow>
     \<exists>p j. ks ! p = key \<and> index \<le> p \<and> bit bits j \<and> (p - index) div 8 = j div 8"
proof (induction key ks bits index rule: probe8.induct)
  case (1 key ks bits index)
  let ?find = "List.find (\<lambda>i. ks ! i = key) [index..<index + 8]"
  show ?case
  proof (cases "bits AND 0xff \<noteq> 0 \<and> ?find \<noteq> None")
    case True
    then obtain j p where "j < 8" "bit bits j" "?find = Some p"
      by (auto simp: and_255_bit)
    then have "j < 8" "bit bits j" "index \<le> p" "p < index + 8" "ks ! p = key"
      by (auto simp: find_upt_Some)
    then show ?thesis by (intro exI[of _ p] exI[of _ j]) auto
  next
    case False
    have a: "\<not> (bits AND 0xff \<noteq> 0 \<and> ks ! (index + i) = key)" if "i < 8" for i
      using False that find_chunk_None by blast
    have n: "\<not> (bits AND 0xff \<noteq> 0 \<and> (ks ! (index + 0) = key \<or> ks ! (index + 1) = key \<or>
      ks ! (index + 2) = key \<or> ks ! (index + 3) = key \<or> ks ! (index + 4) = key \<or>
      ks ! (index + 5) = key \<or> ks ! (index + 6) = key \<or> ks ! (index + 7) = key))"
      using a[of 0] a[of 1] a[of 2] a[of 3] a[of 4] a[of 5] a[of 6] a[of 7] by auto
    have r: "drop_bit 8 bits \<noteq> 0" "probe8 key ks (drop_bit 8 bits) (index + 8)"
      using 1(2) False unfolding probe8_chunk[of key ks bits index] by metis+
    from 1(1)[OF n r(1) r(2)]
    obtain p j where j: "ks ! p = key" "index + 8 \<le> p" "bit bits (8 + j)"
      "(p - (index + 8)) div 8 = j div 8"
      by (auto simp: bit_drop_bit_word)
    obtain e where "p = index + 8 + e" using j(2) le_iff_add by blast
    with j(4) have "(p - index) div 8 = (8 + j) div 8" by (simp add: div_add_self1)
    with j show ?thesis by (intro exI[of _ p] exI[of _ "8 + j"]) auto
  qed
qed

lemma probe8_False:
  "\<not> probe8 key ks bits index \<Longrightarrow> bit bits j \<Longrightarrow> ks ! (index + j) \<noteq> key"
proof (induction key ks bits index arbitrary: j rule: probe8.induct)
  case (1 key ks bits index)
  let ?find = "List.find (\<lambda>i. ks ! i = key) [index..<index + 8]"
  have nf: "\<not> (bits AND 0xff \<noteq> 0 \<and> ?find \<noteq> None)"
    and r: "drop_bit 8 bits \<noteq> 0 \<Longrightarrow> \<not> probe8 key ks (drop_bit 8 bits) (index + 8)"
    using 1(2) unfolding probe8_chunk[of key ks bits index] by metis+
  have a: "\<not> (bits AND 0xff \<noteq> 0 \<and> ks ! (index + i) = key)" if "i < 8" for i
    using nf that find_chunk_None by blast
  have n: "\<not> (bits AND 0xff \<noteq> 0 \<and> (ks ! (index + 0) = key \<or> ks ! (index + 1) = key \<or>
      ks ! (index + 2) = key \<or> ks ! (index + 3) = key \<or> ks ! (index + 4) = key \<or>
      ks ! (index + 5) = key \<or> ks ! (index + 6) = key \<or> ks ! (index + 7) = key))"
    using a[of 0] a[of 1] a[of 2] a[of 3] a[of 4] a[of 5] a[of 6] a[of 7] by auto
  show ?case
  proof (cases "j < 8")
    case True
    then have "bits AND 0xff \<noteq> 0" using 1(3) and_255_bit by blast
    with nf have "?find = None" by blast
    then show ?thesis using True unfolding find_upt_None by auto
  next
    case False
    then have b: "bit (drop_bit 8 bits) (j - 8)" using 1(3) by (simp add: bit_drop_bit_word)
    then have nz: "drop_bit 8 bits \<noteq> 0" by auto
    from 1(1)[OF n nz r[OF nz] b] False show ?thesis by simp
  qed
qed

end
