(* ===== verification/HopscotchOps.thy ===== *)
theory HopscotchOps
  imports HopscotchInv
begin

text \<open>
  Correctness of the table operations on a table that satisfies \<open>hs_inv\<close>: the probing
  lookups find exactly the stored keys, insertion with resizing, update, deletion and reset
  keep the invariant and act on the abstract map \<open>hs_map\<close> as a finite map does.
\<close>

unbundle bit_operations_syntax

section \<open>Lookup finds the cell\<close>

lemma chunk_in_range:
  assumes I: "hs_inv ht" and j: "bit (ht_hops ht ! home ht k) j"
    and p: "home ht k \<le> p" "(p - home ht k) div n = j div n" and n: "n dvd ht_hop_range ht"
  shows "p < length (ht_keys ht)"
proof -
  note L = layoutD[OF hs_invD(1)[OF I]]
  obtain m where m: "ht_hop_range ht = n * m" using n by (elim dvdE)
  have "j < ht_hop_range ht" using L(6)[OF L(5), of k j] j by simp
  then have "j div n < m" using m L(3) by (simp add: less_mult_imp_div_less mult.commute)
  then have "p - home ht k < ht_hop_range ht"
    using p(2) m L(3) by (metis div_less_iff_less_mult mult.commute mult_0 not_gr0)
  then show ?thesis using p(1) L(2) L(5)[of k] L(3) by linarith
qed

lemma hop_bit_of_key:
  assumes I: "hs_inv ht" and p: "p < length (ht_keys ht)" "ht_keys ht ! p = k" "k \<noteq> 0"
  shows "bit (ht_hops ht ! home ht k) (p - home ht k)" "home ht k \<le> p"
    "home ht k + (p - home ht k) = p"
proof -
  note L = layoutD[OF hs_invD(1)[OF I]]
  have r: "home ht k \<le> p" "p < home ht k + ht_hop_range ht" using L(7,8)[OF p(1)] p by auto
  then show "home ht k \<le> p" "home ht k + (p - home ht k) = p" by auto
  show "bit (ht_hops ht ! home ht k) (p - home ht k)"
    using L(6)[OF L(5), of k "p - home ht k"] r p by auto
qed

lemma lookup_index_cell:
  assumes I: "hs_inv ht" and c: "ht_compare ht = None" and k: "k \<noteq> 0"
  shows "lookup_index ht k = cell_of ht k"
proof (cases "lookup_index ht k")
  case None
  then have "probe4 k (ht_keys ht) (ht_hops ht ! home ht k) (home ht k) = None"
    using c by (simp add: lookup_index_def get_hop_mask_def Let_def)
  from probe4_None[OF this] hop_bit_of_key[OF I _ _ k]
  have "\<not> (\<exists>p. cell_of ht k = Some p)" using cell_of_Some[OF I, of k] by metis
  with None show ?thesis by (metis option.exhaust)
next
  case (Some p)
  then have "probe4 k (ht_keys ht) (ht_hops ht ! home ht k) (home ht k) = Some p"
    using c by (simp add: lookup_index_def get_hop_mask_def Let_def)
  from probe4_Some[OF this] obtain j where j: "ht_keys ht ! p = k" "home ht k \<le> p"
    "bit (ht_hops ht ! home ht k) j" "(p - home ht k) div 4 = j div 4" by blast
  have "4 dvd ht_hop_range ht" using hs_invD(2)[OF I] by (rule dvd_trans[rotated]) simp
  from chunk_in_range[OF I j(3,2,4) this] j(1) k Some show ?thesis
    using cell_of_Some[OF I, of k p] by simp
qed

lemma containsp_correct:
  assumes I: "hs_inv ht" and c: "ht_compare ht = None" and k: "k \<noteq> 0"
  shows "hopscotch_containsp ht k \<longleftrightarrow> k \<in> hs_keys ht"
proof
  assume "hopscotch_containsp ht k"
  then have "probe8 k (ht_keys ht) (ht_hops ht ! home ht k) (home ht k)"
    using c by (simp add: hopscotch_containsp_def get_hop_mask_def Let_def)
  from probe8_True[OF this] obtain p j where j: "ht_keys ht ! p = k" "home ht k \<le> p"
    "bit (ht_hops ht ! home ht k) j" "(p - home ht k) div 8 = j div 8" by blast
  from chunk_in_range[OF I j(3,2,4) hs_invD(2)[OF I]] j(1) k
  show "k \<in> hs_keys ht" by (auto simp: hs_keys_def)
next
  assume "k \<in> hs_keys ht"
  then obtain p where p: "p < length (ht_keys ht)" "ht_keys ht ! p = k"
    by (auto simp: hs_keys_def in_set_conv_nth)
  show "hopscotch_containsp ht k"
  proof (rule ccontr)
    assume "\<not> hopscotch_containsp ht k"
    then have "\<not> probe8 k (ht_keys ht) (ht_hops ht ! home ht k) (home ht k)"
      using c by (simp add: hopscotch_containsp_def get_hop_mask_def Let_def)
    from probe8_False[OF this hop_bit_of_key(1)[OF I p k]] hop_bit_of_key(3)[OF I p k] p(2)
    show False by simp
  qed
qed

lemma get_correct:
  assumes "hs_inv ht" "ht_compare ht = None" "k \<noteq> 0"
  shows "hopscotch_get ht k d = (case hs_map ht k of Some v \<Rightarrow> v | None \<Rightarrow> d)"
  by (simp add: hopscotch_get_def lookup_index_cell[OF assms] hs_map_def split: option.splits)

text \<open>With a custom comparator the scan of the owned cells finds a key of the same bin that
  compares equal, and finds one whenever there is one, provided equal keys share a bin.\<close>

lemma lookup_index_cmp:
  assumes I: "hs_inv ht" and c: "ht_compare ht = Some cmp"
    and cong: "\<And>a. a \<in> hs_keys ht \<Longrightarrow> cmp a k \<Longrightarrow> home ht a = home ht k"
  shows "(case lookup_index ht k of
      Some p \<Rightarrow> p < length (ht_keys ht) \<and> ht_keys ht ! p \<noteq> 0 \<and> cmp (ht_keys ht ! p) k
    | None \<Rightarrow> \<forall>a\<in>hs_keys ht. \<not> cmp a k)"
proof -
  note L = layoutD[OF hs_invD(1)[OF I]]
  let ?r = "probe_bits (\<lambda>a. cmp a k) (ht_keys ht) (ht_hops ht ! home ht k) (home ht k)"
  have r: "lookup_index ht k = ?r" using c by (simp add: lookup_index_def get_hop_mask_def Let_def)
  show ?thesis
  proof (cases ?r)
    case (Some p)
    from probe_bits_Some[OF this] have p: "home ht k \<le> p"
      "bit (ht_hops ht ! home ht k) (p - home ht k)" "cmp (ht_keys ht ! p) k" by auto
    then have "p - home ht k < ht_hop_range ht" "ht_keys ht ! p \<noteq> 0"
      using L(6)[OF L(5), of k "p - home ht k"] by auto
    moreover from this have "p < length (ht_keys ht)"
      using p(1) L(2) L(5)[of k] L(3) by linarith
    ultimately show ?thesis using p(3) Some r by simp
  next
    case None
    have "\<not> cmp a k" if a: "a \<in> hs_keys ht" for a
    proof
      assume e: "cmp a k"
      obtain p where p: "p < length (ht_keys ht)" "ht_keys ht ! p = a" "a \<noteq> 0"
        using a by (auto simp: hs_keys_def in_set_conv_nth)
      note hb = hop_bit_of_key[OF I p, unfolded cong[OF a e]]
      from probe_bits_None[OF None hb(1)] hb(3) p(2) e show False by simp
    qed
    with None r show ?thesis by simp
  qed
qed

section \<open>Creation and resizing\<close>

lemma table_size_realloc:
  assumes "0 < sz" "sz \<le> 2 ^ 32"
  shows "table_size (hopscotch_realloc ht sz hr) = sz"
proof -
  have "unat (of_nat (sz - 1) :: u32) = sz - 1"
    using assms unfolding unat_of_nat by (intro mod_less) auto
  then show ?thesis using assms(1) by (simp add: table_size_def hopscotch_realloc_def Let_def)
qed

lemma hop_range_for_props:
  "8 dvd hop_range_for sz 0" "0 < hop_range_for sz 0" "hop_range_for sz 0 \<le> 32"
  by (auto simp: hop_range_for_def)

lemma realloc_inv:
  assumes sz: "0 < sz" "sz \<le> 2 ^ 32" and vs: "ht_value_size ht \<in> {0, 1, 2, 4, 8}"
    and c: "ht_count ht = 0"
    and hr: "8 dvd hop_range_for sz hr" "0 < hop_range_for sz hr" "hop_range_for sz hr \<le> 32"
  shows "hs_inv (hopscotch_realloc ht sz hr)" "hs_keys (hopscotch_realloc ht sz hr) = {}"
proof -
  let ?t = "hopscotch_realloc ht sz hr"
  have ts: "table_size ?t = sz" using sz by (rule table_size_realloc)
  have f: "ht_keys ?t = replicate (sz + (hop_range_for sz hr - 1)) 0"
    "ht_hops ?t = replicate sz 0" "ht_hop_range ?t = hop_range_for sz hr"
    "ht_value_size ?t = ht_value_size ht" "ht_count ?t = 0"
    "ht_vals ?t = (if ht_value_size ht \<noteq> 0
       then replicate (sz + (hop_range_for sz hr - 1)) 0 else [])"
    using c by (simp_all add: hopscotch_realloc_def Let_def)
  show e: "hs_keys ?t = {}" by (auto simp: hs_keys_def f)
  have "home ?t k < sz" for k using home_less[of ?t k] ts by simp
  from layout_empty[OF this hr(2,3)]
  have "layout (home ?t) (ht_hop_range ?t) (table_size ?t) (ht_keys ?t) (ht_hops ?t)"
    by (simp add: f ts)
  then show "hs_inv ?t" using hr(1) vs e by (auto simp: hs_inv_def f)
qed

text \<open>A fresh table: the invariant holds, it is empty, and its fields are as requested.\<close>

lemma create_SomeD:
  assumes "hopscotch_create env hf vs sz hr = Some t"
  shows "ht_hashfun t = hf" "ht_value_size t = vs" "ht_count t = 0"
    "ht_hop_range t = hop_range_for sz hr" "\<not> ht_rehashing t" "\<not> ht_resized t"
    "ht_compare t = (if hf \<in> {3, 4} then Some (env_vector_eql env) else None)"
    "vs \<in> {0, 1, 2, 4, 8}" "hf \<in> {1, 2, 3, 4}"
  using assms by (auto simp: hopscotch_create_def hopscotch_realloc_def Let_def split: if_splits)

lemma create_inv:
  assumes t: "hopscotch_create env hf vs sz hr = Some t" and sz: "0 < sz" "sz \<le> 2 ^ 32"
    and hr: "8 dvd hop_range_for sz hr" "0 < hop_range_for sz hr" "hop_range_for sz hr \<le> 32"
  shows "hs_inv t" "hs_keys t = {}" "table_size t = sz"
proof -
  obtain ht where ht: "t = hopscotch_realloc ht sz hr" "ht_value_size ht = vs" "ht_count ht = 0"
    using t by (auto simp: hopscotch_create_def split: if_splits)
  then show "hs_inv t" "hs_keys t = {}" "table_size t = sz"
    using realloc_inv[OF sz _ _ hr, of ht] create_SomeD(8)[OF t] table_size_realloc[OF sz, of ht hr]
    by auto
qed

lemma hs_inv_hash_irrelevant:
  assumes "hs_inv t" "hs_keys t = {}"
  shows "hs_inv (t\<lparr>ht_hash := f, ht_rehashing := r\<rparr>)" "hs_keys (t\<lparr>ht_hash := f, ht_rehashing := r\<rparr>) = {}"
proof -
  let ?t = "t\<lparr>ht_hash := f, ht_rehashing := r\<rparr>"
  note D = hs_invD[OF assms(1)] and L = layoutD[OF hs_invD(1)[OF assms(1)]]
  show "hs_keys ?t = {}" using assms(2) by (simp add: hs_keys_def)
  have z: "ht_keys t ! p = 0" if "p < length (ht_keys t)" for p
    using assms(2) nth_mem[OF that] unfolding hs_keys_def by blast
  have ts: "table_size ?t = table_size t" by (simp add: table_size_def)
  have nb: "\<not> bit (ht_hops t ! i) j" if "i < table_size t" for i j
    using L(6)[OF that, of j] z[of "i + j"] that L(2,3) by auto
  have "layout (home ?t) (ht_hop_range t) (table_size t) (ht_keys t) (ht_hops t)"
    unfolding layout_def using L(1-4) z nb home_less[of ?t] ts L(2)
    by auto
  then show "hs_inv ?t" using D(2-7) by (auto simp: hs_inv_def hs_keys_def ts)
qed

text \<open>The map that a list of pairs describes when its keys are inserted one by one.\<close>

lemma rehash_into_correct:
  assumes "hs_inv t" "ht_rehashing t" "0 \<notin> fst ` set kvs"
    "distinct (map fst kvs)" "fst ` set kvs \<inter> hs_keys t = {}"
    "rehash_into t kvs = Some t'"
  shows "hs_inv t' \<and> same_shape t t' \<and> hs_keys t' = hs_keys t \<union> fst ` set kvs \<and>
    (ht_value_size t \<noteq> 0 \<longrightarrow>
       (\<forall>k v. (k, v) \<in> set kvs \<longrightarrow> hs_map t' k = Some (trunc_val (ht_value_size t) v)) \<and>
       (\<forall>k. k \<notin> fst ` set kvs \<longrightarrow> hs_map t' k = hs_map t k))"
  using assms
proof (induction t kvs rule: rehash_into.induct)
  case (1 copy)
  then show ?case by simp
next
  case (2 copy k v kvs)
  have k: "k \<noteq> 0" "k \<notin> hs_keys copy" using 2(4,6) by auto
  obtain c where c: "insert_attempt copy k v = Inr c" "rehash_into c kvs = Some t'"
    using 2(7) by (auto split: sum.splits)
  have ins: "inserted copy k v c"
    using insert_attempt_correct[OF 2(2) k, of v] c(1) by simp
  then have c': "hs_inv c" "same_shape copy c" "hs_keys c = insert k (hs_keys copy)"
    "ht_rehashing c" "ht_value_size c = ht_value_size copy"
    using 2(3) by (auto simp: inserted_def same_shape_def)
  have "hs_inv t' \<and> same_shape c t' \<and> hs_keys t' = hs_keys c \<union> fst ` set kvs \<and>
    (ht_value_size c \<noteq> 0 \<longrightarrow>
       (\<forall>k v. (k, v) \<in> set kvs \<longrightarrow> hs_map t' k = Some (trunc_val (ht_value_size c) v)) \<and>
       (\<forall>k. k \<notin> fst ` set kvs \<longrightarrow> hs_map t' k = hs_map c k))"
    using 2(4,5,6) c' by (intro 2(1)[OF c(1)]) (auto simp: c(2))
  moreover have "k \<notin> fst ` set kvs" using 2(5) by (auto simp: image_iff)
  ultimately show ?case
    using ins c' same_shape_trans[OF c'(2)] by (auto simp: inserted_def)
qed

text \<open>The pairs that the rehash loop copies are exactly the table's map.\<close>

lemma max_key_index_length:
  "hs_inv ht \<Longrightarrow> Suc (hopscotch_max_key_index ht) = length (ht_keys ht)"
  using layoutD(2,3)[OF hs_invD(1), of ht]
  by (simp add: hopscotch_max_key_index_def table_size_def)

lemma live_pairs_props:
  assumes I: "hs_inv ht"
  shows "distinct (map fst (live_pairs ht))" "fst ` set (live_pairs ht) = hs_keys ht"
    "0 \<notin> fst ` set (live_pairs ht)"
    "ht_value_size ht \<noteq> 0 \<Longrightarrow> (k, v) \<in> set (live_pairs ht) \<longleftrightarrow> hs_map ht k = Some v"
proof -
  note L = layoutD[OF hs_invD(1)[OF I]]
  have "map fst (live_pairs ht) = map (\<lambda>i. ht_keys ht ! i)
      (filter (\<lambda>i. ht_keys ht ! i \<noteq> 0) (rev [0..<length (ht_keys ht)]))"
    by (simp add: live_pairs_def max_key_index_length[OF I] del: upt_Suc)
  moreover have "inj_on (\<lambda>i. ht_keys ht ! i)
      (set (filter (\<lambda>i. ht_keys ht ! i \<noteq> 0) (rev [0..<length (ht_keys ht)])))"
    using L(9) by (auto simp: inj_on_def)
  ultimately show "distinct (map fst (live_pairs ht))" by (simp add: distinct_map)
  show "fst ` set (live_pairs ht) = hs_keys ht"
    by (auto simp: live_pairs_def max_key_index_length[OF I] hs_keys_def image_iff
        in_set_conv_nth simp del: upt_Suc)
  then show "0 \<notin> fst ` set (live_pairs ht)" by (simp add: hs_keys_def)
  show "ht_value_size ht \<noteq> 0 \<Longrightarrow> (k, v) \<in> set (live_pairs ht) \<longleftrightarrow> hs_map ht k = Some v"
    by (auto simp: live_pairs_def max_key_index_length[OF I] hs_map_Some[OF I] image_iff
        simp del: upt_Suc)
qed

lemma hs_map_trunc:
  assumes I: "hs_inv ht" and vs: "ht_value_size ht \<noteq> 0" and m: "hs_map ht k = Some v"
  shows "trunc_val (ht_value_size ht) v = v"
proof -
  obtain p where p: "p < length (ht_keys ht)" "get_val ht p = v" using m hs_map_Some[OF I] by auto
  moreover have "ht_value_size ht \<in> {1, 2, 4, 8}" using vs hs_invD(3)[OF I] by auto
  ultimately show ?thesis
    using hs_invD(4)[OF I] hs_invD(5)[OF I, of p] vs by (simp add: get_val_eq)
qed

text \<open>What a resize preserves and what it changes: the contents are the same, the table is
  larger, the hash function may have become \<open>hopscotch_hmix\<close>.\<close>

definition resized :: "hopscotch_table \<Rightarrow> hopscotch_table \<Rightarrow> bool" where
  "resized ht ht' \<longleftrightarrow> hs_inv ht' \<and> hs_keys ht' = hs_keys ht \<and>
     (ht_value_size ht \<noteq> 0 \<longrightarrow> hs_map ht' = hs_map ht) \<and>
     table_size ht' > table_size ht \<and> ht_value_size ht' = ht_value_size ht \<and>
     ht_compare ht' = ht_compare ht \<and> ht_hashfun ht' = ht_hashfun ht \<and>
     ht_rehashing ht' = ht_rehashing ht \<and> ht_count ht' = ht_count ht \<and>
     ht_prev_size ht' = ht_prev_size ht"

lemma resize_loop_correct:
  assumes "hs_inv ht" "0 < sz" "resize_loop env fuel ht sz = Some copy"
  shows "hs_inv copy \<and> hs_keys copy = hs_keys ht \<and>
     (ht_value_size ht \<noteq> 0 \<longrightarrow> hs_map copy = hs_map ht) \<and>
     table_size copy > sz \<and> ht_value_size copy = ht_value_size ht"
  using assms
proof (induction env fuel ht sz rule: resize_loop.induct)
  case (1 env ht sz)
  then show ?case by simp
next
  case (2 env fuel ht sz)
  note I = 2(2)
  have lt: "sz * 2 < 2 ^ 31" using 2(4) by (auto simp: Let_def split: if_splits)
  obtain c0 where c0: "hopscotch_create env (ht_hashfun ht) (ht_value_size ht) (sz * 2) 0 = Some c0"
    using 2(4) by (auto simp: Let_def split: if_splits option.splits)
  define f where "f = (if ht_hop_range c0 > 16 \<and> ht_hash c0 = None
      then Some hopscotch_hmix else ht_hash c0)"
  define c where "c = c0\<lparr>ht_hash := f, ht_rehashing := True\<rparr>"
  have c_eq: "(if ht_hop_range c0 > 16 \<and> ht_hash c0 = None
      then c0\<lparr>ht_hash := Some hopscotch_hmix\<rparr> else c0)\<lparr>ht_rehashing := True\<rparr> = c"
    by (simp add: c_def f_def)
  have step: "(case rehash_into c (live_pairs ht) of Some copy \<Rightarrow> Some copy
      | None \<Rightarrow> resize_loop env fuel ht (sz * 2)) = Some copy"
    using 2(4) lt c0 by (simp add: Let_def c_eq)
  have IC: "hs_inv c" "hs_keys c = {}" "table_size c = sz * 2" "ht_value_size c = ht_value_size ht"
    "ht_rehashing c"
    using create_inv[OF c0 _ _ hop_range_for_props] create_SomeD[OF c0] 2(3) lt
      hs_inv_hash_irrelevant[where t = c0 and f = f and r = True]
    by (auto simp: c_def table_size_def)
  show ?case
  proof (cases "rehash_into c (live_pairs ht)")
    case None
    have "resize_loop env fuel ht (sz * 2) = Some copy" using step None by simp
    moreover have "0 < sz * 2" using 2(3) by simp
    ultimately have "hs_inv copy \<and> hs_keys copy = hs_keys ht \<and>
      (ht_value_size ht \<noteq> 0 \<longrightarrow> hs_map copy = hs_map ht) \<and>
      sz * 2 < table_size copy \<and> ht_value_size copy = ht_value_size ht"
      using 2(1)[OF refl _ c0 refl refl, unfolded c_eq] None lt I by simp
    then show ?thesis by simp
  next
    case (Some c')
    then have cc: "c' = copy" using step by simp
    note P = live_pairs_props[OF I]
    have R: "hs_inv c' \<and> same_shape c c' \<and> hs_keys c' = hs_keys c \<union> fst ` set (live_pairs ht) \<and>
        (ht_value_size c \<noteq> 0 \<longrightarrow>
         (\<forall>k v. (k, v) \<in> set (live_pairs ht) \<longrightarrow>
            hs_map c' k = Some (trunc_val (ht_value_size c) v)) \<and>
         (\<forall>k. k \<notin> fst ` set (live_pairs ht) \<longrightarrow> hs_map c' k = hs_map c k))"
      using rehash_into_correct[OF IC(1,5) P(3,1) _ Some] IC(2) by blast
    have R': "hs_inv c'" "same_shape c c'" "hs_keys c' = hs_keys ht"
      "ht_value_size ht \<noteq> 0 \<Longrightarrow> (k, v) \<in> set (live_pairs ht) \<Longrightarrow>
         hs_map c' k = Some (trunc_val (ht_value_size ht) v)" for k v
      using R IC(2,4) P(2) by auto
    have "hs_map c' = hs_map ht" if vs: "ht_value_size ht \<noteq> 0"
    proof (rule map_eqI)
      fix x
      show "(hs_map c' x = None) = (hs_map ht x = None)" by (simp add: hs_map_None R'(3))
      fix v assume v: "hs_map c' x = Some v"
      then have "x \<in> hs_keys ht" using R'(3) dom_hs_map by blast
      then obtain w where w: "hs_map ht x = Some w" using dom_hs_map[of ht] by auto
      then have "hs_map c' x = Some (trunc_val (ht_value_size ht) w)"
        using R'(4)[OF vs] P(4)[OF vs] by blast
      moreover have "trunc_val (ht_value_size ht) w = w" by (rule hs_map_trunc[OF I vs w])
      ultimately show "hs_map ht x = Some v" using v w by simp
    qed
    then show ?thesis using R'(1-3) IC(3,4) cc 2(3)
      by (auto simp: same_shape_def table_size_def)
  qed
qed

lemma resize_up_correct:
  assumes I: "hs_inv ht" and r: "hopscotch_resize_up env fuel ht = Some ht'"
  shows "resized ht ht'"
proof -
  obtain copy where c: "resize_loop env fuel ht (unat (ht_mask ht) + 1) = Some copy"
    and ht': "ht' = ht
          \<lparr>ht_hash := ht_hash copy, ht_mem_size := ht_mem_size copy,
           ht_mask := ht_mask copy, ht_hop_range := ht_hop_range copy,
           ht_threshold := ht_threshold copy, ht_keys := ht_keys copy,
           ht_hops := ht_hops copy, ht_vals := ht_vals copy, ht_resized := True\<rparr>"
    using r by (auto simp: hopscotch_resize_up_def split: option.splits)
  note R = resize_loop_correct[OF I _ c, simplified]
  have f: "ht_keys ht' = ht_keys copy" "ht_hops ht' = ht_hops copy" "ht_vals ht' = ht_vals copy"
    "ht_hop_range ht' = ht_hop_range copy" "ht_value_size ht' = ht_value_size copy"
    "table_size ht' = table_size copy" "home ht' = home copy" "ht_count ht' = ht_count ht"
    using R by (auto simp: ht' table_size_def home_def hash_def fun_eq_iff)
  have k: "hs_keys ht' = hs_keys ht" using R by (simp add: hs_keys_def f)
  have "hs_inv copy" using R by simp
  then have inv: "hs_inv ht'"
    using hs_invD(7)[OF I] k unfolding hs_inv_def f by simp
  have "get_val ht' = get_val copy" "cell_of ht' = cell_of copy"
    by (simp_all add: fun_eq_iff cell_of_def get_val_def f)
  then have "hs_map ht' = hs_map copy" by (intro ext) (simp add: hs_map_def)
  then show ?thesis
    using R inv k f by (auto simp: resized_def table_size_def ht')
qed

section \<open>Insertion and update with resizing\<close>

text \<open>The effect of a completed insertion, whatever resizing it needed. The shape is only
  preserved up to a larger table.\<close>

definition insert_post ::
  "hopscotch_table \<Rightarrow> uword \<Rightarrow> uword \<Rightarrow> hopscotch_table \<Rightarrow> bool" where
  "insert_post ht k v ht' \<longleftrightarrow> hs_inv ht' \<and> hs_keys ht' = insert k (hs_keys ht) \<and>
     (ht_value_size ht \<noteq> 0 \<longrightarrow>
        hs_map ht' = (hs_map ht)(k \<mapsto> trunc_val (ht_value_size ht) v)) \<and>
     ht_value_size ht' = ht_value_size ht \<and> ht_compare ht' = ht_compare ht \<and>
     ht_hashfun ht' = ht_hashfun ht \<and> ht_rehashing ht' = ht_rehashing ht \<and>
     ht_prev_size ht' = ht_prev_size ht \<and> table_size ht \<le> table_size ht'"

lemma insert_correct:
  assumes "hs_inv ht" "\<not> ht_rehashing ht" "k \<noteq> 0" "k \<notin> hs_keys ht"
    and "hopscotch_insert env fuel ht k v = Some (ht', n)"
  shows "insert_post ht k v ht' \<and> n = card (hs_keys ht')"
  using assms
proof (induction env fuel ht k v arbitrary: ht' n rule: hopscotch_insert.induct)
  case (1 env ht key v)
  then show ?case by simp
next
  case (2 env fuel ht key v)
  note A = insert_attempt_correct[OF 2(2,4,5), of v]
  show ?case
  proof (cases "insert_attempt ht key v")
    case (Inr t)
    with A 2(6) have "inserted ht key v ht'" "n = ht_count ht'" by auto
    then show ?thesis
      using hs_invD(7)[of ht'] by (auto simp: insert_post_def inserted_def same_shape_def table_size_def)
  next
    case (Inl t)
    with A have t: "hs_inv t" "same_contents ht t" by auto
    then have nr: "\<not> ht_rehashing t" using 2(3) by (simp add: same_contents_def same_shape_def)
    with 2(6) Inl obtain u where u: "hopscotch_resize_up env (Suc fuel) t = Some u"
      "hopscotch_insert env fuel u key v = Some (ht', n)"
      by (auto split: option.splits)
    have ru: "resized t u" by (rule resize_up_correct[OF t(1) u(1)])
    have "insert_post u key v ht' \<and> n = card (hs_keys ht')"
      using 2(1)[OF Inl nr u(1) _ _ _ _ u(2)] ru t nr 2(4,5)
      by (auto simp: resized_def same_contents_def)
    then show ?thesis
      using ru t by (auto simp: insert_post_def resized_def same_contents_def same_shape_def
          table_size_def)
  qed
qed

lemma set_val_correct:
  assumes I: "hs_inv ht" and p: "cell_of ht k = Some p" and vs: "ht_value_size ht \<noteq> 0"
  shows "hs_inv (set_val ht p v)" "hs_keys (set_val ht p v) = hs_keys ht"
    "hs_map (set_val ht p v) = (hs_map ht)(k \<mapsto> trunc_val (ht_value_size ht) v)"
    "same_shape ht (set_val ht p v)"
proof -
  note D = hs_invD[OF I]
  have pk: "k \<noteq> 0" "p < length (ht_keys ht)" "ht_keys ht ! p = k"
    using p cell_of_Some[OF I] by auto
  have vsn: "ht_value_size ht \<in> {1, 2, 4, 8}" using vs D(3) by auto
  have len: "length (ht_vals ht) = length (ht_keys ht)" using D(4) vs by simp
  define t where "t = set_val ht p v"
  have f: "t = ht\<lparr>ht_vals := (ht_vals ht)[p := trunc_val (ht_value_size ht) v]\<rparr>"
    using vsn by (simp add: set_val_def t_def)
  show "hs_keys (set_val ht p v) = hs_keys ht"
    unfolding t_def[symmetric] by (simp add: f hs_keys_def)
  have inv: "hs_inv t"
    using D len pk vs unfolding hs_inv_def f by (auto simp: nth_list_update hs_keys_def)
  then show "hs_inv (set_val ht p v)" by (simp add: t_def)
  show "same_shape ht (set_val ht p v)"
    unfolding t_def[symmetric] by (simp add: f same_shape_def)
  have "hs_map t x = ((hs_map ht)(k \<mapsto> trunc_val (ht_value_size ht) v)) x" for x
  proof (cases "x = k")
    case True
    moreover have "cell_of t = cell_of ht" by (simp add: fun_eq_iff cell_of_def f)
    with p have "cell_of t k = Some p" by simp
    ultimately show ?thesis
      using vsn pk len unfolding hs_map_def get_val_eq by (simp add: f)
  next
    case False
    have "cell_of t x = cell_of ht x" by (simp add: cell_of_def f)
    moreover have "get_val t q = get_val ht q" if "cell_of ht x = Some q" for q
    proof -
      have "q \<noteq> p" using that cell_of_Some[OF I] pk False by auto
      then show ?thesis using vsn unfolding get_val_eq by (simp add: f)
    qed
    ultimately show ?thesis using False by (cases "cell_of ht x") (auto simp: hs_map_def)
  qed
  then show "hs_map (set_val ht p v) = (hs_map ht)(k \<mapsto> trunc_val (ht_value_size ht) v)"
    by (simp add: t_def fun_eq_iff)
qed

lemma put_correct:
  assumes I: "hs_inv ht" and nr: "\<not> ht_rehashing ht" and c: "ht_compare ht = None"
    and k: "k \<noteq> 0" and vs: "ht_value_size ht \<noteq> 0"
    and r: "hopscotch_put env fuel ht k v = Some (ht', n)"
  shows "insert_post ht k v ht' \<and> (n = 0 \<longleftrightarrow> k \<in> hs_keys ht)"
proof (cases "cell_of ht k")
  case (Some p)
  then have "ht' = set_val ht p v" "n = 0"
    using r by (auto simp: hopscotch_put_def lookup_index_cell[OF I c k])
  moreover have "k \<in> hs_keys ht" using Some cell_of_None[of ht k] by force
  ultimately show ?thesis
    using set_val_correct[OF I Some vs, of v]
    by (auto simp: insert_post_def same_shape_def table_size_def)
next
  case None
  then have r': "hopscotch_insert env fuel ht k v = Some (ht', n)"
    using r by (auto simp: hopscotch_put_def lookup_index_cell[OF I c k])
  have kn: "k \<notin> hs_keys ht" using None cell_of_None by blast
  from insert_correct[OF I nr k kn r'] have "insert_post ht k v ht'" "n = card (hs_keys ht')"
    by auto
  moreover from this have "n \<noteq> 0" by (auto simp: insert_post_def hs_keys_def)
  ultimately show ?thesis using kn by simp
qed

text \<open>\<open>hopscotch_get_ref\<close> returns the cell of the key, inserting the key with value 0 first
  when it is absent.\<close>

lemma get_ref_correct:
  assumes "hs_inv ht" "\<not> ht_rehashing ht" "ht_compare ht = None" "k \<noteq> 0"
    and "hopscotch_get_ref env fuel ht k = Some (ht', i)"
  shows "cell_of ht' k = Some i \<and>
    (if k \<in> hs_keys ht then ht' = ht else insert_post ht k 0 ht')"
  using assms
proof (induction env fuel ht k arbitrary: ht' i rule: hopscotch_get_ref.induct)
  case (1 env ht key)
  then show ?case by simp
next
  case (2 env fuel ht key)
  note lk = lookup_index_cell[OF 2(2,4,5)]
  show ?case
  proof (cases "cell_of ht key")
    case (Some j)
    then show ?thesis using 2(6) lk cell_of_None[of ht key] by auto
  next
    case None
    then have kn: "key \<notin> hs_keys ht" using cell_of_None by blast
    obtain t n where t: "hopscotch_insert env (Suc fuel) ht key 0 = Some (t, n)"
      "hopscotch_get_ref env fuel t key = Some (ht', i)"
      using 2(6) None lk by (auto split: option.splits prod.splits)
    have ip: "insert_post ht key 0 t" using insert_correct[OF 2(2,3,5) kn t(1)] by simp
    then have "cell_of ht' key = Some i \<and> (if key \<in> hs_keys t then ht' = t else insert_post t key 0 ht')"
      using 2(1)[of "(t, n)" t n ht' i] t None lk 2(3-5) by (auto simp: insert_post_def)
    then show ?thesis using ip kn by (auto simp: insert_post_def)
  qed
qed

section \<open>Deletion\<close>

lemma delete_correct:
  assumes I: "hs_inv ht" and c: "ht_compare ht = None" and k: "k \<noteq> 0"
    and r: "hopscotch_delete ht k = (ht', n)"
  shows "hs_inv ht' \<and> same_shape ht ht' \<and> hs_keys ht' = hs_keys ht - {k} \<and>
     (ht_value_size ht \<noteq> 0 \<longrightarrow> hs_map ht' = (hs_map ht)(k := None)) \<and>
     n = (if k \<in> hs_keys ht then 1 else 0)"
proof -
  note D = hs_invD[OF I] and L = layoutD[OF hs_invD(1)[OF I]]
  let ?pb = "probe_bits (\<lambda>a. a = k) (ht_keys ht) (ht_hops ht ! home ht k) (home ht k)"
  show ?thesis
  proof (cases ?pb)
    case None
    then have "ht' = ht" "n = 0" using r c by (auto simp: hopscotch_delete_def get_hop_mask_def Let_def)
    moreover have "k \<notin> hs_keys ht"
    proof
      assume "k \<in> hs_keys ht"
      then obtain p where p: "p < length (ht_keys ht)" "ht_keys ht ! p = k"
        by (auto simp: hs_keys_def in_set_conv_nth)
      from probe_bits_None[OF None hop_bit_of_key(1)[OF I p k]] hop_bit_of_key(3)[OF I p k] p
      show False by simp
    qed
    moreover from this have "hs_map ht k = None" by (simp add: hs_map_None)
    ultimately show ?thesis using I by (auto simp: fun_upd_idem)
  next
    case (Some p)
    from probe_bits_Some[OF Some] have p: "home ht k \<le> p"
      "bit (ht_hops ht ! home ht k) (p - home ht k)" "ht_keys ht ! p = k" by auto
    have pl: "p < length (ht_keys ht)"
      using L(6)[OF L(5), of k "p - home ht k"] p L(2) L(5)[of k] L(3) by auto
    have kin: "k \<in> hs_keys ht" using pl p(3) k by (auto simp: hs_keys_def)
    have f: "ht_keys ht' = (ht_keys ht)[p := 0]"
      "ht_hops ht' = (ht_hops ht)[home ht k := ht_hops ht ! home ht k XOR push_bit (p - home ht k) 1]"
      "ht_vals ht' = (if ht_value_size ht = 0 then ht_vals ht else (ht_vals ht)[p := 0])"
      "ht_count ht' = ht_count ht - 1" "n = 1" "same_shape ht ht'"
      using r c Some D(3)
      by (auto simp: hopscotch_delete_def get_hop_mask_def set_hop_mask_def set_val_def Let_def
          same_shape_def)
    then have g: "home ht' = home ht" "ht_hop_range ht' = ht_hop_range ht"
      "table_size ht' = table_size ht" "ht_value_size ht' = ht_value_size ht"
      using same_shape_home[of ht ht'] by (auto simp: same_shape_def table_size_def)
    have ks: "hs_keys ht' = hs_keys ht - {k}"
    proof -
      have "k \<notin> set ((ht_keys ht)[p := 0])" by (rule notin_after_clear[OF D(1) pl p(3) k])
      moreover have "x \<in> set ((ht_keys ht)[p := 0])" if "x \<in> set (ht_keys ht)" "x \<noteq> k" for x
        using that p(3) by (metis in_set_conv_nth length_list_update nth_list_update_neq)
      moreover have "set ((ht_keys ht)[p := 0]) \<subseteq> insert 0 (set (ht_keys ht))"
        by (rule set_update_subset_insert)
      ultimately show ?thesis unfolding hs_keys_def f(1) by auto
    qed
    have "layout (home ht') (ht_hop_range ht') (table_size ht') (ht_keys ht') (ht_hops ht')"
      unfolding f g by (rule layout_clear[OF D(1) pl p(3) k])
    moreover have "ht_count ht' = card (hs_keys ht')"
      using kin ks f(4) D(7) by (simp add: hs_keys_def)
    ultimately have inv: "hs_inv ht'"
      using D(2-6) pl unfolding hs_inv_def f g by (auto simp: nth_list_update)
    have "hs_map ht' = (hs_map ht)(k := None)" if vs: "ht_value_size ht \<noteq> 0"
    proof (rule map_eqI)
      fix x
      show "(hs_map ht' x = None) = (((hs_map ht)(k := None)) x = None)"
        by (simp add: hs_map_None ks)
      have vsn: "ht_value_size ht \<in> {1, 2, 4, 8}" using vs D(3) by auto
      fix w assume "hs_map ht' x = Some w"
      then obtain q where q: "x \<noteq> 0" "q < length (ht_keys ht)" "(ht_keys ht)[p := 0] ! q = x"
        "get_val ht' q = w"
        using hs_map_Some[OF inv] by (auto simp: f)
      then have qp: "q \<noteq> p" using pl by auto
      then have x: "ht_keys ht ! q = x" using q by simp
      have "get_val ht q = w" using q(4) qp vs vsn unfolding get_val_eq g f by simp
      moreover have "x \<noteq> k" using x qp L(9)[of q p] q(1,2) pl p(3) by auto
      ultimately show "((hs_map ht)(k := None)) x = Some w"
        using hs_map_Some[OF I, of x w] x q by auto
    qed
    then show ?thesis using inv ks f(5,6) kin by simp
  qed
qed

section \<open>Reset\<close>

lemma table_size_pos: "0 < table_size ht" "table_size ht \<le> 2 ^ 32"
  using unat_lt[of "ht_mask ht"] by (auto simp: table_size_def)

lemma clear_inv:
  assumes I: "hs_inv ht" and e: "hs_keys ht = {}"
  shows "\<forall>p<length (ht_keys ht). ht_keys ht ! p = 0"
    "\<forall>i<length (ht_hops ht). ht_hops ht ! i = 0"
    "\<forall>p<length (ht_vals ht). ht_vals ht ! p = 0"
proof -
  note D = hs_invD[OF I] and L = layoutD[OF hs_invD(1)[OF I]]
  have z: "ht_keys ht ! p = 0" if "p < length (ht_keys ht)" for p
    using e nth_mem[OF that] unfolding hs_keys_def by blast
  then show "\<forall>p<length (ht_keys ht). ht_keys ht ! p = 0" by simp
  have "\<not> bit (ht_hops ht ! i) j" if "i < table_size ht" for i j
    using L(6)[OF that, of j] z[of "i + j"] that L(2,3) by auto
  then show "\<forall>i<length (ht_hops ht). ht_hops ht ! i = 0"
    unfolding L(1) using word_neq_0_bit by blast
  show "\<forall>p<length (ht_vals ht). ht_vals ht ! p = 0"
    using D(4,6) z by (auto split: if_splits)
qed

text \<open>The array contents that \<open>memset\<close> leaves are those of an empty table, so clearing
  by \<open>memset\<close> and finding the count already 0 lead to the same state.\<close>

lemma reset_correct:
  assumes I: "hs_inv ht" and prev: "0 < ht_prev_size ht"
  shows "hs_inv (hopscotch_reset ht)" "hs_keys (hopscotch_reset ht) = {}"
    "ht_prev_size (hopscotch_reset ht) = table_size ht"
    "ht_mem_size (hopscotch_reset ht) =
       (if table_size ht > 2 * ht_prev_size ht
           \<or> (table_size ht = ht_prev_size ht \<and> \<not> ht_resized ht \<and> table_size ht > 8)
        then storage_size (ht_value_size ht) (table_size ht div 2) (hop_range_for (table_size ht div 2) 0)
        else ht_mem_size ht)"
proof -
  note D = hs_invD[OF I] and L = layoutD[OF hs_invD(1)[OF I]]
  define c where "c = (if ht_count ht \<noteq> 0
                then ht\<lparr>ht_keys := map (\<lambda>_. 0) (ht_keys ht),
                        ht_hops := map (\<lambda>_. 0) (ht_hops ht),
                        ht_vals := map (\<lambda>_. 0) (ht_vals ht), ht_count := 0\<rparr>
                else ht)"
  have f: "table_size c = table_size ht" "ht_value_size c = ht_value_size ht" "ht_count c = 0"
    "ht_hop_range c = ht_hop_range ht" "ht_prev_size c = ht_prev_size ht"
    "ht_resized c = ht_resized ht" "ht_mem_size c = ht_mem_size ht"
    "length (ht_keys c) = length (ht_keys ht)" "length (ht_hops c) = length (ht_hops ht)"
    "length (ht_vals c) = length (ht_vals ht)"
    by (simp_all add: c_def table_size_def)
  have ck: "hs_keys c = {}"
    using D(7) by (auto simp: c_def hs_keys_def card_eq_0_iff)
  have "layout (home c) (ht_hop_range c) (table_size c) (ht_keys c) (ht_hops c)"
  proof (cases "ht_count ht = 0")
    case True
    then show ?thesis using D(1) by (simp add: c_def)
  next
    case False
    then have "ht_keys c = replicate (table_size c + (ht_hop_range c - 1)) 0"
      "ht_hops c = replicate (table_size c) 0"
      using L(1,2) f by (simp_all add: c_def map_replicate_const)
    then show ?thesis using layout_empty[of "home c", OF home_less L(3,4)] f(1,4) by simp
  qed
  moreover have "\<forall>p<length (ht_vals c). ht_vals c ! p = 0"
    using clear_inv(3)[OF I] D(7) by (auto simp: c_def hs_keys_def card_eq_0_iff)
  ultimately have ci: "hs_inv c"
    using D(2,3,4) ck f unfolding hs_inv_def by simp
  define sh where "sh \<longleftrightarrow> table_size ht > 2 * ht_prev_size ht
           \<or> (table_size ht = ht_prev_size ht \<and> \<not> ht_resized ht \<and> table_size ht > 8)"
  define d where "d = (if sh then hopscotch_realloc c (table_size ht div 2) 0 else c)"
  have r: "hopscotch_reset ht = d\<lparr>ht_prev_size := table_size ht, ht_resized := False,
      ht_hash := (if ht_hashfun ht = 1 then None else ht_hash d)\<rparr>"
    unfolding hopscotch_reset_def Let_def c_def[symmetric] f d_def sh_def
    by (simp add: c_def hopscotch_realloc_def Let_def)
  have di: "hs_inv d \<and> hs_keys d = {}"
  proof (cases sh)
    case True
    then have "0 < table_size ht div 2" using prev unfolding sh_def by auto
    moreover have "table_size ht div 2 \<le> 2 ^ 32" using table_size_pos(2)[of ht] by simp
    ultimately show ?thesis
      using True realloc_inv[of "table_size ht div 2" c 0, OF _ _ _ f(3) hop_range_for_props]
        f(2) D(3) by (simp add: d_def)
  next
    case False
    then show ?thesis using ci ck by (simp add: d_def)
  qed
  let ?h = "if ht_hashfun ht = 1 then None else ht_hash d"
  have e: "hs_inv (d\<lparr>ht_hash := ?h, ht_rehashing := ht_rehashing d\<rparr>)"
    "hs_keys (d\<lparr>ht_hash := ?h, ht_rehashing := ht_rehashing d\<rparr>) = {}"
    using hs_inv_hash_irrelevant[where t = d] di by blast+
  have hm: "home (hopscotch_reset ht) = home (d\<lparr>ht_hash := ?h, ht_rehashing := ht_rehashing d\<rparr>)"
    by (simp add: r home_def hash_def fun_eq_iff)
  show "hs_keys (hopscotch_reset ht) = {}" using e(2) by (simp add: r hs_keys_def)
  then show "hs_inv (hopscotch_reset ht)"
    using e hm by (simp add: hs_inv_def r hs_keys_def table_size_def)
  show "ht_prev_size (hopscotch_reset ht) = table_size ht" by (simp add: r)
  show "ht_mem_size (hopscotch_reset ht) =
       (if table_size ht > 2 * ht_prev_size ht
           \<or> (table_size ht = ht_prev_size ht \<and> \<not> ht_resized ht \<and> table_size ht > 8)
        then storage_size (ht_value_size ht) (table_size ht div 2) (hop_range_for (table_size ht div 2) 0)
        else ht_mem_size ht)"
    unfolding r sh_def[symmetric] d_def by (simp add: hopscotch_realloc_def Let_def f)
qed

end
