(* ===== verification/HopscotchTerm.thy ===== *)
theory HopscotchTerm
  imports HopscotchOps
begin

text \<open>
  When insertion returns. Doubling stops as soon as the hash codes of the stored keys differ
  in their low bits: in a table of \<open>2 ^ n\<close> bins whose keys have distinct bins every key is
  placed in its own bin at the first attempt. With 32-bit hash codes that are distinct on the
  keys, some \<open>n\<close> always does, so an insertion needs no more resizes than doublings to get
  there.
\<close>

unbundle bit_operations_syntax

section \<open>An attempt at an empty home cell succeeds\<close>

lemma attempt_home_free:
  "ht_keys ht ! home ht k = 0 \<Longrightarrow> insert_attempt ht k v = Inr (placed ht (home ht k) k v)"
  by (simp add: insert_attempt_def placed_def Let_def)

text \<open>Every key of the table sits in its own home cell.\<close>

definition all_home :: "hopscotch_table \<Rightarrow> bool" where
  "all_home ht \<longleftrightarrow> (\<forall>p<length (ht_keys ht). ht_keys ht ! p \<noteq> 0 \<longrightarrow> home ht (ht_keys ht ! p) = p)"

lemma all_home_free:
  assumes "hs_inv ht" "all_home ht" "\<And>a. a \<in> hs_keys ht \<Longrightarrow> home ht a \<noteq> home ht k"
  shows "ht_keys ht ! home ht k = 0"
proof (rule ccontr)
  assume nz: "ht_keys ht ! home ht k \<noteq> 0"
  have l: "home ht k < length (ht_keys ht)"
    using layoutD(2)[OF hs_invD(1)[OF assms(1)]] layoutD(5)[OF hs_invD(1)[OF assms(1)], of k] by simp
  then have "ht_keys ht ! home ht k \<in> hs_keys ht" using nz by (simp add: hs_keys_def)
  moreover have "home ht (ht_keys ht ! home ht k) = home ht k"
    using assms(2) l nz unfolding all_home_def by blast
  ultimately show False using assms(3) by blast
qed

lemma placed_all_home:
  assumes "hs_inv ht" "all_home ht" "ht_keys ht ! home ht k = 0"
  shows "all_home (placed ht (home ht k) k v)"
proof -
  let ?t = "placed ht (home ht k) k v"
  have ks: "ht_keys ?t = (ht_keys ht)[home ht k := k]" by (simp add: placed_def put_pair_simps set_hop_simps)
  have hm: "home ?t = home ht" by (simp add: placed_def put_pair_simps set_hop_simps)
  have "home ?t (ht_keys ?t ! p) = p" if p: "p < length (ht_keys ?t)" "ht_keys ?t ! p \<noteq> 0" for p
  proof (cases "p = home ht k")
    case True
    with p(1) show ?thesis unfolding hm ks by simp
  next
    case False
    with p assms(2) show ?thesis unfolding hm ks all_home_def by simp
  qed
  then show ?thesis unfolding all_home_def by blast
qed

lemma rehash_into_succeeds:
  assumes "hs_inv t" "ht_rehashing t" "all_home t" "0 \<notin> fst ` set kvs"
    "distinct (map fst kvs)" "fst ` set kvs \<inter> hs_keys t = {}"
    "inj_on (home t) (hs_keys t \<union> fst ` set kvs)"
  shows "\<exists>t'. rehash_into t kvs = Some t' \<and> all_home t'"
  using assms
proof (induction kvs arbitrary: t)
  case Nil
  then show ?case by simp
next
  case (Cons kv kvs)
  obtain k v where kv: "kv = (k, v)" by (cases kv)
  have k: "k \<noteq> 0" "k \<notin> hs_keys t" using Cons.prems(4,6) kv by auto
  have ne: "home t a \<noteq> home t k" if "a \<in> hs_keys t" for a
  proof
    assume "home t a = home t k"
    with that kv have "a = k" by (intro inj_onD[OF Cons.prems(7)]) auto
    with that k(2) show False by simp
  qed
  have free: "ht_keys t ! home t k = 0" by (rule all_home_free[OF Cons.prems(1,3) ne])
  let ?t = "placed t (home t k) k v"
  have a: "insert_attempt t k v = Inr ?t" by (rule attempt_home_free[OF free])
  then have ins: "inserted t k v ?t"
    using insert_attempt_correct[OF Cons.prems(1) k, of v] by simp
  then have t: "hs_inv ?t" "hs_keys ?t = insert k (hs_keys t)" "ht_rehashing ?t" "home ?t = home t"
    using Cons.prems(2) same_shape_home[of t ?t] by (auto simp: inserted_def same_shape_def)
  have "\<exists>t'. rehash_into ?t kvs = Some t' \<and> all_home t'"
  proof (rule Cons.IH[OF t(1,3)])
    show "all_home ?t" by (rule placed_all_home[OF Cons.prems(1,3) free])
    show "0 \<notin> fst ` set kvs" "distinct (map fst kvs)" using Cons.prems(4,5) by auto
    show "fst ` set kvs \<inter> hs_keys ?t = {}" using Cons.prems(5,6) kv t(2) by auto
    show "inj_on (home ?t) (hs_keys ?t \<union> fst ` set kvs)"
      using Cons.prems(7) kv unfolding t(2,4) by simp
  qed
  then show ?case by (simp add: kv a)
qed

section \<open>Enough fuel\<close>

text \<open>The bin a key gets in a table of \<open>sz\<close> bins made by a resize: the hash function is the
  one \<open>hopscotch_create\<close> installs for \<open>hashfun\<close>, except that the default one is replaced
  by \<open>hopscotch_hmix\<close> when the hop range exceeds 16, above 16384 bins.\<close>

definition resize_hash :: "hash_env \<Rightarrow> nat \<Rightarrow> nat \<Rightarrow> uword \<Rightarrow> u32" where
  "resize_hash env hf sz x =
     (if hf = 1 then (if sz > 16384 then hopscotch_hmix x
                      else ucast (drop_bit 10 x XOR drop_bit 4 x))
      else if hf = 2 then hopscotch_hmix x
      else if hf = 3 then env_string_hash env x
      else env_vector_hash env x)"

definition resize_bin :: "hash_env \<Rightarrow> nat \<Rightarrow> nat \<Rightarrow> uword \<Rightarrow> nat" where
  "resize_bin env hf sz x = unat (resize_hash env hf sz x AND of_nat (sz - 1))"

lemma pow2_create:
  assumes "hf \<in> {1, 2, 3, 4}" "vs \<in> {0, 1, 2, 4, 8}"
  shows "\<exists>t. hopscotch_create env hf vs (2 ^ n) 0 = Some t"
proof -
  have "(of_nat (2 ^ n) :: u32) AND (of_nat (2 ^ n) - 1) = 0"
  proof -
    have "(2 ^ n :: u32) AND mask n = 0"
      by (auto intro!: bit_word_eqI simp: bit_and_iff bit_exp_iff bit_mask_iff)
    then show ?thesis by (simp add: mask_eq_exp_minus_1)
  qed
  then show ?thesis using assms by (auto simp: hopscotch_create_def)
qed

lemma resize_copy_home:
  assumes c: "hopscotch_create env hf vs sz 0 = Some c0"
    and copy: "c = (if ht_hop_range c0 > 16 \<and> ht_hash c0 = None
         then c0\<lparr>ht_hash := Some hopscotch_hmix\<rparr> else c0)\<lparr>ht_rehashing := True\<rparr>"
  shows "home c = resize_bin env hf sz"
proof -
  have hr: "ht_hop_range c0 > 16 \<longleftrightarrow> sz > 16384"
    by (simp add: create_SomeD(4)[OF c] hop_range_for_def)
  have m: "ht_mask c0 = of_nat (sz - 1)" and hh: "ht_hash c0 =
      (if hf = 1 then None else if hf = 2 then Some hopscotch_hmix
       else if hf = 3 then Some (env_string_hash env) else Some (env_vector_hash env))"
    using c by (auto simp: hopscotch_create_def hopscotch_realloc_def Let_def split: if_splits)
  have "hash c x = resize_hash env hf sz x" for x
    unfolding copy resize_hash_def hash_def hr hh
    by (cases "hf = 1"; cases "hf = 2"; cases "hf = 3") (auto simp: hh)
  moreover have "ht_mask c = of_nat (sz - 1)" by (simp add: copy m)
  ultimately show ?thesis by (simp add: fun_eq_iff home_def resize_bin_def)
qed


text \<open>One round of the resize loop: the fresh copy of doubled size.\<close>

lemma resize_round:
  assumes I: "hs_inv ht" and hf: "ht_hashfun ht \<in> {1, 2, 3, 4}" and n: "n \<le> 30" "0 < n"
  obtains c where
    "resize_loop env (Suc fuel) ht (2 ^ (n - 1)) =
       (case rehash_into c (live_pairs ht) of Some copy \<Rightarrow> Some copy
        | None \<Rightarrow> resize_loop env fuel ht (2 ^ n))"
    "hs_inv c" "hs_keys c = {}" "table_size c = 2 ^ n" "ht_rehashing c"
    "home c = resize_bin env (ht_hashfun ht) (2 ^ n)" "all_home c"
proof -
  have vs: "ht_value_size ht \<in> {0, 1, 2, 4, 8}" using hs_invD(3)[OF I] .
  obtain c0 where c0: "hopscotch_create env (ht_hashfun ht) (ht_value_size ht) (2 ^ n) 0 = Some c0"
    using pow2_create[OF hf vs] by blast
  define f where "f = (if ht_hop_range c0 > 16 \<and> ht_hash c0 = None
      then Some hopscotch_hmix else ht_hash c0)"
  define c where "c = c0\<lparr>ht_hash := f, ht_rehashing := True\<rparr>"
  have c_eq: "(if ht_hop_range c0 > 16 \<and> ht_hash c0 = None
      then c0\<lparr>ht_hash := Some hopscotch_hmix\<rparr> else c0)\<lparr>ht_rehashing := True\<rparr> = c"
    by (simp add: c_def f_def)
  have sz: "2 ^ (n - 1) * 2 = (2 ^ n :: nat)"
    using n(2) by (cases n) simp_all
  have lt: "(2 ^ n :: nat) < 2 ^ 31"
    using n(1) by (intro power_strict_increasing) simp_all
  have step: "resize_loop env (Suc fuel) ht (2 ^ (n - 1)) =
       (case rehash_into c (live_pairs ht) of Some copy \<Rightarrow> Some copy
        | None \<Rightarrow> resize_loop env fuel ht (2 ^ n))"
    unfolding resize_loop.simps Let_def sz c0 option.case c_eq using lt by simp
  have le: "(2 ^ n :: nat) \<le> 2 ^ 32" using lt by simp
  note CI = create_inv[OF c0 _ le hop_range_for_props, simplified]
  have IC: "hs_inv c" "hs_keys c = {}" "table_size c = 2 ^ n" "ht_rehashing c"
    using CI hs_inv_hash_irrelevant[where t = c0 and f = f and r = True]
    by (auto simp: c_def table_size_def)
  have hc: "home c = resize_bin env (ht_hashfun ht) (2 ^ n)"
    by (rule resize_copy_home[OF c0]) (simp add: c_eq)
  have "all_home c" using IC(2) nth_mem unfolding all_home_def hs_keys_def by blast
  with step IC hc show thesis by (rule that)
qed

lemma resize_loop_returns:
  assumes "hs_inv ht" "ht_hashfun ht \<in> {1, 2, 3, 4}" "m < n" "n \<le> 30"
    "inj_on (resize_bin env (ht_hashfun ht) (2 ^ n)) (hs_keys ht)" "n - m \<le> fuel"
  shows "\<exists>copy m'. resize_loop env fuel ht (2 ^ m) = Some copy \<and> m < m' \<and> m' \<le> n \<and>
    table_size copy = 2 ^ m' \<and>
    (m' = n \<longrightarrow> all_home copy \<and> home copy = resize_bin env (ht_hashfun ht) (2 ^ n))"
  using assms
proof (induction fuel arbitrary: m)
  case 0
  then show ?case by simp
next
  case (Suc fuel)
  have m30: "Suc m \<le> 30" "0 < Suc m" using Suc.prems(3,4) by simp_all
  obtain c where
    step: "resize_loop env (Suc fuel) ht (2 ^ m) =
       (case rehash_into c (live_pairs ht) of Some copy \<Rightarrow> Some copy
        | None \<Rightarrow> resize_loop env fuel ht (2 ^ Suc m))" and
    c: "hs_inv c" "hs_keys c = {}" "table_size c = 2 ^ Suc m" "ht_rehashing c"
    "home c = resize_bin env (ht_hashfun ht) (2 ^ Suc m)" "all_home c"
    using resize_round[OF Suc.prems(1,2) m30, of env fuel] by (metis diff_Suc_1)
  note P = live_pairs_props[OF Suc.prems(1)]
  have shape: "table_size c' = 2 ^ Suc m \<and> home c' = home c"
    if "rehash_into c (live_pairs ht) = Some c'" for c'
    using rehash_into_correct[OF c(1,4) P(3,1) _ that] c(2,3) same_shape_home[of c c']
    by (auto simp: same_shape_def table_size_def)
  show ?case
  proof (cases "Suc m = n")
    case True
    have "\<exists>t'. rehash_into c (live_pairs ht) = Some t' \<and> all_home t'"
      using Suc.prems(5) c True P(2)
      by (intro rehash_into_succeeds[OF c(1,4,6) P(3,1)]) auto
    then obtain t' where t': "rehash_into c (live_pairs ht) = Some t'" "all_home t'" by blast
    then show ?thesis using step shape[OF t'(1)] c(5) True by (intro exI[of _ t'] exI[of _ n]) auto
  next
    case False
    show ?thesis
    proof (cases "rehash_into c (live_pairs ht)")
      case (Some c')
      then show ?thesis using step shape[OF Some] False Suc.prems(3)
        by (intro exI[of _ c'] exI[of _ "Suc m"]) auto
    next
      case None
      have "Suc m < n" "n - Suc m \<le> fuel" using False Suc.prems(3,6) by auto
      from Suc.IH[OF Suc.prems(1,2) this(1) Suc.prems(4,5) this(2)]
      show ?thesis using step None by auto
    qed
  qed
qed

text \<open>What an insertion needs to return: room to double up to \<open>2 ^ n\<close> bins, or a table of
  that size in which every key is at home.\<close>

definition insert_ready :: "hash_env \<Rightarrow> nat \<Rightarrow> nat \<Rightarrow> hopscotch_table \<Rightarrow> bool" where
  "insert_ready env n m ht \<longleftrightarrow> table_size ht = 2 ^ m \<and>
     (m < n \<or> m = n \<and> all_home ht \<and> home ht = resize_bin env (ht_hashfun ht) (2 ^ n))"

lemma resize_up_returns:
  assumes I: "hs_inv ht" and hf: "ht_hashfun ht \<in> {1, 2, 3, 4}" and mn: "m < n" "n \<le> 30"
    and sz: "table_size ht = 2 ^ m"
    and inj: "inj_on (resize_bin env (ht_hashfun ht) (2 ^ n)) (hs_keys ht)" and fuel: "n - m \<le> fuel"
  shows "\<exists>ht' m'. hopscotch_resize_up env fuel ht = Some ht' \<and> m < m' \<and> m' \<le> n \<and>
    insert_ready env n m' ht'"
proof -
  obtain copy m' where c: "resize_loop env fuel ht (2 ^ m) = Some copy" "m < m'" "m' \<le> n"
    "table_size copy = 2 ^ m'"
    "m' = n \<longrightarrow> all_home copy \<and> home copy = resize_bin env (ht_hashfun ht) (2 ^ n)"
    using resize_loop_returns[OF I hf mn inj fuel] by blast
  have sz': "unat (ht_mask ht) + 1 = 2 ^ m" using sz by (simp add: table_size_def)
  define t where "t = ht
          \<lparr>ht_hash := ht_hash copy, ht_mem_size := ht_mem_size copy,
           ht_mask := ht_mask copy, ht_hop_range := ht_hop_range copy,
           ht_threshold := ht_threshold copy, ht_keys := ht_keys copy,
           ht_hops := ht_hops copy, ht_vals := ht_vals copy, ht_resized := True\<rparr>"
  have up: "hopscotch_resize_up env fuel ht = Some t"
    unfolding hopscotch_resize_up_def sz' c(1) t_def by simp
  have f: "table_size t = table_size copy" "home t = home copy" "ht_keys t = ht_keys copy"
    "ht_hashfun t = ht_hashfun ht"
    by (auto simp: t_def table_size_def home_def hash_def fun_eq_iff)
  then have "all_home t = all_home copy" by (simp add: all_home_def)
  with f c up show ?thesis
    by (intro exI[of _ t] exI[of _ m']) (auto simp: insert_ready_def)
qed

lemma insert_returns:
  assumes "hs_inv ht" "\<not> ht_rehashing ht" "ht_hashfun ht \<in> {1, 2, 3, 4}" "k \<noteq> 0" "k \<notin> hs_keys ht"
    "n \<le> 30" "insert_ready env n m ht"
    "inj_on (resize_bin env (ht_hashfun ht) (2 ^ n)) (insert k (hs_keys ht))" "n - m < fuel"
  shows "\<exists>ht'. hopscotch_insert env fuel ht k v = Some (ht', card (hs_keys ht'))"
proof -
  have "\<exists>r. hopscotch_insert env fuel ht k v = Some r"
    using assms
  proof (induction fuel arbitrary: ht m)
    case 0
    then show ?case by simp
  next
    case (Suc fuel)
    note A = insert_attempt_correct[OF Suc.prems(1,4,5), of v]
    show ?case
    proof (cases "insert_attempt ht k v")
      case (Inr t)
      then show ?thesis by simp
    next
      case (Inl t)
      with A have t: "hs_inv t" "same_contents ht t" by auto
      have sh: "ht_hashfun t = ht_hashfun ht" "table_size t = table_size ht"
        "\<not> ht_rehashing t" "hs_keys t = hs_keys ht" "ht_value_size t = ht_value_size ht"
        using t(2) Suc.prems(2) by (auto simp: same_contents_def same_shape_def table_size_def)
      have mn: "m < n"
      proof (rule ccontr)
        assume "\<not> m < n"
        with Suc.prems(7) have ah: "m = n" "all_home ht"
            "home ht = resize_bin env (ht_hashfun ht) (2 ^ n)"
          by (auto simp: insert_ready_def)
        have "home ht a \<noteq> home ht k" if "a \<in> hs_keys ht" for a
        proof
          assume "home ht a = home ht k"
          with that have "a = k" unfolding ah(3) by (intro inj_onD[OF Suc.prems(8)]) auto
          with that Suc.prems(5) show False by simp
        qed
        from attempt_home_free[OF all_home_free[OF Suc.prems(1) ah(2) this]] Inl
        show False by simp
      qed
      have inj: "inj_on (resize_bin env (ht_hashfun t) (2 ^ n)) (hs_keys t)"
        using Suc.prems(8) by (simp add: sh inj_on_insert)
      have szt: "table_size t = 2 ^ m" using Suc.prems(7) by (simp add: sh insert_ready_def)
      have hft: "ht_hashfun t \<in> {1, 2, 3, 4}" using Suc.prems(3) by (simp add: sh)
      have fuel: "n - m \<le> Suc fuel" using Suc.prems(9) by simp
      obtain u m' where u: "hopscotch_resize_up env (Suc fuel) t = Some u" "m < m'" "m' \<le> n"
          "insert_ready env n m' u"
        using resize_up_returns[OF t(1) hft mn Suc.prems(6) szt inj fuel] by blast
      have ru: "resized t u" by (rule resize_up_correct[OF t(1) u(1)])
      have "\<exists>r. hopscotch_insert env fuel u k v = Some r"
        using ru sh Suc.prems u(2-4) mn by (intro Suc.IH[of u m']) (auto simp: resized_def)
      then show ?thesis using Inl sh(3) u(1) by simp
    qed
  qed
  then obtain ht' c where r: "hopscotch_insert env fuel ht k v = Some (ht', c)" by auto
  with insert_correct[OF assms(1,2,4,5) r] show ?thesis by simp
qed

end
