(* ===== verification/HopscotchMap.thy ===== *)
theory HopscotchMap
  imports HopscotchTerm
begin

text \<open>
  The interface the collector's clients use: a finite map from words to words with
  \<open>get\<close>, \<open>containsp\<close>, \<open>put\<close>, \<open>delete\<close> and \<open>reset\<close>, stated as the locale
  \<open>word_map\<close> and discharged for the hopscotch table, and the properties of the table as
  its users see them.
\<close>

unbundle bit_operations_syntax

section \<open>The interface of a word-to-word map\<close>

text \<open>\<open>conv\<close> is the conversion a value undergoes in a cell narrower than a word.\<close>

locale word_map =
  fixes inv :: "'t \<Rightarrow> bool"
    and look :: "'t \<Rightarrow> uword \<Rightarrow> uword option"
    and get :: "'t \<Rightarrow> uword \<Rightarrow> uword \<Rightarrow> uword"
    and has :: "'t \<Rightarrow> uword \<Rightarrow> bool"
    and put :: "'t \<Rightarrow> uword \<Rightarrow> uword \<Rightarrow> ('t \<times> nat) option"
    and del :: "'t \<Rightarrow> uword \<Rightarrow> 't \<times> nat"
    and clear :: "'t \<Rightarrow> 't"
    and conv :: "uword \<Rightarrow> uword"
  assumes get_law: "inv t \<Longrightarrow> k \<noteq> 0 \<Longrightarrow> get t k d = (case look t k of Some v \<Rightarrow> v | None \<Rightarrow> d)"
    and has_law: "inv t \<Longrightarrow> k \<noteq> 0 \<Longrightarrow> has t k \<longleftrightarrow> k \<in> dom (look t)"
    and put_law: "inv t \<Longrightarrow> k \<noteq> 0 \<Longrightarrow> put t k v = Some (t', n) \<Longrightarrow>
      inv t' \<and> look t' = (look t)(k \<mapsto> conv v) \<and>
      n = (if k \<in> dom (look t) then 0 else Suc (card (dom (look t))))"
    and del_law: "inv t \<Longrightarrow> k \<noteq> 0 \<Longrightarrow> del t k = (t', n) \<Longrightarrow>
      inv t' \<and> look t' = (look t)(k := None) \<and> n = (if k \<in> dom (look t) then 1 else 0)"
    and clear_law: "inv t \<Longrightarrow> inv (clear t) \<and> look (clear t) = Map.empty"

text \<open>Histories of calls, on a representation and on the abstract map, with everything the
  caller sees.\<close>

datatype map_op = Put uword uword | Del uword | Get uword uword | Has uword | Reset

datatype map_out = Count nat | Val uword | Flag bool | Unit

fun op_ok :: "map_op \<Rightarrow> bool" where
  "op_ok (Put k v) = (k \<noteq> 0)"
| "op_ok (Del k) = (k \<noteq> 0)"
| "op_ok (Get k d) = (k \<noteq> 0)"
| "op_ok (Has k) = (k \<noteq> 0)"
| "op_ok Reset = True"

fun run_op ::
  "('t \<Rightarrow> uword \<Rightarrow> uword \<Rightarrow> uword) \<Rightarrow> ('t \<Rightarrow> uword \<Rightarrow> bool) \<Rightarrow>
   ('t \<Rightarrow> uword \<Rightarrow> uword \<Rightarrow> ('t \<times> nat) option) \<Rightarrow> ('t \<Rightarrow> uword \<Rightarrow> 't \<times> nat) \<Rightarrow> ('t \<Rightarrow> 't) \<Rightarrow>
   't \<Rightarrow> map_op \<Rightarrow> ('t \<times> map_out) option" where
  "run_op get has put del clear t (Put k v) =
     (case put t k v of None \<Rightarrow> None | Some (t, n) \<Rightarrow> Some (t, Count n))"
| "run_op get has put del clear t (Del k) = (case del t k of (t, n) \<Rightarrow> Some (t, Count n))"
| "run_op get has put del clear t (Get k d) = Some (t, Val (get t k d))"
| "run_op get has put del clear t (Has k) = Some (t, Flag (has t k))"
| "run_op get has put del clear t Reset = Some (clear t, Unit)"

fun run_ops ::
  "('t \<Rightarrow> map_op \<Rightarrow> ('t \<times> map_out) option) \<Rightarrow> 't \<Rightarrow> map_op list \<Rightarrow> ('t \<times> map_out list) option" where
  "run_ops f t [] = Some (t, [])"
| "run_ops f t (p # ps) =
     (case f t p of None \<Rightarrow> None
      | Some (t, r) \<Rightarrow> (case run_ops f t ps of None \<Rightarrow> None | Some (t, rs) \<Rightarrow> Some (t, r # rs)))"

text \<open>The abstract map's own step.\<close>

fun spec_op ::
  "(uword \<Rightarrow> uword) \<Rightarrow> (uword \<rightharpoonup> uword) \<Rightarrow> map_op \<Rightarrow> (uword \<rightharpoonup> uword) \<times> map_out" where
  "spec_op conv m (Put k v) =
     (m(k \<mapsto> conv v), Count (if k \<in> dom m then 0 else Suc (card (dom m))))"
| "spec_op conv m (Del k) = (m(k := None), Count (if k \<in> dom m then 1 else 0))"
| "spec_op conv m (Get k d) = (m, Val (case m k of Some v \<Rightarrow> v | None \<Rightarrow> d))"
| "spec_op conv m (Has k) = (m, Flag (k \<in> dom m))"
| "spec_op conv m Reset = (Map.empty, Unit)"

fun spec_ops ::
  "(uword \<Rightarrow> uword) \<Rightarrow> (uword \<rightharpoonup> uword) \<Rightarrow> map_op list \<Rightarrow> (uword \<rightharpoonup> uword) \<times> map_out list" where
  "spec_ops conv m [] = (m, [])"
| "spec_ops conv m (p # ps) =
     (case spec_op conv m p of (m, r) \<Rightarrow> (case spec_ops conv m ps of (m, rs) \<Rightarrow> (m, r # rs)))"

context word_map
begin

lemma op_refines:
  assumes "inv t" "op_ok p" "run_op get has put del clear t p = Some (t', r)"
  shows "inv t' \<and> spec_op conv (look t) p = (look t', r)"
proof (cases p)
  case (Put k v)
  with assms obtain n where "put t k v = Some (t', n)" "r = Count n"
    by (auto split: option.splits prod.splits)
  with put_law[OF assms(1) _ this(1)] assms(2) Put show ?thesis by simp
next
  case (Del k)
  with assms obtain n where "del t k = (t', n)" "r = Count n" by (auto split: prod.splits)
  with del_law[OF assms(1) _ this(1)] assms(2) Del show ?thesis by simp
next
  case (Get k d)
  with assms show ?thesis using get_law[OF assms(1), of k d] by auto
next
  case (Has k)
  with assms show ?thesis using has_law[OF assms(1), of k] by auto
next
  case Reset
  with assms show ?thesis using clear_law[OF assms(1)] by auto
qed

lemma ops_refine:
  assumes "inv t" "list_all op_ok ps" "run_ops (run_op get has put del clear) t ps = Some (t', rs)"
  shows "inv t' \<and> spec_ops conv (look t) ps = (look t', rs)"
  using assms
proof (induction ps arbitrary: t t' rs)
  case Nil
  then show ?case by simp
next
  case (Cons p ps)
  obtain u r us where s: "run_op get has put del clear t p = Some (u, r)"
    "run_ops (run_op get has put del clear) u ps = Some (t', us)" "rs = r # us"
    using Cons.prems(3) by (auto split: option.splits prod.splits)
  with op_refines[OF Cons.prems(1) _ s(1)] Cons.prems(2) have
    "inv u" "spec_op conv (look t) p = (look u, r)" by auto
  with Cons.IH[OF this(1) _ s(2)] Cons.prems(2) s(3) show ?case by simp
qed

text \<open>Updating the value of a key by a function of its old value, the pattern of every client
  that accumulates a chain per key.\<close>

lemma put_get:
  assumes "inv t" "k \<noteq> 0" "put t k v = Some (t', n)" "j \<noteq> 0"
  shows "get t' j d = (if j = k then conv v else get t j d)"
  using put_law[OF assms(1-3)] get_law[OF assms(1,4)] get_law[of t' j d] assms(4) by simp

lemma del_get:
  assumes "inv t" "k \<noteq> 0" "j \<noteq> 0"
  shows "get (fst (del t k)) j d = (if j = k then d else get t j d)"
proof -
  obtain t' n where d: "del t k = (t', n)" by fastforce
  show ?thesis
    using del_law[OF assms(1,2) d] get_law[OF assms(1,3)] get_law[of t' j d] assms(3)
    by (simp add: d)
qed

end

section \<open>The hopscotch table provides it\<close>

text \<open>A hash map with \<open>n\<close>-byte values, compared by \<open>eq\<close>, outside a rehash.\<close>

definition map_ready :: "nat \<Rightarrow> hopscotch_table \<Rightarrow> bool" where
  "map_ready n ht \<longleftrightarrow> hs_inv ht \<and> \<not> ht_rehashing ht \<and> ht_compare ht = None \<and>
     ht_value_size ht = n \<and> 0 < n \<and> 0 < ht_prev_size ht"

lemma put_count:
  assumes "hs_inv ht" "\<not> ht_rehashing ht" "ht_compare ht = None" "k \<noteq> 0" "ht_value_size ht \<noteq> 0"
    and r: "hopscotch_put env fuel ht k v = Some (ht', n)"
  shows "n = (if k \<in> hs_keys ht then 0 else Suc (card (hs_keys ht)))"
proof (cases "k \<in> hs_keys ht")
  case True
  then show ?thesis using put_correct[OF assms] by simp
next
  case False
  then have "cell_of ht k = None" using cell_of_None by blast
  then have "hopscotch_insert env fuel ht k v = Some (ht', n)"
    using r by (simp add: hopscotch_put_def lookup_index_cell[OF assms(1,3,4)])
  from insert_correct[OF assms(1,2,4) False this] show ?thesis
    using False by (simp add: insert_post_def hs_keys_def)
qed

interpretation hmap: word_map "map_ready n" hs_map hopscotch_get hopscotch_containsp
  "hopscotch_put env fuel" hopscotch_delete hopscotch_reset "trunc_val n" for n env fuel
proof
  fix t t' :: hopscotch_table and k d v :: uword and c :: nat
  assume r: "map_ready n t"
  then have I: "hs_inv t" "\<not> ht_rehashing t" "ht_compare t = None" "ht_value_size t \<noteq> 0"
    "0 < ht_prev_size t" "ht_value_size t = n"
    by (auto simp: map_ready_def)
  show "map_ready n (hopscotch_reset t) \<and> hs_map (hopscotch_reset t) = Map.empty"
    using reset_correct[OF I(1,5)] r table_size_pos(1)[of t] dom_hs_map[of "hopscotch_reset t"]
    by (auto simp: map_ready_def hopscotch_reset_def Let_def hopscotch_realloc_def
        table_size_def)
  assume k: "k \<noteq> 0"
  show "hopscotch_get t k d = (case hs_map t k of None \<Rightarrow> d | Some v \<Rightarrow> v)"
    by (simp add: get_correct[OF I(1,3) k] split: option.split)
  show "hopscotch_containsp t k = (k \<in> dom (hs_map t))"
    by (simp add: containsp_correct[OF I(1,3) k] dom_hs_map)
  show "map_ready n t' \<and> hs_map t' = (hs_map t)(k := None) \<and>
      c = (if k \<in> dom (hs_map t) then 1 else 0)" if "hopscotch_delete t k = (t', c)"
    using delete_correct[OF I(1,3) k that] r I(4)
    by (auto simp: map_ready_def same_shape_def dom_hs_map)
  show "map_ready n t' \<and> hs_map t' = (hs_map t)(k \<mapsto> trunc_val n v) \<and>
      c = (if k \<in> dom (hs_map t) then 0 else Suc (card (dom (hs_map t))))"
    if "hopscotch_put env fuel t k v = Some (t', c)"
    using put_correct[OF I(1-3) k I(4) that] put_count[OF I(1-3) k I(4) that] r
    by (auto simp: map_ready_def insert_post_def dom_hs_map)
qed

abbreviation ht_run ::
  "hash_env \<Rightarrow> nat \<Rightarrow> hopscotch_table \<Rightarrow> map_op list \<Rightarrow> (hopscotch_table \<times> map_out list) option" where
  "ht_run env fuel \<equiv> run_ops (run_op hopscotch_get hopscotch_containsp (hopscotch_put env fuel)
     hopscotch_delete hopscotch_reset)"

section \<open>Properties\<close>

lemma create_map_ready:
  assumes "hopscotch_create env hf vs sz 0 = Some t" "hf \<in> {1, 2}" "vs \<noteq> 0" "0 < sz" "sz \<le> 2 ^ 32"
  shows "map_ready vs t" "hs_map t = Map.empty" "table_size t = sz" "ht_hashfun t = hf"
proof -
  note C = create_inv[OF assms(1,4,5) hop_range_for_props] and D = create_SomeD[OF assms(1)]
  have "ht_prev_size t = sz"
    using assms(1) by (auto simp: hopscotch_create_def hopscotch_realloc_def Let_def split: if_splits)
  then show "map_ready vs t" using C D assms(2-4) by (auto simp: map_ready_def)
  show "hs_map t = Map.empty" using C(2) dom_hs_map[of t] by simp
  show "table_size t = sz" "ht_hashfun t = hf" using C(3) D(1) by auto
qed

text \<open>A hash environment for tables that hash addresses: its content-based functions are never
  called.\<close>

definition address_env :: hash_env where
  "address_env = \<lparr>env_string_hash = (\<lambda>_. 0), env_vector_hash = (\<lambda>_. 0),
     env_vector_eql = (\<lambda>a b. a = b)\<rparr>"

text \<open>C27: A hopscotch table is a finite map. Whatever sequence of puts, deletes, gets,
  membership tests and resets is run on a fresh address-hashed table, through all the
  displacements and resizes it causes, every result the caller sees (values, the count that a
  put returns, whether a delete found its key) is the one the abstract map gives, and the final
  table represents the final map. Values are sign-extended from the width of a value cell.\<close>

theorem hopscotch_refines_map:
  assumes "hopscotch_create env hf vs sz 0 = Some t" "hf \<in> {1, 2}" "vs \<noteq> 0" "0 < sz" "sz \<le> 2 ^ 32"
    and "list_all op_ok ops" "ht_run env fuel t ops = Some (t', outs)"
  shows "spec_ops (trunc_val vs) Map.empty ops = (hs_map t', outs) \<and> map_ready vs t'"
  using hmap.ops_refine[OF create_map_ready(1)[OF assms(1-5)] assms(6,7)]
    create_map_ready(2)[OF assms(1-5)] by simp

lemma hopscotch_refines_map_witness:
  "\<exists>t t'. hopscotch_create address_env 1 8 8 0 = Some t \<and>
     ht_run address_env 1 t [Put 0x10 5, Put 0x30 6, Get 0x10 0, Del 0x10, Has 0x10] =
       Some (t', [Count 1, Count 2, Val 5, Count 1, Flag False]) \<and>
     hs_map t' = [0x30 \<mapsto> 6]"
proof -
  let ?ops = "[Put 0x10 5, Put 0x30 6, Get 0x10 0, Del 0x10, Has 0x10]"
  let ?outs = "[Count 1, Count 2, Val 5, Count 1, Flag False]"
  obtain t where t: "hopscotch_create address_env 1 8 8 0 = Some t"
    using pow2_create[of 1 8 address_env 3] by auto
  have "map_option snd (ht_run address_env 1 (the (hopscotch_create address_env 1 8 8 0)) ?ops) =
      Some ?outs"
    by code_simp
  then obtain t' where t': "ht_run address_env 1 t ?ops = Some (t', ?outs)"
    using t by (auto simp del: run_ops.simps)
  have "spec_ops (trunc_val 8) Map.empty ?ops = (hs_map t', ?outs) \<and> map_ready 8 t'"
    by (rule hopscotch_refines_map[OF t _ _ _ _ _ t']) simp_all
  then have "hs_map t' = [0x30 \<mapsto> 6]" by (auto simp: trunc_val_def)
  with t t' show ?thesis by blast
qed

text \<open>C28: Insertion returns. A new key goes into a table of \<open>2 ^ m\<close> bins within \<open>n - m\<close>
  doublings, provided that for some \<open>n \<le> 30\<close> no two keys share a bin of a table with \<open>2 ^ n\<close> bins,
  that is, that the hash codes already differ in their low \<open>n\<close> bits: however unlucky the
  displacements in between, neither the insertion nor the rehashing it starts can go on forever or
  fail. The returned count is the number of keys. (The size is an \<open>int\<close>, so \<open>2 ^ 30\<close> bins are the
  largest table; hash codes that differ in their top two bits only are not covered.)\<close>

theorem hopscotch_insert_returns:
  assumes "hs_inv ht" "\<not> ht_rehashing ht" "ht_hashfun ht \<in> {1, 2, 3, 4}"
    and "key \<noteq> 0" "key \<notin> hs_keys ht" "table_size ht = 2 ^ m" "m < n" "n \<le> 30"
    and "inj_on (resize_bin env (ht_hashfun ht) (2 ^ n)) (insert key (hs_keys ht))"
    and "n - m < fuel"
  shows "\<exists>ht'. hopscotch_insert env fuel ht key v = Some (ht', card (hs_keys ht')) \<and>
    insert_post ht key v ht'"
proof -
  have "insert_ready env n m ht" using assms(6,7) by (simp add: insert_ready_def)
  from insert_returns[OF assms(1-5,8) this assms(9,10)] obtain ht'
    where ht': "hopscotch_insert env fuel ht key v = Some (ht', card (hs_keys ht'))" by blast
  with insert_correct[OF assms(1,2,4,5) ht'] show ?thesis by blast
qed

lemma hopscotch_insert_returns_witness:
  "\<exists>ht ht'. hopscotch_create address_env 1 0 8 0 = Some ht \<and>
     hopscotch_insert address_env 2 ht 0x7f0 1 = Some (ht', card (hs_keys ht')) \<and>
     insert_post ht 0x7f0 1 ht'"
proof -
  obtain t where t: "hopscotch_create address_env 1 0 8 0 = Some t"
    using pow2_create[of 1 0 address_env 3] by auto
  note C = create_inv[OF t _ _ hop_range_for_props, simplified] and D = create_SomeD[OF t]
  have "\<exists>ht'. hopscotch_insert address_env 2 t 0x7f0 1 = Some (ht', card (hs_keys ht')) \<and>
      insert_post t 0x7f0 1 ht'"
    by (rule hopscotch_insert_returns[where m = 3 and n = 4]) (use C D in auto)
  with t show ?thesis by blast
qed

text \<open>C29: The hash set. Inserting an absent key into a table without values adds exactly that
  key: afterwards \<open>hopscotch_containsp\<close>, which compares up to eight cells at a time
  including cells of other bins, answers true for it and for the keys that were there, and for
  no other.\<close>

theorem hopscotch_set_insert:
  assumes "hs_inv ht" "\<not> ht_rehashing ht" "ht_compare ht = None" "key \<noteq> 0"
    and "\<not> hopscotch_containsp ht key" "hopscotch_insert env fuel ht key v = Some (ht', n)"
  shows "hs_inv ht' \<and> n = card (hs_keys ht') \<and>
    (\<forall>x. x \<noteq> 0 \<longrightarrow> (hopscotch_containsp ht' x \<longleftrightarrow> x = key \<or> hopscotch_containsp ht x))"
proof -
  have kn: "key \<notin> hs_keys ht" using containsp_correct[OF assms(1,3,4)] assms(5) by simp
  have p: "insert_post ht key v ht'" "n = card (hs_keys ht')"
    using insert_correct[OF assms(1,2,4) kn assms(6)] by auto
  then have q: "hs_inv ht'" "ht_compare ht' = None" "hs_keys ht' = insert key (hs_keys ht)"
    using assms(3) by (auto simp: insert_post_def)
  show ?thesis
    using p(2) q containsp_correct[OF q(1,2)] containsp_correct[OF assms(1,3)] by auto
qed

lemma hopscotch_set_insert_witness:
  "\<exists>t t'. hopscotch_create address_env 1 0 8 0 = Some t \<and>
     hopscotch_insert address_env 1 t 0x7f0 1 = Some (t', 1) \<and>
     hopscotch_containsp t' 0x7f0 \<and> \<not> hopscotch_containsp t' 0x3f0"
proof -
  obtain t where t: "hopscotch_create address_env 1 0 8 0 = Some t"
    using pow2_create[of 1 0 address_env 3] by auto
  note C = create_inv[OF t _ _ hop_range_for_props, simplified] and D = create_SomeD[OF t]
  have "map_option snd (hopscotch_insert address_env 1
      (the (hopscotch_create address_env 1 0 8 0)) 0x7f0 1) = Some 1"
    by code_simp
  then obtain t' where t': "hopscotch_insert address_env 1 t 0x7f0 1 = Some (t', 1)" using t by auto
  have nc: "\<not> hopscotch_containsp t x" if "x \<noteq> 0" for x
    using containsp_correct[OF C(1) _ that] D C(2) by simp
  have "\<forall>x. x \<noteq> 0 \<longrightarrow> (hopscotch_containsp t' x \<longleftrightarrow> x = 0x7f0 \<or> hopscotch_containsp t x)"
    using hopscotch_set_insert[OF C(1) _ _ _ nc t'] D by simp
  with t t' nc show ?thesis by auto
qed

text \<open>C30: Content-hashed tables, which heap coalescing uses to find an equal object. A lookup
  of \<open>key\<close> returns a value exactly when some stored key compares equal to it, and then the
  value of such a key, provided the hash function respects the comparison. Without values the
  result is the index plus one of a cell that holds an equal key.\<close>

theorem hopscotch_content_lookup:
  assumes "hs_inv ht" "ht_compare ht = Some cmp"
    and "\<And>a. a \<in> hs_keys ht \<Longrightarrow> cmp a key \<Longrightarrow> hash ht a = hash ht key"
  shows "case lookup_index ht key of
      Some p \<Rightarrow> p < length (ht_keys ht) \<and> ht_keys ht ! p \<noteq> 0 \<and> cmp (ht_keys ht ! p) key \<and>
        hopscotch_get ht key d =
          (if ht_value_size ht = 0 then of_nat (p + 1) else ht_vals ht ! p)
    | None \<Rightarrow> hopscotch_get ht key d = d \<and> (\<forall>a\<in>hs_keys ht. \<not> cmp a key)"
proof -
  have "home ht a = home ht key" if "a \<in> hs_keys ht" "cmp a key" for a
    using assms(3)[OF that] by (simp add: home_def)
  note L = lookup_index_cmp[OF assms(1,2) this]
  have vs: "ht_value_size ht \<in> {0, 1, 2, 4, 8}" by (rule hs_invD(3)[OF assms(1)])
  show ?thesis
    using L vs by (auto simp: hopscotch_get_def get_val_eq hs_keys_def split: option.splits)
qed

lemma hopscotch_content_lookup_witness:
  "\<exists>t t'. hopscotch_create address_env 4 0 8 0 = Some t \<and>
     hopscotch_insert address_env 1 t 0x7f0 1 = Some (t', 1) \<and>
     (case lookup_index t' 0x7f0 of
        Some p \<Rightarrow> ht_keys t' ! p = 0x7f0 \<and> hopscotch_get t' 0x7f0 0 = of_nat (p + 1)
      | None \<Rightarrow> False)"
proof -
  obtain t where t: "hopscotch_create address_env 4 0 8 0 = Some t"
    using pow2_create[of 4 0 address_env 3] by auto
  note C = create_inv[OF t _ _ hop_range_for_props, simplified] and D = create_SomeD[OF t]
  have "map_option snd (hopscotch_insert address_env 1
      (the (hopscotch_create address_env 4 0 8 0)) 0x7f0 1) = Some 1"
    by code_simp
  then obtain t' where t': "hopscotch_insert address_env 1 t 0x7f0 1 = Some (t', 1)" using t by auto
  have p: "insert_post t 0x7f0 1 t'"
    using insert_correct[OF C(1) _ _ _ t'] D C(2) by simp
  then have i: "hs_inv t'" "hs_keys t' = {0x7f0}" "ht_compare t' = Some (\<lambda>a b. a = b)"
      "ht_value_size t' = 0"
    using C(2) D by (auto simp: insert_post_def address_env_def)
  have "case lookup_index t' 0x7f0 of
      Some p \<Rightarrow> p < length (ht_keys t') \<and> ht_keys t' ! p \<noteq> 0 \<and> ht_keys t' ! p = 0x7f0 \<and>
        hopscotch_get t' 0x7f0 0 = (if ht_value_size t' = 0 then of_nat (p + 1) else ht_vals t' ! p)
    | None \<Rightarrow> hopscotch_get t' 0x7f0 0 = 0 \<and> (\<forall>a\<in>hs_keys t'. \<not> a = 0x7f0)"
    by (rule hopscotch_content_lookup[OF i(1,3)]) simp
  then have "case lookup_index t' 0x7f0 of
        Some p \<Rightarrow> ht_keys t' ! p = 0x7f0 \<and> hopscotch_get t' 0x7f0 0 = of_nat (p + 1)
      | None \<Rightarrow> False"
    using i(2,4) by (auto split: option.splits)
  with t t' show ?thesis by blast
qed

end
