(* ===== verification/Align.thy ===== *)
theory Align
  imports Prelude
begin

text \<open>
  The alignment macros of \<open>src/src/runtime/align.h\<close> on words, and what they compute for
  power-of-two granularities.
\<close>

unbundle bit_operations_syntax

definition ALIGN_UP :: "uword \<Rightarrow> uword \<Rightarrow> uword" where
  "ALIGN_UP value granularity = (value + (granularity - 1)) AND NOT (granularity - 1)"

definition ALIGN_DOWN :: "uword \<Rightarrow> uword \<Rightarrow> uword" where
  "ALIGN_DOWN value granularity = value AND NOT (granularity - 1)"

definition IS_ALIGNED :: "uword \<Rightarrow> uword \<Rightarrow> bool" where
  "IS_ALIGNED value granularity \<longleftrightarrow> value AND (granularity - 1) = 0"

lemma unat_and_mask: "unat (w AND mask n) = unat (w :: 'a::len word) mod 2 ^ n"
  by (metis take_bit_eq_mask take_bit_eq_mod unsigned_take_bit_eq)

lemma unat_and_not_mask: "unat (w AND NOT (mask n)) = unat (w :: 'a::len word) div 2 ^ n * 2 ^ n"
proof -
  have "w AND NOT (mask n) = w - (w AND mask n)"
  proof -
    have "(w AND NOT (mask n)) + (w AND mask n) = (w AND NOT (mask n)) OR (w AND mask n)"
      by (rule disjunctive_add_eq_or) (auto intro: bit_word_eqI simp: bit_simps)
    also have "\<dots> = w" by (auto intro: bit_word_eqI simp: bit_simps)
    finally show ?thesis by (metis add_diff_cancel_right')
  qed
  moreover have "w AND mask n \<le> w" by (rule word_and_le2)
  ultimately have "unat (w AND NOT (mask n)) = unat w - unat (w AND mask n)"
    by (simp add: unat_sub)
  then show ?thesis by (simp add: unat_and_mask minus_mod_eq_div_mult)
qed

lemma pow2_minus_1: "(2 ^ n :: 'a::len word) - 1 = mask n"
  by (simp add: mask_eq_exp_minus_1)

lemma unat_ALIGN_DOWN: "unat (ALIGN_DOWN v (2 ^ n)) = unat v div 2 ^ n * 2 ^ n"
  unfolding ALIGN_DOWN_def pow2_minus_1 by (rule unat_and_not_mask)

lemma unat_ALIGN_UP:
  assumes "unat v + (2 ^ n - 1) < 2 ^ 64" "n < 64"
  shows "unat (ALIGN_UP v (2 ^ n)) = (unat v + (2 ^ n - 1)) div 2 ^ n * 2 ^ n"
proof -
  have "unat (mask n :: uword) = unat ((-1 :: uword) AND mask n)" by simp
  also have "\<dots> = unat (- 1 :: uword) mod 2 ^ n" by (rule unat_and_mask)
  also have "unat (- 1 :: uword) = 2 ^ 64 - 1"
    by (simp only: unsigned_minus_1_eq_mask mask_eq_exp_minus_1) simp
  also have "(2 ^ 64 - 1 :: nat) mod 2 ^ n = 2 ^ n - 1"
  proof -
    have "(2 ^ n :: nat) \<le> 2 ^ 64" using assms(2) by (intro power_increasing) simp_all
    moreover have "(2 ^ (64 - n) - 1) * 2 ^ n = (2 ^ 64 - 2 ^ n :: nat)"
      using assms(2) by (simp add: diff_mult_distrib flip: power_add)
    moreover have "(1 :: nat) \<le> 2 ^ n" by simp
    ultimately have "(2 ^ 64 - 1 :: nat) = (2 ^ n - 1) + (2 ^ (64 - n) - 1) * 2 ^ n" by linarith
    then show ?thesis by (metis (no_types) diff_less mod_less mod_mult_self1 zero_less_numeral zero_less_power zero_less_one)
  qed
  finally have "unat (mask n :: uword) = 2 ^ n - 1" .
  then have "unat (v + mask n) = unat v + (2 ^ n - 1)"
    using assms(1) by (subst unat_add_lem[THEN iffD1]) simp_all
  then show ?thesis
    unfolding ALIGN_UP_def pow2_minus_1 unat_and_not_mask by simp
qed

lemma IS_ALIGNED_dvd: "IS_ALIGNED v (2 ^ n) \<longleftrightarrow> 2 ^ n dvd unat v"
  unfolding IS_ALIGNED_def pow2_minus_1
  by (metis dvd_eq_mod_eq_0 unat_and_mask unat_eq_0)

lemma align_up_mod:
  fixes a g :: nat
  assumes "0 < g"
  shows "(a + (g - 1)) div g * g = (if a mod g = 0 then a else a - a mod g + g)"
proof -
  define q r where "q = a div g" and "r = a mod g"
  have a: "a = q * g + r" "r < g" using assms by (simp_all add: q_def r_def)
  have "a + (g - 1) = (r + (g - 1)) + q * g" unfolding a(1) by simp
  then have "(a + (g - 1)) div g = q + (r + (g - 1)) div g"
    using assms by (simp only: div_mult_self1)
  moreover have "(r + (g - 1)) div g = (if r = 0 then 0 else 1)"
    using a(2) assms by (auto intro!: div_nat_eqI)
  ultimately show ?thesis unfolding r_def[symmetric] using a by (auto simp: algebra_simps)
qed

end
