(* ===== verification/HopscotchCache.thy ===== *)
theory HopscotchCache
  imports Hopscotch Align
begin

text \<open>
  The storage behind hopscotch tables: the two-entry cache of zero-filled blocks in
  \<open>src/src/runtime/hopscotch.c\<close> (\<open>hopscotch_init\<close>, \<open>cached_allocate\<close>,
  \<open>cached_deallocate\<close>). A block is its user address and the usable size that its header
  stores, an \<open>unsigned int\<close>, so that the size of a block of 4 gigabytes or more is cut; \<open>os_allocate\<close> is a parameter, the address it returns (0 for failure), and what it
  returns is zero-filled memory as \<open>mmap\<close> gives it. Released blocks are recorded in order.
\<close>

unbundle bit_operations_syntax

section \<open>State and operations\<close>

type_synonym block = "uword \<times> u32"

record alloc_cache =
  slot0 :: "block option"
  slot1 :: "block option"
  memory :: "uword \<Rightarrow> u8"
  os_released :: "(uword \<times> nat) list"

definition hh_allocation_granularity :: nat where
  "hh_allocation_granularity = 4096"

definition ALLOCATION_OVERHEAD :: nat where
  "ALLOCATION_OVERHEAD = 8"

text \<open>The usable size that goes into the header of a new block.\<close>

definition fresh_size :: "nat \<Rightarrow> u32" where
  "fresh_size nbytes =
     ucast (ALIGN_UP (of_nat nbytes) (of_nat hh_allocation_granularity) - of_nat ALLOCATION_OVERHEAD :: uword)"

definition hopscotch_init :: "uword \<Rightarrow> nat \<Rightarrow> alloc_cache \<Rightarrow> alloc_cache option" where
  "hopscotch_init os_mem page_size c =
     (if os_mem = 0 then None
      else let a0 = os_mem + of_nat ALLOCATION_OVERHEAD;
               a1 = a0 + of_nat page_size;
               u = of_nat page_size - of_nat ALLOCATION_OVERHEAD
           in Some (c\<lparr>slot0 := Some (a0, u), slot1 := Some (a1, u)\<rparr>))"

text \<open>\<open>usable_size(cached_alloc[i]) >= nbytes\<close> for a line that is in use: the size is widened.\<close>

definition large_enough :: "block option \<Rightarrow> nat \<Rightarrow> bool" where
  "large_enough line nbytes = (case line of Some (a, u) \<Rightarrow> unat u \<ge> nbytes | None \<Rightarrow> False)"

definition cached_allocate :: "uword \<Rightarrow> alloc_cache \<Rightarrow> nat \<Rightarrow> (block \<times> alloc_cache) option" where
  "cached_allocate os_mem c nbytes =
     (if large_enough (slot0 c) nbytes then Some (the (slot0 c), c\<lparr>slot0 := None\<rparr>)
      else if large_enough (slot1 c) nbytes then Some (the (slot1 c), c\<lparr>slot1 := None\<rparr>)
      else if os_mem = 0 then None
      else Some ((os_mem + of_nat ALLOCATION_OVERHEAD, fresh_size nbytes), c))"

definition memset0 :: "(uword \<Rightarrow> u8) \<Rightarrow> uword \<Rightarrow> nat \<Rightarrow> uword \<Rightarrow> u8" where
  "memset0 mem a n = (\<lambda>x. if unat (x - a) < n then 0 else mem x)"

text \<open>Which line of the cache the block goes to, and the block evicted from it: \<open>None\<close> when
  the block itself is released. The sizes are compared as \<open>int\<close>.\<close>

definition cache_line :: "alloc_cache \<Rightarrow> u32 \<Rightarrow> nat option" where
  "cache_line c this_size =
     (case slot0 c of
        None \<Rightarrow> Some 0
      | Some (_, cached_size0) \<Rightarrow>
          (case slot1 c of
             None \<Rightarrow> Some 1
           | Some (_, cached_size1) \<Rightarrow>
               if \<not> (cached_size0 <s this_size \<or> cached_size1 <s this_size) then None
               else Some (if cached_size1 <s cached_size0 then 1 else 0)))"

definition hopscotch_deallocate :: "alloc_cache \<Rightarrow> block option \<Rightarrow> alloc_cache" where
  "hopscotch_deallocate c b =
     (case b of None \<Rightarrow> c
      | Some (a, u) \<Rightarrow> c\<lparr>os_released := os_released c @
          [(a - of_nat ALLOCATION_OVERHEAD, unat u + ALLOCATION_OVERHEAD)]\<rparr>)"

definition cached_deallocate :: "alloc_cache \<Rightarrow> block \<Rightarrow> nat \<Rightarrow> alloc_cache" where
  "cached_deallocate c mem zero_fill_length =
     (case cache_line c (snd mem) of
        None \<Rightarrow> hopscotch_deallocate c (Some mem)
      | Some line \<Rightarrow>
          let c = hopscotch_deallocate c (if line = 0 then slot0 c else slot1 c);
              c = c\<lparr>memory := memset0 (memory c) (fst mem) zero_fill_length\<rparr>
          in if line = 0 then c\<lparr>slot0 := Some mem\<rparr> else c\<lparr>slot1 := Some mem\<rparr>)"

section \<open>The cache hands out zero-filled memory\<close>

definition in_block :: "block \<Rightarrow> uword \<Rightarrow> bool" where
  "in_block b x \<longleftrightarrow> unat (x - fst b) < unat (snd b)"

definition zero_block :: "(uword \<Rightarrow> u8) \<Rightarrow> block \<Rightarrow> bool" where
  "zero_block mem b \<longleftrightarrow> (\<forall>x. in_block b x \<longrightarrow> mem x = 0)"

definition cache_blocks :: "alloc_cache \<Rightarrow> block set" where
  "cache_blocks c = set_option (slot0 c) \<union> set_option (slot1 c)"

definition cache_zero :: "alloc_cache \<Rightarrow> bool" where
  "cache_zero c \<longleftrightarrow> (\<forall>b\<in>cache_blocks c. zero_block (memory c) b)"

lemma cached_allocate_cases:
  assumes "cached_allocate os_mem c nbytes = Some (b, c')"
  shows "b \<in> cache_blocks c \<and> nbytes \<le> unat (snd b) \<and> cache_blocks c' \<subseteq> cache_blocks c \<and>
      memory c' = memory c
    \<or> c' = c \<and> os_mem \<noteq> 0 \<and> b = (os_mem + 8, fresh_size nbytes)"
  using assms
  by (auto simp: cached_allocate_def large_enough_def cache_blocks_def ALLOCATION_OVERHEAD_def
      split: option.splits prod.splits if_splits)

lemma memset0_zero:
  assumes "\<And>x. in_block b x \<Longrightarrow> n \<le> unat (x - fst b) \<Longrightarrow> mem x = 0"
  shows "zero_block (memset0 mem (fst b) n) b"
  using assms by (auto simp: zero_block_def memset0_def not_less)

lemma memset0_keeps_zero: "zero_block mem b \<Longrightarrow> zero_block (memset0 mem a n) b"
  by (simp add: zero_block_def memset0_def)

lemma cached_deallocate_blocks:
  "cache_blocks (cached_deallocate c b n) \<subseteq> insert b (cache_blocks c)"
  by (auto simp: cached_deallocate_def cache_blocks_def hopscotch_deallocate_def Let_def
      split: option.splits prod.splits if_splits)

lemma cached_deallocate_memory:
  "memory (cached_deallocate c b n) =
     (if cache_line c (snd b) = None then memory c else memset0 (memory c) (fst b) n)"
  by (auto simp: cached_deallocate_def hopscotch_deallocate_def Let_def
      split: option.splits prod.splits if_splits)

lemma cached_deallocate_released:
  assumes "cache_line c (snd b) = None"
  shows "cache_blocks (cached_deallocate c b n) = cache_blocks c"
  using assms by (cases b) (simp add: cached_deallocate_def cache_blocks_def hopscotch_deallocate_def)

lemma cached_deallocate_zero:
  assumes z: "cache_zero c"
    and untouched: "\<And>x. in_block b x \<Longrightarrow> n \<le> unat (x - fst b) \<Longrightarrow> memory c x = 0"
  shows "cache_zero (cached_deallocate c b n)"
proof (cases "cache_line c (snd b) = None")
  case True
  then show ?thesis using z
    by (simp add: cache_zero_def cached_deallocate_released cached_deallocate_memory)
next
  case False
  have "zero_block (memset0 (memory c) (fst b) n) d" if "d \<in> insert b (cache_blocks c)" for d
  proof (cases "d = b")
    case True
    then show ?thesis using memset0_zero[of b n "memory c", OF untouched] by simp
  next
    case False
    with that z have "zero_block (memory c) d" by (auto simp: cache_zero_def)
    then show ?thesis by (rule memset0_keeps_zero)
  qed
  then show ?thesis
    using cached_deallocate_blocks[of c b n] False
    by (auto simp: cache_zero_def cached_deallocate_memory)
qed

section \<open>The block is large enough for a table\<close>

text \<open>Rounding up happens before the header is subtracted, so a fresh block is too small for
  requests in the last 8 bytes of a granule.\<close>

lemma fresh_size_ge:
  assumes "0 < nbytes" "nbytes < 2 ^ 32"
  shows "nbytes \<le> unat (fresh_size nbytes) \<longleftrightarrow> 0 < nbytes mod 4096 \<and> nbytes mod 4096 \<le> 4088"
proof -
  define r where "r = (if nbytes mod 4096 = 0 then nbytes else nbytes - nbytes mod 4096 + 4096)"
  have n: "unat (of_nat nbytes :: uword) = nbytes"
    using assms(2) by (simp add: unat_of_nat)
  have "unat (ALIGN_UP (of_nat nbytes) (2 ^ 12)) = (nbytes + (2 ^ 12 - 1)) div 2 ^ 12 * 2 ^ 12"
    using assms(2) by (subst unat_ALIGN_UP) (simp_all only: n, simp_all)
  then have u: "unat (ALIGN_UP (of_nat nbytes) 4096) = r"
    using align_up_mod[of 4096 nbytes] by (simp add: r_def)
  have m: "nbytes mod 4096 \<le> nbytes" "nbytes mod 4096 < 4096" "nbytes - nbytes mod 4096 \<le> 2 ^ 32 - 4096"
  proof -
    have "nbytes div 4096 < 2 ^ 20" using assms(2) by (intro less_mult_imp_div_less) simp
    then have "nbytes div 4096 * 4096 \<le> (2 ^ 20 - 1) * 4096" by (intro mult_le_mono1) simp
    then show "nbytes - nbytes mod 4096 \<le> 2 ^ 32 - 4096" by (simp add: minus_mod_eq_div_mult)
  qed simp_all
  have r: "8 \<le> r" "r \<le> 2 ^ 32"
    using m assms(1) dvd_imp_le[of 4096 nbytes] by (auto simp: r_def mod_eq_0_iff_dvd)
  then have "unat (ALIGN_UP (of_nat nbytes) 4096 - 8 :: uword) = r - 8"
    using u by (subst unat_sub) (simp_all add: word_le_nat_alt)
  then have f: "unat (fresh_size nbytes) = r - 8"
    using r unfolding fresh_size_def hh_allocation_granularity_def ALLOCATION_OVERHEAD_def
    by (simp add: unsigned_ucast_eq take_bit_nat_eq_self)
  show ?thesis unfolding f r_def using assms(1) m by (cases "nbytes mod 4096 = 0") auto
qed

text \<open>A request of 4 gigabytes gets a header that says 4088 bytes: the size is cut to 32 bits.\<close>

lemma fresh_size_truncated: "fresh_size 0x100000FA0 = 4088"
  by (simp add: fresh_size_def ALIGN_UP_def hh_allocation_granularity_def ALLOCATION_OVERHEAD_def)

text \<open>No table hits the gap: the sizes that \<open>hopscotch_realloc\<close> asks for, with the
  automatic hop range and at least 8 bins.\<close>

lemma storage_mod:
  assumes vs: "vs \<in> {0, 1, 2, 4, 8}" and k: "3 \<le> k"
  shows "0 < storage_size vs (2 ^ k) (hop_range_for (2 ^ k) 0) mod 4096 \<and>
    storage_size vs (2 ^ k) (hop_range_for (2 ^ k) 0) mod 4096 \<le> 4088"
proof (cases "k < 15")
  case True
  then have "k = 3 \<or> k = 4 \<or> k = 5 \<or> k = 6 \<or> k = 7 \<or> k = 8 \<or> k = 9 \<or> k = 10 \<or> k = 11 \<or>
      k = 12 \<or> k = 13 \<or> k = 14" using k by presburger
  then show ?thesis using vs by (auto simp: storage_size_def hop_range_for_def)
next
  case False
  then obtain j where j: "k = 15 + j" by (metis add_diff_inverse_nat)
  define p where "p = (2 :: nat) ^ j"
  have p: "2 ^ k = 32768 * p" "0 < p" by (simp_all add: j power_add p_def)
  have hr: "hop_range_for (2 ^ k) 0 = 32" using p by (simp add: hop_range_for_def)
  have "storage_size vs (2 ^ k) (hop_range_for (2 ^ k) 0) = 31 * (8 + vs) + 4096 * ((12 + vs) * 8 * p)"
    unfolding hr by (simp add: storage_size_def p algebra_simps)
  then have "storage_size vs (2 ^ k) (hop_range_for (2 ^ k) 0) mod 4096 = 31 * (8 + vs)"
    using vs by (auto simp del: mult_Suc)
  then show ?thesis using vs by auto
qed

lemma storage_size_less:
  assumes "vs \<in> {0, 1, 2, 4, 8}" "k \<le> 27"
  shows "storage_size vs (2 ^ k) (hop_range_for (2 ^ k) 0) < 2 ^ 32"
proof -
  have "(2 :: nat) ^ k \<le> 2 ^ 27" using assms(2) by (rule power_increasing) simp
  moreover have "hop_range_for (2 ^ k) 0 \<le> 32" by (simp add: hop_range_for_def)
  ultimately show ?thesis using assms(1) by (auto simp: storage_size_def)
qed

section \<open>Properties\<close>

text \<open>C31: Storage for a table is zero-filled and large enough. From a cache whose blocks are
  zero-filled, \<open>cached_allocate\<close> for a table of \<open>2 ^ k\<close> bins with \<open>3 \<le> k \<le> 27\<close> and the automatic hop
  range returns a block whose header records at
  least the bytes the table needs, every byte of it zero (a fresh block because the kernel
  clears it), and \<open>cached_deallocate\<close> keeps the cache zero-filled when the table has written
  only to the bytes it says to clear. (Larger tables need more bytes than the 32-bit header can
  record.)\<close>

theorem cached_allocate_table:
  assumes "cache_zero c" "vs \<in> {0, 1, 2, 4, 8}" "3 \<le> k" "k \<le> 27"
    and nbytes: "nbytes = storage_size vs (2 ^ k) (hop_range_for (2 ^ k) 0)"
    and alloc: "cached_allocate os_mem c nbytes = Some (b, c')"
    and fresh: "b \<notin> cache_blocks c \<Longrightarrow> zero_block (memory c) b"
  shows "nbytes \<le> unat (snd b) \<and> zero_block (memory c') b \<and> cache_zero c' \<and>
    (\<forall>m. (\<forall>x. in_block b x \<longrightarrow> nbytes \<le> unat (x - fst b) \<longrightarrow> m x = 0) \<longrightarrow>
         (\<forall>d\<in>cache_blocks c'. zero_block m d) \<longrightarrow>
       cache_zero (cached_deallocate (c'\<lparr>memory := m\<rparr>) b nbytes))"
proof -
  note M = storage_mod[OF assms(2,3), folded nbytes]
  have "0 < nbytes" using M by (cases nbytes) auto
  moreover have "nbytes < 2 ^ 32" unfolding nbytes by (rule storage_size_less[OF assms(2,4)])
  ultimately have F: "nbytes \<le> unat (fresh_size nbytes)" using fresh_size_ge M by simp
  note A = cached_allocate_cases[OF alloc]
  have mem: "memory c' = memory c" using A by auto
  have "nbytes \<le> unat (snd b)" using A F M by auto
  moreover have "zero_block (memory c') b"
    using assms(1) fresh mem by (cases "b \<in> cache_blocks c") (auto simp: cache_zero_def)
  moreover have "cache_zero c'" using A assms(1) by (auto simp: cache_zero_def)
  moreover have "cache_zero (cached_deallocate (c'\<lparr>memory := m\<rparr>) b nbytes)"
    if "\<forall>x. in_block b x \<longrightarrow> nbytes \<le> unat (x - fst b) \<longrightarrow> m x = 0"
      "\<forall>d\<in>cache_blocks c'. zero_block m d" for m
    using that by (intro cached_deallocate_zero) (auto simp: cache_zero_def cache_blocks_def)
  ultimately show ?thesis by blast
qed

lemma cached_allocate_table_witness:
  "\<exists>c'. cached_allocate 0 \<lparr>slot0 = Some (0x1008, 4088), slot1 = None, memory = (\<lambda>_. 0),
      os_released = []\<rparr> (storage_size 8 (2 ^ 3) (hop_range_for (2 ^ 3) 0)) =
        Some ((0x1008, 4088), c') \<and>
     storage_size 8 (2 ^ 3) (hop_range_for (2 ^ 3) 0) \<le> unat (snd (0x1008 :: uword, 4088 :: u32)) \<and>
     zero_block (memory c') (0x1008, 4088) \<and> cache_zero c'"
proof -
  let ?c = "\<lparr>slot0 = Some (0x1008, 4088), slot1 = None, memory = (\<lambda>_. 0), os_released = []\<rparr>"
  have a: "cached_allocate 0 ?c (storage_size 8 (2 ^ 3) (hop_range_for (2 ^ 3) 0)) =
      Some ((0x1008, 4088), ?c\<lparr>slot0 := None\<rparr>)"
    by (simp add: cached_allocate_def large_enough_def storage_size_def hop_range_for_def)
  have z: "cache_zero ?c" by (simp add: cache_zero_def zero_block_def)
  have "storage_size 8 (2 ^ 3) (hop_range_for (2 ^ 3) 0) \<le> unat (snd (0x1008 :: uword, 4088 :: u32)) \<and>
     zero_block (memory (?c\<lparr>slot0 := None\<rparr>)) (0x1008, 4088) \<and> cache_zero (?c\<lparr>slot0 := None\<rparr>)"
    using cached_allocate_table[OF z _ _ _ refl a] by (simp add: zero_block_def)
  with a show ?thesis by blast
qed

end
