(* ===== verification/VarIO.thy ===== *)
theory VarIO
  imports Prelude
begin

text \<open>
  Variable-length integers, \<open>src/src/runtime/var-io.c\<close> and \<open>var-io.h\<close>: seven bits per
  octet, least significant group first, the top bit set on every octet but the last. They
  encode debug information and the length prefix of a compressed vector.

  A byte buffer is a list of octets. Reading past its end, a shift by 32 or more, and a failed
  \<open>gc_assert\<close> are \<open>None\<close>: the C code has no defined result there. The compressor itself
  (zstd) is not part of the repository.
\<close>

unbundle bit_operations_syntax

section \<open>Reading\<close>

function read_var_loop :: "u8 list \<Rightarrow> nat \<Rightarrow> u32 \<Rightarrow> nat \<Rightarrow> (u32 \<times> nat) option" where
  "read_var_loop source ptr result k =
     (if ptr \<ge> length source \<or> k \<ge> 32 then None
      else let octet = source ! ptr;
               result = result OR push_bit k (ucast (octet AND 0x7f))
           in if octet AND 0x80 = 0 then Some (result, Suc ptr)
              else read_var_loop source (Suc ptr) result (k + 7))"
  by pat_completeness auto
termination by (relation "measure (\<lambda>(source, ptr, result, k). length source - ptr)") auto

declare read_var_loop.simps [simp del]

text \<open>The value (an \<open>int\<close>, read with \<open>sint\<close>) and the offset after it.\<close>

definition read_var_integer :: "u8 list \<Rightarrow> nat \<Rightarrow> (u32 \<times> nat) option" where
  "read_var_integer source offset = read_var_loop source offset 0 0"

fun skip_vars :: "u8 list \<Rightarrow> nat \<Rightarrow> nat \<Rightarrow> nat option" where
  "skip_vars source 0 offset = Some offset"
| "skip_vars source (Suc n) offset =
     (case read_var_integer source offset of
        None \<Rightarrow> None
      | Some (_, offset) \<Rightarrow> skip_vars source n offset)"

definition skip_var_string :: "u8 list \<Rightarrow> nat \<Rightarrow> nat option" where
  "skip_var_string source offset =
     (case read_var_integer source offset of
        None \<Rightarrow> None
      | Some (len, offset) \<Rightarrow> skip_vars source (nat (sint len)) offset)"

section \<open>Unpacking a stream held in an integer\<close>

record varint_unpacker =
  data :: "u8 list"
  index :: nat
  limit :: nat
  word :: uword

definition word_bytes :: "uword \<Rightarrow> u8 list" where
  "word_bytes w = map (\<lambda>i. ucast (drop_bit (8 * i) w)) [0..<8]"

text \<open>\<open>bignum\<close> gives the digits of the bignum a tagged pointer designates, if it is one.\<close>

definition varint_unpacker_init :: "(uword \<Rightarrow> uword list option) \<Rightarrow> uword \<Rightarrow> varint_unpacker option" where
  "varint_unpacker_init bignum integer =
     (if \<not> bit integer 0 then
        let w = signed_drop_bit 1 integer
        in Some \<lparr>data = word_bytes w, index = 0, limit = 8, word = w\<rparr>
      else (case bignum integer of
          None \<Rightarrow> None
        | Some digits \<Rightarrow>
            Some \<lparr>data = concat (map word_bytes digits), index = 0,
                  limit = length digits * 8, word = 0\<rparr>))"

function unpack_loop :: "varint_unpacker \<Rightarrow> u32 \<Rightarrow> nat \<Rightarrow> (varint_unpacker \<times> u32) option" where
  "unpack_loop u accumulator shift =
     (if index u \<ge> limit u \<or> index u \<ge> length (data u) \<or> shift \<ge> 32 then None
      else let byte = data u ! index u;
               u' = u\<lparr>index := Suc (index u)\<rparr>;
               accumulator = accumulator OR push_bit shift (ucast (byte AND 0x7F))
           in if byte AND 0x80 = 0 then Some (u', accumulator)
              else unpack_loop u' accumulator (shift + 7))"
  by pat_completeness auto
termination by (relation "measure (\<lambda>(u, accumulator, shift). limit u - index u)") auto

declare unpack_loop.simps [simp del]

text \<open>\<open>Some (u, None)\<close> is the return of 0 for the end of the stream. The assertion that a
  continued varint does not run into the limit is the loop's own bound check.\<close>

definition varint_unpack :: "varint_unpacker \<Rightarrow> (varint_unpacker \<times> u32 option) option" where
  "varint_unpack u =
     (if index u \<ge> limit u then Some (u, None)
      else map_option (\<lambda>(u, r). (u, Some r)) (unpack_loop u 0 0))"

lemma unpack_loop_index:
  "unpack_loop u a s = Some (u', r) \<Longrightarrow> index u < index u' \<and> index u < limit u \<and> limit u' = limit u \<and>
    data u' = data u"
proof (induction u a s arbitrary: u' r rule: unpack_loop.induct)
  case (1 u a s)
  let ?u = "u\<lparr>index := Suc (index u)\<rparr>" and ?b = "data u ! index u"
  let ?a = "a OR push_bit s (ucast (?b AND 0x7F))"
  have g: "\<not> (limit u \<le> index u \<or> length (data u) \<le> index u \<or> 32 \<le> s)"
    using 1(2) by (auto simp: unpack_loop.simps[of u a s])
  show ?case
  proof (cases "?b AND 0x80 = 0")
    case True
    then show ?thesis using 1(2) g by (auto simp: unpack_loop.simps[of u a s] Let_def)
  next
    case False
    then have "unpack_loop ?u ?a (s + 7) = Some (u', r)"
      using 1(2) g by (simp add: unpack_loop.simps[of u a s] Let_def)
    from 1(1)[OF g refl refl refl False this] g show ?thesis by simp
  qed
qed

function skip_data_stream :: "varint_unpacker \<Rightarrow> varint_unpacker option" where
  "skip_data_stream u =
     (case varint_unpack u of
        None \<Rightarrow> None
      | Some (u', None) \<Rightarrow> Some u'
      | Some (u', Some val) \<Rightarrow> if val \<noteq> 0 then skip_data_stream u' else Some u')"
  by pat_completeness auto
termination
  by (relation "measure (\<lambda>u. limit u - index u)")
     (auto simp: varint_unpack_def split: if_splits dest!: unpack_loop_index)

declare skip_data_stream.simps [simp del]

section \<open>Writing\<close>

function pack_varint :: "u32 \<Rightarrow> u8 list" where
  "pack_varint input =
     (let next = drop_bit 7 input;
          octet = ucast (input AND 0x7F) OR (if next \<noteq> 0 then 0x80 else 0)
      in if next \<noteq> 0 then octet # pack_varint next else [octet])"
  by pat_completeness auto
termination
  by (relation "measure unat") (auto simp del: drop_bit_eq_div intro!: unat_drop_bit_less)

declare pack_varint.simps [simp del]

section \<open>Octets\<close>

lemma bit_7F: "bit (0x7F :: int) j \<longleftrightarrow> j < 7"
proof -
  have "(0x7F :: int) = mask 7" by (simp add: mask_eq_exp_minus_1)
  then show ?thesis by (simp only: bit_mask_iff possible_bit_int) simp
qed

lemma bit_80: "bit (0x80 :: int) j \<longleftrightarrow> j = 7"
proof -
  have "(0x80 :: int) = 2 ^ 7" by simp
  then show ?thesis by (simp only: bit_exp_iff possible_bit_int) auto
qed

lemma octet_more:
  fixes n :: u32
  defines "b \<equiv> (ucast (n AND 0x7F) OR 0x80 :: u8)"
  shows "ucast (b AND 0x7f) = n AND 0x7f" "b AND 0x80 \<noteq> 0"
proof -
  show "ucast (b AND 0x7f) = n AND 0x7f"
    unfolding b_def by (auto intro!: bit_word_eqI simp: bit_simps bit_7F bit_80)
  have "bit (b AND 0x80) 7"
    unfolding b_def by (simp add: bit_simps bit_80)
  then show "b AND 0x80 \<noteq> 0" by auto
qed

lemma octet_last:
  fixes n :: u32
  defines "b \<equiv> (ucast (n AND 0x7F) OR 0 :: u8)"
  shows "ucast (b AND 0x7f) = n AND 0x7f" "b AND 0x80 = 0"
  unfolding b_def by (auto intro!: bit_word_eqI simp: bit_simps bit_7F bit_80)

lemma group_or:
  "push_bit k (n AND 0x7F) OR push_bit (k + 7) (drop_bit 7 n) = push_bit k (n :: u32)"
proof (rule bit_word_eqI)
  fix j assume "j < LENGTH(32)"
  then show "bit (push_bit k (n AND 0x7F) OR push_bit (k + 7) (drop_bit 7 n)) j \<longleftrightarrow>
      bit (push_bit k n) j"
    by (cases "k \<le> j"; cases "k + 7 \<le> j") (auto simp: bit_simps bit_7F simp del: drop_bit_eq_div)
qed

lemma group_last: "drop_bit 7 n = 0 \<Longrightarrow> n AND 0x7F = (n :: u32)"
  using group_or[of 0 n] by simp

text \<open>The guard that keeps a shift below 32 when a 32-bit integer is read.\<close>

lemma next_group:
  assumes "unat (n :: u32) < 2 ^ (32 - k)" "drop_bit 7 n \<noteq> 0" "k < 32"
  shows "unat (drop_bit 7 n) < 2 ^ (32 - (k + 7))" "k + 7 < 32"
proof -
  have d: "unat (drop_bit 7 n) = unat n div 2 ^ 7"
    by (simp only: unat_drop_bit_eq) (simp add: drop_bit_eq_div)
  with assms(2) have "0 < unat n div 2 ^ 7" by (metis unat_gt_0)
  then have "(2 :: nat) ^ 7 \<le> unat n" by (metis div_less less_irrefl not_less)
  then have "(2 :: nat) ^ 7 < 2 ^ (32 - k)" using assms(1) by (rule le_less_trans)
  then have k: "7 < 32 - k" by (rule power_less_imp_less_exp[rotated]) simp
  then show "k + 7 < 32" by simp
  have "(2 :: nat) ^ (32 - k) = 2 ^ (32 - (k + 7)) * 2 ^ 7"
    unfolding power_add[symmetric] using k by (intro arg_cong[where f = "power 2"]) simp
  then show "unat (drop_bit 7 n) < 2 ^ (32 - (k + 7))"
    using assms(1) unfolding d by (simp add: less_mult_imp_div_less)
qed

lemma pack_varint_ne [simp]: "pack_varint n \<noteq> []"
  by (subst pack_varint.simps) (simp add: Let_def)

lemma length_pack_varint:
  "unat n < 2 ^ (32 - k) \<Longrightarrow> k < 32 \<Longrightarrow> 7 * length (pack_varint n) + k \<le> 38"
proof (induction n arbitrary: k rule: pack_varint.induct)
  case (1 n)
  show ?case
  proof (cases "drop_bit 7 n = 0")
    case True
    then show ?thesis using 1(3) by (subst pack_varint.simps) (simp add: Let_def)
  next
    case False
    note ng = next_group[OF 1(2) False 1(3)]
    have "7 * length (pack_varint (drop_bit 7 n)) + (k + 7) \<le> 38"
      using 1(1)[OF refl refl False ng] .
    then show ?thesis using False by (subst pack_varint.simps) (simp add: Let_def del: drop_bit_eq_div)
  qed
qed

section \<open>Round trips\<close>

lemma read_loop_pack:
  assumes "unat n < 2 ^ (32 - k)" "k < 32"
  shows "read_var_loop (pre @ pack_varint n @ post) (length pre) r k =
    Some (r OR push_bit k n, length pre + length (pack_varint n))"
  using assms
proof (induction n arbitrary: pre r k rule: pack_varint.induct)
  case (1 n)
  show ?case
  proof (cases "drop_bit 7 n = 0")
    case True
    have p: "pack_varint n = [ucast (n AND 0x7F) OR 0]"
      by (subst pack_varint.simps) (simp add: Let_def True)
    show ?thesis
      unfolding p using 1(3) octet_last[of n] group_last[OF True]
      by (subst read_var_loop.simps) (simp add: Let_def nth_append)
  next
    case False
    let ?b = "ucast (n AND 0x7F) OR 0x80 :: u8"
    have p: "pack_varint n = ?b # pack_varint (drop_bit 7 n)"
      by (subst pack_varint.simps) (simp only: Let_def False not_False_eq_True if_True)
    note ng = next_group[OF 1(2) False 1(3)]
    let ?r = "r OR push_bit k (ucast (?b AND 0x7f))"
    have "read_var_loop (pre @ pack_varint n @ post) (length pre) r k =
        read_var_loop ((pre @ [?b]) @ pack_varint (drop_bit 7 n) @ post) (length (pre @ [?b])) ?r (k + 7)"
      unfolding p using 1(3) octet_more(2)[of n]
      by (subst read_var_loop.simps) (simp add: Let_def nth_append del: drop_bit_eq_div)
    also have "\<dots> = Some (?r OR push_bit (k + 7) (drop_bit 7 n),
        length (pre @ [?b]) + length (pack_varint (drop_bit 7 n)))"
      by (rule 1(1)[OF refl refl False ng])
    also have "?r OR push_bit (k + 7) (drop_bit 7 n) = r OR push_bit k n"
      unfolding octet_more(1) by (simp only: or.assoc group_or)
    finally show ?thesis unfolding p by simp
  qed
qed

lemma read_pack:
  "read_var_integer (pre @ pack_varint n @ post) (length pre) =
     Some (n, length pre + length (pack_varint n))"
  unfolding read_var_integer_def using unat_lt[of n] by (subst read_loop_pack) simp_all

lemma unpack_loop_pack:
  assumes "unat n < 2 ^ (32 - k)" "k < 32" "data u = pre @ pack_varint n @ post"
    "index u = length pre" "length pre + length (pack_varint n) \<le> limit u"
  shows "unpack_loop u r k =
    Some (u\<lparr>index := length pre + length (pack_varint n)\<rparr>, r OR push_bit k n)"
  using assms
proof (induction n arbitrary: u pre r k rule: pack_varint.induct)
  case (1 n)
  show ?case
  proof (cases "drop_bit 7 n = 0")
    case True
    have p: "pack_varint n = [ucast (n AND 0x7F) OR 0]"
      by (subst pack_varint.simps) (simp add: Let_def True)
    show ?thesis
      using 1(3-6) octet_last[of n] group_last[OF True] unfolding p
      by (subst unpack_loop.simps) (simp add: Let_def nth_append)
  next
    case False
    let ?b = "ucast (n AND 0x7F) OR 0x80 :: u8"
    have p: "pack_varint n = ?b # pack_varint (drop_bit 7 n)"
      by (subst pack_varint.simps) (simp only: Let_def False not_False_eq_True if_True)
    note ng = next_group[OF 1(2) False 1(3)]
    let ?r = "r OR push_bit k (ucast (?b AND 0x7f))" and ?u = "u\<lparr>index := Suc (index u)\<rparr>"
    have "unpack_loop u r k = unpack_loop ?u ?r (k + 7)"
      using 1(3-6) octet_more(2)[of n] unfolding p
      by (subst unpack_loop.simps) (simp add: Let_def nth_append del: drop_bit_eq_div)
    also have "\<dots> = Some (?u\<lparr>index := length (pre @ [?b]) + length (pack_varint (drop_bit 7 n))\<rparr>,
        ?r OR push_bit (k + 7) (drop_bit 7 n))"
      using 1(4-6) unfolding p by (intro 1(1)[OF refl refl False ng]) simp_all
    also have "?r OR push_bit (k + 7) (drop_bit 7 n) = r OR push_bit k n"
      unfolding octet_more(1) by (simp only: or.assoc group_or)
    finally show ?thesis unfolding p by simp
  qed
qed

lemma unpack_pack:
  assumes "data u = pre @ pack_varint n @ post" "index u = length pre"
    "length pre + length (pack_varint n) \<le> limit u"
  shows "varint_unpack u = Some (u\<lparr>index := length pre + length (pack_varint n)\<rparr>, Some n)"
proof -
  have "unpack_loop u 0 0 = Some (u\<lparr>index := length pre + length (pack_varint n)\<rparr>, n)"
    using unpack_loop_pack[of n 0 u pre post 0] unat_lt[of n] assms by simp
  moreover have "index u < limit u"
    using assms(2,3) pack_varint_ne[of n] by (cases "pack_varint n") auto
  ultimately show ?thesis by (simp add: varint_unpack_def)
qed

lemma skip_vars_pack:
  "skip_vars (pre @ concat (map pack_varint cs) @ post) (length cs) (length pre) =
     Some (length pre + length (concat (map pack_varint cs)))"
proof (induction cs arbitrary: pre)
  case Nil
  then show ?case by simp
next
  case (Cons c cs)
  have "skip_vars ((pre @ pack_varint c) @ concat (map pack_varint cs) @ post) (length cs)
      (length (pre @ pack_varint c)) =
      Some (length (pre @ pack_varint c) + length (concat (map pack_varint cs)))"
    by (rule Cons.IH)
  then show ?case
    using read_pack[of pre c "concat (map pack_varint cs) @ post"] by simp
qed

lemma skip_stream_pack:
  assumes "0 \<notin> set ns" "data u = pre @ concat (map pack_varint ns) @ post" "index u = length pre"
    "length pre + length (concat (map pack_varint ns)) \<le> limit u"
  shows "skip_data_stream u =
    skip_data_stream (u\<lparr>index := length pre + length (concat (map pack_varint ns))\<rparr>)"
  using assms
proof (induction ns arbitrary: u pre)
  case Nil
  then show ?case by (cases u) simp
next
  case (Cons n ns)
  let ?u = "u\<lparr>index := length pre + length (pack_varint n)\<rparr>"
  have "varint_unpack u = Some (?u, Some n)"
    using Cons.prems by (intro unpack_pack[where post = "concat (map pack_varint ns) @ post"]) auto
  then have "skip_data_stream u = skip_data_stream ?u"
    using Cons.prems(1) by (subst skip_data_stream.simps) simp
  also have "\<dots> = skip_data_stream (?u\<lparr>index :=
      length (pre @ pack_varint n) + length (concat (map pack_varint ns))\<rparr>)"
    using Cons.prems by (intro Cons.IH) auto
  finally show ?case by (simp add: add.assoc)
qed

lemma word_bytes_length [simp]: "length (word_bytes w) = 8"
  by (simp add: word_bytes_def)

section \<open>Properties\<close>

text \<open>C35: What \<open>pack_varint\<close> writes, in at most the five octets its callers provide,
  \<open>read_var_integer\<close> reads back, anywhere in a buffer and for every 32-bit value, and it
  leaves the offset right after the encoding.\<close>

theorem varint_round_trip:
  "read_var_integer (pre @ pack_varint n @ post) (length pre) =
     Some (n, length pre + length (pack_varint n)) \<and> length (pack_varint n) \<le> 5"
  using read_pack length_pack_varint[of n 0] unat_lt[of n] by simp

text \<open>A length-prefixed string of characters (the prefix counts characters and is a
  nonnegative \<open>int\<close>) is skipped exactly: \<open>skip_var_string\<close> returns the offset of the
  first octet after its last character.\<close>

theorem skip_var_string_exact:
  assumes "length cs < 2 ^ 31"
  shows "skip_var_string (pre @ pack_varint (of_nat (length cs)) @
      concat (map pack_varint cs) @ post) (length pre) =
    Some (length pre + length (pack_varint (of_nat (length cs))) +
      length (concat (map pack_varint cs)))"
proof -
  let ?l = "pack_varint (of_nat (length cs))"
  have "sint (of_nat (length cs) :: u32) = int (length cs)"
    using assms by (simp add: signed_of_nat signed_take_bit_int_eq_self)
  then show ?thesis
    using read_pack[of pre "of_nat (length cs)" "concat (map pack_varint cs) @ post"]
      skip_vars_pack[of "pre @ ?l" cs post]
    by (simp add: skip_var_string_def)
qed

lemma skip_var_string_exact_witness:
  "skip_var_string ([7] @ pack_varint (of_nat (length [65, 955])) @
     concat (map pack_varint [65, 955]) @ [9]) (length [7 :: u8]) = Some 5"
proof -
  have "length ([65, 955] :: u32 list) < 2 ^ 31" by simp
  from skip_var_string_exact[OF this, of "[7]" "[9]"]
  have "skip_var_string ([7] @ pack_varint (of_nat (length [65, 955])) @
      concat (map pack_varint [65, 955]) @ [9]) (length [7 :: u8]) =
    Some (1 + length (pack_varint (of_nat (length ([65, 955] :: u32 list)))) +
      length (concat (map pack_varint [65, 955])))" by simp
  also have "1 + length (pack_varint (of_nat (length ([65, 955] :: u32 list)))) +
      length (concat (map pack_varint [65, 955])) = 5" by code_simp
  finally show ?thesis .
qed

text \<open>C36: Streaming. With the unpacker at the start of packed nonzero values,
  \<open>varint_unpack\<close> returns the first of them and moves past it, and
  \<open>skip_data_stream\<close> stops right after the zero that ends the group, or at the limit when
  the stream ends first; in both cases nothing beyond is read.\<close>

theorem varint_unpacker_stream:
  assumes "0 \<notin> set ns" "data u = pre @ concat (map pack_varint ns) @ post"
    and "index u = length pre" "e = length pre + length (concat (map pack_varint ns))" "e \<le> limit u"
  shows "(ns \<noteq> [] \<longrightarrow> varint_unpack u =
        Some (u\<lparr>index := length pre + length (pack_varint (hd ns))\<rparr>, Some (hd ns))) \<and>
    (limit u = e \<longrightarrow> skip_data_stream u = Some (u\<lparr>index := e\<rparr>)) \<and>
    (post \<noteq> [] \<and> hd post = 0 \<and> e < limit u \<longrightarrow> skip_data_stream u = Some (u\<lparr>index := e + 1\<rparr>))"
proof (intro conjI impI)
  assume "ns \<noteq> []"
  then show "varint_unpack u =
      Some (u\<lparr>index := length pre + length (pack_varint (hd ns))\<rparr>, Some (hd ns))"
    using assms by (cases ns) (auto intro!: unpack_pack)
next
  have s: "skip_data_stream u = skip_data_stream (u\<lparr>index := e\<rparr>)"
    using skip_stream_pack[OF assms(1-3)] assms(4,5) by simp
  show "skip_data_stream u = Some (u\<lparr>index := e\<rparr>)" if "limit u = e"
    unfolding s using that by (subst skip_data_stream.simps) (simp add: varint_unpack_def)
  assume p: "post \<noteq> [] \<and> hd post = 0 \<and> e < limit u"
  then obtain rest where post: "post = 0 # rest" by (cases post) auto
  have z: "pack_varint 0 = [0]" by code_simp
  have "varint_unpack (u\<lparr>index := e\<rparr>) =
      Some (u\<lparr>index := e\<rparr>\<lparr>index := length (pre @ concat (map pack_varint ns)) +
        length (pack_varint 0)\<rparr>, Some 0)"
    using assms(2,4) p post by (intro unpack_pack[where post = rest]) (simp_all add: z)
  then show "skip_data_stream u = Some (u\<lparr>index := e + 1\<rparr>)"
    unfolding s using assms(4) by (subst skip_data_stream.simps) (simp add: z)
qed

lemma varint_unpacker_stream_witness:
  "skip_data_stream \<lparr>data = concat (map pack_varint [300, 5]) @ [0, 7], index = 0, limit = 5, word = 0\<rparr> =
     Some \<lparr>data = concat (map pack_varint [300, 5]) @ [0, 7], index = 4, limit = 5, word = 0\<rparr>"
proof -
  let ?u = "\<lparr>data = concat (map pack_varint [300, 5]) @ [0, 7], index = 0, limit = 5, word = 0\<rparr>"
  have l: "length (concat (map pack_varint [300, 5])) = 3" by code_simp
  show ?thesis
    using varint_unpacker_stream[of "[300, 5]" ?u "[]" "[0, 7]" 3] l by simp
qed

end
