(* ===== verification/Murmur.thy ===== *)
theory Murmur
  imports Hopscotch
begin

text \<open>
  \<open>src/src/runtime/murmur_hash.c\<close> and \<open>murmur_hash.h\<close>: the 32-bit Murmur3 hash of a
  byte string and the two finalisation mixers, and \<open>sc-offset.c\<close>, the extraction of a
  storage-class number or offset from its scattered bit fields (the field tables are generated
  by the build and are a parameter). The mixers are injective, and \<open>hopscotch_hmix\<close> is the
  32-bit mixer on the address bits above the lowtag, so objects in one 64 GiB window never
  share a hash code.
\<close>

unbundle bit_operations_syntax

section \<open>Mixers\<close>

definition FMIX32 :: "u32 \<Rightarrow> u32" where
  "FMIX32 h =
     (let h = h XOR drop_bit 16 h;
          h = h * 0x85ebca6b;
          h = h XOR drop_bit 13 h;
          h = h * 0xc2b2ae35
      in h XOR drop_bit 16 h)"

definition FMIX64 :: "uword \<Rightarrow> uword" where
  "FMIX64 h =
     (let h = h XOR drop_bit 33 h;
          h = h * 0xff51afd7ed558ccd;
          h = h XOR drop_bit 33 h;
          h = h * 0xc4ceb9fe1a85ec53
      in h XOR drop_bit 33 h)"

definition murmur3_fmix32 :: "u32 \<Rightarrow> u32" where
  "murmur3_fmix32 k = FMIX32 k"

definition murmur3_fmix64 :: "uword \<Rightarrow> uword" where
  "murmur3_fmix64 k = FMIX64 k"

section \<open>The hash of a byte string\<close>

definition ROTL32 :: "u32 \<Rightarrow> nat \<Rightarrow> u32" where
  "ROTL32 x r = push_bit r x OR drop_bit (32 - r) x"

text \<open>\<open>memcpy\<close> of four bytes, little-endian.\<close>

definition load32 :: "u8 list \<Rightarrow> u32" where
  "load32 b = ucast (b ! 0) OR push_bit 8 (ucast (b ! 1)) OR push_bit 16 (ucast (b ! 2))
     OR push_bit 24 (ucast (b ! 3))"

fun murmur_body :: "u32 \<Rightarrow> u8 list \<Rightarrow> nat \<Rightarrow> u32" where
  "murmur_body h1 keyptr 0 = h1"
| "murmur_body h1 keyptr (Suc nblocks) =
     (let k1 = load32 keyptr;
          k1 = k1 * 0xcc9e2d51;
          k1 = ROTL32 k1 15;
          k1 = k1 * 0x1b873593;
          h1 = h1 XOR k1;
          h1 = ROTL32 h1 13;
          h1 = h1 * 5 + 0xe6546b64
      in murmur_body h1 (drop 4 keyptr) nblocks)"

definition murmur_tail :: "u32 \<Rightarrow> u8 list \<Rightarrow> nat \<Rightarrow> u32" where
  "murmur_tail h1 keyptr len =
     (if len mod 4 = 0 then h1
      else let k1 = 0;
               k1 = (if len mod 4 = 3 then k1 XOR push_bit 16 (ucast (keyptr ! 2)) else k1);
               k1 = (if len mod 4 \<ge> 2 then k1 XOR push_bit 8 (ucast (keyptr ! 1)) else k1);
               k1 = k1 XOR ucast (keyptr ! 0);
               k1 = k1 * 0xcc9e2d51;
               k1 = ROTL32 k1 15;
               k1 = k1 * 0x1b873593
           in h1 XOR k1)"

definition gpr_murmur_hash3 :: "u8 list \<Rightarrow> u32 \<Rightarrow> u32" where
  "gpr_murmur_hash3 key seed =
     (let len = length key;
          nblocks = len div 4;
          h1 = murmur_body seed key nblocks;
          h1 = murmur_tail h1 (drop (4 * nblocks) key) len;
          h1 = h1 XOR of_nat len
      in FMIX32 h1)"

section \<open>Scattered bit fields\<close>

record sc_and_offset_byte =
  position :: nat
  size_bits :: nat

fun extract_loop :: "u32 \<Rightarrow> sc_and_offset_byte list \<Rightarrow> nat \<Rightarrow> u32 \<Rightarrow> u32" where
  "extract_loop sc_and_offset [] i result = result"
| "extract_loop sc_and_offset (b # bs) i result =
     (let msk = push_bit (size_bits b) 1 - 1
      in extract_loop sc_and_offset bs (i + size_bits b)
           (result OR push_bit i (signed_drop_bit (position b) sc_and_offset AND msk)))"

definition sc_and_offset_extract_bits :: "u32 \<Rightarrow> sc_and_offset_byte list \<Rightarrow> u32" where
  "sc_and_offset_extract_bits sc_and_offset bytes = extract_loop sc_and_offset bytes 0 0"

text \<open>The bits of a word under a list of fields, lowest first.\<close>

definition field_bits :: "u32 \<Rightarrow> sc_and_offset_byte \<Rightarrow> bool list" where
  "field_bits w b = map (\<lambda>j. bit w (position b + j)) [0..<size_bits b]"

lemma extract_loop_bits:
  assumes "\<forall>b\<in>set bs. position b + size_bits b \<le> 32" "i + sum_list (map size_bits bs) \<le> 32"
    and "\<And>j. i \<le> j \<Longrightarrow> \<not> bit r j" "j < 32"
  shows "bit (extract_loop w bs i r) j \<longleftrightarrow>
    (if j < i then bit r j
     else j < i + sum_list (map size_bits bs) \<and> concat (map (field_bits w) bs) ! (j - i))"
  using assms
proof (induction bs arbitrary: i r)
  case Nil
  then show ?case by auto
next
  case (Cons b bs)
  let ?n = "size_bits b"
  have n: "position b + ?n \<le> 32" "i + ?n \<le> 32" using Cons.prems(1,2) by auto
  define r' where "r' = r OR push_bit i (signed_drop_bit (position b) w AND (push_bit ?n 1 - 1))"
  have r': "bit r' l \<longleftrightarrow> bit r l \<or> i \<le> l \<and> l < i + ?n \<and> bit w (position b + (l - i))" if "l < 32" for l
  proof -
    have "(push_bit ?n 1 - 1 :: u32) = mask ?n" by (simp add: mask_eq_exp_minus_1)
    then show ?thesis
      unfolding r'_def using that n
      by (auto simp: bit_simps min_def)
  qed
  have step: "extract_loop w (b # bs) i r = extract_loop w bs (i + ?n) r'"
    by (simp add: r'_def)
  have r'0: "\<not> bit r' l" if "i + ?n \<le> l" for l
    using r'[of l] Cons.prems(3)[of l] that word_bit_length[of r' l] by (cases "l < 32") auto
  have IH: "bit (extract_loop w bs (i + ?n) r') j \<longleftrightarrow>
    (if j < i + ?n then bit r' j
     else j < i + ?n + sum_list (map size_bits bs) \<and>
       concat (map (field_bits w) bs) ! (j - (i + ?n)))"
    using Cons.prems r'0 by (intro Cons.IH) auto
  have l: "length (field_bits w b) = ?n" by (simp add: field_bits_def)
  have nth_field: "field_bits w b ! l = bit w (position b + l)" if "l < ?n" for l
    using that by (simp add: field_bits_def)
  show ?case
    unfolding step IH using r'[OF Cons.prems(4)] Cons.prems(3)[of j]
    by (auto simp: nth_append l nth_field)
qed

section \<open>Injectivity\<close>

lemma xorshift_inj:
  fixes x y :: "'a::len word"
  assumes "0 < k" "x XOR drop_bit k x = y XOR drop_bit k y"
  shows "x = y"
proof (rule bit_word_eqI)
  fix j assume "j < LENGTH('a)"
  then show "bit x j \<longleftrightarrow> bit y j"
  proof (induction "LENGTH('a) - j" arbitrary: j rule: less_induct)
    case less
    have e: "bit (x XOR drop_bit k x) j = bit (y XOR drop_bit k y) j" using assms(2) by simp
    have "bit x (j + k) = bit y (j + k)"
    proof (cases "j + k < LENGTH('a)")
      case True
      then show ?thesis using less.hyps[of "j + k"] assms(1) by simp
    next
      case False
      then show ?thesis using word_bit_length[of x "j + k"] word_bit_length[of y "j + k"] by auto
    qed
    then show ?case using e by (auto simp: bit_xor_iff bit_drop_bit_eq add.commute)
  qed
qed

lemma mult_inj:
  fixes c :: "'a::len word"
  assumes "c * d = 1" "x * c = y * c"
  shows "x = y"
  using assms by (metis mult.assoc mult.right_neutral)

lemma FMIX32_inj: "FMIX32 x = FMIX32 y \<Longrightarrow> x = y"
proof -
  assume a: "FMIX32 x = FMIX32 y"
  have i1: "(0x85ebca6b :: u32) * 0xa5cb9243 = 1" and i2: "(0xc2b2ae35 :: u32) * 0x7ed1b41d = 1"
    by simp_all
  show "x = y"
    by (rule xorshift_inj[of 16], simp, rule mult_inj[OF i1], rule xorshift_inj[of 13], simp,
        rule mult_inj[OF i2], rule xorshift_inj[of 16], simp)
       (use a in \<open>simp only: FMIX32_def Let_def\<close>)
qed

lemma FMIX64_inj: "FMIX64 x = FMIX64 y \<Longrightarrow> x = y"
proof -
  assume a: "FMIX64 x = FMIX64 y"
  have i1: "(0xff51afd7ed558ccd :: uword) * 0x4f74430c22a54005 = 1"
    and i2: "(0xc4ceb9fe1a85ec53 :: uword) * 0x9cb4b2f8129337db = 1"
    by simp_all
  show "x = y"
    by (rule xorshift_inj[of 33], simp, rule mult_inj[OF i1], rule xorshift_inj[of 33], simp,
        rule mult_inj[OF i2], rule xorshift_inj[of 33], simp)
       (use a in \<open>simp only: FMIX64_def Let_def\<close>)
qed

lemma hmix_FMIX32: "hopscotch_hmix key = FMIX32 (ucast (drop_bit 4 key))"
  by (simp only: hopscotch_hmix_def FMIX32_def Let_def)

lemma xor_cancel:
  fixes a :: "'a::len word"
  assumes "a XOR c = b XOR c"
  shows "a = b"
proof -
  have "(x XOR c) XOR c = x" for x :: "'a word" by (rule bit_word_eqI) (auto simp: bit_xor_iff)
  then have "a = (a XOR c) XOR c" "b = (b XOR c) XOR c" by simp_all
  with assms show ?thesis by metis
qed

lemma xor_cancel_left:
  fixes a :: "'a::len word"
  assumes "c XOR a = c XOR b"
  shows "a = b"
  using assms by (intro xor_cancel[of a c b]) (simp only: xor.commute)

lemma ROTL32_inj:
  assumes "0 < r" "r < 32" "ROTL32 x r = ROTL32 y r"
  shows "x = y"
proof (rule bit_word_eqI)
  fix j assume j: "j < LENGTH(32)"
  have b: "bit (ROTL32 z r) i \<longleftrightarrow> (if r \<le> i then bit z (i - r) else bit z (32 - r + i))"
    if "i < 32" for z i
    using that assms(1,2) word_bit_length[of z "32 - r + i"]
    by (auto simp: ROTL32_def bit_simps)
  show "bit x j \<longleftrightarrow> bit y j"
  proof (cases "j + r < 32")
    case True
    then show ?thesis using b[of "j + r" x] b[of "j + r" y] assms(3) by simp
  next
    case False
    have "j + r - 32 < r" "j + r - 32 < 32" "32 - r + (j + r - 32) = j" using False j assms(2) by auto
    then show ?thesis using b[of "j + r - 32" x] b[of "j + r - 32" y] assms(3) by simp
  qed
qed

text \<open>One round of the body, as a function of the running hash and of the block.\<close>

definition murmur_round :: "u32 \<Rightarrow> u32 \<Rightarrow> u32" where
  "murmur_round h1 k1 = ROTL32 (h1 XOR ROTL32 (k1 * 0xcc9e2d51) 15 * 0x1b873593) 13 * 5 + 0xe6546b64"

lemma murmur_body_Suc:
  "murmur_body h1 p (Suc n) = murmur_body (murmur_round h1 (load32 p)) (drop 4 p) n"
  by (simp add: murmur_round_def Let_def)

lemma inverse_constants:
  "(0xcc9e2d51 :: u32) * 0xdee13bb1 = 1" "(0x1b873593 :: u32) * 0x56ed309b = 1"
  "(5 :: u32) * 0xcccccccd = 1"
  by simp_all

lemma murmur_round_inj_h: "murmur_round h k = murmur_round h' k \<Longrightarrow> h = h'"
proof -
  assume "murmur_round h k = murmur_round h' k"
  then have "ROTL32 (h XOR ROTL32 (k * 0xcc9e2d51) 15 * 0x1b873593) 13 * 5 =
      ROTL32 (h' XOR ROTL32 (k * 0xcc9e2d51) 15 * 0x1b873593) 13 * 5"
    unfolding murmur_round_def by (rule add_right_imp_eq)
  then have "h XOR ROTL32 (k * 0xcc9e2d51) 15 * 0x1b873593 =
      h' XOR ROTL32 (k * 0xcc9e2d51) 15 * 0x1b873593"
    by (rule mult_inj[OF inverse_constants(3), THEN ROTL32_inj[rotated 2]]) simp_all
  then show "h = h'" by (rule xor_cancel)
qed

lemma murmur_round_inj_k: "murmur_round h k = murmur_round h k' \<Longrightarrow> k = k'"
proof -
  assume "murmur_round h k = murmur_round h k'"
  then have "ROTL32 (h XOR ROTL32 (k * 0xcc9e2d51) 15 * 0x1b873593) 13 * 5 =
      ROTL32 (h XOR ROTL32 (k' * 0xcc9e2d51) 15 * 0x1b873593) 13 * 5"
    unfolding murmur_round_def by (rule add_right_imp_eq)
  then have "h XOR ROTL32 (k * 0xcc9e2d51) 15 * 0x1b873593 =
      h XOR ROTL32 (k' * 0xcc9e2d51) 15 * 0x1b873593"
    by (rule mult_inj[OF inverse_constants(3), THEN ROTL32_inj[rotated 2]]) simp_all
  then have "ROTL32 (k * 0xcc9e2d51) 15 * 0x1b873593 = ROTL32 (k' * 0xcc9e2d51) 15 * 0x1b873593"
    by (rule xor_cancel_left)
  then have "k * 0xcc9e2d51 = k' * 0xcc9e2d51"
    by (rule mult_inj[OF inverse_constants(2), THEN ROTL32_inj[rotated 2]]) simp_all
  then show "k = k'" by (rule mult_inj[OF inverse_constants(1)])
qed

lemma murmur_body_inj_h: "murmur_body h p n = murmur_body h' p n \<Longrightarrow> h = h'"
proof (induction n arbitrary: h h' p)
  case 0
  then show ?case by simp
next
  case (Suc n)
  from Suc.prems have "murmur_body (murmur_round h (load32 p)) (drop 4 p) n =
      murmur_body (murmur_round h' (load32 p)) (drop 4 p) n"
    by (simp only: murmur_body_Suc)
  then have "murmur_round h (load32 p) = murmur_round h' (load32 p)" by (rule Suc.IH)
  then show ?case by (rule murmur_round_inj_h)
qed

lemma load32_bit:
  assumes "i < 4" "n < 8"
  shows "bit (load32 b) (8 * i + n) \<longleftrightarrow> bit (b ! i) n"
proof -
  have w: "\<not> bit (x :: u8) n" if "8 \<le> n" for x n using word_bit_length[of x n] that by auto
  have e: "bit (load32 b) j \<longleftrightarrow> bit (b ! 0) j \<or> 8 \<le> j \<and> bit (b ! 1) (j - 8) \<or>
      16 \<le> j \<and> bit (b ! 2) (j - 16) \<or> 24 \<le> j \<and> bit (b ! 3) (j - 24)" if "j < 32" for j
    using that by (auto simp: load32_def bit_or_iff bit_push_bit_iff bit_unsigned_iff)
  consider "i = 0" | "i = 1" | "i = 2" | "i = 3" using assms(1) by linarith
  then show ?thesis using e[of "8 * i + n"] assms w by cases (simp_all add: w)
qed

lemma load32_inj:
  assumes "length b = 4" "length b' = 4" "load32 b = load32 b'"
  shows "b = b'"
proof (rule nth_equalityI)
  show "length b = length b'" using assms by simp
  fix i assume "i < length b"
  then have i: "i < 4" using assms(1) by simp
  show "b ! i = b' ! i"
  proof (rule bit_word_eqI)
    fix n assume "n < LENGTH(8)"
    then show "bit (b ! i) n \<longleftrightarrow> bit (b' ! i) n"
      using load32_bit[OF i, of n b] load32_bit[OF i, of n b'] assms(3) by simp
  qed
qed

lemma load32_append: "4 \<le> length b \<Longrightarrow> load32 (b @ c) = load32 b"
proof -
  assume "4 \<le> length b"
  then have "0 < length b" "1 < length b" "2 < length b" "3 < length b" by linarith+
  then show ?thesis unfolding load32_def nth_append by (simp only: if_True)
qed

lemma murmur_body_append:
  "4 * n \<le> length p \<Longrightarrow> murmur_body h (p @ q) (n + m) = murmur_body (murmur_body h p n) (drop (4 * n) p @ q) m"
proof (induction n arbitrary: h p)
  case 0
  then show ?case by simp
next
  case (Suc n)
  have "murmur_body h (p @ q) (Suc n + m) =
      murmur_body (murmur_round h (load32 p)) (drop 4 p @ q) (n + m)"
    using Suc.prems by (simp add: murmur_body_Suc load32_append del: murmur_body.simps)
  also have "\<dots> = murmur_body (murmur_body (murmur_round h (load32 p)) (drop 4 p) n)
      (drop (4 * n) (drop 4 p) @ q) m"
    using Suc.prems by (intro Suc.IH) simp
  finally show ?case by (simp add: murmur_body_Suc add.commute del: murmur_body.simps)
qed

section \<open>Properties\<close>

text \<open>The finalisation mixers lose nothing: \<open>murmur3_fmix32\<close> and
  \<open>murmur3_fmix64\<close> are injective, and two addresses that agree in their lowtag bits and
  above bit 35 have different \<open>hopscotch_hmix\<close> codes unless they are equal, so a table
  hashed that way can always be enlarged until its keys have bins of their own.\<close>

theorem mixers_injective:
  assumes "take_bit 4 a = take_bit 4 b" "drop_bit 36 a = drop_bit 36 b"
  shows "inj murmur3_fmix32 \<and> inj murmur3_fmix64 \<and>
    (hopscotch_hmix a = hopscotch_hmix b \<longrightarrow> a = b)"
proof (intro conjI impI)
  show "inj murmur3_fmix32"
    by (rule injI, rule FMIX32_inj) (simp only: murmur3_fmix32_def)
  show "inj murmur3_fmix64"
    by (rule injI, rule FMIX64_inj) (simp only: murmur3_fmix64_def)
  assume "hopscotch_hmix a = hopscotch_hmix b"
  then have m: "(ucast (drop_bit 4 a) :: u32) = ucast (drop_bit 4 b)"
    unfolding hmix_FMIX32 by (rule FMIX32_inj)
  show "a = b"
  proof (rule bit_word_eqI)
    fix j assume "j < LENGTH(64)"
    consider "j < 4" | "4 \<le> j" "j < 36" | "36 \<le> j" by linarith
    then show "bit a j \<longleftrightarrow> bit b j"
    proof cases
      case 1
      then show ?thesis using assms(1) by (metis bit_take_bit_iff)
    next
      case 2
      then have "bit (ucast (drop_bit 4 a) :: u32) (j - 4) \<longleftrightarrow> bit (ucast (drop_bit 4 b) :: u32) (j - 4)"
        using m by simp
      moreover have "j - 4 < 32" using 2 by linarith
      ultimately show ?thesis using 2 by (simp add: bit_simps)
    next
      case 3
      have "bit (drop_bit 36 a) (j - 36) = bit (drop_bit 36 b) (j - 36)" by (simp only: assms(2))
      with 3 show ?thesis by (simp add: bit_drop_bit_word del: drop_bit_eq_div)
    qed
  qed
qed

lemma mixers_injective_witness:
  "inj murmur3_fmix32 \<and> inj murmur3_fmix64 \<and> hopscotch_hmix 0x1000000003 \<noteq> hopscotch_hmix 0x1000000013"
proof -
  have "take_bit 4 (0x1000000003 :: uword) = take_bit 4 0x1000000013"
    "drop_bit 36 (0x1000000003 :: uword) = drop_bit 36 0x1000000013" by code_simp+
  note I = mixers_injective[OF this]
  have "(0x1000000003 :: uword) \<noteq> 0x1000000013" by simp
  with I show ?thesis by blast
qed

text \<open>Two byte strings that differ in exactly one aligned four-byte block, whatever comes
  before and after it, never have the same \<open>gpr_murmur_hash3\<close> for the same seed.\<close>

theorem murmur_one_block:
  assumes "length b = 4" "length b' = 4" "length pre mod 4 = 0"
    and "gpr_murmur_hash3 (pre @ b @ post) seed = gpr_murmur_hash3 (pre @ b' @ post) seed"
  shows "b = b'"
proof -
  obtain n where n: "length pre = 4 * n" using assms(3) by auto
  let ?m = "length post div 4" and ?len = "length pre + 4 + length post"
  have nb: "?len div 4 = n + Suc ?m" using n by simp
  have body: "murmur_body seed (pre @ x @ post) (n + Suc ?m) =
      murmur_body (murmur_round (murmur_body seed pre n) (load32 x)) post ?m" if "length x = 4" for x
  proof -
    have "murmur_body seed (pre @ x @ post) (n + Suc ?m) =
        murmur_body (murmur_body seed pre n) (drop (4 * n) pre @ x @ post) (Suc ?m)"
      using n by (intro murmur_body_append) simp
    also have "\<dots> = murmur_body (murmur_round (murmur_body seed pre n) (load32 x)) post ?m"
      using that n by (simp add: murmur_body_Suc load32_append del: murmur_body.simps)
    finally show ?thesis .
  qed
  have rest: "drop (4 * (n + Suc ?m)) (pre @ x @ post) = drop (4 * ?m) post" if "length x = 4" for x
    using that n by simp
  have inj_tail: "u = v" if "murmur_tail u q l = murmur_tail v q l" for u v q l
  proof (cases "l mod 4 = 0")
    case True
    with that show ?thesis by (simp add: murmur_tail_def)
  next
    case False
    then obtain c where c: "\<And>h. murmur_tail h q l = h XOR c"
      by (simp add: murmur_tail_def Let_def)
    from that show ?thesis unfolding c by (rule xor_cancel)
  qed
  define h where "h = (\<lambda>x. murmur_round (murmur_body seed pre n) (load32 x))"
  have g: "gpr_murmur_hash3 (pre @ x @ post) seed =
      FMIX32 (murmur_tail (murmur_body (h x) post ?m) (drop (4 * ?m) post) ?len XOR of_nat ?len)"
    if "length x = 4" for x
  proof -
    have l: "length (pre @ x @ post) = ?len" using that by simp
    show ?thesis
      unfolding gpr_murmur_hash3_def Let_def l nb body[OF that] rest[OF that] h_def ..
  qed
  define t where "t = (\<lambda>x. murmur_tail (murmur_body (h x) post ?m) (drop (4 * ?m) post) ?len)"
  define l :: u32 where "l = of_nat ?len"
  have "FMIX32 (t b XOR l) = FMIX32 (t b' XOR l)"
    using assms(4) unfolding g[OF assms(1)] g[OF assms(2)] t_def l_def .
  then have "t b = t b'" by (rule xor_cancel[OF FMIX32_inj])
  then have "murmur_tail (murmur_body (h b) post ?m) (drop (4 * ?m) post) ?len =
      murmur_tail (murmur_body (h b') post ?m) (drop (4 * ?m) post) ?len"
    unfolding t_def .
  then have "h b = h b'" by (rule murmur_body_inj_h[OF inj_tail])
  then have "load32 b = load32 b'" unfolding h_def by (rule murmur_round_inj_k)
  then show ?thesis by (rule load32_inj[OF assms(1,2)])
qed

lemma murmur_one_block_witness:
  "gpr_murmur_hash3 ([] @ [1, 2, 3, 4] @ [5]) 0 \<noteq> gpr_murmur_hash3 ([] @ [1, 2, 3, 5] @ [5]) 0"
proof
  assume a: "gpr_murmur_hash3 ([] @ [1, 2, 3, 4] @ [5]) 0 = gpr_murmur_hash3 ([] @ [1, 2, 3, 5] @ [5]) 0"
  have "[1, 2, 3, 4 :: u8] = [1, 2, 3, 5]"
    by (rule murmur_one_block[OF _ _ _ a]) simp_all
  then show False by simp
qed

end
