(* ===== verification/Lispobj.thy ===== *)
theory Lispobj
  imports Align
begin

text \<open>
  Tagged words, \<open>src/src/runtime/lispobj.h\<close>, and forwarding pointers,
  \<open>forwarding-ptr.inc\<close>. The heap is a function from the byte address of a word to the word.
  The constants are those of \<open>src/src/compiler/generic/early-objdef.lisp\<close> for 64-bit targets:
  pointer lowtags are \<open>instance\<close> 3, \<open>list\<close> 7, \<open>fun\<close> 11 and \<open>other\<close> 15, and a fixnum has its low
  bit clear. The tables indexed by widetag are generated and are parameters.
\<close>

unbundle bit_operations_syntax

type_synonym lispobj = uword
type_synonym heap = "uword \<Rightarrow> uword"

section \<open>Constants\<close>

definition FIXNUM_TAG_MASK :: uword where "FIXNUM_TAG_MASK = 1"
definition N_FIXNUM_TAG_BITS :: nat where "N_FIXNUM_TAG_BITS = 1"
definition LOWTAG_MASK :: uword where "LOWTAG_MASK = 0xF"
definition WIDETAG_MASK :: uword where "WIDETAG_MASK = 0xFF"
definition N_WIDETAG_BITS :: nat where "N_WIDETAG_BITS = 8"
definition INSTANCE_POINTER_LOWTAG :: uword where "INSTANCE_POINTER_LOWTAG = 3"
definition LIST_POINTER_LOWTAG :: uword where "LIST_POINTER_LOWTAG = 7"
definition FUN_POINTER_LOWTAG :: uword where "FUN_POINTER_LOWTAG = 11"
definition OTHER_POINTER_LOWTAG :: uword where "OTHER_POINTER_LOWTAG = 15"
definition CHARACTER_WIDETAG :: uword where "CHARACTER_WIDETAG = 0x51"
definition SINGLE_FLOAT_WIDETAG :: uword where "SINGLE_FLOAT_WIDETAG = 0x19"
definition UNBOUND_MARKER_WIDETAG :: uword where "UNBOUND_MARKER_WIDETAG = 9"
definition FILLER_WIDETAG :: uword where "FILLER_WIDETAG = 0x6D"
definition CONS_SIZE :: nat where "CONS_SIZE = 2"

lemmas tag_constants = FIXNUM_TAG_MASK_def N_FIXNUM_TAG_BITS_def LOWTAG_MASK_def WIDETAG_MASK_def
  N_WIDETAG_BITS_def INSTANCE_POINTER_LOWTAG_def LIST_POINTER_LOWTAG_def FUN_POINTER_LOWTAG_def
  OTHER_POINTER_LOWTAG_def CHARACTER_WIDETAG_def SINGLE_FLOAT_WIDETAG_def
  UNBOUND_MARKER_WIDETAG_def FILLER_WIDETAG_def

section \<open>Tags\<close>

definition fixnump :: "lispobj \<Rightarrow> bool" where
  "fixnump obj \<longleftrightarrow> obj AND FIXNUM_TAG_MASK = 0"

definition header_widetag :: "lispobj \<Rightarrow> uword" where
  "header_widetag obj = obj AND WIDETAG_MASK"

definition HeaderValue :: "lispobj \<Rightarrow> uword" where
  "HeaderValue obj = drop_bit N_WIDETAG_BITS obj"

definition is_lisp_immediate :: "lispobj \<Rightarrow> bool" where
  "is_lisp_immediate obj \<longleftrightarrow> fixnump obj \<or> header_widetag obj = CHARACTER_WIDETAG \<or>
     header_widetag obj = SINGLE_FLOAT_WIDETAG \<or> header_widetag obj = UNBOUND_MARKER_WIDETAG"

definition lowtag_of :: "lispobj \<Rightarrow> uword" where
  "lowtag_of obj = obj AND LOWTAG_MASK"

definition widetag_of :: "heap \<Rightarrow> uword \<Rightarrow> uword" where
  "widetag_of h obj = h obj AND 0xFF"

definition listp :: "lispobj \<Rightarrow> bool" where
  "listp obj \<longleftrightarrow> lowtag_of obj = LIST_POINTER_LOWTAG"

definition instancep :: "lispobj \<Rightarrow> bool" where
  "instancep obj \<longleftrightarrow> lowtag_of obj = INSTANCE_POINTER_LOWTAG"

definition functionp :: "lispobj \<Rightarrow> bool" where
  "functionp obj \<longleftrightarrow> lowtag_of obj = FUN_POINTER_LOWTAG"

definition other_pointer_p :: "lispobj \<Rightarrow> bool" where
  "other_pointer_p obj \<longleftrightarrow> lowtag_of obj = OTHER_POINTER_LOWTAG"

definition native_pointer :: "lispobj \<Rightarrow> uword" where
  "native_pointer obj = obj AND NOT LOWTAG_MASK"

definition make_lispobj :: "uword \<Rightarrow> uword \<Rightarrow> lispobj" where
  "make_lispobj obj low_tag = obj OR low_tag"

definition make_fixnum :: "uword \<Rightarrow> lispobj" where
  "make_fixnum n = push_bit N_FIXNUM_TAG_BITS n"

definition fixnum_value :: "lispobj \<Rightarrow> uword" where
  "fixnum_value n = signed_drop_bit N_FIXNUM_TAG_BITS n"

definition is_lisp_pointer :: "lispobj \<Rightarrow> bool" where
  "is_lisp_pointer obj \<longleftrightarrow> obj AND 3 = 3"

definition is_cons_half :: "lispobj \<Rightarrow> bool" where
  "is_cons_half obj \<longleftrightarrow> fixnump obj \<or> is_lisp_pointer obj \<or>
     header_widetag obj = CHARACTER_WIDETAG \<or> header_widetag obj = SINGLE_FLOAT_WIDETAG \<or>
     header_widetag obj = UNBOUND_MARKER_WIDETAG"

definition BOXED_NWORDS :: "lispobj \<Rightarrow> uword" where
  "BOXED_NWORDS obj = (HeaderValue obj AND 0x7FFFFF) OR 1"

text \<open>\<open>SHORT_HEADER_MAX_WORDS\<close> is 15 bits of ones.\<close>

definition SHORT_BOXED_NWORDS :: "lispobj \<Rightarrow> uword" where
  "SHORT_BOXED_NWORDS obj = (HeaderValue obj AND 0x7FFF) OR 1"

definition other_immediate_lowtag_p :: "lispobj \<Rightarrow> bool" where
  "other_immediate_lowtag_p header \<longleftrightarrow> lowtag_of header AND 3 = 1"

text \<open>\<open>widetag_lowtag\<close> is a generated table.\<close>

definition compute_lispobj :: "(uword \<Rightarrow> u8) \<Rightarrow> heap \<Rightarrow> uword \<Rightarrow> lispobj" where
  "compute_lispobj widetag_lowtag h base_addr =
     make_lispobj base_addr (ucast (widetag_lowtag (h base_addr AND WIDETAG_MASK)) AND LOWTAG_MASK)"

definition is_header :: "(uword \<Rightarrow> u8) \<Rightarrow> lispobj \<Rightarrow> bool" where
  "is_header widetag_lowtag w \<longleftrightarrow> widetag_lowtag (w AND WIDETAG_MASK) AND 0x80 \<noteq> 0"

definition make_filler_header :: "uword \<Rightarrow> uword" where
  "make_filler_header n = push_bit 32 n OR FILLER_WIDETAG"

definition filler_total_nwords :: "uword \<Rightarrow> uword" where
  "filler_total_nwords header = drop_bit 32 header"

section \<open>Forwarding pointers\<close>

definition FORWARDING_HEADER :: uword where "FORWARDING_HEADER = 1"

definition forwarding_pointer_p :: "heap \<Rightarrow> uword \<Rightarrow> bool" where
  "forwarding_pointer_p h pointer \<longleftrightarrow> h pointer AND 0xFF = 1"

definition forwarding_pointer_value :: "heap \<Rightarrow> uword \<Rightarrow> lispobj" where
  "forwarding_pointer_value h pointer = h (pointer + 8)"

definition set_forwarding_pointer :: "heap \<Rightarrow> uword \<Rightarrow> lispobj \<Rightarrow> heap" where
  "set_forwarding_pointer h addr newspace_copy =
     h(addr := FORWARDING_HEADER, addr + 8 := newspace_copy)"

text \<open>\<open>old_nwords << N_WIDETAG_BITS\<close> is an \<open>int\<close>, sign-extended when it joins the word.\<close>

definition set_forwarding_pointer_resized :: "heap \<Rightarrow> uword \<Rightarrow> lispobj \<Rightarrow> u32 \<Rightarrow> heap" where
  "set_forwarding_pointer_resized h addr newspace_copy old_nwords =
     h(addr := FORWARDING_HEADER OR scast (push_bit N_WIDETAG_BITS old_nwords),
       addr + 8 := newspace_copy)"

definition follow_fp :: "heap \<Rightarrow> lispobj \<Rightarrow> lispobj" where
  "follow_fp h ptr =
     (if forwarding_pointer_p h (native_pointer ptr)
      then forwarding_pointer_value h (native_pointer ptr) else ptr)"

definition barrier_load :: "heap \<Rightarrow> uword \<Rightarrow> lispobj" where
  "barrier_load h slot = (let val = h slot in if is_lisp_pointer val then follow_fp h val else val)"

section \<open>Facts about tags\<close>

lemma bit_F: "bit (0xF :: int) j \<longleftrightarrow> j < 4"
proof -
  have "(0xF :: int) = mask 4" by (simp add: mask_eq_exp_minus_1)
  then show ?thesis by (simp only: bit_mask_iff possible_bit_int) simp
qed

lemma bit_FF: "bit (0xFF :: int) j \<longleftrightarrow> j < 8"
proof -
  have "(0xFF :: int) = mask 8" by (simp add: mask_eq_exp_minus_1)
  then show ?thesis by (simp only: bit_mask_iff possible_bit_int) simp
qed

lemma lowtag_range: "unat (lowtag_of obj) < 16"
proof -
  have m: "LOWTAG_MASK = mask 4" by (simp add: LOWTAG_MASK_def mask_eq_exp_minus_1)
  have "unat (lowtag_of obj) = unat obj mod 2 ^ 4"
    unfolding lowtag_of_def m by (rule unat_and_mask)
  then show ?thesis by simp
qed

lemma aligned_bits:
  assumes "lowtag_of a = 0"
  shows "j < 4 \<Longrightarrow> \<not> bit a j"
proof
  assume "j < 4" "bit a j"
  then have "bit (lowtag_of a) j"
    by (simp add: lowtag_of_def LOWTAG_MASK_def bit_and_iff bit_F)
  with assms show False by simp
qed

lemma small_bits:
  assumes "t AND LOWTAG_MASK = t" "bit t j"
  shows "j < 4"
proof -
  have "bit (t AND LOWTAG_MASK) j" using assms by simp
  then show ?thesis by (simp add: LOWTAG_MASK_def bit_and_iff bit_F)
qed

lemma tag_untag:
  assumes "lowtag_of a = 0" "t AND LOWTAG_MASK = t"
  shows "native_pointer (make_lispobj a t) = a" "lowtag_of (make_lispobj a t) = t"
proof -
  show "native_pointer (make_lispobj a t) = a"
    using aligned_bits[OF assms(1)] small_bits[OF assms(2)]
    by (auto intro!: bit_word_eqI
        simp: native_pointer_def make_lispobj_def LOWTAG_MASK_def bit_simps bit_F)
  show "lowtag_of (make_lispobj a t) = t"
    using aligned_bits[OF assms(1)] small_bits[OF assms(2)]
    by (auto intro!: bit_word_eqI
        simp: lowtag_of_def make_lispobj_def LOWTAG_MASK_def bit_simps bit_F)
qed

lemma untag_tag: "make_lispobj (native_pointer obj) (lowtag_of obj) = obj"
  by (auto intro!: bit_word_eqI
      simp: native_pointer_def lowtag_of_def make_lispobj_def LOWTAG_MASK_def bit_simps bit_F)

lemma lowtag_native: "lowtag_of (native_pointer obj) = 0"
  by (auto intro!: bit_word_eqI simp: native_pointer_def lowtag_of_def LOWTAG_MASK_def bit_simps bit_F)

lemma pointer_lowtags:
  "is_lisp_pointer obj \<longleftrightarrow> listp obj \<or> instancep obj \<or> functionp obj \<or> other_pointer_p obj"
proof -
  have p: "is_lisp_pointer obj \<longleftrightarrow> lowtag_of obj AND 3 = 3"
  proof -
    have "(0xF :: uword) AND 3 = 3" by simp
    then have "lowtag_of obj AND 3 = obj AND 3"
      unfolding lowtag_of_def LOWTAG_MASK_def by (simp add: and.assoc)
    then show ?thesis by (simp add: is_lisp_pointer_def)
  qed
  define n where "n = unat (lowtag_of obj)"
  have n: "lowtag_of obj = of_nat n" "n < 16" using lowtag_range[of obj] by (simp_all add: n_def)
  from n(2) have "n \<in> {0, 1, 2, 3, 4, 5, 6, 7, 8, 9, 10, 11, 12, 13, 14, 15}"
    unfolding insert_iff empty_iff by presburger
  then show ?thesis
    unfolding p listp_def instancep_def functionp_def other_pointer_p_def n(1) tag_constants
    by (elim insertE emptyE) simp_all
qed

lemma fixnum_round:
  assumes "- (2 ^ 62) \<le> sint n" "sint n < 2 ^ 62"
  shows "fixnump (make_fixnum n)" "fixnum_value (make_fixnum n) = n"
proof -
  show "fixnump (make_fixnum n)"
    by (auto intro!: bit_word_eqI simp: fixnump_def make_fixnum_def tag_constants bit_simps bit_0)
  have "bit n 62 \<longleftrightarrow> bit n 63"
  proof -
    have "signed_take_bit 62 (sint n) = sint n"
      using assms by (intro signed_take_bit_int_eq_self) simp_all
    then have "bit (signed_take_bit 62 (sint n)) 63 \<longleftrightarrow> bit (sint n) 63" by simp
    then show ?thesis by (simp add: bit_signed_take_bit_iff bit_sint_iff)
  qed
  note b = this
  have m: "bit (make_fixnum n) j \<longleftrightarrow> 0 < j \<and> j < 64 \<and> bit n (j - 1)" for j
    unfolding make_fixnum_def N_FIXNUM_TAG_BITS_def bit_push_bit_iff by auto
  show "fixnum_value (make_fixnum n) = n"
  proof (rule bit_word_eqI)
    fix j assume j: "j < LENGTH(64)"
    have "bit (fixnum_value (make_fixnum n)) j \<longleftrightarrow>
        bit (make_fixnum n) (if 64 - 1 \<le> j then 64 - 1 else 1 + j)"
      using j by (simp add: fixnum_value_def N_FIXNUM_TAG_BITS_def bit_signed_drop_bit_iff)
    also have "\<dots> \<longleftrightarrow> bit n j"
      using j b by (cases "j = 63") (auto simp: m)
    finally show "bit (fixnum_value (make_fixnum n)) j \<longleftrightarrow> bit n j" .
  qed
qed

section \<open>Properties\<close>

text \<open>Tagging loses nothing. Any word is its base address with its lowtag; a lowtag put on
  a 16-byte-aligned address is read back with the address; a word is a pointer exactly when it
  carries one of the four pointer lowtags, and then it is not a fixnum; and every 63-bit signed
  integer survives being made a fixnum.\<close>

theorem tagging:
  assumes "lowtag_of a = 0" "t AND LOWTAG_MASK = t"
    and "- (2 ^ 62) \<le> sint n" "sint n < 2 ^ 62"
  shows "make_lispobj (native_pointer obj) (lowtag_of obj) = obj \<and>
    native_pointer (make_lispobj a t) = a \<and> lowtag_of (make_lispobj a t) = t \<and>
    (is_lisp_pointer obj \<longleftrightarrow>
       listp obj \<or> instancep obj \<or> functionp obj \<or> other_pointer_p obj) \<and>
    \<not> (is_lisp_pointer obj \<and> fixnump obj) \<and>
    fixnump (make_fixnum n) \<and> fixnum_value (make_fixnum n) = n"
proof -
  have "\<not> (is_lisp_pointer obj \<and> fixnump obj)"
  proof
    assume a: "is_lisp_pointer obj \<and> fixnump obj"
    then have "bit (obj AND 3) 0" "\<not> bit (obj AND 1) 0"
      by (simp_all add: is_lisp_pointer_def fixnump_def FIXNUM_TAG_MASK_def)
    then show False by (simp add: bit_and_iff)
  qed
  then show ?thesis
    using tag_untag[OF assms(1,2)] untag_tag pointer_lowtags fixnum_round[OF assms(3,4)] by simp
qed

lemma tagging_witness:
  "native_pointer (make_lispobj 0x1000 7) = 0x1000 \<and> listp 0x1007 \<and> fixnum_value (make_fixnum (- 5)) = - 5"
proof -
  have "lowtag_of 0x1000 = 0" "(7 :: uword) AND LOWTAG_MASK = 7" "- (2 ^ 62) \<le> sint (- 5 :: uword)"
    "sint (- 5 :: uword) < 2 ^ 62" "listp 0x1007"
    by code_simp+
  then show ?thesis using tagging[of "0x1000" 7 "- 5" 0] by blast
qed

text \<open>Forwarding. After an object at an aligned address has been forwarded to a tagged
  pointer, with or without its old size recorded, \<open>follow_fp\<close> leads from every tagged
  reference to it to the new copy, a reference to any object elsewhere whose header is not a
  forwarding header is unchanged, and \<open>barrier_load\<close> of a slot does the same.\<close>

theorem forwarding:
  assumes "native_pointer p = a" "h' \<in> {set_forwarding_pointer h a new,
      set_forwarding_pointer_resized h a new nwords}"
    and "native_pointer q \<notin> {a, a + 8}" "\<not> forwarding_pointer_p h (native_pointer q)"
  shows "follow_fp h' p = new \<and> follow_fp h' q = q \<and>
    (h' slot = q \<longrightarrow> barrier_load h' slot = q) \<and>
    (h' slot = p \<and> is_lisp_pointer p \<longrightarrow> barrier_load h' slot = new)"
proof -
  have ne: "a + 8 \<noteq> a" by simp
  have head: "h' a AND 0xFF = 1"
  proof -
    have "(FORWARDING_HEADER OR scast (push_bit N_WIDETAG_BITS nwords)) AND 0xFF = 1"
      by (intro bit_word_eqI)
         (auto simp: FORWARDING_HEADER_def N_WIDETAG_BITS_def bit_simps bit_FF bit_1_iff)
    then show ?thesis
      using assms(2) ne
      by (auto simp: set_forwarding_pointer_def set_forwarding_pointer_resized_def FORWARDING_HEADER_def)
  qed
  have val: "h' (a + 8) = new"
    using assms(2) by (auto simp: set_forwarding_pointer_def set_forwarding_pointer_resized_def)
  have other: "h' (native_pointer q) = h (native_pointer q)"
    using assms(2,3) by (auto simp: set_forwarding_pointer_def set_forwarding_pointer_resized_def)
  have p: "follow_fp h' p = new"
    using head val assms(1) by (simp add: follow_fp_def forwarding_pointer_p_def forwarding_pointer_value_def)
  have q: "follow_fp h' q = q"
    using other assms(4) by (simp add: follow_fp_def forwarding_pointer_p_def)
  show ?thesis using p q by (auto simp: barrier_load_def Let_def)
qed

lemma forwarding_witness:
  "follow_fp (set_forwarding_pointer (\<lambda>_. 0) 0x1000 0x2007) 0x1007 = 0x2007"
proof -
  have "native_pointer 0x1007 = 0x1000" "native_pointer 0x3007 \<notin> {0x1000, 0x1000 + 8}"
    "\<not> forwarding_pointer_p (\<lambda>_. 0) (native_pointer 0x3007)"
    by code_simp+
  from forwarding[OF this(1) _ this(2,3), of "set_forwarding_pointer (\<lambda>_. 0) 0x1000 0x2007"]
  show ?thesis by simp
qed

end
