(* ===== verification/Search.thy ===== *)
theory Search
  imports Lispobj
begin

text \<open>
  The searches of \<open>src/src/runtime/search.c\<close> and the object search of \<open>gc-common.c\<close>: binary
  search of sorted vectors of code addresses, the brothertrees that index code blobs (followed
  through forwarding pointers while the collector moves their nodes), the split-ordered list of
  pinned objects, the scan of a space for the object around an address, and the index of a
  simple-fun in its code object.

  Loops over linked structures take fuel; their theorems show that the structure's own size is
  enough.
\<close>

unbundle bit_operations_syntax

section \<open>Binary search\<close>

text \<open>\<open>Inl mid\<close> for an exact match, otherwise the final \<open>low\<close> and \<open>high\<close>. The indices
  are C \<open>int\<close>s that start below \<open>2 ^ 31\<close>, so their sum may be as large as \<open>2 ^ 32\<close>; the
  source states that vectors are never that long.\<close>

function bsearch_loop :: "uword \<Rightarrow> uword list \<Rightarrow> int \<Rightarrow> int \<Rightarrow> int + int \<times> int" where
  "bsearch_loop item array low high =
     (if low > high then Inr (low, high)
      else let mid = (low + high) div 2;
               probe = array ! nat mid
           in if probe < item then bsearch_loop item array (mid + 1) high
              else if probe > item then bsearch_loop item array low (mid - 1)
              else Inl mid)"
  by pat_completeness auto
termination
  by (relation "measure (\<lambda>(item, array, low, high). nat (high - low + 1))") auto

declare bsearch_loop.simps [simp del]

definition bsearch_lesseql_uword :: "uword \<Rightarrow> uword list \<Rightarrow> int" where
  "bsearch_lesseql_uword item array =
     (case bsearch_loop item array 0 (int (length array) - 1) of
        Inl mid \<Rightarrow> mid
      | Inr (low, high) \<Rightarrow> if high \<ge> 0 then high else - 1)"

definition bsearch_greatereql_uword :: "uword \<Rightarrow> uword list \<Rightarrow> int" where
  "bsearch_greatereql_uword item array =
     (case bsearch_loop item array 0 (int (length array) - 1) of
        Inl mid \<Rightarrow> mid
      | Inr (low, high) \<Rightarrow> if low < int (length array) then low else - 1)"

text \<open>The 32-bit versions compare the zero-extended item and elements.\<close>

definition bsearch_lesseql_uint32 :: "u32 \<Rightarrow> u32 list \<Rightarrow> int" where
  "bsearch_lesseql_uint32 item array = bsearch_lesseql_uword (ucast item) (map ucast array)"

definition bsearch_greatereql_uint32 :: "u32 \<Rightarrow> u32 list \<Rightarrow> int" where
  "bsearch_greatereql_uint32 item array = bsearch_greatereql_uword (ucast item) (map ucast array)"

definition sorted_distinct :: "uword list \<Rightarrow> bool" where
  "sorted_distinct xs \<longleftrightarrow> sorted_wrt (<) xs"

lemma bsearch_loop_correct:
  assumes "sorted_distinct array" "0 \<le> low" "high < int (length array)" "low \<le> high + 1"
    and "\<And>i. i < nat low \<Longrightarrow> array ! i < item"
    and "\<And>i. high < int i \<Longrightarrow> i < length array \<Longrightarrow> item < array ! i"
  shows "case bsearch_loop item array low high of
      Inl m \<Rightarrow> 0 \<le> m \<and> m < int (length array) \<and> array ! nat m = item
    | Inr (l, h) \<Rightarrow> l = h + 1 \<and> 0 \<le> l \<and> h < int (length array) \<and>
        (\<forall>i<nat l. array ! i < item) \<and> (\<forall>i<length array. nat l \<le> i \<longrightarrow> item < array ! i)"
  using assms
proof (induction item array low high rule: bsearch_loop.induct)
  case (1 item array low high)
  have lt: "array ! i < array ! j" if "i < j" "j < length array" for i j
    using 1(3) that by (simp add: sorted_distinct_def sorted_wrt_nth_less)
  show ?case
  proof (cases "low > high")
    case True
    then show ?thesis using 1(4-8)
      by (subst bsearch_loop.simps) (auto simp: nat_le_iff)
  next
    case False
    define mid where "mid = (low + high) div 2"
    have m: "low \<le> mid" "mid \<le> high" using False by (simp_all add: mid_def)
    consider "array ! nat mid < item" | "array ! nat mid > item" | "array ! nat mid = item"
      by fastforce
    then show ?thesis
    proof cases
      case 1
      have "array ! i < item" if "i < nat (mid + 1)" for i
      proof (cases "i = nat mid")
        case True
        then show ?thesis using 1 by simp
      next
        case False
        then have "i < nat mid" using that m \<open>0 \<le> low\<close> by linarith
        moreover have "nat mid < length array" using m \<open>high < int (length array)\<close> \<open>0 \<le> low\<close> by linarith
        ultimately show ?thesis using lt 1 less_trans by blast
      qed
      note IH = "1.IH"(1)[OF False mid_def refl 1 \<open>sorted_distinct array\<close> _
          \<open>high < int (length array)\<close> _ this "1.prems"(6)]
      have "bsearch_loop item array low high = bsearch_loop item array (mid + 1) high"
        using False 1 by (subst bsearch_loop.simps) (simp add: mid_def)
      then show ?thesis using IH m \<open>0 \<le> low\<close> by simp
    next
      case 2
      have hi: "item < array ! i" if "mid - 1 < int i" "i < length array" for i
      proof (cases "i = nat mid")
        case True
        then show ?thesis using 2 by simp
      next
        case False
        then have "nat mid < i" using that m \<open>0 \<le> low\<close> by linarith
        then show ?thesis using lt that(2) 2 less_trans by blast
      qed
      have n2: "\<not> array ! nat mid < item" using 2 by simp
      note IH = "1.IH"(2)[OF False mid_def refl n2 2 \<open>sorted_distinct array\<close> \<open>0 \<le> low\<close>
          _ _ "1.prems"(5) hi]
      have "bsearch_loop item array low high = bsearch_loop item array low (mid - 1)"
        using False 2 n2 by (subst bsearch_loop.simps) (simp add: mid_def)
      then show ?thesis using IH m \<open>high < int (length array)\<close> by simp
    next
      case 3
      then have "bsearch_loop item array low high = Inl mid"
        using False by (subst bsearch_loop.simps) (simp add: mid_def)
      then show ?thesis using 3 m \<open>0 \<le> low\<close> \<open>high < int (length array)\<close> by simp
    qed
  qed
qed

lemma card_initial:
  assumes "\<And>i. i < k \<Longrightarrow> P i" "\<And>i. k \<le> i \<Longrightarrow> i < n \<Longrightarrow> \<not> P i" "k \<le> n"
  shows "card {i. i < n \<and> P i} = k"
proof -
  have "i < n \<and> P i \<longleftrightarrow> i < k" for i
    using assms(1,2)[of i] assms(3) by (cases "i < k") auto
  then show ?thesis by simp
qed

text \<open>The number of elements at most, and below, the item: the insertion points.\<close>

definition rank_le :: "uword \<Rightarrow> uword list \<Rightarrow> nat" where
  "rank_le item array = length (filter (\<lambda>a. a \<le> item) array)"

definition rank_less :: "uword \<Rightarrow> uword list \<Rightarrow> nat" where
  "rank_less item array = length (filter (\<lambda>a. a < item) array)"

lemma bsearch_ranks:
  assumes s: "sorted_distinct array"
  shows "bsearch_lesseql_uword item array = int (rank_le item array) - 1"
    "bsearch_greatereql_uword item array =
       (if rank_less item array < length array then int (rank_less item array) else - 1)"
proof -
  have lt: "array ! i < array ! j" if "i < j" "j < length array" for i j
    using s that by (simp add: sorted_distinct_def sorted_wrt_nth_less)
  let ?r = "bsearch_loop item array 0 (int (length array) - 1)"
  note C = bsearch_loop_correct[OF s, of 0 "int (length array) - 1" item, simplified]
  have "bsearch_lesseql_uword item array = int (rank_le item array) - 1 \<and>
    bsearch_greatereql_uword item array =
       (if rank_less item array < length array then int (rank_less item array) else - 1)"
  proof (cases ?r)
    case (Inl m)
    with C have m: "0 \<le> m" "m < int (length array)" "array ! nat m = item" by simp_all
    have "rank_le item array = Suc (nat m)"
      unfolding rank_le_def length_filter_conv_card
    proof (rule card_initial)
      show "array ! i \<le> item" if "i < Suc (nat m)" for i
        using that m lt[of i "nat m"] by (cases "i = nat m") (auto simp: less_imp_le)
      show "\<not> array ! i \<le> item" if "Suc (nat m) \<le> i" "i < length array" for i
        using that m lt[of "nat m" i] by auto
    qed (use m in linarith)
    moreover have "rank_less item array = nat m"
      unfolding rank_less_def length_filter_conv_card
    proof (rule card_initial)
      show "array ! i < item" if "i < nat m" for i
        using that m lt[of i "nat m"] by auto
      show "\<not> array ! i < item" if "nat m \<le> i" "i < length array" for i
        using that m lt[of "nat m" i] by (cases "i = nat m") auto
    qed (use m in linarith)
    ultimately show ?thesis
      using Inl m by (simp add: bsearch_lesseql_uword_def bsearch_greatereql_uword_def)
  next
    case (Inr p)
    obtain l h where p: "p = (l, h)" by fastforce
    with C Inr have c: "l = h + 1" "0 \<le> l" "h < int (length array)"
      "\<forall>i<nat l. array ! i < item" "\<forall>i<length array. nat l \<le> i \<longrightarrow> item < array ! i" by simp_all
    have "array ! i < item" if "i < nat l" for i using c(4) that by blast
    moreover have "item < array ! i" if "nat l \<le> i" "i < length array" for i using c(5) that by blast
    moreover have "nat l \<le> length array" using c(1,3) by linarith
    ultimately have "rank_le item array = nat l" "rank_less item array = nat l"
      unfolding rank_le_def rank_less_def length_filter_conv_card
      by (intro card_initial; force simp: not_le not_less)+
    moreover have "(if 0 \<le> h then h else - 1) = int (nat l) - 1"
      "(if l < int (length array) then l else - 1) = (if nat l < length array then int (nat l) else - 1)"
      using c(1,2) by auto
    ultimately show ?thesis
      using Inr p by (simp only: bsearch_lesseql_uword_def bsearch_greatereql_uword_def sum.case prod.case)
  qed
  then show "bsearch_lesseql_uword item array = int (rank_le item array) - 1"
    "bsearch_greatereql_uword item array =
       (if rank_less item array < length array then int (rank_less item array) else - 1)" by auto
qed

section \<open>Brothertrees\<close>

text \<open>A node in the heap: unary, or binary with its key and children. A fringe node is shorter
  and has no child slots. \<open>fwd\<close> is where a node has moved to, as \<open>follow_fp\<close> sees it.\<close>

datatype brothertree_node =
    UnaryNode lispobj
  | BinaryNode uword bool lispobj lispobj

record brothertree_heap =
  node_at :: "lispobj \<Rightarrow> brothertree_node option"
  fwd :: "lispobj \<Rightarrow> lispobj option"
  nil_obj :: lispobj

definition node_follow_fp :: "brothertree_heap \<Rightarrow> lispobj \<Rightarrow> lispobj" where
  "node_follow_fp h p = (case fwd h p of Some q \<Rightarrow> q | None \<Rightarrow> p)"

text \<open>The children of a binary node as the searches read them.\<close>

definition node_children :: "brothertree_heap \<Rightarrow> bool \<Rightarrow> lispobj \<Rightarrow> lispobj \<Rightarrow> lispobj \<times> lispobj" where
  "node_children h fringe left right = (if fringe then (nil_obj h, nil_obj h) else (left, right))"

fun brothertree_find_eql :: "brothertree_heap \<Rightarrow> nat \<Rightarrow> uword \<Rightarrow> lispobj \<Rightarrow> lispobj option" where
  "brothertree_find_eql h 0 key tree = None"
| "brothertree_find_eql h (Suc fuel) key tree =
     (if tree = nil_obj h then Some 0
      else let tree = node_follow_fp h tree
           in case node_at h tree of
                None \<Rightarrow> None
              | Some (UnaryNode child) \<Rightarrow> brothertree_find_eql h fuel key child
              | Some (BinaryNode uw_key fringe left right) \<Rightarrow>
                  if uw_key = key then Some tree
                  else let (l, r) = node_children h fringe left right
                       in if key < uw_key then brothertree_find_eql h fuel key l
                          else brothertree_find_eql h fuel key r)"

fun brothertree_lesseql_loop ::
  "brothertree_heap \<Rightarrow> nat \<Rightarrow> uword \<Rightarrow> lispobj \<Rightarrow> lispobj \<Rightarrow> lispobj option" where
  "brothertree_lesseql_loop h 0 key tree best = None"
| "brothertree_lesseql_loop h (Suc fuel) key tree best =
     (if tree = nil_obj h then Some best
      else let tree = node_follow_fp h tree
           in case node_at h tree of
                None \<Rightarrow> None
              | Some (UnaryNode child) \<Rightarrow> brothertree_lesseql_loop h fuel key child best
              | Some (BinaryNode uw_key fringe left right) \<Rightarrow>
                  if uw_key = key then Some tree
                  else let (l, r) = node_children h fringe left right
                       in if key < uw_key then brothertree_lesseql_loop h fuel key l best
                          else brothertree_lesseql_loop h fuel key r tree)"

definition brothertree_find_lesseql ::
  "brothertree_heap \<Rightarrow> nat \<Rightarrow> uword \<Rightarrow> lispobj \<Rightarrow> lispobj option" where
  "brothertree_find_lesseql h fuel key tree = brothertree_lesseql_loop h fuel key tree (nil_obj h)"

fun brothertree_greatereql_loop ::
  "brothertree_heap \<Rightarrow> nat \<Rightarrow> uword \<Rightarrow> lispobj \<Rightarrow> lispobj \<Rightarrow> lispobj option" where
  "brothertree_greatereql_loop h 0 key tree best = None"
| "brothertree_greatereql_loop h (Suc fuel) key tree best =
     (if tree = nil_obj h then Some best
      else let tree = node_follow_fp h tree
           in case node_at h tree of
                None \<Rightarrow> None
              | Some (UnaryNode child) \<Rightarrow> brothertree_greatereql_loop h fuel key child best
              | Some (BinaryNode uw_key fringe left right) \<Rightarrow>
                  if uw_key = key then Some tree
                  else let (l, r) = node_children h fringe left right
                       in if key > uw_key then brothertree_greatereql_loop h fuel key r best
                          else brothertree_greatereql_loop h fuel key l tree)"

definition brothertree_find_greatereql ::
  "brothertree_heap \<Rightarrow> nat \<Rightarrow> uword \<Rightarrow> lispobj \<Rightarrow> lispobj option" where
  "brothertree_find_greatereql h fuel key tree =
     brothertree_greatereql_loop h fuel key tree (nil_obj h)"

text \<open>The abstract tree a pointer designates, its entries in order and its height.\<close>

datatype bro = Empty | One bro | Two bro uword lispobj bro

fun tree_at :: "brothertree_heap \<Rightarrow> lispobj \<Rightarrow> bro \<Rightarrow> bool" where
  "tree_at h p Empty \<longleftrightarrow> p = nil_obj h"
| "tree_at h p (One t) \<longleftrightarrow> p \<noteq> nil_obj h \<and>
     (\<exists>c. node_at h (node_follow_fp h p) = Some (UnaryNode c) \<and> tree_at h c t)"
| "tree_at h p (Two l k a r) \<longleftrightarrow> p \<noteq> nil_obj h \<and> a = node_follow_fp h p \<and>
     (\<exists>fringe lp rp. node_at h a = Some (BinaryNode k fringe lp rp) \<and>
        tree_at h (fst (node_children h fringe lp rp)) l \<and>
        tree_at h (snd (node_children h fringe lp rp)) r)"

fun entries :: "bro \<Rightarrow> (uword \<times> lispobj) list" where
  "entries Empty = []"
| "entries (One t) = entries t"
| "entries (Two l k a r) = entries l @ (k, a) # entries r"

fun height :: "bro \<Rightarrow> nat" where
  "height Empty = 0"
| "height (One t) = Suc (height t)"
| "height (Two l k a r) = Suc (max (height l) (height r))"

definition key_sorted :: "(uword \<times> lispobj) list \<Rightarrow> bool" where
  "key_sorted es \<longleftrightarrow> sorted_wrt (<) (map fst es)"

text \<open>The entry a search should find: the last at most, the first at least, the key.\<close>

definition floor_entry :: "uword \<Rightarrow> (uword \<times> lispobj) list \<Rightarrow> lispobj \<Rightarrow> lispobj" where
  "floor_entry key es d = (let fs = filter (\<lambda>e. fst e \<le> key) es in if fs = [] then d else snd (last fs))"

definition ceiling_entry :: "uword \<Rightarrow> (uword \<times> lispobj) list \<Rightarrow> lispobj \<Rightarrow> lispobj" where
  "ceiling_entry key es d = (let fs = filter (\<lambda>e. key \<le> fst e) es in if fs = [] then d else snd (hd fs))"

lemma key_sorted_append:
  "key_sorted (xs @ (k, a) # ys) \<longleftrightarrow> key_sorted xs \<and> key_sorted ys \<and>
     (\<forall>e\<in>set xs. fst e < k) \<and> (\<forall>e\<in>set ys. k < fst e)"
  by (auto simp: key_sorted_def sorted_wrt_append dest: less_trans)

lemma floor_cases:
  assumes "key_sorted (xs @ (k, a) # ys)"
  shows "key < k \<Longrightarrow> floor_entry key (xs @ (k, a) # ys) d = floor_entry key xs d"
    "k < key \<Longrightarrow> floor_entry key (xs @ (k, a) # ys) d = floor_entry key ys a"
    "k = key \<Longrightarrow> floor_entry key (xs @ (k, a) # ys) d = a"
proof -
  have s: "\<forall>e\<in>set xs. fst e < k" "\<forall>e\<in>set ys. k < fst e"
    using assms by (auto simp: key_sorted_append)
  show "floor_entry key (xs @ (k, a) # ys) d = floor_entry key xs d" if "key < k"
  proof -
    have "filter (\<lambda>e. fst e \<le> key) ys = []" using s(2) that by (force simp: filter_empty_conv)
    moreover have "\<not> k \<le> key" using that by simp
    ultimately show ?thesis by (simp add: floor_entry_def)
  qed
  show "floor_entry key (xs @ (k, a) # ys) d = floor_entry key ys a" if "k < key"
    using that by (simp add: floor_entry_def Let_def less_imp_le)
  show "floor_entry key (xs @ (k, a) # ys) d = a" if "k = key"
  proof -
    have "filter (\<lambda>e. fst e \<le> key) ys = []" using s(2) that by (force simp: filter_empty_conv)
    then show ?thesis using that by (simp add: floor_entry_def)
  qed
qed

lemma ceiling_cases:
  assumes "key_sorted (xs @ (k, a) # ys)"
  shows "k < key \<Longrightarrow> ceiling_entry key (xs @ (k, a) # ys) d = ceiling_entry key ys d"
    "key < k \<Longrightarrow> ceiling_entry key (xs @ (k, a) # ys) d = ceiling_entry key xs a"
    "k = key \<Longrightarrow> ceiling_entry key (xs @ (k, a) # ys) d = a"
proof -
  have s: "\<forall>e\<in>set xs. fst e < k" "\<forall>e\<in>set ys. k < fst e"
    using assms by (auto simp: key_sorted_append)
  have xs: "filter (\<lambda>e. key \<le> fst e) xs = []" if "k \<le> key"
    using s(1) that by (force simp: filter_empty_conv)
  show "ceiling_entry key (xs @ (k, a) # ys) d = ceiling_entry key ys d" if "k < key"
  proof -
    have "\<not> key \<le> k" using that by simp
    then show ?thesis using xs[OF less_imp_le[OF that]] by (simp add: ceiling_entry_def)
  qed
  show "ceiling_entry key (xs @ (k, a) # ys) d = a" if "k = key"
    using xs that by (simp add: ceiling_entry_def)
  show "ceiling_entry key (xs @ (k, a) # ys) d = ceiling_entry key xs a" if "key < k"
    using that by (simp add: ceiling_entry_def Let_def less_imp_le hd_append)
qed

lemma lesseql_loop_correct:
  assumes "tree_at h p t" "key_sorted (entries t)" "height t < fuel"
  shows "brothertree_lesseql_loop h fuel key p best = Some (floor_entry key (entries t) best)"
  using assms
proof (induction t arbitrary: p fuel best)
  case Empty
  then show ?case by (cases fuel) (simp_all add: floor_entry_def)
next
  case (One t)
  then show ?case by (cases fuel) auto
next
  case (Two l k a r)
  obtain f where f: "fuel = Suc f" "height l < f" "height r < f"
    using Two.prems(3) by (cases fuel) auto
  obtain fr lp rp where n: "p \<noteq> nil_obj h" "a = node_follow_fp h p"
    "node_at h a = Some (BinaryNode k fr lp rp)"
    "tree_at h (fst (node_children h fr lp rp)) l" "tree_at h (snd (node_children h fr lp rp)) r"
    using Two.prems(1) by auto
  have s: "key_sorted (entries l @ (k, a) # entries r)" using Two.prems(2) by simp
  then have sl: "key_sorted (entries l)" "key_sorted (entries r)" by (simp_all add: key_sorted_append)
  note F = floor_cases[OF s, of key best]
  consider "key < k" "k \<noteq> key" "\<not> k < key" | "k < key" "k \<noteq> key" "\<not> key < k" | "k = key"
    by (metis less_asym less_irrefl linorder_cases)
  then show ?case
  proof cases
    case 1
    then show ?thesis using n f F(1) Two.IH(1)[OF n(4) sl(1) f(2), of best]
      by (simp add: Let_def split_beta)
  next
    case 2
    then show ?thesis using n f F(2) Two.IH(2)[OF n(5) sl(2) f(3), of a]
      by (simp add: Let_def split_beta)
  next
    case 3
    then show ?thesis using n f F(3) by (simp add: Let_def)
  qed
qed

lemma greatereql_loop_correct:
  assumes "tree_at h p t" "key_sorted (entries t)" "height t < fuel"
  shows "brothertree_greatereql_loop h fuel key p best = Some (ceiling_entry key (entries t) best)"
  using assms
proof (induction t arbitrary: p fuel best)
  case Empty
  then show ?case by (cases fuel) (simp_all add: ceiling_entry_def)
next
  case (One t)
  then show ?case by (cases fuel) auto
next
  case (Two l k a r)
  obtain f where f: "fuel = Suc f" "height l < f" "height r < f"
    using Two.prems(3) by (cases fuel) auto
  obtain fr lp rp where n: "p \<noteq> nil_obj h" "a = node_follow_fp h p"
    "node_at h a = Some (BinaryNode k fr lp rp)"
    "tree_at h (fst (node_children h fr lp rp)) l" "tree_at h (snd (node_children h fr lp rp)) r"
    using Two.prems(1) by auto
  have s: "key_sorted (entries l @ (k, a) # entries r)" using Two.prems(2) by simp
  then have sl: "key_sorted (entries l)" "key_sorted (entries r)" by (simp_all add: key_sorted_append)
  note F = ceiling_cases[OF s, of key best]
  consider "key < k" "k \<noteq> key" "\<not> k < key" | "k < key" "k \<noteq> key" "\<not> key < k" | "k = key"
    by (metis less_asym less_irrefl linorder_cases)
  then show ?case
  proof cases
    case 1
    then show ?thesis using n f F(2) Two.IH(1)[OF n(4) sl(1) f(2), of a]
      by (simp add: Let_def split_beta)
  next
    case 2
    then show ?thesis using n f F(1) Two.IH(2)[OF n(5) sl(2) f(3), of best]
      by (simp add: Let_def split_beta)
  next
    case 3
    then show ?thesis using n f F(3) by (simp add: Let_def)
  qed
qed

lemma find_eql_correct:
  assumes "tree_at h p t" "key_sorted (entries t)" "height t < fuel"
  shows "brothertree_find_eql h fuel key p =
    Some (case map_of (entries t) key of Some a \<Rightarrow> a | None \<Rightarrow> 0)"
  using assms
proof (induction t arbitrary: p fuel)
  case Empty
  then show ?case by (cases fuel) simp_all
next
  case (One t)
  then show ?case by (cases fuel) auto
next
  case (Two l k a r)
  obtain f where f: "fuel = Suc f" "height l < f" "height r < f"
    using Two.prems(3) by (cases fuel) auto
  obtain fr lp rp where n: "p \<noteq> nil_obj h" "a = node_follow_fp h p"
    "node_at h a = Some (BinaryNode k fr lp rp)"
    "tree_at h (fst (node_children h fr lp rp)) l" "tree_at h (snd (node_children h fr lp rp)) r"
    using Two.prems(1) by auto
  have s: "key_sorted (entries l @ (k, a) # entries r)" using Two.prems(2) by simp
  then have sl: "key_sorted (entries l)" "key_sorted (entries r)"
    and lr: "\<forall>e\<in>set (entries l). fst e < k" "\<forall>e\<in>set (entries r). k < fst e"
    by (simp_all add: key_sorted_append)
  have nl: "map_of (entries l) key = None" if "k \<le> key"
    using lr(1) that by (force simp: map_of_eq_None_iff)
  have nr: "map_of (entries r) key = None" if "key \<le> k"
    using lr(2) that by (force simp: map_of_eq_None_iff)
  consider "key < k" "k \<noteq> key" "\<not> k < key" | "k < key" "k \<noteq> key" "\<not> key < k" | "k = key"
    by (metis less_asym less_irrefl linorder_cases)
  then show ?case
  proof cases
    case 1
    then show ?thesis using n f nr Two.IH(1)[OF n(4) sl(1) f(2)]
      by (auto simp: Let_def split_beta map_add_def split: option.split)
  next
    case 2
    then show ?thesis using n f nl Two.IH(2)[OF n(5) sl(2) f(3)]
      by (auto simp: Let_def split_beta map_add_def split: option.split)
  next
    case 3
    then show ?thesis using n f nl by (simp add: Let_def map_add_def)
  qed
qed

section \<open>The split-ordered list\<close>

text \<open>List nodes by address; \<open>node_next\<close> of a deleted node has lost its tag bits.\<close>

record solist_node =
  node_hash :: uword
  so_key :: lispobj
  node_next :: lispobj

record split_ordered_list =
  so_bins :: "lispobj list"
  so_shift :: nat
  so_node :: "uword \<Rightarrow> solist_node option"
  so_tail :: lispobj

definition so_full_hash :: "lispobj \<Rightarrow> uword" where
  "so_full_hash key = drop_bit 2 (11400714819323198485 * key) OR 1"

text \<open>\<open>while ((nodeptr & WIDETAG_MASK) == UNBOUND_MARKER_WIDETAG) nodeptr = bins->data[--bin_index]\<close>;
  \<open>None\<close> when even bin 0 is unbound.\<close>

fun so_bin :: "lispobj list \<Rightarrow> nat \<Rightarrow> lispobj option" where
  "so_bin bins 0 =
     (if bins ! 0 AND WIDETAG_MASK = UNBOUND_MARKER_WIDETAG then None else Some (bins ! 0))"
| "so_bin bins (Suc i) =
     (if bins ! Suc i AND WIDETAG_MASK = UNBOUND_MARKER_WIDETAG then so_bin bins i
      else Some (bins ! Suc i))"

text \<open>The walk: \<open>Some 0\<close> is the return of a null pointer.\<close>

fun so_walk :: "split_ordered_list \<Rightarrow> nat \<Rightarrow> lispobj \<Rightarrow> uword \<Rightarrow> uword \<Rightarrow> uword option" where
  "so_walk s 0 key hash_as_fixnum node = None"
| "so_walk s (Suc fuel) key hash_as_fixnum node =
     (case so_node s node of
        None \<Rightarrow> None
      | Some n \<Rightarrow>
          if node_hash n = hash_as_fixnum \<and> so_key n = key \<and> lowtag_of (node_next n) \<noteq> 0
          then Some node
          else if node_hash n > hash_as_fixnum \<or> node_next n = so_tail s then Some 0
          else so_walk s fuel key hash_as_fixnum (native_pointer (node_next n)))"

definition split_ordered_list_find :: "split_ordered_list \<Rightarrow> nat \<Rightarrow> lispobj \<Rightarrow> uword option" where
  "split_ordered_list_find s fuel key =
     (let full_hash = so_full_hash key;
          bin_index = unat (drop_bit (so_shift s) full_hash)
      in case so_bin (so_bins s) bin_index of
           None \<Rightarrow> None
         | Some nodeptr \<Rightarrow> so_walk s fuel key (make_fixnum full_hash) (native_pointer nodeptr))"

text \<open>The list from a node on. The last node points at the tail, without tag bits if it is deleted;
  the nodes before it point at nodes.\<close>

fun so_list :: "split_ordered_list \<Rightarrow> uword \<Rightarrow> (uword \<times> solist_node) list \<Rightarrow> bool" where
  "so_list s a [] \<longleftrightarrow> False"
| "so_list s a [(b, n)] \<longleftrightarrow> a = b \<and> so_node s a = Some n \<and>
     (node_next n = so_tail s \<or> node_next n = native_pointer (so_tail s))"
| "so_list s a ((b, n) # m # ns) \<longleftrightarrow> a = b \<and> so_node s a = Some n \<and>
     native_pointer (node_next n) \<noteq> native_pointer (so_tail s) \<and>
     so_list s (native_pointer (node_next n)) (m # ns)"

definition so_hit :: "lispobj \<Rightarrow> uword \<times> solist_node \<Rightarrow> bool" where
  "so_hit key e \<longleftrightarrow> node_hash (snd e) = make_fixnum (so_full_hash key) \<and> so_key (snd e) = key \<and>
     lowtag_of (node_next (snd e)) \<noteq> 0"

text \<open>The first hit in the list, 0 when there is none.\<close>

definition so_lookup :: "lispobj \<Rightarrow> (uword \<times> solist_node) list \<Rightarrow> uword" where
  "so_lookup key ns = (case List.find (so_hit key) ns of Some e \<Rightarrow> fst e | None \<Rightarrow> 0)"

definition so_sorted :: "(uword \<times> solist_node) list \<Rightarrow> bool" where
  "so_sorted ns \<longleftrightarrow> sorted (map (node_hash \<circ> snd) ns)"

text \<open>What stops the walk inside the list: the last node is not deleted, some node is a hit, or the
  last hash is above that of the key.\<close>

definition so_walk_ends :: "split_ordered_list \<Rightarrow> lispobj \<Rightarrow> (uword \<times> solist_node) list \<Rightarrow> bool" where
  "so_walk_ends s key ns \<longleftrightarrow> node_next (snd (last ns)) = so_tail s \<or> list_ex (so_hit key) ns \<or>
     make_fixnum (so_full_hash key) < node_hash (snd (last ns))"

text \<open>Every initialised bin points into the list, past only nodes of lower bins.\<close>

definition so_bins_ok :: "split_ordered_list \<Rightarrow> (uword \<times> solist_node) list \<Rightarrow> bool" where
  "so_bins_ok s ns \<longleftrightarrow> so_bins s ! 0 AND WIDETAG_MASK \<noteq> UNBOUND_MARKER_WIDETAG \<and>
     (\<forall>i<length (so_bins s). so_bins s ! i AND WIDETAG_MASK \<noteq> UNBOUND_MARKER_WIDETAG \<longrightarrow>
       (\<exists>pre suf. ns = pre @ suf \<and> so_list s (native_pointer (so_bins s ! i)) suf \<and>
          (\<forall>e\<in>set pre. unat (node_hash (snd e)) < 2 * (i * 2 ^ so_shift s))))"

lemma so_walk_correct:
  assumes "so_list s a ns" "so_sorted ns" "length ns \<le> fuel" "so_walk_ends s key ns"
  shows "so_walk s fuel key (make_fixnum (so_full_hash key)) a = Some (so_lookup key ns)"
  using assms
proof (induction ns arbitrary: a fuel)
  case Nil
  then show ?case by simp
next
  case (Cons e ns)
  obtain f where f: "fuel = Suc f" "length ns \<le> f" using Cons.prems(3) by (cases fuel) auto
  obtain b n where e: "e = (b, n)" by fastforce
  have n: "b = a" "so_node s a = Some n" using Cons.prems(1) e by (cases ns; auto)+
  show ?case
  proof (cases "so_hit key e")
    case True
    then show ?thesis using e n f by (simp add: so_hit_def so_lookup_def)
  next
    case False
    then have nh: "\<not> (node_hash n = make_fixnum (so_full_hash key) \<and> so_key n = key \<and>
        lowtag_of (node_next n) \<noteq> 0)" using e by (simp add: so_hit_def)
    have lk: "so_lookup key (e # ns) = so_lookup key ns" using False by (simp add: so_lookup_def)
    show ?thesis
    proof (cases "node_hash n > make_fixnum (so_full_hash key) \<or> node_next n = so_tail s")
      case True
      have "so_lookup key ns = 0"
      proof (cases "node_next n = so_tail s")
        case True
        then have "ns = []" using Cons.prems(1) e by (cases ns) auto
        then show ?thesis by (simp add: so_lookup_def)
      next
        case False
        with True have gt: "make_fixnum (so_full_hash key) < node_hash n" by simp
        have "\<not> so_hit key x" if "x \<in> set ns" for x
        proof -
          have "node_hash n \<le> node_hash (snd x)"
            using Cons.prems(2) that e by (auto simp: so_sorted_def)
          with gt have "make_fixnum (so_full_hash key) < node_hash (snd x)" by (rule less_le_trans)
          then show ?thesis by (auto simp: so_hit_def)
        qed
        then have "List.find (so_hit key) ns = None" by (simp add: find_None_iff)
        then show ?thesis by (simp add: so_lookup_def)
      qed
      then show ?thesis using True n f nh lk by auto
    next
      case False
      then have "ns \<noteq> []"
        using Cons.prems(4) nh e False \<open>\<not> so_hit key e\<close> by (auto simp: so_walk_ends_def)
      then obtain m ms where ns: "ns = m # ms" by (cases ns) auto
      have "so_list s (native_pointer (node_next n)) ns" using Cons.prems(1) e ns by simp
      moreover have "so_sorted ns" using Cons.prems(2) by (simp add: so_sorted_def)
      moreover have "so_walk_ends s key ns"
        using Cons.prems(4) ns \<open>\<not> so_hit key e\<close> by (simp add: so_walk_ends_def)
      ultimately have "so_walk s f key (make_fixnum (so_full_hash key))
          (native_pointer (node_next n)) = Some (so_lookup key ns)"
        using f(2) by (intro Cons.IH)
      then show ?thesis using False n f nh lk by auto
    qed
  qed
qed

text \<open>
  Otherwise the walk does not see the end of the list: the pointer of the deleted last node is not
  the tagged tail, and the tail itself is read as if it were a node.
\<close>

lemma so_walk_passes_deleted_tail:
  assumes "so_list s a ns" "so_sorted ns" "\<not> so_walk_ends s key ns"
  shows "so_walk s (length ns + fuel) key (make_fixnum (so_full_hash key)) a =
    so_walk s fuel key (make_fixnum (so_full_hash key)) (native_pointer (so_tail s))"
  using assms
proof (induction ns arbitrary: a)
  case Nil
  then show ?case by simp
next
  case (Cons e ns)
  obtain b n where e: "e = (b, n)" by fastforce
  have n: "b = a" "so_node s a = Some n" using Cons.prems(1) e by (cases ns; auto)+
  have "node_hash n \<le> node_hash (snd (last (e # ns)))"
    using Cons.prems(2) last_in_set[of "e # ns"] e by (auto simp: so_sorted_def)
  then have le: "\<not> make_fixnum (so_full_hash key) < node_hash n"
    using Cons.prems(3) by (auto simp: so_walk_ends_def)
  have nt: "node_next n \<noteq> so_tail s"
    using Cons.prems(1,3) e by (cases ns) (auto simp: so_walk_ends_def)
  have step: "so_walk s (Suc f) key (make_fixnum (so_full_hash key)) a =
      so_walk s f key (make_fixnum (so_full_hash key)) (native_pointer (node_next n))" for f
    using Cons.prems(3) n le nt e by (auto simp: so_walk_ends_def so_hit_def)
  note prems = Cons.prems and ih = Cons.IH
  show ?case
  proof (cases ns)
    case Nil
    then show ?thesis using step[of fuel] nt Cons.prems(1) e by (auto simp: native_pointer_def)
  next
    case nse: (Cons m ms)
    have "so_list s (native_pointer (node_next n)) ns" "so_sorted ns" "\<not> so_walk_ends s key ns"
      using prems nse e by (simp_all add: so_sorted_def so_walk_ends_def)
    then show ?thesis using ih step[of "length ns + fuel"] by simp
  qed
qed

lemma so_bin_Some:
  assumes "bins ! 0 AND WIDETAG_MASK \<noteq> UNBOUND_MARKER_WIDETAG"
  shows "\<exists>j\<le>i. so_bin bins i = Some (bins ! j) \<and> bins ! j AND WIDETAG_MASK \<noteq> UNBOUND_MARKER_WIDETAG"
proof (induction i)
  case 0
  then show ?case using assms by simp
next
  case (Suc i)
  then show ?case
  proof (cases "bins ! Suc i AND WIDETAG_MASK = UNBOUND_MARKER_WIDETAG")
    case True
    with Suc show ?thesis by (auto intro: le_SucI)
  next
    case False
    then show ?thesis by (intro exI[of _ "Suc i"]) simp
  qed
qed

lemma unat_full_hash: "unat (so_full_hash key) < 2 ^ 62"
proof -
  have "so_full_hash key = take_bit 62 (so_full_hash key)"
    by (rule bit_word_eqI) (auto simp: so_full_hash_def bit_simps bit_1_iff dest: word_bit_length)
  then have "unat (so_full_hash key) = unat (so_full_hash key) mod 2 ^ 62"
    by (metis take_bit_eq_mod unsigned_take_bit_eq)
  then show ?thesis by (metis mod_less_divisor zero_less_numeral zero_less_power)
qed

lemma unat_make_fixnum:
  assumes "unat n < 2 ^ 63"
  shows "unat (make_fixnum n) = 2 * unat n"
  using assms by (simp add: make_fixnum_def N_FIXNUM_TAG_BITS_def unat_mult_lem[THEN iffD1] mult.commute)

section \<open>The object around an address\<close>

text \<open>\<open>next_object\<close> of \<open>gencgc-impl.h\<close>, on byte addresses; sizes are in words of 8 bytes.\<close>

definition next_object :: "nat \<Rightarrow> nat \<Rightarrow> nat \<Rightarrow> nat option" where
  "next_object previous sz limit =
     (if previous + 8 * sz \<ge> limit then None else Some (previous + 8 * sz))"

partial_function (option) gc_search_loop ::
  "(nat \<Rightarrow> nat) \<Rightarrow> nat \<Rightarrow> nat \<Rightarrow> nat option \<Rightarrow> nat option option" where
  "gc_search_loop osize pointer limit wh =
     (if wh = None then Some None
      else if pointer < the wh + 8 * osize (the wh) then Some wh
      else gc_search_loop osize pointer limit (next_object (the wh) (osize (the wh)) limit))"

definition gc_search_space3 :: "(nat \<Rightarrow> nat) \<Rightarrow> nat \<Rightarrow> nat \<Rightarrow> nat \<Rightarrow> nat option option" where
  "gc_search_space3 osize pointer start limit =
     (if pointer < start \<or> pointer \<ge> limit then Some None
      else gc_search_loop osize pointer limit (next_object start 0 limit))"

text \<open>The objects that fill a space from \<open>start\<close> to \<open>limit\<close>, all of positive size; the last
  may end past the limit.\<close>

fun tiled :: "(nat \<Rightarrow> nat) \<Rightarrow> nat \<Rightarrow> nat \<Rightarrow> nat list \<Rightarrow> bool" where
  "tiled osize w limit [] \<longleftrightarrow> limit \<le> w"
| "tiled osize w limit (a # as) \<longleftrightarrow> w < limit \<and> a = w \<and> 0 < osize w \<and>
     tiled osize (w + 8 * osize w) limit as"

lemma gc_search_loop_correct:
  assumes "tiled osize w limit as" "w \<le> pointer" "pointer < limit"
  shows "\<exists>a\<in>set as. gc_search_loop osize pointer limit (next_object w 0 limit) = Some (Some a) \<and>
    a \<le> pointer \<and> pointer < a + 8 * osize a"
  using assms
proof (induction as arbitrary: w)
  case Nil
  then show ?case by simp
next
  case (Cons a as)
  have a: "a = w" "w < limit" using Cons.prems(1) by auto
  then have no: "next_object w 0 limit = Some w" by (simp add: next_object_def)
  show ?case
  proof (cases "pointer < w + 8 * osize w")
    case True
    then show ?thesis using a no Cons.prems(2) by (simp add: gc_search_loop.simps)
  next
    case False
    have "next_object w (osize w) limit = next_object (w + 8 * osize w) 0 limit"
      by (simp add: next_object_def)
    then show ?thesis
      using False a no Cons.prems Cons.IH[of "w + 8 * osize w"]
      by (subst gc_search_loop.simps) auto
  qed
qed

section \<open>The index of a simple-fun\<close>

text \<open>\<open>offsets\<close> are the increasing offsets of the functions from the start of the code's
  instructions, the order in which the table is indexed downwards from its end; \<open>fun\<close> is the
  sought address less that start.\<close>

function fun_index_loop :: "nat list \<Rightarrow> nat \<Rightarrow> int \<Rightarrow> int \<Rightarrow> int" where
  "fun_index_loop offsets fn mn mx =
     (if mn > mx then - 1
      else let midpoint = (mn + mx) div 2;
               guess = offsets ! nat midpoint
           in if guess = fn then midpoint
              else if guess > fn then fun_index_loop offsets fn mn (midpoint - 1)
              else fun_index_loop offsets fn (midpoint + 1) mx)"
  by pat_completeness auto
termination
  by (relation "measure (\<lambda>(offsets, fn, mn, mx). nat (mx - mn + 1))") auto

declare fun_index_loop.simps [simp del]

definition simple_fun_index :: "nat list \<Rightarrow> nat \<Rightarrow> int" where
  "simple_fun_index offsets fn = fun_index_loop offsets fn 0 (int (length offsets) - 1)"

lemma fun_index_correct:
  assumes "sorted_wrt (<) offsets" "0 \<le> mn" "mx < int (length offsets)"
    and "\<And>i. i < length offsets \<Longrightarrow> offsets ! i = fn \<Longrightarrow> mn \<le> int i \<and> int i \<le> mx"
  shows "let r = fun_index_loop offsets fn mn mx in
    (r = - 1 \<and> fn \<notin> set offsets) \<or> (0 \<le> r \<and> r < int (length offsets) \<and> offsets ! nat r = fn)"
  using assms
proof (induction offsets fn mn mx rule: fun_index_loop.induct)
  case (1 offsets fn mn mx)
  have lt: "offsets ! i < offsets ! j" if "i < j" "j < length offsets" for i j
    using "1.prems"(1) that by (simp add: sorted_wrt_nth_less)
  show ?case
  proof (cases "mn > mx")
    case True
    then have "fn \<notin> set offsets" using "1.prems"(4) by (force simp: in_set_conv_nth)
    then show ?thesis using True by (simp add: fun_index_loop.simps[of offsets fn mn mx])
  next
    case False
    define mid where "mid = (mn + mx) div 2"
    have m: "mn \<le> mid" "mid \<le> mx" using False by (simp_all add: mid_def)
    consider "offsets ! nat mid = fn" | "offsets ! nat mid \<noteq> fn" "offsets ! nat mid > fn"
      | "offsets ! nat mid \<noteq> fn" "\<not> offsets ! nat mid > fn" by blast
    then show ?thesis
    proof cases
      case 1
      then have "fun_index_loop offsets fn mn mx = mid"
        using False by (subst fun_index_loop.simps) (simp add: mid_def)
      then show ?thesis using 1 m "1.prems"(2,3) by (simp add: Let_def)
    next
      case 2
      have st: "fun_index_loop offsets fn mn mx = fun_index_loop offsets fn mn (mid - 1)"
        using False 2 by (subst fun_index_loop.simps) (simp add: mid_def)
      have "int i \<le> mid - 1" if "i < length offsets" "offsets ! i = fn" for i
      proof (rule ccontr)
        assume "\<not> int i \<le> mid - 1"
        then have "nat mid < i \<or> nat mid = i" using m "1.prems"(2) by linarith
        then show False using that 2 lt[of "nat mid" i] by auto
      qed
      then show ?thesis
        unfolding st using "1.IH"(1)[OF False mid_def refl 2 "1.prems"(1,2)] "1.prems"(3,4) m
        by auto
    next
      case 3
      have st: "fun_index_loop offsets fn mn mx = fun_index_loop offsets fn (mid + 1) mx"
        using False 3 by (subst fun_index_loop.simps) (simp add: mid_def)
      have "mid + 1 \<le> int i" if "i < length offsets" "offsets ! i = fn" for i
      proof (rule ccontr)
        assume "\<not> mid + 1 \<le> int i"
        then have "i < nat mid \<or> nat mid = i" "nat mid < length offsets"
          using m "1.prems"(2,3) by linarith+
        then show False using that 3 lt[of i "nat mid"] by auto
      qed
      then show ?thesis
        unfolding st using "1.IH"(2)[OF False mid_def refl 3 "1.prems"(1)] "1.prems"(2,3,4) m
        by auto
    qed
  qed
qed

section \<open>Comparing a Lisp string with a C string\<close>

text \<open>\<open>toupper\<close> in the C locale.\<close>

definition c_toupper :: "nat \<Rightarrow> nat" where
  "c_toupper c = (if 97 \<le> c \<and> c \<le> 122 then c - 32 else c)"

text \<open>The difference at the first mismatch, 0 when the C string's terminating null is reached;
  \<open>None\<close> when the Lisp string ends first.\<close>

fun strcmp_ucs4_ascii :: "u32 list \<Rightarrow> u8 list \<Rightarrow> bool \<Rightarrow> int option" where
  "strcmp_ucs4_ascii (a # as) (b # bs) ignore_case =
     (if (if ignore_case then c_toupper (unat a) = c_toupper (unat b) else unat a = unat b)
      then if b = 0 then Some 0 else strcmp_ucs4_ascii as bs ignore_case
      else Some (sint (a - ucast b)))"
| "strcmp_ucs4_ascii _ _ ignore_case = None"

section \<open>Properties\<close>

text \<open>Binary search of a sorted vector of distinct code addresses. The "less or equal"
  search returns the index of the greatest element at most the item, -1 when there is none; the
  "greater or equal" search the index of the least element at least the item, -1 when there is
  none.\<close>

theorem bsearch_correct:
  assumes "sorted_distinct array"
  shows "bsearch_lesseql_uword item array = int (rank_le item array) - 1 \<and>
    bsearch_greatereql_uword item array =
      (if rank_less item array < length array then int (rank_less item array) else - 1)"
  using bsearch_ranks[OF assms] by blast

lemma bsearch_correct_witness:
  "bsearch_lesseql_uword 25 [10, 20, 30] = int (rank_le 25 [10, 20, 30]) - 1 \<and>
   bsearch_lesseql_uword 25 [10, 20, 30] = 1 \<and> bsearch_greatereql_uword 25 [10, 20, 30] = 2"
proof -
  have "sorted_distinct [10, 20, 30]" by (simp add: sorted_distinct_def)
  from bsearch_correct[OF this, of 25] show ?thesis by code_simp
qed

text \<open>C37: The brothertree searches find what an ordered map would, in the time its height
  allows. From a pointer to a tree with increasing keys, whatever nodes have been forwarded,
  \<open>find_eql\<close> returns the node with the key (0 if none), \<open>find_lesseql\<close> the node with the
  greatest key at most the given one and \<open>find_greatereql\<close> the node with the least key at
  least it (NIL if none).\<close>

theorem brothertree_searches:
  assumes "tree_at h p t" "key_sorted (entries t)" "height t < fuel"
  shows "brothertree_find_eql h fuel key p =
      Some (case map_of (entries t) key of Some a \<Rightarrow> a | None \<Rightarrow> 0) \<and>
    brothertree_find_lesseql h fuel key p = Some (floor_entry key (entries t) (nil_obj h)) \<and>
    brothertree_find_greatereql h fuel key p = Some (ceiling_entry key (entries t) (nil_obj h))"
  using find_eql_correct[OF assms] lesseql_loop_correct[OF assms] greatereql_loop_correct[OF assms]
  by (simp add: brothertree_find_lesseql_def brothertree_find_greatereql_def)

lemma brothertree_searches_witness:
  "brothertree_find_lesseql \<lparr>node_at = [0x203 \<mapsto> BinaryNode 50 False 0x303 0x117, 0x303 \<mapsto> BinaryNode 20 True 0 0],
     fwd = [0x103 \<mapsto> 0x203], nil_obj = 0x117\<rparr> 3 40 0x103 = Some 0x303"
proof -
  let ?h = "\<lparr>node_at = [0x203 \<mapsto> BinaryNode 50 False 0x303 0x117, 0x303 \<mapsto> BinaryNode 20 True 0 0],
     fwd = [0x103 \<mapsto> 0x203], nil_obj = 0x117\<rparr>"
  let ?t = "Two (Two Empty 20 0x303 Empty) 50 0x203 Empty"
  have "tree_at ?h 0x103 ?t" by (auto simp: node_follow_fp_def node_children_def)
  moreover have "key_sorted (entries ?t)" by (simp add: key_sorted_def)
  moreover have "height ?t < 3" by simp
  ultimately have "brothertree_find_lesseql ?h 3 40 0x103 = Some (floor_entry 40 (entries ?t) (nil_obj ?h))"
    using brothertree_searches by blast
  also have "floor_entry 40 (entries ?t) (nil_obj ?h) = 0x303" by (simp add: floor_entry_def)
  finally show ?thesis .
qed

text \<open>C38: The split-ordered list. When the nodes are in hash order and every initialised bin
  leads into the list at or before its own nodes, the search started from the key's bin, or
  from the nearest initialised bin below it, finds the first node of the whole list that has the
  key and has not been deleted, and returns null when there is none. The last node, whose pointer
  to the tail has no tag bits once it is deleted, is the limit: it must not be deleted, unless the
  list has a hit or the last hash is above the key's (\<open>so_walk_ends\<close>). Otherwise the code misses
  the end of the list and reads the tail as a node (\<open>so_walk_passes_deleted_tail\<close>).\<close>

theorem split_ordered_list_search:
  assumes "so_bins_ok s ns" "so_sorted ns" "length ns \<le> fuel" "so_walk_ends s key ns"
    and "unat (drop_bit (so_shift s) (so_full_hash key)) < length (so_bins s)"
  shows "split_ordered_list_find s fuel key = Some (so_lookup key ns)"
proof -
  let ?i = "unat (drop_bit (so_shift s) (so_full_hash key))"
  obtain j where j: "j \<le> ?i" "so_bin (so_bins s) ?i = Some (so_bins s ! j)"
    "so_bins s ! j AND WIDETAG_MASK \<noteq> UNBOUND_MARKER_WIDETAG"
    using so_bin_Some[of "so_bins s" ?i] assms(1) by (auto simp: so_bins_ok_def)
  obtain pre suf where ps: "ns = pre @ suf" "so_list s (native_pointer (so_bins s ! j)) suf"
    "\<forall>e\<in>set pre. unat (node_hash (snd e)) < 2 * (j * 2 ^ so_shift s)"
    using assms(1,5) j(1,3) unfolding so_bins_ok_def by (meson le_less_trans)
  have "?i = unat (so_full_hash key) div 2 ^ so_shift s"
    by (simp only: unat_drop_bit_eq) (simp add: drop_bit_eq_div)
  then have "j * 2 ^ so_shift s \<le> unat (so_full_hash key)"
    using j(1) by (simp add: less_eq_div_iff_mult_less_eq)
  moreover have "unat (make_fixnum (so_full_hash key)) = 2 * unat (so_full_hash key)"
    using unat_full_hash[of key] by (intro unat_make_fixnum) simp
  ultimately have "node_hash (snd e) \<noteq> make_fixnum (so_full_hash key)" if "e \<in> set pre" for e
    using ps(3) that by fastforce
  then have "\<not> so_hit key e" if "e \<in> set pre" for e using that by (auto simp: so_hit_def)
  then have "List.find (so_hit key) ns = List.find (so_hit key) suf"
    unfolding ps(1) by (induction pre) auto
  then have lk: "so_lookup key ns = so_lookup key suf" by (simp add: so_lookup_def)
  have "suf \<noteq> []" using ps(2) by auto
  then have "so_walk_ends s key suf"
    using assms(4) \<open>\<And>e. e \<in> set pre \<Longrightarrow> \<not> so_hit key e\<close>
    unfolding so_walk_ends_def ps(1) by (auto simp: list_ex_iff)
  moreover have "so_sorted suf" "length suf \<le> fuel"
    using assms(2,3) ps(1) by (auto simp: so_sorted_def sorted_append)
  ultimately show ?thesis
    using so_walk_correct[OF ps(2)]
    unfolding lk by (simp add: split_ordered_list_find_def j(2))
qed

lemma split_ordered_list_search_witness:
  "split_ordered_list_find \<lparr>so_bins = [0x103], so_shift = 62, so_node = [0x100 \<mapsto>
      \<lparr>node_hash = make_fixnum (so_full_hash 1), so_key = 1, node_next = 0x117\<rparr>], so_tail = 0x117\<rparr> 1 1 =
    Some 0x100"
proof -
  let ?n = "\<lparr>node_hash = make_fixnum (so_full_hash 1), so_key = 1, node_next = 0x117\<rparr>"
  let ?s = "\<lparr>so_bins = [0x103], so_shift = 62, so_node = [0x100 \<mapsto> ?n], so_tail = 0x117\<rparr>"
  let ?ns = "[(0x100, ?n)]"
  have np: "native_pointer 0x103 = 0x100" "(0x103 :: uword) AND WIDETAG_MASK \<noteq> UNBOUND_MARKER_WIDETAG"
    "lowtag_of 0x117 \<noteq> 0" "unat (drop_bit 62 (so_full_hash 1)) < 1" by code_simp+
  have "so_list ?s (native_pointer (so_bins ?s ! 0)) ?ns" by (simp add: np)
  then have "\<exists>pre suf. ?ns = pre @ suf \<and> so_list ?s (native_pointer (so_bins ?s ! 0)) suf \<and>
      (\<forall>e\<in>set pre. unat (node_hash (snd e)) < 2 * (0 * 2 ^ so_shift ?s))"
    by (intro exI[of _ "[]"] exI[of _ ?ns]) simp
  then have "so_bins_ok ?s ?ns" unfolding so_bins_ok_def using np(2) by simp
  moreover have "so_sorted ?ns" "length ?ns \<le> 1" "so_walk_ends ?s 1 ?ns"
    by (simp_all add: so_sorted_def so_walk_ends_def)
  moreover have "unat (drop_bit (so_shift ?s) (so_full_hash 1)) < length (so_bins ?s)"
    using np(4) by (simp del: drop_bit_eq_div)
  ultimately have "split_ordered_list_find ?s 1 1 = Some (so_lookup 1 ?ns)"
    by (rule split_ordered_list_search)
  then show ?thesis by (simp add: so_lookup_def so_hit_def np(3))
qed

text \<open>C39: The linear search of a space filled with objects ends, and returns the start of the
  object that contains the address; an address outside the space gives null.\<close>

theorem gc_search_space_finds:
  assumes "tiled osize start limit objs"
  shows "if start \<le> pointer \<and> pointer < limit
    then \<exists>a\<in>set objs. gc_search_space3 osize pointer start limit = Some (Some a) \<and>
           a \<le> pointer \<and> pointer < a + 8 * osize a
    else gc_search_space3 osize pointer start limit = Some None"
proof (cases "start \<le> pointer \<and> pointer < limit")
  case True
  then show ?thesis
    using gc_search_loop_correct[OF assms] by (simp add: gc_search_space3_def not_less)
next
  case False
  then show ?thesis by (auto simp: gc_search_space3_def)
qed

lemma gc_search_space_finds_witness:
  "gc_search_space3 (\<lambda>_. 2) 0x1018 0x1000 0x1020 = Some (Some 0x1010)"
proof -
  have "tiled (\<lambda>_. 2) 0x1000 0x1020 [0x1000, 0x1010]" by simp
  from gc_search_space_finds[OF this, of "0x1018"] show ?thesis by auto
qed

text \<open>\<open>simple_fun_index\<close> returns the position of a function in its code object when one
  starts exactly at the address, and -1 otherwise.\<close>

theorem simple_fun_index_correct:
  assumes "sorted_wrt (<) offsets"
  shows "(simple_fun_index offsets fn = - 1 \<and> fn \<notin> set offsets) \<or>
    (0 \<le> simple_fun_index offsets fn \<and> simple_fun_index offsets fn < int (length offsets) \<and>
     offsets ! nat (simple_fun_index offsets fn) = fn)"
  using fun_index_correct[OF assms, of 0 "int (length offsets) - 1" fn]
  by (simp add: simple_fun_index_def Let_def)

lemma simple_fun_index_correct_witness:
  "simple_fun_index [16, 48, 80] 48 = 1 \<and> simple_fun_index [16, 48, 80] 50 = - 1"
proof -
  have s: "sorted_wrt (<) [16, 48, 80 :: nat]" by simp
  have "simple_fun_index [16, 48, 80] 48 = 1"
    using simple_fun_index_correct[OF s, of 48]
    by (auto simp: simple_fun_index_def fun_index_loop.simps)
  moreover have "simple_fun_index [16, 48, 80] 50 = - 1"
    using simple_fun_index_correct[OF s, of 50]
    by (auto simp: simple_fun_index_def fun_index_loop.simps)
  ultimately show ?thesis by blast
qed

end
