(* ===== verification/TinyLock.thy ===== *)
theory TinyLock
  imports Main
begin

text \<open>
  The futex lock of \<open>src/src/runtime/tiny-lock.h\<close> (\<open>LISP_FEATURE_SB_FUTEX\<close>), used by the
  allocator and the collector, as a step relation between threads. Every shared access of
  \<open>acquire_lock\<close> and \<open>release_lock\<close> is one step; \<open>acquire_lock_allowing_gc\<close> differs only
  in how it sleeps. \<open>futex_wait\<close> compares and sleeps atomically, as the kernel documents, and
  may return at any time; \<open>futex_wake\<close> wakes one sleeper if there is one.

  \<open>cmpxchg\<close> is built on \<open>atomic_compare_exchange_weak\<close>, which on some processors may fail
  although the expected value was present. Then it stores nothing and leaves the expected value
  in \<open>old\<close>, so \<open>cmpxchg\<close> returns what its caller takes for success. The step relation has a
  flag that permits this.
\<close>

section \<open>States\<close>

text \<open>Where a thread is: outside; after a failed exchange that returned \<open>c\<close>, at the head of
  the loop body; about to call \<open>futex_wait\<close>; asleep; at the loop's condition; holding the lock;
  in \<open>release_lock\<close> before the store, before the wake.\<close>

datatype pc = Idle | Loop nat | Wait | Asleep | Retry | Holding | Storing | Waking

record lock_state =
  grabbed :: nat
  at :: "nat \<Rightarrow> pc"

definition LOCK_INITIALIZER :: lock_state where
  "LOCK_INITIALIZER = \<lparr>grabbed = 0, at = (\<lambda>_. Idle)\<rparr>"

text \<open>The outcomes of \<open>cmpxchg(l, old, new)\<close>: the value returned and the new value of
  \<open>grabbed\<close>. On a machine whose weak exchange never fails spuriously there is one.\<close>

definition cmpxchg :: "bool \<Rightarrow> nat \<Rightarrow> nat \<Rightarrow> nat \<Rightarrow> (nat \<times> nat) list" where
  "cmpxchg spurious g old new =
     (if g = old then (old, new) # (if spurious then [(old, g)] else []) else [(g, g)])"

definition goto :: "lock_state \<Rightarrow> nat \<Rightarrow> nat \<Rightarrow> pc \<Rightarrow> lock_state" where
  "goto s g t p = s\<lparr>grabbed := g, at := (at s)(t := p)\<rparr>"

section \<open>Steps\<close>

inductive lock_step :: "bool \<Rightarrow> lock_state \<Rightarrow> lock_state \<Rightarrow> bool" for spurious where
  acquire: "at s t = Idle \<Longrightarrow> (c, g) \<in> set (cmpxchg spurious (grabbed s) 0 1) \<Longrightarrow>
    lock_step spurious s (goto s g t (if c = 0 then Holding else Loop c))"
| contended: "at s t = Loop 2 \<Longrightarrow> lock_step spurious s (goto s (grabbed s) t Wait)"
| mark_contended: "at s t = Loop c \<Longrightarrow> c \<noteq> 2 \<Longrightarrow>
    (r, g) \<in> set (cmpxchg spurious (grabbed s) 1 2) \<Longrightarrow>
    lock_step spurious s (goto s g t (if r \<noteq> 0 then Wait else Retry))"
| sleep: "at s t = Wait \<Longrightarrow>
    lock_step spurious s (goto s (grabbed s) t (if grabbed s = 2 then Asleep else Retry))"
| wakeup: "at s t = Asleep \<Longrightarrow> lock_step spurious s (goto s (grabbed s) t Retry)"
| retry: "at s t = Retry \<Longrightarrow> (c, g) \<in> set (cmpxchg spurious (grabbed s) 0 2) \<Longrightarrow>
    lock_step spurious s (goto s g t (if c = 0 then Holding else Loop c))"
| release: "at s t = Holding \<Longrightarrow>
    lock_step spurious s (goto s (grabbed s - 1) t (if grabbed s = 1 then Idle else Storing))"
| store: "at s t = Storing \<Longrightarrow> lock_step spurious s (goto s 0 t Waking)"
| wake_none: "at s t = Waking \<Longrightarrow> (\<forall>u. at s u \<noteq> Asleep) \<Longrightarrow>
    lock_step spurious s (goto s (grabbed s) t Idle)"
| wake_one: "at s t = Waking \<Longrightarrow> at s u = Asleep \<Longrightarrow>
    lock_step spurious s (goto (goto s (grabbed s) u Retry) (grabbed s) t Idle)"
| try_acquire: "at s t = Idle \<Longrightarrow>
    lock_step spurious s (if grabbed s = 0 then goto s 1 t Holding else s)"

inductive_cases lock_stepE: "lock_step spurious s s'"

inductive lock_reachable :: "bool \<Rightarrow> lock_state \<Rightarrow> bool" for spurious where
  init: "lock_reachable spurious LOCK_INITIALIZER"
| step: "lock_reachable spurious s \<Longrightarrow> lock_step spurious s s' \<Longrightarrow> lock_reachable spurious s'"

section \<open>The invariant of the lock\<close>

text \<open>A thread owns the lock from its successful exchange to the store (or the subtraction)
  that frees it.\<close>

definition owns :: "pc \<Rightarrow> bool" where
  "owns p \<longleftrightarrow> p = Holding \<or> p = Storing"

text \<open>Threads that will look at the lock again, or wake one that will.\<close>

definition pending :: "pc \<Rightarrow> bool" where
  "pending p \<longleftrightarrow> p = Wait \<or> p = Retry \<or> p = Storing \<or> p = Waking \<or> (\<exists>c. p = Loop c)"

definition lock_inv :: "lock_state \<Rightarrow> bool" where
  "lock_inv s \<longleftrightarrow> grabbed s \<le> 2 \<and> (\<forall>t u. owns (at s t) \<longrightarrow> owns (at s u) \<longrightarrow> t = u) \<and>
     (grabbed s = 0 \<longleftrightarrow> (\<forall>t. \<not> owns (at s t))) \<and>
     ((\<exists>t. at s t = Asleep) \<longrightarrow> grabbed s = 2 \<or> (\<exists>t. pending (at s t))) \<and>
     (\<forall>t c. at s t = Loop c \<longrightarrow> c \<noteq> 0)"

lemma lock_invD:
  assumes "lock_inv s"
  shows "grabbed s \<le> 2" "owns (at s t) \<Longrightarrow> owns (at s u) \<Longrightarrow> t = u"
    "grabbed s = 0 \<longleftrightarrow> (\<forall>t. \<not> owns (at s t))"
    "at s t = Asleep \<Longrightarrow> grabbed s = 2 \<or> (\<exists>t. pending (at s t))" "at s t = Loop c \<Longrightarrow> c \<noteq> 0"
  using assms by (auto simp: lock_inv_def)

lemma pc_classes [simp]:
  "\<not> owns Idle" "\<not> owns (Loop c)" "\<not> owns Wait" "\<not> owns Asleep" "\<not> owns Retry" "owns Holding"
  "owns Storing" "\<not> owns Waking" "\<not> pending Idle" "pending (Loop c)" "pending Wait"
  "\<not> pending Asleep" "pending Retry" "\<not> pending Holding" "pending Storing" "pending Waking"
  by (auto simp: owns_def pending_def)

lemma lock_inv_goto:
  assumes I: "lock_inv s" and g: "g \<le> 2"
    and o: "owns p \<Longrightarrow> \<forall>u. u \<noteq> t \<longrightarrow> \<not> owns (at s u)"
    and z: "g = 0 \<longleftrightarrow> \<not> owns p \<and> (\<forall>u. u \<noteq> t \<longrightarrow> \<not> owns (at s u))"
    and a: "p = Asleep \<or> (\<exists>u. u \<noteq> t \<and> at s u = Asleep) \<Longrightarrow>
      g = 2 \<or> pending p \<or> (\<exists>u. u \<noteq> t \<and> pending (at s u))"
    and l: "\<And>c. p = Loop c \<Longrightarrow> c \<noteq> 0"
  shows "lock_inv (goto s g t p)"
proof -
  let ?s = "goto s g t p"
  have at: "at ?s u = (if u = t then p else at s u)" and gr: "grabbed ?s = g" for u
    by (simp_all add: goto_def)
  show ?thesis
    unfolding lock_inv_def gr
  proof (intro conjI allI impI)
    show "g \<le> 2" by (fact g)
    show "u = v" if "owns (at ?s u)" "owns (at ?s v)" for u v
      using that o lock_invD(2)[OF I, of u v] by (auto simp: at split: if_splits)
    show "(g = 0) = (\<forall>u. \<not> owns (at ?s u))" unfolding z at by auto
    show "g = 2 \<or> (\<exists>u. pending (at ?s u))" if "\<exists>u. at ?s u = Asleep"
    proof -
      have "p = Asleep \<or> (\<exists>u. u \<noteq> t \<and> at s u = Asleep)" using that by (auto simp: at split: if_splits)
      from a[OF this] show ?thesis
      proof (elim disjE exE conjE)
        fix u assume "u \<noteq> t" "pending (at s u)"
        then have "pending (at ?s u)" by (simp add: at)
        then show ?thesis by blast
      next
        assume "pending p"
        then have "pending (at ?s t)" by (simp add: at)
        then show ?thesis by blast
      qed simp
    qed
    show "c \<noteq> 0" if "at ?s u = Loop c" for u c
      using that l lock_invD(5)[OF I, of u c] by (auto simp: at split: if_splits)
  qed
qed

lemma sleepers_pending:
  assumes "lock_inv s" "\<exists>u. u \<noteq> t \<and> at s u = Asleep" "grabbed s \<noteq> 2" "\<not> pending (at s t)"
  shows "\<exists>u. u \<noteq> t \<and> pending (at s u)"
  using lock_invD(4)[OF assms(1)] assms(2-4) by metis

lemma cmpxchg_strong: "(c, g) \<in> set (cmpxchg False g0 old new) \<longleftrightarrow>
    (if g0 = old then c = old \<and> g = new else c = g0 \<and> g = g0)"
  by (auto simp: cmpxchg_def)

text \<open>A thread that does not own the lock and changes neither ownership nor \<open>grabbed\<close>.\<close>

lemma lock_inv_move:
  assumes I: "lock_inv s" and o: "\<not> owns (at s t)" "\<not> owns p" and p: "pending p"
    and l: "\<And>c. p = Loop c \<Longrightarrow> c \<noteq> 0" and g: "g \<le> 2" "g = 0 \<longleftrightarrow> grabbed s = 0"
  shows "lock_inv (goto s g t p)"
proof (rule lock_inv_goto[OF I g(1)])
  show "g = 0 \<longleftrightarrow> \<not> owns p \<and> (\<forall>u. u \<noteq> t \<longrightarrow> \<not> owns (at s u))"
    using g(2) lock_invD(3)[OF I] o by metis
qed (use o p l in auto)

lemma lock_inv_take:
  assumes I: "lock_inv s" and f: "grabbed s = 0" and g: "g = 1 \<or> g = 2"
    and a: "g = 1 \<Longrightarrow> \<not> pending (at s t)"
  shows "lock_inv (goto s g t Holding)"
proof (rule lock_inv_goto[OF I])
  have n: "\<not> owns (at s u)" for u using lock_invD(3)[OF I] f by blast
  show "g \<le> 2" using g by auto
  show "\<forall>u. u \<noteq> t \<longrightarrow> \<not> owns (at s u)" using n by blast
  show "g = 0 \<longleftrightarrow> \<not> owns Holding \<and> (\<forall>u. u \<noteq> t \<longrightarrow> \<not> owns (at s u))" using g by auto
  show "g = 2 \<or> pending Holding \<or> (\<exists>u. u \<noteq> t \<and> pending (at s u))"
    if "Holding = Asleep \<or> (\<exists>u. u \<noteq> t \<and> at s u = Asleep)"
    using that g a sleepers_pending[OF I, of t] f by auto
qed auto

lemma lock_step_inv:
  assumes I: "lock_inv s" and st: "lock_step False s s'"
  shows "lock_inv s'"
  using st
proof cases
  case (acquire t c g)
  show ?thesis
  proof (cases "grabbed s = 0")
    case True
    then have "s' = goto s 1 t Holding" using acquire by (simp add: cmpxchg_strong)
    then show ?thesis using acquire(2) by (simp add: lock_inv_take[OF I True])
  next
    case False
    then have "s' = goto s (grabbed s) t (Loop (grabbed s))" using acquire by (simp add: cmpxchg_strong)
    then show ?thesis using acquire(2) False lock_invD(1)[OF I] by (auto intro!: lock_inv_move[OF I])
  qed
next
  case (contended t)
  then show ?thesis using lock_invD(1)[OF I] by (auto intro!: lock_inv_move[OF I])
next
  case (mark_contended t c r g)
  show ?thesis
  proof (cases "grabbed s = 1")
    case True
    then have "s' = goto s 2 t Wait" using mark_contended by (simp add: cmpxchg_strong)
    then show ?thesis using mark_contended(2) True by (auto intro!: lock_inv_move[OF I])
  next
    case False
    then have "s' = goto s (grabbed s) t (if grabbed s \<noteq> 0 then Wait else Retry)"
      using mark_contended by (simp add: cmpxchg_strong)
    then show ?thesis using mark_contended(2) lock_invD(1)[OF I] by (auto intro!: lock_inv_move[OF I])
  qed
next
  case (sleep t)
  show ?thesis
  proof (cases "grabbed s = 2")
    case True
    have no: "\<not> owns (at s t)" using sleep(2) by simp
    have "lock_inv (goto s 2 t Asleep)"
    proof (rule lock_inv_goto[OF I])
      show "(2 = (0::nat)) = (\<not> owns Asleep \<and> (\<forall>u. u \<noteq> t \<longrightarrow> \<not> owns (at s u)))"
        using lock_invD(3)[OF I] True no by (metis pc_classes(4) zero_neq_numeral)
    qed simp_all
    with True sleep show ?thesis by simp
  next
    case False
    then show ?thesis using sleep lock_invD(1)[OF I] by (auto intro!: lock_inv_move[OF I])
  qed
next
  case (wakeup t)
  then show ?thesis using lock_invD(1)[OF I] by (auto intro!: lock_inv_move[OF I])
next
  case (retry t c g)
  show ?thesis
  proof (cases "grabbed s = 0")
    case True
    then have "s' = goto s 2 t Holding" using retry by (simp add: cmpxchg_strong)
    then show ?thesis by (simp add: lock_inv_take[OF I True])
  next
    case False
    then have "s' = goto s (grabbed s) t (Loop (grabbed s))" using retry by (simp add: cmpxchg_strong)
    then show ?thesis using retry(2) False lock_invD(1)[OF I] by (auto intro!: lock_inv_move[OF I])
  qed
next
  case (release t)
  have own: "\<not> owns (at s u)" if "u \<noteq> t" for u
    using lock_invD(2)[OF I, of t u] release(2) that by auto
  have g: "grabbed s = 1 \<or> grabbed s = 2"
  proof -
    have "owns (at s t)" using release(2) by simp
    then have "grabbed s \<noteq> 0" using lock_invD(3)[OF I] by blast
    then show ?thesis using lock_invD(1)[OF I] by linarith
  qed
  show ?thesis
  proof (cases "grabbed s = 1")
    case True
    have "lock_inv (goto s 0 t Idle)"
    proof (rule lock_inv_goto[OF I])
      show "0 = 2 \<or> pending Idle \<or> (\<exists>u. u \<noteq> t \<and> pending (at s u))"
        if "Idle = Asleep \<or> (\<exists>u. u \<noteq> t \<and> at s u = Asleep)"
        using sleepers_pending[OF I, of t] that True release(2) by simp
    qed (use own in simp_all)
    with True release show ?thesis by simp
  next
    case False
    have "lock_inv (goto s 1 t Storing)" by (rule lock_inv_goto[OF I]) (use own in simp_all)
    with False g release show ?thesis by auto
  qed
next
  case (store t)
  have own: "\<not> owns (at s u)" if "u \<noteq> t" for u
    using lock_invD(2)[OF I, of t u] store(2) that by auto
  have "lock_inv (goto s 0 t Waking)" by (rule lock_inv_goto[OF I]) (use own in simp_all)
  with store show ?thesis by simp
next
  case (wake_none t)
  have "lock_inv (goto s (grabbed s) t Idle)"
  proof (rule lock_inv_goto[OF I lock_invD(1)[OF I]])
    show "grabbed s = 0 \<longleftrightarrow> \<not> owns Idle \<and> (\<forall>u. u \<noteq> t \<longrightarrow> \<not> owns (at s u))"
      using lock_invD(3)[OF I] wake_none(2) by (metis pc_classes(1,8))
  qed (use wake_none(3) in simp_all)
  with wake_none show ?thesis by simp
next
  case (wake_one t u)
  have 1: "lock_inv (goto s (grabbed s) u Retry)"
    using wake_one(3) lock_invD(1)[OF I] by (auto intro!: lock_inv_move[OF I])
  have ut: "u \<noteq> t" using wake_one by auto
  let ?m = "goto s (grabbed s) u Retry"
  have m: "grabbed ?m = grabbed s" "at ?m t = Waking" "at ?m u = Retry"
    using wake_one(2) ut by (simp_all add: goto_def)
  have "lock_inv (goto ?m (grabbed ?m) t Idle)"
  proof (rule lock_inv_goto[OF 1 lock_invD(1)[OF 1]])
    show "grabbed ?m = 0 \<longleftrightarrow> \<not> owns Idle \<and> (\<forall>v. v \<noteq> t \<longrightarrow> \<not> owns (at ?m v))"
      using lock_invD(3)[OF 1] m(2) by (metis pc_classes(1,8))
    show "grabbed ?m = 2 \<or> pending Idle \<or> (\<exists>v. v \<noteq> t \<and> pending (at ?m v))"
      using m(3) ut by (metis pc_classes(13))
  qed simp_all
  with wake_one m show ?thesis by simp
next
  case (try_acquire t)
  then show ?thesis using I by (simp add: lock_inv_take[OF I])
qed

lemma lock_reachable_inv: "lock_reachable False s \<Longrightarrow> lock_inv s"
proof (induction rule: lock_reachable.induct)
  case init
  show ?case by (auto simp: lock_inv_def LOCK_INITIALIZER_def)
next
  case (step s s')
  then show ?case by (blast intro: lock_step_inv)
qed

section \<open>Properties\<close>

text \<open>C33: Mutual exclusion and no lost wakeup. In every state that threads can reach through
  any interleaving of acquisitions, releases and trials, at most one thread owns the lock, the
  lock word is 0 exactly when none does, and while any thread sleeps in the kernel the lock is
  marked contended or another thread is on its way to look at it or to wake a sleeper: so when
  every thread is idle or asleep, none is asleep.\<close>

theorem tiny_lock_safe:
  assumes "lock_reachable False s"
  shows "(at s t = Holding \<longrightarrow> at s u = Holding \<longrightarrow> t = u) \<and>
    (grabbed s = 0 \<longleftrightarrow> (\<forall>t. \<not> owns (at s t))) \<and>
    ((\<forall>t. at s t = Idle \<or> at s t = Asleep) \<longrightarrow> (\<forall>t. at s t = Idle))"
proof -
  note I = lock_reachable_inv[OF assms]
  have "\<forall>t. at s t = Idle" if q: "\<forall>t. at s t = Idle \<or> at s t = Asleep"
  proof (rule ccontr)
    assume "\<not> (\<forall>t. at s t = Idle)"
    then obtain t where t: "at s t = Asleep" using q by blast
    have "\<not> owns (at s u) \<and> \<not> pending (at s u)" for u
      using spec[OF q, of u] by (elim disjE) simp_all
    then show False using lock_invD(3)[OF I] lock_invD(4)[OF I t] by (metis zero_neq_numeral)
  qed
  moreover have "t = u" if "at s t = Holding" "at s u = Holding"
    using lock_invD(2)[OF I, of t u] that by simp
  ultimately show ?thesis using lock_invD(3)[OF I] by blast
qed

lemma tiny_lock_safe_witness:
  "at (goto LOCK_INITIALIZER 1 7 Holding) 7 = Holding \<and>
   (grabbed (goto LOCK_INITIALIZER 1 7 Holding) = 0 \<longleftrightarrow>
     (\<forall>t. \<not> owns (at (goto LOCK_INITIALIZER 1 7 Holding) t)))"
proof -
  have "lock_step False LOCK_INITIALIZER (goto LOCK_INITIALIZER 1 7 (if (0 :: nat) = 0 then Holding else Loop 0))"
    by (rule lock_step.acquire) (simp_all add: LOCK_INITIALIZER_def cmpxchg_def)
  then have "lock_step False LOCK_INITIALIZER (goto LOCK_INITIALIZER 1 7 Holding)" by simp
  from lock_reachable.step[OF lock_reachable.init this]
  have r: "lock_reachable False (goto LOCK_INITIALIZER 1 7 Holding)" .
  have "at (goto LOCK_INITIALIZER 1 7 Holding) 7 = Holding" by (simp add: goto_def)
  with tiny_lock_safe[OF r, of 7 7] show ?thesis by blast
qed

text \<open>C34: The lock is not safe where a weak compare-and-exchange can fail spuriously: \<open>cmpxchg\<close>
  then returns the expected value without having stored anything, and two threads can own the
  lock at once.\<close>

theorem tiny_lock_weak_exchange:
  "\<exists>s. lock_reachable True s \<and> at s 0 = Holding \<and> at s 1 = Holding"
proof -
  let ?s1 = "goto LOCK_INITIALIZER 0 0 Holding" and ?s2 = "goto (goto LOCK_INITIALIZER 0 0 Holding) 1 1 Holding"
  have "lock_step True LOCK_INITIALIZER (goto LOCK_INITIALIZER 0 0 (if (0 :: nat) = 0 then Holding else Loop 0))"
    by (rule lock_step.acquire) (simp_all add: LOCK_INITIALIZER_def cmpxchg_def)
  then have "lock_step True LOCK_INITIALIZER ?s1" by simp
  from lock_reachable.step[OF lock_reachable.init this] have 1: "lock_reachable True ?s1" .
  have "lock_step True ?s1 (goto ?s1 1 1 (if (0 :: nat) = 0 then Holding else Loop 0))"
    by (rule lock_step.acquire) (simp_all add: LOCK_INITIALIZER_def cmpxchg_def goto_def)
  then have "lock_step True ?s1 ?s2" by simp
  from lock_reachable.step[OF 1 this] have "lock_reachable True ?s2" .
  moreover have "at ?s2 0 = Holding" "at ?s2 1 = Holding" by (simp_all add: goto_def)
  ultimately show ?thesis by blast
qed

end
