(* ===== verification/HeapSort.thy ===== *)
theory HeapSort
  imports Prelude "HOL-Library.Multiset"
begin

text \<open>
  The in-place heapsort of \<open>src/src/runtime/gc-common.c\<close> (\<open>sift_down\<close>, \<open>heapify\<close>,
  \<open>gc_heapsort_uwords\<close>), which the collector uses instead of \<open>qsort\<close> because that may call
  \<open>malloc\<close>. Arrays are lists updated by index; indices are below the array's length throughout.
  The code's indices are \<open>int\<close> and \<open>root * 2 + 1\<close> is computed in \<open>int\<close>, so the natural numbers here stand
  for them up to \<open>2 ^ 30\<close> elements (8 gigabytes of words).
\<close>

section \<open>Code\<close>

definition swap :: "uword list \<Rightarrow> nat \<Rightarrow> nat \<Rightarrow> uword list" where
  "swap a i j = a[i := a ! j, j := a ! i]"

function sift_down :: "uword list \<Rightarrow> nat \<Rightarrow> nat \<Rightarrow> uword list" where
  "sift_down array root hi =
     (if root * 2 + 1 \<le> hi then
        let child = root * 2 + 1;
            child = (if child + 1 \<le> hi \<and> array ! child < array ! (child + 1) then child + 1 else child)
        in if array ! root < array ! child
           then sift_down (swap array root child) child hi
           else array
      else array)"
  by pat_completeness auto
termination by (relation "measure (\<lambda>(array, root, hi). hi - root)") (auto simp: Let_def split: if_splits)

declare sift_down.simps [simp del]

text \<open>\<open>for (start = ...; start >= 0; --start)\<close>, counted by the iterations left.\<close>

fun heapify_loop :: "uword list \<Rightarrow> nat \<Rightarrow> nat \<Rightarrow> uword list" where
  "heapify_loop array 0 n = array"
| "heapify_loop array (Suc start) n = heapify_loop (sift_down array start (n - 1)) start n"

text \<open>\<open>(length - 2) / 2\<close> truncates towards 0: for an empty array it is -1, which starts no
  iteration, for one element it is 0.\<close>

definition heapify :: "uword list \<Rightarrow> nat \<Rightarrow> uword list" where
  "heapify array n = heapify_loop array (if n = 0 then 0 else (n - 2) div 2 + 1) n"

fun heapsort_loop :: "uword list \<Rightarrow> nat \<Rightarrow> uword list" where
  "heapsort_loop array 0 = array"
| "heapsort_loop array (Suc hi) = heapsort_loop (sift_down (swap array (Suc hi) 0) 0 hi) hi"

definition gc_heapsort_uwords :: "uword list \<Rightarrow> nat \<Rightarrow> uword list" where
  "gc_heapsort_uwords array n = heapsort_loop (heapify array n) (n - 1)"

section \<open>Heaps\<close>

definition child_of :: "nat \<Rightarrow> nat \<Rightarrow> bool" where
  "child_of c i \<longleftrightarrow> c = i * 2 + 1 \<or> c = i * 2 + 2"

text \<open>Every node from \<open>lo\<close> on, but \<open>r\<close>, is at least its children up to \<open>hi\<close>.\<close>

definition heap_but :: "uword list \<Rightarrow> nat \<Rightarrow> nat \<Rightarrow> nat \<Rightarrow> bool" where
  "heap_but a lo hi r \<longleftrightarrow> (\<forall>i c. lo \<le> i \<longrightarrow> i \<noteq> r \<longrightarrow> child_of c i \<longrightarrow> c \<le> hi \<longrightarrow> a ! c \<le> a ! i)"

definition is_heap :: "uword list \<Rightarrow> nat \<Rightarrow> nat \<Rightarrow> bool" where
  "is_heap a lo hi \<longleftrightarrow> (\<forall>i c. lo \<le> i \<longrightarrow> child_of c i \<longrightarrow> c \<le> hi \<longrightarrow> a ! c \<le> a ! i)"

text \<open>The parent of \<open>r\<close>, if it is a node of the heap, is at least the children of \<open>r\<close>.\<close>

definition bridged :: "uword list \<Rightarrow> nat \<Rightarrow> nat \<Rightarrow> nat \<Rightarrow> bool" where
  "bridged a lo hi r \<longleftrightarrow>
     (\<forall>p c. lo \<le> p \<longrightarrow> child_of r p \<longrightarrow> child_of c r \<longrightarrow> c \<le> hi \<longrightarrow> a ! c \<le> a ! p)"

lemma child_of_less: "child_of c i \<Longrightarrow> i < c"
  by (auto simp: child_of_def)

lemma child_of_inj: "child_of c i \<Longrightarrow> child_of c j \<Longrightarrow> i = j"
  by (auto simp: child_of_def)

lemma length_swap [simp]: "length (swap a i j) = length a"
  by (simp add: swap_def)

lemma nth_swap:
  "i < length a \<Longrightarrow> j < length a \<Longrightarrow>
    swap a i j ! k = (if k = i then a ! j else if k = j then a ! i else a ! k)"
  by (auto simp: swap_def nth_list_update)

lemma mset_swap_list: "i < length a \<Longrightarrow> j < length a \<Longrightarrow> mset (swap a i j) = mset a"
  unfolding swap_def by (rule mset_swap)

lemma mset_take_swap:
  assumes "i < m" "j < m" "m \<le> length a"
  shows "mset (take m (swap a i j)) = mset (take m a)"
proof -
  have "take m (swap a i j) = swap (take m a) i j"
    using assms by (simp add: swap_def take_update_swap)
  then show ?thesis using assms by (simp add: mset_swap_list)
qed

text \<open>The larger child of a node that has one.\<close>

definition larger_child :: "uword list \<Rightarrow> nat \<Rightarrow> nat \<Rightarrow> nat" where
  "larger_child a r hi = (if r * 2 + 1 + 1 \<le> hi \<and> a ! (r * 2 + 1) < a ! (r * 2 + 1 + 1)
     then r * 2 + 1 + 1 else r * 2 + 1)"

lemma sift_down_step:
  "sift_down a r hi =
     (if r * 2 + 1 \<le> hi \<and> a ! r < a ! larger_child a r hi
      then sift_down (swap a r (larger_child a r hi)) (larger_child a r hi) hi else a)"
proof (cases "r * 2 + 1 \<le> hi")
  case True
  then show ?thesis
    by (simp only: sift_down.simps[of a r hi] Let_def larger_child_def if_True simp_thms)
next
  case False
  then show ?thesis by (simp only: sift_down.simps[of a r hi] if_False simp_thms)
qed

text \<open>What every call of \<open>sift_down\<close> leaves alone: the length, the elements beyond \<open>hi\<close>,
  and which elements there are up to \<open>hi\<close>.\<close>

definition same_parts :: "nat \<Rightarrow> uword list \<Rightarrow> uword list \<Rightarrow> bool" where
  "same_parts hi a b \<longleftrightarrow> length b = length a \<and> drop (Suc hi) b = drop (Suc hi) a \<and>
     mset (take (Suc hi) b) = mset (take (Suc hi) a)"

lemma same_parts_refl [simp]: "same_parts hi a a"
  by (simp add: same_parts_def)

lemma same_parts_trans: "same_parts hi a b \<Longrightarrow> same_parts hi b c \<Longrightarrow> same_parts hi a c"
  by (simp add: same_parts_def)

lemma same_parts_swap:
  assumes "i \<le> hi" "j \<le> hi" "hi < length a"
  shows "same_parts hi a (swap a i j)"
  using assms mset_take_swap[of i "Suc hi" j a] by (simp add: same_parts_def swap_def)

lemma sift_down_correct:
  assumes "heap_but a lo hi r" "bridged a lo hi r" "lo \<le> r" "r \<le> hi" "hi < length a"
  shows "is_heap (sift_down a r hi) lo hi \<and> same_parts hi a (sift_down a r hi)"
  using assms
proof (induction a r hi rule: sift_down.induct)
  case (1 a r hi)
  define ch where "ch = larger_child a r hi"
  note ch_def = ch_def larger_child_def
  show ?case
  proof (cases "r * 2 + 1 \<le> hi \<and> a ! r < a ! ch")
    case False
    then have "sift_down a r hi = a" unfolding ch_def(1) by (subst sift_down_step) (simp only: if_False)
    moreover have "a ! c \<le> a ! r" if "child_of c r" "c \<le> hi" for c
    proof -
      have "r * 2 + 1 \<le> hi" using that by (auto simp: child_of_def)
      with False have "a ! ch \<le> a ! r" by (simp add: not_less)
      moreover have "a ! c \<le> a ! ch"
        using that by (auto simp: child_of_def ch_def not_less)
      ultimately show ?thesis by (rule order_trans[rotated])
    qed
    ultimately show ?thesis using "1.prems"(1) by (auto simp: is_heap_def heap_but_def)
  next
    case True
    have cr: "child_of ch r" "ch \<le> hi" "r < ch" using True by (auto simp: ch_def child_of_def)
    have len: "r < length a" "ch < length a" using cr "1.prems"(4,5) by auto
    let ?a = "swap a r ch"
    note n = nth_swap[OF len]
    have best: "a ! c \<le> a ! ch" if "child_of c r" "c \<le> hi" for c
      using that by (auto simp: child_of_def ch_def not_less)
    have step: "sift_down a r hi = sift_down ?a ch hi"
      using True unfolding ch_def(1) by (subst sift_down_step) (simp only: if_True simp_thms)
    have hb: "heap_but ?a lo hi ch"
      unfolding heap_but_def
    proof (intro allI impI)
      fix i c assume i: "lo \<le> i" "i \<noteq> ch" "child_of c i" "c \<le> hi"
      show "?a ! c \<le> ?a ! i"
      proof (cases "i = r")
        case True
        have "?a ! i = a ! ch" using True n by simp
        moreover have "?a ! c \<le> a ! ch"
        proof (cases "c = ch")
          case True
          then show ?thesis using \<open>r * 2 + 1 \<le> hi \<and> a ! r < a ! ch\<close> cr n by (simp add: less_imp_le)
        next
          case False
          then have "?a ! c = a ! c" using i(3) True child_of_less[of c i] n by simp
          then show ?thesis using best i(3,4) True by simp
        qed
        ultimately show ?thesis by simp
      next
        case False
        have ni: "?a ! i = a ! i" using False i(2) n by simp
        show ?thesis
        proof (cases "c = r")
          case True
          then have "?a ! c = a ! ch" using n by simp
          moreover have "a ! ch \<le> a ! i"
            using "1.prems"(2) i(1,3) cr(1,2) True unfolding bridged_def by blast
          ultimately show ?thesis using ni by simp
        next
          case c: False
          have "c \<noteq> ch" using child_of_inj[OF i(3)] cr(1) False by blast
          then have "?a ! c = a ! c" using c n by simp
          moreover have "a ! c \<le> a ! i" using "1.prems"(1) i False unfolding heap_but_def by blast
          ultimately show ?thesis using ni by simp
        qed
      qed
    qed
    have br: "bridged ?a lo hi ch"
      unfolding bridged_def
    proof (intro allI impI)
      fix p c assume p: "lo \<le> p" "child_of ch p" "child_of c ch" "c \<le> hi"
      have "p = r" using child_of_inj[OF p(2) cr(1)] .
      then have "?a ! p = a ! ch" using n by simp
      moreover have "?a ! c = a ! c" using child_of_less[OF p(3)] cr(3) n by simp
      moreover have "a ! c \<le> a ! ch"
        using "1.prems"(1,3) p(3,4) cr(3) unfolding heap_but_def by auto
      ultimately show "?a ! c \<le> ?a ! p" by simp
    qed
    have "is_heap (sift_down ?a ch hi) lo hi \<and> same_parts hi ?a (sift_down ?a ch hi)"
      using True hb br cr "1.prems"(3,5) by (intro "1.IH"[OF _ refl ch_def(1)[unfolded larger_child_def]]) auto
    then show ?thesis
      unfolding step using same_parts_trans[OF same_parts_swap[of r hi ch a]] cr "1.prems"(4,5) by auto
  qed
qed

lemma is_heap_trivial: "n \<le> 2 * lo + 1 \<Longrightarrow> 0 < n \<Longrightarrow> is_heap a lo (n - 1)"
  by (auto simp: is_heap_def child_of_def)

lemma heapify_loop_correct:
  assumes "is_heap a start (n - 1)" "0 < n" "n \<le> length a" "start \<le> n"
  shows "is_heap (heapify_loop a start n) 0 (n - 1) \<and> same_parts (n - 1) a (heapify_loop a start n)"
  using assms
proof (induction start arbitrary: a)
  case 0
  then show ?case by simp
next
  case (Suc start)
  have "heap_but a start (n - 1) start"
    using Suc.prems(1) unfolding heap_but_def is_heap_def by (metis Suc_leI le_neq_implies_less)
  moreover have "bridged a start (n - 1) start"
    using child_of_less by (force simp: bridged_def)
  ultimately have S: "is_heap (sift_down a start (n - 1)) start (n - 1) \<and>
      same_parts (n - 1) a (sift_down a start (n - 1))"
    using Suc.prems by (intro sift_down_correct) auto
  then have "is_heap (heapify_loop (sift_down a start (n - 1)) start n) 0 (n - 1) \<and>
      same_parts (n - 1) (sift_down a start (n - 1)) (heapify_loop (sift_down a start (n - 1)) start n)"
    using Suc.prems by (intro Suc.IH) (auto simp: same_parts_def)
  with S show ?case using same_parts_trans by auto
qed

lemma heapify_correct:
  assumes "0 < n" "n \<le> length a"
  shows "is_heap (heapify a n) 0 (n - 1) \<and> same_parts (n - 1) a (heapify a n)"
proof -
  have "is_heap a ((n - 2) div 2 + 1) (n - 1)" using assms(1) by (intro is_heap_trivial) presburger+
  then show ?thesis
    using assms heapify_loop_correct[of a "(n - 2) div 2 + 1" n] unfolding heapify_def by simp
qed

lemma heap_root_max:
  assumes "is_heap a 0 hi" "i \<le> hi"
  shows "a ! i \<le> a ! 0"
  using assms(2)
proof (induction i rule: less_induct)
  case (less i)
  show ?case
  proof (cases "i = 0")
    case False
    define p where "p = (i - 1) div 2"
    have "child_of i p" using False unfolding child_of_def p_def by presburger
    then have "a ! i \<le> a ! p" "p < i"
      using assms(1) less.prems child_of_less unfolding is_heap_def by auto
    then show ?thesis using less.IH[of p] less.prems by (auto intro: order_trans)
  qed simp
qed

text \<open>The sorted part beyond \<open>hi\<close>, and everything up to \<open>hi\<close> below it.\<close>

definition sorted_beyond :: "uword list \<Rightarrow> nat \<Rightarrow> nat \<Rightarrow> bool" where
  "sorted_beyond a hi n \<longleftrightarrow>
     (\<forall>i j. i < j \<longrightarrow> j < n \<longrightarrow> hi < j \<longrightarrow> a ! i \<le> a ! j)"

lemma same_parts_bound:
  assumes "same_parts hi a b" "hi < length a" "\<And>i. i \<le> hi \<Longrightarrow> a ! i \<le> m" "i \<le> hi"
  shows "b ! i \<le> m"
proof -
  have l: "length b = length a" using assms(1) by (simp add: same_parts_def)
  have "b ! i \<in> set (take (Suc hi) b)"
    using assms(2,4) l by (auto simp: in_set_conv_nth intro!: exI[of _ i])
  also have "set (take (Suc hi) b) = set (take (Suc hi) a)"
    using assms(1) mset_eq_setD unfolding same_parts_def by blast
  finally obtain k where "k \<le> hi" "b ! i = a ! k"
    using assms(2) by (auto simp: in_set_conv_nth less_Suc_eq_le)
  with assms(3) show ?thesis by simp
qed

lemma same_parts_nth:
  assumes "same_parts hi a b" "hi < i" "i < length a"
  shows "b ! i = a ! i"
proof -
  have "drop (Suc hi) b ! (i - Suc hi) = drop (Suc hi) a ! (i - Suc hi)"
    using assms(1) by (simp add: same_parts_def)
  moreover have "Suc hi + (i - Suc hi) = i" "length b = length a"
    using assms by (auto simp: same_parts_def)
  ultimately show ?thesis using assms(2,3) by (simp add: nth_drop)
qed

lemma heapsort_loop_correct:
  assumes "is_heap a 0 hi" "hi < n" "n \<le> length a" "sorted_beyond a hi n"
  shows "sorted (take n (heapsort_loop a hi)) \<and> mset (take n (heapsort_loop a hi)) = mset (take n a) \<and>
    drop n (heapsort_loop a hi) = drop n a \<and> length (heapsort_loop a hi) = length a"
  using assms
proof (induction hi arbitrary: a)
  case 0
  have "a ! i \<le> a ! j" if "i < j" "j < n" for i j
    using 0(4) that unfolding sorted_beyond_def by simp
  then have "sorted (take n a)" using 0(3) by (auto simp: sorted_iff_nth_mono_less)
  then show ?case by simp
next
  case (Suc hi)
  let ?s = "swap a (Suc hi) 0" and ?t = "sift_down (swap a (Suc hi) 0) 0 hi"
  have len: "Suc hi < length a" using Suc.prems(2,3) by simp
  note top = heap_root_max[OF Suc.prems(1)]
  have n: "?s ! k = (if k = Suc hi then a ! 0 else if k = 0 then a ! Suc hi else a ! k)" for k
    using len by (intro nth_swap) auto
  have "heap_but ?s 0 hi 0"
    unfolding heap_but_def
  proof (intro allI impI)
    fix i c assume "0 \<le> i" "i \<noteq> 0" "child_of c i" "c \<le> hi"
    then have "i < c" "i \<noteq> Suc hi" "c \<noteq> Suc hi" "c \<noteq> 0" "a ! c \<le> a ! i"
      using Suc.prems(1) child_of_less[of c i] unfolding is_heap_def by auto
    moreover have "a \<noteq> []" using len by auto
    ultimately show "?s ! c \<le> ?s ! i" using n len \<open>i \<noteq> 0\<close> by simp
  qed
  moreover have "bridged ?s 0 hi 0" using child_of_less by (force simp: bridged_def)
  ultimately have S: "is_heap ?t 0 hi" "same_parts hi ?s ?t"
    using sift_down_correct[of ?s 0 hi 0] len by auto
  have lt: "length ?t = length a" using S(2) by (simp add: same_parts_def)
  have beyond: "?t ! j = ?s ! j" if "hi < j" "j < length a" for j
    using same_parts_nth[OF S(2) that(1)] that(2) by simp
  have low: "?t ! i \<le> a ! 0" if "i \<le> hi" for i
  proof (rule same_parts_bound[OF S(2) _ _ that])
    show "hi < length ?s" using len by simp
    have "a \<noteq> []" using len by auto
    then show "?s ! k \<le> a ! 0" if "k \<le> hi" for k
      using n[of k] len top[of "Suc hi"] top[of k] that by auto
  qed
  have sb: "sorted_beyond ?t hi n"
    unfolding sorted_beyond_def
  proof (intro allI impI)
    fix i j assume ij: "i < j" "j < n" "hi < j"
    then have jl: "j < length a" using Suc.prems(3) by simp
    show "?t ! i \<le> ?t ! j"
    proof (cases "j = Suc hi")
      case True
      then have "?t ! j = a ! 0" using beyond[of j] n len by simp
      then show ?thesis using low[of i] ij True by simp
    next
      case False
      then have j: "?t ! j = a ! j" "Suc hi < j" using beyond[of j] jl ij n len by auto
      have le: "a ! k \<le> a ! j" if "k < j" for k
        using Suc.prems(4) that ij(2) j(2) unfolding sorted_beyond_def by blast
      show ?thesis
      proof (cases "i \<le> hi")
        case True
        then show ?thesis using low[of i] le[of 0] ij j by (auto intro: order_trans)
      next
        case False
        then have "?t ! i = (if i = Suc hi then a ! 0 else a ! i)"
          using beyond[of i] ij jl n len by auto
        then show ?thesis using le[of 0] le[of i] ij j by auto
      qed
    qed
  qed
  have IH: "sorted (take n (heapsort_loop ?t hi)) \<and> mset (take n (heapsort_loop ?t hi)) = mset (take n ?t) \<and>
    drop n (heapsort_loop ?t hi) = drop n ?t \<and> length (heapsort_loop ?t hi) = length ?t"
    using S(1) sb Suc.prems(2,3) lt by (intro Suc.IH) auto
  have tn: "take n xs = take (Suc hi) xs @ take (n - Suc hi) (drop (Suc hi) xs)" for xs :: "uword list"
    using take_add[of "Suc hi" "n - Suc hi" xs] Suc.prems(2) by simp
  have "mset (take n ?t) = mset (take n ?s)"
    using S(2) by (simp only: tn[of ?t] tn[of ?s] same_parts_def mset_append)
  also have "\<dots> = mset (take n a)"
    using Suc.prems(2,3) by (intro mset_take_swap) auto
  finally have ms: "mset (take n ?t) = mset (take n a)" .
  have "drop n ?t = drop (n - Suc hi) (drop (Suc hi) ?t)" using Suc.prems(2) by simp
  also have "\<dots> = drop (n - Suc hi) (drop (Suc hi) ?s)" using S(2) by (simp add: same_parts_def)
  also have "\<dots> = drop n a" using Suc.prems(2) by (simp add: swap_def)
  finally show ?case using IH ms lt by simp
qed

section \<open>Properties\<close>

lemma gc_heapsort_sorts:
  assumes "n \<le> length array"
  shows "sorted (take n (gc_heapsort_uwords array n)) \<and>
    mset (take n (gc_heapsort_uwords array n)) = mset (take n array) \<and>
    drop n (gc_heapsort_uwords array n) = drop n array"
proof (cases "n = 0")
  case True
  then show ?thesis by (simp add: gc_heapsort_uwords_def heapify_def)
next
  case False
  then have H: "is_heap (heapify array n) 0 (n - 1)" "same_parts (n - 1) array (heapify array n)"
    using heapify_correct[of n array] assms by auto
  have "sorted_beyond (heapify array n) (n - 1) n"
    unfolding sorted_beyond_def by (intro allI impI) linarith
  then have L: "sorted (take n (gc_heapsort_uwords array n)) \<and>
      mset (take n (gc_heapsort_uwords array n)) = mset (take n (heapify array n)) \<and>
      drop n (gc_heapsort_uwords array n) = drop n (heapify array n)"
    using heapsort_loop_correct[OF H(1)] False assms H(2)
    by (simp add: gc_heapsort_uwords_def same_parts_def)
  moreover have "Suc (n - 1) = n" using False by simp
  ultimately show ?thesis using H(2) by (simp add: same_parts_def)
qed

text \<open>C40: The collector's sort sorts: the first \<open>length\<close> words end up in increasing order and
  are a permutation of what they were, and nothing beyond them is touched. (The indices of the
  code are \<open>int\<close>s; \<open>root * 2 + 1\<close> overflows them beyond 2^30 words, so the model, which counts
  without bound, speaks of arrays up to that length.)\<close>

theorem heapsort_correct:
  assumes "n \<le> length array"
  shows "sorted (take n (gc_heapsort_uwords array n)) \<and>
    mset (take n (gc_heapsort_uwords array n)) = mset (take n array) \<and>
    drop n (gc_heapsort_uwords array n) = drop n array"
  using assms by (rule gc_heapsort_sorts)

lemma heapsort_correct_witness:
  "gc_heapsort_uwords [5, 3, 9, 1, 7] 4 = [1, 3, 5, 9, 7] \<and>
   sorted (take 4 (gc_heapsort_uwords [5, 3, 9, 1, 7] 4))"
proof -
  have "4 \<le> length [5, 3, 9, 1, 7 :: uword]" by simp
  from heapsort_correct[OF this] have "sorted (take 4 (gc_heapsort_uwords [5, 3, 9, 1, 7] 4))" by blast
  moreover have "gc_heapsort_uwords [5, 3, 9, 1, 7] 4 = [1, 3, 5, 9, 7]" by code_simp
  ultimately show ?thesis by blast
qed

end
