(* ===== verification/PageTable.thy ===== *)
theory PageTable
  imports Lispobj
begin

text \<open>
  The page table of the generational collector: \<open>struct page\<close> and its accessors
  (\<open>gencgc-impl.h\<close>, \<open>gc.h\<close>), the helpers of \<open>gencgc.c\<close> and \<open>gc-common.c\<close> that read and reset
  an entry, and the global state that the allocator keeps.

  Page indices and addresses in dynamic space are natural numbers: dynamic space is a mapped
  range, so none of the address computations on it wraps. Fields that are narrower than their
  value are written with the truncation.
\<close>

unbundle bit_operations_syntax

section \<open>Constants\<close>

definition GENCGC_PAGE_BYTES :: nat where "GENCGC_PAGE_BYTES = 32768"
definition GENCGC_PAGE_SHIFT :: nat where "GENCGC_PAGE_SHIFT = 15"
definition GENCGC_PAGE_WORDS :: nat where "GENCGC_PAGE_WORDS = 4096"
definition CARDS_PER_PAGE :: nat where "CARDS_PER_PAGE = 32"
definition GENCGC_CARD_SHIFT :: nat where "GENCGC_CARD_SHIFT = 10"
definition GENCGC_CARD_BYTES :: nat where "GENCGC_CARD_BYTES = 1024"
definition N_WORD_BYTES :: nat where "N_WORD_BYTES = 8"
definition WORD_SHIFT :: nat where "WORD_SHIFT = 3"
definition MAX_CONSES_PER_PAGE :: nat where "MAX_CONSES_PER_PAGE = 2047"
definition CONS_PAGE_USABLE_BYTES :: nat where
  "CONS_PAGE_USABLE_BYTES = MAX_CONSES_PER_PAGE * CONS_SIZE * N_WORD_BYTES"
definition gencgc_alloc_granularity :: nat where "gencgc_alloc_granularity = 0"

definition FREE_PAGE_FLAG :: u8 where "FREE_PAGE_FLAG = 0"
definition PAGE_TYPE_UNBOXED :: u8 where "PAGE_TYPE_UNBOXED = 1"
definition PAGE_TYPE_BOXED :: u8 where "PAGE_TYPE_BOXED = 2"
definition PAGE_TYPE_MIXED :: u8 where "PAGE_TYPE_MIXED = 3"
definition PAGE_TYPE_SMALL_MIXED :: u8 where "PAGE_TYPE_SMALL_MIXED = 4"
definition PAGE_TYPE_CONS :: u8 where "PAGE_TYPE_CONS = 5"
definition PAGE_TYPE_CODE :: u8 where "PAGE_TYPE_CODE = 7"
definition PAGE_TYPE_MASK :: u8 where "PAGE_TYPE_MASK = 15"
definition SINGLE_OBJECT_FLAG :: u8 where "SINGLE_OBJECT_FLAG = 16"
definition OPEN_REGION_PAGE_FLAG :: u8 where "OPEN_REGION_PAGE_FLAG = 32"

definition CARD_MARKED :: u8 where "CARD_MARKED = 0"
definition CARD_UNMARKED :: u8 where "CARD_UNMARKED = 0xFF"
definition SCRATCH_GENERATION :: int where "SCRATCH_GENERATION = 7"
definition GC_PRIVATE_CONS_GENERATION :: int where "GC_PRIVATE_CONS_GENERATION = 6"

text \<open>\<open>UINT_MAX\<close>.\<close>

definition SCAN_START_OFS_MAX :: nat where "SCAN_START_OFS_MAX = 4294967295"

lemmas page_constants = GENCGC_PAGE_BYTES_def GENCGC_PAGE_SHIFT_def GENCGC_PAGE_WORDS_def
  CARDS_PER_PAGE_def GENCGC_CARD_SHIFT_def GENCGC_CARD_BYTES_def N_WORD_BYTES_def WORD_SHIFT_def
  MAX_CONSES_PER_PAGE_def CONS_PAGE_USABLE_BYTES_def gencgc_alloc_granularity_def
  CONS_SIZE_def

lemmas page_types = FREE_PAGE_FLAG_def PAGE_TYPE_UNBOXED_def PAGE_TYPE_BOXED_def
  PAGE_TYPE_MIXED_def PAGE_TYPE_SMALL_MIXED_def PAGE_TYPE_CONS_def PAGE_TYPE_CODE_def
  PAGE_TYPE_MASK_def SINGLE_OBJECT_FLAG_def OPEN_REGION_PAGE_FLAG_def

section \<open>State\<close>

record page =
  scan_start_offset_w :: nat  \<comment> \<open>\<open>scan_start_offset_\<close>, an \<open>unsigned int\<close>\<close>
  need_zerofill :: bool
  words_used_w :: nat  \<comment> \<open>\<open>words_used_\<close>, 15 bits\<close>
  ptype :: u8
  pgen :: int

record alloc_region =
  free_pointer :: nat
  end_addr :: nat
  start_addr :: nat

record new_area =
  na_page :: nat
  na_offset :: nat
  na_size :: nat

text \<open>
  \<open>region\<close> holds \<open>gc_alloc_region[0..5]\<close>; further indices stand for the thread-local regions.
  \<open>generations_bytes\<close> is the field \<open>bytes_allocated\<close> of \<open>generations[]\<close>. The page hints are those
  of the calling thread.
\<close>

record gc =
  page_table :: "nat \<Rightarrow> page"
  page_table_pages :: nat
  next_free_page :: nat
  DYNAMIC_SPACE_START :: nat
  memory :: heap
  gc_card_mark :: "nat \<Rightarrow> u8"
  gc_card_table_mask :: nat
  gc_page_pins :: "nat \<Rightarrow> u8"
  bytes_allocated :: nat
  generations_bytes :: "int \<Rightarrow> nat"
  gc_alloc_generation :: int
  from_space :: int
  gc_active_p :: bool
  alloc_start_pages :: "nat \<Rightarrow> nat"
  max_alloc_start_page :: nat
  mixed_page_hint :: int
  cons_page_hint :: int
  record_new_regions_below :: nat
  new_areas :: "new_area list"
  region :: "nat \<Rightarrow> alloc_region"

definition set_page :: "nat \<Rightarrow> (page \<Rightarrow> page) \<Rightarrow> gc \<Rightarrow> gc" where
  "set_page i f g = g\<lparr>page_table := (page_table g)(i := f (page_table g i))\<rparr>"

section \<open>Addresses and pages\<close>

definition find_page_index :: "gc \<Rightarrow> nat \<Rightarrow> nat option" where
  "find_page_index g addr =
     (if DYNAMIC_SPACE_START g \<le> addr then
        let index = (addr - DYNAMIC_SPACE_START g) div GENCGC_PAGE_BYTES in
        if index < page_table_pages g then Some index else None
      else None)"

definition page_address :: "gc \<Rightarrow> nat \<Rightarrow> nat" where
  "page_address g page_num = DYNAMIC_SPACE_START g + page_num * GENCGC_PAGE_BYTES"

definition npage_bytes :: "nat \<Rightarrow> nat" where
  "npage_bytes npages = npages * GENCGC_PAGE_BYTES"

definition addr_diff :: "nat \<Rightarrow> nat \<Rightarrow> nat result" where
  "addr_diff x y = gc_assert (y \<le> x) (Inr (x - y))"

definition page_words_used :: "gc \<Rightarrow> nat \<Rightarrow> nat" where
  "page_words_used g i = words_used_w (page_table g i)"

definition page_bytes_used :: "gc \<Rightarrow> nat \<Rightarrow> nat" where
  "page_bytes_used g i = words_used_w (page_table g i) * 2 ^ WORD_SHIFT"

definition set_page_bytes_used :: "nat \<Rightarrow> nat \<Rightarrow> gc \<Rightarrow> gc" where
  "set_page_bytes_used i val =
     set_page i (\<lambda>p. p\<lparr>words_used_w := (val div 2 ^ WORD_SHIFT) mod 2 ^ 15\<rparr>)"

definition page_need_to_zero :: "gc \<Rightarrow> nat \<Rightarrow> bool" where
  "page_need_to_zero g i = need_zerofill (page_table g i)"

definition set_page_need_to_zero :: "nat \<Rightarrow> bool \<Rightarrow> gc \<Rightarrow> gc" where
  "set_page_need_to_zero i val = set_page i (\<lambda>p. p\<lparr>need_zerofill := val\<rparr>)"

definition set_page_type :: "nat \<Rightarrow> u8 \<Rightarrow> gc \<Rightarrow> gc" where
  "set_page_type i newval = set_page i (\<lambda>p. p\<lparr>ptype := newval\<rparr>)"

definition set_page_gen :: "nat \<Rightarrow> int \<Rightarrow> gc \<Rightarrow> gc" where
  "set_page_gen i newval = set_page i (\<lambda>p. p\<lparr>pgen := newval\<rparr>)"

definition page_free_p :: "gc \<Rightarrow> nat \<Rightarrow> bool" where
  "page_free_p g i \<longleftrightarrow> ptype (page_table g i) = FREE_PAGE_FLAG"

definition page_single_obj_p :: "gc \<Rightarrow> nat \<Rightarrow> bool" where
  "page_single_obj_p g i \<longleftrightarrow> ptype (page_table g i) AND SINGLE_OBJECT_FLAG \<noteq> 0"

definition is_code :: "u8 \<Rightarrow> bool" where
  "is_code t \<longleftrightarrow> t AND PAGE_TYPE_MASK = PAGE_TYPE_CODE"

definition boxed_type_p :: "u8 \<Rightarrow> bool" where
  "boxed_type_p t \<longleftrightarrow> t > 1"

definition page_boxed_p :: "gc \<Rightarrow> nat \<Rightarrow> bool" where
  "page_boxed_p g i = boxed_type_p (ptype (page_table g i) AND PAGE_TYPE_MASK)"

section \<open>Scan start offsets\<close>

text \<open>
  The offset is stored in units of double words, or of half pages with the low bit set when it is
  a multiple of the page size; an offset that does not fit is stored as the maximum.
\<close>

definition set_page_scan_start_offset :: "nat \<Rightarrow> nat \<Rightarrow> gc \<Rightarrow> gc result" where
  "set_page_scan_start_offset index offset g =
     (let lsb = offset \<noteq> 0 \<and> offset mod GENCGC_PAGE_BYTES = 0;
          scaled = drop_bit (if lsb then GENCGC_PAGE_SHIFT - 1 else WORD_SHIFT) offset
                     OR (if lsb then 1 else 0) in
      if scaled > SCAN_START_OFS_MAX
      then gc_assert lsb
             (Inr (set_page index (\<lambda>p. p\<lparr>scan_start_offset_w := SCAN_START_OFS_MAX\<rparr>) g))
      else Inr (set_page index (\<lambda>p. p\<lparr>scan_start_offset_w := scaled\<rparr>) g))"

text \<open>
  \<open>scan_start_offset_iterated\<close>: \<open>lookback_pages\<close> runs the loop at page \<open>lookback_page\<close> and yields
  the pages to add to \<open>tot_offset_in_pages\<close>. A maximal offset on a page that has not that many
  pages before it would make the C loop read in front of the table; the model stops there.
\<close>

function lookback_pages :: "gc \<Rightarrow> nat \<Rightarrow> nat" where
  "lookback_pages g lookback_page =
     (let offset = scan_start_offset_w (page_table g lookback_page) in
      if offset = SCAN_START_OFS_MAX \<and> drop_bit 1 offset \<le> lookback_page
      then drop_bit 1 offset + lookback_pages g (lookback_page - drop_bit 1 offset)
      else drop_bit 1 offset)"
  by auto
termination by (relation "measure snd") (auto simp: SCAN_START_OFS_MAX_def)

declare lookback_pages.simps [simp del]

definition scan_start_offset_iterated :: "gc \<Rightarrow> nat \<Rightarrow> nat" where
  "scan_start_offset_iterated g index = push_bit GENCGC_PAGE_SHIFT (lookback_pages g index)"

definition page_scan_start_offset :: "gc \<Rightarrow> nat \<Rightarrow> nat" where
  "page_scan_start_offset g index =
     (let s = scan_start_offset_w (page_table g index) in
      if s \<noteq> SCAN_START_OFS_MAX
      then push_bit (if bit s 0 then GENCGC_PAGE_SHIFT - 1 else WORD_SHIFT) (s - s mod 2)
      else scan_start_offset_iterated g index)"

definition page_scan_start :: "gc \<Rightarrow> nat \<Rightarrow> nat" where
  "page_scan_start g i = page_address g i - page_scan_start_offset g i"

definition page_starts_contiguous_block_p :: "gc \<Rightarrow> nat \<Rightarrow> bool" where
  "page_starts_contiguous_block_p g i \<longleftrightarrow> scan_start_offset_w (page_table g i) = 0"

definition page_ends_contiguous_block_p :: "gc \<Rightarrow> nat \<Rightarrow> bool" where
  "page_ends_contiguous_block_p g i \<longleftrightarrow>
     page_words_used g i < GENCGC_PAGE_WORDS \<or> page_starts_contiguous_block_p g (i + 1)"

text \<open>The loop runs up to the page after the table's last, which is always free; \<open>None\<close> is a
  block that goes on past the end of the table.\<close>

definition contiguous_block_final_page :: "gc \<Rightarrow> nat \<Rightarrow> nat option" where
  "contiguous_block_final_page g first =
     List.find (page_ends_contiguous_block_p g) [first..<page_table_pages g + 1]"

section \<open>Cards\<close>

definition addr_to_card_index :: "gc \<Rightarrow> nat \<Rightarrow> nat" where
  "addr_to_card_index g addr = drop_bit GENCGC_CARD_SHIFT addr AND gc_card_table_mask g"

definition page_to_card_index :: "gc \<Rightarrow> nat \<Rightarrow> nat" where
  "page_to_card_index g n = addr_to_card_index g (page_address g n)"

definition assign_page_card_marks :: "nat \<Rightarrow> u8 \<Rightarrow> gc \<Rightarrow> gc" where
  "assign_page_card_marks i val g =
     (let c = page_to_card_index g i in
      g\<lparr>gc_card_mark := (\<lambda>k. if c \<le> k \<and> k < c + CARDS_PER_PAGE then val else gc_card_mark g k)\<rparr>)"

text \<open>The generated \<open>cardseq_all_marked_nonsticky\<close> tests that the four words of mark bytes of the
  page are 0, that is, that all 32 marks are \<open>CARD_MARKED\<close>.\<close>

definition page_cards_all_marked_nonsticky :: "gc \<Rightarrow> nat \<Rightarrow> bool" where
  "page_cards_all_marked_nonsticky g i \<longleftrightarrow>
     list_all (\<lambda>k. gc_card_mark g (page_to_card_index g i + k) = 0) [0..<CARDS_PER_PAGE]"

definition notice_pointer_store :: "nat \<Rightarrow> gc \<Rightarrow> gc" where
  "notice_pointer_store base_addr g =
     (let card = addr_to_card_index g base_addr in
      if gc_card_mark g card = CARD_UNMARKED
      then g\<lparr>gc_card_mark := (gc_card_mark g)(card := CARD_MARKED)\<rparr> else g)"

section \<open>Helpers of the collector\<close>

definition reset_page_flags :: "nat \<Rightarrow> gc \<Rightarrow> gc" where
  "reset_page_flags i g =
     (let g = set_page i (\<lambda>p. p\<lparr>scan_start_offset_w := 0\<rparr>) g;
          g = set_page_type i FREE_PAGE_FLAG g;
          g = g\<lparr>gc_page_pins := (gc_page_pins g)(i := 0)\<rparr> in
      assign_page_card_marks i CARD_MARKED g)"

definition memset_page_range :: "uword \<Rightarrow> nat \<Rightarrow> nat \<Rightarrow> gc \<Rightarrow> gc" where
  "memset_page_range v start final g =
     (if start \<le> final
      then g\<lparr>memory := (\<lambda>a. if page_address g start \<le> unat a \<and>
                 unat a < page_address g start + npage_bytes (1 + final - start)
               then v else memory g a)\<rparr>
      else g)"

definition prepare_pages :: "nat \<Rightarrow> nat \<Rightarrow> u8 \<Rightarrow> int \<Rightarrow> gc \<Rightarrow> gc result" where
  "prepare_pages start final page_type generation g =
     gc_assert (start \<le> final)
       (let usable_by_lisp = (generation = 0 \<or> generation = SCRATCH_GENERATION \<and> from_space g = 0) in
        if page_type = PAGE_TYPE_MIXED \<and> usable_by_lisp
        then Inr (fold (\<lambda>i g. if page_need_to_zero g i
                              then set_page_need_to_zero i False (memset_page_range 0 i i g)
                              else g) [start..<final + 1] g)
        else Inr g)"

definition gc_set_region_empty :: "nat \<Rightarrow> gc \<Rightarrow> gc" where
  "gc_set_region_empty r g =
     g\<lparr>region := (region g)(r := \<lparr>free_pointer = 0x1000, end_addr = 0x1000, start_addr = 0\<rparr>)\<rparr>"

section \<open>Facts\<close>

lemma find_page_index_Some:
  "find_page_index g a = Some i \<longleftrightarrow>
     i < page_table_pages g \<and> page_address g i \<le> a \<and> a < page_address g i + GENCGC_PAGE_BYTES"
proof -
  have d: "x div 32768 = i \<longleftrightarrow> i * 32768 \<le> x \<and> x < i * 32768 + 32768" for x :: nat
    using div_nat_eqI[of i 32768 x] div_mult_mod_eq[of x 32768] mod_less_divisor[of 32768 x]
    by (auto simp: algebra_simps)
  show ?thesis
  proof (cases "DYNAMIC_SPACE_START g \<le> a")
    case True
    then obtain x where x: "a = DYNAMIC_SPACE_START g + x" by (metis le_Suc_ex)
    show ?thesis
      unfolding find_page_index_def page_address_def GENCGC_PAGE_BYTES_def Let_def x
      by (simp only: le_add1 if_True add_diff_cancel_left' nat_add_left_cancel_le add.assoc
          nat_add_left_cancel_less flip: d) auto
  qed (simp add: find_page_index_def page_address_def)
qed

lemma set_page_simps [simp]:
  "page_table (set_page i f g) = (page_table g)(i := f (page_table g i))"
  "page_table_pages (set_page i f g) = page_table_pages g"
  "next_free_page (set_page i f g) = next_free_page g"
  "DYNAMIC_SPACE_START (set_page i f g) = DYNAMIC_SPACE_START g"
  "memory (set_page i f g) = memory g"
  "gc_card_mark (set_page i f g) = gc_card_mark g"
  "gc_card_table_mask (set_page i f g) = gc_card_table_mask g"
  "gc_page_pins (set_page i f g) = gc_page_pins g"
  "bytes_allocated (set_page i f g) = bytes_allocated g"
  "generations_bytes (set_page i f g) = generations_bytes g"
  "gc_alloc_generation (set_page i f g) = gc_alloc_generation g"
  "from_space (set_page i f g) = from_space g"
  "region (set_page i f g) = region g"
  "alloc_start_pages (set_page i f g) = alloc_start_pages g"
  "max_alloc_start_page (set_page i f g) = max_alloc_start_page g"
  by (simp_all add: set_page_def)

lemma even_or_Suc: "2 * k OR Suc 0 = Suc (2 * k)" for k :: nat
  using or_one_eq[of "2 * k"] by (simp add: of_bool_def)

text \<open>The stored form of the offset of the page \<open>j\<close> pages into a block, and reading it back,
  through the chain of maximal offsets when the block is that large.\<close>

definition block_offset :: "nat \<Rightarrow> nat" where
  "block_offset j = (if j = 0 then 0 else min (2 * j + 1) SCAN_START_OFS_MAX)"

lemma set_block_offset:
  "set_page_scan_start_offset i (j * GENCGC_PAGE_BYTES) g =
     Inr (set_page i (\<lambda>p. p\<lparr>scan_start_offset_w := block_offset j\<rparr>) g)"
proof (cases "j = 0")
  case True
  then show ?thesis
    by (simp add: set_page_scan_start_offset_def block_offset_def SCAN_START_OFS_MAX_def Let_def)
next
  case False
  have d: "drop_bit 14 (j * 32768) = 2 * j" unfolding drop_bit_eq_div by simp
  show ?thesis using False unfolding set_page_scan_start_offset_def Let_def block_offset_def
    by (simp add: page_constants SCAN_START_OFS_MAX_def d even_or_Suc gc_assert_def)
qed

lemma lookback_block:
  assumes "\<And>i. i \<le> j \<Longrightarrow> scan_start_offset_w (page_table g (s + i)) = block_offset i"
  shows "lookback_pages g (s + j) = j"
  using assms
proof (induction j rule: less_induct)
  case (less j)
  show ?case
  proof (cases "j < 2147483647")
    case True
    then have "lookback_pages g (s + j) = drop_bit 1 (block_offset j)"
      using less.prems[of j] by (subst lookback_pages.simps) (simp add: block_offset_def SCAN_START_OFS_MAX_def)
    then show ?thesis using True by (simp add: block_offset_def SCAN_START_OFS_MAX_def drop_bit_eq_div)
  next
    case False
    then have o: "scan_start_offset_w (page_table g (s + j)) = SCAN_START_OFS_MAX"
      using less.prems[of j] by (simp add: block_offset_def SCAN_START_OFS_MAX_def)
    have d: "drop_bit 1 SCAN_START_OFS_MAX = 2147483647"
      by (simp add: SCAN_START_OFS_MAX_def drop_bit_eq_div)
    have "lookback_pages g (s + j) = 2147483647 + lookback_pages g (s + j - 2147483647)"
      using o False d by (subst lookback_pages.simps) simp
    also have "s + j - 2147483647 = s + (j - 2147483647)" using False by simp
    also have "lookback_pages g \<dots> = j - 2147483647" using False by (intro less.IH less.prems) simp_all
    finally show ?thesis using False by simp
  qed
qed

lemma page_scan_start_block:
  assumes "\<And>i. i \<le> j \<Longrightarrow> scan_start_offset_w (page_table g (s + i)) = block_offset i"
  shows "page_scan_start g (s + j) = page_address g s"
proof -
  have "page_scan_start_offset g (s + j) = j * 32768"
  proof (cases "block_offset j = SCAN_START_OFS_MAX")
    case True
    then show ?thesis using assms[of j] lookback_block[of j g s] assms
      by (simp add: page_scan_start_offset_def scan_start_offset_iterated_def page_constants push_bit_eq_mult)
  next
    case False
    then have "scan_start_offset_w (page_table g (s + j)) = (if j = 0 then 0 else 2 * j + 1)"
      using assms[of j] by (auto simp: block_offset_def min_def split: if_splits)
    moreover have "block_offset j = (if j = 0 then 0 else 2 * j + 1)"
      using False by (auto simp: block_offset_def min_def split: if_splits)
    ultimately show ?thesis using False assms[of j]
      by (cases "j = 0") (simp_all add: page_scan_start_offset_def page_constants push_bit_eq_mult bit_0 Let_def)
  qed
  then show ?thesis by (simp add: page_scan_start_def page_address_def page_constants)
qed

text \<open>Any offset that the condensed field can hold.\<close>

definition offset_ok :: "nat \<Rightarrow> bool" where
  "offset_ok offset \<longleftrightarrow> 16 dvd offset \<and>
     offset < (if GENCGC_PAGE_BYTES dvd offset then (2 ^ 31 - 1) * GENCGC_PAGE_BYTES else 2 ^ 35)"

definition stored_offset :: "nat \<Rightarrow> nat" where
  "stored_offset offset =
     (if GENCGC_PAGE_BYTES dvd offset then block_offset (offset div GENCGC_PAGE_BYTES)
      else offset div 8)"

lemma set_offset_ok:
  assumes "offset_ok offset"
  shows "set_page_scan_start_offset i offset g =
     Inr (set_page i (\<lambda>p. p\<lparr>scan_start_offset_w := stored_offset offset\<rparr>) g)"
proof (cases "GENCGC_PAGE_BYTES dvd offset")
  case True
  then obtain k where "offset = k * GENCGC_PAGE_BYTES" by (metis dvd_def mult.commute)
  then show ?thesis using set_block_offset[of i k g]
    by (simp add: stored_offset_def GENCGC_PAGE_BYTES_def)
next
  case False
  obtain k where k: "offset = 16 * k" using assms by (auto simp: offset_ok_def)
  have "offset < 34359738368" using assms False by (simp add: offset_ok_def)
  then have kb: "k < 2147483648" using k by simp
  have d: "drop_bit 3 offset = 2 * k" unfolding k drop_bit_eq_div by simp
  have "\<not> (offset \<noteq> 0 \<and> offset mod 32768 = 0)"
    using False by (simp add: dvd_eq_mod_eq_0 GENCGC_PAGE_BYTES_def)
  then show ?thesis
    using kb d k False unfolding set_page_scan_start_offset_def Let_def
    by (auto simp: page_constants SCAN_START_OFS_MAX_def stored_offset_def)
qed

lemma get_offset_ok:
  assumes "scan_start_offset_w (page_table g i) = stored_offset offset" and "offset_ok offset"
  shows "page_scan_start_offset g i = offset"
proof (cases "GENCGC_PAGE_BYTES dvd offset")
  case True
  then obtain k where k: "offset = k * GENCGC_PAGE_BYTES" by (metis dvd_def mult.commute)
  then have "k < 2147483647" using assms(2) by (simp add: offset_ok_def GENCGC_PAGE_BYTES_def)
  then have "stored_offset offset = (if k = 0 then 0 else 2 * k + 1)"
    "stored_offset offset \<noteq> SCAN_START_OFS_MAX"
    using k by (simp_all add: stored_offset_def block_offset_def GENCGC_PAGE_BYTES_def SCAN_START_OFS_MAX_def)
  then show ?thesis using k assms(1)
    by (cases "k = 0")
      (simp_all add: page_scan_start_offset_def page_constants push_bit_eq_mult bit_0 Let_def)
next
  case False
  obtain k where k: "offset = 16 * k" using assms by (auto simp: offset_ok_def)
  have "offset < 34359738368" using assms False by (simp add: offset_ok_def)
  then have "k < 2147483648" using k by simp
  moreover have "stored_offset offset = 2 * k" using k False by (simp add: stored_offset_def)
  ultimately show ?thesis using k assms(1)
    by (simp add: page_scan_start_offset_def SCAN_START_OFS_MAX_def page_constants push_bit_eq_mult
        bit_0 Let_def)
qed

lemma stored_offset_0 [simp]: "stored_offset 0 = 0"
  by (simp add: stored_offset_def block_offset_def)

text \<open>What \<open>set_page_scan_start_offset\<close> stores for a double-word aligned offset is what
  \<open>page_scan_start_offset\<close> reads back, whenever the condensed field can hold the offset: up to
  32 gigabytes for offsets inside a page, up to 64 terabytes less a page for multiples of the page
  size. No assertion fails, and nothing but the field changes.\<close>

theorem scan_start_offset_roundtrip:
  assumes "16 dvd offset"
    and "offset < (if GENCGC_PAGE_BYTES dvd offset then (2 ^ 31 - 1) * GENCGC_PAGE_BYTES else 2 ^ 35)"
  shows "\<exists>g' v. set_page_scan_start_offset i offset g = Inr g' \<and>
    g' = set_page i (\<lambda>p. p\<lparr>scan_start_offset_w := v\<rparr>) g \<and> page_scan_start_offset g' i = offset"
proof -
  have o: "offset_ok offset" using assms by (simp add: offset_ok_def)
  let ?g' = "set_page i (\<lambda>p. p\<lparr>scan_start_offset_w := stored_offset offset\<rparr>) g"
  have "page_scan_start_offset ?g' i = offset" by (rule get_offset_ok[OF _ o]) simp
  with set_offset_ok[OF o, of i g] show ?thesis by blast
qed

lemma scan_start_offset_roundtrip_witness:
  "\<forall>g. \<exists>g'. set_page_scan_start_offset 3 98304 g = Inr g' \<and> page_scan_start_offset g' 3 = 98304"
  using scan_start_offset_roundtrip[of 98304 3] by (auto simp: GENCGC_PAGE_BYTES_def)

end
