(* ===== verification/FindPages.thy ===== *)
theory FindPages
  imports PageTable
begin

text \<open>
  The page search of the allocator: \<open>get_alloc_start_page\<close>, \<open>set_alloc_start_page\<close>,
  \<open>page_extensible_p\<close>, \<open>find_single_page\<close> and \<open>gc_find_freeish_pages\<close> of \<open>gencgc.c\<close>. The search
  is shown to be sound (the pages it returns are free or extensible and hold the request), minimal
  and complete (it gives up only when no run of pages from the restart page on holds the request).
\<close>

unbundle bit_operations_syntax

section \<open>The code\<close>

text \<open>The hint of the thread is used once, and only for mixed and cons pages.\<close>

definition get_alloc_start_page :: "u8 \<Rightarrow> gc \<Rightarrow> (nat \<times> gc) result" where
  "get_alloc_start_page page_type g =
     (if page_type > 7 then Inl Lose
      else let global_start = alloc_start_pages g (unat page_type) in
      if page_type = PAGE_TYPE_MIXED \<and> mixed_page_hint g > 0 \<and> mixed_page_hint g \<le> int global_start
      then Inr (nat (mixed_page_hint g), g\<lparr>mixed_page_hint := - 1\<rparr>)
      else if page_type = PAGE_TYPE_CONS \<and> cons_page_hint g > 0 \<and> cons_page_hint g \<le> int global_start
      then Inr (nat (cons_page_hint g), g\<lparr>cons_page_hint := - 1\<rparr>)
      else Inr (global_start, g))"

definition set_alloc_start_page :: "u8 \<Rightarrow> nat \<Rightarrow> gc \<Rightarrow> gc result" where
  "set_alloc_start_page page_type i g =
     (if page_type > 7 then Inl Lose
      else Inr (g\<lparr>max_alloc_start_page :=
                     (if i > max_alloc_start_page g then i else max_alloc_start_page g),
                   alloc_start_pages := (alloc_start_pages g)(unat page_type := i)\<rparr>))"

text \<open>The C code compares type and generation as one 16-bit integer.\<close>

definition page_extensible_p :: "gc \<Rightarrow> nat \<Rightarrow> int \<Rightarrow> u8 \<Rightarrow> bool" where
  "page_extensible_p g index gen page_type \<longleftrightarrow>
     (ptype (page_table g index) = page_type \<and> pgen (page_table g index) = gen) \<and>
     page_cards_all_marked_nonsticky g index"

text \<open>\<open>usage_allowance\<close> is an \<open>unsigned short\<close>; \<open>nbytes >> WORD_SHIFT\<close> rounds down.\<close>

definition find_single_page :: "u8 \<Rightarrow> nat \<Rightarrow> int \<Rightarrow> gc \<Rightarrow> nat result" where
  "find_single_page page_type nbytes gen g =
     gc_assert (if page_type = PAGE_TYPE_CONS then nbytes \<le> CONS_PAGE_USABLE_BYTES
                else page_type = PAGE_TYPE_SMALL_MIXED)
       (let usage_allowance =
              ((if page_type = PAGE_TYPE_CONS then int (CONS_SIZE * MAX_CONSES_PER_PAGE)
                else int (GENCGC_PAGE_BYTES div N_WORD_BYTES))
                - int (nbytes div 2 ^ WORD_SHIFT)) mod 2 ^ 16;
            pages = [alloc_start_pages g (unat page_type)..<page_table_pages g] in
        case List.find (\<lambda>p. int (page_words_used g p) \<le> usage_allowance \<and>
                            (page_free_p g p \<or> page_extensible_p g p gen page_type)) pages
        of Some p \<Rightarrow> Inr p
        | None \<Rightarrow>
            let min_used = fold (\<lambda>p m. if page_words_used g p < m \<and> page_extensible_p g p gen page_type
                                       then page_words_used g p else m) pages GENCGC_PAGE_WORDS;
                bytes_avail =
                  (if page_type = PAGE_TYPE_CONS
                   then max 0 (int CONS_PAGE_USABLE_BYTES - int (min_used * 2 ^ WORD_SHIFT))
                   else int GENCGC_PAGE_BYTES - int (min_used * 2 ^ WORD_SHIFT))
            in Inl (Heap_exhausted bytes_avail (int nbytes)))"

text \<open>\<open>GENCGC_PAGE_BYTES - page_bytes_used(first_page)\<close> is computed in \<open>unsigned int\<close>.\<close>

definition page_room :: "gc \<Rightarrow> nat \<Rightarrow> nat" where
  "page_room g i = nat ((int GENCGC_PAGE_BYTES - int (page_bytes_used g i)) mod 2 ^ 32)"

text \<open>The inner loop: extends the run over free pages until it holds \<open>nbytes_goal\<close>.\<close>

function extend_run :: "gc \<Rightarrow> nat \<Rightarrow> nat \<Rightarrow> nat \<Rightarrow> nat \<times> nat" where
  "extend_run g nbytes_goal last_page bytes_found =
     (if bytes_found < nbytes_goal \<and> page_free_p g last_page \<and> last_page < page_table_pages g
      then extend_run g nbytes_goal (last_page + 1) (bytes_found + GENCGC_PAGE_BYTES)
      else (last_page, bytes_found))"
  by auto
termination by (relation "measure (\<lambda>(g, _, l, _). page_table_pages g - l)") auto

declare extend_run.simps [simp del]

lemma extend_run_ge: "l \<le> fst (extend_run g n l b)"
  by (induction g n l b rule: extend_run.induct) (subst extend_run.simps, auto)

text \<open>The outer loop; the last three arguments are \<open>most_bytes_found_from\<close>,
  \<open>most_bytes_found_to\<close> and \<open>most_bytes_found\<close>, returned behind \<open>first_page\<close>.\<close>

function find_run :: "gc \<Rightarrow> nat \<Rightarrow> nat \<Rightarrow> bool \<Rightarrow> u8 \<Rightarrow> int \<Rightarrow> nat \<Rightarrow> nat \<times> nat \<times> nat \<Rightarrow>
    nat \<times> nat \<times> nat \<times> nat" where
  "find_run g nbytes nbytes_goal multi_object page_type gen first_page (lo, hi, most) =
     (if first_page < page_table_pages g then
        if page_free_p g first_page \<or>
           multi_object \<and> page_room g first_page > 0 \<and> page_extensible_p g first_page gen page_type
        then
          let room = (if page_free_p g first_page then GENCGC_PAGE_BYTES else page_room g first_page) in
          if \<not> page_free_p g first_page \<and> room < nbytes \<and> \<not> is_code page_type
          then find_run g nbytes nbytes_goal multi_object page_type gen (first_page + 1)
                 (lo, hi, if room > most then room else most)
          else
            let run = extend_run g nbytes_goal (first_page + 1) room;
                best = (if snd run > most then (first_page, fst run, snd run) else (lo, hi, most)) in
            if snd run \<ge> nbytes_goal then (first_page, best)
            else find_run g nbytes nbytes_goal multi_object page_type gen (fst run) best
        else find_run g nbytes nbytes_goal multi_object page_type gen (first_page + 1) (lo, hi, most)
      else (first_page, lo, hi, most))"
  by pat_completeness auto
termination
proof (relation "measure (\<lambda>(g, _, _, _, _, _, f, _). page_table_pages g - f)", goal_cases)
  case (3 g nbytes nbytes_goal multi_object page_type gen first_page lo hi most room run best)
  then show ?case using extend_run_ge[of "first_page + 1" g nbytes_goal room] by auto
qed auto

declare find_run.simps [simp del]

text \<open>Returns the first and the last page of the run.\<close>

definition gc_find_freeish_pages :: "nat \<Rightarrow> nat \<Rightarrow> u8 \<Rightarrow> int \<Rightarrow> gc \<Rightarrow> (nat \<times> nat \<times> gc) result" where
  "gc_find_freeish_pages restart_page nbytes page_type gen g =
     (let multi_object = (page_type AND SINGLE_OBJECT_FLAG = 0);
          nbytes_goal = (if multi_object then max nbytes gencgc_alloc_granularity else nbytes) in
      case find_run g nbytes nbytes_goal multi_object (page_type AND NOT SINGLE_OBJECT_FLAG) gen
             restart_page (0, 0, 0)
      of (first_page, lo, hi, most) \<Rightarrow>
        if most < nbytes
        then gc_assert (first_page + 1 \<ge> page_table_pages g) (Inl (Heap_exhausted (int most) (int nbytes)))
        else gc_assert (hi \<noteq> 0)
               (Inr (lo, hi - 1,
                 g\<lparr>next_free_page := (if hi > next_free_page g then hi else next_free_page g)\<rparr>)))"

section \<open>What the search finds\<close>

text \<open>The bytes that a run from page \<open>f\<close> to page \<open>l\<close> offers, and the runs that the code accepts for a
  request: the first page may be partly used, but, except for code, only if it holds the request alone.\<close>

definition run_bytes :: "gc \<Rightarrow> nat \<Rightarrow> nat \<Rightarrow> nat" where
  "run_bytes g f l =
     (if page_free_p g f then GENCGC_PAGE_BYTES else page_room g f) + (l - f) * GENCGC_PAGE_BYTES"

definition usable_run :: "gc \<Rightarrow> nat \<Rightarrow> bool \<Rightarrow> u8 \<Rightarrow> int \<Rightarrow> nat \<Rightarrow> nat \<Rightarrow> bool" where
  "usable_run g nbytes multi_object page_type gen f l \<longleftrightarrow>
     f \<le> l \<and> l < page_table_pages g \<and> (\<forall>i\<in>{f<..l}. page_free_p g i) \<and>
     (page_free_p g f \<or>
      multi_object \<and> page_room g f > 0 \<and> page_extensible_p g f gen page_type \<and>
      (is_code page_type \<or> nbytes \<le> page_room g f))"

lemma extend_run_free:
  assumes "extend_run g n l b = (l', b')"
  shows "l \<le> l' \<and> b' = b + (l' - l) * GENCGC_PAGE_BYTES \<and>
    (\<forall>i. l \<le> i \<and> i < l' \<longrightarrow> page_free_p g i \<and> i < page_table_pages g) \<and>
    (l < l' \<longrightarrow> b' < n + GENCGC_PAGE_BYTES) \<and>
    (b' < n \<longrightarrow> \<not> (page_free_p g l' \<and> l' < page_table_pages g))"
  using assms
proof (induction g n l b rule: extend_run.induct)
  case (1 g n l b)
  show ?case
  proof (cases "b < n \<and> page_free_p g l \<and> l < page_table_pages g")
    case True
    then have "extend_run g n (l + 1) (b + GENCGC_PAGE_BYTES) = (l', b')"
      using "1.prems" by (subst (asm) extend_run.simps) simp
    note IH = "1.IH"[OF True this]
    have "(l' - l) * GENCGC_PAGE_BYTES = GENCGC_PAGE_BYTES + (l' - (l + 1)) * GENCGC_PAGE_BYTES"
      using IH by (simp add: Suc_diff_Suc flip: mult_Suc)
    moreover have "page_free_p g i \<and> i < page_table_pages g" if "l \<le> i" "i < l'" for i
      using IH True that by (cases "i = l") auto
    moreover have "b' < n + GENCGC_PAGE_BYTES"
      using IH True by (cases "l + 1 < l'") auto
    ultimately show ?thesis using IH by auto
  next
    case False
    then show ?thesis using "1.prems" by (subst (asm) extend_run.simps) auto
  qed
qed

lemma no_run_behind:
  assumes "\<And>i. f < i \<Longrightarrow> i < p \<Longrightarrow> page_free_p g i"
    and "\<not> (page_free_p g p \<and> p < page_table_pages g)"
    and "run_bytes g f (p - 1) < nbytes" and "f < p"
    and "usable_run g nbytes m t n f' l" and "f \<le> f'" and "f' < p"
  shows "run_bytes g f' l < nbytes"
proof -
  have l: "l < p"
  proof (rule ccontr)
    assume "\<not> l < p"
    then show False using assms(2,5,7) by (auto simp: usable_run_def)
  qed
  show ?thesis
  proof (cases "f' = f")
    case True
    then have "(l - f) * GENCGC_PAGE_BYTES \<le> (p - 1 - f) * GENCGC_PAGE_BYTES"
      using l by (intro mult_le_mono) auto
    then have "run_bytes g f' l \<le> run_bytes g f (p - 1)" unfolding run_bytes_def True by simp
    then show ?thesis using assms(3) by simp
  next
    case False
    then have "page_free_p g f'" using assms(1)[of f'] assms(6,7) by simp
    then have "run_bytes g f' l = Suc (l - f') * GENCGC_PAGE_BYTES" by (simp add: run_bytes_def)
    also have "\<dots> \<le> (p - 1 - f) * GENCGC_PAGE_BYTES"
      using False assms(4-7) l by (intro mult_le_mono) auto
    also have "\<dots> \<le> run_bytes g f (p - 1)" by (simp add: run_bytes_def)
    finally show ?thesis using assms(3) by simp
  qed
qed

definition run_found :: "gc \<Rightarrow> nat \<Rightarrow> bool \<Rightarrow> u8 \<Rightarrow> int \<Rightarrow> nat \<Rightarrow> nat \<times> nat \<times> nat \<times> nat \<Rightarrow> bool" where
  "run_found g nbytes m t n restart = (\<lambda>(first_page, lo, hi, most).
     if most \<ge> nbytes then
       restart \<le> lo \<and> lo < hi \<and> usable_run g nbytes m t n lo (hi - 1) \<and>
       nbytes \<le> run_bytes g lo (hi - 1) \<and>
       (lo < hi - 1 \<longrightarrow> run_bytes g lo (hi - 1) < nbytes + GENCGC_PAGE_BYTES)
     else page_table_pages g \<le> first_page \<and>
       (\<forall>f l. restart \<le> f \<longrightarrow> usable_run g nbytes m t n f l \<longrightarrow> run_bytes g f l < nbytes))"

lemma run_found_later:
  assumes "run_found g nbytes m t n p r" and "f \<le> p"
    and "\<And>f' l. f \<le> f' \<Longrightarrow> f' < p \<Longrightarrow> usable_run g nbytes m t n f' l \<Longrightarrow> run_bytes g f' l < nbytes"
  shows "run_found g nbytes m t n f r"
proof -
  obtain a b c d where r: "r = (a, b, c, d)" by (cases r)
  show ?thesis
  proof (cases "d \<ge> nbytes")
    case True
    then show ?thesis using assms(1,2) by (auto simp: run_found_def r)
  next
    case False
    have "run_bytes g f' l < nbytes" if "f \<le> f'" "usable_run g nbytes m t n f' l" for f' l
      using assms(1,3) that False by (cases "f' < p") (auto simp: run_found_def r)
    then show ?thesis using assms(1) False by (auto simp: run_found_def r)
  qed
qed

lemma find_run_found:
  assumes "most < nbytes" and "goal = nbytes"
  shows "run_found g nbytes m t n f (find_run g nbytes goal m t n f (lo, hi, most))"
  using assms
proof (induction g nbytes goal m t n f "(lo, hi, most)" arbitrary: lo hi most rule: find_run.induct)
  case (1 g nbytes goal m t n f lo hi most)
  note goal = "1.prems"(2)
  let ?start = "page_free_p g f \<or> m \<and> page_room g f > 0 \<and> page_extensible_p g f n t"
  let ?room = "if page_free_p g f then GENCGC_PAGE_BYTES else page_room g f"
  consider (over) "\<not> f < page_table_pages g"
    | (skip) "f < page_table_pages g" "\<not> ?start"
    | (small) "f < page_table_pages g" ?start "\<not> page_free_p g f" "?room < nbytes" "\<not> is_code t"
    | (run) "f < page_table_pages g" ?start "\<not> (\<not> page_free_p g f \<and> ?room < nbytes \<and> \<not> is_code t)"
    by blast
  then show ?case
  proof cases
    case over
    then show ?thesis using "1.prems"
      by (subst find_run.simps) (auto simp: run_found_def usable_run_def)
  next
    case skip
    have "run_found g nbytes m t n (f + 1) (find_run g nbytes goal m t n (f + 1) (lo, hi, most))"
      using skip "1.prems" by (intro "1.hyps"(3)) simp_all
    then have "run_found g nbytes m t n f (find_run g nbytes goal m t n (f + 1) (lo, hi, most))"
      by (rule run_found_later) (use skip in \<open>auto simp: usable_run_def less_Suc_eq\<close>)
    then show ?thesis
      by (subst find_run.simps) (simp only: if_P[OF skip(1)] if_not_P[OF skip(2)])
  next
    case small
    let ?most = "if ?room > most then ?room else most"
    have "run_found g nbytes m t n (f + 1) (find_run g nbytes goal m t n (f + 1) (lo, hi, ?most))"
      using small "1.prems" by (intro "1.hyps"(1)) simp_all
    then have "run_found g nbytes m t n f (find_run g nbytes goal m t n (f + 1) (lo, hi, ?most))"
      by (rule run_found_later) (use small in \<open>auto simp: usable_run_def less_Suc_eq\<close>)
    moreover have c: "\<not> page_free_p g f \<and> ?room < nbytes \<and> \<not> is_code t" using small by blast
    have "find_run g nbytes goal m t n f (lo, hi, most) = find_run g nbytes goal m t n (f + 1) (lo, hi, ?most)"
      by (subst find_run.simps) (simp only: if_P[OF small(1)] if_P[OF small(2)] if_P[OF c] Let_def)
    ultimately show ?thesis by (simp only:)
  next
    case run
    obtain l b where lb: "extend_run g goal (f + 1) ?room = (l, b)" by fastforce
    note E = extend_run_free[OF lb, unfolded goal]
    have rb: "b = run_bytes g f (l - 1)" using E by (simp add: run_bytes_def)
    have free: "page_free_p g i" if "f < i" "i < l" for i using E that by simp
    have l: "l - 1 < page_table_pages g" using E run(1) by (cases "f + 1 < l") auto
    have us: "usable_run g nbytes m t n f (l - 1)"
      using E run l free by (auto simp: usable_run_def not_less)
    show ?thesis
    proof (cases "b \<ge> nbytes")
      case True
      then have "find_run g nbytes goal m t n f (lo, hi, most) = (f, f, l, b)"
        using lb goal "1.prems" by (subst find_run.simps)
          (simp only: if_P[OF run(1)] if_P[OF run(2)] if_not_P[OF run(3)] Let_def fst_conv snd_conv, simp)
      moreover have "run_found g nbytes m t n f (f, f, l, b)"
        using True us rb E run(1) by (auto simp: run_found_def)
      ultimately show ?thesis by simp
    next
      case False
      let ?best = "if b > most then (f, l, b) else (lo, hi, most)"
      have step: "find_run g nbytes goal m t n f (lo, hi, most) =
          find_run g nbytes goal m t n l ?best"
        using lb goal False by (subst find_run.simps)
          (simp only: if_P[OF run(1)] if_P[OF run(2)] if_not_P[OF run(3)] Let_def fst_conv snd_conv, simp)
      obtain lo' hi' most' where best: "(lo', hi', most') = ?best" by (metis prod_cases3)
      have lt: "most' < nbytes" using best "1.prems"(1) False by (auto split: if_splits)
      have "run_found g nbytes m t n l (find_run g nbytes goal m t n l (lo', hi', most'))"
        by (rule "1.hyps"(2)[OF run(1,2) refl run(3) refl, unfolded lb fst_conv snd_conv, OF best])
          (use False lt goal in simp_all)
      then have "run_found g nbytes m t n l (find_run g nbytes goal m t n l ?best)"
        by (simp only: best)
      then have "run_found g nbytes m t n f (find_run g nbytes goal m t n l ?best)"
      proof (rule run_found_later)
        show "f \<le> l" using E by simp
        fix f' l' assume a: "f \<le> f'" "f' < l" "usable_run g nbytes m t n f' l'"
        show "run_bytes g f' l' < nbytes"
          by (rule no_run_behind[OF free _ _ _ a(3,1,2)]) (use E False rb in auto)
      qed
      then show ?thesis by (simp only: step)
    qed
  qed
qed

lemma find_pages_found:
  assumes "0 < nbytes" and "gc_find_freeish_pages restart nbytes page_type gen g = r"
  shows "run_found g nbytes (page_type AND SINGLE_OBJECT_FLAG = 0)
           (page_type AND NOT SINGLE_OBJECT_FLAG) gen restart
           (find_run g nbytes nbytes (page_type AND SINGLE_OBJECT_FLAG = 0)
              (page_type AND NOT SINGLE_OBJECT_FLAG) gen restart (0, 0, 0))"
  by (rule find_run_found) (use assms in simp_all)

lemma freeish_found:
  assumes "gc_find_freeish_pages restart nbytes page_type gen g = Inr (f, l, g')" and "0 < nbytes"
  shows "restart \<le> f \<and>
    usable_run g nbytes (page_type AND SINGLE_OBJECT_FLAG = 0)
      (page_type AND NOT SINGLE_OBJECT_FLAG) gen f l \<and>
    nbytes \<le> run_bytes g f l \<and>
    (f < l \<longrightarrow> run_bytes g f l < nbytes + GENCGC_PAGE_BYTES) \<and>
    g' = g\<lparr>next_free_page := max (next_free_page g) (l + 1)\<rparr>"
proof -
  note F = find_pages_found[OF assms(2,1)]
  obtain a lo hi most where r: "find_run g nbytes nbytes (page_type AND SINGLE_OBJECT_FLAG = 0)
      (page_type AND NOT SINGLE_OBJECT_FLAG) gen restart (0, 0, 0) = (a, lo, hi, most)"
    by (metis prod_cases4)
  have "\<not> most < nbytes \<and> f = lo \<and> l = hi - 1 \<and>
      g' = g\<lparr>next_free_page := (if hi > next_free_page g then hi else next_free_page g)\<rparr> \<and> hi \<noteq> 0"
    using assms(1) r
    by (auto simp: gc_find_freeish_pages_def gencgc_alloc_granularity_def Let_def gc_assert_def
        split: if_splits)
  then show ?thesis using F unfolding r run_found_def by (auto simp: max_def)
qed

lemma freeish_exhausted:
  assumes "gc_find_freeish_pages restart nbytes page_type gen g = Inl e" and "0 < nbytes"
  shows "(\<exists>available. e = Heap_exhausted (int available) (int nbytes) \<and> available < nbytes) \<and>
    (\<forall>f l. restart \<le> f \<longrightarrow>
       usable_run g nbytes (page_type AND SINGLE_OBJECT_FLAG = 0)
         (page_type AND NOT SINGLE_OBJECT_FLAG) gen f l \<longrightarrow>
       run_bytes g f l < nbytes)"
proof -
  note F = find_pages_found[OF assms(2,1)]
  obtain a lo hi most where r: "find_run g nbytes nbytes (page_type AND SINGLE_OBJECT_FLAG = 0)
      (page_type AND NOT SINGLE_OBJECT_FLAG) gen restart (0, 0, 0) = (a, lo, hi, most)"
    by (metis prod_cases4)
  have "most < nbytes"
    using assms(1) r F
    by (auto simp: gc_find_freeish_pages_def gencgc_alloc_granularity_def Let_def gc_assert_def
        run_found_def split: if_splits)
  moreover from this have "e = Heap_exhausted (int most) (int nbytes)"
    using assms(1) r F
    by (auto simp: gc_find_freeish_pages_def gencgc_alloc_granularity_def Let_def gc_assert_def
        run_found_def split: if_splits)
  ultimately show ?thesis using F unfolding r run_found_def by auto
qed

text \<open>C5: When \<open>gc_find_freeish_pages\<close> returns pages \<open>f\<close> to \<open>l\<close>, they are a run at or after the
  restart page inside the page table whose pages are free, except that the first may be an
  extensible partly used page when several objects may share it; the run holds the request, its
  last page is needed for it, and nothing but the high water mark changed, which now covers the
  run.\<close>

theorem freeish_pages_sound:
  assumes "gc_find_freeish_pages restart nbytes page_type gen g = Inr (f, l, g')" and "0 < nbytes"
  shows "restart \<le> f \<and>
    usable_run g nbytes (page_type AND SINGLE_OBJECT_FLAG = 0)
      (page_type AND NOT SINGLE_OBJECT_FLAG) gen f l \<and>
    nbytes \<le> run_bytes g f l \<and>
    (f < l \<longrightarrow> run_bytes g f l < nbytes + GENCGC_PAGE_BYTES) \<and>
    g' = g\<lparr>next_free_page := max (next_free_page g) (l + 1)\<rparr>"
  using assms by (rule freeish_found)

text \<open>C6: When \<open>gc_find_freeish_pages\<close> gives up it reports heap exhaustion with less space
  available than requested, never a failed assertion, and then, from the restart page on, no run of
  free pages holds the request, and, when a partly used page may be shared, no extensible page of the
  type and generation has room for it; for code, not even together with the free pages that follow
  it. (For other types a run that starts on a partly used page and needs the free pages behind it is
  passed over: a request that fits only there fails, as lemma \<open>partly_used_run_passed_over\<close> shows.)\<close>

theorem freeish_pages_complete:
  assumes "gc_find_freeish_pages restart nbytes page_type gen g = Inl e" and "0 < nbytes"
  shows "(\<exists>available. e = Heap_exhausted (int available) (int nbytes) \<and> available < nbytes) \<and>
    (\<forall>f l. restart \<le> f \<and> f \<le> l \<and> l < page_table_pages g \<and> (\<forall>i\<in>{f..l}. page_free_p g i) \<longrightarrow>
       (l - f + 1) * GENCGC_PAGE_BYTES < nbytes) \<and>
    (page_type AND SINGLE_OBJECT_FLAG = 0 \<longrightarrow>
      (\<forall>f. restart \<le> f \<and> f < page_table_pages g \<and> \<not> page_free_p g f \<and>
          page_extensible_p g f gen (page_type AND NOT SINGLE_OBJECT_FLAG) \<longrightarrow>
        page_room g f < nbytes \<and>
        (is_code (page_type AND NOT SINGLE_OBJECT_FLAG) \<and> 0 < page_room g f \<longrightarrow>
          (\<forall>l. f \<le> l \<and> l < page_table_pages g \<and> (\<forall>i\<in>{f<..l}. page_free_p g i) \<longrightarrow>
             page_room g f + (l - f) * GENCGC_PAGE_BYTES < nbytes))))"
proof -
  let ?t = "page_type AND NOT SINGLE_OBJECT_FLAG" and ?multi = "page_type AND SINGLE_OBJECT_FLAG = 0"
  note E = freeish_exhausted[OF assms]
  then have none: "run_bytes g f l < nbytes" if "restart \<le> f" "usable_run g nbytes ?multi ?t gen f l" for f l
    using that by blast
  have "(l - f + 1) * GENCGC_PAGE_BYTES < nbytes"
    if "restart \<le> f" "f \<le> l" "l < page_table_pages g" "\<forall>i\<in>{f..l}. page_free_p g i" for f l
    using none[of f l] that by (simp add: usable_run_def run_bytes_def)
  moreover have "page_room g f < nbytes"
    if "?multi" "restart \<le> f" "f < page_table_pages g" "\<not> page_free_p g f" "page_extensible_p g f gen ?t" for f
  proof (rule ccontr)
    assume "\<not> page_room g f < nbytes"
    then show False using none[of f f] that assms(2) by (simp add: usable_run_def run_bytes_def)
  qed
  moreover have "page_room g f + (l - f) * GENCGC_PAGE_BYTES < nbytes"
    if "?multi" "restart \<le> f" "\<not> page_free_p g f" "page_extensible_p g f gen ?t" "is_code ?t" "0 < page_room g f"
      "f \<le> l" "l < page_table_pages g" "\<forall>i\<in>{f<..l}. page_free_p g i" for f l
    using none[of f l] that by (simp add: usable_run_def run_bytes_def)
  ultimately show ?thesis using E by blast
qed

text \<open>A table of four pages, of which the first two are full: the request for 40000 bytes of mixed
  objects gets pages 2 and 3, and one for three pages fails.\<close>

definition small_heap :: gc where
  "small_heap =
     \<lparr>page_table = (\<lambda>i. if i < 2
        then \<lparr>scan_start_offset_w = 0, need_zerofill = True, words_used_w = 4096,
              ptype = PAGE_TYPE_MIXED, pgen = 0\<rparr>
        else \<lparr>scan_start_offset_w = 0, need_zerofill = False, words_used_w = 0,
              ptype = FREE_PAGE_FLAG, pgen = 0\<rparr>),
      page_table_pages = 4, next_free_page = 2, DYNAMIC_SPACE_START = 0x1000000000,
      memory = (\<lambda>_. 0), gc_card_mark = (\<lambda>_. 0), gc_card_table_mask = 0xFF,
      gc_page_pins = (\<lambda>_. 0), bytes_allocated = 65536,
      generations_bytes = (\<lambda>n. if n = 0 then 65536 else 0),
      gc_alloc_generation = 0, from_space = - 1, gc_active_p = False,
      alloc_start_pages = (\<lambda>_. 0), max_alloc_start_page = 0, mixed_page_hint = - 1,
      cons_page_hint = - 1, record_new_regions_below = 0, new_areas = [],
      region = (\<lambda>_. \<lparr>free_pointer = 0x1000, end_addr = 0x1000, start_addr = 0\<rparr>)\<rparr>"

lemmas small_heap_simps = small_heap_def gc_find_freeish_pages_def find_run.simps extend_run.simps
  page_free_p_def page_room_def page_bytes_used_def page_constants page_types Let_def gc_assert_def
  page_extensible_p_def page_cards_all_marked_nonsticky_def upt_rec

lemma small_heap_search:
  "map_sum id (\<lambda>(f, l, g). (f, l, next_free_page g))
     (gc_find_freeish_pages 0 40000 PAGE_TYPE_MIXED 0 small_heap) = Inr (2, 3, 4)"
  by (simp add: small_heap_simps)

lemma small_heap_exhausted:
  "map_sum id (\<lambda>(f, l, g). (f, l)) (gc_find_freeish_pages 0 98304 PAGE_TYPE_MIXED 0 small_heap) =
     Inl (Heap_exhausted 65536 98304)"
  by (simp add: small_heap_simps)

lemma freeish_pages_sound_witness:
  "40000 \<le> run_bytes small_heap 2 3 \<and> run_bytes small_heap 2 3 < 40000 + GENCGC_PAGE_BYTES"
proof -
  obtain g where "gc_find_freeish_pages 0 40000 PAGE_TYPE_MIXED 0 small_heap = Inr (2, 3, g)"
    using small_heap_search
    by (cases "gc_find_freeish_pages 0 40000 PAGE_TYPE_MIXED 0 small_heap") auto
  from freeish_pages_sound[OF this] show ?thesis by simp
qed

lemma freeish_pages_complete_witness: "(3 - 2 + 1) * GENCGC_PAGE_BYTES < (98304 :: nat)"
proof -
  obtain e where e: "gc_find_freeish_pages 0 98304 PAGE_TYPE_MIXED 0 small_heap = Inl e"
    using small_heap_exhausted
    by (cases "gc_find_freeish_pages 0 98304 PAGE_TYPE_MIXED 0 small_heap") auto
  have free: "3 < page_table_pages small_heap" "\<forall>i\<in>{2..3}. page_free_p small_heap i"
    by (simp_all add: small_heap_def page_free_p_def)
  have "\<forall>f l. 0 \<le> f \<and> f \<le> l \<and> l < page_table_pages small_heap \<and> (\<forall>i\<in>{f..l}. page_free_p small_heap i) \<longrightarrow>
      (l - f + 1) * GENCGC_PAGE_BYTES < 98304"
    using freeish_pages_complete[OF e] by simp
  from this[rule_format, of 2 3] show ?thesis using free by simp
qed

text \<open>A table of two pages, the first half full of mixed objects, the second free: together they have
  room for 49152 bytes, but a request for 40000 fails.\<close>

definition half_full_heap :: gc where
  "half_full_heap = set_page 0 (\<lambda>p. p\<lparr>words_used_w := 2048\<rparr>)
     (set_page 1 (\<lambda>p. p\<lparr>ptype := FREE_PAGE_FLAG, words_used_w := 0\<rparr>) (small_heap\<lparr>page_table_pages := 2\<rparr>))"

lemma partly_used_run_passed_over:
  "gc_find_freeish_pages 0 40000 PAGE_TYPE_MIXED 0 half_full_heap = Inl (Heap_exhausted 32768 40000) \<and>
   page_extensible_p half_full_heap 0 0 PAGE_TYPE_MIXED \<and> page_free_p half_full_heap 1 \<and>
   run_bytes half_full_heap 0 1 = 49152"
  by (simp add: half_full_heap_def run_bytes_def small_heap_simps is_code_def)

end
