(* ===== verification/AllocInv.thy ===== *)
theory AllocInv
  imports AllocRegion
begin

text \<open>
  Invariants of the allocator: a well-formed page table (\<open>heap_ok\<close>), the accounting of bytes per
  generation (\<open>accounted\<close>) and what an open region looks like (\<open>region_open\<close>); and what opening a
  region does to them.
\<close>

unbundle bit_operations_syntax

section \<open>Invariants\<close>

text \<open>\<open>page_index_t\<close> is an \<open>int\<close>. The heap base is page-aligned, and the allocation quantum is two
  words.\<close>

definition page_ok :: "page \<Rightarrow> bool" where
  "page_ok p \<longleftrightarrow> words_used_w p \<le> GENCGC_PAGE_WORDS \<and> even (words_used_w p) \<and>
     (ptype p = FREE_PAGE_FLAG \<longrightarrow> words_used_w p = 0) \<and>
     (words_used_w p = 0 \<and> ptype p AND OPEN_REGION_PAGE_FLAG = 0 \<longrightarrow> scan_start_offset_w p = 0)"

definition heap_ok :: "gc \<Rightarrow> bool" where
  "heap_ok g \<longleftrightarrow> GENCGC_PAGE_BYTES dvd DYNAMIC_SPACE_START g \<and> 0 < DYNAMIC_SPACE_START g \<and>
     page_table_pages g < 2 ^ 31 \<and> (\<forall>i<page_table_pages g. page_ok (page_table g i))"

definition usage :: "gc \<Rightarrow> nat" where
  "usage g = (\<Sum>i<page_table_pages g. page_bytes_used g i)"

definition gen_usage :: "gc \<Rightarrow> int \<Rightarrow> nat" where
  "gen_usage g n = (\<Sum>i<page_table_pages g. if pgen (page_table g i) = n then page_bytes_used g i else 0)"

definition accounted :: "gc \<Rightarrow> bool" where
  "accounted g \<longleftrightarrow> bytes_allocated g = usage g \<and> (\<forall>n. generations_bytes g n = gen_usage g n)"

definition open_type :: "u8 \<Rightarrow> bool" where
  "open_type t \<longleftrightarrow> t \<in> {PAGE_TYPE_UNBOXED, PAGE_TYPE_BOXED, PAGE_TYPE_MIXED, PAGE_TYPE_SMALL_MIXED,
                        PAGE_TYPE_CONS, PAGE_TYPE_CODE}"

text \<open>The pages behind the first of an open region.\<close>

definition region_tail_page :: "u8 \<Rightarrow> int \<Rightarrow> nat \<Rightarrow> page \<Rightarrow> bool" where
  "region_tail_page t gen offset p \<longleftrightarrow> ptype p = (OPEN_REGION_PAGE_FLAG OR t) \<and> pgen p = gen \<and>
     words_used_w p = 0 \<and> offset_ok offset \<and> scan_start_offset_w p = stored_offset offset"

definition region_open :: "gc \<Rightarrow> nat \<Rightarrow> u8 \<Rightarrow> nat \<Rightarrow> nat \<Rightarrow> bool" where
  "region_open g r t f l \<longleftrightarrow>
     (let start = start_addr (region g r); fp = free_pointer (region g r);
          limit = end_addr (region g r); p = page_table g f in
      open_type t \<and> f \<le> l \<and> l < page_table_pages g \<and>
      (t = PAGE_TYPE_CONS \<or> t = PAGE_TYPE_SMALL_MIXED \<longrightarrow> l = f) \<and>
      start = page_address g f + page_bytes_used g f \<and>
      page_address g l < limit \<and> limit \<le> page_address g (l + 1) \<and>
      start \<le> fp \<and> fp \<le> limit \<and> 16 dvd (fp - start) \<and>
      ptype p = (OPEN_REGION_PAGE_FLAG OR t) \<and> pgen p = gc_alloc_generation g \<and>
      words_used_w p < GENCGC_PAGE_WORDS \<and> (words_used_w p = 0 \<longrightarrow> scan_start_offset_w p = 0) \<and>
      (\<forall>i\<in>{f<..l}. region_tail_page t (gc_alloc_generation g) (page_address g i - start) (page_table g i)))"

lemma heap_ok_page: "heap_ok g \<Longrightarrow> i < page_table_pages g \<Longrightarrow> page_ok (page_table g i)"
  by (simp add: heap_ok_def)

lemma page_okD:
  assumes "page_ok p"
  shows "words_used_w p \<le> 4096" "even (words_used_w p)"
    "ptype p = FREE_PAGE_FLAG \<Longrightarrow> words_used_w p = 0"
    "words_used_w p = 0 \<Longrightarrow> ptype p AND OPEN_REGION_PAGE_FLAG = 0 \<Longrightarrow> scan_start_offset_w p = 0"
  using assms by (simp_all add: page_ok_def page_constants page_types)

lemma open_type_bits:
  assumes "open_type t"
  shows "OPEN_REGION_PAGE_FLAG OR t \<noteq> FREE_PAGE_FLAG" "OPEN_REGION_PAGE_FLAG OR t \<noteq> t" "t \<noteq> FREE_PAGE_FLAG"
    "(OPEN_REGION_PAGE_FLAG OR t) AND OPEN_REGION_PAGE_FLAG \<noteq> 0"
    "(OPEN_REGION_PAGE_FLAG OR t) XOR OPEN_REGION_PAGE_FLAG = t" "t \<le> 7"
    "(SINGLE_OBJECT_FLAG OR t) AND NOT SINGLE_OBJECT_FLAG = t" "t AND NOT SINGLE_OBJECT_FLAG = t"
    "(SINGLE_OBJECT_FLAG OR t) AND SINGLE_OBJECT_FLAG \<noteq> 0" "t AND SINGLE_OBJECT_FLAG = 0"
    "SINGLE_OBJECT_FLAG OR t \<noteq> FREE_PAGE_FLAG"
  using assms unfolding open_type_def by (auto simp: page_types)

lemma open_types_distinct:
  "open_type t \<Longrightarrow> open_type t' \<Longrightarrow> OPEN_REGION_PAGE_FLAG OR t \<noteq> t'"
  unfolding open_type_def by (auto simp: page_types)

section \<open>Frames\<close>

text \<open>The state up to the contents of memory, the need-to-zero flags, and the page table of the
  pages of a set.\<close>

definition frame :: "nat set \<Rightarrow> gc \<Rightarrow> gc \<Rightarrow> bool" where
  "frame A g g' \<longleftrightarrow>
     page_table_pages g' = page_table_pages g \<and> DYNAMIC_SPACE_START g' = DYNAMIC_SPACE_START g \<and>
     gc_alloc_generation g' = gc_alloc_generation g \<and>
     (\<forall>i. i \<notin> A \<longrightarrow> ptype (page_table g' i) = ptype (page_table g i) \<and>
        pgen (page_table g' i) = pgen (page_table g i) \<and>
        words_used_w (page_table g' i) = words_used_w (page_table g i) \<and>
        scan_start_offset_w (page_table g' i) = scan_start_offset_w (page_table g i))"

lemma frame_refl: "frame A g g"
  by (simp add: frame_def)

lemma frame_trans: "frame A g g' \<Longrightarrow> frame A g' g'' \<Longrightarrow> frame A g g''"
  by (simp add: frame_def)

lemma frame_mono: "frame A g g' \<Longrightarrow> A \<subseteq> B \<Longrightarrow> frame B g g'"
  unfolding frame_def by blast

lemma frame_page:
  assumes "frame A g g'" "i \<notin> A"
  shows "ptype (page_table g' i) = ptype (page_table g i)" "pgen (page_table g' i) = pgen (page_table g i)"
    "words_used_w (page_table g' i) = words_used_w (page_table g i)"
    "scan_start_offset_w (page_table g' i) = scan_start_offset_w (page_table g i)"
  using assms by (simp_all add: frame_def)

lemma frame_const:
  assumes "frame A g g'"
  shows "page_table_pages g' = page_table_pages g" "DYNAMIC_SPACE_START g' = DYNAMIC_SPACE_START g"
    "gc_alloc_generation g' = gc_alloc_generation g" "page_address g' i = page_address g i"
  using assms by (simp_all add: frame_def page_address_def)

lemma region_open_tail:
  assumes "region_open g r t f l" "f < i" "i \<le> l"
  shows "region_tail_page t (gc_alloc_generation g) (page_address g i - start_addr (region g r)) (page_table g i)"
proof -
  have "\<forall>i\<in>{f<..l}. region_tail_page t (gc_alloc_generation g)
      (page_address g i - start_addr (region g r)) (page_table g i)"
    using assms(1) unfolding region_open_def Let_def by (elim conjE) assumption
  then show ?thesis using assms(2,3) by simp
qed

text \<open>An open region none of whose pages are touched stays open.\<close>

lemma region_open_frame:
  assumes "region_open g r t f l" and "frame A g g'" and "A \<inter> {f..l} = {}" and "region g' r = region g r"
  shows "region_open g' r t f l"
proof -
  have n: "i \<notin> A" if "f \<le> i" "i \<le> l" for i using assms(3) that by auto
  have f: "f \<le> l" using assms(1) by (simp add: region_open_def Let_def)
  note c = frame_const[OF assms(2)] and pf = frame_page[OF assms(2) n[OF order_refl f]]
  have "region_tail_page t (gc_alloc_generation g) (page_address g i - start_addr (region g r)) (page_table g' i)"
    if "i \<in> {f<..l}" for i
    using region_open_tail[OF assms(1), of i] that frame_page[OF assms(2) n, of i]
    by (simp add: region_tail_page_def)
  then show ?thesis
    using assms(1) unfolding region_open_def Let_def page_bytes_used_def assms(4) c pf by blast
qed

lemma prepare_pages_frame:
  assumes "start \<le> final"
  shows "\<exists>g'. prepare_pages start final t n g = Inr g' \<and> frame {} g g' \<and>
    (\<exists>pt m. g' = g\<lparr>page_table := pt, memory := m\<rparr>)"
proof -
  let ?f = "\<lambda>i g. if page_need_to_zero g i
      then set_page_need_to_zero i False (memset_page_range 0 i i g) else g"
  have step: "frame {} g (?f i g) \<and> (\<exists>pt m. ?f i g = g\<lparr>page_table := pt, memory := m\<rparr>)" for i g
  proof (cases "page_need_to_zero g i")
    case True
    have "\<exists>pt m. ?f i g = g\<lparr>page_table := pt, memory := m\<rparr>"
      using True by (simp add: set_page_need_to_zero_def set_page_def memset_page_range_def)
        (rule exI, rule exI, rule gc.equality, simp_all)
    then show ?thesis
      by (simp add: frame_def set_page_need_to_zero_def memset_page_range_def)
  qed (auto simp: frame_refl intro!: exI[of _ "page_table g"] exI[of _ "memory g"])
  have "frame {} g (fold ?f is g) \<and> (\<exists>pt m. fold ?f is g = g\<lparr>page_table := pt, memory := m\<rparr>)"
    for "is" g
  proof (induction "is" arbitrary: g)
    case Nil
    then show ?case by (auto simp: frame_refl intro!: exI[of _ "page_table g"] exI[of _ "memory g"])
  next
    case (Cons i "is")
    from step[of g i] obtain pt m where a: "frame {} g (?f i g)" "?f i g = g\<lparr>page_table := pt, memory := m\<rparr>"
      by blast
    from Cons[of "?f i g"] obtain pt' m' where
      b: "frame {} (?f i g) (fold ?f is (?f i g))"
        "fold ?f is (?f i g) = (?f i g)\<lparr>page_table := pt', memory := m'\<rparr>" by blast
    have "fold ?f (i # is) g = fold ?f is (?f i g)" by simp
    moreover have "h\<lparr>page_table := pt', memory := m'\<rparr> = g\<lparr>page_table := pt', memory := m'\<rparr>"
      if "h = g\<lparr>page_table := pt, memory := m\<rparr>" for h using that by simp
    from this[OF a(2)] b(2) have "fold ?f is (?f i g) = g\<lparr>page_table := pt', memory := m'\<rparr>"
      by (rule trans[rotated])
    ultimately show ?case using frame_trans[OF a(1) b(1)] by (simp only:) blast
  qed
  from this[of g "[start..<final + 1]"] show ?thesis
    using assms by (auto simp: prepare_pages_def gc_assert_def frame_refl Let_def
        intro!: exI[of _ "page_table g"] exI[of _ "memory g"])
qed

section \<open>Accounting\<close>

lemma usage_update:
  assumes "page_table_pages g' = page_table_pages g"
    and "\<And>i. i < page_table_pages g \<Longrightarrow> words_used_w (page_table g' i) = words_used_w (page_table g i)"
    and "\<And>i. i < page_table_pages g \<Longrightarrow> pgen (page_table g' i) = pgen (page_table g i) \<or>
           words_used_w (page_table g i) = 0"
  shows "usage g' = usage g" "gen_usage g' n = gen_usage g n"
proof -
  have b: "page_bytes_used g' i = page_bytes_used g i" if "i < page_table_pages g" for i
    using assms(2)[OF that] by (simp add: page_bytes_used_def)
  then show "usage g' = usage g" unfolding usage_def assms(1) by (intro sum.cong) simp_all
  show "gen_usage g' n = gen_usage g n" unfolding gen_usage_def assms(1)
  proof (intro sum.cong refl)
    fix i assume "i \<in> {..<page_table_pages g}"
    then show "(if pgen (page_table g' i) = n then page_bytes_used g' i else 0) =
        (if pgen (page_table g i) = n then page_bytes_used g i else 0)"
      using assms(3)[of i] b[of i] by (auto simp: page_bytes_used_def)
  qed
qed

lemma sum_upd_nat:
  fixes f :: "nat \<Rightarrow> nat"
  assumes "i < n" and "\<And>j. j < n \<Longrightarrow> j \<noteq> i \<Longrightarrow> f' j = f j" and "f' i = f i + k"
  shows "(\<Sum>j<n. f' j) = (\<Sum>j<n. f j) + k"
proof -
  have "(\<Sum>j<n. f' j) = f' i + (\<Sum>j\<in>{..<n} - {i}. f' j)" using assms(1) by (simp add: sum.remove)
  also have "(\<Sum>j\<in>{..<n} - {i}. f' j) = (\<Sum>j\<in>{..<n} - {i}. f j)" using assms(2) by (intro sum.cong) auto
  finally show ?thesis using assms(1,3) by (simp add: sum.remove)
qed

text \<open>Raising the usage of one page by \<open>k\<close> bytes.\<close>

lemma usage_grow:
  assumes "page_table_pages g' = page_table_pages g" and "i < page_table_pages g"
    and "\<And>j. j \<noteq> i \<Longrightarrow> words_used_w (page_table g' j) = words_used_w (page_table g j) \<and>
           pgen (page_table g' j) = pgen (page_table g j)"
    and "page_bytes_used g' i = page_bytes_used g i + k" and "pgen (page_table g' i) = pgen (page_table g i)"
  shows "usage g' = usage g + k"
    "gen_usage g' n = gen_usage g n + (if n = pgen (page_table g i) then k else 0)"
proof -
  show "usage g' = usage g + k" unfolding usage_def assms(1)
    by (rule sum_upd_nat[OF assms(2)]) (use assms(3,4) in \<open>simp_all add: page_bytes_used_def\<close>)
  show "gen_usage g' n = gen_usage g n + (if n = pgen (page_table g i) then k else 0)"
    unfolding gen_usage_def assms(1)
    by (rule sum_upd_nat[OF assms(2)]) (use assms(3,4,5) in \<open>auto simp: page_bytes_used_def\<close>)
qed

section \<open>Opening a region\<close>

text \<open>What opening region \<open>r\<close> on the pages \<open>f\<close> to \<open>l\<close> comes to.\<close>

definition opened :: "gc \<Rightarrow> u8 \<Rightarrow> nat \<Rightarrow> gc \<Rightarrow> nat \<Rightarrow> nat \<Rightarrow> bool" where
  "opened g t r g' f l \<longleftrightarrow> region_open g' r t f l \<and> frame {f..l} g g' \<and>
     free_pointer (region g' r) = start_addr (region g' r) \<and>
     (\<forall>i\<in>{f..l}. ptype (page_table g i) = FREE_PAGE_FLAG \<or> ptype (page_table g i) = t) \<and>
     (\<forall>i\<in>{f..l}. words_used_w (page_table g' i) = words_used_w (page_table g i) \<and>
        (pgen (page_table g' i) = pgen (page_table g i) \<or> words_used_w (page_table g i) = 0)) \<and>
     (\<exists>v. region g' = (region g)(r := v)) \<and>
     bytes_allocated g' = bytes_allocated g \<and> generations_bytes g' = generations_bytes g"

lemma region_open_type:
  assumes "region_open g r t f l" "f \<le> i" "i \<le> l"
  shows "ptype (page_table g i) = (OPEN_REGION_PAGE_FLAG OR t)" "open_type t" "i < page_table_pages g"
proof -
  show "open_type t" "i < page_table_pages g" using assms by (simp_all add: region_open_def Let_def)
  show "ptype (page_table g i) = (OPEN_REGION_PAGE_FLAG OR t)"
    using assms region_open_tail[OF assms(1), of i]
    by (cases "i = f") (simp_all add: region_tail_page_def region_open_def Let_def)
qed

lemma opened_preserves:
  assumes "opened g t r g' f l" and "heap_ok g"
  shows "heap_ok g'" "accounted g' = accounted g"
    "region_open g r' t' f' l' \<Longrightarrow> r' \<noteq> r \<Longrightarrow> region_open g' r' t' f' l' \<and> {f..l} \<inter> {f'..l'} = {}"
proof -
  have o: "region_open g' r t f l" and fr: "frame {f..l} g g'" using assms(1) by (simp_all add: opened_def)
  note c = frame_const[OF fr]
  have w: "words_used_w (page_table g' i) = words_used_w (page_table g i)" for i
    using assms(1) frame_page(3)[OF fr, of i] by (cases "i \<in> {f..l}") (auto simp: opened_def)
  have gn: "pgen (page_table g' i) = pgen (page_table g i) \<or> words_used_w (page_table g i) = 0" for i
    using assms(1) frame_page(2)[OF fr, of i] by (cases "i \<in> {f..l}") (auto simp: opened_def)
  have "page_ok (page_table g' i)" if "i < page_table_pages g" for i
  proof (cases "i \<in> {f..l}")
    case True
    then have "ptype (page_table g' i) = (OPEN_REGION_PAGE_FLAG OR t)"
      using region_open_type(1)[OF o, of i] by simp
    then show ?thesis using heap_ok_page[OF assms(2) that] open_type_bits(1,4)[OF region_open_type(2)[OF o, of f]]
        o by (simp add: page_ok_def w region_open_def Let_def)
  next
    case False
    then show ?thesis using heap_ok_page[OF assms(2) that] frame_page[OF fr False]
      by (simp add: page_ok_def)
  qed
  then show "heap_ok g'" using assms(2) c by (simp add: heap_ok_def)
  show "accounted g' = accounted g"
    using usage_update[OF c(1) w gn] assms(1) by (simp add: accounted_def opened_def)
  assume a: "region_open g r' t' f' l'" and n: "r' \<noteq> r"
  have d: "{f..l} \<inter> {f'..l'} = {}"
  proof (rule ccontr)
    assume "{f..l} \<inter> {f'..l'} \<noteq> {}"
    then obtain i where "i \<in> {f..l} \<inter> {f'..l'}" by blast
    then have i: "f \<le> i" "i \<le> l" "f' \<le> i" "i \<le> l'" by simp_all
    have "open_type t" using region_open_type(2)[OF o, of f] o by (simp add: region_open_def Let_def)
    moreover have "ptype (page_table g i) = FREE_PAGE_FLAG \<or> ptype (page_table g i) = t"
      using assms(1) i unfolding opened_def by simp
    ultimately show False
      using region_open_type(1,2)[OF a i(3,4)] open_type_bits(1) open_types_distinct by metis
  qed
  moreover have "region g' r' = region g r'" using assms(1) n by (auto simp: opened_def)
  ultimately show "region_open g' r' t' f' l' \<and> {f..l} \<inter> {f'..l'} = {}"
    using region_open_frame[OF a fr d] by blast
qed

lemma open_pages:
  assumes "\<And>i. a \<le> i \<Longrightarrow> i < b \<Longrightarrow> start \<le> page_address g i \<and> offset_ok (page_address g i - start)"
  shows "\<exists>pt. for_each (open_page t start) [a..<b] g = Inr (g\<lparr>page_table := pt\<rparr>) \<and>
    frame {a..<b} g (g\<lparr>page_table := pt\<rparr>) \<and>
    (\<forall>i\<in>{a..<b}. ptype (pt i) = (OPEN_REGION_PAGE_FLAG OR t) \<and> pgen (pt i) = gc_alloc_generation g \<and>
       words_used_w (pt i) = words_used_w (page_table g i) \<and>
       scan_start_offset_w (pt i) = stored_offset (page_address g i - start))"
  using assms
proof (induction b)
  case 0
  then show ?case by (intro exI[of _ "page_table g"]) (simp add: frame_refl)
next
  case (Suc b)
  show ?case
  proof (cases "a \<le> b")
    case False
    then show ?thesis by (intro exI[of _ "page_table g"]) (simp add: frame_refl)
  next
    case True
    from Suc obtain pt where pt: "for_each (open_page t start) [a..<b] g = Inr (g\<lparr>page_table := pt\<rparr>)"
      "frame {a..<b} g (g\<lparr>page_table := pt\<rparr>)"
      "\<forall>i\<in>{a..<b}. ptype (pt i) = (OPEN_REGION_PAGE_FLAG OR t) \<and> pgen (pt i) = gc_alloc_generation g \<and>
         words_used_w (pt i) = words_used_w (page_table g i) \<and>
         scan_start_offset_w (pt i) = stored_offset (page_address g i - start)" by auto
    have s: "start \<le> page_address g b" "offset_ok (page_address g b - start)"
      using Suc.prems[of b] True by simp_all
    let ?p = "(pt b)\<lparr>ptype := OPEN_REGION_PAGE_FLAG OR t, pgen := gc_alloc_generation g,
        scan_start_offset_w := stored_offset (page_address g b - start)\<rparr>"
    have "open_page t start b (g\<lparr>page_table := pt\<rparr>) = Inr (g\<lparr>page_table := pt(b := ?p)\<rparr>)"
      using s by (simp add: open_page_def set_page_type_def set_page_gen_def addr_diff_def
          gc_assert_def page_address_def set_offset_ok)
        (simp add: set_page_def)
    then have "for_each (open_page t start) [a..<Suc b] g = Inr (g\<lparr>page_table := pt(b := ?p)\<rparr>)"
      using True pt(1) by (simp add: for_each_append)
    moreover have "words_used_w (pt b) = words_used_w (page_table g b)"
      using frame_page(3)[OF pt(2), of b] by simp
    moreover have "frame {a..<Suc b} g (g\<lparr>page_table := pt(b := ?p)\<rparr>)"
      using pt(2) True by (simp add: frame_def less_Suc_eq)
    moreover have "\<forall>i\<in>{a..<Suc b}. ptype ((pt(b := ?p)) i) = (OPEN_REGION_PAGE_FLAG OR t) \<and>
        pgen ((pt(b := ?p)) i) = gc_alloc_generation g \<and>
        words_used_w ((pt(b := ?p)) i) = words_used_w (page_table g i) \<and>
        scan_start_offset_w ((pt(b := ?p)) i) = stored_offset (page_address g i - start)"
    proof
      fix i assume "i \<in> {a..<Suc b}"
      then consider "i = b" | "i \<in> {a..<b}" "i \<noteq> b" by fastforce
      then show "ptype ((pt(b := ?p)) i) = (OPEN_REGION_PAGE_FLAG OR t) \<and>
        pgen ((pt(b := ?p)) i) = gc_alloc_generation g \<and>
        words_used_w ((pt(b := ?p)) i) = words_used_w (page_table g i) \<and>
        scan_start_offset_w ((pt(b := ?p)) i) = stored_offset (page_address g i - start)"
        using \<open>words_used_w (pt b) = words_used_w (page_table g b)\<close> pt(3) by cases simp_all
    qed
    ultimately show ?thesis by blast
  qed
qed

lemma get_alloc_start_page_ok:
  assumes "page_type \<le> 7"
  shows "\<exists>h m c. get_alloc_start_page page_type g = Inr (h, g\<lparr>mixed_page_hint := m, cons_page_hint := c\<rparr>)"
proof -
  define R where "R = (\<lambda>x :: (nat \<times> gc) result. \<exists>h m c. x = Inr (h, g\<lparr>mixed_page_hint := m, cons_page_hint := c\<rparr>))"
  have "R (Inr (h, g))" for h
    unfolding R_def by (intro exI[of _ h] exI[of _ "mixed_page_hint g"] exI[of _ "cons_page_hint g"]) simp
  moreover have "R (Inr (h, g\<lparr>mixed_page_hint := - 1\<rparr>))" for h
    unfolding R_def by (intro exI[of _ h] exI[of _ "- 1"] exI[of _ "cons_page_hint g"]) simp
  moreover have "R (Inr (h, g\<lparr>cons_page_hint := - 1\<rparr>))" for h
    unfolding R_def by (intro exI[of _ h] exI[of _ "mixed_page_hint g"] exI[of _ "- 1"]) simp
  moreover have "\<not> page_type > 7" using assms by simp
  ultimately have "R (get_alloc_start_page page_type g)"
    unfolding get_alloc_start_page_def Let_def by simp
  then show ?thesis by (simp only: R_def)
qed

text \<open>What the search of a multi-page region gives.\<close>

lemma region_run:
  assumes "heap_ok g" and "open_type t" and n: "0 < nbytes"
    and "gc_find_freeish_pages h nbytes ((if nbytes \<ge> GENCGC_PAGE_BYTES then SINGLE_OBJECT_FLAG else 0) OR t)
           (gc_alloc_generation g) g = Inr (f, l, g')"
  shows "f \<le> l" "l < page_table_pages g" "g' = g\<lparr>next_free_page := max (next_free_page g) (l + 1)\<rparr>"
    "\<And>i. f < i \<Longrightarrow> i \<le> l \<Longrightarrow> page_free_p g i"
    "page_free_p g f \<or> ptype (page_table g f) = t \<and> pgen (page_table g f) = gc_alloc_generation g"
    "words_used_w (page_table g f) < 4096"
    "page_address g f + page_bytes_used g f + nbytes \<le> page_address g (l + 1)"
    "\<And>i. f < i \<Longrightarrow> i \<le> l \<Longrightarrow> offset_ok (page_address g i - (page_address g f + page_bytes_used g f))"
proof -
  note F = freeish_found[OF assms(4,3)]
  define m where "m = (\<not> nbytes \<ge> GENCGC_PAGE_BYTES)"
  have m: "((if nbytes \<ge> GENCGC_PAGE_BYTES then SINGLE_OBJECT_FLAG else 0) OR t) AND SINGLE_OBJECT_FLAG = 0 \<longleftrightarrow> m"
      "((if nbytes \<ge> GENCGC_PAGE_BYTES then SINGLE_OBJECT_FLAG else 0) OR t) AND NOT SINGLE_OBJECT_FLAG = t"
    using open_type_bits(7-10)[OF assms(2)] by (simp_all add: m_def)
  note F = F[unfolded m]
  have u: "usable_run g nbytes m t (gc_alloc_generation g) f l" and rb: "nbytes \<le> run_bytes g f l"
    "f < l \<Longrightarrow> run_bytes g f l < nbytes + 32768" using F by (simp_all add: GENCGC_PAGE_BYTES_def)
  show fl: "f \<le> l" and l: "l < page_table_pages g" using u by (simp_all add: usable_run_def)
  show "g' = g\<lparr>next_free_page := max (next_free_page g) (l + 1)\<rparr>" using F by blast
  show free: "page_free_p g i" if "f < i" "i \<le> l" for i using u that by (simp add: usable_run_def)
  have pok: "page_ok (page_table g f)" using heap_ok_page[OF assms(1)] fl l by simp
  have room: "page_room g f = 32768 - page_bytes_used g f"
    using page_okD(1)[OF pok] by (simp add: page_room_def page_bytes_used_def page_constants)
  have part: "page_free_p g f \<or> m \<and> 0 < page_room g f \<and> ptype (page_table g f) = t \<and>
      pgen (page_table g f) = gc_alloc_generation g"
    using u by (auto simp: usable_run_def page_extensible_p_def)
  then show "page_free_p g f \<or> ptype (page_table g f) = t \<and> pgen (page_table g f) = gc_alloc_generation g"
    by blast
  have fw: "words_used_w (page_table g f) = 0" if "page_free_p g f"
    using that pok page_okD(3) by (simp add: page_free_p_def)
  show w: "words_used_w (page_table g f) < 4096"
    using part fw room by (auto simp: page_bytes_used_def WORD_SHIFT_def)
  then have used: "page_bytes_used g f < 32768" by (simp add: page_bytes_used_def WORD_SHIFT_def)
  have "run_bytes g f l + page_bytes_used g f = 32768 + (l - f) * 32768"
    using part fw room used by (auto simp: run_bytes_def GENCGC_PAGE_BYTES_def page_bytes_used_def)
  then have rb': "run_bytes g f l + page_bytes_used g f = (l + 1 - f) * 32768"
    using fl by (simp add: Suc_diff_le)
  have pd: "page_address g (f + k) = page_address g f + k * 32768" for k
    by (simp add: page_address_def GENCGC_PAGE_BYTES_def algebra_simps)
  show "page_address g f + page_bytes_used g f + nbytes \<le> page_address g (l + 1)"
    using rb(1) rb' pd[of "l + 1 - f"] fl by simp
  show "offset_ok (page_address g i - (page_address g f + page_bytes_used g f))"
    if i: "f < i" "i \<le> l" for i
  proof (cases "page_bytes_used g f = 0")
    case True
    have "page_table_pages g < 2147483648" using assms(1) by (simp add: heap_ok_def)
    then have "i - f < 2147483647" using i l by linarith
    moreover have "page_address g i - (page_address g f + page_bytes_used g f) = (i - f) * 32768"
      using pd[of "i - f"] i True by simp
    ultimately show ?thesis by (simp add: offset_ok_def GENCGC_PAGE_BYTES_def)
  next
    case False
    then have "\<not> page_free_p g f" using fw by (auto simp: page_bytes_used_def)
    then have "nbytes < 32768" using part by (simp add: m_def GENCGC_PAGE_BYTES_def)
    then have "run_bytes g f l < 65536" using rb(2) i by simp
    moreover have "(l + 1 - f) * 32768 = (l - f) * 32768 + 32768" using fl by (simp add: Suc_diff_le)
    ultimately have "(l - f) * 32768 < 65536" using rb' used by linarith
    then have "i = f + 1" using i by simp
    then have "page_address g i - (page_address g f + page_bytes_used g f) = 32768 - page_bytes_used g f"
      using pd[of 1] by simp
    moreover have "16 dvd page_bytes_used g f"
      using page_okD(2)[OF pok] by (auto simp: page_bytes_used_def WORD_SHIFT_def elim!: evenE)
    moreover have "16 dvd (32768 :: nat)" by simp
    ultimately have "16 dvd page_address g i - (page_address g f + page_bytes_used g f)"
      "page_address g i - (page_address g f + page_bytes_used g f) < 32768"
      using False used by (simp_all add: dvd_diff_nat)
    then show ?thesis by (auto simp: offset_ok_def GENCGC_PAGE_BYTES_def)
  qed
qed

lemma page_address_Suc: "page_address g (Suc i) = page_address g i + 32768"
  by (simp add: page_address_def GENCGC_PAGE_BYTES_def)

lemma page_address_mono: "i \<le> j \<Longrightarrow> page_address g i \<le> page_address g j"
  by (simp add: page_address_def)

lemma alloc_region_multi:
  assumes ok: "heap_ok g" and t: "open_type t" and n: "0 < nbytes"
    and nt: "\<not> (t = PAGE_TYPE_CONS \<or> t = PAGE_TYPE_SMALL_MIXED)"
  shows "case gc_alloc_new_region_multi nbytes t r g of
      Inl e \<Rightarrow> \<exists>a. e = Heap_exhausted (int a) (int nbytes) \<and> a < nbytes
    | Inr (p, g') \<Rightarrow> \<exists>f l. opened g t r g' f l \<and> p = start_addr (region g' r) \<and>
        p + nbytes \<le> end_addr (region g' r)"
proof -
  obtain h m c where h: "get_alloc_start_page t g = Inr (h, g\<lparr>mixed_page_hint := m, cons_page_hint := c\<rparr>)"
    using get_alloc_start_page_ok[OF open_type_bits(6)[OF t]] by blast
  let ?g = "g\<lparr>mixed_page_hint := m, cons_page_hint := c\<rparr>"
  let ?pt = "(if nbytes \<ge> GENCGC_PAGE_BYTES then SINGLE_OBJECT_FLAG else 0) OR t"
  have ok1: "heap_ok ?g" using ok by (simp add: heap_ok_def)
  show ?thesis
  proof (cases "gc_find_freeish_pages h nbytes ?pt (gc_alloc_generation ?g) ?g")
    case (Inl e)
    then have "\<exists>a. e = Heap_exhausted (int a) (int nbytes) \<and> a < nbytes" using freeish_exhausted[OF Inl n] by blast
    then show ?thesis using h Inl by (simp add: gc_alloc_new_region_multi_def)
  next
    case (Inr x)
    obtain f l g2 where x: "x = (f, l, g2)" by (cases x)
    note R = region_run[OF ok1 t n Inr[unfolded x]]
    define g2' where "g2' = g\<lparr>mixed_page_hint := m, cons_page_hint := c, next_free_page := max (next_free_page g) (l + 1)\<rparr>"
    have g2: "g2 = g2'" using R(3) by (simp add: g2'_def)
    have c2: "page_table g2' = page_table g" "page_table_pages g2' = page_table_pages g"
      "page_address g2' = page_address g" "page_bytes_used g2' = page_bytes_used g"
      "gc_alloc_generation g2' = gc_alloc_generation g" "DYNAMIC_SPACE_START g2' = DYNAMIC_SPACE_START g"
      "region g2' = region g" "bytes_allocated g2' = bytes_allocated g"
      "generations_bytes g2' = generations_bytes g"
      by (simp_all add: g2'_def fun_eq_iff page_address_def page_bytes_used_def)
    have c1: "page_address ?g = page_address g" "page_bytes_used ?g = page_bytes_used g"
      "page_free_p ?g = page_free_p g"
      by (simp_all add: fun_eq_iff page_address_def page_bytes_used_def page_free_p_def)
    note R = R[unfolded c1, simplified]
    define start where "start = page_address g f + page_bytes_used g f"
    define v where "v = \<lparr>free_pointer = start, end_addr = page_address g (l + 1), start_addr = start\<rparr>"
    define g3 where "g3 = set_region r v g2'"
    have used: "page_bytes_used g f < 32768" using R(6) by (simp add: page_bytes_used_def WORD_SHIFT_def)
    have idx: "find_page_index g3 start = Some f"
      unfolding find_page_index_Some using R(1,2) used
      by (simp add: g3_def set_region_def g2'_def page_address_def start_def GENCGC_PAGE_BYTES_def)
    define g4 where "g4 = (if page_words_used g3 f \<noteq> 0 then g3 else set_page_gen f (gc_alloc_generation g3) g3)"
    have pt3: "page_table g3 = page_table g" "gc_alloc_generation g3 = gc_alloc_generation g"
      by (simp_all add: g3_def set_region_def c2)
    have pok: "page_ok (page_table g f)" using heap_ok_page[OF ok] R(1,2) by simp
    have nz: "ptype (page_table g f) = t \<and> pgen (page_table g f) = gc_alloc_generation g"
      if "page_words_used g3 f \<noteq> 0"
      using that R(5) page_okD(3)[OF pok] by (auto simp: page_words_used_def pt3 page_free_p_def)
    have s4: "(if page_words_used g3 f \<noteq> 0
        then gc_assert (ptype (page_table g3 f) = t)
               (gc_assert (pgen (page_table g3 f) = gc_alloc_generation g3) (Inr g3))
        else Inr (set_page_gen f (gc_alloc_generation g3) g3)) = Inr g4"
      using nz by (simp add: g4_def pt3 gc_assert_def)
    define g5 where "g5 = set_page_type f (OPEN_REGION_PAGE_FLAG OR t) g4"
    have pt5: "page_table g5 = (page_table g)(f := (page_table g f)\<lparr>pgen := gc_alloc_generation g,
        ptype := OPEN_REGION_PAGE_FLAG OR t\<rparr>)" "page_address g5 = page_address g"
        "gc_alloc_generation g5 = gc_alloc_generation g" "page_table_pages g5 = page_table_pages g"
        "DYNAMIC_SPACE_START g5 = DYNAMIC_SPACE_START g" "region g5 = (region g)(r := v)"
        "bytes_allocated g5 = bytes_allocated g" "generations_bytes g5 = generations_bytes g"
    proof -
      have 4: "page_table g4 = (page_table g)(f := (page_table g f)\<lparr>pgen := gc_alloc_generation g\<rparr>)"
      proof (cases "page_words_used g3 f \<noteq> 0")
        case True
        then have "(page_table g f)\<lparr>pgen := gc_alloc_generation g\<rparr> = page_table g f" using nz by simp
        then show ?thesis using True by (simp add: g4_def pt3)
      qed (simp add: g4_def set_page_gen_def pt3)
      then show "page_table g5 = (page_table g)(f := (page_table g f)\<lparr>pgen := gc_alloc_generation g,
          ptype := OPEN_REGION_PAGE_FLAG OR t\<rparr>)" by (simp add: g5_def set_page_type_def)
      have "page_table_pages g4 = page_table_pages g" "DYNAMIC_SPACE_START g4 = DYNAMIC_SPACE_START g"
        "gc_alloc_generation g4 = gc_alloc_generation g" "region g4 = (region g)(r := v)"
        "bytes_allocated g4 = bytes_allocated g" "generations_bytes g4 = generations_bytes g"
        by (simp_all add: g4_def set_page_gen_def g3_def set_region_def c2)
      then show "page_address g5 = page_address g"
        "gc_alloc_generation g5 = gc_alloc_generation g" "page_table_pages g5 = page_table_pages g"
        "DYNAMIC_SPACE_START g5 = DYNAMIC_SPACE_START g" "region g5 = (region g)(r := v)"
        "bytes_allocated g5 = bytes_allocated g" "generations_bytes g5 = generations_bytes g"
        by (simp_all add: g5_def set_page_type_def fun_eq_iff page_address_def)
    qed
    have pa: "start \<le> page_address g i" if "f < i" for i
      using used page_address_mono[of "Suc f" i g] that by (simp add: start_def page_address_Suc)
    obtain pt where pt: "for_each (open_page t start) [f + 1..<l + 1] g5 = Inr (g5\<lparr>page_table := pt\<rparr>)"
      "frame {f + 1..<l + 1} g5 (g5\<lparr>page_table := pt\<rparr>)"
      "\<forall>i\<in>{f + 1..<l + 1}. ptype (pt i) = (OPEN_REGION_PAGE_FLAG OR t) \<and> pgen (pt i) = gc_alloc_generation g5 \<and>
       words_used_w (pt i) = words_used_w (page_table g5 i) \<and>
       scan_start_offset_w (pt i) = stored_offset (page_address g5 i - start)"
      using open_pages[of "f + 1" "l + 1" start g5 t] R(8) pa by (auto simp: pt5 start_def)
    let ?g6 = "g5\<lparr>page_table := pt\<rparr>"
    define fresh where "fresh = (if page_words_used ?g6 f \<noteq> 0 then f + 1 else f)"
    obtain g7 where g7: "(if fresh \<le> l then prepare_pages fresh l t (gc_alloc_generation ?g6) ?g6 else Inr ?g6) = Inr g7"
      "frame {} ?g6 g7" "\<exists>pt m. g7 = ?g6\<lparr>page_table := pt, memory := m\<rparr>"
    proof (cases "fresh \<le> l")
      case True
      then show ?thesis using prepare_pages_frame[OF True, of t "gc_alloc_generation ?g6" ?g6] that by auto
    next
      case False
      have "?g6 = ?g6\<lparr>page_table := page_table ?g6, memory := memory ?g6\<rparr>" by simp
      then have "\<exists>pt m. ?g6 = ?g6\<lparr>page_table := pt, memory := m\<rparr>" by (intro exI)
      with False show ?thesis using that[of ?g6] frame_refl by simp
    qed
    have res: "gc_alloc_new_region_multi nbytes t r g = Inr (start, g7)"
      unfolding gc_alloc_new_region_multi_def h rbind.simps prod.case Inr[unfolded x] g2 Let_def c2
        start_def[symmetric] v_def[symmetric] g3_def[symmetric] idx gc_assert_def if_True refl s4[unfolded gc_assert_def]
        g5_def[symmetric] pt(1) fresh_def[symmetric] g7(1) by simp
    obtain pt' m' where g7e: "g7 = ?g6\<lparr>page_table := pt', memory := m'\<rparr>" using g7(3) by blast
    have reg7: "region g7 = (region g)(r := v)" by (simp add: g7e pt5)
    note f67 = frame_page[OF g7(2), simplified]
    have tail: "ptype (page_table g7 i) = (OPEN_REGION_PAGE_FLAG OR t) \<and>
        pgen (page_table g7 i) = gc_alloc_generation g \<and>
        words_used_w (page_table g7 i) = 0 \<and> words_used_w (page_table g i) = 0 \<and>
        ptype (page_table g i) = FREE_PAGE_FLAG \<and>
        scan_start_offset_w (page_table g7 i) = stored_offset (page_address g i - start)"
      if i: "f < i" "i \<le> l" for i
    proof -
      have "page_ok (page_table g i)" using heap_ok_page[OF ok] i R(2) by simp
      moreover have "ptype (page_table g i) = FREE_PAGE_FLAG" using R(4)[OF i] by (simp add: page_free_p_def)
      ultimately have "words_used_w (page_table g i) = 0" "ptype (page_table g i) = FREE_PAGE_FLAG"
        using page_okD(3) by auto
      then show ?thesis using pt(3) i by (simp add: f67 pt5)
    qed
    have hd: "ptype (page_table g7 f) = (OPEN_REGION_PAGE_FLAG OR t) \<and>
        pgen (page_table g7 f) = gc_alloc_generation g \<and>
        words_used_w (page_table g7 f) = words_used_w (page_table g f) \<and>
        scan_start_offset_w (page_table g7 f) = scan_start_offset_w (page_table g f)"
      using frame_page[OF pt(2), of f] by (simp add: f67 pt5)
    have fr: "frame {f..l} g g7" unfolding frame_def
    proof (intro conjI allI impI)
      fix i assume "i \<notin> {f..l}"
      then show "ptype (page_table g7 i) = ptype (page_table g i)" "pgen (page_table g7 i) = pgen (page_table g i)"
        "words_used_w (page_table g7 i) = words_used_w (page_table g i)"
        "scan_start_offset_w (page_table g7 i) = scan_start_offset_w (page_table g i)"
        using frame_page[OF pt(2), of i] R(1) by (auto simp: f67 pt5)
    qed (simp_all add: g7e pt5)
    note c7 = frame_const[OF fr]
    have sso: "scan_start_offset_w (page_table g f) = 0" if "words_used_w (page_table g f) = 0"
      using page_okD(4)[OF pok that] R(5) open_type_bits(10)[OF t] t
      by (auto simp: page_free_p_def page_types open_type_def)
    have "region_open g7 r t f l"
      unfolding region_open_def Let_def reg7 v_def fun_upd_same alloc_region.simps
    proof (intro conjI ballI)
      fix i assume "i \<in> {f<..l}"
      then show "region_tail_page t (gc_alloc_generation g7) (page_address g7 i - start) (page_table g7 i)"
        using tail[of i] R(8)[of i] by (simp add: region_tail_page_def c7 start_def)
    next
      show "start = page_address g7 f + page_bytes_used g7 f"
        using hd by (simp add: start_def c7 page_bytes_used_def)
      show "start \<le> page_address g (l + 1)" using R(7) by (simp add: start_def)
      show "t = PAGE_TYPE_CONS \<or> t = PAGE_TYPE_SMALL_MIXED \<longrightarrow> l = f" using nt by blast
    qed (use t R(1,2,6) hd sso in \<open>simp_all add: c7 page_address_Suc GENCGC_PAGE_WORDS_def\<close>)
    moreover have "\<forall>i\<in>{f..l}. i = f \<or> f < i \<and> i \<le> l" by auto
    moreover have "ptype (page_table g f) = FREE_PAGE_FLAG \<or> ptype (page_table g f) = t"
      using R(5) by (auto simp: page_free_p_def)
    moreover have "pgen (page_table g7 f) = pgen (page_table g f) \<or> words_used_w (page_table g f) = 0"
      using hd nz by (auto simp: page_words_used_def pt3)
    ultimately have "opened g t r g7 f l"
      using fr tail hd unfolding opened_def by (auto simp: reg7 v_def g7e pt5)
    then show ?thesis using R(7) by (auto simp: res reg7 v_def start_def)
  qed
qed

lemma card_limit:
  fixes a b :: nat
  assumes "a < b" "GENCGC_CARD_BYTES dvd b"
  shows "a < a div GENCGC_CARD_BYTES * GENCGC_CARD_BYTES + GENCGC_CARD_BYTES"
    "a div GENCGC_CARD_BYTES * GENCGC_CARD_BYTES + GENCGC_CARD_BYTES \<le> b"
proof -
  show "a < a div GENCGC_CARD_BYTES * GENCGC_CARD_BYTES + GENCGC_CARD_BYTES"
    using div_mult_mod_eq[of a 1024] mod_less_divisor[of 1024 a] by (simp add: GENCGC_CARD_BYTES_def)
  obtain k where k: "b = k * 1024" using assms(2) by (auto simp: GENCGC_CARD_BYTES_def dvd_def)
  then have "a div 1024 < k" using assms(1) by (simp add: less_mult_imp_div_less)
  then have "Suc (a div 1024) * 1024 \<le> k * 1024" by (intro mult_le_mono1) simp
  then show "a div GENCGC_CARD_BYTES * GENCGC_CARD_BYTES + GENCGC_CARD_BYTES \<le> b"
    using k by (simp add: GENCGC_CARD_BYTES_def)
qed

lemma find_single_page_ok:
  assumes "t = PAGE_TYPE_CONS \<or> t = PAGE_TYPE_SMALL_MIXED"
    and "8 \<le> nbytes" "nbytes \<le> (if t = PAGE_TYPE_CONS then CONS_PAGE_USABLE_BYTES else GENCGC_PAGE_BYTES)"
  shows "case find_single_page t nbytes n g of
      Inl e \<Rightarrow> \<exists>a. e = Heap_exhausted a (int nbytes)
    | Inr p \<Rightarrow> p < page_table_pages g \<and>
        (page_free_p g p \<or> ptype (page_table g p) = t \<and> pgen (page_table g p) = n) \<and>
        page_bytes_used g p + nbytes div 8 * 8 \<le>
          (if t = PAGE_TYPE_CONS then CONS_PAGE_USABLE_BYTES else GENCGC_PAGE_BYTES)"
proof -
  let ?m = "if t = PAGE_TYPE_CONS then int (CONS_SIZE * MAX_CONSES_PER_PAGE)
    else int (GENCGC_PAGE_BYTES div N_WORD_BYTES)"
  let ?c = "if t = PAGE_TYPE_CONS then 4094 else 4096 :: nat"
  have c: "nbytes div 8 \<le> ?c" using assms by (auto simp: page_constants page_types split: if_splits)
  then have "(?m - int (nbytes div 2 ^ WORD_SHIFT)) mod 2 ^ 16 = int (?c - nbytes div 8)"
    by (auto simp: page_constants of_nat_diff mod_pos_pos_trivial)
  then have a: "int w \<le> (?m - int (nbytes div 2 ^ WORD_SHIFT)) mod 2 ^ 16 \<longleftrightarrow> w + nbytes div 8 \<le> ?c" for w
    using c by (simp only: of_nat_le_iff) linarith
  show ?thesis
    using assms(1,3) unfolding find_single_page_def Let_def a
    by (auto simp: gc_assert_def page_constants page_types page_extensible_p_def page_words_used_def
        page_bytes_used_def find_upt_Some split: option.splits)
qed

lemma alloc_region_single:
  assumes ok: "heap_ok g" and t: "t = PAGE_TYPE_CONS \<or> t = PAGE_TYPE_SMALL_MIXED"
    and n: "8 dvd nbytes" "0 < nbytes"
      "nbytes \<le> (if t = PAGE_TYPE_CONS then CONS_PAGE_USABLE_BYTES else GENCGC_PAGE_BYTES)"
  shows "case gc_alloc_new_region_single nbytes t r g of
      Inl e \<Rightarrow> \<exists>a. e = Heap_exhausted a (int nbytes)
    | Inr (p, g') \<Rightarrow> \<exists>f. opened g t r g' f f \<and> p = start_addr (region g' r) \<and>
        p + nbytes \<le> page_address g (f + 1) \<and>
        (if t = PAGE_TYPE_CONS then p + nbytes \<le> end_addr (region g' r)
         else end_addr (region g' r) = p div GENCGC_CARD_BYTES * GENCGC_CARD_BYTES + GENCGC_CARD_BYTES)"
proof -
  have n8: "8 \<le> nbytes" using n(1,2) by (simp add: dvd_imp_le)
  note F = find_single_page_ok[OF t n8 n(3), where n = "gc_alloc_generation g" and g = g]
  show ?thesis
  proof (cases "find_single_page t nbytes (gc_alloc_generation g) g")
    case (Inl e)
    then show ?thesis using F by (simp add: gc_alloc_new_region_single_def)
  next
    case (Inr p)
    have ot: "open_type t" using t by (auto simp: open_type_def)
    have p: "p < page_table_pages g"
      "page_free_p g p \<or> ptype (page_table g p) = t \<and> pgen (page_table g p) = gc_alloc_generation g"
      "page_bytes_used g p + nbytes \<le> (if t = PAGE_TYPE_CONS then CONS_PAGE_USABLE_BYTES else GENCGC_PAGE_BYTES)"
      using F Inr n(1) by (simp_all add: dvd_div_mult_self)
    have used: "page_bytes_used g p < 32768"
      using p(3) n(2) by (auto simp: page_constants split: if_splits)
    have pok: "page_ok (page_table g p)" using heap_ok_page[OF ok p(1)] .
    have nz: "pgen (page_table g p) = gc_alloc_generation g \<or> words_used_w (page_table g p) = 0"
      using p(2) page_okD(3)[OF pok] by (auto simp: page_free_p_def)
    define g0 where "g0 = (if p + 1 > next_free_page g then g\<lparr>next_free_page := p + 1\<rparr> else g)"
    define g1 where "g1 = set_page_type p (OPEN_REGION_PAGE_FLAG OR t)
        (set_page_gen p (gc_alloc_generation g0) g0)"
    have g1: "page_table g1 = (page_table g)(p := (page_table g p)\<lparr>pgen := gc_alloc_generation g,
        ptype := OPEN_REGION_PAGE_FLAG OR t\<rparr>)"
      "page_table_pages g1 = page_table_pages g" "DYNAMIC_SPACE_START g1 = DYNAMIC_SPACE_START g"
      "gc_alloc_generation g1 = gc_alloc_generation g" "region g1 = region g"
      "bytes_allocated g1 = bytes_allocated g" "generations_bytes g1 = generations_bytes g"
      by (simp_all add: g1_def g0_def set_page_type_def set_page_gen_def)
    obtain g2 where g2: "(if page_words_used g1 p = 0 then prepare_pages p p t (gc_alloc_generation g1) g1
        else Inr g1) = Inr g2" "frame {} g1 g2" "\<exists>pt m. g2 = g1\<lparr>page_table := pt, memory := m\<rparr>"
    proof (cases "page_words_used g1 p = 0")
      case True
      then show ?thesis
        using prepare_pages_frame[OF order_refl, of p t "gc_alloc_generation g1" g1] that by auto
    next
      case False
      have "g1 = g1\<lparr>page_table := page_table g1, memory := memory g1\<rparr>" by simp
      then have "\<exists>pt m. g1 = g1\<lparr>page_table := pt, memory := m\<rparr>" by (intro exI)
      with False show ?thesis using that[of g1] frame_refl by simp
    qed
    note c2 = frame_const[OF g2(2)] and f2 = frame_page[OF g2(2), simplified]
    have e2: "region g2 = region g" "bytes_allocated g2 = bytes_allocated g"
      "generations_bytes g2 = generations_bytes g" using g2(3) by (auto simp: g1)
    define start where "start = page_address g p + page_bytes_used g p"
    have a2: "page_address g2 = page_address g" by (simp add: fun_eq_iff page_address_def c2 g1)
    have u2: "page_bytes_used g2 p = page_bytes_used g p" by (simp add: page_bytes_used_def f2 g1)
    define limit where "limit = (if t = PAGE_TYPE_CONS then page_address g p + CONS_PAGE_USABLE_BYTES
                  else start div GENCGC_CARD_BYTES * GENCGC_CARD_BYTES + GENCGC_CARD_BYTES)"
    define g3 where "g3 = set_region r \<lparr>free_pointer = start, end_addr = limit, start_addr = start\<rparr> g2"
    have idx: "find_page_index g3 start = Some p"
      unfolding find_page_index_Some using p(1) used
      by (simp add: g3_def set_region_def c2 g1 page_address_def start_def GENCGC_PAGE_BYTES_def)
    have res: "gc_alloc_new_region_single nbytes t r g = Inr (start, g3)"
      unfolding gc_alloc_new_region_single_def Inr rbind.simps Let_def g0_def[symmetric] g1_def[symmetric] g2(1) a2 u2
        start_def[symmetric] limit_def[symmetric] g3_def[symmetric] idx gc_assert_def by simp
    have pe: "page_address g (p + 1) = page_address g p + 32768" by (simp add: page_address_Suc)
    have ca: "GENCGC_CARD_BYTES dvd page_address g (p + 1)"
    proof -
      have "GENCGC_CARD_BYTES dvd DYNAMIC_SPACE_START g"
        using ok by (auto simp: heap_ok_def page_constants intro: dvd_trans[rotated])
      then show ?thesis by (auto simp: page_address_def page_constants intro!: dvd_add dvd_mult)
    qed
    have lim: "start \<le> limit" "page_address g p < limit" "limit \<le> page_address g (p + 1)"
    proof -
      have "start < page_address g (p + 1)" using used pe by (simp add: start_def)
      from card_limit[OF this ca] p(3)
      show "start \<le> limit" "page_address g p < limit" "limit \<le> page_address g (p + 1)"
        by (auto simp: limit_def start_def page_address_Suc page_constants split: if_splits)
    qed
    have p3: "page_table g3 = page_table g2" by (simp add: g3_def set_region_def)
    have fr: "frame {p..p} g g3"
      by (simp add: frame_def p3 f2 g1) (simp add: g3_def set_region_def c2 g1)
    note c3 = frame_const[OF fr]
    have reg3: "region g3 = (region g)(r := \<lparr>free_pointer = start, end_addr = limit, start_addr = start\<rparr>)"
      by (simp add: g3_def set_region_def e2)
    have sso: "scan_start_offset_w (page_table g p) = 0" if "words_used_w (page_table g p) = 0"
      using page_okD(4)[OF pok that] p(2) open_type_bits(10)[OF ot] ot
      by (auto simp: page_free_p_def page_types open_type_def)
    have "region_open g3 r t p p"
      unfolding region_open_def Let_def reg3 fun_upd_same alloc_region.simps
      using ot p(1) lim used sso
      by (simp add: c3 p3 f2 g1 start_def page_bytes_used_def WORD_SHIFT_def GENCGC_PAGE_WORDS_def)
    then have "opened g t r g3 p p"
      using fr p(2) nz unfolding opened_def
      by (auto simp: reg3 p3 f2 g1 e2 page_free_p_def g3_def set_region_def)
    moreover have "start + nbytes \<le> page_address g (p + 1)" "t = PAGE_TYPE_CONS \<Longrightarrow> start + nbytes \<le> limit"
      using p(3) pe by (auto simp: start_def limit_def page_constants split: if_splits)
    ultimately show ?thesis by (auto simp: res reg3 limit_def)
  qed
qed

end
