(* ===== verification/AllocClose.thy ===== *)
theory AllocClose
  imports AllocInv
begin

text \<open>
  Closing an allocation region: \<open>gc_close_region\<close> on an open region of a well-formed heap passes
  all its assertions, gives the pages behind the free pointer back, and adds exactly the bytes
  allocated in the region to the accounts of the heap and of the generation.
\<close>

unbundle bit_operations_syntax

lemma set_page_usage:
  assumes "i < page_table_pages g" and "words_used_w (page_table g i) = w"
    and "words_used_w p = w + k" and "pgen p = pgen (page_table g i)"
  shows "usage (set_page i (\<lambda>_. p) g) = usage g + 8 * k"
    "gen_usage (set_page i (\<lambda>_. p) g) n = gen_usage g n + (if n = pgen (page_table g i) then 8 * k else 0)"
proof -
  have b: "page_bytes_used (set_page i (\<lambda>_. p) g) i = page_bytes_used g i + 8 * k"
    using assms(2,3) by (simp add: page_bytes_used_def WORD_SHIFT_def)
  show "usage (set_page i (\<lambda>_. p) g) = usage g + 8 * k"
    by (rule usage_grow(1)[OF _ assms(1) _ b]) (use assms(4) in simp_all)
  show "gen_usage (set_page i (\<lambda>_. p) g) n = gen_usage g n + (if n = pgen (page_table g i) then 8 * k else 0)"
    by (rule usage_grow(2)[OF _ assms(1) _ b]) (use assms(4) in simp_all)
qed

lemma set_page_const: "set_page i f g = set_page i (\<lambda>_. f (page_table g i)) g"
  by (simp add: set_page_def)

lemma set_page_frame: "frame {i} g (set_page i f g)"
  by (simp add: frame_def)

text \<open>The loop over the pages behind the first.\<close>

lemma close_pages_ok:
  assumes "open_type t" and "l < page_table_pages g" and "k \<le> l + 1"
    and "pb + 32768 = page_address g k" and "fp \<le> page_address g (l + 1)"
    and "s < pb + 32768" and "s \<le> fp" and "16 dvd (fp - s)"
    and "\<And>i. k \<le> i \<Longrightarrow> i \<le> l \<Longrightarrow>
      region_tail_page t (gc_alloc_generation g) (page_address g i - s) (page_table g i)"
  shows "\<exists>n pt. close_pages t s fp k pb rs g =
      Inr (n, rs + (fp - page_address g k), g\<lparr>page_table := pt\<rparr>) \<and>
    k \<le> n \<and> n \<le> l + 1 \<and> fp \<le> page_address g n \<and> (k < n \<longrightarrow> page_address g (n - 1) < fp) \<and>
    frame {k..<n} g (g\<lparr>page_table := pt\<rparr>) \<and>
    (\<forall>i\<in>{k..<n}. page_ok (pt i) \<and> ptype (pt i) = t \<and>
       words_used_w (pt i) = min (fp - page_address g i) 32768 div 8) \<and>
    usage (g\<lparr>page_table := pt\<rparr>) = usage g + (fp - page_address g k) \<and>
    (\<forall>m. gen_usage (g\<lparr>page_table := pt\<rparr>) m =
       gen_usage g m + (if m = gc_alloc_generation g then fp - page_address g k else 0))"
  using assms
proof (induction "l + 1 - k" arbitrary: k pb rs g)
  case 0
  then have k: "k = l + 1" by simp
  then have "\<not> fp - pb > GENCGC_PAGE_BYTES" using "0.prems"(4,5) by (simp add: GENCGC_PAGE_BYTES_def)
  then have "close_pages t s fp k pb rs g = Inr (k, rs, g)" by (subst close_pages.simps) simp
  then show ?case using k "0.prems"(5)
    by (intro exI[of _ k] exI[of _ "page_table g"]) (simp add: frame_refl)
next
  case (Suc x)
  show ?case
  proof (cases "fp - pb > GENCGC_PAGE_BYTES")
    case False
    then have "fp \<le> page_address g k" using Suc.prems(4) by (simp add: GENCGC_PAGE_BYTES_def)
    moreover have "close_pages t s fp k pb rs g = Inr (k, rs, g)"
      using False by (subst close_pages.simps) simp
    ultimately show ?thesis using Suc.prems(3)
      by (intro exI[of _ k] exI[of _ "page_table g"]) (simp add: frame_refl)
  next
    case True
    have kl: "k \<le> l" using Suc.hyps(2) by simp
    then have kn: "k < page_table_pages g" using Suc.prems(2) by simp
    have gt: "page_address g k < fp" using True Suc.prems(4) by (simp add: GENCGC_PAGE_BYTES_def)
    note T = Suc.prems(9)[OF order_refl kl, unfolded region_tail_page_def]
    let ?bu = "min (fp - page_address g k) 32768"
    have dv: "16 dvd fp - page_address g k"
    proof -
      have "16 dvd page_address g k - s" using T by (simp add: offset_ok_def)
      then have "16 dvd (fp - s) - (page_address g k - s)" using Suc.prems(8) by (rule dvd_diff_nat[rotated])
      moreover have "(fp - s) - (page_address g k - s) = fp - page_address g k"
        using gt Suc.prems(4,6) by simp
      ultimately show ?thesis by simp
    qed
    have bd: "16 dvd ?bu" using dv by (simp add: min_def)
    have b0: "0 < ?bu" using gt by simp
    obtain w where w: "?bu = 16 * w" using bd by (elim dvdE)
    define p where "p = (page_table g k)\<lparr>ptype := t, words_used_w := ?bu div 8\<rparr>"
    define g1 where "g1 = set_page k (\<lambda>_. p) g"
    have pw: "words_used_w p = 2 * w" "0 < w" "2 * w \<le> 4096"
      using w b0 by (simp_all add: p_def)
    have pok: "page_ok p" using pw open_type_bits(3)[OF Suc.prems(1)]
      by (simp add: page_ok_def page_constants) (simp add: p_def)
    have g1: "set_page_bytes_used k ?bu
        (set_page_type k (ptype (page_table g k) XOR OPEN_REGION_PAGE_FLAG) g) = g1"
      using T open_type_bits(5)[OF Suc.prems(1)] w pw(3)
      by (simp add: set_page_bytes_used_def set_page_type_def set_page_def g1_def p_def WORD_SHIFT_def)
    have o: "page_scan_start_offset (set_page_type k (ptype (page_table g k) XOR OPEN_REGION_PAGE_FLAG) g) k =
        pb + GENCGC_PAGE_BYTES - s"
      using T Suc.prems(4) get_offset_ok[of _ k "page_address g k - s"]
      by (simp add: set_page_type_def GENCGC_PAGE_BYTES_def)
    have step: "close_pages t s fp k pb rs g =
        close_pages t s fp (k + 1) (pb + GENCGC_PAGE_BYTES) (rs + ?bu) g1"
      using True T Suc.prems(4,6) o g1
      by (subst close_pages.simps)
        (simp add: gc_assert_def page_words_used_def set_page_type_def GENCGC_PAGE_BYTES_def Let_def)
    have a1: "page_address g1 = page_address g" by (simp add: g1_def fun_eq_iff page_address_def)
    have c1: "gc_alloc_generation g1 = gc_alloc_generation g" "page_table_pages g1 = page_table_pages g"
      by (simp_all add: g1_def)
    have u1: "usage g1 = usage g + ?bu"
      "gen_usage g1 m = gen_usage g m + (if m = gc_alloc_generation g then ?bu else 0)" for m
      using set_page_usage[OF kn _ , of 0 p "2 * w"] T pw w by (simp_all add: g1_def p_def)
    have "\<exists>n pt. close_pages t s fp (k + 1) (pb + GENCGC_PAGE_BYTES) (rs + ?bu) g1 =
      Inr (n, rs + ?bu + (fp - page_address g1 (k + 1)), g1\<lparr>page_table := pt\<rparr>) \<and>
      k + 1 \<le> n \<and> n \<le> l + 1 \<and> fp \<le> page_address g1 n \<and> (k + 1 < n \<longrightarrow> page_address g1 (n - 1) < fp) \<and>
      frame {k + 1..<n} g1 (g1\<lparr>page_table := pt\<rparr>) \<and>
      (\<forall>i\<in>{k + 1..<n}. page_ok (pt i) \<and> ptype (pt i) = t \<and>
         words_used_w (pt i) = min (fp - page_address g1 i) 32768 div 8) \<and>
      usage (g1\<lparr>page_table := pt\<rparr>) = usage g1 + (fp - page_address g1 (k + 1)) \<and>
      (\<forall>m. gen_usage (g1\<lparr>page_table := pt\<rparr>) m =
         gen_usage g1 m + (if m = gc_alloc_generation g1 then fp - page_address g1 (k + 1) else 0))"
    proof (rule Suc.hyps(1))
      show "x = l + 1 - (k + 1)" using Suc.hyps(2) by simp
      show "region_tail_page t (gc_alloc_generation g1) (page_address g1 i - s) (page_table g1 i)"
        if "k + 1 \<le> i" "i \<le> l" for i
        using Suc.prems(9)[of i] that by (simp add: g1_def page_address_def)
    qed (use Suc.prems kl in \<open>simp_all add: a1 c1 page_address_Suc GENCGC_PAGE_BYTES_def\<close>)
    then obtain n pt where R: "close_pages t s fp (k + 1) (pb + GENCGC_PAGE_BYTES) (rs + ?bu) g1 =
        Inr (n, rs + ?bu + (fp - page_address g (k + 1)), g1\<lparr>page_table := pt\<rparr>)"
      "k + 1 \<le> n" "n \<le> l + 1" "fp \<le> page_address g n" "k + 1 < n \<longrightarrow> page_address g (n - 1) < fp"
      "frame {k + 1..<n} g1 (g1\<lparr>page_table := pt\<rparr>)"
      "\<forall>i\<in>{k + 1..<n}. page_ok (pt i) \<and> ptype (pt i) = t \<and>
         words_used_w (pt i) = min (fp - page_address g i) 32768 div 8"
      "usage (g1\<lparr>page_table := pt\<rparr>) = usage g1 + (fp - page_address g (k + 1))"
      "\<forall>m. gen_usage (g1\<lparr>page_table := pt\<rparr>) m =
         gen_usage g1 m + (if m = gc_alloc_generation g then fp - page_address g (k + 1) else 0)"
      unfolding a1 c1 by blast
    have e1: "g1\<lparr>page_table := pt\<rparr> = g\<lparr>page_table := pt\<rparr>" by (simp add: g1_def set_page_def)
    have sum: "?bu + (fp - page_address g (k + 1)) = fp - page_address g k"
      by (simp add: page_address_Suc min_def)
    have k: "ptype (pt k) = t" "words_used_w (pt k) = ?bu div 8" "page_ok (pt k)"
      using frame_page[OF R(6), of k] pok by (simp_all add: g1_def p_def page_ok_def)
    have "frame {k..<n} g (g\<lparr>page_table := pt\<rparr>)"
      using frame_trans[OF frame_mono[OF set_page_frame[of k g "\<lambda>_. p", folded g1_def]] frame_mono[OF R(6)],
          of "{k..<n}"] R(2) by (simp add: e1)
    moreover have "\<forall>i\<in>{k..<n}. page_ok (pt i) \<and> ptype (pt i) = t \<and>
         words_used_w (pt i) = min (fp - page_address g i) 32768 div 8"
    proof
      fix i assume "i \<in> {k..<n}"
      then consider "i = k" | "i \<in> {k + 1..<n}" by fastforce
      then show "page_ok (pt i) \<and> ptype (pt i) = t \<and>
         words_used_w (pt i) = min (fp - page_address g i) 32768 div 8"
        using k R(7) by cases simp_all
    qed
    moreover have "k < n \<longrightarrow> page_address g (n - 1) < fp" using R(2,5) gt by (cases "n = k + 1") simp_all
    moreover have "usage (g\<lparr>page_table := pt\<rparr>) = usage g + (fp - page_address g k)"
      using R(8) u1(1) sum by (simp add: e1)
    moreover have "\<forall>m. gen_usage (g\<lparr>page_table := pt\<rparr>) m =
       gen_usage g m + (if m = gc_alloc_generation g then fp - page_address g k else 0)"
      using R(9) u1(2) sum by (simp add: e1)
    ultimately show ?thesis
      using R(1,2,3,4) sum by (intro exI[of _ n] exI[of _ pt]) (simp add: step e1)
  qed
qed

text \<open>The loop that frees the unused pages.\<close>

lemma reset_page_flags_ok:
  "frame {i} g (reset_page_flags i g)"
  "page_table (reset_page_flags i g) i =
     (page_table g i)\<lparr>scan_start_offset_w := 0, ptype := FREE_PAGE_FLAG\<rparr>"
  "region (reset_page_flags i g) = region g"
  "bytes_allocated (reset_page_flags i g) = bytes_allocated g"
  "generations_bytes (reset_page_flags i g) = generations_bytes g"
  by (simp_all add: reset_page_flags_def set_page_type_def assign_page_card_marks_def frame_def Let_def)

lemma free_unused_pages:
  assumes "\<And>i. a \<le> i \<Longrightarrow> i < b \<Longrightarrow> words_used_w (page_table g i) = 0"
  shows "\<exists>g'. for_each free_unused_page [a..<b] g = Inr g' \<and> frame {a..<b} g g' \<and>
    region g' = region g \<and> bytes_allocated g' = bytes_allocated g \<and>
    generations_bytes g' = generations_bytes g \<and>
    (\<forall>i. pgen (page_table g' i) = pgen (page_table g i) \<and>
       words_used_w (page_table g' i) = words_used_w (page_table g i)) \<and>
    (\<forall>i\<in>{a..<b}. ptype (page_table g' i) = FREE_PAGE_FLAG \<and> scan_start_offset_w (page_table g' i) = 0)"
  using assms
proof (induction b)
  case 0
  then show ?case by (simp add: frame_refl)
next
  case (Suc b)
  show ?case
  proof (cases "a \<le> b")
    case False
    then show ?thesis by (simp add: frame_refl)
  next
    case True
    obtain g1 where g1: "for_each free_unused_page [a..<b] g = Inr g1" "frame {a..<b} g g1"
      "region g1 = region g" "bytes_allocated g1 = bytes_allocated g"
      "generations_bytes g1 = generations_bytes g"
      "\<forall>i. pgen (page_table g1 i) = pgen (page_table g i) \<and>
         words_used_w (page_table g1 i) = words_used_w (page_table g i)"
      "\<forall>i\<in>{a..<b}. ptype (page_table g1 i) = FREE_PAGE_FLAG \<and> scan_start_offset_w (page_table g1 i) = 0"
      using Suc by auto
    let ?g = "reset_page_flags b g1"
    note R = reset_page_flags_ok[of b g1]
    have "page_words_used g1 b = 0" using Suc.prems[of b] True g1(6) by (simp add: page_words_used_def)
    then have 1: "for_each free_unused_page [a..<Suc b] g = Inr ?g"
      using True g1(1) by (simp add: for_each_append free_unused_page_def gc_assert_def)
    have 2: "frame {a..<Suc b} g ?g"
      by (rule frame_trans[OF frame_mono[OF g1(2)] frame_mono[OF R(1)]]) (use True in auto)
    have 3: "pgen (page_table ?g i) = pgen (page_table g i) \<and>
         words_used_w (page_table ?g i) = words_used_w (page_table g i)" for i
      using g1(6) R(2) frame_page[OF R(1), of i] by (cases "i = b") simp_all
    have 4: "ptype (page_table ?g i) = FREE_PAGE_FLAG \<and> scan_start_offset_w (page_table ?g i) = 0"
      if "i \<in> {a..<Suc b}" for i
      using g1(7) R(2) frame_page[OF R(1), of i] that by (cases "i = b") simp_all
    show ?thesis using 1 2 3 4 R(3-5) g1(3-5) by auto
  qed
qed

section \<open>Closing a region\<close>

text \<open>What closing region \<open>r\<close>, which held the pages \<open>f\<close> to \<open>l\<close>, comes to.\<close>

definition closed :: "gc \<Rightarrow> u8 \<Rightarrow> nat \<Rightarrow> gc \<Rightarrow> nat \<Rightarrow> nat \<Rightarrow> bool" where
  "closed g t r g' f l \<longleftrightarrow>
     (let start = start_addr (region g r); fp = free_pointer (region g r) in
      frame {f..l} g g' \<and>
      region g' = (region g)(r := \<lparr>free_pointer = 0x1000, end_addr = 0x1000, start_addr = 0\<rparr>) \<and>
      bytes_allocated g' = bytes_allocated g + (fp - start) \<and> usage g' = usage g + (fp - start) \<and>
      (\<forall>m. generations_bytes g' m = generations_bytes g m + (if m = gc_alloc_generation g then fp - start else 0)) \<and>
      (\<forall>m. gen_usage g' m = gen_usage g m + (if m = gc_alloc_generation g then fp - start else 0)) \<and>
      (\<forall>i\<in>{f..l}. page_ok (page_table g' i) \<and>
         (if page_address g i < fp
          then ptype (page_table g' i) = t \<and> page_bytes_used g' i = min (fp - page_address g i) GENCGC_PAGE_BYTES
          else ptype (page_table g' i) = FREE_PAGE_FLAG)))"

lemma region_openD:
  assumes "region_open g r t f l"
  shows "open_type t" "f \<le> l" "l < page_table_pages g"
    "start_addr (region g r) = page_address g f + page_bytes_used g f"
    "page_address g l < end_addr (region g r)" "end_addr (region g r) \<le> page_address g (l + 1)"
    "start_addr (region g r) \<le> free_pointer (region g r)"
    "free_pointer (region g r) \<le> end_addr (region g r)"
    "16 dvd (free_pointer (region g r) - start_addr (region g r))"
    "ptype (page_table g f) = (OPEN_REGION_PAGE_FLAG OR t)"
    "pgen (page_table g f) = gc_alloc_generation g"
    "words_used_w (page_table g f) < 4096"
    "words_used_w (page_table g f) = 0 \<Longrightarrow> scan_start_offset_w (page_table g f) = 0"
    "t = PAGE_TYPE_CONS \<or> t = PAGE_TYPE_SMALL_MIXED \<Longrightarrow> l = f"
  using assms[unfolded region_open_def Let_def GENCGC_PAGE_WORDS_def] by blast+

lemma region_start_index:
  assumes "region_open g r t f l"
  shows "find_page_index g (start_addr (region g r)) = Some f"
    "find_page_index g (end_addr (region g r) - 1) = Some l"
proof -
  note R = region_openD[OF assms]
  have "page_bytes_used g f < 32768" using R(12) by (simp add: page_bytes_used_def WORD_SHIFT_def)
  then show "find_page_index g (start_addr (region g r)) = Some f"
    unfolding find_page_index_Some using R(2-4) by (simp add: GENCGC_PAGE_BYTES_def)
  show "find_page_index g (end_addr (region g r) - 1) = Some l"
    unfolding find_page_index_Some using R(3,5,6)
    by (simp add: GENCGC_PAGE_BYTES_def page_address_Suc) linarith
qed

lemma add_new_area_frame:
  "frame {} g (add_new_area f off n g)" "region (add_new_area f off n g) = region g"
  "bytes_allocated (add_new_area f off n g) = bytes_allocated g"
  "generations_bytes (add_new_area f off n g) = generations_bytes g"
  "page_table (add_new_area f off n g) = page_table g" "memory (add_new_area f off n g) = memory g"
  by (simp_all add: add_new_area_def Let_def frame_def split: option.splits)

lemma set_alloc_start_page_ok:
  assumes "t \<le> 7"
  shows "\<exists>g'. set_alloc_start_page t i g = Inr g' \<and> frame {} g g' \<and> region g' = region g \<and>
    bytes_allocated g' = bytes_allocated g \<and> generations_bytes g' = generations_bytes g \<and>
    page_table g' = page_table g"
proof -
  have "\<not> t > 7" using assms by simp
  then show ?thesis by (simp add: set_alloc_start_page_def frame_def)
qed

lemma usage_frame:
  assumes "frame {} g g'"
  shows "usage g' = usage g" "gen_usage g' m = gen_usage g m"
  using usage_update[OF frame_const(1)[OF assms]] frame_page[OF assms] by simp_all

lemma page_mult_16:
  assumes "heap_ok g"
  shows "16 dvd page_address g i"
proof -
  have "32768 dvd DYNAMIC_SPACE_START g" using assms by (simp add: heap_ok_def GENCGC_PAGE_BYTES_def)
  then have "32768 dvd page_address g i" by (simp add: page_address_def GENCGC_PAGE_BYTES_def)
  then show ?thesis by (rule dvd_trans[rotated]) simp
qed

text \<open>The part of the work for a region in which something was allocated: the state before is the
  one in which the first page is already marked as closed.\<close>

lemma close_used_region_ok:
  assumes ok: "heap_ok g0" and o: "region_open g0 r t f l"
    and used: "free_pointer (region g0 r) \<noteq> start_addr (region g0 r)"
  defines "g \<equiv> set_page_type f t g0" and "fp \<equiv> free_pointer (region g0 r)"
  shows "\<exists>n g'. close_used_region r t f (page_bytes_used g0 f) g = Inr (n, g') \<and>
    f < n \<and> n \<le> l + 1 \<and> fp \<le> page_address g0 n \<and> page_address g0 (n - 1) < fp \<and>
    frame {f..<n} g0 g' \<and> region g' = region g0 \<and>
    bytes_allocated g' = bytes_allocated g0 + (fp - start_addr (region g0 r)) \<and>
    usage g' = usage g0 + (fp - start_addr (region g0 r)) \<and>
    (\<forall>m. generations_bytes g' m = generations_bytes g0 m +
       (if m = gc_alloc_generation g0 then fp - start_addr (region g0 r) else 0)) \<and>
    (\<forall>m. gen_usage g' m = gen_usage g0 m +
       (if m = gc_alloc_generation g0 then fp - start_addr (region g0 r) else 0)) \<and>
    (\<forall>i\<in>{f..<n}. page_ok (page_table g' i) \<and> ptype (page_table g' i) = t \<and>
       page_bytes_used g' i = min (fp - page_address g0 i) GENCGC_PAGE_BYTES)"
proof -
  note R = region_openD[OF o]
  let ?start = "start_addr (region g0 r)" and ?orig = "page_bytes_used g0 f"
  have fn: "f < page_table_pages g0" using R(2,3) by simp
  have sfp: "?start < fp" using used R(7) by (simp add: fp_def)
  have ob: "?orig < 32768" "?start = page_address g0 f + ?orig" "8 dvd ?orig"
    using R(4,12) by (simp_all add: page_bytes_used_def WORD_SHIFT_def)
  have pok0: "page_ok (page_table g0 f)" using heap_ok_page[OF ok fn] .
  have o16: "16 dvd ?orig"
    using page_okD(2)[OF pok0] by (auto simp: page_bytes_used_def WORD_SHIFT_def elim!: evenE)
  let ?d = "fp - page_address g0 f"
  let ?bu = "min ?d 32768"
  have d: "?d = ?orig + (fp - ?start)" using ob(2) sfp by simp
  have d16: "16 dvd ?d" unfolding d using o16 R(9) unfolding fp_def by (rule dvd_add)
  then have "16 dvd ?bu" by (simp add: min_def)
  then obtain w where w: "?bu = 16 * w" by (elim dvdE)
  have bo: "?orig < ?bu" "?bu \<le> 32768" using d sfp ob(1) by simp_all
  obtain w0 where w0: "?orig = 16 * w0" using o16 by (elim dvdE)
  have ww: "words_used_w (page_table g0 f) = 2 * w0" using w0 by (simp add: page_bytes_used_def WORD_SHIFT_def)
  have wl: "w0 < w" "2 * w \<le> 4096" using bo w w0 by simp_all
  define p where "p = (page_table g0 f)\<lparr>ptype := t, words_used_w := 2 * w\<rparr>"
  define g1 where "g1 = set_page f (\<lambda>_. p) g0"
  have g1: "set_page_bytes_used f ?bu g = g1"
    using w wl by (simp add: g_def set_page_bytes_used_def set_page_type_def set_page_def g1_def p_def WORD_SHIFT_def)
  have ag: "page_address g = page_address g0" "gc_alloc_generation g = gc_alloc_generation g0"
    "region g = region g0" "page_table g f = (page_table g0 f)\<lparr>ptype := t\<rparr>"
    by (simp_all add: g_def set_page_type_def fun_eq_iff page_address_def)
  have a1: "page_address g1 = page_address g0" "gc_alloc_generation g1 = gc_alloc_generation g0"
    "page_table_pages g1 = page_table_pages g0" "region g1 = region g0"
    "bytes_allocated g1 = bytes_allocated g0" "generations_bytes g1 = generations_bytes g0"
    by (simp_all add: g1_def fun_eq_iff page_address_def)
  have u1: "usage g1 = usage g0 + (?bu - ?orig)"
    "gen_usage g1 m = gen_usage g0 m + (if m = gc_alloc_generation g0 then ?bu - ?orig else 0)" for m
    using set_page_usage[OF fn ww, of p "2 * (w - w0)"] wl w w0 R(11)
    by (simp_all add: g1_def p_def diff_mult_distrib2)
  have pok1: "page_ok p" using wl open_type_bits(3)[OF R(1)]
    by (simp add: page_ok_def page_constants) (simp add: p_def)
  have "\<exists>n pt. close_pages t ?start fp (f + 1) (page_address g0 f) (?bu - ?orig) g1 =
      Inr (n, ?bu - ?orig + (fp - page_address g1 (f + 1)), g1\<lparr>page_table := pt\<rparr>) \<and>
    f + 1 \<le> n \<and> n \<le> l + 1 \<and> fp \<le> page_address g1 n \<and> (f + 1 < n \<longrightarrow> page_address g1 (n - 1) < fp) \<and>
    frame {f + 1..<n} g1 (g1\<lparr>page_table := pt\<rparr>) \<and>
    (\<forall>i\<in>{f + 1..<n}. page_ok (pt i) \<and> ptype (pt i) = t \<and>
       words_used_w (pt i) = min (fp - page_address g1 i) 32768 div 8) \<and>
    usage (g1\<lparr>page_table := pt\<rparr>) = usage g1 + (fp - page_address g1 (f + 1)) \<and>
    (\<forall>m. gen_usage (g1\<lparr>page_table := pt\<rparr>) m =
       gen_usage g1 m + (if m = gc_alloc_generation g1 then fp - page_address g1 (f + 1) else 0))"
  proof (rule close_pages_ok)
    show "region_tail_page t (gc_alloc_generation g1) (page_address g1 i - ?start) (page_table g1 i)"
      if "f + 1 \<le> i" "i \<le> l" for i
      using region_open_tail[OF o, of i] that by (simp add: a1) (simp add: g1_def)
    show "16 dvd fp - ?start" using R(9) by (simp add: fp_def)
  qed (use R(1-3,6,8) ob sfp in \<open>simp_all add: a1 page_address_Suc fp_def\<close>)
  then obtain n pt where C: "close_pages t ?start fp (f + 1) (page_address g0 f) (?bu - ?orig) g1 =
      Inr (n, ?bu - ?orig + (fp - page_address g0 (f + 1)), g1\<lparr>page_table := pt\<rparr>)"
    "f + 1 \<le> n" "n \<le> l + 1" "fp \<le> page_address g0 n" "f + 1 < n \<longrightarrow> page_address g0 (n - 1) < fp"
    "frame {f + 1..<n} g1 (g1\<lparr>page_table := pt\<rparr>)"
    "\<forall>i\<in>{f + 1..<n}. page_ok (pt i) \<and> ptype (pt i) = t \<and>
       words_used_w (pt i) = min (fp - page_address g0 i) 32768 div 8"
    "usage (g1\<lparr>page_table := pt\<rparr>) = usage g1 + (fp - page_address g0 (f + 1))"
    "\<forall>m. gen_usage (g1\<lparr>page_table := pt\<rparr>) m =
       gen_usage g1 m + (if m = gc_alloc_generation g0 then fp - page_address g0 (f + 1) else 0)"
    unfolding a1 by blast
  have size: "?bu - ?orig + (fp - page_address g0 (f + 1)) = fp - ?start"
    using d ob sfp bo by (simp add: page_address_Suc min_def split: if_splits)
  define g2 where "g2 = g1\<lparr>page_table := pt\<rparr>"
  define g3 where "g3 = add_bytes_allocated (fp - ?start) g2"
  obtain g4 where g4: "set_alloc_start_page t (n - 1) g3 = Inr g4" "frame {} g3 g4"
    "region g4 = region g3" "bytes_allocated g4 = bytes_allocated g3"
    "generations_bytes g4 = generations_bytes g3" "page_table g4 = page_table g3"
    using set_alloc_start_page_ok[OF open_type_bits(6)[OF R(1)], of "n - 1" g3] by blast
  define g5 where "g5 = (if boxed_type_p t then add_new_area f ?orig (fp - ?start) g4 else g4)"
  have res: "close_used_region r t f ?orig g = Inr (n, g5)"
  proof -
    have "?orig = 0 \<longrightarrow> page_starts_contiguous_block_p g f"
      using R(13) ag(4) by (auto simp: page_starts_contiguous_block_p_def page_bytes_used_def)
    moreover have "page_address g0 f \<le> fp" using ob(2) sfp by simp
    ultimately show ?thesis
      using C(1) g4(1) size sfp R(11)
      unfolding close_used_region_def Let_def ag fp_def[symmetric]
      by (simp add: gc_assert_def addr_diff_def g1 GENCGC_PAGE_BYTES_def g2_def[symmetric]
          g3_def[symmetric] g5_def[symmetric])
  qed
  have f5: "frame {} g4 g5" "region g5 = region g4" "bytes_allocated g5 = bytes_allocated g4"
    "generations_bytes g5 = generations_bytes g4" "page_table g5 = page_table g4"
    using add_new_area_frame[where g = g4 and f = f and off = ?orig and n = "fp - ?start"] by (simp_all add: g5_def frame_refl)
  have f3: "frame {} g2 g3" "page_table g3 = page_table g2" "region g3 = region g0"
    by (simp_all add: g3_def add_bytes_allocated_def frame_def g2_def a1)
  have f25: "frame {} g2 g5" using frame_trans[OF frame_trans[OF f3(1) g4(2)] f5(1)] .
  have p5: "page_table g5 = pt" using f3(2) g4(6) f5(5) by (simp add: g2_def)
  have f02: "frame {f..<n} g0 g2"
    using frame_trans[OF frame_mono[OF set_page_frame[of f g0 "\<lambda>_. p", folded g1_def]]
        frame_mono[OF C(6)[folded g2_def]], of "{f..<n}"] C(2) by simp
  have "pt f = p \<or> ptype (pt f) = ptype p \<and> words_used_w (pt f) = words_used_w p \<and>
      scan_start_offset_w (pt f) = scan_start_offset_w p"
    using frame_page[OF C(6), of f] by (simp add: g1_def)
  then have pf: "page_ok (pt f)" "ptype (pt f) = t" "words_used_w (pt f) = ?bu div 8"
    using pok1 w by (auto simp: p_def page_ok_def)
  have pages: "\<forall>i\<in>{f..<n}. page_ok (page_table g5 i) \<and> ptype (page_table g5 i) = t \<and>
       page_bytes_used g5 i = min (fp - page_address g0 i) GENCGC_PAGE_BYTES"
  proof
    fix i assume i: "i \<in> {f..<n}"
    have m: "16 dvd min (fp - page_address g0 i) 32768" if "page_address g0 i \<le> fp"
    proof -
      have a: "16 dvd page_address g0 f" "16 dvd page_address g0 i" by (rule page_mult_16[OF ok])+
      from dvd_add[OF a(1) d16] have "16 dvd (page_address g0 f + ?d) - page_address g0 i"
        using a(2) by (rule dvd_diff_nat)
      moreover have "page_address g0 f + ?d = fp" using ob(2) sfp by simp
      ultimately have "16 dvd fp - page_address g0 i" by simp
      then show ?thesis by (simp add: min_def)
    qed
    have le: "page_address g0 i \<le> fp"
    proof (cases "f + 1 < n")
      case True
      then show ?thesis using C(5) i page_address_mono[of i "n - 1" g0] by fastforce
    next
      case False
      then have "i = f" using i C(2) by simp
      then show ?thesis using ob(2) sfp by simp
    qed
    have "i = f \<or> i \<in> {f + 1..<n}" using i by auto
    then have "page_ok (pt i) \<and> ptype (pt i) = t \<and> words_used_w (pt i) = min (fp - page_address g0 i) 32768 div 8"
      using pf C(7) by blast
    then show "page_ok (page_table g5 i) \<and> ptype (page_table g5 i) = t \<and>
       page_bytes_used g5 i = min (fp - page_address g0 i) GENCGC_PAGE_BYTES"
      using m[OF le] by (auto simp: p5 page_bytes_used_def WORD_SHIFT_def GENCGC_PAGE_BYTES_def elim!: dvdE)
  qed
  have last: "page_address g0 (n - 1) < fp"
    using C(2,5) ob(2) sfp by (cases "n = f + 1") auto
  have sz: "?bu - ?orig + (fp - page_address g0 (f + 1)) = fp - ?start" by (rule size)
  have us: "usage g5 = usage g0 + (fp - ?start)"
    using usage_frame(1)[OF f25] C(8) u1(1) sz by (simp add: g2_def)
  have gus: "gen_usage g5 m = gen_usage g0 m + (if m = gc_alloc_generation g0 then fp - ?start else 0)" for m
    using usage_frame(2)[OF f25, of m] C(9) u1(2)[of m] sz by (simp add: g2_def)
  have by5: "bytes_allocated g5 = bytes_allocated g0 + (fp - ?start)"
    "generations_bytes g5 m = generations_bytes g0 m + (if m = gc_alloc_generation g0 then fp - ?start else 0)" for m
    by (simp_all add: f5 g4 g3_def add_bytes_allocated_def g2_def a1)
  show ?thesis
    using res C(2-4) last frame_trans[OF f02 frame_mono[OF f25]] us gus by5 pages f5(2) g4(3) f3(3)
    by (intro exI[of _ n] exI[of _ g5]) simp
qed

lemma gc_close_region_ok:
  assumes ok: "heap_ok g" and o: "region_open g r t f l"
  shows "\<exists>g'. gc_close_region r t g = Inr g' \<and> closed g t r g' f l"
proof -
  note R = region_openD[OF o] and X = region_start_index[OF o]
  let ?start = "start_addr (region g r)" and ?fp = "free_pointer (region g r)"
    and ?orig = "page_bytes_used g f"
  let ?E = "\<lparr>free_pointer = 0x1000, end_addr = 0x1000, start_addr = 0\<rparr>"
  define g1 where "g1 = set_page_type f t g"
  have a1: "region g1 = region g" "DYNAMIC_SPACE_START g1 = DYNAMIC_SPACE_START g"
    "page_table_pages g1 = page_table_pages g" by (simp_all add: g1_def set_page_type_def)
  have fn: "f < page_table_pages g" using R(2,3) by simp
  define r2 where "r2 = (if ?fp \<noteq> ?start then close_used_region r t f ?orig g1
      else Inr (f + 1, if ?orig = 0 then reset_page_flags f g1 else g1))"
  obtain n g2 where g2: "r2 = Inr (n, g2)" "f < n" "n \<le> l + 1" "?fp \<le> page_address g n"
      "frame {f..<n} g g2" "region g2 = region g"
      "bytes_allocated g2 = bytes_allocated g + (?fp - ?start)"
      "usage g2 = usage g + (?fp - ?start)"
      "\<forall>m. generations_bytes g2 m = generations_bytes g m +
         (if m = gc_alloc_generation g then ?fp - ?start else 0)"
      "\<forall>m. gen_usage g2 m = gen_usage g m + (if m = gc_alloc_generation g then ?fp - ?start else 0)"
      "\<forall>i\<in>{f..<n}. page_ok (page_table g2 i) \<and>
         (if page_address g i < ?fp
          then ptype (page_table g2 i) = t \<and> page_bytes_used g2 i = min (?fp - page_address g i) GENCGC_PAGE_BYTES
          else ptype (page_table g2 i) = FREE_PAGE_FLAG)"
  proof (cases "?fp = ?start")
    case False
    then obtain n g2 where C: "close_used_region r t f ?orig g1 = Inr (n, g2)"
      "f < n" "n \<le> l + 1" "?fp \<le> page_address g n" "page_address g (n - 1) < ?fp"
      "frame {f..<n} g g2" "region g2 = region g"
      "bytes_allocated g2 = bytes_allocated g + (?fp - ?start)" "usage g2 = usage g + (?fp - ?start)"
      "\<forall>m. generations_bytes g2 m = generations_bytes g m +
         (if m = gc_alloc_generation g then ?fp - ?start else 0)"
      "\<forall>m. gen_usage g2 m = gen_usage g m + (if m = gc_alloc_generation g then ?fp - ?start else 0)"
      "\<forall>i\<in>{f..<n}. page_ok (page_table g2 i) \<and> ptype (page_table g2 i) = t \<and>
         page_bytes_used g2 i = min (?fp - page_address g i) GENCGC_PAGE_BYTES"
      using close_used_region_ok[OF ok o False] unfolding g1_def by blast
    have "page_address g i < ?fp" if "i \<in> {f..<n}" for i
      using C(5) page_address_mono[of i "n - 1" g] that by fastforce
    then show ?thesis using that[of n g2] C False by (simp add: r2_def)
  next
    case True
    define g2 where "g2 = (if ?orig = 0 then reset_page_flags f g1 else g1)"
    have w: "words_used_w (page_table g2 i) = words_used_w (page_table g i)"
        "pgen (page_table g2 i) = pgen (page_table g i)" for i
      using reset_page_flags_ok(2)[of f g1] frame_page[OF reset_page_flags_ok(1)[of f g1], of i]
      by (cases "i = f"; simp add: g2_def g1_def set_page_type_def)+
    have fr: "frame {f..<f + 1} g g2"
      using frame_trans[OF set_page_frame[of f g "\<lambda>p. p\<lparr>ptype := t\<rparr>", folded set_page_type_def g1_def]
          reset_page_flags_ok(1)[of f g1]]
        set_page_frame[of f g "\<lambda>p. p\<lparr>ptype := t\<rparr>", folded set_page_type_def g1_def]
      by (simp add: g2_def)
    have c: "region g2 = region g" "bytes_allocated g2 = bytes_allocated g"
      "generations_bytes g2 = generations_bytes g"
      by (simp_all add: g2_def reset_page_flags_ok g1_def set_page_type_def)
    have pf: "page_ok (page_table g2 f) \<and>
       (if page_address g f < ?fp
        then ptype (page_table g2 f) = t \<and> page_bytes_used g2 f = min (?fp - page_address g f) GENCGC_PAGE_BYTES
        else ptype (page_table g2 f) = FREE_PAGE_FLAG)"
    proof (cases "?orig = 0")
      case o0: True
      then have "words_used_w (page_table g f) = 0" by (simp add: page_bytes_used_def)
      then have "page_ok (page_table g2 f)" "ptype (page_table g2 f) = FREE_PAGE_FLAG"
        using o0 by (simp_all add: g2_def reset_page_flags_ok g1_def set_page_type_def page_ok_def)
      then show ?thesis using True o0 R(4) by simp
    next
      case o0: False
      then have "page_ok (page_table g2 f)" "ptype (page_table g2 f) = t"
        using heap_ok_page[OF ok fn] open_type_bits(3)[OF R(1)]
        by (auto simp: g2_def g1_def set_page_type_def page_ok_def page_bytes_used_def)
      moreover have "page_bytes_used g2 f = min (?fp - page_address g f) GENCGC_PAGE_BYTES"
        using True R(4,12) w(1)[of f] by (simp add: page_bytes_used_def WORD_SHIFT_def GENCGC_PAGE_BYTES_def)
      moreover have "page_address g f < ?fp" using True R(4) o0 by simp
      ultimately show ?thesis by simp
    qed
    have "?fp \<le> page_address g (f + 1)"
      using True R(4,12) by (simp add: page_address_Suc page_bytes_used_def WORD_SHIFT_def)
    moreover have "{f..<f + 1} = {f}" by auto
    moreover have "r2 = Inr (f + 1, g2)" using True by (simp add: r2_def g2_def)
    ultimately show ?thesis
      using that[of "f + 1" g2] True R(2) fr c pf usage_update[OF frame_const(1)[OF fr] w(1)] w(2)
      by simp
  qed
  note c2 = frame_const[OF g2(5)]
  have tail: "words_used_w (page_table g2 i) = 0" "pgen (page_table g2 i) = pgen (page_table g i)"
    "even (words_used_w (page_table g2 i))" if "n \<le> i" "i < l + 1" for i
    using region_open_tail[OF o, of i] g2(2) frame_page[OF g2(5), of i] that
    by (simp_all add: region_tail_page_def)
  obtain g3 where g3: "for_each free_unused_page [n..<l + 1] g2 = Inr g3" "frame {n..<l + 1} g2 g3"
    "region g3 = region g2" "bytes_allocated g3 = bytes_allocated g2"
    "generations_bytes g3 = generations_bytes g2"
    "\<forall>i. pgen (page_table g3 i) = pgen (page_table g2 i) \<and>
       words_used_w (page_table g3 i) = words_used_w (page_table g2 i)"
    "\<forall>i\<in>{n..<l + 1}. ptype (page_table g3 i) = FREE_PAGE_FLAG \<and> scan_start_offset_w (page_table g3 i) = 0"
    using free_unused_pages[of n "l + 1" g2] tail(1) by blast
  define g4 where "g4 = gc_set_region_empty r g3"
  have a4: "page_table g4 = page_table g3" "page_table_pages g4 = page_table_pages g3"
    "region g4 = (region g)(r := ?E)" "bytes_allocated g4 = bytes_allocated g3"
    "generations_bytes g4 = generations_bytes g3" "frame {} g3 g4"
    by (simp_all add: g4_def gc_set_region_empty_def g3 g2 frame_def)
  have fpi: "find_page_index g2 (end_addr (region g2 r) - 1) = Some l"
  proof -
    have "find_page_index g2 a = find_page_index g a" for a by (simp add: find_page_index_def c2)
    then show ?thesis using X(2) by (simp only: g2(6))
  qed
  have res: "gc_close_region r t g = Inr g4"
    unfolding gc_close_region_def X(1) option.case Let_def R(10) open_type_bits(5)[OF R(1)]
      g1_def[symmetric] a1 r2_def[symmetric] g2(1) rbind.simps prod.case fpi g3(1) g4_def[symmetric]
    using open_type_bits(4)[OF R(1)] R(4) by (simp add: gc_assert_def)
  have u: "usage g4 = usage g2" "gen_usage g4 m = gen_usage g2 m" for m
    using usage_update[of g4 g2] g3(6) frame_const(1)[OF g3(2)] by (simp_all add: a4)
  have fr: "frame {f..l} g g4"
    by (rule frame_trans[OF frame_mono[OF g2(5)]
          frame_trans[OF frame_mono[OF g3(2)] frame_mono[OF a4(6)]]]) (use g2(2,3) in auto)
  have pages: "page_ok (page_table g4 i) \<and>
         (if page_address g i < ?fp
          then ptype (page_table g4 i) = t \<and> page_bytes_used g4 i = min (?fp - page_address g i) GENCGC_PAGE_BYTES
          else ptype (page_table g4 i) = FREE_PAGE_FLAG)" if i: "i \<in> {f..l}" for i
  proof (cases "i < n")
    case True
    then have "page_ok (page_table g4 i)" "ptype (page_table g4 i) = ptype (page_table g2 i)"
      "page_bytes_used g4 i = page_bytes_used g2 i"
      using g2(11) i frame_page[OF g3(2), of i] by (simp_all add: a4 page_ok_def page_bytes_used_def)
    then show ?thesis using g2(11) i True by simp
  next
    case False
    then have "page_ok (page_table g4 i)" "ptype (page_table g4 i) = FREE_PAGE_FLAG"
      using g3(6,7) tail(1)[of i] i by (simp_all add: a4 page_ok_def)
    moreover have "\<not> page_address g i < ?fp"
      using False g2(4) page_address_mono[of n i g] by simp
    ultimately show ?thesis by simp
  qed
  have "closed g t r g4 f l"
    unfolding closed_def Let_def
  proof (intro conjI)
    show "\<forall>i\<in>{f..l}. page_ok (page_table g4 i) \<and>
         (if page_address g i < ?fp
          then ptype (page_table g4 i) = t \<and> page_bytes_used g4 i = min (?fp - page_address g i) GENCGC_PAGE_BYTES
          else ptype (page_table g4 i) = FREE_PAGE_FLAG)" using pages by blast
  qed (use fr g2(7-10) u g3(4,5) in \<open>simp_all add: a4\<close>)
  with res show ?thesis by blast
qed

text \<open>Closing keeps the heap well-formed, the accounts right and the other regions as they are.\<close>

lemma closed_preserves:
  assumes c: "closed g t r g' f l" and ok: "heap_ok g" and o: "region_open g r t f l"
  shows "heap_ok g'" "accounted g \<Longrightarrow> accounted g'"
    "region_open g r' t' f' l' \<Longrightarrow> r' \<noteq> r \<Longrightarrow> {f..l} \<inter> {f'..l'} = {} \<Longrightarrow> region_open g' r' t' f' l'"
proof -
  have fr: "frame {f..l} g g'" and pg: "\<forall>i\<in>{f..l}. page_ok (page_table g' i)"
    and rg: "region g' = (region g)(r := \<lparr>free_pointer = 0x1000, end_addr = 0x1000, start_addr = 0\<rparr>)"
    using c by (simp_all add: closed_def Let_def)
  have "page_ok (page_table g' i)" if "i < page_table_pages g" for i
    using pg heap_ok_page[OF ok that] frame_page[OF fr, of i]
    by (cases "i \<in> {f..l}") (simp_all add: page_ok_def)
  then show "heap_ok g'" using ok frame_const[OF fr] by (simp add: heap_ok_def)
  show "accounted g'" if "accounted g" using that c by (simp add: accounted_def closed_def Let_def)
  assume a: "region_open g r' t' f' l'" "r' \<noteq> r" "{f..l} \<inter> {f'..l'} = {}"
  then have "region g' r' = region g r'" using rg by simp
  from region_open_frame[OF a(1) fr a(3) this] show "region_open g' r' t' f' l'" .
qed

end
