(* ===== verification/Allocator.thy ===== *)
theory Allocator
  imports AllocClose
begin

text \<open>
  The invariant of the allocator as a whole, \<open>alloc_inv\<close>: a well-formed and accounted heap in which
  every allocation region is closed or open on pages of its own. Opening, closing and allocating,
  in a region or as a large object, keep it; the only way they fail is heap exhaustion.
\<close>

unbundle bit_operations_syntax

definition region_closed :: "gc \<Rightarrow> nat \<Rightarrow> bool" where
  "region_closed g r \<longleftrightarrow> region g r = \<lparr>free_pointer = 0x1000, end_addr = 0x1000, start_addr = 0\<rparr>"

definition alloc_inv :: "(nat \<Rightarrow> u8) \<Rightarrow> gc \<Rightarrow> bool" where
  "alloc_inv T g \<longleftrightarrow> heap_ok g \<and> accounted g \<and>
     (\<forall>r. region_closed g r \<or> (\<exists>f l. region_open g r (T r) f l)) \<and>
     (\<forall>r r' f l f' l'. r \<noteq> r' \<longrightarrow> region_open g r (T r) f l \<longrightarrow> region_open g r' (T r') f' l' \<longrightarrow>
        {f..l} \<inter> {f'..l'} = {})"

lemma alloc_invD:
  assumes "alloc_inv T g"
  shows "heap_ok g" "accounted g" "region_closed g r \<or> (\<exists>f l. region_open g r (T r) f l)"
    "r \<noteq> r' \<Longrightarrow> region_open g r (T r) f l \<Longrightarrow> region_open g r' (T r') f' l' \<Longrightarrow> {f..l} \<inter> {f'..l'} = {}"
  using assms unfolding alloc_inv_def by blast+

lemma region_open_start: "heap_ok g \<Longrightarrow> region_open g r t f l \<Longrightarrow> start_addr (region g r) \<noteq> 0"
  using region_openD(4)[of g r t f l] by (simp add: heap_ok_def page_address_def)

lemma region_open_not_closed: "heap_ok g \<Longrightarrow> region_open g r t f l \<Longrightarrow> \<not> region_closed g r"
  using region_open_start by (fastforce simp: region_closed_def)

lemma region_open_unique:
  assumes "region_open g r t f l" "region_open g r t' f' l'"
  shows "f = f'" "l = l'"
  using region_start_index[OF assms(1)] region_start_index[OF assms(2)] by simp_all

text \<open>How a change to one region's pages keeps the invariant.\<close>

lemma alloc_inv_change:
  assumes I: "alloc_inv T g" and h: "heap_ok g'" "accounted g'"
    and others: "\<And>r'. r' \<noteq> r \<Longrightarrow> region g' r' = region g r'"
    and keep: "\<And>r' f' l'. r' \<noteq> r \<Longrightarrow> region_open g r' (T r') f' l' \<Longrightarrow> region_open g' r' (T r') f' l'"
    and self: "region_closed g' r \<or> (\<exists>f l. region_open g' r (T r) f l \<and>
       (\<forall>r' f' l'. r' \<noteq> r \<longrightarrow> region_open g r' (T r') f' l' \<longrightarrow> {f..l} \<inter> {f'..l'} = {}))"
  shows "alloc_inv T g'"
proof -
  have cl: "region_closed g' r' = region_closed g r'" if "r' \<noteq> r" for r'
    using others[OF that] by (simp add: region_closed_def)
  have old: "\<exists>f l. region_open g r' (T r') f l" if "r' \<noteq> r" "region_open g' r' (T r') f' l'" for r' f' l'
    using alloc_invD(3)[OF I, of r'] cl[OF that(1)] region_open_not_closed[OF h(1) that(2)] by blast
  have prev: "region_open g r' (T r') f' l'" if "r' \<noteq> r" "region_open g' r' (T r') f' l'" for r' f' l'
  proof -
    from old[OF that] obtain f l where fl: "region_open g r' (T r') f l" by blast
    from region_open_unique[OF keep[OF that(1) fl] that(2)] fl show ?thesis by simp
  qed
  have "region_closed g' r' \<or> (\<exists>f l. region_open g' r' (T r') f l)" for r'
    using self alloc_invD(3)[OF I, of r'] cl[of r'] keep[of r'] by (cases "r' = r") blast+
  moreover have "{f1..l1} \<inter> {f2..l2} = {}"
    if d: "r1 \<noteq> r2" "region_open g' r1 (T r1) f1 l1" "region_open g' r2 (T r2) f2 l2" for r1 r2 f1 l1 f2 l2
  proof -
    have one: "{f..l} \<inter> {f'..l'} = {}"
      if "region_open g' r (T r) f l" "r' \<noteq> r" "region_open g' r' (T r') f' l'" for r' f l f' l'
    proof -
      have "\<not> region_closed g' r" by (rule region_open_not_closed[OF h(1) that(1)])
      with self obtain f0 l0 where z: "region_open g' r (T r) f0 l0"
        "\<forall>r' f' l'. r' \<noteq> r \<longrightarrow> region_open g r' (T r') f' l' \<longrightarrow> {f0..l0} \<inter> {f'..l'} = {}" by blast
      show ?thesis using z region_open_unique[OF z(1) that(1)] prev[OF that(2,3)] that(2) by blast
    qed
    show ?thesis
    proof (cases "r1 = r \<or> r2 = r")
      case True
      then show ?thesis using one[of f1 l1 r2 f2 l2] one[of f2 l2 r1 f1 l1] d by blast
    next
      case False
      then show ?thesis using alloc_invD(4)[OF I d(1) prev prev] d by blast
    qed
  qed
  ultimately show ?thesis unfolding alloc_inv_def using h by blast
qed

lemma alloc_inv_opened:
  assumes I: "alloc_inv T g" and o: "opened g (T r) r g' f l"
  shows "alloc_inv T g'"
proof (rule alloc_inv_change[OF I, where r = r])
  note P = opened_preserves[OF o alloc_invD(1)[OF I]]
  show "heap_ok g'" "accounted g'" using P(1,2) alloc_invD(2)[OF I] by simp_all
  show "region g' r' = region g r'" if "r' \<noteq> r" for r' using o that by (auto simp: opened_def)
  show "region_open g' r' (T r') f' l'" if "r' \<noteq> r" "region_open g r' (T r') f' l'" for r' f' l'
    using P(3)[OF that(2,1)] by blast
  show "region_closed g' r \<or> (\<exists>f l. region_open g' r (T r) f l \<and>
       (\<forall>r' f' l'. r' \<noteq> r \<longrightarrow> region_open g r' (T r') f' l' \<longrightarrow> {f..l} \<inter> {f'..l'} = {}))"
    using P(3) o unfolding opened_def by blast
qed

lemma alloc_inv_closed:
  assumes I: "alloc_inv T g" and o: "region_open g r (T r) f l" and c: "closed g (T r) r g' f l"
  shows "alloc_inv T g'" "region_closed g' r"
proof -
  note P = closed_preserves[OF c alloc_invD(1)[OF I] o]
  have rg: "region g' = (region g)(r := \<lparr>free_pointer = 0x1000, end_addr = 0x1000, start_addr = 0\<rparr>)"
    using c by (simp add: closed_def Let_def)
  then show cl: "region_closed g' r" by (simp add: region_closed_def)
  show "alloc_inv T g'"
  proof (rule alloc_inv_change[OF I, where r = r])
    show "heap_ok g'" by (rule P(1))
    show "accounted g'" using P(2) alloc_invD(2)[OF I] by simp
    show "region g' r' = region g r'" if "r' \<noteq> r" for r' using rg that by simp
    show "region_open g' r' (T r') f' l'" if "r' \<noteq> r" "region_open g r' (T r') f' l'" for r' f' l'
      using P(3)[OF that(2,1) alloc_invD(4)[OF I _ o that(2)]] that(1) by blast
  qed (use cl in blast)
qed

lemma frame_set_region: "frame {} g (set_region r v g)"
  by (simp add: frame_def set_region_def)

lemma heap_ok_frame: "frame {} g g' \<Longrightarrow> heap_ok g' = heap_ok g"
  using frame_const[of "{}" g g'] frame_page[of "{}" g g'] by (simp add: heap_ok_def page_ok_def)

lemma accounted_frame:
  assumes "frame {} g g'" "bytes_allocated g' = bytes_allocated g" "generations_bytes g' = generations_bytes g"
  shows "accounted g' = accounted g"
  using usage_frame[OF assms(1)] assms(2,3) by (simp add: accounted_def)

text \<open>Moving a free pointer up.\<close>

lemma region_open_bump:
  assumes "region_open g r t f l" and "free_pointer (region g r) \<le> a" "a \<le> end_addr (region g r)"
    and "16 dvd (a - free_pointer (region g r))"
  shows "region_open (set_free_pointer r a g) r t f l"
proof -
  note R = region_openD[OF assms(1)]
  have "a - start_addr (region g r) = (free_pointer (region g r) - start_addr (region g r)) +
      (a - free_pointer (region g r))" using R(7) assms(2) by simp
  then have "16 dvd (a - start_addr (region g r))" using R(9) assms(4) by (simp only: dvd_add)
  moreover have "region_tail_page t (gc_alloc_generation g) (page_address g i - start_addr (region g r)) (page_table g i)"
    if "i \<in> {f<..l}" for i using region_open_tail[OF assms(1)] that by simp
  ultimately show ?thesis
    using R assms(2,3) unfolding region_open_def Let_def
    by (simp add: set_free_pointer_def set_region_def page_address_def page_bytes_used_def GENCGC_PAGE_WORDS_def)
qed

lemma alloc_inv_bump:
  assumes I: "alloc_inv T g" and o: "region_open g r (T r) f l"
    and "free_pointer (region g r) \<le> a" "a \<le> end_addr (region g r)"
    "16 dvd (a - free_pointer (region g r))"
  shows "alloc_inv T (set_free_pointer r a g)" "region_open (set_free_pointer r a g) r (T r) f l"
proof -
  let ?g = "set_free_pointer r a g"
  have fr: "frame {} g ?g" unfolding set_free_pointer_def by (rule frame_set_region)
  have rg: "region ?g r' = region g r'" if "r' \<noteq> r" for r'
    using that by (simp add: set_free_pointer_def set_region_def)
  show o': "region_open ?g r (T r) f l" by (rule region_open_bump[OF o assms(3-5)])
  show "alloc_inv T ?g"
  proof (rule alloc_inv_change[OF I, where r = r])
    show "heap_ok ?g" using heap_ok_frame[OF fr] alloc_invD(1)[OF I] by simp
    show "accounted ?g" using accounted_frame[OF fr] alloc_invD(2)[OF I]
      by (simp add: set_free_pointer_def set_region_def)
    show "region_open ?g r' (T r') f' l'" if "r' \<noteq> r" "region_open g r' (T r') f' l'" for r' f' l'
      using region_open_frame[OF that(2) fr _ rg[OF that(1)]] by simp
    show "region_closed ?g r \<or> (\<exists>f l. region_open ?g r (T r) f l \<and>
       (\<forall>r' f' l'. r' \<noteq> r \<longrightarrow> region_open g r' (T r') f' l' \<longrightarrow> {f..l} \<inter> {f'..l'} = {}))"
      using o' alloc_invD(4)[OF I _ o] by metis
  qed (rule rg)
qed

section \<open>Large objects\<close>

lemma for_each_pages:
  assumes "\<And>g i. f i g = (if P g i then Inr (set_page i (h i g) g) else Inl Assert_failed)"
    and "\<And>g g' i. page_table g' i = page_table g i \<Longrightarrow> P g' i = P g i"
    and "\<And>g g' i. frame UNIV g g' \<Longrightarrow> h i g' = h i g"
    and "\<And>i. a \<le> i \<Longrightarrow> i < b \<Longrightarrow> P g i"
  shows "for_each f [a..<b] g =
    Inr (g\<lparr>page_table := (\<lambda>i. if a \<le> i \<and> i < b then h i g (page_table g i) else page_table g i)\<rparr>)"
  using assms(4)
proof (induction b)
  case (Suc b)
  show ?case
  proof (cases "a \<le> b")
    case True
    let ?g = "g\<lparr>page_table := (\<lambda>i. if a \<le> i \<and> i < b then h i g (page_table g i) else page_table g i)\<rparr>"
    have IH: "for_each f [a..<b] g = Inr ?g" using Suc by simp
    have "P ?g b" using assms(2)[of ?g b g] Suc.prems[of b] True by simp
    then have "f b ?g = Inr (set_page b (h b g) ?g)"
      using assms(1)[of b ?g] assms(3)[of g ?g b] by (simp add: frame_def)
    moreover have "set_page b (h b g) ?g =
        g\<lparr>page_table := (\<lambda>i. if a \<le> i \<and> i < Suc b then h i g (page_table g i) else page_table g i)\<rparr>"
      using True by (auto simp: set_page_def fun_eq_iff less_Suc_eq)
    ultimately show ?thesis using True IH by (simp add: for_each_append)
  next
    case False
    then have "(\<lambda>i. if a \<le> i \<and> i < Suc b then h i g (page_table g i) else page_table g i) = page_table g"
      by (intro ext) auto
    then show ?thesis using False by simp
  qed
qed simp

lemma large_setup:
  assumes "\<And>i. f \<le> i \<Longrightarrow> i < b \<Longrightarrow> words_used_w (page_table g i) = 0"
  shows "for_each (large_page_setup t) [f..<b] g =
    Inr (g\<lparr>page_table := (\<lambda>i. if f \<le> i \<and> i < b
       then (page_table g i)\<lparr>ptype := SINGLE_OBJECT_FLAG OR t, pgen := gc_alloc_generation g\<rparr>
       else page_table g i)\<rparr>)"
  by (rule for_each_pages[where P = "\<lambda>g i. words_used_w (page_table g i) = 0"
        and h = "\<lambda>i g p. p\<lparr>ptype := SINGLE_OBJECT_FLAG OR t, pgen := gc_alloc_generation g\<rparr>"])
    (use assms in \<open>simp_all add: large_page_setup_def page_words_used_def gc_assert_def set_page_type_def
       set_page_gen_def frame_def\<close>, simp_all add: set_page_def)

lemma large_used:
  "for_each (large_page_used f) [f..<b] g =
    Inr (g\<lparr>page_table := (\<lambda>i. if f \<le> i \<and> i < b
       then (page_table g i)\<lparr>scan_start_offset_w := block_offset (i - f), words_used_w := 4096\<rparr>
       else page_table g i)\<rparr>)"
  by (rule for_each_pages[where P = "\<lambda>_ _. True"
        and h = "\<lambda>i g p. p\<lparr>scan_start_offset_w := block_offset (i - f), words_used_w := 4096\<rparr>"])
    (simp_all add: large_page_used_def set_block_offset set_page_bytes_used_def,
      simp_all add: set_page_def page_constants)

lemma sum_pages_grow:
  fixes u u' :: "nat \<Rightarrow> nat"
  assumes "f \<le> b" "b \<le> n" "\<And>i. i < n \<Longrightarrow> u' i = (if f \<le> i \<and> i < b then k i else u i)"
    and "\<And>i. f \<le> i \<Longrightarrow> i < b \<Longrightarrow> u i = 0"
  shows "(\<Sum>i<n. u' i) = (\<Sum>i<n. u i) + (\<Sum>i=f..<b. k i)"
proof -
  have "(\<Sum>i<n. u' i) = (\<Sum>i<n. u i + (if f \<le> i \<and> i < b then k i else 0))"
    using assms(3,4) by (intro sum.cong) auto
  also have "\<dots> = (\<Sum>i<n. u i) + (\<Sum>i<n. if i \<in> {f..<b} then k i else 0)"
    by (simp add: sum.distrib)
  also have "(\<Sum>i<n. if i \<in> {f..<b} then k i else 0) = (\<Sum>i=f..<b. k i)"
    using assms(1,2) by (subst sum.inter_restrict[symmetric]) (auto intro!: sum.cong)
  finally show ?thesis .
qed

definition large_ok :: "gc \<Rightarrow> nat \<Rightarrow> u8 \<Rightarrow> nat \<Rightarrow> gc \<Rightarrow> nat \<Rightarrow> nat \<Rightarrow> bool" where
  "large_ok g nbytes t p g' f l \<longleftrightarrow> f \<le> l \<and> l < page_table_pages g \<and> p = page_address g f \<and>
     (\<forall>i\<in>{f..l}. page_free_p g i \<and> ptype (page_table g' i) = (SINGLE_OBJECT_FLAG OR t) \<and>
        pgen (page_table g' i) = gc_alloc_generation g \<and> page_ok (page_table g' i) \<and>
        page_bytes_used g' i = min (nbytes - (i - f) * GENCGC_PAGE_BYTES) GENCGC_PAGE_BYTES \<and>
        page_scan_start g' i = p) \<and>
     frame {f..l} g g' \<and> region g' = region g \<and>
     bytes_allocated g' = bytes_allocated g + nbytes \<and> usage g' = usage g + nbytes \<and>
     (\<forall>m. generations_bytes g' m = generations_bytes g m + (if m = gc_alloc_generation g then nbytes else 0)) \<and>
     (\<forall>m. gen_usage g' m = gen_usage g m + (if m = gc_alloc_generation g then nbytes else 0)) \<and>
     memory g' (of_nat p) = 0"

lemma large_final_bytes:
  fixes f l nbytes :: nat
  assumes "f \<le> l" "nbytes \<le> (l - f + 1) * 32768" "f < l \<Longrightarrow> (l - f + 1) * 32768 < nbytes + 32768" "0 < nbytes"
  shows "0 < nbytes - (l - f) * 32768" "nbytes - (l - f) * 32768 \<le> 32768"
    "(\<Sum>i=f..<l + 1. min (nbytes - (i - f) * 32768) 32768) = nbytes"
proof -
  have a: "(l - f) * 32768 < nbytes" using assms(1,3,4) by (cases "f < l") auto
  then show "0 < nbytes - (l - f) * 32768" "nbytes - (l - f) * 32768 \<le> 32768" using assms(2) by simp_all
  have "(\<Sum>i=f..<l. min (nbytes - (i - f) * 32768) 32768) = (\<Sum>i=f..<l. 32768)"
  proof (rule sum.cong[OF refl])
    fix i assume "i \<in> {f..<l}"
    then have "i - f + 1 \<le> l - f" by auto
    then have "(i - f + 1) * 32768 \<le> (l - f) * 32768" by (intro mult_le_mono1)
    then show "min (nbytes - (i - f) * 32768) 32768 = 32768" using a by simp
  qed
  then show "(\<Sum>i=f..<l + 1. min (nbytes - (i - f) * 32768) 32768) = nbytes"
    using a assms(1,2) by simp
qed

definition large_type :: "u8 \<Rightarrow> u8" where
  "large_type t = (if t = PAGE_TYPE_BOXED \<or> t = PAGE_TYPE_SMALL_MIXED then PAGE_TYPE_MIXED else t)"

lemma large_run:
  assumes "heap_ok g" and t: "open_type t" and n: "0 < nbytes"
    and "gc_find_freeish_pages h nbytes (SINGLE_OBJECT_FLAG OR t) gen g = Inr (f, l, g')"
  shows "f \<le> l" "l < page_table_pages g" "g' = g\<lparr>next_free_page := max (next_free_page g) (l + 1)\<rparr>"
    "\<And>i. f \<le> i \<Longrightarrow> i \<le> l \<Longrightarrow> page_free_p g i \<and> words_used_w (page_table g i) = 0"
    "nbytes \<le> (l - f + 1) * 32768" "f < l \<Longrightarrow> (l - f + 1) * 32768 < nbytes + 32768"
proof -
  note F = freeish_found[OF assms(4,3), unfolded open_type_bits(7)[OF t]]
  have u: "usable_run g nbytes False t gen f l"
    using F open_type_bits(9)[OF t] by (simp add: usable_run_def)
  show fl: "f \<le> l" and l: "l < page_table_pages g" using u by (simp_all add: usable_run_def)
  show "g' = g\<lparr>next_free_page := max (next_free_page g) (l + 1)\<rparr>" using F by blast
  show "page_free_p g i \<and> words_used_w (page_table g i) = 0" if "f \<le> i" "i \<le> l" for i
  proof -
    have "page_free_p g i" using u that by (cases "i = f") (simp_all add: usable_run_def)
    then show ?thesis using page_okD(3)[OF heap_ok_page[OF assms(1), of i]] that l
      by (simp add: page_free_p_def)
  qed
  have "page_free_p g f" using u by (simp add: usable_run_def)
  then have "run_bytes g f l = (l - f + 1) * 32768"
    by (simp add: run_bytes_def GENCGC_PAGE_BYTES_def)
  then show "nbytes \<le> (l - f + 1) * 32768" "f < l \<Longrightarrow> (l - f + 1) * 32768 < nbytes + 32768"
    using F by (simp_all add: GENCGC_PAGE_BYTES_def)
qed

lemma gc_alloc_large_ok:
  assumes ok: "heap_ok g" and t: "open_type t" and n: "0 < nbytes" "16 dvd nbytes"
  shows "case gc_alloc_large nbytes t g of
      Inl e \<Rightarrow> \<exists>a. e = Heap_exhausted (int a) (int nbytes) \<and> a < nbytes
    | Inr (p, g') \<Rightarrow> \<exists>f l. large_ok g nbytes (large_type t) p g' f l"
proof -
  have t': "open_type (large_type t)" using t by (auto simp: large_type_def open_type_def)
  let ?t = "large_type t" and ?gen = "gc_alloc_generation g"
  show ?thesis
  proof (cases "gc_find_freeish_pages (max_alloc_start_page g) nbytes (SINGLE_OBJECT_FLAG OR ?t) ?gen g")
    case (Inl e)
    then have "\<exists>a. e = Heap_exhausted (int a) (int nbytes) \<and> a < nbytes" using freeish_exhausted[OF Inl n(1)] by blast
    then show ?thesis using Inl by (simp add: gc_alloc_large_def large_type_def)
  next
    case (Inr x)
    obtain f l g' where x: "x = (f, l, g')" by (cases x)
    note R = large_run[OF ok t' n(1) Inr[unfolded x]]
    note B = large_final_bytes[OF R(1,5,6) n(1)]
    define final where "final = nbytes - (l - f) * 32768"
    have f16: "16 dvd final" unfolding final_def using n(2) by (intro dvd_diff_nat) simp_all
    define g1 where "g1 = g'\<lparr>max_alloc_start_page := l\<rparr>"
    have g1: "page_table g1 = page_table g" "gc_alloc_generation g1 = ?gen"
      "page_address g1 = page_address g" "page_table_pages g1 = page_table_pages g"
      "DYNAMIC_SPACE_START g1 = DYNAMIC_SPACE_START g" "region g1 = region g"
      "bytes_allocated g1 = bytes_allocated g" "generations_bytes g1 = generations_bytes g"
      by (simp_all add: g1_def R(3) fun_eq_iff page_address_def)
    define g2 where "g2 = g1\<lparr>page_table := (\<lambda>i. if f \<le> i \<and> i < l + 1
       then (page_table g1 i)\<lparr>ptype := SINGLE_OBJECT_FLAG OR ?t, pgen := gc_alloc_generation g1\<rparr>
       else page_table g1 i)\<rparr>"
    have s2: "for_each (large_page_setup ?t) [f..<l + 1] g1 = Inr g2"
      unfolding g2_def by (rule large_setup) (use R(4) in \<open>simp add: g1\<close>)
    have a2: "page_address g2 = page_address g" by (simp add: g2_def g1 fun_eq_iff page_address_def)
    define g3 where "g3 = store_word (page_address g f) (make_filler_header (of_nat (nbytes div 2 ^ WORD_SHIFT))) g2"
    define g4 where "g4 = g3\<lparr>page_table := (\<lambda>i. if f \<le> i \<and> i < l
       then (page_table g3 i)\<lparr>scan_start_offset_w := block_offset (i - f), words_used_w := 4096\<rparr>
       else page_table g3 i)\<rparr>"
    have s4: "for_each (large_page_used f) [f..<l] g3 = Inr g4" unfolding g4_def by (rule large_used)
    define g5 where "g5 = set_page_bytes_used l final (set_page l (\<lambda>p. p\<lparr>scan_start_offset_w := block_offset (l - f)\<rparr>) g4)"
    have "final div 8 < 32768" using B(2) by (simp add: final_def)
    then have pt5: "page_table g5 = (\<lambda>i. if f \<le> i \<and> i \<le> l
        then (page_table g i)\<lparr>ptype := SINGLE_OBJECT_FLAG OR ?t, pgen := ?gen,
               scan_start_offset_w := block_offset (i - f),
               words_used_w := (if i = l then final div 8 else 4096)\<rparr>
        else page_table g i)"
      using R(1) by (auto simp: fun_eq_iff g5_def g4_def g3_def g2_def g1 set_page_bytes_used_def store_word_def
          WORD_SHIFT_def)
    have c5: "page_table_pages g5 = page_table_pages g" "DYNAMIC_SPACE_START g5 = DYNAMIC_SPACE_START g"
      "gc_alloc_generation g5 = ?gen" "region g5 = region g" "bytes_allocated g5 = bytes_allocated g"
      "generations_bytes g5 = generations_bytes g"
      by (simp_all add: g5_def g4_def g3_def g2_def g1 set_page_bytes_used_def store_word_def)
    define g6 where "g6 = add_bytes_allocated nbytes g5"
    obtain g7 pt7 m7 where g7: "prepare_pages f l ?t (gc_alloc_generation g6) g6 = Inr g7" "frame {} g6 g7"
      "g7 = g6\<lparr>page_table := pt7, memory := m7\<rparr>"
      using prepare_pages_frame[OF R(1), of ?t "gc_alloc_generation g6" g6] by blast
    define g8 where "g8 = store_word (page_address g f) 0
        (if boxed_type_p ?t then add_new_area f 0 nbytes g7 else g7)"
    have res: "gc_alloc_large nbytes t g = Inr (page_address g f, g8)"
      unfolding gc_alloc_large_def large_type_def[symmetric] Let_def Inr[unfolded x] rbind.simps prod.case
        g1_def[symmetric] s2 a2 g3_def[symmetric] s4 set_block_offset
        g6_def[symmetric] g7(1) g8_def[symmetric]
      by (simp only: final_def[symmetric] GENCGC_PAGE_BYTES_def g5_def[symmetric] rbind.simps g6_def[symmetric]
          g7(1) g8_def[symmetric])
    have f68: "frame {} g5 g8"
      using g7(2) by (simp add: frame_def g6_def add_bytes_allocated_def g8_def store_word_def
          add_new_area_def Let_def split: option.splits)
    have c8: "region g8 = region g" "bytes_allocated g8 = bytes_allocated g + nbytes"
      "generations_bytes g8 m = generations_bytes g m + (if m = ?gen then nbytes else 0)" for m
      by (simp_all add: g8_def store_word_def add_new_area_frame g7(3) g6_def add_bytes_allocated_def c5)
    have u8: "page_bytes_used g5 i = (if f \<le> i \<and> i < l + 1 then min (nbytes - (i - f) * 32768) 32768
        else page_bytes_used g i)" for i
    proof (cases "f \<le> i \<and> i < l + 1")
      case True
      have "i < l \<Longrightarrow> 32768 \<le> nbytes - (i - f) * 32768"
      proof -
        assume "i < l"
        then have "i - f + 1 \<le> l - f" using True by auto
        then have "(i - f + 1) * 32768 \<le> (l - f) * 32768" by (intro mult_le_mono1)
        then show ?thesis using B(1) by simp
      qed
      then show ?thesis using True B(2) f16
        by (auto simp: page_bytes_used_def pt5 WORD_SHIFT_def final_def elim!: dvdE)
    qed (auto simp: page_bytes_used_def pt5)
    have z: "page_bytes_used g i = 0" if "f \<le> i" "i < l + 1" for i
      using R(4)[of i] that by (simp add: page_bytes_used_def)
    have us: "usage g8 = usage g + nbytes"
      using usage_frame(1)[OF f68] sum_pages_grow[of f "l + 1" "page_table_pages g" "page_bytes_used g5" _
          "page_bytes_used g", OF _ _ u8 z] R(1,2) B(3) by (simp add: usage_def c5)
    have gu: "gen_usage g8 m = gen_usage g m + (if m = ?gen then nbytes else 0)" for m
    proof -
      have k: "(if pgen (page_table g5 i) = m then page_bytes_used g5 i else 0) =
          (if f \<le> i \<and> i < l + 1 then (if m = ?gen then min (nbytes - (i - f) * 32768) 32768 else 0)
           else if pgen (page_table g i) = m then page_bytes_used g i else 0)" for i
        using u8[of i] by (auto simp: pt5)
      have "gen_usage g5 m = gen_usage g m +
          (\<Sum>i=f..<l + 1. if m = ?gen then min (nbytes - (i - f) * 32768) 32768 else 0)"
        unfolding gen_usage_def c5 by (rule sum_pages_grow[OF _ _ k]) (use R(1,2) z in auto)
      then show ?thesis using usage_frame(2)[OF f68] B(3) by (cases "m = ?gen") simp_all
    qed
    have pages: "page_free_p g i \<and> ptype (page_table g8 i) = (SINGLE_OBJECT_FLAG OR ?t) \<and>
        pgen (page_table g8 i) = ?gen \<and> page_ok (page_table g8 i) \<and>
        page_bytes_used g8 i = min (nbytes - (i - f) * GENCGC_PAGE_BYTES) GENCGC_PAGE_BYTES \<and>
        page_scan_start g8 i = page_address g f" if i: "i \<in> {f..l}" for i
    proof -
      note f8 = frame_page[OF f68, of i, simplified]
      have "final div 8 \<le> 4096" "even (final div 8)" "final div 8 \<noteq> 0"
        using B(1,2) f16 by (auto simp: final_def elim!: dvdE)
      then have "page_ok (page_table g8 i)" using i open_type_bits(11)[OF t']
        by (auto simp: page_ok_def f8 pt5 GENCGC_PAGE_WORDS_def)
      moreover have "page_scan_start g8 (f + (i - f)) = page_address g8 f"
      proof (rule page_scan_start_block)
        fix j assume "j \<le> i - f"
        then have "f + j \<le> l" using i by (simp add: le_diff_conv2)
        then show "scan_start_offset_w (page_table g8 (f + j)) = block_offset j"
          using i by (simp add: frame_page[OF f68, simplified] pt5)
      qed
      moreover have "page_address g8 f = page_address g f"
        using frame_const(4)[OF f68] by (simp add: page_address_def c5)
      ultimately show ?thesis using i R(4)[of i] u8[of i]
        by (simp add: f8 pt5 page_bytes_used_def GENCGC_PAGE_BYTES_def)
    qed
    have fr: "frame {f..l} g g8"
      using f68 by (auto simp: frame_def c5 pt5)
    have "large_ok g nbytes ?t (page_address g f) g8 f l"
      unfolding large_ok_def using R(1,2) fr c8 us gu
    proof (intro conjI ballI)
      show "memory g8 (of_nat (page_address g f)) = 0"
        by (simp add: g8_def store_word_def)
    qed (use pages R(1,2) fr c8 us gu in simp_all)
    with res show ?thesis by auto
  qed
qed

lemma large_ok_inv:
  assumes I: "alloc_inv T g" and L: "large_ok g nbytes t p g' f l" and "open_type t"
  shows "alloc_inv T g'"
proof -
  have fr: "frame {f..l} g g'" and rg: "region g' = region g" using L by (simp_all add: large_ok_def)
  have d: "{f..l} \<inter> {f'..l'} = {}" if "region_open g r' (T r') f' l'" for r' f' l'
  proof (rule ccontr)
    assume "{f..l} \<inter> {f'..l'} \<noteq> {}"
    then obtain i where "i \<in> {f..l} \<inter> {f'..l'}" by blast
    moreover from this have "ptype (page_table g i) = FREE_PAGE_FLAG"
      using L by (auto simp: large_ok_def page_free_p_def)
    ultimately show False
      using region_open_type(1,2)[OF that, of i] open_type_bits(1)[of "T r'"] by simp
  qed
  have keep: "region_open g' r' (T r') f' l'" if "region_open g r' (T r') f' l'" for r' f' l'
    by (rule region_open_frame[OF that fr d[OF that]]) (simp add: rg)
  have "page_ok (page_table g' i)" if "i < page_table_pages g" for i
    using L heap_ok_page[OF alloc_invD(1)[OF I] that] frame_page[OF fr, of i]
    by (cases "i \<in> {f..l}") (auto simp: large_ok_def page_ok_def)
  then have "heap_ok g'" using alloc_invD(1)[OF I] frame_const[OF fr] by (simp add: heap_ok_def)
  moreover have "accounted g'" using alloc_invD(2)[OF I] L by (simp add: accounted_def large_ok_def)
  moreover have "region_closed g' 0 \<or> (\<exists>f l. region_open g' 0 (T 0) f l \<and>
       (\<forall>r' f' l'. r' \<noteq> 0 \<longrightarrow> region_open g r' (T r') f' l' \<longrightarrow> {f..l} \<inter> {f'..l'} = {}))"
    using alloc_invD(3)[OF I, of 0] keep alloc_invD(4)[OF I, of 0] rg
    by (metis region_closed_def)
  ultimately show ?thesis using keep rg by (intro alloc_inv_change[OF I, where r = 0]) simp_all
qed

section \<open>Allocation\<close>

text \<open>Opening any kind of region.\<close>

definition request_ok :: "u8 \<Rightarrow> nat \<Rightarrow> bool" where
  "request_ok t nbytes \<longleftrightarrow> 0 < nbytes \<and> 16 dvd nbytes \<and>
     (t = PAGE_TYPE_CONS \<longrightarrow> nbytes \<le> CONS_PAGE_USABLE_BYTES) \<and>
     (t = PAGE_TYPE_SMALL_MIXED \<longrightarrow> nbytes \<le> GENCGC_CARD_BYTES)"

lemma gc_alloc_new_region_ok:
  assumes ok: "heap_ok g" and t: "open_type t" and n: "request_ok t nbytes"
  shows "case gc_alloc_new_region nbytes t r g of
      Inl e \<Rightarrow> \<exists>a. e = Heap_exhausted a (int nbytes)
    | Inr (p, g') \<Rightarrow> \<exists>f l. opened g t r g' f l \<and> p = start_addr (region g' r) \<and>
        p + nbytes \<le> page_address g (l + 1) \<and>
        (t \<noteq> PAGE_TYPE_SMALL_MIXED \<longrightarrow> p + nbytes \<le> end_addr (region g' r))"
proof (cases "t = PAGE_TYPE_CONS \<or> t = PAGE_TYPE_SMALL_MIXED")
  case True
  have d: "8 dvd nbytes" using n by (auto simp: request_ok_def intro: dvd_trans[of 8 16])
  have "nbytes \<le> (if t = PAGE_TYPE_CONS then CONS_PAGE_USABLE_BYTES else GENCGC_PAGE_BYTES)"
    using n True by (auto simp: request_ok_def page_constants split: if_splits)
  from alloc_region_single[OF ok True d _ this, of r] n True show ?thesis
    by (auto simp: gc_alloc_new_region_def request_ok_def page_types split: sum.splits if_splits)
next
  case False
  have lim: "end_addr (region g' r) \<le> page_address g (l + 1)" if "opened g t r g' f l" for g' f l
  proof -
    have o: "region_open g' r t f l" "frame {f..l} g g'" using that by (simp_all add: opened_def)
    show ?thesis using region_openD(6)[OF o(1)] frame_const(4)[OF o(2), of "l + 1"] by simp
  qed
  have e: "gc_alloc_new_region nbytes t r g = gc_alloc_new_region_multi nbytes t r g"
    using False by (simp add: gc_alloc_new_region_def)
  have "0 < nbytes" using n by (simp add: request_ok_def)
  note M = alloc_region_multi[OF ok t this False, of r]
  show ?thesis
  proof (cases "gc_alloc_new_region_multi nbytes t r g")
    case (Inl x)
    then show ?thesis using M by (auto simp: e)
  next
    case (Inr x)
    obtain p g' where x: "x = (p, g')" by (cases x)
    from M Inr x obtain f l where o: "opened g t r g' f l" "p = start_addr (region g' r)"
      "p + nbytes \<le> end_addr (region g' r)" by auto
    have "p + nbytes \<le> page_address g (l + 1)" using o(3) lim[OF o(1)] by simp
    with o show ?thesis unfolding e Inr x sum.case prod.case by blast
  qed
qed

lemma ensure_region_closed_inv:
  assumes I: "alloc_inv T g"
  shows "\<exists>g'. ensure_region_closed r (T r) g = Inr g' \<and> alloc_inv T g' \<and> region_closed g' r"
proof (cases "region_closed g r")
  case True
  then show ?thesis using I by (simp add: ensure_region_closed_def region_closed_def)
next
  case False
  then obtain f l where o: "region_open g r (T r) f l" using alloc_invD(3)[OF I] by blast
  show ?thesis
    using gc_close_region_ok[OF alloc_invD(1)[OF I] o] alloc_inv_closed[OF I o]
      region_open_start[OF alloc_invD(1)[OF I] o]
    by (auto simp: ensure_region_closed_def)
qed

text \<open>What an allocation of \<open>nbytes\<close> at \<open>p\<close> that leaves region \<open>r\<close> open has done.\<close>

definition allocated :: "(nat \<Rightarrow> u8) \<Rightarrow> nat \<Rightarrow> nat \<Rightarrow> nat \<Rightarrow> gc \<Rightarrow> bool" where
  "allocated T r nbytes p g' \<longleftrightarrow> alloc_inv T g' \<and>
     (\<exists>f l. region_open g' r (T r) f l \<and> start_addr (region g' r) \<le> p \<and>
        p + nbytes = free_pointer (region g' r))"

lemma new_region_ok:
  assumes I: "alloc_inv T g" and t: "open_type (T r)" "T r \<noteq> PAGE_TYPE_SMALL_MIXED"
    and n: "request_ok (T r) nbytes"
  shows "case new_region r nbytes (T r) g of
      Inl e \<Rightarrow> \<exists>a. e = Heap_exhausted a (int nbytes)
    | Inr (p, g') \<Rightarrow> allocated T r nbytes p g'"
proof -
  obtain g1 where g1: "ensure_region_closed r (T r) g = Inr g1" "alloc_inv T g1"
    using ensure_region_closed_inv[OF I] by blast
  note G = gc_alloc_new_region_ok[OF alloc_invD(1)[OF g1(2)] t(1) n, of r]
  show ?thesis
  proof (cases "gc_alloc_new_region nbytes (T r) r g1")
    case (Inl e)
    then show ?thesis using G g1(1) by (simp add: new_region_def)
  next
    case (Inr x)
    obtain p g2 where x: "x = (p, g2)" by (cases x)
    from G Inr x t(2) obtain f l where o: "opened g1 (T r) r g2 f l" "p = start_addr (region g2 r)"
      "p + nbytes \<le> end_addr (region g2 r)" by auto
    have ro: "region_open g2 r (T r) f l" and fp: "free_pointer (region g2 r) = p"
      using o by (simp_all add: opened_def)
    have "16 dvd (p + nbytes) - free_pointer (region g2 r)" using n fp by (simp add: request_ok_def)
    note P = alloc_inv_bump[OF alloc_inv_opened[OF g1(2) o(1)] ro _ o(3) this]
    let ?g = "set_free_pointer r (p + nbytes) g2"
    have e: "region ?g r = (region g2 r)\<lparr>free_pointer := p + nbytes\<rparr>"
      by (simp add: set_free_pointer_def set_region_def)
    have "new_region r nbytes (T r) g = Inr (p, ?g)"
      using g1(1) Inr x o(3) by (simp add: new_region_def Let_def e gc_assert_def)
    then show ?thesis using P fp o(2) e by (auto simp: allocated_def)
  qed
qed

section \<open>The collector's allocation\<close>

lemma alloc_inv_frame:
  assumes I: "alloc_inv T g" and "frame {} g g'" "region g' = region g"
    "bytes_allocated g' = bytes_allocated g" "generations_bytes g' = generations_bytes g"
  shows "alloc_inv T g'" "region_open g r t f l \<Longrightarrow> region_open g' r t f l"
proof -
  show keep: "region_open g' r t f l" if "region_open g r t f l" for r t f l
    by (rule region_open_frame[OF that assms(2)]) (simp_all add: assms(3))
  have "region_closed g' 0 \<or> (\<exists>f l. region_open g' 0 (T 0) f l \<and>
       (\<forall>r' f' l'. r' \<noteq> 0 \<longrightarrow> region_open g r' (T r') f' l' \<longrightarrow> {f..l} \<inter> {f'..l'} = {}))"
    using alloc_invD(3)[OF I, of 0] keep alloc_invD(4)[OF I, of 0] assms(3) by (metis region_closed_def)
  then show "alloc_inv T g'"
    using keep heap_ok_frame[OF assms(2)] accounted_frame[OF assms(2,4,5)] alloc_invD(1,2)[OF I] assms(3)
    by (intro alloc_inv_change[OF I, where r = 0]) simp_all
qed

text \<open>Setting both the end and the free pointer of an open one-page region.\<close>

lemma alloc_inv_limit:
  assumes I: "alloc_inv T g" and o: "region_open g r (T r) f f"
    and a: "start_addr (region g r) \<le> a" "a \<le> e" "16 dvd (a - start_addr (region g r))"
    and e: "page_address g f < e" "e \<le> page_address g (f + 1)"
  shows "alloc_inv T (set_region r (region g r\<lparr>end_addr := e, free_pointer := a\<rparr>) g)"
    "region_open (set_region r (region g r\<lparr>end_addr := e, free_pointer := a\<rparr>) g) r (T r) f f"
proof -
  let ?g = "set_region r (region g r\<lparr>end_addr := e, free_pointer := a\<rparr>) g"
  note R = region_openD[OF o]
  have fr: "frame {} g ?g" by (rule frame_set_region)
  have rg: "region ?g r' = region g r'" if "r' \<noteq> r" for r' using that by (simp add: set_region_def)
  show o': "region_open ?g r (T r) f f"
    using R a e unfolding region_open_def Let_def
    by (simp add: set_region_def page_address_def page_bytes_used_def GENCGC_PAGE_WORDS_def)
  show "alloc_inv T ?g"
  proof (rule alloc_inv_change[OF I, where r = r])
    show "heap_ok ?g" using heap_ok_frame[OF fr] alloc_invD(1)[OF I] by simp
    show "accounted ?g" using accounted_frame[OF fr] alloc_invD(2)[OF I] by (simp add: set_region_def)
    show "region_open ?g r' (T r') f' l'" if "r' \<noteq> r" "region_open g r' (T r') f' l'" for r' f' l'
      using region_open_frame[OF that(2) fr _ rg[OF that(1)]] by simp
    show "region_closed ?g r \<or> (\<exists>f l. region_open ?g r (T r) f l \<and>
       (\<forall>r' f' l'. r' \<noteq> r \<longrightarrow> region_open g r' (T r') f' l' \<longrightarrow> {f..l} \<inter> {f'..l'} = {}))"
      using o' alloc_invD(4)[OF I _ o] by metis
  qed (rule rg)
qed

lemma page_dvd_cards: "heap_ok g \<Longrightarrow> 1024 dvd page_address g i"
proof -
  assume "heap_ok g"
  then have "32768 dvd DYNAMIC_SPACE_START g" by (simp add: heap_ok_def GENCGC_PAGE_BYTES_def)
  then have "32768 dvd page_address g i" by (simp add: page_address_def GENCGC_PAGE_BYTES_def)
  then show ?thesis by (rule dvd_trans[rotated]) simp
qed

lemma ptr_align_up:
  "a \<le> PTR_ALIGN_UP a GENCGC_CARD_BYTES" "1024 dvd PTR_ALIGN_UP a GENCGC_CARD_BYTES"
  "1024 dvd b \<Longrightarrow> PTR_ALIGN_UP a GENCGC_CARD_BYTES < b \<Longrightarrow> PTR_ALIGN_UP a GENCGC_CARD_BYTES + 1024 \<le> b"
proof -
  have e: "PTR_ALIGN_UP a GENCGC_CARD_BYTES = (a + 1023) div 1024 * 1024"
    by (simp add: PTR_ALIGN_UP_def GENCGC_CARD_BYTES_def)
  show "a \<le> PTR_ALIGN_UP a GENCGC_CARD_BYTES"
    unfolding e using div_mult_mod_eq[of "a + 1023" 1024] mod_less_divisor[of 1024 "a + 1023"] by linarith
  show d: "1024 dvd PTR_ALIGN_UP a GENCGC_CARD_BYTES" unfolding e by simp
  show "PTR_ALIGN_UP a GENCGC_CARD_BYTES + 1024 \<le> b" if "1024 dvd b" "PTR_ALIGN_UP a GENCGC_CARD_BYTES < b"
    using d that by (auto elim!: dvdE)
qed

lemma page_base_of_region:
  assumes "heap_ok g" and o: "region_open g r t f l"
  shows "PTR_ALIGN_DOWN (start_addr (region g r)) GENCGC_PAGE_BYTES = page_address g f"
proof -
  note R = region_openD[OF o]
  obtain k where k: "DYNAMIC_SPACE_START g = 32768 * k"
    using assms(1) by (auto simp: heap_ok_def GENCGC_PAGE_BYTES_def elim: dvdE)
  have u: "page_bytes_used g f < 32768" using R(12) by (simp add: page_bytes_used_def WORD_SHIFT_def)
  have "start_addr (region g r) = page_bytes_used g f + (k + f) * 32768"
    using R(4) k by (simp add: page_address_def GENCGC_PAGE_BYTES_def)
  then have "start_addr (region g r) div 32768 = k + f" using u by (simp only: div_mult_self3) simp
  then show ?thesis using k by (simp add: PTR_ALIGN_DOWN_def page_address_def GENCGC_PAGE_BYTES_def)
qed

lemma use_next_card_ok:
  assumes I: "alloc_inv T g" and o: "region_open g r (T r) f f"
    and c: "start_addr (region g r) \<le> c" "1024 dvd c" "c < page_address g (f + 1)"
    and n: "0 < nbytes" "16 dvd nbytes" "nbytes \<le> GENCGC_CARD_BYTES"
  shows "\<exists>g'. use_next_card r nbytes c g = Inr (c, g') \<and> allocated T r nbytes c g'"
proof -
  let ?g = "set_region r (region g r\<lparr>end_addr := c + GENCGC_CARD_BYTES, free_pointer := c + nbytes\<rparr>) g"
  have ok: "heap_ok g" by (rule alloc_invD(1)[OF I])
  have lim: "c + 1024 \<le> page_address g (f + 1)"
    using c(2,3) page_dvd_cards[OF ok, of "f + 1"] by (auto elim!: dvdE)
  have "16 dvd c" "16 dvd start_addr (region g r)"
  proof -
    show "16 dvd c" using c(2) by (rule dvd_trans[rotated]) simp
    have "16 dvd page_bytes_used g f"
      using page_okD(2)[OF heap_ok_page[OF ok, of f]] region_openD(3)[OF o]
      by (auto simp: page_bytes_used_def WORD_SHIFT_def elim!: evenE)
    then show "16 dvd start_addr (region g r)"
      unfolding region_openD(4)[OF o] using page_mult_16[OF ok, of f] by (intro dvd_add)
  qed
  then have d: "16 dvd (c + nbytes) - start_addr (region g r)" using n(2) by (intro dvd_diff_nat dvd_add)
  have pa: "page_address g f < c + GENCGC_CARD_BYTES"
    using c(1) region_openD(4)[OF o] by (simp add: GENCGC_CARD_BYTES_def)
  have "alloc_inv T ?g" "region_open ?g r (T r) f f"
    by (rule alloc_inv_limit[OF I o _ _ d pa]; use c(1) n lim in \<open>simp add: GENCGC_CARD_BYTES_def\<close>)+
  moreover have "use_next_card r nbytes c g = Inr (c, ?g)"
    using n(3) by (simp add: use_next_card_def set_region_def gc_assert_def Let_def)
  moreover have "region ?g r = region g r\<lparr>end_addr := c + GENCGC_CARD_BYTES, free_pointer := c + nbytes\<rparr>"
    by (simp add: set_region_def)
  ultimately show ?thesis using c(1) by (auto simp: allocated_def)
qed

lemma store_word_inv:
  "alloc_inv T g \<Longrightarrow> alloc_inv T (store_word a v g)"
  "region_open g r t f l \<Longrightarrow> region_open (store_word a v g) r t f l"
  "region (store_word a v g) = region g" "page_address (store_word a v g) = page_address g"
  using alloc_inv_frame(1)[of T g "store_word a v g"]
    region_open_frame[of g r t f l "{}" "store_word a v g"]
  by (simp_all add: store_word_def frame_def fun_eq_iff page_address_def)

text \<open>The outcome of an allocation for region \<open>r\<close>: in that region, in the mixed region, or as a large
  object; or heap exhaustion.\<close>

definition alloc_post :: "(nat \<Rightarrow> u8) \<Rightarrow> nat \<Rightarrow> nat \<Rightarrow> gc \<Rightarrow> (nat \<times> gc) result \<Rightarrow> bool" where
  "alloc_post T r nbytes g res \<longleftrightarrow>
     (case res of
        Inl e \<Rightarrow> \<exists>a n. e = Heap_exhausted a n
      | Inr (p, g') \<Rightarrow> alloc_inv T g' \<and>
          (allocated T r nbytes p g' \<or> allocated T mixed_region nbytes p g' \<or>
           (\<exists>f l. large_ok g nbytes (large_type (T r)) p g' f l)))"

lemma alloc_post_mixed:
  assumes I: "alloc_inv T g" and m: "T mixed_region = PAGE_TYPE_MIXED" and n: "0 < nbytes" "16 dvd nbytes"
  shows "alloc_post T r nbytes g0 (new_region mixed_region nbytes PAGE_TYPE_MIXED g)"
proof -
  have "request_ok (T mixed_region) nbytes" "open_type (T mixed_region)" "T mixed_region \<noteq> PAGE_TYPE_SMALL_MIXED"
    using n m by (simp_all add: request_ok_def open_type_def page_types)
  from new_region_ok[OF I this(2,3,1)] show ?thesis
    unfolding m by (auto simp: alloc_post_def allocated_def split: sum.splits)
qed

lemma small_mixed_new_page_ok:
  assumes I: "alloc_inv T g" and t: "T r = PAGE_TYPE_SMALL_MIXED"
    and n: "0 < nbytes" "16 dvd nbytes" "nbytes \<le> GENCGC_CARD_BYTES"
  shows "alloc_post T r nbytes g0 (small_mixed_new_page r nbytes (T r) g)"
proof -
  obtain g1 where g1: "ensure_region_closed r (T r) g = Inr g1" "alloc_inv T g1"
    using ensure_region_closed_inv[OF I] by blast
  have ot: "open_type (T r)" and rq: "request_ok (T r) nbytes"
    using t n by (simp_all add: open_type_def request_ok_def page_types)
  note G = gc_alloc_new_region_ok[OF alloc_invD(1)[OF g1(2)] ot rq, of r]
  show ?thesis
  proof (cases "gc_alloc_new_region nbytes (T r) r g1")
    case (Inl e)
    then show ?thesis using G g1(1) by (auto simp: small_mixed_new_page_def alloc_post_def)
  next
    case (Inr x)
    obtain p g2 where x: "x = (p, g2)" by (cases x)
    from G Inr x obtain f l where o: "opened g1 (T r) r g2 f l" "p = start_addr (region g2 r)"
      "p + nbytes \<le> page_address g1 (l + 1)" by auto
    have ro: "region_open g2 r (T r) f f" and lf: "l = f" and fp: "free_pointer (region g2 r) = p"
      and fr: "frame {f..l} g1 g2"
      using o region_openD(14)[of g2 r "T r" f l] t by (simp_all add: opened_def)
    have I2: "alloc_inv T g2" by (rule alloc_inv_opened[OF g1(2) o(1)])
    have pe: "p + nbytes \<le> page_address g2 (f + 1)" using o(3) lf frame_const(4)[OF fr, of "f + 1"] by simp
    show ?thesis
    proof (cases "p + nbytes \<le> end_addr (region g2 r)")
      case True
      have "16 dvd (p + nbytes) - free_pointer (region g2 r)" using n fp by simp
      note P = alloc_inv_bump[OF I2 ro _ True this]
      have "region (set_free_pointer r (p + nbytes) g2) r = (region g2 r)\<lparr>free_pointer := p + nbytes\<rparr>"
        by (simp add: set_free_pointer_def set_region_def)
      then have "allocated T r nbytes p (set_free_pointer r (p + nbytes) g2)"
        using P fp o(2) by (auto simp: allocated_def)
      moreover have "small_mixed_new_page r nbytes (T r) g = Inr (p, set_free_pointer r (p + nbytes) g2)"
        using g1(1) Inr x True by (simp add: small_mixed_new_page_def)
      ultimately show ?thesis by (simp add: alloc_post_def allocated_def)
    next
      case False
      let ?c = "PTR_ALIGN_UP p GENCGC_CARD_BYTES"
      have limit: "end_addr (region g2 r) = p div GENCGC_CARD_BYTES * GENCGC_CARD_BYTES + GENCGC_CARD_BYTES"
      proof -
        have "gc_alloc_new_region_single nbytes (T r) r g1 = Inr (p, g2)"
          using Inr x t by (simp add: gc_alloc_new_region_def)
        moreover have "8 dvd nbytes" using n(2) by (auto intro: dvd_trans[of 8 16])
        moreover have "nbytes \<le> (if T r = PAGE_TYPE_CONS then CONS_PAGE_USABLE_BYTES else GENCGC_PAGE_BYTES)"
          using n(3) t by (simp add: page_constants page_types)
        ultimately show ?thesis
          using alloc_region_single[OF alloc_invD(1)[OF g1(2)] _ _ n(1), of "T r" r] t
          by (auto simp: page_types)
      qed
      have "?c \<le> end_addr (region g2 r)"
      proof -
        have "p < end_addr (region g2 r)"
          unfolding limit GENCGC_CARD_BYTES_def
          using div_mult_mod_eq[of p 1024] mod_less_divisor[of 1024 p] by linarith
        moreover have "1024 dvd end_addr (region g2 r)" unfolding limit GENCGC_CARD_BYTES_def by simp
        ultimately show ?thesis using ptr_align_up(1,2)[of p]
          unfolding PTR_ALIGN_UP_def GENCGC_CARD_BYTES_def by (auto elim!: dvdE)
      qed
      then have cl: "?c < page_address g2 (f + 1)" using False pe by simp
      have base: "PTR_ALIGN_DOWN (start_addr (region g2 r)) GENCGC_PAGE_BYTES = page_address g2 f"
        by (rule page_base_of_region[OF alloc_invD(1)[OF I2] ro])
      define g3 where "g3 = (if ?c - p \<noteq> 0
          then store_word (free_pointer (region g2 r))
                 (make_filler_header (of_nat ((?c - p) div 2 ^ WORD_SHIFT))) g2
          else g2)"
      have 3: "alloc_inv T g3" "region_open g3 r (T r) f f" "region g3 = region g2"
        "page_address g3 = page_address g2"
        using store_word_inv(1)[OF I2] store_word_inv(2)[OF ro] store_word_inv(3,4) I2 ro
        by (simp_all add: g3_def)
      obtain g4 where g4: "use_next_card r nbytes ?c g3 = Inr (?c, g4)" "allocated T r nbytes ?c g4"
        using use_next_card_ok[OF 3(1,2) _ ptr_align_up(2) _ n, of p] ptr_align_up(1)[of p] cl o(2) 3(3,4)
        by auto
      have "small_mixed_new_page r nbytes (T r) g = Inr (?c, g4)"
        unfolding small_mixed_new_page_def g1(1) rbind.simps Inr x prod.case Let_def if_not_P[OF False]
          g3_def[symmetric] base g4(1)
        using cl by (simp add: gc_assert_def page_address_Suc GENCGC_PAGE_BYTES_def)
      then show ?thesis using g4(2) by (simp add: alloc_post_def allocated_def)
    qed
  qed
qed

lemma small_mixed_next_card_ok:
  assumes I: "alloc_inv T g" and t: "T r = PAGE_TYPE_SMALL_MIXED" and m: "T mixed_region = PAGE_TYPE_MIXED"
    and o: "region_open g r (T r) f l"
    and n: "0 < nbytes" "16 dvd nbytes" "nbytes \<le> GENCGC_CARD_BYTES"
  shows "alloc_post T r nbytes g0 (small_mixed_next_card r nbytes (T r) g)"
proof -
  note R = region_openD[OF o] and X = region_start_index[OF o]
  have lf: "l = f" using R(14) t by blast
  let ?fp = "free_pointer (region g r)" and ?c = "PTR_ALIGN_UP (free_pointer (region g r)) GENCGC_CARD_BYTES"
  have base: "PTR_ALIGN_DOWN (start_addr (region g r)) GENCGC_PAGE_BYTES = page_address g f"
    by (rule page_base_of_region[OF alloc_invD(1)[OF I] o])
  let ?fill = "(?c - ?fp) div 2 ^ WORD_SHIFT"
  define g1 where "g1 = (if ?c - ?fp \<noteq> 0 then store_word ?fp (make_filler_header (of_nat ?fill)) g else g)"
  have e: "small_mixed_next_card r nbytes (T r) g =
      (if ?c < page_address g f + GENCGC_PAGE_BYTES
       then if ?c - ?fp \<noteq> 0 \<and> ?fill \<ge> SMALL_MIXED_NWORDS_LIMIT
            then new_region mixed_region nbytes PAGE_TYPE_MIXED g
            else use_next_card r nbytes ?c g1
       else if nbytes > SMALL_MIXED_NBYTES_LIMIT then new_region mixed_region nbytes PAGE_TYPE_MIXED g
       else small_mixed_new_page r nbytes (T r) g)"
    using X lf open_type_bits(4)[OF R(1)] R(10)
    by (simp add: small_mixed_next_card_def Let_def gc_assert_def base g1_def)
  have 1: "alloc_inv T g1" "region_open g1 r (T r) f f" "region g1 = region g" "page_address g1 = page_address g"
    using store_word_inv(1)[OF I] store_word_inv(2)[OF o] store_word_inv(3,4) I o lf
    by (simp_all add: g1_def)
  have "alloc_post T r nbytes g0 (use_next_card r nbytes ?c g1)" if "?c < page_address g f + GENCGC_PAGE_BYTES"
  proof -
    have "start_addr (region g1 r) \<le> ?c" using R(7) ptr_align_up(1)[of ?fp] 1(3) by simp
    from use_next_card_ok[OF 1(1,2) this ptr_align_up(2) _ n] that show ?thesis
      by (auto simp: 1(4) page_address_Suc GENCGC_PAGE_BYTES_def alloc_post_def allocated_def)
  qed
  then show ?thesis
    using alloc_post_mixed[OF I m n(1,2)] small_mixed_new_page_ok[OF I t n] unfolding e by simp
qed

lemma collector_alloc_ok:
  assumes I: "alloc_inv T g" and t: "open_type (T r)" and m: "T mixed_region = PAGE_TYPE_MIXED"
    and n: "0 < nbytes" "16 dvd nbytes"
    and c: "T r = PAGE_TYPE_CONS \<Longrightarrow> nbytes \<le> CONS_PAGE_USABLE_BYTES \<or> LARGE_OBJECT_SIZE \<le> nbytes"
  shows "alloc_post T r nbytes g (collector_alloc_fallback r nbytes (T r) g)"
proof -
  consider (large) "nbytes \<ge> LARGE_OBJECT_SIZE"
    | (region) "nbytes < LARGE_OBJECT_SIZE" "T r \<noteq> PAGE_TYPE_SMALL_MIXED"
    | (card) "nbytes < LARGE_OBJECT_SIZE" "T r = PAGE_TYPE_SMALL_MIXED" "nbytes > GENCGC_CARD_BYTES"
    | (shut) "nbytes < LARGE_OBJECT_SIZE" "T r = PAGE_TYPE_SMALL_MIXED" "nbytes \<le> GENCGC_CARD_BYTES"
        "region_closed g r"
    | (opn) f l where "nbytes < LARGE_OBJECT_SIZE" "T r = PAGE_TYPE_SMALL_MIXED" "nbytes \<le> GENCGC_CARD_BYTES"
        "region_open g r (T r) f l"
    using alloc_invD(3)[OF I, of r] by fastforce
  then show ?thesis
  proof cases
    case large
    have "alloc_post T r nbytes g (gc_alloc_large nbytes (T r) g)"
      using gc_alloc_large_ok[OF alloc_invD(1)[OF I] t n] large_ok_inv[OF I, of nbytes "large_type (T r)"] t
      by (auto simp: alloc_post_def large_type_def open_type_def split: sum.splits)
    then show ?thesis using large by (simp add: collector_alloc_fallback_def)
  next
    case region
    then have "request_ok (T r) nbytes" using n c by (auto simp: request_ok_def)
    from new_region_ok[OF I t region(2) this] have "alloc_post T r nbytes g (new_region r nbytes (T r) g)"
      by (auto simp: alloc_post_def allocated_def split: sum.splits)
    then show ?thesis using region by (simp add: collector_alloc_fallback_def)
  next
    case card
    then show ?thesis using alloc_post_mixed[OF I m n] by (simp add: collector_alloc_fallback_def)
  next
    case opn
    have "start_addr (region g r) \<noteq> 0" by (rule region_open_start[OF alloc_invD(1)[OF I] opn(4)])
    then show ?thesis using opn(1-3) small_mixed_next_card_ok[OF I opn(2) m opn(4) n opn(3)]
      by (simp add: collector_alloc_fallback_def)
  next
    case shut
    let ?req = "if nbytes > SMALL_MIXED_NBYTES_LIMIT then SMALL_MIXED_NBYTES_LIMIT else nbytes"
    have z: "start_addr (region g r) = 0" using shut(4) by (simp add: region_closed_def)
    have rq: "request_ok (T r) ?req"
      using n shut(2,3) by (auto simp: request_ok_def SMALL_MIXED_NBYTES_LIMIT_def SMALL_MIXED_NWORDS_LIMIT_def
          page_constants page_types)
    note G = gc_alloc_new_region_ok[OF alloc_invD(1)[OF I] t rq, of r]
    show ?thesis
    proof (cases "gc_alloc_new_region ?req (T r) r g")
      case (Inl e)
      then show ?thesis using G shut z by (auto simp: collector_alloc_fallback_def alloc_post_def)
    next
      case (Inr x)
      obtain p g2 where x: "x = (p, g2)" by (cases x)
      from G Inr x obtain f l where o: "opened g (T r) r g2 f l" "p = start_addr (region g2 r)" by auto
      have ro: "region_open g2 r (T r) f l" and fp: "free_pointer (region g2 r) = p"
        using o by (simp_all add: opened_def)
      have I2: "alloc_inv T g2" by (rule alloc_inv_opened[OF I o(1)])
      have e: "collector_alloc_fallback r nbytes (T r) g =
          (if p + nbytes \<le> end_addr (region g2 r) then Inr (p, set_free_pointer r (p + nbytes) g2)
           else small_mixed_next_card r nbytes (T r) g2)"
        using shut z Inr x by (simp add: collector_alloc_fallback_def)
      have "alloc_post T r nbytes g (Inr (p, set_free_pointer r (p + nbytes) g2))"
        if le: "p + nbytes \<le> end_addr (region g2 r)"
      proof -
        have "16 dvd (p + nbytes) - free_pointer (region g2 r)" using n fp by simp
        note P = alloc_inv_bump[OF I2 ro _ le this]
        have "region (set_free_pointer r (p + nbytes) g2) r = (region g2 r)\<lparr>free_pointer := p + nbytes\<rparr>"
          by (simp add: set_free_pointer_def set_region_def)
        then show ?thesis using P fp o(2) by (auto simp: alloc_post_def allocated_def)
      qed
      then show ?thesis unfolding e using small_mixed_next_card_ok[OF I2 shut(2) m ro n shut(3)] by simp
    qed
  qed
qed

text \<open>The one assertion that a request can fail: no cons page holds it, and it is too small for
  pages of its own.\<close>

definition too_long_for_cons :: "u8 \<Rightarrow> nat \<Rightarrow> bool" where
  "too_long_for_cons t nbytes \<longleftrightarrow>
     t = PAGE_TYPE_CONS \<and> CONS_PAGE_USABLE_BYTES < nbytes \<and> nbytes < LARGE_OBJECT_SIZE"

lemma collector_alloc_too_long:
  assumes "alloc_inv T g" and "too_long_for_cons (T r) nbytes"
  shows "collector_alloc_fallback r nbytes (T r) g = Inl Assert_failed"
proof -
  obtain g1 where "ensure_region_closed r (T r) g = Inr g1"
    using ensure_region_closed_inv[OF assms(1)] by blast
  then show ?thesis
    using assms(2) by (simp add: too_long_for_cons_def collector_alloc_fallback_def new_region_def
        gc_alloc_new_region_def gc_alloc_new_region_single_def find_single_page_def gc_assert_def page_types)
qed

lemma gc_general_alloc_post:
  assumes I: "alloc_inv T g" and t: "open_type (T r)" and m: "T mixed_region = PAGE_TYPE_MIXED"
    and n: "0 < nbytes" "16 dvd nbytes"
  shows "alloc_post T r nbytes g (gc_general_alloc r nbytes (T r) g) \<or>
    too_long_for_cons (T r) nbytes \<and> gc_general_alloc r nbytes (T r) g = Inl Assert_failed"
proof (cases "free_pointer (region g r) + nbytes \<le> end_addr (region g r)")
  case True
  then have "\<not> region_closed g r" using n(1) by (auto simp: region_closed_def)
  then obtain f l where ro: "region_open g r (T r) f l" using alloc_invD(3)[OF I] by blast
  let ?p = "free_pointer (region g r)"
  have "16 dvd (?p + nbytes) - ?p" using n by simp
  note P = alloc_inv_bump[OF I ro _ True this]
  have "region (set_free_pointer r (?p + nbytes) g) r = (region g r)\<lparr>free_pointer := ?p + nbytes\<rparr>"
    by (simp add: set_free_pointer_def set_region_def)
  then have "allocated T r nbytes ?p (set_free_pointer r (?p + nbytes) g)"
    using P region_openD(7)[OF ro] by (auto simp: allocated_def)
  then show ?thesis using True by (simp add: gc_general_alloc_def Let_def alloc_post_def allocated_def)
next
  case False
  then have e: "gc_general_alloc r nbytes (T r) g = collector_alloc_fallback r nbytes (T r) g"
    by (simp add: gc_general_alloc_def Let_def)
  show ?thesis
  proof (cases "too_long_for_cons (T r) nbytes")
    case True
    then show ?thesis unfolding e using collector_alloc_too_long[OF I True] by simp
  next
    case False
    then have "T r = PAGE_TYPE_CONS \<Longrightarrow> nbytes \<le> CONS_PAGE_USABLE_BYTES \<or> LARGE_OBJECT_SIZE \<le> nbytes"
      by (auto simp: too_long_for_cons_def)
    then show ?thesis unfolding e using collector_alloc_ok[OF I t m n] by blast
  qed
qed

text \<open>The end of a new region of small mixed objects, and what closing a region leaves alone.\<close>

lemma small_mixed_region_end:
  assumes "heap_ok g" and t: "t = PAGE_TYPE_SMALL_MIXED" and n: "request_ok PAGE_TYPE_SMALL_MIXED nbytes"
    and "gc_alloc_new_region nbytes t r g = Inr (p, g')"
  shows "end_addr (region g' r) = p div GENCGC_CARD_BYTES * GENCGC_CARD_BYTES + GENCGC_CARD_BYTES"
proof -
  have "8 dvd nbytes" "0 < nbytes" using n by (auto simp: request_ok_def intro: dvd_trans[of 8 16])
  moreover have "nbytes \<le> (if t = PAGE_TYPE_CONS then CONS_PAGE_USABLE_BYTES else GENCGC_PAGE_BYTES)"
    using n t by (auto simp: request_ok_def page_constants page_types)
  moreover have "gc_alloc_new_region_single nbytes t r g = Inr (p, g')"
    using assms(4) t by (simp add: gc_alloc_new_region_def)
  ultimately show ?thesis
    using alloc_region_single[OF assms(1), of t nbytes r] t by (auto simp: page_types)
qed

lemma close_pages_memory:
  "close_pages t start fp n b sz g = Inr (n', sz', g') \<Longrightarrow> memory g' = memory g"
proof (induction t start fp n b sz g rule: close_pages.induct)
  case (1 t start fp n b sz g)
  show ?case
    using "1.prems" "1.IH"[OF _ refl refl refl]
    by (subst (asm) close_pages.simps)
      (auto simp: gc_assert_def Let_def set_page_type_def set_page_bytes_used_def split: if_splits)
qed

lemma free_pages_memory: "for_each free_unused_page is g = Inr g' \<Longrightarrow> memory g' = memory g"
proof (induction "is" arbitrary: g)
  case (Cons i "is")
  then show ?case
    by (auto simp: free_unused_page_def gc_assert_def reset_page_flags_def assign_page_card_marks_def
        set_page_type_def Let_def split: if_splits)
qed simp

lemma close_used_region_memory:
  "close_used_region r t p u g = Inr (n, g') \<Longrightarrow> memory g' = memory g"
  by (auto simp: close_used_region_def Let_def gc_assert_def set_alloc_start_page_def add_bytes_allocated_def
      add_new_area_frame set_page_bytes_used_def dest!: close_pages_memory split: if_splits)

lemma gc_close_region_memory: "gc_close_region r t g = Inr g' \<Longrightarrow> memory g' = memory g"
  by (auto simp: gc_close_region_def Let_def gc_assert_def gc_set_region_empty_def set_page_type_def
      reset_page_flags_def assign_page_card_marks_def
      dest!: free_pages_memory close_used_region_memory split: if_splits option.splits)

section \<open>Properties\<close>

text \<open>C1: \<open>gc_general_alloc\<close>, the collector's allocation of a positive multiple of 16 bytes for a
  region of any page type,
  with all that lies behind it (\<open>collector_alloc_fallback\<close>, opening and closing regions, moving on
  to the next card, large objects), keeps the invariant of the allocator: page table well formed,
  bytes accounted per heap and generation, open regions on disjoint pages. The object lies at the
  end of an open region, below its free pointer, or on pages of its own. It fails in two ways only:
  heap exhaustion, and the assertion of \<open>find_single_page\<close> for a request of conses that is longer
  than the usable part of a page but shorter than a large object; no other assertion can fail.\<close>

theorem gc_general_alloc_invariant:
  assumes "alloc_inv T g" and "open_type (T r)" and "T mixed_region = PAGE_TYPE_MIXED"
    and "0 < nbytes" "16 dvd nbytes"
  shows "case gc_general_alloc r nbytes (T r) g of
      Inl e \<Rightarrow> (\<exists>available requested. e = Heap_exhausted available requested) \<or>
        e = Assert_failed \<and> T r = PAGE_TYPE_CONS \<and> CONS_PAGE_USABLE_BYTES < nbytes \<and> nbytes < LARGE_OBJECT_SIZE
    | Inr (p, g') \<Rightarrow> alloc_inv T g' \<and>
        ((\<exists>r'\<in>{r, mixed_region}. \<exists>f l. region_open g' r' (T r') f l \<and>
            start_addr (region g' r') \<le> p \<and> p + nbytes = free_pointer (region g' r')) \<or>
         (\<exists>f l. large_ok g nbytes (large_type (T r)) p g' f l))"
  using gc_general_alloc_post[OF assms]
  unfolding alloc_post_def allocated_def too_long_for_cons_def by (fastforce split: sum.splits)


text \<open>C2: \<open>gc_close_region\<close> on an open region passes every assertion. It raises
  \<open>bytes_allocated\<close>, and the account of the generation, by exactly the bytes between the region's
  start and its free pointer and leaves the accounts of the other generations, records the usage of
  each page that has some, frees the pages behind
  the free pointer, and leaves the region closed. All other regions, the contents of memory, and the
  type, generation, usage and scan start of every page outside the region are as before.\<close>

theorem gc_close_region_correct:
  assumes "alloc_inv T g" and "region_open g r (T r) f l"
  shows "\<exists>g'. gc_close_region r (T r) g = Inr g' \<and> alloc_inv T g' \<and> region_closed g' r \<and>
    frame {f..l} g g' \<and> (\<forall>r'. r' \<noteq> r \<longrightarrow> region g' r' = region g r') \<and> memory g' = memory g \<and>
    bytes_allocated g' = bytes_allocated g + (free_pointer (region g r) - start_addr (region g r)) \<and>
    generations_bytes g' = (generations_bytes g)(gc_alloc_generation g :=
      generations_bytes g (gc_alloc_generation g) + (free_pointer (region g r) - start_addr (region g r))) \<and>
    (\<forall>i\<in>{f..l}. if page_address g i < free_pointer (region g r)
       then ptype (page_table g' i) = T r \<and>
         page_bytes_used g' i = min (free_pointer (region g r) - page_address g i) GENCGC_PAGE_BYTES
       else page_free_p g' i)"
proof -
  obtain g' where g': "gc_close_region r (T r) g = Inr g'" and c: "closed g (T r) r g' f l"
    using gc_close_region_ok[OF alloc_invD(1)[OF assms(1)] assms(2)] by blast
  have p: "\<forall>i\<in>{f..l}. if page_address g i < free_pointer (region g r)
       then ptype (page_table g' i) = T r \<and>
         page_bytes_used g' i = min (free_pointer (region g r) - page_address g i) GENCGC_PAGE_BYTES
       else page_free_p g' i"
    using c unfolding closed_def Let_def page_free_p_def by simp
  show ?thesis
    using g' alloc_inv_closed[OF assms c] c p gc_close_region_memory[OF g'] unfolding closed_def Let_def
    by (intro exI[of _ g'] conjI) (simp_all add: fun_eq_iff)
qed

text \<open>C4: \<open>gc_alloc_large\<close> either reports heap exhaustion or places the object at the start of a run
  of pages that were free, marks them as a single object of the generation, records on each of them
  the bytes used and a scan start that leads back to the object, however large it is, accounts for
  exactly \<open>nbytes\<close>, touches no other page, and leaves the first word of the object cleared.\<close>

theorem gc_alloc_large_correct:
  assumes "alloc_inv T g" and "open_type t" and "0 < nbytes" "16 dvd nbytes"
  shows "case gc_alloc_large nbytes t g of
      Inl e \<Rightarrow> \<exists>available. e = Heap_exhausted (int available) (int nbytes) \<and> available < nbytes
    | Inr (p, g') \<Rightarrow> alloc_inv T g' \<and> bytes_allocated g' = bytes_allocated g + nbytes \<and>
        memory g' (of_nat p) = 0 \<and>
        (\<exists>f l. p = page_address g f \<and> l < page_table_pages g \<and> frame {f..l} g g' \<and>
           (\<forall>i\<in>{f..l}. page_free_p g i \<and> page_single_obj_p g' i \<and>
              pgen (page_table g' i) = gc_alloc_generation g \<and>
              page_bytes_used g' i = min (nbytes - (i - f) * GENCGC_PAGE_BYTES) GENCGC_PAGE_BYTES \<and>
              page_scan_start g' i = p))"
proof (cases "gc_alloc_large nbytes t g")
  case (Inl e)
  then show ?thesis using gc_alloc_large_ok[OF alloc_invD(1)[OF assms(1)] assms(2-4)] by simp
next
  case (Inr x)
  obtain p g' where x: "x = (p, g')" by (cases x)
  from gc_alloc_large_ok[OF alloc_invD(1)[OF assms(1)] assms(2-4)] Inr x
  obtain f l where L: "large_ok g nbytes (large_type t) p g' f l" by auto
  have t: "open_type (large_type t)" using assms(2) by (auto simp: large_type_def open_type_def)
  have "(SINGLE_OBJECT_FLAG OR large_type t) AND SINGLE_OBJECT_FLAG \<noteq> 0" by (rule open_type_bits(9)[OF t])
  then have "\<forall>i\<in>{f..l}. page_free_p g i \<and> page_single_obj_p g' i \<and>
              pgen (page_table g' i) = gc_alloc_generation g \<and>
              page_bytes_used g' i = min (nbytes - (i - f) * GENCGC_PAGE_BYTES) GENCGC_PAGE_BYTES \<and>
              page_scan_start g' i = p"
    using L by (simp add: large_ok_def page_single_obj_p_def)
  with large_ok_inv[OF assms(1) L t] L show ?thesis
    unfolding Inr x sum.case prod.case by (auto simp: large_ok_def)
qed

section \<open>A concrete heap\<close>

lemma small_heap_inv: "alloc_inv (\<lambda>_. PAGE_TYPE_MIXED) small_heap"
proof -
  have s: "{..<4 :: nat} = {0, 1, 2, 3}" by auto
  have "heap_ok small_heap"
    by (auto simp: heap_ok_def small_heap_def page_ok_def page_constants page_types)
  moreover have "accounted small_heap"
    by (simp add: accounted_def usage_def gen_usage_def small_heap_def s page_bytes_used_def WORD_SHIFT_def)
  moreover have c: "region_closed small_heap r" for r by (simp add: region_closed_def small_heap_def)
  moreover have "\<not> region_open small_heap r t f l" for r t f l
    using c region_open_not_closed[OF \<open>heap_ok small_heap\<close>] by blast
  ultimately show ?thesis by (simp add: alloc_inv_def)
qed

lemma mixed_facts:
  "open_type PAGE_TYPE_MIXED" "PAGE_TYPE_MIXED \<noteq> PAGE_TYPE_CONS" "PAGE_TYPE_MIXED \<noteq> PAGE_TYPE_SMALL_MIXED"
  "request_ok PAGE_TYPE_MIXED 64" "bytes_allocated small_heap = 65536"
  by (simp_all add: open_type_def request_ok_def page_types) (simp add: small_heap_def)

lemma gc_general_alloc_invariant_witness:
  "case gc_general_alloc 0 64 PAGE_TYPE_MIXED small_heap of
      Inl e \<Rightarrow> \<exists>available requested. e = Heap_exhausted available requested
    | Inr (p, g') \<Rightarrow> alloc_inv (\<lambda>_. PAGE_TYPE_MIXED) g'"
  using gc_general_alloc_invariant[OF small_heap_inv, where r = 0 and nbytes = 64] mixed_facts by (auto split: sum.splits)


lemma gc_alloc_large_correct_witness:
  "case gc_alloc_large 40000 PAGE_TYPE_MIXED small_heap of
      Inl e \<Rightarrow> \<exists>available. e = Heap_exhausted (int available) 40000
    | Inr (p, g') \<Rightarrow> bytes_allocated g' = 105536"
  using gc_alloc_large_correct[OF small_heap_inv, where t = PAGE_TYPE_MIXED and nbytes = 40000] mixed_facts
  by (auto split: sum.splits)

text \<open>The small heap with region 0 open on page 2 and 64 bytes allocated in it.\<close>

definition small_open :: gc where
  "small_open = set_region 0 \<lparr>free_pointer = 0x1000010040, end_addr = 0x1000018000, start_addr = 0x1000010000\<rparr>
     (set_page 2 (\<lambda>p. p\<lparr>ptype := OPEN_REGION_PAGE_FLAG OR PAGE_TYPE_MIXED\<rparr>) small_heap)"

lemma small_open_inv:
  "alloc_inv (\<lambda>_. PAGE_TYPE_MIXED) small_open" "region_open small_open 0 PAGE_TYPE_MIXED 2 2"
proof -
  show o: "region_open small_open 0 PAGE_TYPE_MIXED 2 2"
    by (simp add: region_open_def small_open_def set_region_def small_heap_def open_type_def page_address_def
        page_bytes_used_def page_constants page_types)
  have s: "{..<4 :: nat} = {0, 1, 2, 3}" by auto
  have "heap_ok small_open"
    by (auto simp: heap_ok_def small_open_def set_region_def small_heap_def page_ok_def page_constants page_types)
  moreover have "accounted small_open"
    by (simp add: accounted_def usage_def gen_usage_def small_open_def set_region_def small_heap_def s
        page_bytes_used_def WORD_SHIFT_def)
  moreover have c: "region_closed small_open r" if "r \<noteq> 0" for r
    using that by (simp add: region_closed_def small_open_def set_region_def small_heap_def)
  moreover have n: "\<not> region_open small_open r t f l" if "r \<noteq> 0" for r t f l
    using c[OF that] region_open_not_closed[OF \<open>heap_ok small_open\<close>] by blast
  ultimately show "alloc_inv (\<lambda>_. PAGE_TYPE_MIXED) small_open"
    using o unfolding alloc_inv_def by metis
qed

lemma gc_close_region_correct_witness:
  "\<exists>g'. gc_close_region 0 PAGE_TYPE_MIXED small_open = Inr g' \<and> bytes_allocated g' = 65600 \<and>
     page_bytes_used g' 2 = 64"
  using gc_close_region_correct[OF small_open_inv]
  by (auto simp: small_open_def set_region_def small_heap_def page_address_def page_constants)

end
