(* ===== verification/Signals.thy ===== *)
theory Signals
  imports Prelude
begin

text \<open>
  The signal sets of \<open>interrupt.c\<close>. A \<open>sigset_t\<close> is the set of its signals and
  \<open>sigaddset\<close> is insertion. The configuration is Linux without safepoints and without
  the address sanitizer: \<open>SIGIO\<close> is defined, \<open>SIG_STOP_FOR_GC\<close> is \<open>SIGUSR2\<close>
  (\<open>linux-os.h\<close>), threads are stopped by that signal, and
  \<open>LISP_FEATURE_BACKTRACE_ON_SIGNAL\<close> is not set.
\<close>

datatype signal = SIGHUP | SIGINT | SIGQUIT | SIGILL | SIGTRAP | SIGABRT | SIGBUS | SIGFPE
  | SIGKILL | SIGUSR1 | SIGSEGV | SIGUSR2 | SIGPIPE | SIGALRM | SIGTERM | SIGCHLD | SIGCONT
  | SIGSTOP | SIGTSTP | SIGTTIN | SIGTTOU | SIGURG | SIGXCPU | SIGXFSZ | SIGVTALRM | SIGPROF
  | SIGWINCH | SIGIO | SIGPWR | SIGSYS

type_synonym sigset = "signal set"

definition SIG_STOP_FOR_GC :: signal where
  "SIG_STOP_FOR_GC = SIGUSR2"

definition sigaddset_deferrable :: "sigset \<Rightarrow> sigset" where
  "sigaddset_deferrable s =
     (let s = insert SIGHUP s;
          s = insert SIGINT s;
          s = insert SIGTERM s;
          s = insert SIGQUIT s;
          s = insert SIGALRM s;
          s = insert SIGURG s;
          s = insert SIGTSTP s;
          s = insert SIGCHLD s;
          s = insert SIGIO s;
          s = insert SIGXCPU s;
          s = insert SIGXFSZ s;
          s = (if SIG_STOP_FOR_GC \<noteq> SIGVTALRM then insert SIGVTALRM s else s)
      in if SIG_STOP_FOR_GC \<noteq> SIGWINCH then insert SIGWINCH s else s)"

definition sigaddset_gc :: "sigset \<Rightarrow> sigset" where
  "sigaddset_gc s = insert SIG_STOP_FOR_GC s"

definition sigaddset_blockable :: "sigset \<Rightarrow> sigset" where
  "sigaddset_blockable s =
     (let s = sigaddset_gc (sigaddset_deferrable s) in insert SIGPROF (insert SIGPIPE s))"

lemma sigaddset_deferrable_Un: "sigaddset_deferrable s = s \<union> sigaddset_deferrable {}"
  by (auto simp: sigaddset_deferrable_def Let_def SIG_STOP_FOR_GC_def)

lemma sigaddset_blockable_Un: "sigaddset_blockable s = s \<union> sigaddset_blockable {}"
  unfolding sigaddset_blockable_def sigaddset_gc_def Let_def
  by (subst sigaddset_deferrable_Un) auto

lemma blockable_not_synchronous:
  "{SIGSEGV, SIGILL, SIGTRAP, SIGBUS, SIGFPE} \<inter> sigaddset_blockable {} = {}"
  by (simp add: sigaddset_blockable_def sigaddset_deferrable_def sigaddset_gc_def
      SIG_STOP_FOR_GC_def Let_def)

end
