(* ===== verification/Stepping.thy ===== *)
theory Stepping
  imports Signals
begin

text \<open>
  Breakpoints on the machines without a single-step facility (\<open>ppc-arch.c\<close>,
  \<open>sparc-arch.c\<close>, \<open>mips-arch.c\<close>). To run an instruction that a breakpoint has
  overwritten, \<open>arch_do_displaced_inst\<close> puts the instruction back and plants a second
  trap at the instruction after it; when that trap fires, \<open>arch_handle_after_breakpoint\<close>
  puts the breakpoint back and removes the second trap. The locale states what the three
  functions owe to each other; the machines interpret it.
\<close>

text \<open>
  What the contexts of these machines share: the instructions in code memory by address (the
  runtime only forms addresses that are multiples of four), the signal mask that the handler
  will restore, and the three static variables of the files. Flushing the instruction cache
  has no effect on the model.
\<close>

record 'a step_context =
  insts :: "'a \<Rightarrow> u32"
  sigmask :: sigset
  skipped_break_addr :: 'a
  displaced_after_inst :: u32
  orig_sigmask :: sigset

text \<open>The data that \<open>arch_do_displaced_inst\<close> leaves for \<open>arch_handle_after_breakpoint\<close>.\<close>

abbreviation saved_step :: "('a, 'b) step_context_scheme \<Rightarrow> 'a \<times> u32 \<times> sigset" where
  "saved_step c \<equiv> (skipped_break_addr c, displaced_after_inst c, orig_sigmask c)"

text \<open>
  The client's operations: the code memory of a context, \<open>pc\<close> the address of the
  trapped instruction, \<open>site\<close> the address a breakpoint for an instruction really
  occupies (the delay slot, on a machine that has them), \<open>next\<close> the address at which the
  second trap is planted, \<open>displace\<close> and \<open>after\<close> the two handlers, \<open>brk\<close> and
  \<open>aft\<close> the trap instructions, and \<open>apart\<close> the condition under which the second trap
  stays clear of the first.
\<close>

locale displaced_stepping =
  fixes code :: "'s \<Rightarrow> 'a \<Rightarrow> 'i"
    and pc :: "'s \<Rightarrow> 'a"
    and site :: "('a \<Rightarrow> 'i) \<Rightarrow> 'a \<Rightarrow> 'a"
    and succ_pc :: "'s \<Rightarrow> 'i \<Rightarrow> 'a"
    and apart :: "('a \<Rightarrow> 'i) \<Rightarrow> 'a \<Rightarrow> 'a \<Rightarrow> bool"
    and saved :: "'s \<Rightarrow> 'a \<times> 'i \<times> sigset"
    and mask :: "'s \<Rightarrow> sigset"
    and displace :: "'s \<Rightarrow> 'i \<Rightarrow> 's"
    and after :: "'s \<Rightarrow> 's"
    and brk :: 'i
    and aft :: 'i
  assumes displace_code:
      "code s = m(site m (pc s) := brk) \<Longrightarrow> apart m (pc s) (succ_pc s (m (site m (pc s)))) \<Longrightarrow>
       code (displace s (m (site m (pc s)))) =
         m(site m (succ_pc s (m (site m (pc s)))) := aft)"
    and displace_saved:
      "code s = m(site m (pc s) := brk) \<Longrightarrow> apart m (pc s) (succ_pc s (m (site m (pc s)))) \<Longrightarrow>
       saved (displace s (m (site m (pc s)))) =
         (pc s, m (site m (succ_pc s (m (site m (pc s))))), mask s)"
    and after_code:
      "code t = m(site m (pc t) := aft) \<Longrightarrow> saved t = (p, m (site m (pc t)), k) \<Longrightarrow>
       apart m p (pc t) \<Longrightarrow> code (after t) = m(site m p := brk)"
    and after_mask: "saved t = (p, i, k) \<Longrightarrow> mask (after t) = k"
begin

text \<open>
  A whole step over a breakpoint: whatever the machine does between the two traps, if it
  leaves code memory and the saved data alone and stops at the second trap, the code
  afterwards holds the breakpoint and nothing else, and the signal mask is the old one.
\<close>

lemma step_over:
  assumes "code s = m(site m (pc s) := brk)"
    and "apart m (pc s) (succ_pc s (m (site m (pc s))))"
    and "code t = code (displace s (m (site m (pc s))))"
    and "saved t = saved (displace s (m (site m (pc s))))"
    and "pc t = succ_pc s (m (site m (pc s)))"
  shows "code (after t) = code s" and "mask (after t) = mask s"
proof -
  have c: "code t = m(site m (pc t) := aft)"
    using displace_code[OF assms(1,2)] assms(3,5) by simp
  have s: "saved t = (pc s, m (site m (pc t)), mask s)"
    using displace_saved[OF assms(1,2)] assms(4,5) by simp
  have a: "apart m (pc s) (pc t)" using assms(2,5) by simp
  show "code (after t) = code s" using after_code[OF c s a] assms(1) by simp
  show "mask (after t) = mask s" using after_mask[OF s] .
qed

end

end
