(* ===== verification/Ppc.thy ===== *)
theory Ppc
  imports Stepping
begin

text \<open>
  Breakpoints on PowerPC (\<open>ppc-arch.c\<close>), in the configuration of the 64-bit machine. The
  context of a signal has the program counter and the link, count and condition registers.
  Below the code stands a reference of the instructions that continue elsewhere, written from
  the fields of the instruction set instead of masks and shifts, and the code is proved
  to find the same next instruction where the reference determines it. Traps, returns from
  interrupts, branches to the target address register and prefixed instructions are kept apart
  there: the code treats them like an addition.
\<close>

record ppc_context = "uword step_context" +
  nip :: uword
  lr :: uword
  ctr :: uword
  cr :: uword

definition trap_Breakpoint_ppc :: u32 where
  "trap_Breakpoint_ppc = 11"

definition trap_AfterBreakpoint_ppc :: u32 where
  "trap_AfterBreakpoint_ppc = 13"

definition reg_NULL :: u32 where
  "reg_NULL = 18"

definition TRAP_INSTRUCTION_ppc :: "u32 \<Rightarrow> u32" where
  "TRAP_INSTRUCTION_ppc trap = push_bit 26 2 OR push_bit 21 1 OR push_bit 16 reg_NULL OR trap"

definition arch_install_breakpoint_ppc :: "(uword \<Rightarrow> u32) \<Rightarrow> uword \<Rightarrow> u32 \<times> (uword \<Rightarrow> u32)" where
  "arch_install_breakpoint_ppc m p =
     (let result = m p in (result, m(p := TRAP_INSTRUCTION_ppc trap_Breakpoint_ppc)))"

definition arch_remove_breakpoint_ppc :: "(uword \<Rightarrow> u32) \<Rightarrow> uword \<Rightarrow> u32 \<Rightarrow> (uword \<Rightarrow> u32)" where
  "arch_remove_breakpoint_ppc m p orig_inst = m(p := orig_inst)"

text \<open>The locals \<open>ctr\<close> and \<open>cr\<close> of the code are \<open>int\<close>: the registers are cut to 32 bits.\<close>

definition should_branch :: "ppc_context \<Rightarrow> u32 \<Rightarrow> bool" where
  "should_branch context orig_inst =
     (let ctr = (ucast (ctr context) :: u32);
          cr = (ucast (cr context) :: u32);
          bo_field = drop_bit 21 orig_inst AND 0x1f;
          bi_field = drop_bit 16 orig_inst AND 0x1f;
          ctr = (if bo_field AND 4 = 0 then ctr - 1 else ctr);
          ctr_ok = (bo_field AND 4 \<noteq> 0 \<or> ((ctr = 0) = (bo_field AND 2 = 2)))
      in ctr_ok \<and>
         (bo_field AND 0x10 \<noteq> 0 \<or>
          (signed_drop_bit (31 - unat bi_field) cr XOR drop_bit 3 bo_field) AND 1 = 0))"

definition sign_extend_ppc :: "uword \<Rightarrow> nat \<Rightarrow> uword" where
  "sign_extend_ppc w n_bits = signed_drop_bit (64 - n_bits) (push_bit (64 - n_bits) w)"

text \<open>The part of \<open>arch_do_displaced_inst\<close> that finds the next instruction.\<close>

definition displaced_next_pc_ppc :: "ppc_context \<Rightarrow> u32 \<Rightarrow> uword" where
  "displaced_next_pc_ppc context orig_inst =
     (let pc = nip context;
          op = drop_bit 26 orig_inst;
          sub_op = drop_bit 1 (orig_inst AND 0x7fe);
          next_pc = pc + 4
      in if op = 18 then
           (let displacement = sign_extend_ppc (ucast (orig_inst AND 0x03fffffc)) 26
            in if orig_inst AND 2 \<noteq> 0 then displacement else pc + displacement)
         else if op = 16 \<and> should_branch context orig_inst then
           (let displacement = sign_extend_ppc (ucast (orig_inst AND 0x0000fffc)) 16
            in if orig_inst AND 2 \<noteq> 0 then displacement else pc + displacement)
         else if op = 19 \<and> sub_op = 16 \<and> should_branch context orig_inst then
           lr context AND NOT 3
         else if op = 19 \<and> sub_op = 528 \<and> should_branch context orig_inst then
           ctr context AND NOT 3
         else next_pc)"

definition arch_do_displaced_inst_ppc :: "ppc_context \<Rightarrow> u32 \<Rightarrow> ppc_context" where
  "arch_do_displaced_inst_ppc context orig_inst =
     (let pc = nip context;
          context = context\<lparr>orig_sigmask := sigmask context\<rparr>;
          context = context\<lparr>sigmask := sigaddset_blockable (sigmask context)\<rparr>;
          context = context\<lparr>insts := (insts context)(pc := orig_inst)\<rparr>;
          context = context\<lparr>skipped_break_addr := pc\<rparr>;
          next_pc = displaced_next_pc_ppc context orig_inst;
          context = context\<lparr>displaced_after_inst := insts context next_pc\<rparr>
      in context\<lparr>insts := (insts context)(next_pc := TRAP_INSTRUCTION_ppc trap_AfterBreakpoint_ppc)\<rparr>)"

definition arch_handle_after_breakpoint_ppc :: "ppc_context \<Rightarrow> ppc_context" where
  "arch_handle_after_breakpoint_ppc context =
     (let context = context\<lparr>insts := (insts context)
            (skipped_break_addr context := TRAP_INSTRUCTION_ppc trap_Breakpoint_ppc)\<rparr>;
          context = context\<lparr>skipped_break_addr := 0\<rparr>;
          context = context\<lparr>insts := (insts context)(nip context := displaced_after_inst context)\<rparr>
      in context\<lparr>sigmask := orig_sigmask context\<rparr>)"

section \<open>The branch instructions of the instruction set\<close>

text \<open>
  Bit \<open>i\<close> of an instruction counts from the left in the manuals, so it is bit \<open>31 - i\<close>
  of the word. \<open>BO\<close> is given by its first four bits (the fifth is a hint).
  \<open>Elsewhere\<close> collects the instructions whose successor the program counter and the link, count
  and condition registers do not determine: prefixed instructions (eight bytes long), the traps
  \<open>tdi\<close>, \<open>twi\<close>, \<open>tw\<close> and \<open>td\<close>, the returns from interrupts, and \<open>bctar\<close>, which branches to
  the target address register. A system call continues behind it. Exceptions (a load that faults, a
  word that is no instruction) are left aside.
\<close>

datatype ppc_branch =
    Branch "24 word" bool
  | Branch_Conditional "bool \<times> bool \<times> bool \<times> bool" "5 word" "14 word" bool
  | Branch_To_Link "bool \<times> bool \<times> bool \<times> bool" "5 word"
  | Branch_To_Count "bool \<times> bool \<times> bool \<times> bool" "5 word"
  | Elsewhere
  | No_Branch

definition continues_elsewhere :: "6 word \<Rightarrow> 10 word \<Rightarrow> bool" where
  "continues_elsewhere opcd xo \<longleftrightarrow> opcd \<in> {1, 2, 3} \<or> opcd = 31 \<and> xo \<in> {4, 68} \<or>
     opcd = 19 \<and> xo \<in> {18, 50, 82, 146, 274, 560}"

definition ppc_decode :: "u32 \<Rightarrow> ppc_branch" where
  "ppc_decode w =
     (let opcd = (ucast (drop_bit 26 w) :: 6 word);
          xo = (ucast (drop_bit 1 w) :: 10 word);
          bo = (bit w 25, bit w 24, bit w 23, bit w 22);
          bi = (ucast (drop_bit 16 w) :: 5 word)
      in if opcd = 18 then Branch (ucast (drop_bit 2 w)) (bit w 1)
         else if opcd = 16 then Branch_Conditional bo bi (ucast (drop_bit 2 w)) (bit w 1)
         else if opcd = 19 \<and> xo = 16 then Branch_To_Link bo bi
         else if opcd = 19 \<and> xo = 528 then Branch_To_Count bo bi
         else if continues_elsewhere opcd xo then Elsewhere
         else No_Branch)"

text \<open>
  The condition of a conditional branch: \<open>BO\<^sub>2\<close> ignores the count register, which is
  decremented otherwise, \<open>BO\<^sub>3\<close> picks zero or nonzero, \<open>BO\<^sub>0\<close> ignores the condition
  register, and \<open>BO\<^sub>1\<close> is the value its bit \<open>BI\<close> must have.
\<close>

definition branch_taken :: "ppc_context \<Rightarrow> bool \<times> bool \<times> bool \<times> bool \<Rightarrow> 5 word \<Rightarrow> bool" where
  "branch_taken c bo bi =
     (case bo of (bo0, bo1, bo2, bo3) \<Rightarrow>
        (bo2 \<or> ((ctr c - 1 \<noteq> 0) \<noteq> bo3)) \<and>
        (bo0 \<or> bit (cr c) (31 - unat bi) = bo1))"

definition next_instruction :: "ppc_context \<Rightarrow> ppc_branch \<Rightarrow> uword option" where
  "next_instruction c b =
     (case b of
        Branch li aa \<Rightarrow> Some ((if aa then 0 else nip c) + word_of_int (sint li * 4))
      | Branch_Conditional bo bi bd aa \<Rightarrow> Some
          (if branch_taken c bo bi then (if aa then 0 else nip c) + word_of_int (sint bd * 4)
           else nip c + 4)
      | Branch_To_Link bo bi \<Rightarrow> Some
          (if branch_taken c bo bi then push_bit 2 (drop_bit 2 (lr c)) else nip c + 4)
      | Branch_To_Count bo bi \<Rightarrow> Some
          (if branch_taken c bo bi then push_bit 2 (drop_bit 2 (ctr c)) else nip c + 4)
      | Elsewhere \<Rightarrow> None
      | No_Branch \<Rightarrow> Some (nip c + 4))"

section \<open>The fields\<close>

lemma and_field_bit:
  "(w :: 'a::len word) AND 2 ^ k \<noteq> 0 \<longleftrightarrow> bit w k"
  by (simp add: and_exp_eq_0_iff_not_bit)

lemma bit_mask_field:
  fixes w :: u32
  shows "bit (w AND push_bit k (mask n)) j \<longleftrightarrow> bit w j \<and> k \<le> j \<and> j < k + n"
proof -
  have "bit w j \<Longrightarrow> j < 32" using bit_imp_le_length by fastforce
  then show ?thesis by (auto simp: bit_simps bit_mask_iff)
qed

lemma displacement_masks:
  "(0x03fffffc :: u32) = push_bit 2 (mask 24)"
  "(0xfffc :: u32) = push_bit 2 (mask 14)"
  "(0x7fe :: u32) = push_bit 1 (mask 10)"
  by code_simp+

lemma sign_extend_ppc_displacement:
  fixes f :: "'a::len word"
  assumes "f = ucast (drop_bit 2 w)" and "LENGTH('a) = n" and "n \<le> 30"
  shows "sign_extend_ppc (ucast ((w :: u32) AND push_bit 2 (mask n))) (n + 2) =
    word_of_int (sint f * 4)" (is "?l = ?r")
proof -
  have "?r = push_bit 2 (scast f)"
    by (simp add: push_bit_eq_mult mult.commute)
  moreover have "bit ?l j = bit (push_bit 2 (scast f) :: uword) j" if "j < 64" for j
  proof (cases "j < 2")
    case True
    then show ?thesis using assms(2,3) unfolding sign_extend_ppc_def assms(1)
      by (auto simp: bit_simps bit_mask_field)
  next
    case False
    then have "Suc (Suc (j - 2)) = j" by simp
    moreover have "0 < n" using assms(2) len_gt_0[where 'a = 'a] by simp
    ultimately show ?thesis using that assms(2,3) False unfolding sign_extend_ppc_def assms(1)
      by (auto simp: bit_simps bit_mask_field)
  qed
  ultimately show ?thesis by (intro bit_eqI) auto
qed

lemma align_mask: "(w :: uword) AND NOT 3 = push_bit 2 (drop_bit 2 w)"
proof (rule bit_eqI)
  fix j assume "possible_bit TYPE(uword) j"
  then have "j < 64" by simp
  moreover have three: "(3 :: uword) = mask 2" by code_simp
  ultimately show "bit (w AND NOT 3) j = bit (push_bit 2 (drop_bit 2 w)) j"
    unfolding three by (cases "j < 2") (auto simp: bit_simps bit_mask_iff simp flip: Suc_diff_le)
qed

lemma widen_eq:
  fixes a c :: "'a::len word" and b :: "'b::len word"
  assumes "LENGTH('a) < LENGTH('b)" and "ucast a = b"
  shows "a = c \<longleftrightarrow> b = ucast c"
proof -
  have "(ucast (ucast x :: 'b word) :: 'a word) = x" for x :: "'a word"
    using assms(1) by (intro bit_eqI) (simp add: bit_simps)
  then show ?thesis unfolding assms(2)[symmetric] by metis
qed

lemma opcode_field: "(ucast (drop_bit 26 w) :: 6 word) = c \<longleftrightarrow> drop_bit 26 (w :: u32) = ucast c"
proof (rule widen_eq)
  have "n < 6" if "bit w (26 + n)" for n using bit_imp_le_length[OF that] by simp
  then show "ucast (ucast (drop_bit 26 w) :: 6 word) = drop_bit 26 w"
    by (auto intro!: bit_eqI simp: bit_simps)
qed simp

lemma bit_and_7fe: "bit ((w :: u32) AND 0x7fe) j \<longleftrightarrow> bit w j \<and> 1 \<le> j \<and> j < 11"
  unfolding displacement_masks(3) by (subst bit_mask_field) simp

lemma xo_field:
  "(ucast (drop_bit 1 w) :: 10 word) = c \<longleftrightarrow> drop_bit 1 ((w :: u32) AND 0x7fe) = ucast c"
proof (rule widen_eq)
  show "ucast (ucast (drop_bit 1 w) :: 10 word) = drop_bit 1 (w AND 0x7fe)"
    by (rule bit_eqI) (auto simp only: bit_unsigned_iff bit_drop_bit_eq bit_and_7fe o_def, auto)
qed simp

lemma field_bits:
  fixes w :: u32
  shows "(drop_bit 21 w AND 0x1f) AND 4 = 0 \<longleftrightarrow> \<not> bit w 23"
    and "(drop_bit 21 w AND 0x1f) AND 2 = 2 \<longleftrightarrow> bit w 22"
    and "(drop_bit 21 w AND 0x1f) AND 0x10 = 0 \<longleftrightarrow> \<not> bit w 25"
    and "bit (drop_bit 3 (drop_bit 21 w AND 0x1f)) 0 \<longleftrightarrow> bit w 24"
    and "w AND 2 = 0 \<longleftrightarrow> \<not> bit w 1"
proof -
  have m: "(0x1f :: u32) = mask 5" by code_simp
  have p: "x AND 2 ^ k = 0 \<longleftrightarrow> \<not> bit x k" for x :: u32 and k
    using and_field_bit by blast
  show "(drop_bit 21 w AND 0x1f) AND 4 = 0 \<longleftrightarrow> \<not> bit w 23"
    using p[of "drop_bit 21 w AND 0x1f" 2] unfolding m by (simp add: bit_simps bit_mask_iff)
  show "(drop_bit 21 w AND 0x1f) AND 0x10 = 0 \<longleftrightarrow> \<not> bit w 25"
    using p[of "drop_bit 21 w AND 0x1f" 4] unfolding m by (simp add: bit_simps bit_mask_iff)
  show "w AND 2 = 0 \<longleftrightarrow> \<not> bit w 1" using p[of w 1] by simp
  have "x AND 2 = 2 \<longleftrightarrow> bit x 1" for x :: u32
  proof -
    have "x AND 2 \<in> {0, 2}"
      using and_exp_eq_0_iff_not_bit[of x 1] by (auto intro!: bit_eqI simp: bit_simps)
    then show ?thesis using p[of x 1] by auto
  qed
  then show "(drop_bit 21 w AND 0x1f) AND 2 = 2 \<longleftrightarrow> bit w 22"
    unfolding m by (simp add: bit_simps bit_mask_iff)
  show "bit (drop_bit 3 (drop_bit 21 w AND 0x1f)) 0 \<longleftrightarrow> bit w 24"
    unfolding m by (simp add: bit_simps bit_mask_iff)
qed

lemma bi_field: "unat (drop_bit 16 (w :: u32) AND 0x1f) = unat (ucast (drop_bit 16 w) :: 5 word)"
proof -
  have "(0x1f :: u32) = mask 5" by code_simp
  then show ?thesis
    by (simp only: unsigned_ucast_eq take_bit_eq_mask[symmetric] unsigned_take_bit_eq)
      (simp add: take_bit_nat_def)
qed

lemma count_field:
  assumes "unat (x :: uword) < 2 ^ 32"
  shows "(ucast x :: u32) - 1 = 0 \<longleftrightarrow> x - 1 = 0"
proof -
  have "(ucast x :: u32) = 1 \<longleftrightarrow> x = 1"
    using assms by (simp add: word_unat_eq_iff unsigned_ucast_eq take_bit_nat_eq_self)
  then show ?thesis by (metis diff_eq_eq add_0)
qed

lemma should_branch_taken:
  assumes "unat (ctr c) < 2 ^ 32"
  shows "should_branch c w =
    branch_taken c (bit w 25, bit w 24, bit w 23, bit w 22) (ucast (drop_bit 16 w))"
proof -
  have x: "(a XOR b) AND 1 = 0 \<longleftrightarrow> bit a 0 = bit b 0" for a b :: u32
    using and_exp_eq_0_iff_not_bit[of "a XOR b" 0] by (auto simp: bit_simps)
  let ?bi = "unat (ucast (drop_bit 16 w) :: 5 word)"
  have bi: "?bi < 32" using unat_lt[of "ucast (drop_bit 16 w) :: 5 word"] by simp
  have "bit (signed_drop_bit (31 - ?bi) (ucast (cr c) :: u32)) 0 = bit (cr c) (31 - ?bi)"
    using less_imp_diff_less[of 31 32 ?bi] by (simp add: bit_simps)
  then have cond: "(signed_drop_bit (31 - ?bi) (ucast (cr c) :: u32)
      XOR drop_bit 3 (drop_bit 21 w AND 0x1f)) AND 1 = 0 \<longleftrightarrow> bit (cr c) (31 - ?bi) = bit w 24"
    unfolding x field_bits by simp
  show ?thesis
    unfolding should_branch_def branch_taken_def Let_def bi_field cond prod.case
    using count_field[OF assms] field_bits[of w] by auto
qed

lemma displacement_fields:
  "sign_extend_ppc (ucast (w AND 0x03fffffc)) 26 =
    word_of_int (sint (ucast (drop_bit 2 (w :: u32)) :: 24 word) * 4)"
  "sign_extend_ppc (ucast (w AND 0xfffc)) 16 =
    word_of_int (sint (ucast (drop_bit 2 (w :: u32)) :: 14 word) * 4)"
  unfolding displacement_masks
  using sign_extend_ppc_displacement[of "ucast (drop_bit 2 w) :: 24 word" w 24]
    sign_extend_ppc_displacement[of "ucast (drop_bit 2 w) :: 14 word" w 14]
  by simp_all

text \<open>Where the reference leaves the successor open, the code takes the next instruction.\<close>

definition successor :: "ppc_context \<Rightarrow> ppc_branch \<Rightarrow> uword" where
  "successor c b = (case next_instruction c b of Some n \<Rightarrow> n | None \<Rightarrow> nip c + 4)"

lemma successor_simps:
  "successor c (Branch li aa) = (if aa then 0 else nip c) + word_of_int (sint li * 4)"
  "successor c (Branch_Conditional bo bi bd aa) =
    (if branch_taken c bo bi then (if aa then 0 else nip c) + word_of_int (sint bd * 4) else nip c + 4)"
  "successor c (Branch_To_Link bo bi) =
    (if branch_taken c bo bi then push_bit 2 (drop_bit 2 (lr c)) else nip c + 4)"
  "successor c (Branch_To_Count bo bi) =
    (if branch_taken c bo bi then push_bit 2 (drop_bit 2 (ctr c)) else nip c + 4)"
  "successor c (if e then Elsewhere else No_Branch) = nip c + 4"
  by (simp_all add: successor_def next_instruction_def)

lemma displaced_next_pc_next_instruction:
  assumes "unat (ctr c) < 2 ^ 32"
  shows "displaced_next_pc_ppc c w = successor c (ppc_decode w)"
proof -
  have u: "(ucast (18 :: 6 word) :: u32) = 18" "(ucast (16 :: 6 word) :: u32) = 16"
    "(ucast (19 :: 6 word) :: u32) = 19" "(ucast (16 :: 10 word) :: u32) = 16"
    "(ucast (528 :: 10 word) :: u32) = 528" by simp_all
  show ?thesis
    unfolding displaced_next_pc_ppc_def ppc_decode_def Let_def should_branch_taken[OF assms]
      displacement_fields opcode_field xo_field field_bits align_mask u
    by (cases "drop_bit 26 w = 18"; cases "drop_bit 26 w = 16"; cases "drop_bit 26 w = 19";
        cases "drop_bit 1 (w AND 2046) = 16"; cases "drop_bit 1 (w AND 2046) = 528")
      (simp_all only: successor_simps if_True if_False simp_thms num.distinct
        numeral_eq_iff num.inject cong: if_cong, simp_all)
qed

section \<open>Stepping over a breakpoint\<close>

lemma displaced_next_pc_cong:
  assumes "nip c = nip d" and "lr c = lr d" and "ctr c = ctr d" and "cr c = cr d"
  shows "displaced_next_pc_ppc c w = displaced_next_pc_ppc d w"
  by (simp only: displaced_next_pc_ppc_def should_branch_def assms)

lemma displaced_inst_unfold:
  "arch_do_displaced_inst_ppc c w =
     (let m = (insts c)(nip c := w); n = displaced_next_pc_ppc c w
      in c\<lparr>insts := m(n := TRAP_INSTRUCTION_ppc trap_AfterBreakpoint_ppc),
           sigmask := sigaddset_blockable (sigmask c), skipped_break_addr := nip c,
           displaced_after_inst := m n, orig_sigmask := sigmask c\<rparr>)"
proof -
  have n: "displaced_next_pc_ppc (c\<lparr>orig_sigmask := x, sigmask := y, insts := m,
      skipped_break_addr := p\<rparr>) w = displaced_next_pc_ppc c w" for x y m p
    by (rule displaced_next_pc_cong) simp_all
  show ?thesis unfolding arch_do_displaced_inst_ppc_def Let_def by (simp add: n)
qed

interpretation ppc: displaced_stepping
  insts nip "\<lambda>m p. p" displaced_next_pc_ppc "\<lambda>m p q. p \<noteq> q" saved_step sigmask
  arch_do_displaced_inst_ppc arch_handle_after_breakpoint_ppc
  "TRAP_INSTRUCTION_ppc trap_Breakpoint_ppc" "TRAP_INSTRUCTION_ppc trap_AfterBreakpoint_ppc"
proof unfold_locales
  fix t :: ppc_context and m p k
  assume "insts t = m(nip t := TRAP_INSTRUCTION_ppc trap_AfterBreakpoint_ppc)"
    and "saved_step t = (p, m (nip t), k)" and "p \<noteq> nip t"
  then show "insts (arch_handle_after_breakpoint_ppc t) =
      m(p := TRAP_INSTRUCTION_ppc trap_Breakpoint_ppc)"
    by (auto simp: arch_handle_after_breakpoint_ppc_def Let_def)
qed (auto simp: displaced_inst_unfold arch_handle_after_breakpoint_ppc_def Let_def)

text \<open>C22: On 64-bit PowerPC, \<open>arch_do_displaced_inst\<close> agrees with the instruction set: for every
  instruction word whose successor the context determines and every context whose count register
  fits in 32 bits, it puts the instruction back and plants the second trap at exactly the address
  where the architecture continues (branches with displacement, conditional branches on the count
  and condition registers, branches to the link and count registers, and what falls through),
  saving the instruction it overwrites there, the breakpoint's address and the signal mask, and
  blocking the blockable signals. Not covered: traps (a FIXME of the code), \<open>bctar\<close>, returns from
  interrupts and prefixed instructions, all of which the code takes to fall through
  (\<open>ppc_elsewhere_falls_through\<close>), and larger counts (\<open>ppc_count_register_truncated\<close>).\<close>

theorem ppc_displaced_inst_equiv:
  assumes "unat (ctr c) < 2 ^ 32" and "next_instruction c (ppc_decode w) = Some n"
  shows "arch_do_displaced_inst_ppc c w =
     (let m = (insts c)(nip c := w)
      in c\<lparr>insts := m(n := TRAP_INSTRUCTION_ppc trap_AfterBreakpoint_ppc),
           sigmask := sigaddset_blockable (sigmask c), skipped_break_addr := nip c,
           displaced_after_inst := m n, orig_sigmask := sigmask c\<rparr>)"
  unfolding displaced_inst_unfold displaced_next_pc_next_instruction[OF assms(1)]
  by (simp add: Let_def successor_def assms(2))

definition sample_context :: "uword \<Rightarrow> ppc_context" where
  "sample_context count = \<lparr>insts = (\<lambda>_. 0x60000000), sigmask = {}, skipped_break_addr = 0,
     displaced_after_inst = 0, orig_sigmask = {}, nip = 0x1000, lr = 0, ctr = count, cr = 0\<rparr>"

theorem ppc_displaced_inst_equiv_witness:
  "displaced_after_inst (arch_do_displaced_inst_ppc (sample_context 2) 0x4200fff8) = 0x60000000
   \<and> skipped_break_addr (arch_do_displaced_inst_ppc (sample_context 2) 0x4200fff8) = 0x1000"
proof -
  have "next_instruction (sample_context 2) (ppc_decode 0x4200fff8) = Some 0xff8" by code_simp
  from ppc_displaced_inst_equiv[OF _ this] show ?thesis by (simp add: sample_context_def Let_def)
qed

text \<open>
  The hypothesis on the count register is needed: the code keeps it in an \<open>int\<close>. With
  \<open>2\<^sup>3\<^sup>2 + 1\<close> in the register the architecture takes a \<open>bdnz\<close> back to \<open>0xff8\<close>, and
  the second trap is planted behind the branch.
\<close>

lemma ppc_count_register_truncated:
  "displaced_next_pc_ppc (sample_context 0x100000001) 0x4200fff8 = 0x1004 \<and>
   next_instruction (sample_context 0x100000001) (ppc_decode 0x4200fff8) = Some 0xff8"
  by code_simp

text \<open>
  An unconditional trap (\<open>trap\<close> is \<open>tw 31, 0, 0\<close>), a branch to the target address register, a return from
  an interrupt and a prefix: the second trap is planted behind each of them.
\<close>

lemma ppc_elsewhere_falls_through:
  "list_all (\<lambda>w. ppc_decode w = Elsewhere \<and>
     displaced_next_pc_ppc (sample_context 2) w = nip (sample_context 2) + 4)
     [0x7fe00008, 0x4e800460, 0x4c000024, 0x06000000]"
  by code_simp

text \<open>C23: Stepping over a breakpoint on PowerPC is invisible. A breakpoint is installed at
  the program counter, \<open>arch_do_displaced_inst\<close> runs on the instruction that installing
  it returned, the machine executes it (leaving code memory and the saved data alone) and stops at the
  second trap, and \<open>arch_handle_after_breakpoint\<close> runs: if the instruction does not branch to
  itself, code memory again holds the program with the breakpoint and nothing else, removing
  the breakpoint gives the program back, and the signal mask is the one before the step.\<close>

theorem ppc_step_over_breakpoint:
  assumes "arch_install_breakpoint_ppc m (nip c) = (orig, insts c)"
    and "displaced_next_pc_ppc c orig \<noteq> nip c"
    and "insts t = insts (arch_do_displaced_inst_ppc c orig)"
    and "saved_step t = saved_step (arch_do_displaced_inst_ppc c orig)"
    and "nip t = displaced_next_pc_ppc c orig"
  shows "insts (arch_handle_after_breakpoint_ppc t) = insts c \<and>
    arch_remove_breakpoint_ppc (insts (arch_handle_after_breakpoint_ppc t)) (nip c) orig = m \<and>
    sigmask (arch_handle_after_breakpoint_ppc t) = sigmask c"
proof -
  have o: "orig = m (nip c)" and i: "insts c = m(nip c := TRAP_INSTRUCTION_ppc trap_Breakpoint_ppc)"
    using assms(1) by (simp_all add: arch_install_breakpoint_ppc_def Let_def)
  note s = ppc.step_over[OF i assms(2)[symmetric, unfolded o] assms(3,4,5)[unfolded o]]
  show ?thesis using s i o by (simp add: arch_remove_breakpoint_ppc_def)
qed

theorem ppc_step_over_breakpoint_witness:
  "insts (arch_handle_after_breakpoint_ppc
     (arch_do_displaced_inst_ppc ((sample_context 2)\<lparr>insts :=
        snd (arch_install_breakpoint_ppc (\<lambda>_. 0x60000000) 0x1000)\<rparr>) 0x60000000
      \<lparr>nip := 0x1004\<rparr>)) 0x1000 = TRAP_INSTRUCTION_ppc trap_Breakpoint_ppc"
proof -
  let ?c = "(sample_context 2)\<lparr>insts := snd (arch_install_breakpoint_ppc (\<lambda>_. 0x60000000) 0x1000)\<rparr>"
  have n: "displaced_next_pc_ppc ?c 0x60000000 = 0x1004" by code_simp
  have "insts (arch_handle_after_breakpoint_ppc
      (arch_do_displaced_inst_ppc ?c 0x60000000\<lparr>nip := 0x1004\<rparr>)) = insts ?c"
    using ppc_step_over_breakpoint[of "\<lambda>_. 0x60000000" ?c "0x60000000"
        "arch_do_displaced_inst_ppc ?c 0x60000000\<lparr>nip := 0x1004\<rparr>"] n
    by (simp add: arch_install_breakpoint_ppc_def sample_context_def)
  then show ?thesis by (simp add: arch_install_breakpoint_ppc_def Let_def)
qed

end
