(* ===== verification/Mips.thy ===== *)
theory Mips
  imports Stepping
begin

text \<open>
  Breakpoints on MIPS (\<open>mips-arch.c\<close>). A breakpoint for a branch is planted in its delay
  slot. The context holds the 64-bit program counter and general registers that the kernel
  saves; the code works on their low 32 bits. \<open>next_insn_addr\<close> also writes the link
  register, so it returns the context with the address. Pointers to instructions are
  \<open>unsigned\<close>; stepping one adds \<open>INSN_LEN\<close>.
\<close>

record mips_context = "u32 step_context" +
  mips_pc :: uword
  gregs :: "u32 \<Rightarrow> uword"

definition INSN_LEN :: u32 where
  "INSN_LEN = 4"

definition trap_Breakpoint_mips :: u32 where
  "trap_Breakpoint_mips = 13"

definition trap_AfterBreakpoint_mips :: u32 where
  "trap_AfterBreakpoint_mips = 15"

abbreviation pc32 :: "mips_context \<Rightarrow> u32" where
  "pc32 context \<equiv> ucast (mips_pc context)"

definition os_context_register :: "mips_context \<Rightarrow> u32 \<Rightarrow> u32" where
  "os_context_register context offset = ucast (gregs context offset)"

definition set_register :: "u32 \<Rightarrow> u32 \<Rightarrow> mips_context \<Rightarrow> mips_context" where
  "set_register offset v context = context\<lparr>gregs := (gregs context)(offset := ucast v)\<rparr>"

definition arch_insn_with_bdelay_p :: "u32 \<Rightarrow> bool" where
  "arch_insn_with_bdelay_p insn =
     (let opcode = drop_bit 26 insn
      in if opcode = 0x0 then insn AND 0x3f \<in> {0x08, 0x09}
         else if opcode = 0x1 then
           drop_bit 16 insn AND 0x1f \<in> {0x00, 0x01, 0x02, 0x03, 0x10, 0x11, 0x12, 0x13}
         else if opcode \<in> {0x2, 0x3, 0x4, 0x5, 0x6, 0x7} then True
         else if opcode \<in> {0x10, 0x11, 0x12} then drop_bit 21 insn AND 0x1f = 0x08
         else opcode \<in> {0x14, 0x15, 0x16, 0x17})"

text \<open>The kernel's cause register is not trusted: \<open>os_context_bd_cause\<close> looks at the instruction.\<close>

definition os_context_bd_cause :: "mips_context \<Rightarrow> bool" where
  "os_context_bd_cause context = arch_insn_with_bdelay_p (insts context (pc32 context))"

definition os_context_insn :: "mips_context \<Rightarrow> u32" where
  "os_context_insn context =
     (if os_context_bd_cause context then insts context (pc32 context + INSN_LEN)
      else insts context (pc32 context))"

definition next_insn_addr :: "mips_context \<Rightarrow> u32 \<Rightarrow> mips_context \<times> u32" where
  "next_insn_addr context inst =
     (let opcode = drop_bit 26 inst;
          r1 = drop_bit 21 inst AND 0x1f;
          r2 = drop_bit 16 inst AND 0x1f;
          r3 = drop_bit 11 inst AND 0x1f;
          disp = push_bit 2 (if bit inst 15 then inst OR 0xffff0000 else inst AND 0x7fff);
          jtgt = (pc32 context AND NOT 0x0fffffff) OR push_bit 2 (inst AND 0x3ffffff);
          tgt = pc32 context;
          reg = os_context_register context;
          link = (\<lambda>r. set_register r (pc32 context + INSN_LEN) context)
      in if opcode = 0x0 then
           (let funct = inst AND 0x3f
            in if funct = 0x08 then (context, reg r1)
               else if funct = 0x09 then (link r3, reg r1)
               else (context, tgt + INSN_LEN))
         else if opcode = 0x1 then
           (if r2 = 0x00 \<or> r2 = 0x02 then
              (if reg r1 < 0 then (context, tgt + disp) else (context, tgt + INSN_LEN))
            else if r2 = 0x01 \<or> r2 = 0x03 then
              (if reg r1 \<ge> 0 then (context, tgt + disp) else (context, tgt + INSN_LEN))
            else if r2 = 0x10 \<or> r2 = 0x12 then
              (if reg r1 < 0 then (link 31, tgt + disp) else (context, tgt + INSN_LEN))
            else if r2 = 0x11 \<or> r2 = 0x13 then
              (if reg r1 \<ge> 0 then (link 31, tgt + disp) else (context, tgt + INSN_LEN))
            else (context, tgt + INSN_LEN))
         else if opcode = 0x2 then (context, jtgt)
         else if opcode = 0x3 then (link 31, jtgt)
         else if opcode = 0x4 \<or> opcode = 0x14 then
           (if reg r1 = reg r2 then (context, tgt + disp) else (context, tgt + INSN_LEN))
         else if opcode = 0x5 \<or> opcode = 0x15 then
           (if reg r1 \<noteq> reg r2 then (context, tgt + disp) else (context, tgt + INSN_LEN))
         else if opcode = 0x6 \<or> opcode = 0x16 then
           (if reg r1 \<le> reg r2 then (context, tgt + disp) else (context, tgt + INSN_LEN))
         else if opcode = 0x7 \<or> opcode = 0x17 then
           (if reg r1 > reg r2 then (context, tgt + disp) else (context, tgt + INSN_LEN))
         else if opcode = 0x10 \<or> opcode = 0x11 \<or> opcode = 0x12 then
           (if r1 = 0x08 then (context, tgt + INSN_LEN) else (context, tgt))
         else (context, tgt + INSN_LEN))"

definition arch_skip_instruction_mips :: "mips_context \<Rightarrow> mips_context" where
  "arch_skip_instruction_mips context =
     (case next_insn_addr context (insts context (pc32 context)) of
        (context, tgt) \<Rightarrow> context\<lparr>mips_pc := ucast tgt\<rparr>)"

definition arch_internal_error_arguments_mips :: "mips_context \<Rightarrow> u32" where
  "arch_internal_error_arguments_mips context =
     (if os_context_bd_cause context then pc32 context + INSN_LEN * 2
      else pc32 context + INSN_LEN)"

text \<open>Both ways of planting a trap and the way of removing one move over a branch first.\<close>

definition trap_site :: "(u32 \<Rightarrow> u32) \<Rightarrow> u32 \<Rightarrow> u32" where
  "trap_site m ptr = (if arch_insn_with_bdelay_p (m ptr) then ptr + INSN_LEN else ptr)"

definition trap_insn :: "u32 \<Rightarrow> u32" where
  "trap_insn trap = push_bit 6 trap OR 0xd"

definition arch_install_breakpoint_mips :: "(u32 \<Rightarrow> u32) \<Rightarrow> u32 \<Rightarrow> u32 \<times> (u32 \<Rightarrow> u32)" where
  "arch_install_breakpoint_mips m pc =
     (let ptr = trap_site m pc; insn = m ptr
      in (insn, m(ptr := trap_insn trap_Breakpoint_mips)))"

definition arch_install_after_breakpoint :: "(u32 \<Rightarrow> u32) \<Rightarrow> u32 \<Rightarrow> u32 \<times> (u32 \<Rightarrow> u32)" where
  "arch_install_after_breakpoint m pc =
     (let ptr = trap_site m pc; insn = m ptr
      in (insn, m(ptr := trap_insn trap_AfterBreakpoint_mips)))"

definition arch_remove_breakpoint_mips :: "(u32 \<Rightarrow> u32) \<Rightarrow> u32 \<Rightarrow> u32 \<Rightarrow> (u32 \<Rightarrow> u32)" where
  "arch_remove_breakpoint_mips m pc orig_inst = (let ptr = trap_site m pc in m(ptr := orig_inst))"

definition arch_do_displaced_inst_mips :: "mips_context \<Rightarrow> u32 \<Rightarrow> mips_context" where
  "arch_do_displaced_inst_mips context orig_inst =
     (let pc = pc32 context;
          context = context\<lparr>orig_sigmask := sigmask context\<rparr>;
          context = context\<lparr>sigmask := sigaddset_blockable (sigmask context)\<rparr>;
          context = context\<lparr>insts := arch_remove_breakpoint_mips (insts context) pc orig_inst\<rparr>;
          context = context\<lparr>skipped_break_addr := pc\<rparr>;
          (context, next_pc) = next_insn_addr context (insts context pc);
          (insn, m) = arch_install_after_breakpoint (insts context) next_pc
      in context\<lparr>insts := m, displaced_after_inst := insn\<rparr>)"

definition arch_handle_after_breakpoint_mips :: "mips_context \<Rightarrow> mips_context" where
  "arch_handle_after_breakpoint_mips context =
     (let context = context\<lparr>insts :=
            snd (arch_install_breakpoint_mips (insts context) (skipped_break_addr context))\<rparr>;
          context = context\<lparr>insts :=
            arch_remove_breakpoint_mips (insts context) (pc32 context) (displaced_after_inst context)\<rparr>
      in context\<lparr>sigmask := orig_sigmask context\<rparr>)"

section \<open>Planting and removing\<close>

lemma trap_insn_no_delay:
  "\<not> arch_insn_with_bdelay_p (trap_insn trap_Breakpoint_mips)"
  "\<not> arch_insn_with_bdelay_p (trap_insn trap_AfterBreakpoint_mips)"
  by code_simp+

lemma next_slot [simp]: "(p :: u32) + INSN_LEN \<noteq> p" "p \<noteq> p + INSN_LEN"
  by (simp_all add: INSN_LEN_def)

lemma trap_site_planted:
  assumes "\<not> arch_insn_with_bdelay_p t"
  shows "trap_site (m(trap_site m p := t)) p = trap_site m p"
  using assms by (simp add: trap_site_def)

definition clear_of :: "(u32 \<Rightarrow> u32) \<Rightarrow> u32 \<Rightarrow> u32 \<Rightarrow> bool" where
  "clear_of m p q \<longleftrightarrow> {p, trap_site m p} \<inter> {q, trap_site m q} = {}"

lemma trap_site_clear:
  assumes "clear_of m p q" and "\<not> arch_insn_with_bdelay_p t"
  shows "trap_site (m(trap_site m q := t)) p = trap_site m p"
  using assms by (auto simp: trap_site_def clear_of_def)

text \<open>
  \<open>next_insn_addr\<close> changes nothing but, for a linking instruction, one register.
\<close>

definition only_links :: "mips_context \<Rightarrow> mips_context \<times> u32 \<Rightarrow> bool" where
  "only_links c r \<longleftrightarrow> (\<exists>g. fst r = c\<lparr>gregs := g\<rparr>)"

lemma only_links_intros:
  "only_links c (c, r)"
  "only_links c (set_register k v c, r)"
  "only_links c x \<Longrightarrow> only_links c y \<Longrightarrow> only_links c (if b then x else y)"
  unfolding only_links_def set_register_def
    apply (rule exI[of _ "gregs c"], simp)
   apply auto
  done

lemma next_insn_addr_only_links: "only_links c (next_insn_addr c w)"
  unfolding next_insn_addr_def Let_def by (intro only_links_intros)

lemma next_insn_addr_insts:
  obtains g where "next_insn_addr c w = (c\<lparr>gregs := g\<rparr>, snd (next_insn_addr c w))"
  using next_insn_addr_only_links[of c w] unfolding only_links_def by (metis prod.collapse)

lemma snd_if: "snd (if b then x else y) = (if b then snd x else snd y)"
  by simp

lemma next_insn_addr_cong:
  assumes "mips_pc c = mips_pc d" and "gregs c = gregs d"
  shows "snd (next_insn_addr c w) = snd (next_insn_addr d w)"
  by (simp only: next_insn_addr_def os_context_register_def assms Let_def snd_if snd_conv)

definition mips_succ :: "mips_context \<Rightarrow> u32 \<Rightarrow> u32" where
  "mips_succ c orig_inst =
     snd (next_insn_addr c (arch_remove_breakpoint_mips (insts c) (pc32 c) orig_inst (pc32 c)))"

lemma displaced_inst_mips_unfold:
  fixes c w
  defines "m \<equiv> arch_remove_breakpoint_mips (insts c) (pc32 c) w"
    and "n \<equiv> mips_succ c w" and "d \<equiv> arch_do_displaced_inst_mips c w"
  shows "insts d = m(trap_site m n := trap_insn trap_AfterBreakpoint_mips)"
    and "saved_step d = (pc32 c, m (trap_site m n), sigmask c)"
proof -
  let ?c = "c\<lparr>orig_sigmask := sigmask c, sigmask := sigaddset_blockable (sigmask c), insts := m,
    skipped_break_addr := pc32 c\<rparr>"
  obtain g where g: "next_insn_addr ?c (m (pc32 c)) =
      (?c\<lparr>gregs := g\<rparr>, snd (next_insn_addr ?c (m (pc32 c))))"
    by (rule next_insn_addr_insts)
  have "snd (next_insn_addr ?c (m (pc32 c))) = n"
    unfolding n_def mips_succ_def m_def[symmetric] by (rule next_insn_addr_cong) simp_all
  then have g: "next_insn_addr ?c (m (pc32 c)) = (?c\<lparr>gregs := g\<rparr>, n)"
    using g by simp
  have "d = ?c\<lparr>gregs := g, insts := m(trap_site m n := trap_insn trap_AfterBreakpoint_mips),
      displaced_after_inst := m (trap_site m n)\<rparr>"
    unfolding d_def arch_do_displaced_inst_mips_def Let_def m_def[symmetric]
    using g by (simp add: arch_install_after_breakpoint_def Let_def m_def)
  then show "insts d = m(trap_site m n := trap_insn trap_AfterBreakpoint_mips)"
    and "saved_step d = (pc32 c, m (trap_site m n), sigmask c)" by simp_all
qed

lemma remove_planted:
  assumes "\<not> arch_insn_with_bdelay_p t"
  shows "arch_remove_breakpoint_mips (m(trap_site m p := t)) p (m (trap_site m p)) = m"
  using trap_site_planted[OF assms] by (simp add: arch_remove_breakpoint_mips_def Let_def)

interpretation mips: displaced_stepping
  insts pc32 trap_site mips_succ clear_of saved_step sigmask
  arch_do_displaced_inst_mips arch_handle_after_breakpoint_mips
  "trap_insn trap_Breakpoint_mips" "trap_insn trap_AfterBreakpoint_mips"
proof unfold_locales
  fix s :: mips_context and m
  assume s: "insts s = m(trap_site m (pc32 s) := trap_insn trap_Breakpoint_mips)"
  have r: "arch_remove_breakpoint_mips (insts s) (pc32 s) (m (trap_site m (pc32 s))) = m"
    unfolding s by (rule remove_planted) (rule trap_insn_no_delay)
  show "insts (arch_do_displaced_inst_mips s (m (trap_site m (pc32 s)))) =
      m(trap_site m (mips_succ s (m (trap_site m (pc32 s)))) := trap_insn trap_AfterBreakpoint_mips)"
    using displaced_inst_mips_unfold(1)[of s "m (trap_site m (pc32 s))"] unfolding r .
  show "saved_step (arch_do_displaced_inst_mips s (m (trap_site m (pc32 s)))) =
      (pc32 s, m (trap_site m (mips_succ s (m (trap_site m (pc32 s))))), sigmask s)"
    using displaced_inst_mips_unfold(2)[of s "m (trap_site m (pc32 s))"] unfolding r .
next
  fix t :: mips_context and m p k
  let ?q = "pc32 t" and ?a = "trap_insn trap_AfterBreakpoint_mips"
    and ?b = "trap_insn trap_Breakpoint_mips"
  assume t: "insts t = m(trap_site m ?q := ?a)" "saved_step t = (p, m (trap_site m ?q), k)"
    and c: "clear_of m p ?q"
  have p: "trap_site (m(trap_site m ?q := ?a)) p = trap_site m p"
    using c trap_insn_no_delay(2) by (rule trap_site_clear)
  have q: "trap_site (m(trap_site m ?q := ?a, trap_site m p := ?b)) ?q = trap_site m ?q"
    using c trap_insn_no_delay by (auto simp: trap_site_def clear_of_def)
  have "trap_site m ?q \<noteq> trap_site m p" using c by (auto simp: clear_of_def)
  then show "insts (arch_handle_after_breakpoint_mips t) = m(trap_site m p := ?b)"
    using t p q by (auto simp: arch_handle_after_breakpoint_mips_def Let_def
        arch_install_breakpoint_mips_def arch_remove_breakpoint_mips_def)
qed (auto simp: arch_handle_after_breakpoint_mips_def Let_def)

text \<open>C24: Stepping over a breakpoint on MIPS, where the breakpoint for a branch sits in the
  delay slot and each function decides again from code memory where it sits. After a breakpoint
  is installed at the program counter, the displaced instruction is run up to the second trap,
  and \<open>arch_handle_after_breakpoint\<close> runs, code memory holds the program with the
  breakpoint and nothing else, removing it gives the program back and the signal mask is
  restored, provided the instruction words the two traps and their branches occupy are
  disjoint.\<close>

theorem mips_step_over_breakpoint:
  assumes "arch_install_breakpoint_mips m (pc32 c) = (orig, insts c)"
    and "clear_of m (pc32 c) (mips_succ c orig)"
    and "insts t = insts (arch_do_displaced_inst_mips c orig)"
    and "saved_step t = saved_step (arch_do_displaced_inst_mips c orig)"
    and "pc32 t = mips_succ c orig"
  shows "insts (arch_handle_after_breakpoint_mips t) = insts c \<and>
    arch_remove_breakpoint_mips (insts (arch_handle_after_breakpoint_mips t)) (pc32 c) orig = m \<and>
    sigmask (arch_handle_after_breakpoint_mips t) = sigmask c"
proof -
  have o: "orig = m (trap_site m (pc32 c))"
    and i: "insts c = m(trap_site m (pc32 c) := trap_insn trap_Breakpoint_mips)"
    using assms(1) by (simp_all add: arch_install_breakpoint_mips_def Let_def)
  note s = mips.step_over[OF i assms(2)[unfolded o] assms(3,4,5)[unfolded o]]
  show ?thesis unfolding s i o using remove_planted[OF trap_insn_no_delay(1)] by simp
qed

definition mips_sample :: "(u32 \<Rightarrow> u32) \<Rightarrow> mips_context" where
  "mips_sample m = \<lparr>insts = m, sigmask = {}, skipped_break_addr = 0, displaced_after_inst = 0,
     orig_sigmask = {}, mips_pc = 0x1000, gregs = (\<lambda>_. 0)\<rparr>"

theorem mips_step_over_breakpoint_witness:
  "insts (arch_handle_after_breakpoint_mips
     (arch_do_displaced_inst_mips (mips_sample (snd (arch_install_breakpoint_mips (\<lambda>_. 0) 0x1000))) 0
      \<lparr>mips_pc := 0x1004\<rparr>)) 0x1000 = trap_insn trap_Breakpoint_mips"
proof -
  let ?c = "mips_sample (snd (arch_install_breakpoint_mips (\<lambda>_. 0) 0x1000))"
  have z: "trap_site (\<lambda>_. 0) p = p" for p
    by (simp add: trap_site_def arch_insn_with_bdelay_p_def Let_def)
  have n: "mips_succ ?c 0 = 0x1004" by code_simp
  have "insts (arch_handle_after_breakpoint_mips
      (arch_do_displaced_inst_mips ?c 0\<lparr>mips_pc := 0x1004\<rparr>)) = insts ?c"
    using mips_step_over_breakpoint[of "\<lambda>_. 0" ?c 0 "arch_do_displaced_inst_mips ?c 0\<lparr>mips_pc := 0x1004\<rparr>"]
      n by (simp add: arch_install_breakpoint_mips_def mips_sample_def z clear_of_def Let_def)
  then show ?thesis by (simp add: arch_install_breakpoint_mips_def mips_sample_def z Let_def)
qed

section \<open>Branch targets\<close>

text \<open>
  The architecture takes the displacement of a conditional branch from the instruction in its
  delay slot, and continues behind the delay slot when the branch is not taken.
\<close>

definition branch_address :: "mips_context \<Rightarrow> u32 \<Rightarrow> bool \<Rightarrow> u32" where
  "branch_address c w taken =
     (if taken then pc32 c + 4 + 4 * word_of_int (sint (ucast w :: u16)) else pc32 c + 8)"

definition equality_taken :: "mips_context \<Rightarrow> u32 \<Rightarrow> bool" where
  "equality_taken c w =
     (bit w 26 \<noteq> (os_context_register c (drop_bit 21 w AND 0x1f) =
                   os_context_register c (drop_bit 16 w AND 0x1f)))"

lemma displacement_mips:
  "push_bit 2 (if bit w 15 then w OR 0xffff0000 else w AND 0x7fff) =
    4 * (word_of_int (sint (ucast (w :: u32) :: u16)) :: u32)"
proof -
  have m: "(0x7fff :: u32) = mask 15" "(0xffff0000 :: u32) = push_bit 16 (mask 16)"
    by code_simp+
  have "(if bit w 15 then w OR 0xffff0000 else w AND 0x7fff) = (scast (ucast w :: u16) :: u32)"
    (is "?l = ?r")
  proof (rule bit_eqI)
    fix j assume "possible_bit TYPE(u32) j"
    then have "j < 32" by simp
    then show "bit ?l j = bit ?r j"
      unfolding m by (cases "j < 16"; cases "j = 15") (auto simp: bit_simps bit_mask_iff)
  qed
  then show ?thesis by (simp add: push_bit_eq_mult mult.commute)
qed

lemma opcode_low_bit: "bit (w :: u32) 26 = bit (drop_bit 26 w) 0"
  by (simp add: bit_drop_bit_eq)

lemma next_insn_addr_equality:
  assumes "drop_bit 26 w \<in> {0x4, 0x5, 0x14, 0x15 :: u32}"
  shows "next_insn_addr c w = (c, branch_address c w (equality_taken c w) - 4)"
proof -
  let ?e = "os_context_register c (drop_bit 21 w AND 0x1f) =
    os_context_register c (drop_bit 16 w AND 0x1f)"
  have a: "pc32 c + 4 + d - 4 = pc32 c + d" "pc32 c + 8 - 4 = pc32 c + 4" for d by simp_all
  have taken: "equality_taken c w = (if drop_bit 26 w \<in> {0x5, 0x15} then \<not> ?e else ?e)"
    using assms unfolding equality_taken_def opcode_low_bit by auto
  consider (e) "drop_bit 26 w = 0x4" | (n) "drop_bit 26 w = 0x5"
    | (el) "drop_bit 26 w = 0x14" | (nl) "drop_bit 26 w = 0x15" using assms by auto
  then show ?thesis
    unfolding taken next_insn_addr_def Let_def branch_address_def displacement_mips INSN_LEN_def
    by cases (simp_all only: if_distrib[of "\<lambda>x. x - 4"] a, simp_all)
qed

text \<open>For the branches on equality of two registers (\<open>beq\<close>, \<open>bne\<close> and their likely forms)
  \<open>next_insn_addr\<close> decides correctly whether the branch is taken and sign-extends the
  displacement correctly, but its answer is always one instruction before the one the architecture
  continues at: the target is counted from the branch instead of its delay slot, and a branch that is not
  taken continues at the delay slot, where the comment on the function says \<open>PC + 8\<close>.\<close>

theorem mips_equality_branch_short:
  assumes "drop_bit 26 w \<in> {0x4, 0x5, 0x14, 0x15 :: u32}"
  shows "next_insn_addr c w = (c, branch_address c w (equality_taken c w) - 4)"
  using next_insn_addr_equality[OF assms] .

theorem mips_equality_branch_short_witness:
  "next_insn_addr (mips_sample (\<lambda>_. 0)) 0x14220010 = (mips_sample (\<lambda>_. 0), 0x1004) \<and>
   branch_address (mips_sample (\<lambda>_. 0)) 0x14220010 False = 0x1008"
  using mips_equality_branch_short[of "0x14220010" "mips_sample (\<lambda>_. 0)"]
  by (simp add: equality_taken_def branch_address_def mips_sample_def os_context_register_def)

text \<open>
  A consequence: the second trap of a branch that falls through lands in the delay slot, on
  top of the breakpoint.
\<close>

lemma mips_fall_through_not_clear:
  assumes "arch_install_breakpoint_mips m (pc32 c) = (orig, insts c)"
    and op: "drop_bit 26 (m (pc32 c)) \<in> {0x4, 0x5, 0x14, 0x15 :: u32}"
    and "\<not> equality_taken c (m (pc32 c))"
  shows "mips_succ c orig = trap_site m (pc32 c)"
proof -
  have o: "orig = m (trap_site m (pc32 c))"
    and i: "insts c = m(trap_site m (pc32 c) := trap_insn trap_Breakpoint_mips)"
    using assms(1) by (simp_all add: arch_install_breakpoint_mips_def Let_def)
  have "arch_remove_breakpoint_mips (insts c) (pc32 c) orig = m"
    unfolding o i by (rule remove_planted) (rule trap_insn_no_delay)
  moreover have "arch_insn_with_bdelay_p (m (pc32 c))"
    using op unfolding arch_insn_with_bdelay_p_def Let_def by (elim insertE emptyE) simp_all
  ultimately show ?thesis
    using next_insn_addr_equality[OF op, of c] assms(3)
    by (simp add: mips_succ_def trap_site_def branch_address_def INSN_LEN_def)
qed

text \<open>Register contents are \<open>unsigned\<close>, so the tests of the sign always give the same answer.\<close>

lemma mips_sign_tests:
  assumes op: "drop_bit 26 w = (1 :: u32)" and r: "drop_bit 16 w AND 0x1f = r"
  shows "r \<in> {0x00, 0x02, 0x10, 0x12} \<Longrightarrow> next_insn_addr c w = (c, pc32 c + INSN_LEN)"
    and "r \<in> {0x01, 0x03} \<Longrightarrow>
      next_insn_addr c w = (c, pc32 c + 4 * word_of_int (sint (ucast w :: u16)))"
proof -
  have n: "(x :: u32) < 0 \<longleftrightarrow> False" "(0 :: u32) \<le> x \<longleftrightarrow> True" for x by simp_all
  show "r \<in> {0x00, 0x02, 0x10, 0x12} \<Longrightarrow> next_insn_addr c w = (c, pc32 c + INSN_LEN)"
    unfolding next_insn_addr_def Let_def op r n by (elim insertE emptyE) simp_all
  show "r \<in> {0x01, 0x03} \<Longrightarrow>
      next_insn_addr c w = (c, pc32 c + 4 * word_of_int (sint (ucast w :: u16)))"
    unfolding next_insn_addr_def Let_def op r n displacement_mips
    by (elim insertE emptyE) simp_all
qed

end
