(* ===== verification/Sparc.thy ===== *)
theory Sparc
  imports Stepping
begin

text \<open>
  Breakpoints on SPARC (\<open>sparc-arch.c\<close>, 32 bits), whose context has the next program counter
  beside the program counter: the second trap goes where the former points. This port leaves
  the signal mask alone (the code that saved it is commented out).
\<close>

record sparc_context = "u32 step_context" +
  sparc_pc :: u32
  npc :: u32

definition trap_Breakpoint_sparc :: u32 where
  "trap_Breakpoint_sparc = 11"

definition trap_AfterBreakpoint_sparc :: u32 where
  "trap_AfterBreakpoint_sparc = 13"

definition arch_skip_instruction_sparc :: "sparc_context \<Rightarrow> sparc_context" where
  "arch_skip_instruction_sparc context =
     (let context = context\<lparr>sparc_pc := npc context\<rparr> in context\<lparr>npc := npc context + 4\<rparr>)"

definition arch_install_breakpoint_sparc :: "(u32 \<Rightarrow> u32) \<Rightarrow> u32 \<Rightarrow> u32 \<times> (u32 \<Rightarrow> u32)" where
  "arch_install_breakpoint_sparc m pc = (let result = m pc in (result, m(pc := trap_Breakpoint_sparc)))"

definition arch_remove_breakpoint_sparc :: "(u32 \<Rightarrow> u32) \<Rightarrow> u32 \<Rightarrow> u32 \<Rightarrow> (u32 \<Rightarrow> u32)" where
  "arch_remove_breakpoint_sparc m pc orig_inst = m(pc := orig_inst)"

definition arch_do_displaced_inst_sparc :: "sparc_context \<Rightarrow> u32 \<Rightarrow> sparc_context" where
  "arch_do_displaced_inst_sparc context orig_inst =
     (let pc = sparc_pc context; npc = npc context;
          context = context\<lparr>insts := (insts context)(pc := orig_inst)\<rparr>;
          context = context\<lparr>skipped_break_addr := pc\<rparr>;
          context = context\<lparr>displaced_after_inst := insts context npc\<rparr>
      in context\<lparr>insts := (insts context)(npc := trap_AfterBreakpoint_sparc)\<rparr>)"

definition arch_handle_after_breakpoint_sparc :: "sparc_context \<Rightarrow> sparc_context" where
  "arch_handle_after_breakpoint_sparc context =
     (let context = context\<lparr>insts :=
            (insts context)(skipped_break_addr context := trap_Breakpoint_sparc)\<rparr>;
          context = context\<lparr>skipped_break_addr := 0\<rparr>
      in context\<lparr>insts := (insts context)(sparc_pc context := displaced_after_inst context)\<rparr>)"

text \<open>The operators around \<open>0x1f\<close> are the logical \<open>&&\<close> of the code.\<close>

definition is_btst_reg_self :: "u32 \<Rightarrow> bool" where
  "is_btst_reg_self inst =
     (let src1 = (if drop_bit 14 inst \<noteq> 0 \<and> (0x1f :: u32) \<noteq> 0 then 1 else 0 :: u32);
          src2 = (if drop_bit 0 inst \<noteq> 0 \<and> (0x1f :: u32) \<noteq> 0 then 1 else 0 :: u32)
      in inst OR 0x7C01F = 0x808FC01F \<and> src1 = src2)"

definition pseudo_atomic_trap_p :: "sparc_context \<Rightarrow> bool" where
  "pseudo_atomic_trap_p context =
     (let pc = sparc_pc context
      in insts context pc = 0x93D02040 \<and> is_btst_reg_self (insts context (pc - 4)))"

text \<open>
  The locale's data about the signal mask: this port saves none, so the mask it restores is
  the one it finds.
\<close>

lemma displaced_inst_sparc_unfold:
  "arch_do_displaced_inst_sparc c w =
     (let m = (insts c)(sparc_pc c := w)
      in c\<lparr>insts := m(npc c := trap_AfterBreakpoint_sparc), skipped_break_addr := sparc_pc c,
           displaced_after_inst := m (npc c)\<rparr>)"
  by (simp add: arch_do_displaced_inst_sparc_def Let_def)

interpretation sparc: displaced_stepping
  insts sparc_pc "\<lambda>m p. p" "\<lambda>c _. npc c" "\<lambda>m p q. p \<noteq> q"
  "\<lambda>c. (skipped_break_addr c, displaced_after_inst c, sigmask c)" sigmask
  arch_do_displaced_inst_sparc arch_handle_after_breakpoint_sparc
  trap_Breakpoint_sparc trap_AfterBreakpoint_sparc
proof unfold_locales
  fix t :: sparc_context and m p k
  assume "insts t = m(sparc_pc t := trap_AfterBreakpoint_sparc)"
    and "(skipped_break_addr t, displaced_after_inst t, sigmask t) = (p, m (sparc_pc t), k)"
    and "p \<noteq> sparc_pc t"
  then show "insts (arch_handle_after_breakpoint_sparc t) = m(p := trap_Breakpoint_sparc)"
    by (auto simp: arch_handle_after_breakpoint_sparc_def Let_def)
qed (auto simp: displaced_inst_sparc_unfold arch_handle_after_breakpoint_sparc_def Let_def)

lemma sparc_step_over_breakpoint:
  assumes "arch_install_breakpoint_sparc m (sparc_pc c) = (orig, insts c)"
    and "npc c \<noteq> sparc_pc c"
    and "t = (arch_do_displaced_inst_sparc c orig)\<lparr>sparc_pc := npc c, npc := n\<rparr>"
  shows "insts (arch_handle_after_breakpoint_sparc t) = insts c"
    and "arch_remove_breakpoint_sparc (insts c) (sparc_pc c) orig = m"
proof -
  have o: "orig = m (sparc_pc c)" and i: "insts c = m(sparc_pc c := trap_Breakpoint_sparc)"
    using assms(1) by (simp_all add: arch_install_breakpoint_sparc_def Let_def)
  show "insts (arch_handle_after_breakpoint_sparc t) = insts c"
    using sparc.step_over(1)[OF i assms(2)[symmetric], of t] assms(3) o by simp
  show "arch_remove_breakpoint_sparc (insts c) (sparc_pc c) orig = m"
    using o i by (simp add: arch_remove_breakpoint_sparc_def)
qed

text \<open>
  The test for \<open>btst %rN, %rN\<close> does not compare the two registers: with the logical
  operators both sides are 1 for every word that has the opcode.
\<close>

lemma is_btst_reg_self_any_registers:
  "is_btst_reg_self inst \<longleftrightarrow> inst OR 0x7C01F = 0x808FC01F"
proof -
  have "drop_bit 14 inst \<noteq> 0 \<and> inst \<noteq> 0" if "inst OR 0x7C01F = 0x808FC01F"
  proof -
    have "bit inst 31"
    proof -
      have "bit (inst OR 0x7C01F) 31" unfolding that by code_simp
      moreover have "\<not> bit (0x7C01F :: u32) 31" by code_simp
      ultimately show ?thesis by (simp only: bit_or_iff simp_thms)
    qed
    then have "bit (drop_bit 14 inst) 17" by (simp add: bit_drop_bit_eq)
    then show ?thesis using \<open>bit inst 31\<close> by auto
  qed
  then show ?thesis by (auto simp: is_btst_reg_self_def Let_def)
qed

end
