(* ===== verification/Bytes.thy ===== *)
theory Bytes
  imports Prelude
begin

text \<open>
  Byte-addressed little-endian memory, for the code that reads and writes instructions and
  data of several widths through casts of one pointer.
\<close>

fun load_le :: "nat \<Rightarrow> (uword \<Rightarrow> u8) \<Rightarrow> uword \<Rightarrow> uword" where
  "load_le 0 m a = 0"
| "load_le (Suc n) m a = ucast (m a) OR push_bit 8 (load_le n m (a + 1))"

fun store_le :: "nat \<Rightarrow> (uword \<Rightarrow> u8) \<Rightarrow> uword \<Rightarrow> uword \<Rightarrow> (uword \<Rightarrow> u8)" where
  "store_le 0 m a v = m"
| "store_le (Suc n) m a v = store_le n (m(a := ucast v)) (a + 1) (drop_bit 8 v)"

abbreviation load32 :: "(uword \<Rightarrow> u8) \<Rightarrow> uword \<Rightarrow> u32" where
  "load32 m a \<equiv> ucast (load_le 4 m a)"

abbreviation store32 :: "(uword \<Rightarrow> u8) \<Rightarrow> uword \<Rightarrow> u32 \<Rightarrow> (uword \<Rightarrow> u8)" where
  "store32 m a v \<equiv> store_le 4 m a (ucast v)"

text \<open>The bytes of a cell of \<open>n\<close> bytes at \<open>a\<close>, and cells that do not overlap.\<close>

definition cell :: "uword \<Rightarrow> nat \<Rightarrow> uword set" where
  "cell a n = {x. unat (x - a) < n}"

lemma cell_0 [simp]: "cell a 0 = {}"
  by (simp add: cell_def)

lemma cell_Suc: "n < 2 ^ 64 \<Longrightarrow> cell a (Suc n) = insert a (cell (a + 1) n)"
proof -
  assume n: "n < 2 ^ 64"
  have "unat (x - a) < Suc n \<longleftrightarrow> x = a \<or> unat (x - (a + 1)) < n" for x
  proof (cases "x = a")
    case False
    then have "x - a \<noteq> 0" by simp
    then have "unat (x - a) = Suc (unat (x - a - 1))"
      by (simp add: unat_minus_one unat_gt_0)
    then show ?thesis using False by (simp add: diff_diff_add)
  qed simp
  then show ?thesis by (auto simp: cell_def)
qed

lemma store_le_outside: "n < 2 ^ 64 \<Longrightarrow> x \<notin> cell a n \<Longrightarrow> store_le n m a v x = m x"
proof (induction n arbitrary: m a v)
  case (Suc n)
  then have "x \<noteq> a" "x \<notin> cell (a + 1) n" by (simp_all add: cell_Suc)
  then show ?case using Suc by simp
qed simp

lemma load_le_cong:
  "n < 2 ^ 64 \<Longrightarrow> (\<And>x. x \<in> cell a n \<Longrightarrow> m x = m' x) \<Longrightarrow> load_le n m a = load_le n m' a"
proof (induction n arbitrary: a)
  case (Suc n)
  have "load_le n m (a + 1) = load_le n m' (a + 1)"
    using Suc.prems by (intro Suc.IH) (simp_all add: cell_Suc)
  then show ?case using Suc.prems by (simp add: cell_Suc)
qed simp

lemma load_store_other:
  assumes "n < 2 ^ 64" and "k < 2 ^ 64" and "cell a n \<inter> cell b k = {}"
  shows "load_le n (store_le k m b v) a = load_le n m a"
  using assms by (intro load_le_cong) (auto intro!: store_le_outside)

lemma load_store_same: "n \<le> 8 \<Longrightarrow> load_le n (store_le n m a v) a = take_bit (8 * n) v"
proof (induction n arbitrary: m a v)
  case (Suc n)
  have "unat (- 1 :: uword) = 2 ^ 64 - 1"
    by (simp add: unsigned_minus_1_eq_mask mask_eq_exp_minus_1)
  then have "a \<notin> cell (a + 1) n" using Suc.prems by (simp add: cell_def)
  then have "store_le n (m(a := ucast v)) (a + 1) (drop_bit 8 v) a = ucast v"
    using Suc.prems by (subst store_le_outside) simp_all
  moreover have "load_le n (store_le n (m(a := ucast v)) (a + 1) (drop_bit 8 v)) (a + 1) =
      take_bit (8 * n) (drop_bit 8 v)"
    using Suc by simp
  ultimately have "load_le (Suc n) (store_le (Suc n) m a v) a =
      ucast (ucast v :: u8) OR push_bit 8 (take_bit (8 * n) (drop_bit 8 v))"
    by simp
  also have "\<dots> = take_bit (8 * Suc n) v"
  proof (rule bit_eqI)
    fix j assume "possible_bit TYPE(uword) j"
    then have "j < 64" by simp
    then show "bit (ucast (ucast v :: u8) OR push_bit 8 (take_bit (8 * n) (drop_bit 8 v))) j =
        bit (take_bit (8 * Suc n) v) j"
      by (cases "j < 8") (auto simp: bit_simps)
  qed
  finally show ?case .
qed simp

lemma cell_offset_disjoint:
  assumes "unat i + n \<le> unat j" and "unat j + k \<le> 2 ^ 64"
  shows "cell (a + i) n \<inter> cell (a + j) k = {}"
proof (rule ccontr)
  assume "\<not> ?thesis"
  then obtain x where x: "unat (x - (a + i)) < n" "unat (x - (a + j)) < k"
    by (auto simp: cell_def)
  define d where "d = x - a"
  have d: "x - (a + i) = d - i" "x - (a + j) = d - j" by (simp_all add: d_def)
  have "unat (d - i) = (if unat i \<le> unat d then unat d - unat i else unat d + 2 ^ 64 - unat i)"
    and "unat (d - j) = (if unat j \<le> unat d then unat d - unat j else unat d + 2 ^ 64 - unat j)"
    by (simp_all add: unat_sub_if' unat_sub_if_size)
  then show False using x assms unat_lt[of d] unfolding d by (auto split: if_splits)
qed

declare load_le.simps [simp del] store_le.simps [simp del]

text \<open>Reading back a layout of several cells at fixed offsets from one base.\<close>

lemma load_store_offset:
  assumes "n \<le> 8" and "k \<le> 8"
    and "unat i + n \<le> unat j \<and> unat j + k \<le> 2 ^ 64 \<or> unat j + k \<le> unat i \<and> unat i + n \<le> 2 ^ 64"
  shows "load_le n (store_le k m (a + j) v) (a + i) = load_le n m (a + i)"
  using assms(1,2) by (intro load_store_other)
    (use assms(3) cell_offset_disjoint[of i n j k a] cell_offset_disjoint[of j k i n a] in auto)

lemma load_store_offset_base:
  assumes "n \<le> 8" and "k \<le> 8" and "n \<le> unat j" and "unat j + k \<le> 2 ^ 64"
  shows "load_le n (store_le k m (a + j) v) a = load_le n m a"
  using load_store_offset[of n k 0 j m a v] assms by simp

lemma take_bit_word_id [simp]: "take_bit 64 (v :: uword) = v"
  by (auto intro!: bit_eqI simp: bit_simps)

lemma ucast_take_bit_32 [simp]: "ucast (take_bit 32 (ucast (v :: u32) :: uword)) = v"
  by (auto intro!: bit_eqI simp: bit_simps)

lemma load32_store32_same: "load32 (store32 m a v) a = v"
  by (simp add: load_store_same)

lemmas load_layout = load_store_offset load_store_offset_base load_store_same

end
