(* ===== verification/Arm64.thy ===== *)
theory Arm64
  imports Bytes
begin

text \<open>
  Running a displaced instruction on the 64-bit ARM (\<open>arm64-arch.c\<close>). There the runtime
  does not plant a second trap: what the code takes for an instruction that depends on the program
  counter is simulated, any other one is copied to a trampoline that jumps back. The context has the
  program counter, the 31 general registers (the C code indexes the same array with 31, which
  is the stack pointer that follows it) and the flags word. Two values that C leaves open are arguments: the
  value of the local \<open>result\<close> before it is assigned, and the bit that a shift of a 64-bit
  register by 64 or more yields. \<open>page\<close> is the address that \<open>mmap\<close> returns when the
  thread has no trampoline yet. Page protections and the cache flush have no effect on
  the model.
\<close>

record a64_context =
  a64_pc :: uword
  a64_regs :: "u32 \<Rightarrow> uword"
  pstate :: uword
  a64_mem :: "uword \<Rightarrow> u8"
  breakpoint_misc :: uword

definition trap_Breakpoint_arm64 :: u32 where
  "trap_Breakpoint_arm64 = 11"

definition arch_install_breakpoint_arm64 :: "(uword \<Rightarrow> u8) \<Rightarrow> uword \<Rightarrow> u32 \<times> (uword \<Rightarrow> u8)" where
  "arch_install_breakpoint_arm64 m pc =
     (let result = load32 m pc
      in (result, store32 m pc (push_bit 21 0x6a1 OR push_bit 5 trap_Breakpoint_arm64)))"

definition arch_remove_breakpoint_arm64 :: "(uword \<Rightarrow> u8) \<Rightarrow> uword \<Rightarrow> u32 \<Rightarrow> (uword \<Rightarrow> u8)" where
  "arch_remove_breakpoint_arm64 m pc orig_inst = store32 m pc orig_inst"

definition N_BIT :: nat where "N_BIT = 31"
definition Z_BIT :: nat where "Z_BIT = 30"
definition C_BIT :: nat where "C_BIT = 29"
definition V_BIT :: nat where "V_BIT = 28"

text \<open>
  The cases of the \<open>switch\<close> have no \<open>break\<close>: control enters at the case of \<open>cond\<close>
  and runs through all later ones; without a case for \<open>cond\<close> none is run. \<open>flags\<close> is an \<open>int\<close>.
\<close>

definition condition_holds :: "bool \<Rightarrow> a64_context \<Rightarrow> u32 \<Rightarrow> bool" where
  "condition_holds uninit context cond =
     (let flags = (ucast (pstate context) :: u32);
          flag = (\<lambda>b. signed_drop_bit b flags AND 1 \<noteq> 0);
          reached = (\<lambda>k. cond \<le> k \<and> cond \<le> 7);
          result = uninit;
          result = (if reached 0 then flag Z_BIT else result);
          result = (if reached 1 then flag C_BIT else result);
          result = (if reached 2 then flag N_BIT else result);
          result = (if reached 3 then flag V_BIT else result);
          result = (if reached 4 then flag V_BIT \<and> NOT (signed_drop_bit Z_BIT flags AND 1) \<noteq> 0
                    else result);
          result = (if reached 5 then signed_drop_bit N_BIT flags = signed_drop_bit V_BIT flags
                    else result);
          result = (if reached 6 then signed_drop_bit N_BIT flags = signed_drop_bit V_BIT flags
                                      \<and> \<not> flag Z_BIT
                    else result);
          result = (if reached 7 then True else result)
      in if cond AND 1 \<noteq> 0 \<and> cond \<noteq> 0xf then \<not> result else result)"

definition sign_extend_arm64 :: "uword \<Rightarrow> nat \<Rightarrow> uword" where
  "sign_extend_arm64 w n_bits = signed_drop_bit (64 - n_bits) (push_bit (64 - n_bits) w)"

definition reg_LR_arm64 :: u32 where
  "reg_LR_arm64 = 30"

definition BREAKPOINT_TEMP_REG :: u32 where
  "BREAKPOINT_TEMP_REG = 9"

abbreviation set_pc :: "uword \<Rightarrow> a64_context \<Rightarrow> a64_context" where
  "set_pc p context \<equiv> context\<lparr>a64_pc := p\<rparr>"

abbreviation set_reg :: "u32 \<Rightarrow> uword \<Rightarrow> a64_context \<Rightarrow> a64_context" where
  "set_reg r v context \<equiv> context\<lparr>a64_regs := (a64_regs context)(r := v)\<rparr>"

text \<open>
  The last branch: the instruction, the load of the return address into a scratch register,
  the jump through it, and the return address.
\<close>

definition run_on_trampoline :: "uword \<Rightarrow> a64_context \<Rightarrow> u32 \<Rightarrow> a64_context" where
  "run_on_trampoline page context orig_inst =
     (let trampoline = breakpoint_misc context;
          (trampoline, context) =
            (if trampoline = 0 then (page, context\<lparr>breakpoint_misc := page\<rparr>)
             else (trampoline, context));
          next_pc = a64_pc context + 4;
          inst_ptr = trampoline;
          context = context\<lparr>a64_mem := store32 (a64_mem context) inst_ptr orig_inst\<rparr>;
          inst_ptr = inst_ptr + 4;
          inst = 0x58000000 OR push_bit 5 2 OR BREAKPOINT_TEMP_REG;
          context = context\<lparr>a64_mem := store32 (a64_mem context) inst_ptr inst\<rparr>;
          inst_ptr = inst_ptr + 4;
          inst = 0xD61F0000 OR push_bit 5 BREAKPOINT_TEMP_REG;
          context = context\<lparr>a64_mem := store32 (a64_mem context) inst_ptr inst\<rparr>;
          inst_ptr = inst_ptr + 4;
          context = context\<lparr>a64_mem := store_le 8 (a64_mem context) inst_ptr next_pc\<rparr>
      in set_pc trampoline context)"

definition arch_do_displaced_inst_arm64 ::
    "bool \<Rightarrow> bool \<Rightarrow> uword \<Rightarrow> a64_context \<Rightarrow> u32 \<Rightarrow> a64_context result" where
  "arch_do_displaced_inst_arm64 uninit overshift page context orig_inst =
     (let pc = a64_pc context;
          skip = (\<lambda>c. Inr (set_pc (pc + 4) c));
          jump = (\<lambda>offset. Inr (set_pc (pc + 4 * offset) context));
          imm19 = sign_extend_arm64 (ucast (drop_bit 5 orig_inst AND NOT (2 ^ 19))) 19
      in if drop_bit 24 orig_inst = 0b01010100 then
           (if condition_holds uninit context (orig_inst AND 0b1111) then jump imm19
            else skip context)
         else if drop_bit 26 orig_inst AND 0b11111 = 0b000101 then
           jump (sign_extend_arm64 (ucast (orig_inst AND NOT (2 ^ 26))) 26)
         else if drop_bit 25 orig_inst AND 0b1111111 = 0b1101011 then
           (let opc = drop_bit 21 orig_inst AND 0b1111
            in if opc = 0b00 \<or> opc = 0b01 then
                 Inr (set_pc (a64_regs context (drop_bit 5 orig_inst AND 0b11111)) context)
               else if opc = 0b10 then Inr (set_pc (a64_regs context reg_LR_arm64) context)
               else Inl Lose)
         else if drop_bit 25 orig_inst AND 0b111111 = 0b011010 then
           (let op = (if bit orig_inst 24 then 1 else 0); rt = orig_inst AND 0b11111
            in if \<not> bit orig_inst 31 then Inl Lose
               else if a64_regs context rt XOR op \<noteq> 0 then jump imm19
               else skip context)
         else if drop_bit 25 orig_inst AND 0b111111 = 0b011011 then
           (let op = bit orig_inst 24;
                offset = sign_extend_arm64 (ucast (drop_bit 5 orig_inst AND NOT (2 ^ 14))) 14
            in if \<not> bit orig_inst 31 then Inl Lose
               else if overshift \<noteq> op then jump offset
               else skip context)
         else if \<not> bit orig_inst 31 then
           (let rt = orig_inst AND 0b11111
            in if \<not> bit orig_inst 30 then Inl Lose
               else skip (set_reg rt (load_le 8 (a64_mem context) (pc + 4 * imm19)) context))
         else if drop_bit 24 orig_inst AND 0b11111 = 0b10000 then
           (let op = bit orig_inst 31;
                rd = orig_inst AND 0b11111;
                imm = sign_extend_arm64 (ucast ((drop_bit 5 orig_inst AND NOT (2 ^ 19)) OR
                        (drop_bit 29 orig_inst AND NOT (2 ^ 2)))) 21
            in skip (set_reg rd
                 (if op then (pc AND NOT (2 ^ 12)) + scast (push_bit 12 (ucast imm :: u32))
                  else pc + scast (ucast imm :: u32)) context))
         else Inr (run_on_trampoline page context orig_inst))"

section \<open>The trampoline\<close>

text \<open>
  The instruction words that the code tries to simulate, by their fields. These are not the
  instructions that depend on the program counter: the test for a load of a literal, the first
  disjunct, holds of every word whose top bit is clear, and loads of literals with the top bit set
  are not recognised; two lemmas below show both.
\<close>

definition simulated_arm64 :: "u32 \<Rightarrow> bool" where
  "simulated_arm64 w \<longleftrightarrow>
     \<not> bit w 31 \<or>
     drop_bit 26 w AND 0b11111 = 0b000101 \<or>
     drop_bit 25 w AND 0b1111111 = 0b1101011 \<or>
     drop_bit 25 w AND 0b111111 \<in> {0b011010, 0b011011} \<or>
     drop_bit 24 w AND 0b11111 = 0b10000"

text \<open>
  The two instructions that lead back, as the architecture defines them: a load of a literal
  into a 64-bit register and a branch to a register.
\<close>

definition a64_step :: "a64_context \<Rightarrow> a64_context option" where
  "a64_step c =
     (let w = load32 (a64_mem c) (a64_pc c);
          imm19 = word_of_int (sint (ucast (drop_bit 5 w) :: 19 word))
      in if drop_bit 24 w = 0x58 then
           Some (set_pc (a64_pc c + 4)
             (set_reg (w AND 0x1f) (load_le 8 (a64_mem c) (a64_pc c + 4 * imm19)) c))
         else if w AND 0xFFFFFC1F = 0xD61F0000 then
           Some (set_pc (a64_regs c (drop_bit 5 w AND 0x1f)) c)
         else None)"

lemma not_simulated_arm64:
  assumes "\<not> simulated_arm64 w"
  shows "arch_do_displaced_inst_arm64 uninit overshift page c w = Inr (run_on_trampoline page c w)"
proof -
  have "drop_bit 24 w \<noteq> 0b01010100"
  proof
    assume "drop_bit 24 w = 0b01010100"
    then have "\<not> bit (drop_bit 24 w) 7" by simp
    then show False using assms by (simp add: simulated_arm64_def bit_drop_bit_eq)
  qed
  then show ?thesis
    using assms unfolding simulated_arm64_def arch_do_displaced_inst_arm64_def Let_def by simp
qed

abbreviation trampoline_of :: "uword \<Rightarrow> a64_context \<Rightarrow> uword" where
  "trampoline_of page c \<equiv> (if breakpoint_misc c = 0 then page else breakpoint_misc c)"

lemma run_on_trampoline_mem:
  fixes page c w
  defines "t \<equiv> trampoline_of page c" and "d \<equiv> run_on_trampoline page c w"
  shows "a64_pc d = t" and "a64_regs d = a64_regs c" and "breakpoint_misc d = t"
    and "a64_mem d = store_le 8 (store32 (store32 (store32 (a64_mem c) t w) (t + 4) 0x58000049)
           (t + 8) 0xD61F0120) (t + 12) (a64_pc c + 4)"
  unfolding d_def t_def run_on_trampoline_def Let_def BREAKPOINT_TEMP_REG_def
  by (simp_all add: push_bit_eq_mult add.assoc)

lemma trampoline_layout:
  fixes page c w
  defines "t \<equiv> trampoline_of page c" and "m \<equiv> a64_mem (run_on_trampoline page c w)"
  shows "load32 m t = w" and "load32 m (t + 4) = 0x58000049" and "load32 m (t + 8) = 0xD61F0120"
    and "load_le 8 m (t + 12) = a64_pc c + 4"
  unfolding m_def run_on_trampoline_mem t_def[symmetric]
  by (simp_all add: load_layout)

lemma trampoline_steps:
  assumes "load32 (a64_mem t) (a64_pc t) = 0x58000049"
    and "load32 (a64_mem t) (a64_pc t + 4) = 0xD61F0120"
    and "load_le 8 (a64_mem t) (a64_pc t + 8) = v"
  shows "Option.bind (a64_step t) a64_step = Some (set_pc v (set_reg BREAKPOINT_TEMP_REG v t))"
proof -
  have "a64_step t = Some (set_pc (a64_pc t + 4) (set_reg BREAKPOINT_TEMP_REG v t))"
    using assms(1,3) by (simp add: a64_step_def BREAKPOINT_TEMP_REG_def Let_def)
  then show ?thesis
    using assms(2) by (simp add: a64_step_def BREAKPOINT_TEMP_REG_def Let_def)
qed

text \<open>
  \<open>add w0, w0, w0\<close> stops the runtime, and with bit 30 set as well,
  \<open>sub w0, w0, w0\<close>, is executed as a load from beside it; neither depends on the program counter.
\<close>

lemma arm64_32_bit_arithmetic_not_copied:
  "arch_do_displaced_inst_arm64 uninit overshift page c 0x0B000000 = Inl Lose"
  "arch_do_displaced_inst_arm64 uninit overshift page c 0x4B000000 =
     Inr (set_pc (a64_pc c + 4) (set_reg 0 (load_le 8 (a64_mem c) (a64_pc c)) c))"
  by (simp_all add: arch_do_displaced_inst_arm64_def Let_def sign_extend_arm64_def)

text \<open>The load of a signed word relative to the program counter (\<open>ldrsw x0, .\<close>) goes to the
  trampoline, where it loads from the trampoline.\<close>

lemma arm64_ldrsw_literal_copied:
  "arch_do_displaced_inst_arm64 uninit overshift page c 0x98000000 =
     Inr (run_on_trampoline page c 0x98000000)"
  by (rule not_simulated_arm64) code_simp

text \<open>C25: On the 64-bit ARM, a displaced instruction that the code does not itself simulate
  runs on the trampoline and comes back: \<open>arch_do_displaced_inst\<close> leaves the
  program counter at a copy of the instruction, and from any state reached by executing
  the copy (one instruction further, memory unchanged) the two instructions behind it, as the
  architecture defines them, end at the instruction after the breakpoint, with no
  register changed but the scratch register. Outside (\<open>simulated_arm64\<close>) are the branches, address
  computations and every word with the top bit clear, which the code takes for a load of a literal
  even if it does not depend on the program counter (\<open>arm64_32_bit_arithmetic_not_copied\<close>).\<close>

theorem arm64_trampoline_returns:
  assumes "\<not> simulated_arm64 w"
    and "arch_do_displaced_inst_arm64 uninit overshift page c w = Inr d"
    and "a64_mem t = a64_mem d" and "a64_pc t = a64_pc d + 4"
  shows "load32 (a64_mem d) (a64_pc d) = w \<and> a64_regs d = a64_regs c \<and>
    Option.bind (a64_step t) a64_step =
      Some (set_pc (a64_pc c + 4) (set_reg BREAKPOINT_TEMP_REG (a64_pc c + 4) t))"
proof -
  have d: "d = run_on_trampoline page c w"
    using assms(2) not_simulated_arm64[OF assms(1)] by simp
  have a: "a64_pc t + 4 = trampoline_of page c + 8" "a64_pc t + 8 = trampoline_of page c + 12"
    "a64_pc t = trampoline_of page c + 4"
    using assms(4) unfolding d run_on_trampoline_mem by simp_all
  have "Option.bind (a64_step t) a64_step =
      Some (set_pc (a64_pc c + 4) (set_reg BREAKPOINT_TEMP_REG (a64_pc c + 4) t))"
    using trampoline_layout(2,3,4)[of page c w] unfolding a[symmetric] d[symmetric] assms(3)[symmetric]
    by (intro trampoline_steps)
  then show ?thesis
    unfolding d by (simp only: run_on_trampoline_mem(1,2) trampoline_layout simp_thms)
qed

definition a64_sample :: "a64_context" where
  "a64_sample = \<lparr>a64_pc = 0x1000, a64_regs = (\<lambda>_. 7), pstate = 0, a64_mem = (\<lambda>_. 0),
     breakpoint_misc = 0\<rparr>"

theorem arm64_trampoline_returns_witness:
  "\<exists>d. arch_do_displaced_inst_arm64 False False 0x8000 a64_sample 0xD503201F = Inr d \<and>
     Option.bind (a64_step (set_pc (a64_pc d + 4) d)) a64_step =
       Some (set_pc 0x1004 (set_reg 9 0x1004 (set_pc (a64_pc d + 4) d)))"
proof -
  have n: "\<not> simulated_arm64 0xD503201F" by code_simp
  let ?d = "run_on_trampoline 0x8000 a64_sample 0xD503201F"
  have i: "arch_do_displaced_inst_arm64 False False 0x8000 a64_sample 0xD503201F = Inr ?d"
    by (rule not_simulated_arm64[OF n])
  have "Option.bind (a64_step (set_pc (a64_pc ?d + 4) ?d)) a64_step =
       Some (set_pc 0x1004 (set_reg 9 0x1004 (set_pc (a64_pc ?d + 4) ?d)))"
    using arm64_trampoline_returns[OF n i, of "set_pc (a64_pc ?d + 4) ?d"]
    by (simp add: a64_sample_def BREAKPOINT_TEMP_REG_def)
  with i show ?thesis by blast
qed

section \<open>The simulated instructions\<close>

text \<open>
  The missing \<open>break\<close>s make every condition below 8 come out the same way whatever the
  flags are, and one above 7 depend on the value \<open>result\<close> happens to have.
\<close>

lemma condition_holds_ignores_flags:
  "cond \<le> 7 \<Longrightarrow> condition_holds uninit c cond \<longleftrightarrow> cond AND 1 = 0"
  "cond > 7 \<Longrightarrow> condition_holds uninit c cond \<longleftrightarrow> (cond AND 1 \<noteq> 0 \<and> cond \<noteq> 0xf) \<noteq> uninit"
proof -
  show "condition_holds uninit c cond \<longleftrightarrow> cond AND 1 = 0" if "cond \<le> 7"
  proof -
    have "cond \<noteq> 0xf" using that by auto
    then show ?thesis using that by (simp add: condition_holds_def Let_def)
  qed
  show "condition_holds uninit c cond \<longleftrightarrow> (cond AND 1 \<noteq> 0 \<and> cond \<noteq> 0xf) \<noteq> uninit" if "cond > 7"
  proof -
    have "\<not> cond \<le> 7" using that by simp
    then show ?thesis by (simp add: condition_holds_def Let_def)
  qed
qed

text \<open>A branch with link does not set the link register.\<close>

lemma arm64_bl_does_not_link:
  assumes "drop_bit 26 w = (0b100101 :: u32)"
  shows "\<exists>p. arch_do_displaced_inst_arm64 uninit overshift page c w = Inr (set_pc p c)"
proof -
  have "drop_bit 24 w \<noteq> 0b01010100"
  proof
    assume "drop_bit 24 w = 0b01010100"
    then have "drop_bit 2 (drop_bit 24 w) = (0b010101 :: u32)" by simp
    moreover have "drop_bit 2 (drop_bit 24 w) = drop_bit 26 w" by (simp only: drop_bit_drop_bit) simp
    ultimately show False using assms by simp
  qed
  moreover have "drop_bit 26 w AND 0b11111 = 0b000101" unfolding assms by simp
  ultimately show ?thesis unfolding arch_do_displaced_inst_arm64_def Let_def by auto
qed

text \<open>
  A compare-and-branch on zero branches when the register is not zero.
\<close>

lemma arm64_cbz_inverted:
  assumes "drop_bit 24 w = (0b10110100 :: u32)" and "a64_regs c (w AND 0b11111) \<noteq> 0"
  shows "arch_do_displaced_inst_arm64 uninit overshift page c w =
    Inr (set_pc (a64_pc c + 4 * sign_extend_arm64 (ucast (drop_bit 5 w AND NOT (2 ^ 19))) 19) c)"
proof -
  have d: "drop_bit (24 + k) w = drop_bit k (0b10110100 :: u32)" for k
    unfolding assms(1)[symmetric] by (simp add: add.commute)
  have s: "drop_bit 26 w = (0b101101 :: u32)" "drop_bit 25 w = (0b1011010 :: u32)"
    using d[of 2] d[of 1] by simp_all
  have "bit w 31" "\<not> bit w 24"
    using arg_cong[OF assms(1), of "\<lambda>x. bit x 7"] arg_cong[OF assms(1), of "\<lambda>x. bit x 0"]
    by (simp_all add: bit_drop_bit_eq)
  then show ?thesis
    using assms(2) unfolding arch_do_displaced_inst_arm64_def Let_def assms(1) s by simp
qed

end
