(* ===== verification/Loongarch64.thy ===== *)
theory Loongarch64
  imports Bytes
begin

text \<open>
  Running a displaced instruction on LoongArch (\<open>loongarch64-arch.c\<close>): conditional branches,
  \<open>jirl\<close> and loads and stores are simulated, everything else runs on a trampoline. \<open>page\<close>
  is the address that \<open>mmap\<close> returns when the thread has no trampoline yet. Page
  protections and the cache flush have no effect on the model.
\<close>

record la_context =
  la_pc :: uword
  la_regs :: "u32 \<Rightarrow> uword"
  la_mem :: "uword \<Rightarrow> u8"
  la_misc :: uword

definition BREAK_INST :: u32 where
  "BREAK_INST = 0x002A0000"

definition trap_Breakpoint_la :: u32 where
  "trap_Breakpoint_la = 11"

definition arch_install_breakpoint_la :: "(uword \<Rightarrow> u8) \<Rightarrow> uword \<Rightarrow> u32 \<times> (uword \<Rightarrow> u8)" where
  "arch_install_breakpoint_la m pc =
     (let result = load32 m pc in (result, store32 m pc (BREAK_INST OR trap_Breakpoint_la)))"

definition arch_remove_breakpoint_la :: "(uword \<Rightarrow> u8) \<Rightarrow> uword \<Rightarrow> u32 \<Rightarrow> (uword \<Rightarrow> u8)" where
  "arch_remove_breakpoint_la m pc orig_inst = store32 m pc orig_inst"

definition sign_extend_u :: "u16 \<Rightarrow> nat \<Rightarrow> u32" where
  "sign_extend_u value n_bits =
     (let shift = 32 - n_bits in signed_drop_bit shift (push_bit shift (scast value)))"

definition is_load_store_pc_rel :: "u32 \<Rightarrow> bool" where
  "is_load_store_pc_rel inst =
     (drop_bit 22 inst AND 0x3FF \<in>
        {0b0010100000, 0b0010100001, 0b0010100010, 0b0010100011, 0b0010101000, 0b0010101001,
         0b0010101010, 0b0010100100, 0b0010100101, 0b0010100110, 0b0010100111})"

definition BREAKPOINT_TEMP_REG_la :: u32 where
  "BREAKPOINT_TEMP_REG_la = 19"

abbreviation la_set_pc :: "uword \<Rightarrow> la_context \<Rightarrow> la_context" where
  "la_set_pc p context \<equiv> context\<lparr>la_pc := p\<rparr>"

abbreviation la_set_reg :: "u32 \<Rightarrow> uword \<Rightarrow> la_context \<Rightarrow> la_context" where
  "la_set_reg r v context \<equiv> context\<lparr>la_regs := (la_regs context)(r := v)\<rparr>"

text \<open>The branch conditions, \<open>val_j\<close> against \<open>val_d\<close>.\<close>

definition take_branch_la :: "u32 \<Rightarrow> uword \<Rightarrow> uword \<Rightarrow> bool result" where
  "take_branch_la opcode val_j val_d =
     (if opcode = 0b010110 then Inr (val_j = val_d)
      else if opcode = 0b010111 then Inr (val_j \<noteq> val_d)
      else if opcode = 0b011000 then Inr (sint val_j < sint val_d)
      else if opcode = 0b011001 then Inr (sint val_j \<ge> sint val_d)
      else if opcode = 0b011010 then Inr (val_j < val_d)
      else if opcode = 0b011011 then Inr (val_j \<ge> val_d)
      else Inl Lose)"

text \<open>The loads and stores, at \<open>addr\<close>, into or from register \<open>rd\<close>.\<close>

definition simulate_load_store :: "u32 \<Rightarrow> u32 \<Rightarrow> uword \<Rightarrow> la_context \<Rightarrow> la_context result" where
  "simulate_load_store opcode rd addr context =
     (let m = la_mem context; v = la_regs context rd;
          load = (\<lambda>x. Inr (la_set_reg rd x context));
          store = (\<lambda>n. Inr (context\<lparr>la_mem := store_le n m addr v\<rparr>))
      in if opcode = 0b0010100000 then load (scast (ucast (load_le 1 m addr) :: u8))
         else if opcode = 0b0010100001 then load (scast (ucast (load_le 2 m addr) :: u16))
         else if opcode = 0b0010100010 then load (scast (ucast (load_le 4 m addr) :: u32))
         else if opcode = 0b0010100011 then load (load_le 8 m addr)
         else if opcode = 0b0010101000 then load (load_le 1 m addr)
         else if opcode = 0b0010101001 then load (load_le 2 m addr)
         else if opcode = 0b0010101010 then load (load_le 4 m addr)
         else if opcode = 0b0010100100 then store 1
         else if opcode = 0b0010100101 then store 2
         else if opcode = 0b0010100110 then store 4
         else if opcode = 0b0010100111 then store 8
         else Inl Lose)"

definition run_on_trampoline_la :: "uword \<Rightarrow> la_context \<Rightarrow> u32 \<Rightarrow> la_context" where
  "run_on_trampoline_la page context orig_inst =
     (let trampoline = la_misc context;
          (trampoline, context) =
            (if trampoline = 0 then (page, context\<lparr>la_misc := page\<rparr>) else (trampoline, context));
          inst_ptr = trampoline;
          next_pc = la_pc context + 4;
          context = context\<lparr>la_mem := store32 (la_mem context) inst_ptr orig_inst\<rparr>;
          inst_ptr = inst_ptr + 4;
          context = context\<lparr>la_mem := store32 (la_mem context) inst_ptr
            (0x1C000000 OR BREAKPOINT_TEMP_REG_la)\<rparr>;
          inst_ptr = inst_ptr + 4;
          context = context\<lparr>la_mem := store32 (la_mem context) inst_ptr
            (0x28C00000 OR push_bit 5 BREAKPOINT_TEMP_REG_la OR BREAKPOINT_TEMP_REG_la
              OR push_bit 10 12)\<rparr>;
          inst_ptr = inst_ptr + 4;
          context = context\<lparr>la_mem := store32 (la_mem context) inst_ptr
            (0x4C000000 OR push_bit 5 BREAKPOINT_TEMP_REG_la)\<rparr>;
          inst_ptr = inst_ptr + 4;
          context = context\<lparr>la_mem := store_le 8 (la_mem context) inst_ptr next_pc\<rparr>
      in la_set_pc trampoline context)"

definition arch_do_displaced_inst_la :: "uword \<Rightarrow> la_context \<Rightarrow> u32 \<Rightarrow> la_context result" where
  "arch_do_displaced_inst_la page context orig_inst =
     (let pc = la_pc context;
          opcode = drop_bit 26 orig_inst AND 0x3F;
          rj = drop_bit 5 orig_inst AND 0x1F;
          rd = orig_inst AND 0x1F;
          imm16 = (ucast (orig_inst AND 0xFFFF) :: u16)
      in if opcode \<ge> 0b010110 \<and> opcode \<le> 0b011011 then
           (let offset = sign_extend_u imm16 16;
                val_j = la_regs context rj;
                val_d = la_regs context rd
            in rbind (take_branch_la opcode val_j val_d) (\<lambda>taken.
                 if taken then Inr (la_set_pc (pc + 4 * scast offset) context)
                 else Inr (la_set_pc (pc + 4) context)))
         else if opcode = 0b010011 then
           (let offset = sign_extend_u imm16 16;
                target = la_regs context rj + scast offset;
                context = (if rd \<noteq> 0 then la_set_reg rd (pc + 8) context else context)
            in Inr (la_set_pc target context))
         else if is_load_store_pc_rel orig_inst then
           (let si12 = (ucast (drop_bit 10 orig_inst AND 0xFFF) :: u16);
                offset = sign_extend_u si12 12;
                addr = la_regs context rj + scast offset
            in rbind (simulate_load_store (drop_bit 22 orig_inst AND 0x3FF) rd addr context)
                 (\<lambda>context. Inr (la_set_pc (pc + 4) context)))
         else Inr (run_on_trampoline_la page context orig_inst))"

section \<open>The instruction set\<close>

text \<open>
  The instructions that occur, as the architecture defines them: \<open>offs16\<close> sits in bits 10
  to 25 and counts instructions; register 0 reads as zero and is never written.
\<close>

definition write_reg :: "u32 \<Rightarrow> uword \<Rightarrow> la_context \<Rightarrow> la_context" where
  "write_reg rd v c = (if rd = 0 then c else la_set_reg rd v c)"

definition la_exec :: "la_context \<Rightarrow> u32 \<Rightarrow> la_context option" where
  "la_exec c w =
     (let rd = w AND 0x1f; rj = drop_bit 5 w AND 0x1f;
          si20 = word_of_int (sint (ucast (drop_bit 5 w) :: 20 word));
          si12 = word_of_int (sint (ucast (drop_bit 10 w) :: 12 word));
          offs16 = word_of_int (sint (ucast (drop_bit 10 w) :: 16 word))
      in if drop_bit 25 w = 0b0001110 then
           Some (la_set_pc (la_pc c + 4) (write_reg rd (la_pc c + push_bit 12 si20) c))
         else if drop_bit 22 w = 0b0010100011 then
           Some (la_set_pc (la_pc c + 4)
             (write_reg rd (load_le 8 (la_mem c) (la_regs c rj + si12)) c))
         else if drop_bit 26 w = 0b010011 then
           Some (la_set_pc (la_regs c rj + 4 * offs16) (write_reg rd (la_pc c + 4) c))
         else if drop_bit 26 w = 0b010110 then
           Some (la_set_pc (la_pc c + (if la_regs c rj = la_regs c rd then 4 * offs16 else 4)) c)
         else None)"

definition la_step :: "la_context \<Rightarrow> la_context option" where
  "la_step c = la_exec c (load32 (la_mem c) (la_pc c))"

definition simulated_la :: "u32 \<Rightarrow> bool" where
  "simulated_la w \<longleftrightarrow>
     drop_bit 26 w AND 0x3f \<in> {0b010011, 0b010110, 0b010111, 0b011000, 0b011001, 0b011010, 0b011011} \<or>
     is_load_store_pc_rel w"

section \<open>The trampoline\<close>

lemma not_simulated_la:
  assumes "\<not> simulated_la w"
  shows "arch_do_displaced_inst_la page c w = Inr (run_on_trampoline_la page c w)"
proof -
  let ?o = "drop_bit 26 w AND 0x3f"
  have "\<not> (?o \<ge> 0b010110 \<and> ?o \<le> 0b011011)"
  proof
    assume "?o \<ge> 0b010110 \<and> ?o \<le> 0b011011"
    then have b: "22 \<le> unat ?o" "unat ?o \<le> 27" by (simp_all add: word_le_nat_alt)
    then have "unat ?o \<in> {22, 23, 24, 25, 26, 27}" by auto
    then have "?o \<in> {22, 23, 24, 25, 26, 27}" by (auto simp: word_unat_eq_iff)
    then show False using assms unfolding simulated_la_def by auto
  qed
  then have "(?o \<ge> 0b010110 \<and> ?o \<le> 0b011011) = False" by blast
  moreover have "(?o = 0b010011) = False" "is_load_store_pc_rel w = False"
    using assms unfolding simulated_la_def by auto
  ultimately show ?thesis by (simp only: arch_do_displaced_inst_la_def Let_def if_False)
qed

abbreviation trampoline_la :: "uword \<Rightarrow> la_context \<Rightarrow> uword" where
  "trampoline_la page c \<equiv> (if la_misc c = 0 then page else la_misc c)"

lemma run_on_trampoline_la_mem:
  fixes page c w
  defines "t \<equiv> trampoline_la page c" and "d \<equiv> run_on_trampoline_la page c w"
  shows "la_pc d = t" and "la_regs d = la_regs c"
    and "la_mem d = store_le 8 (store32 (store32 (store32 (store32 (la_mem c) t w)
           (t + 4) 0x1C000013) (t + 8) 0x28C03273) (t + 12) 0x4C000260) (t + 16) (la_pc c + 4)"
  unfolding d_def t_def run_on_trampoline_la_def Let_def BREAKPOINT_TEMP_REG_la_def
  by (simp_all add: push_bit_eq_mult add.assoc)

lemma trampoline_la_layout:
  fixes page c w
  defines "t \<equiv> trampoline_la page c" and "m \<equiv> la_mem (run_on_trampoline_la page c w)"
  shows "load32 m t = w" and "load32 m (t + 4) = 0x1C000013" and "load32 m (t + 8) = 0x28C03273"
    and "load32 m (t + 12) = 0x4C000260" and "load_le 8 m (t + 16) = la_pc c + 4"
  unfolding m_def run_on_trampoline_la_mem t_def[symmetric]
  by (simp_all add: load_layout)

lemma trampoline_la_steps:
  assumes "load32 (la_mem t) (la_pc t) = 0x1C000013"
    and "load32 (la_mem t) (la_pc t + 4) = 0x28C03273"
    and "load32 (la_mem t) (la_pc t + 8) = 0x4C000260"
    and "load_le 8 (la_mem t) (la_pc t + 12) = v"
  shows "Option.bind (Option.bind (la_step t) la_step) la_step =
    Some (la_set_pc v (la_set_reg BREAKPOINT_TEMP_REG_la v t))"
proof -
  let ?r = "BREAKPOINT_TEMP_REG_la"
  have "la_step t = Some (la_set_pc (la_pc t + 4) (la_set_reg ?r (la_pc t) t))"
    using assms(1) by (simp add: la_step_def la_exec_def write_reg_def BREAKPOINT_TEMP_REG_la_def Let_def)
  moreover have "la_step (la_set_pc (la_pc t + 4) (la_set_reg ?r (la_pc t) t)) =
      Some (la_set_pc (la_pc t + 8) (la_set_reg ?r v t))"
    using assms(2,4) by (simp add: la_step_def la_exec_def write_reg_def BREAKPOINT_TEMP_REG_la_def Let_def)
  moreover have "la_step (la_set_pc (la_pc t + 8) (la_set_reg ?r v t)) =
      Some (la_set_pc v (la_set_reg ?r v t))"
    using assms(3) by (simp add: la_step_def la_exec_def write_reg_def BREAKPOINT_TEMP_REG_la_def Let_def)
  ultimately show ?thesis by simp
qed

text \<open>C26: On LoongArch, a displaced instruction that is not a conditional branch, a \<open>jirl\<close>, a load or a
  store runs on the trampoline and comes back: \<open>arch_do_displaced_inst\<close>
  leaves the program counter at a copy of the instruction, and from any state reached by
  executing the copy (one instruction further, memory unchanged) the three instructions
  behind it, as the architecture defines them, end at the instruction after the breakpoint,
  with no register changed but the scratch register.\<close>

theorem loongarch_trampoline_returns:
  assumes "\<not> simulated_la w"
    and "arch_do_displaced_inst_la page c w = Inr d"
    and "la_mem t = la_mem d" and "la_pc t = la_pc d + 4"
  shows "load32 (la_mem d) (la_pc d) = w \<and> la_regs d = la_regs c \<and>
    Option.bind (Option.bind (la_step t) la_step) la_step =
      Some (la_set_pc (la_pc c + 4) (la_set_reg BREAKPOINT_TEMP_REG_la (la_pc c + 4) t))"
proof -
  have d: "d = run_on_trampoline_la page c w"
    using assms(2) not_simulated_la[OF assms(1)] by simp
  have a: "la_pc t + 4 = trampoline_la page c + 8" "la_pc t + 8 = trampoline_la page c + 12"
    "la_pc t + 12 = trampoline_la page c + 16" "la_pc t = trampoline_la page c + 4"
    using assms(4) unfolding d run_on_trampoline_la_mem by simp_all
  have "Option.bind (Option.bind (la_step t) la_step) la_step =
      Some (la_set_pc (la_pc c + 4) (la_set_reg BREAKPOINT_TEMP_REG_la (la_pc c + 4) t))"
    using trampoline_la_layout(2,3,4,5)[of page c w]
    unfolding a[symmetric] d[symmetric] assms(3)[symmetric]
    by (intro trampoline_la_steps)
  then show ?thesis
    unfolding d by (simp only: run_on_trampoline_la_mem(1,2) trampoline_la_layout simp_thms)
qed

definition la_sample :: la_context where
  "la_sample = \<lparr>la_pc = 0x1000, la_regs = (\<lambda>_. 7), la_mem = (\<lambda>_. 0), la_misc = 0\<rparr>"

theorem loongarch_trampoline_returns_witness:
  "\<exists>d. arch_do_displaced_inst_la 0x8000 la_sample 0x03400000 = Inr d \<and>
     Option.bind (Option.bind (la_step (la_set_pc (la_pc d + 4) d)) la_step) la_step =
       Some (la_set_pc 0x1004 (la_set_reg 19 0x1004 (la_set_pc (la_pc d + 4) d)))"
proof -
  have n: "\<not> simulated_la 0x03400000" by code_simp
  let ?d = "run_on_trampoline_la 0x8000 la_sample 0x03400000"
  have i: "arch_do_displaced_inst_la 0x8000 la_sample 0x03400000 = Inr ?d"
    by (rule not_simulated_la[OF n])
  have "Option.bind (Option.bind (la_step (la_set_pc (la_pc ?d + 4) ?d)) la_step) la_step =
       Some (la_set_pc 0x1004 (la_set_reg 19 0x1004 (la_set_pc (la_pc ?d + 4) ?d)))"
    using loongarch_trampoline_returns[OF n i, of "la_set_pc (la_pc ?d + 4) ?d"]
    by (simp add: la_sample_def BREAKPOINT_TEMP_REG_la_def)
  with i show ?thesis by blast
qed

section \<open>The simulated instructions\<close>

text \<open>The 12-bit displacement of a load is extended as the architecture does.\<close>

lemma sign_extend_si12:
  "scast (sign_extend_u (ucast (drop_bit 10 w AND 0xFFF)) 12) =
    (word_of_int (sint (ucast (drop_bit 10 (w :: u32)) :: 12 word)) :: uword)"
proof -
  have m: "(0xFFF :: u32) = mask 12" by code_simp
  have "scast (sign_extend_u (ucast (drop_bit 10 w AND 0xFFF)) 12) =
      (scast (ucast (drop_bit 10 w) :: 12 word) :: uword)" (is "?l = ?r")
  proof (rule bit_eqI)
    fix j assume "possible_bit TYPE(uword) j"
    then have "j < 64" by simp
    then show "bit ?l j = bit ?r j"
      unfolding m sign_extend_u_def Let_def
      by (cases "j < 12"; cases "j < 32") (auto simp: bit_simps bit_mask_iff)
  qed
  then show ?thesis by simp
qed

lemma loongarch_load_doubleword:
  assumes "drop_bit 22 w = (0b0010100011 :: u32)" and "w AND 0x1f \<noteq> 0"
  shows "\<exists>d. arch_do_displaced_inst_la page c w = Inr d \<and> la_exec c w = Some d"
proof -
  have d: "drop_bit (22 + k) w = drop_bit k (0b0010100011 :: u32)" for k
    unfolding assms(1)[symmetric] by (simp add: add.commute)
  have s: "drop_bit 26 w = (0b001010 :: u32)" "drop_bit 25 w = (0b0010100 :: u32)"
    using d[of 4] d[of 3] by simp_all
  have "is_load_store_pc_rel w" unfolding is_load_store_pc_rel_def assms(1) by simp
  then show ?thesis
    using assms(2)
    unfolding arch_do_displaced_inst_la_def la_exec_def Let_def s assms(1)
      simulate_load_store_def sign_extend_si12 write_reg_def
    by simp
qed

text \<open>
  The displacement of a branch is read from bits 0 to 15, which hold both register numbers,
  and not from bits 10 to 25: the branch \<open>beq r0, r1, +8\<close> goes back to where the field says \<open>0x801\<close>.
\<close>

lemma loongarch_branch_offset_field:
  "map_sum id la_pc (arch_do_displaced_inst_la 0 (la_set_pc 0x1000 la_sample) 0x58000801) = Inr 0x3004"
  "map_option la_pc (la_exec la_sample 0x58000801) = Some 0x1008"
  by code_simp+

end
