(* ===== verification/Linkage.thy ===== *)
theory Linkage
  imports Bytes
begin

text \<open>
  The alien linkage table: one entry of fixed size for each C symbol that compiled Lisp code
  refers to. An entry for data holds the symbol's address; an entry for a function
  holds instructions that jump to it. \<open>arch_write_linkage_table_entry\<close> writes an entry,
  and \<open>os_link_runtime\<close> (\<open>os-common.c\<close>) fills the table when the runtime starts. The
  locale is the interface between the two: what the caller relies on, whatever the machine.
  This theory interprets it for x86-64 (\<open>x86-64-arch.c\<close>); the machines with
  instructions of fixed width follow in \<open>LinkageRisc\<close>.
\<close>

section \<open>Filling the table\<close>

text \<open>
  An element of the vector of required symbols: a base string for a function, a list of one for
  data. Strings of another representation can occur by mistake and are caught by an assertion.
\<close>

datatype linkage_name = Base_string string | Character_string string

datatype linkage_item = Function_item linkage_name | Data_item linkage_name

definition item_listp :: "linkage_item \<Rightarrow> bool" where
  "item_listp item = (case item of Function_item _ \<Rightarrow> False | Data_item _ \<Rightarrow> True)"

definition item_name :: "linkage_item \<Rightarrow> linkage_name" where
  "item_name item = (case item of Function_item name \<Rightarrow> name | Data_item name \<Rightarrow> name)"

definition simple_base_string_p :: "linkage_name \<Rightarrow> bool" where
  "simple_base_string_p name = (case name of Base_string _ \<Rightarrow> True | Character_string _ \<Rightarrow> False)"

text \<open>
  The first loop of \<open>os_link_runtime\<close>: the system linker has filled \<open>table\<close>, and the
  key/value vector pairs each name with its index. \<open>write\<close> is the architecture's
  \<open>arch_write_linkage_table_entry\<close>.
\<close>

fun link_prelinked ::
    "('m \<Rightarrow> nat \<Rightarrow> uword \<Rightarrow> bool \<Rightarrow> 'm) \<Rightarrow> nat \<Rightarrow> (linkage_item \<times> int) list \<Rightarrow> uword list \<Rightarrow> 'm \<Rightarrow> 'm result"
  where
  "link_prelinked write linkage_index ((name, i) # names) (addr # table) m =
     gc_assert (i = int linkage_index)
       (let is_data = item_listp name
        in gc_assert (simple_base_string_p (item_name name))
          (link_prelinked write (linkage_index + 1) names table (write m linkage_index addr is_data)))"
| "link_prelinked write linkage_index names table m = Inr m"

text \<open>
  The second loop looks every symbol up. \<open>dlsym\<close> is the C library's lookup, 0 for a symbol
  it does not have; \<open>vector_sap\<close> reads the characters of a string vector. A missing symbol leaves
  its entry as it was and is reported; the names reported are the second component.
\<close>

fun link_by_lookup ::
    "('m \<Rightarrow> nat \<Rightarrow> uword \<Rightarrow> bool \<Rightarrow> 'm) \<Rightarrow> (string \<Rightarrow> uword) \<Rightarrow> (linkage_name \<Rightarrow> string) \<Rightarrow> nat \<Rightarrow>
     linkage_item list \<Rightarrow> 'm \<Rightarrow> 'm \<times> string list" where
  "link_by_lookup write dlsym vector_sap linkage_index [] m = (m, [])"
| "link_by_lookup write dlsym vector_sap linkage_index (item # items) m =
     (let is_data = item_listp item;
          namechars = vector_sap (item_name item);
          r = dlsym namechars
      in if r \<noteq> 0 then
           link_by_lookup write dlsym vector_sap (linkage_index + 1) items
             (write m linkage_index r is_data)
         else
           (case link_by_lookup write dlsym vector_sap (linkage_index + 1) items m of
              (m, missing) \<Rightarrow> (m, namechars # missing)))"

text \<open>
  The first component of the result is \<open>alien_linkage_table_n_prelinked\<close>. \<open>names\<close> are the
  pairs of the vector behind its first word, whose fixnum \<open>n\<close> is the number of entries in use.
\<close>

definition os_link_runtime ::
    "('m \<Rightarrow> nat \<Rightarrow> uword \<Rightarrow> bool \<Rightarrow> 'm) \<Rightarrow> (string \<Rightarrow> uword) \<Rightarrow> (linkage_name \<Rightarrow> string) \<Rightarrow>
     uword list option \<Rightarrow> nat \<Rightarrow> (linkage_item \<times> int) list \<Rightarrow> nat \<Rightarrow> 'm \<Rightarrow> (nat \<times> 'm \<times> string list) result"
  where
  "os_link_runtime write dlsym vector_sap initializer n names count m =
     (case initializer of
        Some table \<Rightarrow>
          rbind (link_prelinked write 0 (take n names) table m) (\<lambda>m. Inr (n, m, []))
      | None \<Rightarrow>
          (case link_by_lookup write dlsym vector_sap 0 (map fst (take count names)) m of
             (m, missing) \<Rightarrow> Inr (count, m, missing)))"

section \<open>The interface\<close>

type_synonym bytes = "uword \<Rightarrow> u8"

text \<open>
  The client's operations: the address of entry number \<open>i\<close>, the bytes an entry occupies,
  the number of entries that fit in the space, the writer, and whether control that
  enters memory at an address goes on to a target. \<open>encodable\<close> are the targets an entry can jump to.
\<close>

locale linkage_table =
  fixes linkage_entry :: "nat \<Rightarrow> uword"
    and entry_bytes :: nat
    and n_entries :: nat
    and write_entry :: "bytes \<Rightarrow> nat \<Rightarrow> uword \<Rightarrow> bool \<Rightarrow> bytes"
    and jumps_to :: "bytes \<Rightarrow> uword \<Rightarrow> uword \<Rightarrow> bool"
    and encodable :: "uword \<Rightarrow> bool"
  assumes entry_width: "8 \<le> entry_bytes" "entry_bytes < 2 ^ 64"
    and entries_disjoint:
      "i < n_entries \<Longrightarrow> j < n_entries \<Longrightarrow> i \<noteq> j \<Longrightarrow>
       cell (linkage_entry i) entry_bytes \<inter> cell (linkage_entry j) entry_bytes = {}"
    and write_frame:
      "x \<notin> cell (linkage_entry i) entry_bytes \<Longrightarrow> write_entry m i t is_data x = m x"
    and write_function:
      "encodable t \<Longrightarrow>
       \<forall>x \<in> cell (linkage_entry i) entry_bytes. m' x = write_entry m i t False x \<Longrightarrow>
       jumps_to m' (linkage_entry i) t"
    and write_datum: "load_le 8 (write_entry m i t True) (linkage_entry i) = t"
begin

text \<open>The bytes of entry \<open>i\<close> are those the writer leaves for \<open>t\<close>.\<close>

definition linked :: "bytes \<Rightarrow> nat \<Rightarrow> uword \<Rightarrow> bool \<Rightarrow> bool" where
  "linked m i t is_data \<longleftrightarrow>
     (\<exists>m0. \<forall>x \<in> cell (linkage_entry i) entry_bytes. m x = write_entry m0 i t is_data x)"

lemma linked_jumps: "linked m i t False \<Longrightarrow> encodable t \<Longrightarrow> jumps_to m (linkage_entry i) t"
  unfolding linked_def using write_function by blast

lemma linked_datum: "linked m i t True \<Longrightarrow> load_le 8 m (linkage_entry i) = t"
proof -
  assume "linked m i t True"
  then obtain m0 where "\<And>x. x \<in> cell (linkage_entry i) entry_bytes \<Longrightarrow> m x = write_entry m0 i t True x"
    unfolding linked_def by blast
  then have "load_le 8 m (linkage_entry i) = load_le 8 (write_entry m0 i t True) (linkage_entry i)"
    using entry_width(1) by (intro load_le_cong) (auto simp: cell_def)
  then show ?thesis by (simp add: write_datum)
qed

lemma write_links: "linked (write_entry m i t is_data) i t is_data"
  unfolding linked_def by blast

lemma write_other_bytes:
  assumes "i < n_entries" and "j < n_entries" and "i \<noteq> j"
    and "x \<in> cell (linkage_entry j) entry_bytes"
  shows "write_entry m i t is_data x = m x"
  using assms entries_disjoint[of i j] by (intro write_frame) auto

lemma write_keeps:
  assumes "i < n_entries" and "j < n_entries" and "i \<noteq> j"
  shows "linked (write_entry m i t is_data) j u d \<longleftrightarrow> linked m j u d"
  using write_other_bytes[OF assms] by (simp add: linked_def)

lemma lookup_keeps:
  "j < linkage_index \<Longrightarrow> linkage_index + length items \<le> n_entries \<Longrightarrow>
   linked (fst (link_by_lookup write_entry dlsym sap linkage_index items m)) j u d \<longleftrightarrow> linked m j u d"
  by (induction items arbitrary: linkage_index m) (auto simp: Let_def write_keeps case_prod_beta)

lemma lookup_links:
  assumes "i < length items" and "linkage_index + length items \<le> n_entries"
    and "dlsym (sap (item_name (items ! i))) = t" and "t \<noteq> 0"
  shows "linked (fst (link_by_lookup write_entry dlsym sap linkage_index items m))
    (linkage_index + i) t (item_listp (items ! i))"
  using assms
proof (induction items arbitrary: linkage_index m i)
  case (Cons item items)
  let ?rest = "\<lambda>m. fst (link_by_lookup write_entry dlsym sap (Suc linkage_index) items m)"
  have rest: "fst (link_by_lookup write_entry dlsym sap linkage_index (item # items) m) =
      (if dlsym (sap (item_name item)) \<noteq> 0
       then ?rest (write_entry m linkage_index (dlsym (sap (item_name item))) (item_listp item))
       else ?rest m)"
    by (simp add: Let_def split: prod.split)
  show ?case
  proof (cases i)
    case 0
    then show ?thesis
      using Cons.prems write_links unfolding rest by (simp add: lookup_keeps)
  next
    case (Suc k)
    have "linked (?rest m') (Suc linkage_index + k) t (item_listp (items ! k))" for m'
      by (rule Cons.IH) (use Cons.prems Suc in auto)
    then show ?thesis using Suc unfolding rest by simp
  qed
qed simp

lemma lookup_missing:
  "snd (link_by_lookup write dlsym sap k items m) =
    filter (\<lambda>s. dlsym s = 0) (map (sap \<circ> item_name) items)"
  by (induction items arbitrary: k m) (auto simp: Let_def case_prod_beta)

lemma prelinked_keeps:
  "link_prelinked write_entry k names table m = Inr m' \<Longrightarrow> j < k \<Longrightarrow>
   k + length names \<le> n_entries \<Longrightarrow> linked m' j u d \<longleftrightarrow> linked m j u d"
proof (induction names arbitrary: k table m)
  case (Cons name names)
  show ?case
  proof (cases table)
    case table: (Cons addr rest)
    have r: "link_prelinked write_entry (Suc k) names rest (write_entry m k addr (item_listp (fst name))) =
        Inr m'"
      using Cons.prems(1) unfolding table by (cases name) (auto simp: Let_def)
    then show ?thesis using Cons.IH[OF r] Cons.prems by (simp add: write_keeps)
  qed (use Cons.prems in simp)
qed simp

lemma prelinked_links:
  assumes "link_prelinked write_entry k names table m = Inr m'"
    and "i < length names" and "length table = length names" and "k + length names \<le> n_entries"
  shows "linked m' (k + i) (table ! i) (item_listp (fst (names ! i)))"
  using assms
proof (induction names arbitrary: k table m i)
  case (Cons name names)
  obtain addr rest where table: "table = addr # rest" using Cons.prems(3) by (cases table) auto
  have r: "link_prelinked write_entry (Suc k) names rest (write_entry m k addr (item_listp (fst name))) = Inr m'"
    using Cons.prems(1) unfolding table by (cases name) (auto simp: gc_assert_Inr_iff Let_def)
  show ?case
  proof (cases i)
    case 0
    then show ?thesis
      using Cons.prems table r prelinked_keeps[OF r, of k] by (simp add: write_links)
  next
    case (Suc j)
    then show ?thesis using Cons.IH[OF r, of j] Cons.prems table by simp
  qed
qed simp

end

section \<open>Entries of a table\<close>

lemma unat_of_nat_bound: "k < 2 ^ 64 \<Longrightarrow> unat (of_nat k :: uword) = k"
  by (simp add: unat_of_nat take_bit_nat_eq_self)

lemma slots_disjoint:
  assumes "i < n" and "j < n" and "i \<noteq> j" and "n * w < 2 ^ 64"
  shows "cell (s + of_nat (i * w)) w \<inter> cell (s + of_nat (j * w)) w = {}"
proof -
  have less: "cell (s + of_nat (i * w)) w \<inter> cell (s + of_nat (j * w)) w = {}"
    if "i < j" "j < n" for i j
  proof (rule cell_offset_disjoint)
    have b: "i * w + w \<le> j * w" "j * w + w \<le> n * w"
      using mult_le_mono1[of "Suc i" j w] mult_le_mono1[of "Suc j" n w] that by simp_all
    then have "i * w < 2 ^ 64" "j * w < 2 ^ 64" "j * w + w \<le> 2 ^ 64" using assms(4) by linarith+
    then show "unat (of_nat (i * w) :: uword) + w \<le> unat (of_nat (j * w) :: uword)"
      and "unat (of_nat (j * w) :: uword) + w \<le> 2 ^ 64"
      using b(1) by (simp_all only: unat_of_nat_bound)
  qed
  show ?thesis using less[of i j] less[of j i] assms(1-3) by (cases "i < j") auto
qed

lemma store_le_frame:
  assumes "x \<notin> cell a w" and "unat k + n \<le> w" and "w < 2 ^ 64"
  shows "store_le n m (a + k) v x = m x"
proof (rule store_le_outside)
  show "n < 2 ^ 64" using assms(2,3) by linarith
  show "x \<notin> cell (a + k) n"
  proof
    assume "x \<in> cell (a + k) n"
    then have "unat (x - a - k) < n" by (simp add: cell_def diff_diff_add)
    moreover have "unat (x - a) \<le> unat (x - a - k) + unat k"
      using unat_plus_if'[of "x - a - k" k] by (simp split: if_splits)
    ultimately show False using assms(1,2) by (simp add: cell_def)
  qed
qed

text \<open>An entry that is the writer's in all its bytes reads like the writer's.\<close>

lemma entry_loads:
  assumes "\<forall>x \<in> cell a w. m' x = m x" and "w < 2 ^ 64"
  shows "n \<le> w \<Longrightarrow> load_le n m' a = load_le n m a"
    and "unat k + n \<le> w \<Longrightarrow> load_le n m' (a + k) = load_le n m (a + k)"
proof -
  show *: "load_le n m' (a + k) = load_le n m (a + k)" if "unat k + n \<le> w" for k n
  proof (rule load_le_cong)
    show "n < 2 ^ 64" using that assms(2) by linarith
    fix x assume "x \<in> cell (a + k) n"
    then have "unat (x - a - k) < n" by (simp add: cell_def diff_diff_add)
    moreover have "unat (x - a) \<le> unat (x - a - k) + unat k"
      using unat_plus_if'[of "x - a - k" k] by (simp split: if_splits)
    ultimately show "m' x = m x" using assms(1) that by (simp add: cell_def)
  qed
  show "n \<le> w \<Longrightarrow> load_le n m' a = load_le n m a" using *[of 0 n] by simp
qed

section \<open>x86-64\<close>

text \<open>
  \<open>START\<close> is \<open>ALIEN_LINKAGE_SPACE_START\<close>, which depends on where the spaces were mapped; the
  size of the space and of an entry are constants of the compiler.
\<close>

definition ALIEN_LINKAGE_SPACE_SIZE :: nat where
  "ALIEN_LINKAGE_SPACE_SIZE = 0x100000"

definition ENTRY_SIZE_x86_64 :: nat where
  "ENTRY_SIZE_x86_64 = 16"

definition x86_64_entry :: "uword \<Rightarrow> nat \<Rightarrow> uword" where
  "x86_64_entry START index = START + of_nat (index * ENTRY_SIZE_x86_64)"

definition write_linkage_entry_x86_64 :: "uword \<Rightarrow> bytes \<Rightarrow> nat \<Rightarrow> uword \<Rightarrow> bool \<Rightarrow> bytes" where
  "write_linkage_entry_x86_64 START m index target_addr datap =
     (let reloc_addr = x86_64_entry START index
      in if datap then store_le 8 m reloc_addr target_addr
         else let m = store_le 1 m (reloc_addr + 0) 0xFF;
                  m = store_le 1 m (reloc_addr + 1) 0x25;
                  m = store_le 4 m (reloc_addr + 2) 2;
                  m = store_le 1 m (reloc_addr + 6) 0x66;
                  m = store_le 1 m (reloc_addr + 7) 0x90
              in store_le 8 m (reloc_addr + 8) target_addr)"

text \<open>
  The instruction \<open>FF 25 disp32\<close> jumps to the address stored at its own end plus
  the displacement.
\<close>

definition jumps_to_x86_64 :: "bytes \<Rightarrow> uword \<Rightarrow> uword \<Rightarrow> bool" where
  "jumps_to_x86_64 m a t \<longleftrightarrow>
     load_le 1 m a = 0xFF \<and> load_le 1 m (a + 1) = 0x25 \<and>
     load_le 8 m (a + (6 + scast (ucast (load_le 4 m (a + 2)) :: u32))) = t"

interpretation x86_64: linkage_table "x86_64_entry START" ENTRY_SIZE_x86_64
  "ALIEN_LINKAGE_SPACE_SIZE div ENTRY_SIZE_x86_64" "write_linkage_entry_x86_64 START" jumps_to_x86_64
  "\<lambda>t. True" for START
proof unfold_locales
  show "8 \<le> ENTRY_SIZE_x86_64" "ENTRY_SIZE_x86_64 < 2 ^ 64" by (simp_all add: ENTRY_SIZE_x86_64_def)
  show "cell (x86_64_entry START i) ENTRY_SIZE_x86_64 \<inter> cell (x86_64_entry START j) ENTRY_SIZE_x86_64 = {}"
    if "i < ALIEN_LINKAGE_SPACE_SIZE div ENTRY_SIZE_x86_64"
      "j < ALIEN_LINKAGE_SPACE_SIZE div ENTRY_SIZE_x86_64" "i \<noteq> j" for i j
    unfolding x86_64_entry_def
    by (rule slots_disjoint[OF that]) (simp add: ALIEN_LINKAGE_SPACE_SIZE_def ENTRY_SIZE_x86_64_def)
  show "write_linkage_entry_x86_64 START m i t is_data x = m x"
    if "x \<notin> cell (x86_64_entry START i) ENTRY_SIZE_x86_64" for m i t is_data x
    using store_le_frame[OF that, of 0] store_le_frame[OF that]
    unfolding write_linkage_entry_x86_64_def Let_def
    by (simp add: ENTRY_SIZE_x86_64_def)
  show "jumps_to_x86_64 m' (x86_64_entry START i) t"
    if c: "\<forall>x \<in> cell (x86_64_entry START i) ENTRY_SIZE_x86_64.
      m' x = write_linkage_entry_x86_64 START m i t False x" for m m' i t
  proof -
    let ?a = "x86_64_entry START i" and ?w = "write_linkage_entry_x86_64 START m i t False"
    have "ENTRY_SIZE_x86_64 < 2 ^ 64" by (simp add: ENTRY_SIZE_x86_64_def)
    note l = entry_loads[OF c this, unfolded ENTRY_SIZE_x86_64_def]
    have w: "load_le 1 ?w ?a = 0xFF" "load_le 1 ?w (?a + 1) = 0x25" "load_le 4 ?w (?a + 2) = 2"
      "load_le 8 ?w (?a + 8) = t"
      by (simp_all add: write_linkage_entry_x86_64_def Let_def load_layout)
    show ?thesis unfolding jumps_to_x86_64_def using l(1)[of 1] l(2)[of 1 1] l(2)[of 2 4] l(2)[of 8 8] w by simp
  qed
  show "load_le 8 (write_linkage_entry_x86_64 START m i t True) (x86_64_entry START i) = t" for m i t
    by (simp add: write_linkage_entry_x86_64_def load_store_same)
qed

lemma linked_x86_64:
  "x86_64.linked START m i t d \<Longrightarrow>
    if d then load_le 8 m (x86_64_entry START i) = t else jumps_to_x86_64 m (x86_64_entry START i) t"
  using x86_64.linked_datum x86_64.linked_jumps by (cases d) auto

text \<open>When the system linker has filled the table, every entry goes where the linker says.\<close>

lemma os_link_runtime_prelinked:
  assumes "os_link_runtime (write_linkage_entry_x86_64 START) dlsym sap (Some table) n names count m =
      Inr (k, m', missing)"
    and "n \<le> length names" and "length table = n"
    and "n \<le> ALIEN_LINKAGE_SPACE_SIZE div ENTRY_SIZE_x86_64" and "i < n"
  shows "if item_listp (fst (names ! i)) then load_le 8 m' (x86_64_entry START i) = table ! i
    else jumps_to_x86_64 m' (x86_64_entry START i) (table ! i)"
proof -
  have r: "link_prelinked (write_linkage_entry_x86_64 START) 0 (take n names) table m = Inr m'"
    using assms(1) by (auto simp: os_link_runtime_def rbind_Inr_iff)
  show ?thesis
    using x86_64.prelinked_links[OF r, of i] assms(2-5) by (intro linked_x86_64) simp
qed

text \<open>C20: \<open>os_link_runtime\<close> resolves the foreign symbols of a core on x86-64. It looks up the
  first \<open>count\<close> names of the vector; when it is done, each symbol that the dynamic
  linker knows is reached through its entry of the linkage table (the entry of a function
  holds instructions that jump to the function's address, whatever entries were written after
  it; the entry of a datum holds the address), and each symbol that it does not know
  is among the names reported as missing.\<close>

theorem os_link_runtime_resolves:
  assumes "os_link_runtime (write_linkage_entry_x86_64 START) dlsym sap None n names count m =
      Inr (k, m', missing)"
    and "count \<le> length names"
    and "count \<le> ALIEN_LINKAGE_SPACE_SIZE div ENTRY_SIZE_x86_64" and "i < count"
    and "item = fst (names ! i)" and "t = dlsym (sap (item_name item))"
  shows "if t = 0 then sap (item_name item) \<in> set missing
    else if item_listp item then load_le 8 m' (x86_64_entry START i) = t
    else jumps_to_x86_64 m' (x86_64_entry START i) t"
proof -
  let ?items = "map fst (take count names)"
  have i: "i < length ?items" "?items ! i = item" using assms(2,4,5) by simp_all
  have m: "m' = fst (link_by_lookup (write_linkage_entry_x86_64 START) dlsym sap 0 ?items m)"
    and missing: "missing = filter (\<lambda>s. dlsym s = 0) (map (sap \<circ> item_name) ?items)"
    using assms(1) x86_64.lookup_missing[of "write_linkage_entry_x86_64 START" dlsym sap 0 ?items m]
    by (auto simp: os_link_runtime_def split: prod.splits)
  have "sap (item_name item) \<in> set missing" if "t = 0"
  proof -
    have "item \<in> set ?items" using i nth_mem by metis
    then have "(sap \<circ> item_name) item \<in> set (map (sap \<circ> item_name) ?items)"
      unfolding set_map by (rule imageI)
    then show ?thesis unfolding missing set_filter using that assms(6) by simp
  qed
  moreover have "x86_64.linked START m' i t (item_listp item)" if "t \<noteq> 0"
    using x86_64.lookup_links[of i ?items 0 dlsym sap t START m] i assms(3,6) that
    unfolding m by simp
  ultimately show ?thesis using linked_x86_64[of START m' i t "item_listp item"] by presburger
qed

definition sample_names :: "(linkage_item \<times> int) list" where
  "sample_names = [(Function_item (Base_string ''malloc''), 0), (Data_item (Base_string ''environ''), 1)]"

definition sample_dlsym :: "string \<Rightarrow> uword" where
  "sample_dlsym s = (if s = ''malloc'' then 0x7f0000001230 else 0x7f0000004560)"

definition sample_sap :: "linkage_name \<Rightarrow> string" where
  "sample_sap name = (case name of Base_string s \<Rightarrow> s | Character_string s \<Rightarrow> take 1 s)"

theorem os_link_runtime_resolves_witness:
  "jumps_to_x86_64 (fst (snd (projr (os_link_runtime (write_linkage_entry_x86_64 0x50000000)
      sample_dlsym sample_sap None 0 sample_names 2 (\<lambda>_. 0))))) 0x50000000 0x7f0000001230"
proof -
  let ?r = "os_link_runtime (write_linkage_entry_x86_64 0x50000000) sample_dlsym sample_sap
    None 0 sample_names 2 (\<lambda>_. 0)"
  let ?item = "Function_item (Base_string ''malloc'')"
  obtain k m' missing where r: "?r = Inr (k, m', missing)"
    unfolding os_link_runtime_def option.case by (metis (no_types, lifting) case_prod_beta)
  have t: "sample_dlsym (sample_sap (item_name ?item)) = 0x7f0000001230"
    by (simp add: sample_dlsym_def sample_sap_def item_name_def)
  have b: "2 \<le> length sample_names" "?item = fst (sample_names ! 0)" "(0 :: nat) < 2"
    "2 \<le> ALIEN_LINKAGE_SPACE_SIZE div ENTRY_SIZE_x86_64" "\<not> item_listp ?item"
    "x86_64_entry 0x50000000 0 = 0x50000000"
    by (simp_all add: sample_names_def ALIEN_LINKAGE_SPACE_SIZE_def ENTRY_SIZE_x86_64_def item_listp_def
        x86_64_entry_def)
  have "jumps_to_x86_64 m' 0x50000000 0x7f0000001230"
    using os_link_runtime_resolves[OF r b(1,4,3,2) t[symmetric]] b(5,6) by simp
  then show ?thesis unfolding r by simp
qed

end
