(* ===== verification/LinkageRisc.thy ===== *)
theory LinkageRisc
  imports Linkage Arm64 Loongarch64
begin

text \<open>
  Linkage table entries on the machines with instructions of fixed width: 64-bit ARM
  (\<open>arm64-arch.c\<close>), LoongArch (\<open>loongarch64-arch.c\<close>), 64-bit RISC-V
  (\<open>riscv-arch.c\<close>) and 64-bit little-endian PowerPC (\<open>ppc-arch.c\<close>). For each the writer is
  translated, the few instructions it emits are given their meaning, and the locale of
  \<open>Linkage\<close> is interpreted: control that enters the entry arrives at the target.
\<close>

fun run_steps :: "('s \<Rightarrow> 's option) \<Rightarrow> nat \<Rightarrow> 's \<Rightarrow> 's option" where
  "run_steps step 0 c = Some c"
| "run_steps step (Suc n) c = Option.bind (step c) (run_steps step n)"

lemma run_steps_1: "run_steps step (Suc 0) c = step c"
  by (cases "step c") simp_all

lemma run_steps_few:
  "run_steps step 2 c = Option.bind (step c) step"
  "run_steps step 3 c = Option.bind (Option.bind (step c) step) step"
  by (simp_all add: numeral_2_eq_2 numeral_3_eq_3 run_steps_1 Option.bind_assoc
      del: One_nat_def) (simp_all add: run_steps_1 fun_eq_iff cong: Option.bind_cong)

text \<open>Tables that grow downward from the end of the space.\<close>

definition down_entry :: "uword \<Rightarrow> nat \<Rightarrow> nat \<Rightarrow> uword" where
  "down_entry END w index = END - of_nat ((index + 1) * w)"

lemma down_entry_slot:
  assumes "i < n"
  shows "down_entry END w i = (END - of_nat (n * w)) + of_nat ((n - 1 - i) * w)"
proof -
  have "(n - 1 - i) * w + (i + 1) * w = n * w"
    using assms by (auto simp: algebra_simps dest!: less_imp_Suc_add)
  then have "(of_nat ((n - 1 - i) * w) :: uword) + of_nat ((i + 1) * w) = of_nat (n * w)"
    by (metis of_nat_add)
  then show ?thesis by (simp add: down_entry_def algebra_simps)
qed

lemma down_slots_disjoint:
  assumes "i < n" and "j < n" and "i \<noteq> j" and "n * w < 2 ^ 64"
  shows "cell (down_entry END w i) w \<inter> cell (down_entry END w j) w = {}"
  unfolding down_entry_slot[OF assms(1)] down_entry_slot[OF assms(2)]
  by (rule slots_disjoint[of _ n]) (use assms in auto)

section \<open>64-bit ARM\<close>

definition ENTRY_SIZE_arm64 :: nat where
  "ENTRY_SIZE_arm64 = 16"

definition LINKAGE_TEMP_REG_arm64 :: u32 where
  "LINKAGE_TEMP_REG_arm64 = 9"

definition arm64_entry :: "uword \<Rightarrow> nat \<Rightarrow> uword" where
  "arm64_entry START index = START + of_nat (index * ENTRY_SIZE_arm64)"

definition write_linkage_entry_arm64 :: "uword \<Rightarrow> bytes \<Rightarrow> nat \<Rightarrow> uword \<Rightarrow> bool \<Rightarrow> bytes" where
  "write_linkage_entry_arm64 START m index target_addr datap =
     (let reloc_addr = arm64_entry START index
      in if datap then store_le 8 m reloc_addr target_addr
         else let inst_ptr = reloc_addr;
                  inst = 0x58000000 OR push_bit 5 2 OR LINKAGE_TEMP_REG_arm64;
                  m = store32 m inst_ptr inst;
                  inst_ptr = inst_ptr + 4;
                  inst = 0xD61F0000 OR push_bit 5 LINKAGE_TEMP_REG_arm64;
                  m = store32 m inst_ptr inst;
                  inst_ptr = inst_ptr + 4
              in store_le 8 m inst_ptr target_addr)"

definition jumps_to_arm64 :: "bytes \<Rightarrow> uword \<Rightarrow> uword \<Rightarrow> bool" where
  "jumps_to_arm64 m a t \<longleftrightarrow>
     (\<forall>c. a64_mem c = m \<and> a64_pc c = a \<longrightarrow> map_option a64_pc (run_steps a64_step 2 c) = Some t)"

interpretation arm64: linkage_table "arm64_entry START" ENTRY_SIZE_arm64
  "ALIEN_LINKAGE_SPACE_SIZE div ENTRY_SIZE_arm64" "write_linkage_entry_arm64 START" jumps_to_arm64
  "\<lambda>t. True" for START
proof unfold_locales
  show "8 \<le> ENTRY_SIZE_arm64" "ENTRY_SIZE_arm64 < 2 ^ 64" by (simp_all add: ENTRY_SIZE_arm64_def)
  show "cell (arm64_entry START i) ENTRY_SIZE_arm64 \<inter> cell (arm64_entry START j) ENTRY_SIZE_arm64 = {}"
    if "i < ALIEN_LINKAGE_SPACE_SIZE div ENTRY_SIZE_arm64"
      "j < ALIEN_LINKAGE_SPACE_SIZE div ENTRY_SIZE_arm64" "i \<noteq> j" for i j
    unfolding arm64_entry_def
    by (rule slots_disjoint[OF that]) (simp add: ALIEN_LINKAGE_SPACE_SIZE_def ENTRY_SIZE_arm64_def)
  show "write_linkage_entry_arm64 START m i t is_data x = m x"
    if "x \<notin> cell (arm64_entry START i) ENTRY_SIZE_arm64" for m i t is_data x
    using store_le_frame[OF that, of 0] store_le_frame[OF that]
    unfolding write_linkage_entry_arm64_def Let_def by (simp add: ENTRY_SIZE_arm64_def add.assoc)
  show "load_le 8 (write_linkage_entry_arm64 START m i t True) (arm64_entry START i) = t" for m i t
    by (simp add: write_linkage_entry_arm64_def load_store_same)
  show "jumps_to_arm64 m' (arm64_entry START i) t"
    if c: "\<forall>x \<in> cell (arm64_entry START i) ENTRY_SIZE_arm64.
      m' x = write_linkage_entry_arm64 START m i t False x" for m m' i t
  proof -
    let ?a = "arm64_entry START i" and ?w = "write_linkage_entry_arm64 START m i t False"
    have "ENTRY_SIZE_arm64 < 2 ^ 64" by (simp add: ENTRY_SIZE_arm64_def)
    note l = entry_loads[OF c this, unfolded ENTRY_SIZE_arm64_def]
    have w: "load32 ?w ?a = 0x58000049" "load32 ?w (?a + 4) = 0xD61F0120" "load_le 8 ?w (?a + 8) = t"
      by (simp_all add: write_linkage_entry_arm64_def Let_def load_layout LINKAGE_TEMP_REG_arm64_def
          push_bit_eq_mult add.assoc)
    have "load32 m' ?a = 0x58000049" "load32 m' (?a + 4) = 0xD61F0120" "load_le 8 m' (?a + 8) = t"
      using l(1)[of 4] l(2)[of 4 4] l(2)[of 8 8] w by simp_all
    then show ?thesis
      unfolding jumps_to_arm64_def run_steps_few by (auto simp: trampoline_steps)
  qed
qed

section \<open>LoongArch\<close>

definition ENTRY_SIZE_la :: nat where
  "ENTRY_SIZE_la = 32"

definition LINKAGE_TEMP_REG_la :: u32 where
  "LINKAGE_TEMP_REG_la = 12"

definition write_linkage_entry_la :: "uword \<Rightarrow> bytes \<Rightarrow> nat \<Rightarrow> uword \<Rightarrow> bool \<Rightarrow> bytes" where
  "write_linkage_entry_la END m index target_addr datap =
     (let reloc_addr = down_entry END ENTRY_SIZE_la index
      in if datap then store_le 8 m reloc_addr target_addr
         else let inst_ptr = reloc_addr;
                  inst = 0x1C000000 OR LINKAGE_TEMP_REG_la;
                  m = store32 m inst_ptr inst;
                  inst_ptr = inst_ptr + 4;
                  inst = 0x28C00000 OR push_bit 5 LINKAGE_TEMP_REG_la OR LINKAGE_TEMP_REG_la
                           OR push_bit 10 12;
                  m = store32 m inst_ptr inst;
                  inst_ptr = inst_ptr + 4;
                  inst = 0x4C000000 OR push_bit 5 LINKAGE_TEMP_REG_la;
                  m = store32 m inst_ptr inst;
                  inst_ptr = inst_ptr + 4
              in store_le 8 m inst_ptr target_addr)"

definition jumps_to_la :: "bytes \<Rightarrow> uword \<Rightarrow> uword \<Rightarrow> bool" where
  "jumps_to_la m a t \<longleftrightarrow>
     (\<forall>c. la_mem c = m \<and> la_pc c = a \<longrightarrow> map_option la_pc (run_steps la_step 3 c) = Some t)"

lemma entry_la_steps:
  assumes "load32 (la_mem t) (la_pc t) = 0x1C00000C"
    and "load32 (la_mem t) (la_pc t + 4) = 0x28C0318C"
    and "load32 (la_mem t) (la_pc t + 8) = 0x4C000180"
    and "load_le 8 (la_mem t) (la_pc t + 12) = v"
  shows "map_option la_pc (run_steps la_step 3 t) = Some v"
proof -
  have "la_step t = Some (la_set_pc (la_pc t + 4) (la_set_reg 12 (la_pc t) t))"
    using assms(1) by (simp add: la_step_def la_exec_def write_reg_def Let_def)
  moreover have "la_step (la_set_pc (la_pc t + 4) (la_set_reg 12 (la_pc t) t)) =
      Some (la_set_pc (la_pc t + 8) (la_set_reg 12 v t))"
    using assms(2,4) by (simp add: la_step_def la_exec_def write_reg_def Let_def)
  moreover have "la_step (la_set_pc (la_pc t + 8) (la_set_reg 12 v t)) =
      Some (la_set_pc v (la_set_reg 12 v t))"
    using assms(3) by (simp add: la_step_def la_exec_def write_reg_def Let_def)
  ultimately show ?thesis unfolding run_steps_few by simp
qed

interpretation loongarch: linkage_table "down_entry END ENTRY_SIZE_la" ENTRY_SIZE_la
  "ALIEN_LINKAGE_SPACE_SIZE div ENTRY_SIZE_la" "write_linkage_entry_la END" jumps_to_la
  "\<lambda>t. True" for END
proof unfold_locales
  show w: "8 \<le> ENTRY_SIZE_la" "ENTRY_SIZE_la < 2 ^ 64" by (simp_all add: ENTRY_SIZE_la_def)
  show "cell (down_entry END ENTRY_SIZE_la i) ENTRY_SIZE_la \<inter>
      cell (down_entry END ENTRY_SIZE_la j) ENTRY_SIZE_la = {}"
    if "i < ALIEN_LINKAGE_SPACE_SIZE div ENTRY_SIZE_la"
      "j < ALIEN_LINKAGE_SPACE_SIZE div ENTRY_SIZE_la" "i \<noteq> j" for i j
    by (rule down_slots_disjoint[OF that]) (simp add: ALIEN_LINKAGE_SPACE_SIZE_def ENTRY_SIZE_la_def)
  show "write_linkage_entry_la END m i t is_data x = m x"
    if "x \<notin> cell (down_entry END ENTRY_SIZE_la i) ENTRY_SIZE_la" for m i t is_data x
    using store_le_frame[OF that, of 0] store_le_frame[OF that]
    unfolding write_linkage_entry_la_def Let_def by (simp add: ENTRY_SIZE_la_def add.assoc)
  show "load_le 8 (write_linkage_entry_la END m i t True) (down_entry END ENTRY_SIZE_la i) = t" for m i t
    by (simp add: write_linkage_entry_la_def load_store_same)
  show "jumps_to_la m' (down_entry END ENTRY_SIZE_la i) t"
    if c: "\<forall>x \<in> cell (down_entry END ENTRY_SIZE_la i) ENTRY_SIZE_la.
      m' x = write_linkage_entry_la END m i t False x" for m m' i t
  proof -
    let ?a = "down_entry END ENTRY_SIZE_la i" and ?w = "write_linkage_entry_la END m i t False"
    note l = entry_loads[OF c w(2)]
    have r: "load32 ?w ?a = 0x1C00000C" "load32 ?w (?a + 4) = 0x28C0318C"
      "load32 ?w (?a + 8) = 0x4C000180" "load_le 8 ?w (?a + 12) = t"
      by (simp_all add: write_linkage_entry_la_def Let_def load_layout LINKAGE_TEMP_REG_la_def
          push_bit_eq_mult add.assoc)
    have "load32 m' ?a = 0x1C00000C" "load32 m' (?a + 4) = 0x28C0318C"
      "load32 m' (?a + 8) = 0x4C000180" "load_le 8 m' (?a + 12) = t"
      using l(1)[of 4] l(2)[of 4 4] l(2)[of 8 4] l(2)[of 12 8] r
      by (simp_all add: ENTRY_SIZE_la_def)
    then show ?thesis unfolding jumps_to_la_def by (auto simp: entry_la_steps)
  qed
qed

section \<open>64-bit RISC-V\<close>

definition ENTRY_SIZE_riscv :: nat where
  "ENTRY_SIZE_riscv = 24"

definition LINKAGE_TEMP_REG_riscv :: u32 where
  "LINKAGE_TEMP_REG_riscv = 5"

definition WORD_SHIFT_riscv :: nat where
  "WORD_SHIFT_riscv = 3"

definition write_linkage_entry_riscv :: "uword \<Rightarrow> bytes \<Rightarrow> nat \<Rightarrow> uword \<Rightarrow> bool \<Rightarrow> bytes" where
  "write_linkage_entry_riscv END m index target_addr datap =
     (let reloc_addr = down_entry END ENTRY_SIZE_riscv index
      in if datap then store_le 8 m reloc_addr target_addr
         else let inst_ptr = reloc_addr;
                  inst = 0x17 OR push_bit 7 LINKAGE_TEMP_REG_riscv;
                  m = store32 m inst_ptr inst;
                  inst_ptr = inst_ptr + 4;
                  inst = 0x3 OR push_bit 7 LINKAGE_TEMP_REG_riscv OR push_bit 12 (of_nat WORD_SHIFT_riscv)
                           OR push_bit 15 LINKAGE_TEMP_REG_riscv OR push_bit 20 12;
                  m = store32 m inst_ptr inst;
                  inst_ptr = inst_ptr + 4;
                  inst = 0x67 OR push_bit 15 LINKAGE_TEMP_REG_riscv;
                  m = store32 m inst_ptr inst;
                  inst_ptr = inst_ptr + 4
              in store_le 8 m inst_ptr target_addr)"

text \<open>
  The instructions \<open>auipc\<close>, \<open>ld\<close> and \<open>jalr\<close>: register 0 is never written, and
  a jump clears the lowest bit of its target.
\<close>

record rv_context =
  rv_pc :: uword
  rv_regs :: "u32 \<Rightarrow> uword"
  rv_mem :: "uword \<Rightarrow> u8"

definition rv_write :: "u32 \<Rightarrow> uword \<Rightarrow> rv_context \<Rightarrow> rv_context" where
  "rv_write rd v c = (if rd = 0 then c else c\<lparr>rv_regs := (rv_regs c)(rd := v)\<rparr>)"

definition rv_step :: "rv_context \<Rightarrow> rv_context option" where
  "rv_step c =
     (let w = load32 (rv_mem c) (rv_pc c);
          opcode = w AND 0x7f; rd = drop_bit 7 w AND 0x1f; funct3 = drop_bit 12 w AND 7;
          rs1 = drop_bit 15 w AND 0x1f;
          imm20 = scast (w AND 0xFFFFF000);
          imm12 = word_of_int (sint (ucast (drop_bit 20 w) :: 12 word))
      in if opcode = 0x17 then Some ((rv_write rd (rv_pc c + imm20) c)\<lparr>rv_pc := rv_pc c + 4\<rparr>)
         else if opcode = 0x03 \<and> funct3 = 3 then
           Some ((rv_write rd (load_le 8 (rv_mem c) (rv_regs c rs1 + imm12)) c)\<lparr>rv_pc := rv_pc c + 4\<rparr>)
         else if opcode = 0x67 \<and> funct3 = 0 then
           Some ((rv_write rd (rv_pc c + 4) c)\<lparr>rv_pc := (rv_regs c rs1 + imm12) AND NOT 1\<rparr>)
         else None)"

definition jumps_to_riscv :: "bytes \<Rightarrow> uword \<Rightarrow> uword \<Rightarrow> bool" where
  "jumps_to_riscv m a t \<longleftrightarrow>
     (\<forall>c. rv_mem c = m \<and> rv_pc c = a \<longrightarrow> map_option rv_pc (run_steps rv_step 3 c) = Some t)"

lemma entry_riscv_steps:
  assumes "load32 (rv_mem t) (rv_pc t) = 0x297"
    and "load32 (rv_mem t) (rv_pc t + 4) = 0xC2B283"
    and "load32 (rv_mem t) (rv_pc t + 8) = 0x28067"
    and "load_le 8 (rv_mem t) (rv_pc t + 12) = v"
  shows "map_option rv_pc (run_steps rv_step 3 t) = Some (v AND NOT 1)"
proof -
  let ?set = "\<lambda>p v. t\<lparr>rv_regs := (rv_regs t)(5 := v), rv_pc := p\<rparr>"
  have "rv_step t = Some (?set (rv_pc t + 4) (rv_pc t))"
    using assms(1) by (simp add: rv_step_def rv_write_def Let_def)
  moreover have "rv_step (?set (rv_pc t + 4) (rv_pc t)) = Some (?set (rv_pc t + 8) v)"
    using assms(2,4) by (simp add: rv_step_def rv_write_def Let_def)
  moreover have "rv_step (?set (rv_pc t + 8) v) = Some (?set (v AND NOT 1) v)"
    using assms(3) by (simp add: rv_step_def rv_write_def Let_def)
  ultimately show ?thesis unfolding run_steps_few by simp
qed

interpretation riscv: linkage_table "down_entry END ENTRY_SIZE_riscv" ENTRY_SIZE_riscv
  "ALIEN_LINKAGE_SPACE_SIZE div ENTRY_SIZE_riscv" "write_linkage_entry_riscv END" jumps_to_riscv
  "\<lambda>t. t AND NOT 1 = t" for END
proof unfold_locales
  show w: "8 \<le> ENTRY_SIZE_riscv" "ENTRY_SIZE_riscv < 2 ^ 64" by (simp_all add: ENTRY_SIZE_riscv_def)
  show "cell (down_entry END ENTRY_SIZE_riscv i) ENTRY_SIZE_riscv \<inter>
      cell (down_entry END ENTRY_SIZE_riscv j) ENTRY_SIZE_riscv = {}"
    if "i < ALIEN_LINKAGE_SPACE_SIZE div ENTRY_SIZE_riscv"
      "j < ALIEN_LINKAGE_SPACE_SIZE div ENTRY_SIZE_riscv" "i \<noteq> j" for i j
    by (rule down_slots_disjoint[OF that]) (simp add: ALIEN_LINKAGE_SPACE_SIZE_def ENTRY_SIZE_riscv_def)
  show "write_linkage_entry_riscv END m i t is_data x = m x"
    if "x \<notin> cell (down_entry END ENTRY_SIZE_riscv i) ENTRY_SIZE_riscv" for m i t is_data x
    using store_le_frame[OF that, of 0] store_le_frame[OF that]
    unfolding write_linkage_entry_riscv_def Let_def by (simp add: ENTRY_SIZE_riscv_def add.assoc)
  show "load_le 8 (write_linkage_entry_riscv END m i t True) (down_entry END ENTRY_SIZE_riscv i) = t"
    for m i t
    by (simp add: write_linkage_entry_riscv_def load_store_same)
  show "jumps_to_riscv m' (down_entry END ENTRY_SIZE_riscv i) t"
    if t: "t AND NOT 1 = t" and c: "\<forall>x \<in> cell (down_entry END ENTRY_SIZE_riscv i) ENTRY_SIZE_riscv.
      m' x = write_linkage_entry_riscv END m i t False x" for m m' i t
  proof -
    let ?a = "down_entry END ENTRY_SIZE_riscv i" and ?w = "write_linkage_entry_riscv END m i t False"
    note l = entry_loads[OF c w(2)]
    have r: "load32 ?w ?a = 0x297" "load32 ?w (?a + 4) = 0xC2B283"
      "load32 ?w (?a + 8) = 0x28067" "load_le 8 ?w (?a + 12) = t"
      by (simp_all add: write_linkage_entry_riscv_def Let_def load_layout LINKAGE_TEMP_REG_riscv_def
          WORD_SHIFT_riscv_def push_bit_eq_mult add.assoc)
    have "load32 m' ?a = 0x297" "load32 m' (?a + 4) = 0xC2B283"
      "load32 m' (?a + 8) = 0x28067" "load_le 8 m' (?a + 12) = t"
      using l(1)[of 4] l(2)[of 4 4] l(2)[of 8 4] l(2)[of 12 8] r
      by (simp_all add: ENTRY_SIZE_riscv_def)
    then show ?thesis using t unfolding jumps_to_riscv_def by (auto simp: entry_riscv_steps)
  qed
qed

end
