(* ===== verification/LinkagePpc.thy ===== *)
theory LinkagePpc
  imports LinkageRisc
begin

text \<open>
  Linkage table entries on 64-bit little-endian PowerPC (\<open>ppc-arch.c\<close>). An entry is seven
  instructions that build the address from its four halfwords; the entry of
  \<open>call_into_c\<close>, whose address the caller knows to be small, is the four instructions
  of the 32-bit port. \<open>call_into_c\<close> is the address of that assembly routine.
\<close>

definition ENTRY_SIZE_ppc64 :: nat where
  "ENTRY_SIZE_ppc64 = 28"

definition LINKAGE_TEMP_REG_ppc64 :: u32 where
  "LINKAGE_TEMP_REG_ppc64 = 20"

definition ppc64_entry :: "uword \<Rightarrow> nat \<Rightarrow> uword" where
  "ppc64_entry START index = START + of_nat (index * ENTRY_SIZE_ppc64)"

text \<open>Storing a sequence of instructions through \<open>*inst_ptr++ = inst\<close>.\<close>

fun emit :: "bytes \<Rightarrow> uword \<Rightarrow> u32 list \<Rightarrow> bytes" where
  "emit m inst_ptr [] = m"
| "emit m inst_ptr (inst # insts) = emit (store32 m inst_ptr inst) (inst_ptr + 4) insts"

definition long_entry_ppc64 :: "uword \<Rightarrow> u32 list" where
  "long_entry_ppc64 target_addr =
     (let a48 = ucast (drop_bit 48 target_addr AND 0xFFFF);
          a32 = ucast (drop_bit 32 target_addr AND 0xFFFF);
          a16 = ucast (drop_bit 16 target_addr AND 0xFFFF);
          a0 = ucast (target_addr AND 0xFFFF)
      in [push_bit 26 15 OR push_bit 21 12 OR push_bit 16 0 OR a48,
          push_bit 26 24 OR push_bit 21 12 OR push_bit 16 12 OR a32,
          push_bit 26 30 OR push_bit 21 12 OR push_bit 16 12 OR 0x07C6,
          push_bit 26 25 OR push_bit 21 12 OR push_bit 16 12 OR a16,
          push_bit 26 24 OR push_bit 21 12 OR push_bit 16 12 OR a0,
          push_bit 26 31 OR push_bit 21 12 OR push_bit 16 9 OR push_bit 1 467,
          push_bit 26 19 OR push_bit 21 20 OR push_bit 1 528])"

definition short_entry_ppc64 :: "uword \<Rightarrow> u32 list" where
  "short_entry_ppc64 target_addr =
     (let hi = target_addr;
          lo = hi AND 0xffff;
          hi = drop_bit 16 hi;
          r = LINKAGE_TEMP_REG_ppc64
      in [push_bit 26 15 OR push_bit 21 r OR push_bit 16 0 OR ucast hi,
          push_bit 26 24 OR push_bit 21 r OR push_bit 16 r OR ucast lo,
          push_bit 26 31 OR push_bit 21 r OR push_bit 16 9 OR push_bit 1 467,
          push_bit 26 19 OR push_bit 21 20 OR push_bit 1 528])"

definition write_linkage_entry_ppc64 ::
    "uword \<Rightarrow> uword \<Rightarrow> bytes \<Rightarrow> nat \<Rightarrow> uword \<Rightarrow> bool \<Rightarrow> bytes result" where
  "write_linkage_entry_ppc64 call_into_c START m index target_addr datap =
     (let reloc_addr = ppc64_entry START index
      in if datap then Inr (store_le 8 m reloc_addr target_addr)
         else if target_addr \<noteq> call_into_c then
           Inr (emit m reloc_addr (long_entry_ppc64 target_addr))
         else
           gc_assert (drop_bit 32 target_addr = 0)
             (Inr (emit m reloc_addr (short_entry_ppc64 target_addr))))"

section \<open>The instructions\<close>

text \<open>
  The six instructions an entry uses. The immediate of \<open>addis\<close> is shifted by 16 and
  sign-extended; \<open>0x07C6\<close> selects \<open>rldicr\<close> by 32 with mask end 31, a left shift
  by 32; \<open>bctr\<close> clears the two low bits of the count register.
\<close>

record ppc64_context =
  ppc_pc :: uword
  gpr :: "u32 \<Rightarrow> uword"
  count_reg :: uword
  ppc_mem :: "uword \<Rightarrow> u8"

definition ppc64_exec :: "u32 \<Rightarrow> ppc64_context \<Rightarrow> ppc64_context option" where
  "ppc64_exec w c =
     (let opcd = drop_bit 26 w; rt = drop_bit 21 w AND 0x1f; ra = drop_bit 16 w AND 0x1f;
          ui = (ucast (ucast w :: u16) :: uword);
          put = (\<lambda>r v. Some (c\<lparr>gpr := (gpr c)(r := v), ppc_pc := ppc_pc c + 4\<rparr>))
      in if opcd = 15 then
           put rt ((if ra = 0 then 0 else gpr c ra) + push_bit 16 (scast (ucast w :: u16)))
         else if opcd = 24 then put ra (gpr c rt OR ui)
         else if opcd = 25 then put ra (gpr c rt OR push_bit 16 ui)
         else if opcd = 30 \<and> w AND 0xffff = 0x07C6 then put ra (push_bit 32 (gpr c rt))
         else if opcd = 31 \<and> w AND 0x1fffff = 0x903A6 then
           Some (c\<lparr>count_reg := gpr c rt, ppc_pc := ppc_pc c + 4\<rparr>)
         else if w = 0x4E800420 then Some (c\<lparr>ppc_pc := count_reg c AND NOT 3\<rparr>)
         else None)"

definition ppc64_step :: "ppc64_context \<Rightarrow> ppc64_context option" where
  "ppc64_step c = ppc64_exec (load32 (ppc_mem c) (ppc_pc c)) c"

text \<open>Control enters at \<open>a\<close> and arrives at \<open>t\<close> after the instructions of one entry.\<close>

definition jumps_to_ppc64 :: "bytes \<Rightarrow> uword \<Rightarrow> uword \<Rightarrow> bool" where
  "jumps_to_ppc64 m a t \<longleftrightarrow>
     (\<forall>c. ppc_mem c = m \<and> ppc_pc c = a \<longrightarrow>
        (\<exists>n \<in> {4, 7}. map_option ppc_pc (run_steps ppc64_step n c) = Some t))"

section \<open>Instruction words with an immediate\<close>

lemma halfword:
  "ucast ((x :: uword) AND 0xFFFF) = (ucast (ucast x :: u16) :: u32)"
proof (rule bit_eqI)
  fix j assume "possible_bit TYPE(u32) j"
  have m: "(0xFFFF :: uword) = mask 16" by code_simp
  show "bit (ucast (x AND 0xFFFF) :: u32) j = bit (ucast (ucast x :: u16) :: u32) j"
    unfolding m by (cases "j < 16") (auto simp: bit_simps bit_mask_iff)
qed

lemma immediate_word:
  fixes x :: u16 and k :: u32
  assumes "drop_bit 16 w = k" and "(ucast w :: u16) = 0"
  shows "drop_bit 26 (w OR ucast x) = drop_bit 10 k"
    and "drop_bit 21 (w OR ucast x) = drop_bit 5 k"
    and "drop_bit 16 (w OR ucast x) = k"
    and "(ucast (w OR ucast x) :: u16) = x"
proof -
  have x: "\<not> bit x j" if "16 \<le> j" for j
    using bit_imp_le_length[of x j] that by auto
  have d: "drop_bit n (w OR ucast x) = drop_bit (n - 16) k" if "16 \<le> n" for n
  proof (rule bit_eqI)
    fix j
    show "bit (drop_bit n (w OR ucast x)) j = bit (drop_bit (n - 16) k) j"
      unfolding assms(1)[symmetric] drop_bit_drop_bit
      using that x[of "n + j"] by (simp add: bit_drop_bit_eq bit_or_iff bit_unsigned_iff)
  qed
  show "drop_bit 26 (w OR ucast x) = drop_bit 10 k" using d[of 26] by simp
  show "drop_bit 21 (w OR ucast x) = drop_bit 5 k" using d[of 21] by simp
  show "drop_bit 16 (w OR ucast x) = k" using d[of 16] by simp
  have "\<not> bit w j" if "j < 16" for j
    using arg_cong[OF assms(2), of "\<lambda>v. bit v j"] that by (simp add: bit_simps)
  then show "(ucast (w OR ucast x) :: u16) = x" by (auto intro!: bit_eqI simp: bit_simps)
qed

abbreviation put :: "u32 \<Rightarrow> uword \<Rightarrow> ppc64_context \<Rightarrow> ppc64_context" where
  "put r v c \<equiv> c\<lparr>gpr := (gpr c)(r := v), ppc_pc := ppc_pc c + 4\<rparr>"

lemma exec_addis:
  "drop_bit 16 w = 0x3D80 \<Longrightarrow> (ucast w :: u16) = 0 \<Longrightarrow>
    ppc64_exec (w OR ucast (x :: u16)) c = Some (put 12 (push_bit 16 (scast x)) c)"
  "drop_bit 16 w = 0x3E80 \<Longrightarrow> (ucast w :: u16) = 0 \<Longrightarrow>
    ppc64_exec (w OR ucast (x :: u16)) c = Some (put 20 (push_bit 16 (scast x)) c)"
  by (simp_all only: ppc64_exec_def Let_def immediate_word) simp_all

lemma exec_ori:
  "drop_bit 16 w = 0x618C \<Longrightarrow> (ucast w :: u16) = 0 \<Longrightarrow>
    ppc64_exec (w OR ucast (x :: u16)) c = Some (put 12 (gpr c 12 OR ucast x) c)"
  "drop_bit 16 w = 0x6294 \<Longrightarrow> (ucast w :: u16) = 0 \<Longrightarrow>
    ppc64_exec (w OR ucast (x :: u16)) c = Some (put 20 (gpr c 20 OR ucast x) c)"
  by (simp_all only: ppc64_exec_def Let_def immediate_word) simp_all

lemma exec_oris:
  "drop_bit 16 w = 0x658C \<Longrightarrow> (ucast w :: u16) = 0 \<Longrightarrow>
    ppc64_exec (w OR ucast (x :: u16)) c = Some (put 12 (gpr c 12 OR push_bit 16 (ucast x)) c)"
  by (simp_all only: ppc64_exec_def Let_def immediate_word) simp_all

lemma exec_fixed:
  "ppc64_exec 0x798C07C6 c = Some (put 12 (push_bit 32 (gpr c 12)) c)"
  "ppc64_exec 0x7D8903A6 c = Some (c\<lparr>count_reg := gpr c 12, ppc_pc := ppc_pc c + 4\<rparr>)"
  "ppc64_exec 0x7E8903A6 c = Some (c\<lparr>count_reg := gpr c 20, ppc_pc := ppc_pc c + 4\<rparr>)"
  "ppc64_exec 0x4E800420 c = Some (c\<lparr>ppc_pc := count_reg c AND NOT 3\<rparr>)"
  by (simp_all add: ppc64_exec_def Let_def)

text \<open>The words of the two entries.\<close>

lemma long_entry_words:
  "long_entry_ppc64 t =
    [0x3D800000 OR ucast (ucast (drop_bit 48 t) :: u16), 0x618C0000 OR ucast (ucast (drop_bit 32 t) :: u16),
     0x798C07C6, 0x658C0000 OR ucast (ucast (drop_bit 16 t) :: u16), 0x618C0000 OR ucast (ucast t :: u16),
     0x7D8903A6, 0x4E800420]"
proof -
  have c: "push_bit 26 15 OR push_bit 21 12 OR push_bit 16 0 = (0x3D800000 :: u32)"
    "push_bit 26 24 OR push_bit 21 12 OR push_bit 16 12 = (0x618C0000 :: u32)"
    "push_bit 26 25 OR push_bit 21 12 OR push_bit 16 12 = (0x658C0000 :: u32)"
    "push_bit 26 30 OR push_bit 21 12 OR push_bit 16 12 OR 0x07C6 = (0x798C07C6 :: u32)"
    "push_bit 26 31 OR push_bit 21 12 OR push_bit 16 9 OR push_bit 1 467 = (0x7D8903A6 :: u32)"
    "push_bit 26 19 OR push_bit 21 20 OR push_bit 1 528 = (0x4E800420 :: u32)"
    by code_simp+
  show ?thesis
    unfolding long_entry_ppc64_def Let_def halfword
    unfolding or.assoc[symmetric] c[unfolded or.assoc[symmetric]] ..
qed

lemma short_entry_words:
  assumes "drop_bit 32 t = 0"
  shows "short_entry_ppc64 t =
    [0x3E800000 OR ucast (ucast (drop_bit 16 t) :: u16), 0x62940000 OR ucast (ucast t :: u16),
     0x7E8903A6, 0x4E800420]"
proof -
  have t: "\<not> bit t j" if "32 \<le> j" for j
    using arg_cong[OF assms, of "\<lambda>v. bit v (j - 32)"] that by (simp add: bit_simps)
  have h: "(ucast (drop_bit 16 t) :: u32) = ucast (ucast (drop_bit 16 t) :: u16)"
  proof (rule bit_eqI)
    fix j
    show "bit (ucast (drop_bit 16 t) :: u32) j = bit (ucast (ucast (drop_bit 16 t) :: u16) :: u32) j"
      using t[of "16 + j"] by (cases "j < 16") (auto simp: bit_simps)
  qed
  have c: "push_bit 26 15 OR push_bit 21 20 OR push_bit 16 0 = (0x3E800000 :: u32)"
    "push_bit 26 24 OR push_bit 21 20 OR push_bit 16 20 = (0x62940000 :: u32)"
    "push_bit 26 31 OR push_bit 21 20 OR push_bit 16 9 OR push_bit 1 467 = (0x7E8903A6 :: u32)"
    "push_bit 26 19 OR push_bit 21 20 OR push_bit 1 528 = (0x4E800420 :: u32)"
    by code_simp+
  show ?thesis
    unfolding short_entry_ppc64_def Let_def halfword h LINKAGE_TEMP_REG_ppc64_def
    unfolding or.assoc[symmetric] c[unfolded or.assoc[symmetric]] ..
qed

lemma address_from_halfwords:
  "((push_bit 48 (scast (ucast (drop_bit 48 t) :: u16)) OR push_bit 32 (ucast (ucast (drop_bit 32 t) :: u16)))
    OR push_bit 16 (ucast (ucast (drop_bit 16 t) :: u16))) OR ucast (ucast t :: u16) = (t :: uword)"
  (is "?l = t")
proof (rule bit_eqI)
  fix j assume "possible_bit TYPE(uword) j"
  then have "j < 64" by simp
  then show "bit ?l j = bit t j"
    by (cases "j < 16"; cases "j < 32"; cases "j < 48") (auto simp: bit_simps)
qed

lemma small_address_from_halfwords:
  assumes "unat t < 2 ^ 31"
  shows "push_bit 16 (scast (ucast (drop_bit 16 t) :: u16)) OR ucast (ucast t :: u16) = (t :: uword)"
  (is "?l = t")
proof (rule bit_eqI)
  fix j assume "possible_bit TYPE(uword) j"
  then have j: "j < 64" by simp
  have "t = take_bit 31 t" using assms by (simp add: word_unat_eq_iff unsigned_take_bit_eq take_bit_nat_eq_self)
  then have "\<not> bit t i" if "31 \<le> i" for i
    using that by (metis bit_take_bit_iff not_less)
  then show "bit ?l j = bit t j"
    using j by (cases "j < 16"; cases "j < 32") (auto simp: bit_simps)
qed

section \<open>Running an entry\<close>

lemma emit_frame:
  "4 * length l < 2 ^ 64 \<Longrightarrow> x \<notin> cell a (4 * length l) \<Longrightarrow> emit m a l x = m x"
proof (induction l arbitrary: m a)
  case (Cons inst l)
  let ?w = "4 * length (inst # l)"
  have "x \<notin> cell (a + 4) (4 * length l)"
  proof
    assume "x \<in> cell (a + 4) (4 * length l)"
    then have "unat (x - a - 4) < 4 * length l" by (simp add: cell_def diff_diff_add)
    moreover have "unat (x - a) \<le> unat (x - a - 4) + 4"
      using unat_plus_if'[of "x - a - 4" 4] by (simp split: if_splits)
    ultimately show False using Cons.prems(2) by (simp add: cell_def)
  qed
  moreover have "store32 m a inst x = m x"
    using store_le_frame[of x a ?w 0 4] Cons.prems by simp
  ultimately show ?case using Cons by simp
qed simp

lemma emit_loads:
  "i < length l \<Longrightarrow> 4 * length l < 2 ^ 32 \<Longrightarrow>
    load32 (emit m a l) (a + of_nat (4 * i)) = l ! i"
proof (induction l arbitrary: m a i)
  case (Cons inst l)
  show ?case
  proof (cases i)
    case 0
    have d: "cell a 4 \<inter> cell (a + 4) (4 * length l) = {}"
      using cell_offset_disjoint[of 0 4 4 "4 * length l" a] Cons.prems(2) by simp
    have "load_le 4 (emit (store32 m a inst) (a + 4) l) a = load_le 4 (store32 m a inst) a"
      by (rule load_le_cong) (use d Cons.prems(2) in \<open>auto intro!: emit_frame\<close>)
    then show ?thesis using 0 by (simp add: load32_store32_same)
  next
    case (Suc k)
    have "load32 (emit (store32 m a inst) (a + 4) l) (a + 4 + of_nat (4 * k)) = l ! k"
      using Cons Suc by simp
    then show ?thesis using Suc by (simp add: algebra_simps)
  qed
qed simp

lemma ppc64_step_at:
  "load32 (ppc_mem c) (ppc_pc c) = w \<Longrightarrow> ppc64_step c = ppc64_exec w c"
  by (simp add: ppc64_step_def)

lemma run_steps_more:
  "run_steps step (numeral k) c = Option.bind (step c) (run_steps step (pred_numeral k))"
  by (simp add: numeral_eq_Suc)

lemma entry_words:
  assumes "\<forall>x \<in> cell a ENTRY_SIZE_ppc64. m' x = emit m a l x" and "length l \<le> 7" and "i < length l"
  shows "load32 m' (a + of_nat (4 * i)) = l ! i"
proof -
  have w: "ENTRY_SIZE_ppc64 < 2 ^ 64" by (simp add: ENTRY_SIZE_ppc64_def)
  have i: "unat (of_nat (4 * i) :: uword) = 4 * i"
    using assms(2,3) by (intro unat_of_nat_bound) simp
  have "load_le 4 m' (a + of_nat (4 * i)) = load_le 4 (emit m a l) (a + of_nat (4 * i))"
    by (rule entry_loads(2)[OF assms(1) w]) (unfold i, use assms(2,3) in \<open>simp add: ENTRY_SIZE_ppc64_def\<close>)
  then show ?thesis using emit_loads[OF assms(3), of m a] assms(2) by simp
qed

lemma long_entry_runs:
  assumes "\<forall>x \<in> cell a ENTRY_SIZE_ppc64. m' x = emit m a (long_entry_ppc64 t) x"
    and "ppc_mem c = m'" and "ppc_pc c = a"
  shows "map_option ppc_pc (run_steps ppc64_step 7 c) = Some (t AND NOT 3)"
proof -
  let ?l = "long_entry_ppc64 t"
  have "length ?l = 7" by (simp add: long_entry_words)
  then have w: "i < 7 \<Longrightarrow> load32 m' (a + of_nat (4 * i)) = ?l ! i" for i
    by (intro entry_words[OF assms(1)]) simp_all
  note w = w[of 0] w[of 1] w[of 2] w[of 3] w[of 4] w[of 5] w[of 6]
  note words = w[unfolded long_entry_words, simplified]
  show ?thesis
    using assms(2,3) words
    by (simp add: run_steps_more run_steps_1 ppc64_step_at exec_addis exec_ori exec_oris exec_fixed
        address_from_halfwords add.assoc)
qed

lemma short_entry_runs:
  assumes "\<forall>x \<in> cell a ENTRY_SIZE_ppc64. m' x = emit m a (short_entry_ppc64 t) x"
    and "unat t < 2 ^ 31" and "ppc_mem c = m'" and "ppc_pc c = a"
  shows "map_option ppc_pc (run_steps ppc64_step 4 c) = Some (t AND NOT 3)"
proof -
  let ?l = "short_entry_ppc64 t"
  have z: "drop_bit 32 t = 0"
    using assms(2) by (simp add: word_unat_eq_iff unat_drop_bit_eq drop_bit_nat_def)
  have "length ?l = 4" by (simp add: short_entry_words[OF z])
  then have w: "i < 4 \<Longrightarrow> load32 m' (a + of_nat (4 * i)) = ?l ! i" for i
    by (intro entry_words[OF assms(1)]) simp_all
  note w = w[of 0] w[of 1] w[of 2] w[of 3]
  note words = w[unfolded short_entry_words[OF z], simplified]
  show ?thesis
    using assms(3,4) words
    by (simp add: run_steps_more run_steps_1 ppc64_step_at exec_addis exec_ori exec_fixed
        small_address_from_halfwords[OF assms(2)] add.assoc)
qed

text \<open>The writer as a total function, for the interface: an assertion that fails ends the process.\<close>

definition written_ppc64 :: "uword \<Rightarrow> uword \<Rightarrow> bytes \<Rightarrow> nat \<Rightarrow> uword \<Rightarrow> bool \<Rightarrow> bytes" where
  "written_ppc64 call_into_c START m index target_addr datap =
     (case write_linkage_entry_ppc64 call_into_c START m index target_addr datap of
        Inl _ \<Rightarrow> m | Inr m' \<Rightarrow> m')"

definition encodable_ppc64 :: "uword \<Rightarrow> uword \<Rightarrow> bool" where
  "encodable_ppc64 call_into_c t \<longleftrightarrow> t AND NOT 3 = t \<and> (t = call_into_c \<longrightarrow> unat t < 2 ^ 31)"

lemma written_ppc64_cases:
  assumes "encodable_ppc64 call_into_c t"
  shows "written_ppc64 call_into_c START m i t False =
    emit m (ppc64_entry START i) (if t = call_into_c then short_entry_ppc64 t else long_entry_ppc64 t)"
proof -
  have "drop_bit 32 t = 0" if "t = call_into_c"
    using that assms
    by (simp add: encodable_ppc64_def word_unat_eq_iff unat_drop_bit_eq drop_bit_nat_def)
  then show ?thesis
    by (auto simp: written_ppc64_def write_linkage_entry_ppc64_def gc_assert_def Let_def)
qed

lemma written_ppc64_frame:
  assumes x: "x \<notin> cell (ppc64_entry START i) ENTRY_SIZE_ppc64"
  shows "written_ppc64 call_into_c START m i t d x = m x"
proof -
  have e: "emit m (ppc64_entry START i) l x = m x" if "length l \<le> 7" for l
    using that x by (intro emit_frame) (auto simp: cell_def ENTRY_SIZE_ppc64_def)
  have s: "store_le 8 m (ppc64_entry START i) t x = m x"
    using store_le_frame[OF x, of 0 8] by (simp add: ENTRY_SIZE_ppc64_def)
  have "length (long_entry_ppc64 t) \<le> 7" "length (short_entry_ppc64 t) \<le> 7"
    by (simp_all add: long_entry_ppc64_def short_entry_ppc64_def Let_def)
  then show ?thesis
    using e s by (auto simp: written_ppc64_def write_linkage_entry_ppc64_def gc_assert_def Let_def)
qed

interpretation ppc64: linkage_table "ppc64_entry START" ENTRY_SIZE_ppc64
  "ALIEN_LINKAGE_SPACE_SIZE div ENTRY_SIZE_ppc64" "written_ppc64 call_into_c START" jumps_to_ppc64
  "encodable_ppc64 call_into_c" for call_into_c START
proof unfold_locales
  show "8 \<le> ENTRY_SIZE_ppc64" "ENTRY_SIZE_ppc64 < 2 ^ 64" by (simp_all add: ENTRY_SIZE_ppc64_def)
  show "cell (ppc64_entry START i) ENTRY_SIZE_ppc64 \<inter> cell (ppc64_entry START j) ENTRY_SIZE_ppc64 = {}"
    if "i < ALIEN_LINKAGE_SPACE_SIZE div ENTRY_SIZE_ppc64"
      "j < ALIEN_LINKAGE_SPACE_SIZE div ENTRY_SIZE_ppc64" "i \<noteq> j" for i j
    unfolding ppc64_entry_def
    by (rule slots_disjoint[OF that]) (simp add: ALIEN_LINKAGE_SPACE_SIZE_def ENTRY_SIZE_ppc64_def)
  show "load_le 8 (written_ppc64 call_into_c START m i t True) (ppc64_entry START i) = t" for m i t
    by (simp add: written_ppc64_def write_linkage_entry_ppc64_def load_store_same)
  show "jumps_to_ppc64 m' (ppc64_entry START i) t"
    if "encodable_ppc64 call_into_c t" and "\<forall>x \<in> cell (ppc64_entry START i) ENTRY_SIZE_ppc64.
      m' x = written_ppc64 call_into_c START m i t False x" for m m' i t
    using that long_entry_runs[of "ppc64_entry START i" m' m t]
      short_entry_runs[of "ppc64_entry START i" m' m t]
    unfolding written_ppc64_cases[OF that(1)] jumps_to_ppc64_def encodable_ppc64_def
    by (cases "t = call_into_c") auto
qed (rule written_ppc64_frame)

text \<open>C21: On 64-bit little-endian PowerPC, whatever order the entries of the linkage table are
  written in, control that enters the entry of a function arrives at the function. \<open>earlier\<close> and
  \<open>later\<close> list the writes before and after that of entry \<open>i\<close> (index, address, whether it is data);
  the last write to entry \<open>i\<close> decides, the writes to other entries do not disturb it, and the
  seven instructions that build the address from its halfwords put exactly the address into the
  count register, for every address that is a multiple of four. So do the four instructions of
  the entry of \<open>call_into_c\<close> if that address is below \<open>2 ^ 31\<close>; the code's assertion also lets addresses below
  \<open>2 ^ 32\<close> pass, whose sign is then extended (lemma \<open>ppc64_short_entry_sign\<close>).\<close>

theorem ppc64_linkage_entries:
  assumes "\<forall>(j, u, d) \<in> set later. j \<noteq> i \<and> j < ALIEN_LINKAGE_SPACE_SIZE div ENTRY_SIZE_ppc64"
    and "i < ALIEN_LINKAGE_SPACE_SIZE div ENTRY_SIZE_ppc64"
    and "t AND NOT 3 = t" and "t = call_into_c \<longrightarrow> unat t < 2 ^ 31"
    and "m' = fold (\<lambda>(j, u, d) m. written_ppc64 call_into_c START m j u d)
      (earlier @ (i, t, False) # later) m"
  shows "jumps_to_ppc64 m' (ppc64_entry START i) t"
proof -
  let ?w = "\<lambda>(j, u, d) m. written_ppc64 call_into_c START m j u d"
  have keep: "ppc64.linked START call_into_c (fold ?w l m) i t False"
    if "\<forall>(j, u, d) \<in> set l. j \<noteq> i \<and> j < ALIEN_LINKAGE_SPACE_SIZE div ENTRY_SIZE_ppc64"
      and "ppc64.linked START call_into_c m i t False" for l m
    using that
  proof (induction l arbitrary: m)
    case (Cons w l)
    obtain j u d where w: "w = (j, u, d)" by (cases w) auto
    have "ppc64.linked START call_into_c (written_ppc64 call_into_c START m j u d) i t False"
      using Cons.prems assms(2) ppc64.write_keeps[of j i] unfolding w by auto
    then show ?case using Cons unfolding w by simp
  qed simp
  have "ppc64.linked START call_into_c m' i t False"
    unfolding assms(5) using keep[OF assms(1) ppc64.write_links] by simp
  then show ?thesis
    by (rule ppc64.linked_jumps) (unfold encodable_ppc64_def, use assms(3,4) in blast)
qed

theorem ppc64_linkage_entries_witness:
  "jumps_to_ppc64
     (written_ppc64 0x1000 0x4000000 (written_ppc64 0x1000 0x4000000 (\<lambda>_. 0) 0 0x7FFF0123456789A0 False)
        1 0x1000 False) 0x4000000 0x7FFF0123456789A0"
  using ppc64_linkage_entries[of "[(1, 0x1000, False)]" 0 "0x7FFF0123456789A0" "0x1000"
      "written_ppc64 0x1000 0x4000000 (written_ppc64 0x1000 0x4000000 (\<lambda>_. 0) 0 0x7FFF0123456789A0 False)
        1 0x1000 False" "0x4000000" "[]" "\<lambda>_. 0"]
  by (simp add: ALIEN_LINKAGE_SPACE_SIZE_def ENTRY_SIZE_ppc64_def ppc64_entry_def)

text \<open>
  The bound on \<open>call_into_c\<close>: the assertion admits 32 bits, but \<open>addis\<close> extends the sign, so
  that an address with bit 31 set comes out with the upper half all ones.
\<close>

lemma ppc64_short_entry_sign:
  "Option.bind (ppc64_exec (short_entry_ppc64 0x80000000 ! 0)
      \<lparr>ppc_pc = 0, gpr = (\<lambda>_. 0), count_reg = 0, ppc_mem = (\<lambda>_. 0)\<rparr>) (\<lambda>c. Some (gpr c 20)) =
    Some 0xFFFFFFFF80000000"
  by code_simp

end
