(* ===== verification/Tracing.thy ===== *)
theory Tracing
  imports Prelude
begin

text \<open>
  The interfaces of the mark phase: what a bounded queue promises to its client, and what the
  marking of one pointer promises to the loop that empties the queue. The loop is proved
  correct once, over the interface: it ends, and marks exactly what can be reached.
\<close>

section \<open>The interface\<close>

text \<open>Taking several elements from a queue, first to last.\<close>

fun take_from :: "('s \<Rightarrow> ('e \<times> 's) result) \<Rightarrow> nat \<Rightarrow> 's \<Rightarrow> ('e list \<times> 's) result" where
  "take_from deq 0 s = Inr ([], s)"
| "take_from deq (Suc n) s =
     rbind (deq s) (\<lambda>(x, s). rbind (take_from deq n s) (\<lambda>(xs, s). Inr (x # xs, s)))"

text \<open>
  What a client of a bounded queue may rely on: \<open>room\<close> is the number of elements the queue is
  certain to hold.
\<close>

locale bounded_queue =
  fixes valid :: "'s \<Rightarrow> bool"
    and contents :: "'s \<Rightarrow> 'e list"
    and room :: "'s \<Rightarrow> nat"
    and enq :: "'e \<Rightarrow> 's \<Rightarrow> 's result"
    and deq :: "'s \<Rightarrow> ('e \<times> 's) result"
  assumes enq_succeeds: "valid s \<Longrightarrow> length (contents s) < room s \<Longrightarrow> \<exists>t. enq x s = Inr t"
    and enq_contents: "valid s \<Longrightarrow> enq x s = Inr t \<Longrightarrow>
      valid t \<and> contents t = contents s @ [x] \<and> room t = room s"
    and deq_succeeds: "valid s \<Longrightarrow> contents s \<noteq> [] \<Longrightarrow> \<exists>x t. deq s = Inr (x, t)"
    and deq_empty: "valid s \<Longrightarrow> contents s = [] \<Longrightarrow> deq s = Inl Assert_failed"
    and deq_contents: "valid s \<Longrightarrow> deq s = Inr (x, t) \<Longrightarrow>
      valid t \<and> contents s = x # contents t \<and> room t = room s"
begin

lemma enq_all_succeeds:
  "valid s \<Longrightarrow> length (contents s) + length xs \<le> room s \<Longrightarrow>
   \<exists>t. for_each enq xs s = Inr t \<and> valid t \<and> contents t = contents s @ xs \<and> room t = room s"
proof (induction xs arbitrary: s)
  case (Cons x xs)
  then obtain t where t: "enq x s = Inr t" using enq_succeeds[of s x] by auto
  then have "valid t" "contents t = contents s @ [x]" "room t = room s"
    using enq_contents[OF Cons.prems(1)] by auto
  then show ?case using Cons.IH[of t] Cons.prems(2) t by auto
qed simp

lemma take_from_queue:
  "valid s \<Longrightarrow> contents s = xs @ ys \<Longrightarrow>
   \<exists>t. take_from deq (length xs) s = Inr (xs, t) \<and> valid t \<and> contents t = ys"
proof (induction xs arbitrary: s)
  case (Cons x xs)
  then obtain z t where t: "deq s = Inr (z, t)" using deq_succeeds[of s] by auto
  then have d: "valid t" "contents s = z # contents t" using deq_contents[OF Cons.prems(1)] by auto
  then have "z = x" "contents t = xs @ ys" using Cons.prems(2) by auto
  then show ?case using Cons.IH[of t] d(1) t by auto
qed simp

end

section \<open>The marking loop\<close>

text \<open>
  The loop \<open>do { object = dequeue; scan(object) } while (queue not empty)\<close>. Not ending is
  the value \<open>None\<close>.
\<close>

partial_function (option) drain ::
    "('s \<Rightarrow> ('e \<times> 's) result) \<Rightarrow> ('e \<Rightarrow> 's \<Rightarrow> 's result) \<Rightarrow> ('s \<Rightarrow> bool) \<Rightarrow> 's \<Rightarrow> 's result option"
  where
  "drain deq scan more s =
     (case rbind (deq s) (\<lambda>(x, s). scan x s) of
        Inl e \<Rightarrow> Some (Inl e)
      | Inr t \<Rightarrow> if more t then drain deq scan more t else Some (Inr t))"

text \<open>
  \<open>node p\<close> is the object whose mark decides for the pointer \<open>p\<close>, if it has one;
  \<open>slots x\<close> are the pointers found when \<open>x\<close> is scanned, which may also note something in the
  state first; \<open>leaf\<close> objects are marked but not queued. \<open>universe\<close> is a finite set of objects, \<open>proper\<close> the pointers that may occur,
  \<open>scannable\<close> the objects that may be queued.
\<close>

locale marking = bounded_queue valid contents room enq deq
  for valid :: "'s \<Rightarrow> bool" and contents :: "'s \<Rightarrow> 'e list" and room :: "'s \<Rightarrow> nat"
    and enq :: "'e \<Rightarrow> 's \<Rightarrow> 's result" and deq :: "'s \<Rightarrow> ('e \<times> 's) result" +
  fixes marked :: "'s \<Rightarrow> 'e set"
    and node :: "'p \<Rightarrow> 'e option"
    and slots :: "'e \<Rightarrow> 'p list"
    and leaf :: "'e \<Rightarrow> bool"
    and mark :: "'p \<Rightarrow> 's \<Rightarrow> 's result"
    and scan :: "'e \<Rightarrow> 's \<Rightarrow> 's result"
    and more :: "'s \<Rightarrow> bool"
    and universe :: "'e set"
    and proper :: "'p \<Rightarrow> bool"
    and scannable :: "'e \<Rightarrow> bool"
  assumes more_contents: "valid s \<Longrightarrow> more s \<longleftrightarrow> contents s \<noteq> []"
    and universe_finite: "valid s \<Longrightarrow> finite universe"
    and marked_universe: "valid s \<Longrightarrow> marked s \<subseteq> universe"
    and slots_proper: "valid s \<Longrightarrow> scannable x \<Longrightarrow> p \<in> set (slots x) \<Longrightarrow> proper p"
    and node_universe: "valid s \<Longrightarrow> proper p \<Longrightarrow> node p = Some x \<Longrightarrow> x \<in> universe \<and> scannable x"
    and enq_marked: "valid s \<Longrightarrow> enq x s = Inr t \<Longrightarrow> marked t = marked s"
    and deq_marked: "valid s \<Longrightarrow> deq s = Inr (x, t) \<Longrightarrow> marked t = marked s"
    and mark_nothing: "valid s \<Longrightarrow> proper p \<Longrightarrow> node p = None \<Longrightarrow> mark p s = Inr s"
    and mark_old: "valid s \<Longrightarrow> proper p \<Longrightarrow> node p = Some x \<Longrightarrow> x \<in> marked s \<Longrightarrow> mark p s = Inr s"
    and mark_new: "valid s \<Longrightarrow> proper p \<Longrightarrow> node p = Some x \<Longrightarrow> x \<notin> marked s \<Longrightarrow>
      length (contents s) < room s \<Longrightarrow>
      \<exists>t. mark p s = Inr t \<and> valid t \<and> marked t = insert x (marked s) \<and> room t = room s \<and>
          contents t = contents s @ (if leaf x then [] else [x])"
    and scan_slots: "valid s \<Longrightarrow> scannable x \<Longrightarrow>
      \<exists>t. scan x s = for_each mark (slots x) t \<and> valid t \<and> marked t = marked s \<and> room t = room s \<and>
          contents t = contents s"
begin

definition succs :: "'e \<Rightarrow> 'e set" where
  "succs x = {y. \<exists>p \<in> set (slots x). node p = Some y}"

text \<open>
  What can be reached from the slots of the objects \<open>Q\<close> and from the root objects \<open>B\<close>;
  leaves are not scanned.
\<close>

inductive_set reach :: "'e set \<Rightarrow> 'e set \<Rightarrow> 'e set" for Q B where
  reach_root: "x \<in> B \<Longrightarrow> x \<in> reach Q B"
| reach_start: "x \<in> Q \<Longrightarrow> y \<in> succs x \<Longrightarrow> y \<in> reach Q B"
| reach_step: "x \<in> reach Q B \<Longrightarrow> \<not> leaf x \<Longrightarrow> y \<in> succs x \<Longrightarrow> y \<in> reach Q B"

text \<open>
  The work that can still arise: every object is queued at most once, so it fits in the queue.
\<close>

definition budget :: "'s \<Rightarrow> nat" where
  "budget s = card (universe - marked s) + length (contents s)"

lemma mark_step:
  assumes v: "valid s" and p: "proper p" and b: "budget s \<le> room s"
  shows "\<exists>t new. mark p s = Inr t \<and> valid t \<and> room t = room s \<and> budget t \<le> budget s \<and>
    contents t = contents s @ new \<and> marked t = marked s \<union> set_option (node p) \<and>
    set new = {x \<in> set_option (node p) - marked s. \<not> leaf x}"
proof (cases "node p")
  case None
  then show ?thesis using mark_nothing[OF v p] v by (intro exI[of _ s] exI[of _ "[]"]) simp
next
  case (Some x)
  show ?thesis
  proof (cases "x \<in> marked s")
    case True
    then show ?thesis using mark_old[OF v p Some] v Some
      by (intro exI[of _ s] exI[of _ "[]"]) auto
  next
    case False
    have x: "x \<in> universe" using node_universe[OF v p Some] by simp
    have f: "finite (universe - marked s)" using universe_finite[OF v] by simp
    have c: "card (universe - insert x (marked s)) = card (universe - marked s) - 1"
      using x False f by (metis Diff_iff Diff_insert card_Diff_singleton)
    have pos: "0 < card (universe - marked s)" using x False f by (auto simp: card_gt_0_iff)
    then have "length (contents s) < room s" using b by (simp add: budget_def)
    then obtain t where t: "mark p s = Inr t" "valid t" "marked t = insert x (marked s)"
      "room t = room s" "contents t = contents s @ (if leaf x then [] else [x])"
      using mark_new[OF v p Some False] by blast
    then show ?thesis
      using c pos False Some
      by (intro exI[of _ t] exI[of _ "if leaf x then [] else [x]"]) (auto simp: budget_def)
  qed
qed

lemma marks_step:
  assumes "valid s" and "\<forall>p \<in> set ps. proper p" and "budget s \<le> room s"
  shows "\<exists>t new. for_each mark ps s = Inr t \<and> valid t \<and> room t = room s \<and> budget t \<le> budget s \<and>
    contents t = contents s @ new \<and> marked t = marked s \<union> {y. \<exists>p \<in> set ps. node p = Some y} \<and>
    set new = {y. (\<exists>p \<in> set ps. node p = Some y) \<and> y \<notin> marked s \<and> \<not> leaf y}"
  using assms
proof (induction ps arbitrary: s)
  case (Cons p ps)
  obtain t new where t: "mark p s = Inr t" "valid t" "room t = room s" "budget t \<le> budget s"
    "contents t = contents s @ new" "marked t = marked s \<union> set_option (node p)"
    "set new = {x \<in> set_option (node p) - marked s. \<not> leaf x}"
    using mark_step[of s p] Cons.prems by auto
  have "budget t \<le> room t" using t(3,4) Cons.prems(3) by simp
  then obtain u new' where u: "for_each mark ps t = Inr u" "valid u" "room u = room t"
    "budget u \<le> budget t" "contents u = contents t @ new'"
    "marked u = marked t \<union> {y. \<exists>p \<in> set ps. node p = Some y}"
    "set new' = {y. (\<exists>p \<in> set ps. node p = Some y) \<and> y \<notin> marked t \<and> \<not> leaf y}"
    using Cons.IH[of t] t(2) Cons.prems(2) by auto
  have "set (new @ new') = {y. (\<exists>q \<in> set (p # ps). node q = Some y) \<and> y \<notin> marked s \<and> \<not> leaf y}"
    using t(6,7) u(7) by auto
  moreover have "marked u = marked s \<union> {y. \<exists>q \<in> set (p # ps). node q = Some y}"
    using t(6) u(6) by auto
  ultimately show ?case
    using t u by (intro exI[of _ u] exI[of _ "new @ new'"]) simp
qed simp

text \<open>
  The invariant of the loop: what is queued may be scanned, every marked object and every
  object of the first queue is a leaf, is queued, or has all its successors marked, and
  nothing is marked that cannot be reached.
\<close>

definition loop_inv :: "'e set \<Rightarrow> 'e set \<Rightarrow> 's \<Rightarrow> bool" where
  "loop_inv Q B s \<longleftrightarrow> valid s \<and> budget s \<le> room s \<and> (\<forall>x \<in> set (contents s). scannable x) \<and>
     (\<forall>x \<in> marked s. leaf x \<or> x \<in> set (contents s) \<or> succs x \<subseteq> marked s) \<and>
     (\<forall>x \<in> Q. x \<in> set (contents s) \<or> succs x \<subseteq> marked s) \<and>
     B \<subseteq> marked s \<and> marked s \<subseteq> reach Q B \<and>
     (\<forall>x \<in> set (contents s). x \<in> Q \<or> x \<in> reach Q B \<and> \<not> leaf x)"

lemma reach_mono: "Q \<subseteq> Q' \<Longrightarrow> B \<subseteq> B' \<Longrightarrow> reach Q B \<subseteq> reach Q' B'"
proof
  fix x assume sub: "Q \<subseteq> Q'" "B \<subseteq> B'" and "x \<in> reach Q B"
  from this(3) show "x \<in> reach Q' B'"
    by induction (use sub in \<open>auto intro: reach_root reach_start reach_step\<close>)
qed

lemma inv_init:
  assumes "valid s" and "marked s = {}" and "contents s = []" and "budget s \<le> room s"
  shows "loop_inv {} {} s"
  using assms by (simp add: loop_inv_def)

text \<open>The invariant is kept when roots are marked and when an object is queued as a start.\<close>

lemma inv_marks:
  assumes i: "loop_inv Q B s" and p: "\<forall>p \<in> set ps. proper p"
  shows "\<exists>t. for_each mark ps s = Inr t \<and> loop_inv Q (B \<union> {y. \<exists>p \<in> set ps. node p = Some y}) t \<and>
    budget t \<le> budget s \<and> room t = room s \<and> (contents s \<noteq> [] \<longrightarrow> contents t \<noteq> [])"
proof -
  let ?N = "{y. \<exists>p \<in> set ps. node p = Some y}"
  have v: "valid s" "budget s \<le> room s" using i by (simp_all add: loop_inv_def)
  obtain t new where t: "for_each mark ps s = Inr t" "valid t" "room t = room s"
    "budget t \<le> budget s" "contents t = contents s @ new" "marked t = marked s \<union> ?N"
    "set new = {y. (\<exists>p \<in> set ps. node p = Some y) \<and> y \<notin> marked s \<and> \<not> leaf y}"
    using marks_step[OF v(1) p v(2)] by blast
  have r: "reach Q B \<subseteq> reach Q (B \<union> ?N)" by (rule reach_mono) auto
  have n: "scannable x" if "x \<in> set new" for x
    using that t(7) p node_universe[OF v(1)] by auto
  have new: "x \<in> reach Q (B \<union> ?N) \<and> \<not> leaf x" if "x \<in> set new" for x
    using that t(7) by (auto intro: reach_root)
  have "loop_inv Q (B \<union> ?N) t"
    unfolding loop_inv_def
  proof (intro conjI ballI)
    show "valid t" "budget t \<le> room t" using t(2-4) v(2) by simp_all
    show "B \<union> ?N \<subseteq> marked t" using i unfolding t(6) by (auto simp: loop_inv_def)
    show "marked t \<subseteq> reach Q (B \<union> ?N)"
      using i r unfolding t(6) by (auto simp: loop_inv_def intro: reach_root)
    fix y
    show "scannable y" if "y \<in> set (contents t)" using that n i unfolding t(5) by (auto simp: loop_inv_def)
    show "leaf y \<or> y \<in> set (contents t) \<or> succs y \<subseteq> marked t" if "y \<in> marked t"
      using that i t(7) unfolding t(5,6) by (auto simp: loop_inv_def)
    show "y \<in> set (contents t) \<or> succs y \<subseteq> marked t" if "y \<in> Q"
      using that i unfolding t(5,6) by (auto simp: loop_inv_def)
    show "y \<in> Q \<or> y \<in> reach Q (B \<union> ?N) \<and> \<not> leaf y" if "y \<in> set (contents t)"
      using that i new r unfolding t(5) loop_inv_def by auto
  qed
  then show ?thesis using t(1,3,4,5) by auto
qed

lemma inv_scan:
  assumes i: "loop_inv Q B s" and x: "scannable x"
  shows "\<exists>t. scan x s = Inr t \<and> loop_inv Q (B \<union> succs x) t \<and> budget t \<le> budget s \<and> room t = room s \<and>
    (contents s \<noteq> [] \<longrightarrow> contents t \<noteq> [])"
proof -
  have v: "valid s" using i by (simp add: loop_inv_def)
  obtain u where u: "scan x s = for_each mark (slots x) u" "valid u" "marked u = marked s"
    "room u = room s" "contents u = contents s"
    using scan_slots[OF v x] by blast
  have b: "budget u = budget s" by (simp add: budget_def u)
  have "loop_inv Q B u" using i by (simp add: loop_inv_def u b)
  moreover have "\<forall>p \<in> set (slots x). proper p" using slots_proper[OF v x] by blast
  ultimately show ?thesis
    using inv_marks[of Q B u "slots x"] u(1,4,5) b by (simp add: succs_def)
qed

lemma inv_enq:
  assumes i: "loop_inv Q B s" and x: "scannable x" and b: "budget s < room s"
  shows "\<exists>t. enq x s = Inr t \<and> loop_inv (insert x Q) B t \<and> budget t = Suc (budget s) \<and> room t = room s \<and>
    contents t \<noteq> []"
proof -
  have v: "valid s" using i by (simp add: loop_inv_def)
  have "length (contents s) < room s" using b by (simp add: budget_def)
  then obtain t where t: "enq x s = Inr t" using enq_succeeds[OF v] by blast
  have c: "valid t" "contents t = contents s @ [x]" "room t = room s"
    using enq_contents[OF v t] by simp_all
  have m: "marked t = marked s" by (rule enq_marked[OF v t])
  have bt: "budget t = Suc (budget s)" by (simp add: budget_def c m)
  have r: "reach Q B \<subseteq> reach (insert x Q) B" by (rule reach_mono) auto
  have "loop_inv (insert x Q) B t"
    unfolding loop_inv_def
  proof (intro conjI ballI)
    show "valid t" "budget t \<le> room t" using c b bt by simp_all
    show "B \<subseteq> marked t" "marked t \<subseteq> reach (insert x Q) B"
      using i r by (auto simp: loop_inv_def m)
    fix y
    show "scannable y" if "y \<in> set (contents t)" using that x i by (auto simp: loop_inv_def c)
    show "leaf y \<or> y \<in> set (contents t) \<or> succs y \<subseteq> marked t" if "y \<in> marked t"
      using that i unfolding m c by (auto simp: loop_inv_def)
    show "y \<in> set (contents t) \<or> succs y \<subseteq> marked t" if "y \<in> insert x Q"
      using that i unfolding m c by (auto simp: loop_inv_def)
    show "y \<in> insert x Q \<or> y \<in> reach (insert x Q) B \<and> \<not> leaf y" if "y \<in> set (contents t)"
      using that i r unfolding c loop_inv_def by auto
  qed
  then show ?thesis using t c bt by auto
qed

lemma inv_enqs:
  assumes "loop_inv Q B s" and "\<forall>x \<in> set xs. scannable x" and "budget s + length xs \<le> room s"
  shows "\<exists>t. for_each enq xs s = Inr t \<and> loop_inv (set xs \<union> Q) B t \<and>
    budget t = budget s + length xs \<and> room t = room s \<and> (contents s \<noteq> [] \<or> xs \<noteq> [] \<longrightarrow> contents t \<noteq> [])"
  using assms
proof (induction xs arbitrary: Q s)
  case (Cons x xs)
  obtain u where u: "enq x s = Inr u" "loop_inv (insert x Q) B u" "budget u = Suc (budget s)"
    "room u = room s" "contents u \<noteq> []"
    using inv_enq[OF Cons.prems(1), of x] Cons.prems(2,3) by auto
  have "insert x (set xs \<union> Q) = set xs \<union> insert x Q" by auto
  then show ?case using Cons.IH[OF u(2)] Cons.prems(2,3) u by auto
qed simp

lemma loop_step:
  assumes i: "loop_inv Q B s" and ne: "contents s \<noteq> []"
  shows "\<exists>t. rbind (deq s) (\<lambda>(x, s). scan x s) = Inr t \<and> loop_inv Q B t \<and> budget t < budget s"
proof -
  have v: "valid s" using i by (simp add: loop_inv_def)
  obtain x u0 where d: "deq s = Inr (x, u0)" using deq_succeeds[OF v ne] by blast
  have u0: "valid u0" "contents s = x # contents u0" "room u0 = room s" "marked u0 = marked s"
    using deq_contents[OF v d] deq_marked[OF v d] by auto
  have x: "scannable x" "x \<in> Q \<or> x \<in> reach Q B \<and> \<not> leaf x" using i u0(2) by (auto simp: loop_inv_def)
  obtain u where sc: "scan x u0 = for_each mark (slots x) u" and u: "valid u" "marked u = marked s"
    "room u = room s" "contents s = x # contents u"
    using scan_slots[OF u0(1) x(1)] u0 by auto
  have bu: "budget s = Suc (budget u)" using u by (simp add: budget_def)
  have "\<forall>p \<in> set (slots x). proper p" using slots_proper[OF v x(1)] by blast
  moreover have "budget u \<le> room u" using bu u(3) i by (simp add: loop_inv_def)
  ultimately obtain t new where t0: "for_each mark (slots x) u = Inr t" "valid t" "room t = room u"
    "budget t \<le> budget u" "contents t = contents u @ new"
    "marked t = marked u \<union> {y. \<exists>p \<in> set (slots x). node p = Some y}"
    "set new = {y. (\<exists>p \<in> set (slots x). node p = Some y) \<and> y \<notin> marked u \<and> \<not> leaf y}"
    using marks_step[OF u(1), of "slots x"] by blast
  have t: "for_each mark (slots x) u = Inr t" "valid t" "room t = room u"
    "budget t \<le> budget u" "contents t = contents u @ new" "marked t = marked s \<union> succs x"
    "set new = {y \<in> succs x. y \<notin> marked s \<and> \<not> leaf y}"
    using t0 by (simp_all add: succs_def u(2))
  have sr: "succs x \<subseteq> reach Q B" using x(2) by (auto intro: reach_start reach_step)
  have sn: "scannable y" if "y \<in> succs x" for y
    using that slots_proper[OF v x(1)] node_universe[OF v] by (auto simp: succs_def)
  have "loop_inv Q B t"
    unfolding loop_inv_def
  proof (intro conjI ballI)
    show "valid t" "budget t \<le> room t"
      using t(2,3,4) u(3) bu i by (simp_all add: loop_inv_def)
    show "B \<subseteq> marked t" "marked t \<subseteq> reach Q B"
      using i sr unfolding t(6) by (auto simp: loop_inv_def)
    fix y
    show "scannable y" if "y \<in> set (contents t)"
      using that i sn unfolding t(5) by (auto simp: loop_inv_def t(7) u(4))
    show "y \<in> Q \<or> y \<in> reach Q B \<and> \<not> leaf y" if "y \<in> set (contents t)"
      using that i sr unfolding t(5) by (auto simp: loop_inv_def t(7) u(4))
    show "y \<in> set (contents t) \<or> succs y \<subseteq> marked t" if "y \<in> Q"
      using that i unfolding t(5,6) by (auto simp: loop_inv_def u(4))
    show "leaf y \<or> y \<in> set (contents t) \<or> succs y \<subseteq> marked t" if y: "y \<in> marked t"
    proof (cases "y \<in> marked s")
      case True
      then show ?thesis using i unfolding t(5,6) by (auto simp: loop_inv_def u(4))
    next
      case False
      then show ?thesis using y t(7) unfolding t(5,6) by auto
    qed
  qed
  then show ?thesis using d t(1,4) bu sc by (intro exI[of _ t]) simp
qed

lemma inv_final:
  assumes i: "loop_inv Q B s" and "contents s = []"
  shows "marked s = reach Q B"
proof
  show "marked s \<subseteq> reach Q B" using i by (simp add: loop_inv_def)
  show "reach Q B \<subseteq> marked s"
  proof
    fix y assume "y \<in> reach Q B"
    then show "y \<in> marked s" by induction (use i assms(2) in \<open>auto simp: loop_inv_def\<close>)
  qed
qed

text \<open>The loop ends, with an empty queue and exactly what can be reached marked.\<close>

lemma loop_marks:
  assumes "loop_inv Q B s" and "contents s \<noteq> []"
  shows "\<exists>t. drain deq scan more s = Some (Inr t) \<and> loop_inv Q B t \<and>
    contents t = [] \<and> marked t = reach Q B"
  using assms
proof (induction "budget s" arbitrary: s rule: less_induct)
  case less
  let ?drain = "drain deq scan more"
  obtain t where t: "rbind (deq s) (\<lambda>(x, s). scan x s) = Inr t" "loop_inv Q B t"
    "budget t < budget s"
    using loop_step[OF less.prems] by blast
  have d: "?drain s = (if more t then ?drain t else Some (Inr t))"
    by (subst drain.simps) (simp only: t(1) sum.case)
  have v: "valid t" using t(2) by (simp add: loop_inv_def)
  show ?case
  proof (cases "contents t = []")
    case True
    then show ?thesis using t(2) d more_contents[OF v] inv_final by simp
  next
    case False
    then show ?thesis using less.hyps[OF t(3,2)] d more_contents[OF v] by simp
  qed
qed

end

end
