(* ===== verification/PrivateCons.thy ===== *)
theory PrivateCons
  imports AllocRegion
begin

text \<open>
  The collector's own list cells, \<open>private-cons.inc\<close> as \<open>gencgc.c\<close> includes it: cells are
  cut from whole pages, the first cell of each page links it to the page before, and freed
  cells go to a list from which they are taken first. The lemmas show that a cell that is in
  use is never handed out again and keeps its contents, and that disposal frees the pages.
\<close>

unbundle bit_operations_syntax

section \<open>The code\<close>

text \<open>\<open>private_cons_page_chain\<close> is a page index or \<open>- 1\<close>.\<close>

record private_conses =
  private_cons_page_chain :: int
  private_cons_recycle_list :: uword

definition private_cons_impl :: "private_conses \<Rightarrow> gc \<Rightarrow> (uword \<times> private_conses \<times> gc) result" where
  "private_cons_impl p g =
     (let page = private_cons_page_chain p in
      if page \<ge> 0 \<and> page_bytes_used g (nat page) < GENCGC_PAGE_BYTES then
        let bytes_used = page_bytes_used g (nat page)
        in Inr (of_nat (page_address g (nat page) + bytes_used), p,
                set_page_bytes_used (nat page) (bytes_used + 16) g)
      else
        rbind (get_alloc_start_page PAGE_TYPE_UNBOXED g) (\<lambda>(hint, g).
        rbind (gc_find_freeish_pages hint GENCGC_PAGE_BYTES (SINGLE_OBJECT_FLAG OR PAGE_TYPE_UNBOXED)
                 GC_PRIVATE_CONS_GENERATION g) (\<lambda>(page, last_page, g).
        rbind (set_alloc_start_page PAGE_TYPE_UNBOXED page g) (\<lambda>g.
        gc_assert (last_page = page)
          (let g = set_page_gen page GC_PRIVATE_CONS_GENERATION g;
               g = set_page_type page PAGE_TYPE_UNBOXED g
           in rbind (prepare_pages page page PAGE_TYPE_UNBOXED (- 1) g) (\<lambda>g.
              let page_header = page_address g page;
                  tail = private_cons_page_chain p;
                  g = store_word page_header 0 g;
                  g = store_word (page_header + 8)
                        (if tail \<ge> 0 then of_nat (page_address g (nat tail)) else 0) g
              in Inr (of_nat (page_header + 16), p\<lparr>private_cons_page_chain := int page\<rparr>,
                      set_page_bytes_used page 32 g)))))))"

definition gc_private_cons ::
    "uword \<Rightarrow> uword \<Rightarrow> private_conses \<Rightarrow> gc \<Rightarrow> (uword \<times> private_conses \<times> gc) result" where
  "gc_private_cons car cdr p g =
     rbind (let cons = private_cons_recycle_list p
            in if cons \<noteq> 0 then Inr (cons, p\<lparr>private_cons_recycle_list := memory g (cons + 8)\<rparr>, g)
               else private_cons_impl p g)
       (\<lambda>(cons, p, g). Inr (cons, p, g\<lparr>memory := (memory g)(cons := car, cons + 8 := cdr)\<rparr>))"

text \<open>The end of a list; on a circular list the loop does not end, which is \<open>None\<close>.\<close>

partial_function (option) last_cons :: "heap \<Rightarrow> uword \<Rightarrow> uword option" where
  "last_cons h list = (if h (list + 8) \<noteq> 0 then last_cons h (h (list + 8)) else Some list)"

definition gc_private_free :: "uword \<Rightarrow> private_conses \<Rightarrow> gc \<Rightarrow> (private_conses \<times> gc) option" where
  "gc_private_free list p g =
     map_option (\<lambda>list'. (p\<lparr>private_cons_recycle_list := list\<rparr>,
         g\<lparr>memory := (memory g)(list' + 8 := private_cons_recycle_list p)\<rparr>)) (last_cons (memory g) list)"

text \<open>
  The loop of \<open>release_pages_impl\<close>. A list that left dynamic space would make the C code write
  to the entry in front of the page table; the model has no result then.
\<close>

partial_function (option) release_pages :: "uword \<Rightarrow> gc \<Rightarrow> gc option" where
  "release_pages list g =
     (if list = 0 then Some g
      else Option.bind (find_page_index g (unat list)) (\<lambda>index.
        let nxt = memory g (list + 8)
        in release_pages nxt
             (reset_page_flags index (set_page_bytes_used index 0 (set_page_need_to_zero index True g)))))"

definition release_pages_impl :: "private_conses \<Rightarrow> gc \<Rightarrow> (private_conses \<times> gc) option" where
  "release_pages_impl p g =
     (if private_cons_page_chain p \<ge> 0
      then map_option (\<lambda>g. (p\<lparr>private_cons_page_chain := - 1\<rparr>, g))
             (release_pages (of_nat (page_address g (nat (private_cons_page_chain p)))) g)
      else Some (p, g))"

definition gc_dispose_private_pages :: "private_conses \<Rightarrow> gc \<Rightarrow> (private_conses \<times> gc) option" where
  "gc_dispose_private_pages p g = release_pages_impl (p\<lparr>private_cons_recycle_list := 0\<rparr>) g"

section \<open>The cells\<close>

text \<open>The addresses of the cells that have been cut from the pages, and the lists in memory.\<close>

definition cell :: "gc \<Rightarrow> nat \<Rightarrow> nat \<Rightarrow> uword" where
  "cell g i k = of_nat (page_address g i + 16 * k)"

definition cells :: "gc \<Rightarrow> nat list \<Rightarrow> uword set" where
  "cells g pages = {cell g i k | i k. i \<in> set pages \<and> 1 \<le> k \<and> 16 * k < page_bytes_used g i}"

fun cons_chain :: "heap \<Rightarrow> uword \<Rightarrow> uword list \<Rightarrow> bool" where
  "cons_chain h a [] \<longleftrightarrow> a = 0"
| "cons_chain h a (b # bs) \<longleftrightarrow> a = b \<and> b \<noteq> 0 \<and> cons_chain h (h (b + 8)) bs"

fun page_links :: "gc \<Rightarrow> nat list \<Rightarrow> bool" where
  "page_links g [] \<longleftrightarrow> True"
| "page_links g (i # is) \<longleftrightarrow>
     memory g (cell g i 0 + 8) = (case is of [] \<Rightarrow> 0 | j # _ \<Rightarrow> cell g j 0) \<and> page_links g is"

definition private_page :: "gc \<Rightarrow> nat \<Rightarrow> bool" where
  "private_page g i \<longleftrightarrow> i < page_table_pages g \<and> ptype (page_table g i) = PAGE_TYPE_UNBOXED \<and>
     16 dvd page_bytes_used g i \<and> 16 < page_bytes_used g i \<and> page_bytes_used g i \<le> GENCGC_PAGE_BYTES"

definition space_ok :: "gc \<Rightarrow> bool" where
  "space_ok g \<longleftrightarrow> 0 < DYNAMIC_SPACE_START g \<and> 16 dvd DYNAMIC_SPACE_START g \<and>
     page_address g (page_table_pages g) \<le> 2 ^ 64"

text \<open>
  The invariant: \<open>pages\<close> are the private pages, \<open>fs\<close> the recycled cells and \<open>live\<close> the
  cells in use; every cell cut from the pages is one or the other.
\<close>

definition private_ok :: "private_conses \<Rightarrow> gc \<Rightarrow> nat list \<Rightarrow> uword list \<Rightarrow> uword set \<Rightarrow> bool" where
  "private_ok p g pages fs live \<longleftrightarrow>
     space_ok g \<and> distinct pages \<and> (\<forall>i \<in> set pages. private_page g i) \<and> page_links g pages \<and>
     private_cons_page_chain p = (case pages of [] \<Rightarrow> - 1 | i # _ \<Rightarrow> int i) \<and>
     cons_chain (memory g) (private_cons_recycle_list p) fs \<and> distinct fs \<and>
     set fs \<inter> live = {} \<and> set fs \<union> live = cells g pages"

section \<open>Addresses\<close>

lemma of_nat_word_eq:
  "x < 2 ^ 64 \<Longrightarrow> y < 2 ^ 64 \<Longrightarrow> (of_nat x :: uword) = of_nat y \<longleftrightarrow> x = y"
proof -
  assume "x < 2 ^ 64" "y < 2 ^ 64"
  then have "unat (of_nat x :: uword) = x" "unat (of_nat y :: uword) = y"
    by (simp_all add: unat_of_nat)
  then show ?thesis by metis
qed

lemma cell_bound:
  assumes "space_ok g" and "i < page_table_pages g" and "k < 2048"
  shows "page_address g i + 16 * k + 16 \<le> 2 ^ 64" and "0 < page_address g i"
    and "16 dvd page_address g i"
proof -
  have "(i + 1) * GENCGC_PAGE_BYTES \<le> page_table_pages g * GENCGC_PAGE_BYTES"
    using assms(2) by (intro mult_le_mono1) simp
  then show "page_address g i + 16 * k + 16 \<le> 2 ^ 64" "0 < page_address g i"
    using assms by (simp_all add: space_ok_def page_address_def GENCGC_PAGE_BYTES_def)
  have "16 dvd i * (32768 :: nat)" by (rule dvd_mult) (simp add: dvd_eq_mod_eq_0)
  then show "16 dvd page_address g i"
    using assms(1) unfolding space_ok_def page_address_def GENCGC_PAGE_BYTES_def
    by (intro dvd_add) simp_all
qed

lemma cell_inj:
  assumes "space_ok g" and "i < page_table_pages g" "k < 2048" and "j < page_table_pages g" "l < 2048"
  shows "cell g i k = cell g j l \<longleftrightarrow> i = j \<and> k = l"
proof -
  have "cell g i k = cell g j l \<longleftrightarrow> page_address g i + 16 * k = page_address g j + 16 * l"
    unfolding cell_def using cell_bound(1)[OF assms(1-3)] cell_bound(1)[OF assms(1,4,5)]
    by (intro of_nat_word_eq) simp_all
  also have "\<dots> \<longleftrightarrow> k + 2048 * i = l + 2048 * j"
    by (simp add: page_address_def GENCGC_PAGE_BYTES_def) linarith
  also have "\<dots> \<longleftrightarrow> i = j \<and> k = l"
  proof
    assume e: "k + 2048 * i = l + 2048 * j"
    then have "(k + 2048 * i) div 2048 = (l + 2048 * j) div 2048" by simp
    then have "i = j" using assms(3,5) by simp
    then show "i = j \<and> k = l" using e by simp
  qed simp
  finally show ?thesis .
qed

lemma cell_misaligned:
  assumes "space_ok g" and "i < page_table_pages g" "k < 2048" and "j < page_table_pages g" "l < 2048"
  shows "cell g i k + 8 \<noteq> cell g j l" and "cell g i k \<noteq> 0"
proof -
  note b = cell_bound[OF assms(1-3)] cell_bound[OF assms(1,4,5)]
  have "cell g i k + 8 = of_nat (page_address g i + 16 * k + 8)" by (simp add: cell_def)
  moreover have "page_address g i + 16 * k + 8 \<noteq> page_address g j + 16 * l"
    using b(3,6) by (auto elim!: dvdE) presburger
  ultimately show "cell g i k + 8 \<noteq> cell g j l"
    unfolding cell_def using b(1,4) of_nat_word_eq[of "page_address g i + 16 * k + 8"
        "page_address g j + 16 * l"] by simp
  have "(of_nat (page_address g i + 16 * k) :: uword) = of_nat 0 \<longleftrightarrow> page_address g i + 16 * k = 0"
    using b(1) by (intro of_nat_word_eq) simp_all
  then show "cell g i k \<noteq> 0" using b(2) by (simp add: cell_def)
qed

lemma cells_E:
  assumes "a \<in> cells g pages" and "\<forall>i \<in> set pages. private_page g i"
  obtains i k where "a = cell g i k" "i \<in> set pages" "i < page_table_pages g" "1 \<le> k" "k < 2048"
    "16 * k < page_bytes_used g i"
  using assms by (fastforce simp: cells_def private_page_def GENCGC_PAGE_BYTES_def)

lemma cons_chain_cong:
  "\<forall>b \<in> set bs. h (b + 8) = h' (b + 8) \<Longrightarrow> cons_chain h a bs \<longleftrightarrow> cons_chain h' a bs"
  by (induction bs arbitrary: a) auto

lemma page_links_cong:
  "\<forall>i \<in> set is. memory g (cell g i 0 + 8) = memory g' (cell g i 0 + 8) \<Longrightarrow>
    DYNAMIC_SPACE_START g' = DYNAMIC_SPACE_START g \<Longrightarrow> page_links g is \<longleftrightarrow> page_links g' is"
  by (induction "is") (auto simp: cell_def page_address_def split: list.splits)

section \<open>One cell more\<close>

definition private_shape :: "private_conses \<Rightarrow> gc \<Rightarrow> nat list \<Rightarrow> bool" where
  "private_shape p g pages \<longleftrightarrow>
     space_ok g \<and> distinct pages \<and> (\<forall>i \<in> set pages. private_page g i) \<and> page_links g pages \<and>
     private_cons_page_chain p = (case pages of [] \<Rightarrow> - 1 | i # _ \<Rightarrow> int i)"

lemma private_okD:
  assumes "private_ok p g pages fs live"
  shows "private_shape p g pages" "cons_chain (memory g) (private_cons_recycle_list p) fs"
    "distinct fs" "set fs \<inter> live = {}" "set fs \<union> live = cells g pages"
  using assms by (auto simp: private_ok_def private_shape_def)

lemma private_okI:
  assumes "private_shape p g pages" "cons_chain (memory g) (private_cons_recycle_list p) fs"
    "distinct fs" "set fs \<inter> live = {}" "set fs \<union> live = cells g pages"
  shows "private_ok p g pages fs live"
  using assms by (auto simp: private_ok_def private_shape_def)

text \<open>What a page says of itself.\<close>

lemma private_page_cong:
  "page_table g' i = page_table g i \<Longrightarrow> page_table_pages g' = page_table_pages g \<Longrightarrow>
    private_page g' i = private_page g i"
  by (simp add: private_page_def page_bytes_used_def)

lemma space_ok_cong:
  "DYNAMIC_SPACE_START g' = DYNAMIC_SPACE_START g \<Longrightarrow> page_table_pages g' = page_table_pages g \<Longrightarrow>
    space_ok g' = space_ok g"
  by (simp add: space_ok_def page_address_def)

lemma cell_cong: "DYNAMIC_SPACE_START g' = DYNAMIC_SPACE_START g \<Longrightarrow> cell g' = cell g"
  by (simp add: cell_def page_address_def fun_eq_iff)

text \<open>Filling a cell changes neither the pages nor another cell.\<close>

lemma cell_stores:
  assumes "private_shape p g pages" and "c \<in> cells g pages"
  shows "private_shape p (g\<lparr>memory := (memory g)(c := x, c + 8 := y)\<rparr>) pages"
    and "private_shape p (g\<lparr>memory := (memory g)(c + 8 := y)\<rparr>) pages"
    and "b \<in> cells g pages \<Longrightarrow> b \<noteq> c \<Longrightarrow> b \<noteq> c + 8 \<and> b + 8 \<noteq> c \<and> b + 8 \<noteq> c + 8"
    and "c + 8 \<noteq> c" and "c \<noteq> 0"
proof -
  have sp: "space_ok g" and pp: "\<forall>i \<in> set pages. private_page g i" using assms(1)
    by (simp_all add: private_shape_def)
  obtain i k where c: "c = cell g i k" "i < page_table_pages g" "1 \<le> k" "k < 2048"
    using assms(2) pp by (rule cells_E)
  have hd: "cell g j 0 + 8 \<noteq> c" "cell g j 0 \<noteq> c" if "j \<in> set pages" for j
  proof -
    have j: "j < page_table_pages g" using that pp by (simp add: private_page_def)
    show "cell g j 0 + 8 \<noteq> c" using cell_misaligned(1)[OF sp j _ c(2,4), of 0] unfolding c(1) by simp
    show "cell g j 0 \<noteq> c" using cell_inj[OF sp j _ c(2,4), of 0] c(3) unfolding c(1) by simp
  qed
  have keep: "private_shape p (g\<lparr>memory := m\<rparr>) pages"
    if "\<forall>j \<in> set pages. m (cell g j 0 + 8) = memory g (cell g j 0 + 8)" for m
    using assms(1) that page_links_cong[of pages g "g\<lparr>memory := m\<rparr>"]
      private_page_cong[of "g\<lparr>memory := m\<rparr>" _ g] space_ok_cong[of "g\<lparr>memory := m\<rparr>" g]
    by (simp add: private_shape_def)
  show "private_shape p (g\<lparr>memory := (memory g)(c := x, c + 8 := y)\<rparr>) pages"
    "private_shape p (g\<lparr>memory := (memory g)(c + 8 := y)\<rparr>) pages"
    using hd by (auto intro!: keep)
  show "c + 8 \<noteq> c" by simp
  show "c \<noteq> 0" using cell_misaligned(2)[OF sp c(2,4) c(2,4)] c(1) by simp
  assume b: "b \<in> cells g pages" "b \<noteq> c"
  obtain j l where l: "b = cell g j l" "j < page_table_pages g" "l < 2048"
    using b(1) pp by (rule cells_E)
  show "b \<noteq> c + 8 \<and> b + 8 \<noteq> c \<and> b + 8 \<noteq> c + 8"
    using cell_misaligned(1)[OF sp c(2,4) l(2,3)] cell_misaligned(1)[OF sp l(2,3) c(2,4)] b(2)
    unfolding c(1) l(1) by auto
qed

lemma page_bytes_used_set:
  assumes "16 dvd b" and "b < GENCGC_PAGE_BYTES"
  shows "page_bytes_used (set_page_bytes_used i (b + 16) g) j =
    (if j = i then b + 16 else page_bytes_used g j)"
proof -
  obtain k where k: "b = 16 * k" using assms(1) by (auto elim: dvdE)
  have "(b + 16) div 8 = 2 * k + 2" and "2 * k + 2 < 32768"
    using assms(2) by (simp_all add: k GENCGC_PAGE_BYTES_def)
  then show ?thesis
    by (simp add: page_bytes_used_def set_page_bytes_used_def set_page_def WORD_SHIFT_def k)
qed

lemma private_cons_old_page:
  assumes sh: "private_shape p g (i # is)" and room: "page_bytes_used g i < GENCGC_PAGE_BYTES"
    and g': "g' = set_page_bytes_used i (page_bytes_used g i + 16) g"
  shows "private_shape p g' (i # is)"
    and "of_nat (page_address g i + page_bytes_used g i) \<notin> cells g (i # is)"
    and "cells g' (i # is) = insert (of_nat (page_address g i + page_bytes_used g i)) (cells g (i # is))"
proof -
  define b where "b = page_bytes_used g i"
  have pi: "private_page g i" and sp: "space_ok g" and pp: "\<forall>j \<in> set (i # is). private_page g j"
    using sh by (auto simp: private_shape_def)
  obtain k where k: "b = 16 * k" using pi by (auto simp: private_page_def b_def elim: dvdE)
  have kb: "1 < k" "k < 2048" using pi room k by (auto simp: private_page_def b_def GENCGC_PAGE_BYTES_def)
  have i: "i < page_table_pages g" using pi by (simp add: private_page_def)
  have u: "page_bytes_used g' j = (if j = i then b + 16 else page_bytes_used g j)" for j
    unfolding g' b_def[symmetric] by (rule page_bytes_used_set) (use k room in \<open>simp_all add: b_def\<close>)
  have c: "of_nat (page_address g i + b) = cell g i k" by (simp add: cell_def k)
  have s: "DYNAMIC_SPACE_START g' = DYNAMIC_SPACE_START g" "page_table_pages g' = page_table_pages g"
    "memory g' = memory g" "ptype (page_table g' j) = ptype (page_table g j)" for j
    by (simp_all add: g' set_page_bytes_used_def)
  have "private_page g' j" if "j \<in> set (i # is)" for j
    using pp that pi room unfolding private_page_def u s by (auto simp: b_def GENCGC_PAGE_BYTES_def k)
  moreover have "page_links g' (i # is)"
    using sh page_links_cong[of "i # is" g g'] s by (simp add: private_shape_def)
  ultimately show "private_shape p g' (i # is)"
    using sh space_ok_cong[OF s(1,2)] by (simp add: private_shape_def)
  show "of_nat (page_address g i + page_bytes_used g i) \<notin> cells g (i # is)"
  proof
    assume "of_nat (page_address g i + page_bytes_used g i) \<in> cells g (i # is)"
    then obtain j l where "cell g i k = cell g j l" "j < page_table_pages g" "l < 2048"
      "16 * l < page_bytes_used g j"
      unfolding b_def[symmetric] c using pp by (rule cells_E)
    then show False using cell_inj[OF sp i kb(2)] k b_def by auto
  qed
  show "cells g' (i # is) = insert (of_nat (page_address g i + page_bytes_used g i)) (cells g (i # is))"
    unfolding b_def[symmetric] c
  proof (rule set_eqI)
    fix a
    have "a \<in> cells g' (i # is) \<longleftrightarrow> (\<exists>j l. a = cell g j l \<and> j \<in> set (i # is) \<and> 1 \<le> l \<and>
        16 * l < (if j = i then b + 16 else page_bytes_used g j))"
      by (simp only: cells_def u cell_cong[OF s(1)] mem_Collect_eq)
    also have "\<dots> \<longleftrightarrow> (\<exists>j l. a = cell g j l \<and> j \<in> set (i # is) \<and> 1 \<le> l \<and>
        (16 * l < page_bytes_used g j \<or> j = i \<and> l = k))"
      using kb(1) k b_def by (intro ex_cong1) auto
    also have "\<dots> \<longleftrightarrow> a \<in> insert (cell g i k) (cells g (i # is))"
      unfolding cells_def mem_Collect_eq insert_iff
      by (insert kb(1), rule iffI; elim exE conjE disjE) fastforce+
    finally show "a \<in> cells g' (i # is) \<longleftrightarrow> a \<in> insert (cell g i k) (cells g (i # is))" .
  qed
qed

lemma page_bytes_used_32:
  "page_bytes_used (set_page_bytes_used i 32 g) j = (if j = i then 32 else page_bytes_used g j)"
  by (simp add: page_bytes_used_def set_page_bytes_used_def WORD_SHIFT_def)

text \<open>A fresh page \<open>f\<close>: its first cell is the link, its second the new cell.\<close>

lemma private_cons_new_page:
  assumes sh: "private_shape p g pages" and f: "f < page_table_pages g" "f \<notin> set pages"
    and s: "DYNAMIC_SPACE_START g' = DYNAMIC_SPACE_START g" "page_table_pages g' = page_table_pages g"
    and t: "\<forall>j. j \<noteq> f \<longrightarrow> page_table g' j = page_table g j"
      "ptype (page_table g' f) = PAGE_TYPE_UNBOXED" "page_bytes_used g' f = 32"
    and m: "memory g' = (memory g)(cell g f 0 := 0,
      cell g f 0 + 8 := (case pages of [] \<Rightarrow> 0 | i # _ \<Rightarrow> cell g i 0))"
    and p': "private_cons_page_chain p' = int f"
  shows "private_shape p' g' (f # pages)" and "cell g f 1 \<notin> cells g pages"
    and "cells g' (f # pages) = insert (cell g f 1) (cells g pages)"
    and "\<forall>a \<in> cells g pages. memory g' a = memory g a \<and> memory g' (a + 8) = memory g (a + 8)"
proof -
  have sp: "space_ok g" and pp: "\<forall>j \<in> set pages. private_page g j" using sh
    by (simp_all add: private_shape_def)
  have out: "memory g' (cell g j l) = memory g (cell g j l) \<and>
      memory g' (cell g j l + 8) = memory g (cell g j l + 8)"
    if "j \<in> set pages" "j < page_table_pages g" "l < 2048" for j l
    using cell_inj[OF sp f(1) _ that(2,3), of 0] cell_misaligned(1)[OF sp f(1) _ that(2,3), of 0]
      cell_misaligned(1)[OF sp that(2,3) f(1), of 0] f(2) that(1)
    unfolding m by (auto simp: fun_upd_apply)
  have lt: "j < page_table_pages g" if "j \<in> set pages" for j
    using that pp by (auto simp: private_page_def)
  have c: "cell g' = cell g" by (rule cell_cong[OF s(1)])
  have same: "page_table g' j = page_table g j" if "j \<in> set pages" for j using that t(1) f(2) by auto
  then have u: "page_bytes_used g' j = page_bytes_used g j" if "j \<in> set pages" for j
    using that by (simp add: page_bytes_used_def)
  have "private_page g' j" if "j \<in> set (f # pages)" for j
    using that pp same private_page_cong[OF _ s(2)] f(1) s(2) t(2,3)
    by (auto simp: private_page_def GENCGC_PAGE_BYTES_def)
  moreover have "page_links g' (f # pages)"
  proof -
    have "page_links g' pages"
      using page_links_cong[of pages g g'] out[of _ 0] lt s(1) sh by (simp add: private_shape_def)
    then show ?thesis by (simp add: c m split: list.split)
  qed
  ultimately show "private_shape p' g' (f # pages)"
    using sh f(2) p' space_ok_cong[OF s] by (simp add: private_shape_def)
  show "cell g f 1 \<notin> cells g pages"
  proof
    assume "cell g f 1 \<in> cells g pages"
    then obtain j l where "cell g f 1 = cell g j l" "j \<in> set pages" "j < page_table_pages g" "l < 2048"
      using pp by (rule cells_E)
    then show False using cell_inj[OF sp f(1), of 1 j l] f(2) by auto
  qed
  have new: "16 * l < page_bytes_used g' f \<and> 1 \<le> l \<longleftrightarrow> l = 1" for l using t(3) by auto
  show "cells g' (f # pages) = insert (cell g f 1) (cells g pages)"
  proof (rule set_eqI)
    fix a
    have "a \<in> cells g' (f # pages) \<longleftrightarrow> (\<exists>l. a = cell g f l \<and> 16 * l < page_bytes_used g' f \<and> 1 \<le> l) \<or>
        (\<exists>j l. a = cell g j l \<and> j \<in> set pages \<and> 1 \<le> l \<and> 16 * l < page_bytes_used g' j)"
      by (auto simp: cells_def c)
    also have "\<dots> \<longleftrightarrow> a = cell g f 1 \<or> a \<in> cells g pages"
      unfolding new by (auto simp: cells_def u)
    finally show "a \<in> cells g' (f # pages) \<longleftrightarrow> a \<in> insert (cell g f 1) (cells g pages)" by simp
  qed
  show "\<forall>a \<in> cells g pages. memory g' a = memory g a \<and> memory g' (a + 8) = memory g (a + 8)"
  proof
    fix a assume "a \<in> cells g pages"
    then obtain j l where "a = cell g j l" "j \<in> set pages" "j < page_table_pages g" "l < 2048"
      using pp by (rule cells_E)
    then show "memory g' a = memory g a \<and> memory g' (a + 8) = memory g (a + 8)" using out by simp
  qed
qed

lemma private_cons_impl_ok:
  assumes sh: "private_shape p g pages" and r: "private_cons_impl p g = Inr (c, p', g')"
  shows "\<exists>pages'. private_shape p' g' pages' \<and> c \<notin> cells g pages \<and>
    cells g' pages' = insert c (cells g pages) \<and>
    private_cons_recycle_list p' = private_cons_recycle_list p \<and>
    (\<forall>a \<in> cells g pages. memory g' a = memory g a \<and> memory g' (a + 8) = memory g (a + 8))"
proof (cases "private_cons_page_chain p \<ge> 0 \<and>
    page_bytes_used g (nat (private_cons_page_chain p)) < GENCGC_PAGE_BYTES")
  case True
  then obtain i "is" where i: "pages = i # is" "nat (private_cons_page_chain p) = i"
    using sh by (cases pages) (auto simp: private_shape_def)
  have e: "c = of_nat (page_address g i + page_bytes_used g i)" "p' = p"
    "g' = set_page_bytes_used i (page_bytes_used g i + 16) g"
    using r True i(2) by (auto simp: private_cons_impl_def Let_def)
  have "memory g' = memory g" by (simp add: e set_page_bytes_used_def)
  then show ?thesis
    using private_cons_old_page[OF sh[unfolded i(1)] _ e(3)] True i(2)
    unfolding e(1,2) i(1) by (intro exI[of _ "i # is"]) simp
next
  case False
  let ?u = PAGE_TYPE_UNBOXED
  have t: "get_alloc_start_page ?u g = Inr (alloc_start_pages g 1, g)"
    by (simp add: get_alloc_start_page_def page_types)
  obtain f l g1 where f: "gc_find_freeish_pages (alloc_start_pages g 1) GENCGC_PAGE_BYTES
      (SINGLE_OBJECT_FLAG OR ?u) GC_PRIVATE_CONS_GENERATION g = Inr (f, l, g1)"
    using r unfolding private_cons_impl_def Let_def if_not_P[OF False] t by auto
  have fr: "f < page_table_pages g" "page_free_p g f"
    and g1: "g1 = g\<lparr>next_free_page := max (next_free_page g) (l + 1)\<rparr>"
    using freeish_found[OF f] by (auto simp: usable_run_def page_types GENCGC_PAGE_BYTES_def)
  obtain g2 where g2: "set_alloc_start_page ?u f g1 = Inr g2"
    and frame: "page_table g2 = page_table g" "memory g2 = memory g"
      "DYNAMIC_SPACE_START g2 = DYNAMIC_SPACE_START g" "page_table_pages g2 = page_table_pages g"
    by (simp add: set_alloc_start_page_def page_types g1)
  define g3 where "g3 = set_page_type f ?u (set_page_gen f GC_PRIVATE_CONS_GENERATION g2)"
  have pr: "prepare_pages f f ?u (- 1) g3 = Inr g3"
    by (simp add: prepare_pages_def gc_assert_def page_types)
  have c: "c = of_nat (page_address g3 f + 16)" and p': "p' = p\<lparr>private_cons_page_chain := int f\<rparr>"
    and g': "g' = set_page_bytes_used f 32 (store_word (page_address g3 f + 8)
      (if private_cons_page_chain p \<ge> 0 then
         of_nat (page_address (store_word (page_address g3 f) 0 g3) (nat (private_cons_page_chain p)))
       else 0) (store_word (page_address g3 f) 0 g3))"
    using r unfolding private_cons_impl_def Let_def if_not_P[OF False] t rbind.simps prod.case f g2
      g3_def[symmetric] pr by (auto simp: gc_assert_def split: if_splits)
  have pa: "page_address g3 = page_address g" "page_address (store_word a v g3) = page_address g" for a v
    by (simp_all add: page_address_def fun_eq_iff g3_def frame set_page_type_def set_page_gen_def
        store_word_def)
  have link: "(if private_cons_page_chain p \<ge> 0 then
        of_nat (page_address g (nat (private_cons_page_chain p))) else 0) =
      (case pages of [] \<Rightarrow> 0 | i # _ \<Rightarrow> cell g i 0)"
    using sh by (auto simp: private_shape_def cell_def split: list.splits)
  note g' = g'[unfolded pa link]
  have notin: "f \<notin> set pages"
    using sh fr(2) by (auto simp: private_shape_def private_page_def page_free_p_def page_types)
  have "private_shape p' g' (f # pages)" and "cell g f 1 \<notin> cells g pages"
    and "cells g' (f # pages) = insert (cell g f 1) (cells g pages)"
    and "\<forall>a \<in> cells g pages. memory g' a = memory g a \<and> memory g' (a + 8) = memory g (a + 8)"
    by (rule private_cons_new_page[OF sh fr(1) notin, of g' p'];
        simp add: g' p' page_bytes_used_32; simp add: set_page_bytes_used_def
          store_word_def g3_def frame set_page_type_def set_page_gen_def cell_def)+
  moreover have "c = cell g f 1" by (simp add: c pa cell_def)
  ultimately show ?thesis by (intro exI[of _ "f # pages"]) (simp add: p')
qed

section \<open>Lists of cells\<close>

lemma cons_chain_unique: "cons_chain h a xs \<Longrightarrow> cons_chain h a ys \<Longrightarrow> xs = ys"
proof (induction xs arbitrary: a ys)
  case Nil
  then show ?case by (cases ys) auto
next
  case (Cons x xs)
  then show ?case by (cases ys) auto
qed

lemma cons_chain_append: "cons_chain h a (xs @ b # ys) \<Longrightarrow> cons_chain h b (b # ys)"
  by (induction xs arbitrary: a) auto

lemma cons_chain_distinct:
  assumes "cons_chain h a ls"
  shows "distinct ls"
proof (rule ccontr)
  assume "\<not> distinct ls"
  then obtain xs y ys zs where ls: "ls = xs @ y # ys @ y # zs"
    using not_distinct_decomp[of ls] by auto
  have "cons_chain h y (y # ys @ y # zs)" using assms unfolding ls by (rule cons_chain_append)
  moreover have "cons_chain h y (y # zs)"
    using assms unfolding ls by (intro cons_chain_append[of h a "xs @ y # ys"]) simp
  ultimately have "y # ys @ y # zs = y # zs" by (rule cons_chain_unique)
  then have "length (y # ys @ y # zs) = length (y # zs)" by (rule arg_cong)
  then show False by simp
qed

lemma last_cons_chain: "cons_chain h a ls \<Longrightarrow> ls \<noteq> [] \<Longrightarrow> last_cons h a = Some (last ls)"
proof (induction ls arbitrary: a)
  case (Cons b bs)
  have "h (b + 8) \<noteq> 0 \<longleftrightarrow> bs \<noteq> []" using Cons.prems(1) by (cases bs) auto
  then show ?case using Cons by (subst last_cons.simps) auto
qed simp

lemma cons_chain_join:
  assumes "cons_chain h a ls" and "ls \<noteq> []" and "cons_chain h r fs"
    and "\<forall>b \<in> set ls \<union> set fs. b \<noteq> last ls \<longrightarrow> h' (b + 8) = h (b + 8)" and "h' (last ls + 8) = r"
    and "set ls \<inter> set fs = {}"
  shows "cons_chain h' a (ls @ fs)"
  using assms
proof (induction ls arbitrary: a)
  case (Cons b bs)
  have d: "distinct (b # bs)" using Cons.prems(1) by (rule cons_chain_distinct)
  show ?case
  proof (cases "bs = []")
    case True
    have "\<forall>x \<in> set fs. h (x + 8) = h' (x + 8)"
    proof
      fix x assume x: "x \<in> set fs"
      then have "x \<noteq> b" using Cons.prems(6) by auto
      then show "h (x + 8) = h' (x + 8)" using Cons.prems(4) x True by simp
    qed
    then have "cons_chain h' r fs" using cons_chain_cong[of fs h h' r] Cons.prems(3) by simp
    then show ?thesis using Cons.prems(1,5) True by simp
  next
    case False
    then have "b \<noteq> last bs" using d by auto
    then show ?thesis using Cons False by auto
  qed
qed simp

lemma gc_private_cons_ok:
  assumes ok: "private_ok p g pages fs live" and r: "gc_private_cons car cdr p g = Inr (c, p', g')"
  shows "\<exists>pages' fs'. c \<notin> live \<and> memory g' c = car \<and> memory g' (c + 8) = cdr \<and>
    private_ok p' g' pages' fs' (insert c live) \<and>
    (\<forall>a \<in> live. memory g' a = memory g a \<and> memory g' (a + 8) = memory g (a + 8))"
proof -
  note D = private_okD[OF ok]
  have "\<exists>pages' fs' g1. private_shape p' g1 pages' \<and>
      g' = g1\<lparr>memory := (memory g1)(c := car, c + 8 := cdr)\<rparr> \<and> c \<notin> live \<and> c \<notin> set fs' \<and>
      cells g1 pages' = insert c (set fs' \<union> live) \<and>
      cons_chain (memory g1) (private_cons_recycle_list p') fs' \<and> distinct fs' \<and> set fs' \<inter> live = {} \<and>
      (\<forall>a \<in> live. memory g1 a = memory g a \<and> memory g1 (a + 8) = memory g (a + 8))"
  proof (cases fs)
    case Nil
    then have "private_cons_recycle_list p = 0" using D(2) by simp
    then obtain g1 where g1: "private_cons_impl p g = Inr (c, p', g1)"
      "g' = g1\<lparr>memory := (memory g1)(c := car, c + 8 := cdr)\<rparr>"
      using r by (auto simp: gc_private_cons_def Let_def)
    obtain pages' where p': "private_shape p' g1 pages'" "c \<notin> cells g pages"
      "cells g1 pages' = insert c (cells g pages)"
      "private_cons_recycle_list p' = private_cons_recycle_list p"
      "\<forall>a \<in> cells g pages. memory g1 a = memory g a \<and> memory g1 (a + 8) = memory g (a + 8)"
      using private_cons_impl_ok[OF D(1) g1(1)] by blast
    show ?thesis
      using p' g1(2) D(2,5) Nil by (intro exI[of _ pages'] exI[of _ "[]"] exI[of _ g1]) auto
  next
    case (Cons b bs)
    then have b: "private_cons_recycle_list p = b" "b \<noteq> 0" "cons_chain (memory g) (memory g (b + 8)) bs"
      using D(2) by auto
    then have e: "c = b" "p' = p\<lparr>private_cons_recycle_list := memory g (b + 8)\<rparr>"
      "g' = g\<lparr>memory := (memory g)(c := car, c + 8 := cdr)\<rparr>"
      using r by (auto simp: gc_private_cons_def Let_def)
    show ?thesis
      using D b(3) e(3) Cons unfolding e(1,2)
      by (intro exI[of _ pages] exI[of _ bs] exI[of _ g]) (auto simp: private_shape_def)
  qed
  then obtain pages' fs' g1 where n: "private_shape p' g1 pages'"
    "g' = g1\<lparr>memory := (memory g1)(c := car, c + 8 := cdr)\<rparr>" "c \<notin> live" "c \<notin> set fs'"
    "cells g1 pages' = insert c (set fs' \<union> live)"
    "cons_chain (memory g1) (private_cons_recycle_list p') fs'" "distinct fs'" "set fs' \<inter> live = {}"
    "\<forall>a \<in> live. memory g1 a = memory g a \<and> memory g1 (a + 8) = memory g (a + 8)" by blast
  have c: "c \<in> cells g1 pages'" using n(5) by simp
  note st = cell_stores[OF n(1) c]
  have sep: "memory g' b = memory g1 b \<and> memory g' (b + 8) = memory g1 (b + 8)"
    if "b \<in> set fs' \<union> live" for b
    using st(3)[of b] that n(3-5) by (auto simp: n(2))
  have "cons_chain (memory g') (private_cons_recycle_list p') fs'"
    using n(6) cons_chain_cong[of fs' "memory g1" "memory g'"] sep by auto
  moreover have "cells g' pages' = cells g1 pages'"
    by (simp add: n(2) cells_def cell_def page_address_def page_bytes_used_def)
  moreover have "private_shape p' g' pages'" unfolding n(2) by (rule st(1))
  ultimately have "private_ok p' g' pages' fs' (insert c live)"
    using n(4,5,7,8) by (intro private_okI) auto
  then show ?thesis using n(3,9) sep st(4) by (auto simp: n(2))
qed

lemma gc_private_free_ok:
  assumes ok: "private_ok p g pages fs live" and l: "cons_chain (memory g) l ls" "ls \<noteq> []"
    and sub: "set ls \<subseteq> live"
  shows "\<exists>p' g'. gc_private_free l p g = Some (p', g') \<and>
    private_ok p' g' pages (ls @ fs) (live - set ls) \<and>
    (\<forall>a \<in> live - set ls. memory g' a = memory g a \<and> memory g' (a + 8) = memory g (a + 8))"
proof -
  note D = private_okD[OF ok]
  let ?p = "p\<lparr>private_cons_recycle_list := l\<rparr>"
  let ?g = "g\<lparr>memory := (memory g)(last ls + 8 := private_cons_recycle_list p)\<rparr>"
  have e: "gc_private_free l p g = Some (?p, ?g)"
    by (simp add: gc_private_free_def last_cons_chain[OF l])
  have la: "last ls \<in> cells g pages" using last_in_set[OF l(2)] sub D(5) by blast
  note st = cell_stores[OF D(1) la]
  have sep: "b \<noteq> last ls + 8 \<and> (b \<noteq> last ls \<longrightarrow> b + 8 \<noteq> last ls + 8)" if "b \<in> cells g pages" for b
    using st(3)[OF that] by (cases "b = last ls") auto
  have "cons_chain (memory ?g) l (ls @ fs)"
    by (rule cons_chain_join[OF l D(2)]) (use sep D(4,5) sub in auto)
  moreover have "cells ?g pages = cells g pages"
    by (simp add: cells_def cell_def page_address_def page_bytes_used_def)
  moreover have "private_shape ?p ?g pages" using st(2) by (simp add: private_shape_def)
  moreover have "distinct (ls @ fs)" using cons_chain_distinct[OF l(1)] D(3,4) sub by auto
  ultimately have "private_ok ?p ?g pages (ls @ fs) (live - set ls)"
    using D(4,5) sub by (intro private_okI) auto
  moreover have "\<forall>a \<in> live - set ls. memory ?g a = memory g a \<and> memory ?g (a + 8) = memory g (a + 8)"
    using sep D(5) l(2) by (auto simp: fun_upd_apply)
  ultimately show ?thesis using e by blast
qed

section \<open>Disposal\<close>

lemma release_page_simps:
  fixes i g
  defines "g' \<equiv> reset_page_flags i (set_page_bytes_used i 0 (set_page_need_to_zero i True g))"
  shows "memory g' = memory g" "DYNAMIC_SPACE_START g' = DYNAMIC_SPACE_START g"
    "page_table_pages g' = page_table_pages g"
    "page_table g' j = (if j = i then (page_table g i)\<lparr>need_zerofill := True, words_used_w := 0,
       scan_start_offset_w := 0, ptype := FREE_PAGE_FLAG\<rparr> else page_table g j)"
  by (simp_all add: g'_def reset_page_flags_def assign_page_card_marks_def set_page_bytes_used_def
      set_page_need_to_zero_def set_page_type_def Let_def)

lemma release_pages_ok:
  assumes "page_links g is" and "\<forall>i \<in> set is. i < page_table_pages g" and "space_ok g" and "distinct is"
  shows "\<exists>g'. release_pages (case is of [] \<Rightarrow> 0 | i # _ \<Rightarrow> cell g i 0) g = Some g' \<and>
    memory g' = memory g \<and> space_ok g' \<and>
    (\<forall>j. page_table g' j = (if j \<in> set is then (page_table g j)\<lparr>need_zerofill := True,
       words_used_w := 0, scan_start_offset_w := 0, ptype := FREE_PAGE_FLAG\<rparr> else page_table g j))"
  using assms
proof (induction "is" arbitrary: g)
  case Nil
  then show ?case by (simp add: release_pages.simps)
next
  case (Cons i "is")
  have i: "i < page_table_pages g" using Cons.prems(2) by simp
  define g1 where "g1 = reset_page_flags i (set_page_bytes_used i 0 (set_page_need_to_zero i True g))"
  note s = release_page_simps[of i g, folded g1_def]
  have c: "cell g1 = cell g" by (rule cell_cong[OF s(2)])
  have "page_links g1 is" using Cons.prems(1) page_links_cong[of "is" g g1] s by simp
  moreover have "space_ok g1" using Cons.prems(3) space_ok_cong[OF s(2,3)] by simp
  ultimately obtain g' where g': "release_pages (case is of [] \<Rightarrow> 0 | i # _ \<Rightarrow> cell g1 i 0) g1 = Some g'"
    "memory g' = memory g1" "space_ok g'"
    "\<forall>j. page_table g' j = (if j \<in> set is then (page_table g1 j)\<lparr>need_zerofill := True,
       words_used_w := 0, scan_start_offset_w := 0, ptype := FREE_PAGE_FLAG\<rparr> else page_table g1 j)"
    using Cons.IH[of g1] Cons.prems(2,4) s(3) by auto
  note b = cell_bound[OF Cons.prems(3) i, of 0]
  have "unat (cell g i 0) = page_address g i" using b(1) by (simp add: cell_def unat_of_nat)
  then have f: "find_page_index g (unat (cell g i 0)) = Some i"
    using i by (simp add: find_page_index_Some GENCGC_PAGE_BYTES_def)
  have nz: "cell g i 0 \<noteq> 0" using cell_misaligned(2)[OF Cons.prems(3) i _ i, of 0 0] by simp
  have nxt: "memory g (cell g i 0 + 8) = (case is of [] \<Rightarrow> 0 | i # _ \<Rightarrow> cell g1 i 0)"
    using Cons.prems(1) by (simp add: c split: list.split)
  have "release_pages (cell g i 0) g = Some g'"
    by (subst release_pages.simps) (simp add: nz f nxt g1_def[symmetric] g'(1))
  then show ?case
    using g'(2-4) s(1,4) Cons.prems(4) by (intro exI[of _ g']) auto
qed

text \<open>C16: The collector's private list cells. A cell that \<open>gc_private_cons\<close> returns was not in use
  and holds the two words given, and every cell in use keeps its contents; freeing a list of cells
  in use makes exactly these available again; and disposal gives back every private page, marked as
  not zeroed, and touches no other page. The order in which freed and fresh cells are used, the
  filling of pages and the page search are those of the code.\<close>

theorem private_conses_managed:
  assumes "private_ok p g pages fs live"
  shows "(gc_private_cons car cdr p g = Inr (c, p1, g1) \<longrightarrow>
      (\<exists>pages' fs'. c \<notin> live \<and> memory g1 c = car \<and> memory g1 (c + 8) = cdr \<and>
        private_ok p1 g1 pages' fs' (insert c live) \<and>
        (\<forall>a \<in> live. memory g1 a = memory g a \<and> memory g1 (a + 8) = memory g (a + 8)))) \<and>
    (cons_chain (memory g) l ls \<and> ls \<noteq> [] \<and> set ls \<subseteq> live \<longrightarrow>
      (\<exists>p2 g2. gc_private_free l p g = Some (p2, g2) \<and>
        private_ok p2 g2 pages (ls @ fs) (live - set ls) \<and>
        (\<forall>a \<in> live - set ls. memory g2 a = memory g a \<and> memory g2 (a + 8) = memory g (a + 8)))) \<and>
    (\<exists>p3 g3. gc_dispose_private_pages p g = Some (p3, g3) \<and> private_ok p3 g3 [] [] {} \<and>
      (\<forall>i \<in> set pages. page_free_p g3 i \<and> page_bytes_used g3 i = 0 \<and> page_need_to_zero g3 i) \<and>
      (\<forall>i. i \<notin> set pages \<longrightarrow> page_table g3 i = page_table g i))"
proof (intro conjI impI)
  note D = private_okD[OF assms]
  show "\<exists>pages' fs'. c \<notin> live \<and> memory g1 c = car \<and> memory g1 (c + 8) = cdr \<and>
      private_ok p1 g1 pages' fs' (insert c live) \<and>
      (\<forall>a \<in> live. memory g1 a = memory g a \<and> memory g1 (a + 8) = memory g (a + 8))"
    if "gc_private_cons car cdr p g = Inr (c, p1, g1)"
    using gc_private_cons_ok[OF assms that] .
  show "\<exists>p2 g2. gc_private_free l p g = Some (p2, g2) \<and> private_ok p2 g2 pages (ls @ fs) (live - set ls) \<and>
      (\<forall>a \<in> live - set ls. memory g2 a = memory g a \<and> memory g2 (a + 8) = memory g (a + 8))"
    if "cons_chain (memory g) l ls \<and> ls \<noteq> [] \<and> set ls \<subseteq> live"
    using gc_private_free_ok[OF assms] that by blast
  have sh: "page_links g pages" "\<forall>i \<in> set pages. i < page_table_pages g" "space_ok g" "distinct pages"
    "private_cons_page_chain p = (case pages of [] \<Rightarrow> - 1 | i # _ \<Rightarrow> int i)"
    using D(1) by (auto simp: private_shape_def private_page_def)
  from release_pages_ok[OF sh(1-4)] obtain g3 where g3:
    "release_pages (case pages of [] \<Rightarrow> 0 | i # _ \<Rightarrow> cell g i 0) g = Some g3" "space_ok g3"
    "\<forall>j. page_table g3 j = (if j \<in> set pages then (page_table g j)\<lparr>need_zerofill := True,
       words_used_w := 0, scan_start_offset_w := 0, ptype := FREE_PAGE_FLAG\<rparr> else page_table g j)"
    by blast
  let ?p = "p\<lparr>private_cons_recycle_list := 0, private_cons_page_chain := - 1\<rparr>"
  have "gc_dispose_private_pages p g = Some (?p, g3)"
  proof (cases pages)
    case Nil
    then show ?thesis
      using g3(1) sh(5) by (simp add: gc_dispose_private_pages_def release_pages_impl_def release_pages.simps)
  next
    case (Cons i "is")
    then show ?thesis
      using g3(1) sh(5) by (simp add: gc_dispose_private_pages_def release_pages_impl_def cell_def)
  qed
  moreover have "private_ok ?p g3 [] [] {}"
    using g3(2) by (intro private_okI) (auto simp: private_shape_def cells_def)
  ultimately show "\<exists>p3 g3. gc_dispose_private_pages p g = Some (p3, g3) \<and> private_ok p3 g3 [] [] {} \<and>
      (\<forall>i \<in> set pages. page_free_p g3 i \<and> page_bytes_used g3 i = 0 \<and> page_need_to_zero g3 i) \<and>
      (\<forall>i. i \<notin> set pages \<longrightarrow> page_table g3 i = page_table g i)"
    using g3(3) by (auto simp: page_free_p_def page_bytes_used_def page_need_to_zero_def)
qed

definition no_conses :: private_conses where
  "no_conses = \<lparr>private_cons_page_chain = - 1, private_cons_recycle_list = 0\<rparr>"

lemma private_conses_managed_witness:
  "\<exists>p1 g1 pages fs. gc_private_cons 1 2 no_conses small_heap = Inr (0x1000010010, p1, g1) \<and>
    private_ok p1 g1 pages fs {0x1000010010} \<and> memory g1 0x1000010010 = 1"
proof -
  have ok: "private_ok no_conses small_heap [] [] {}"
    by (simp add: private_ok_def space_ok_def small_heap_def no_conses_def cells_def page_address_def
        GENCGC_PAGE_BYTES_def)
  have "map_sum id fst (gc_private_cons 1 2 no_conses small_heap) = Inr 0x1000010010"
    by (simp add: gc_private_cons_def private_cons_impl_def no_conses_def get_alloc_start_page_def
        set_alloc_start_page_def small_heap_simps set_page_gen_def set_page_type_def set_page_def
        prepare_pages_def store_word_def page_address_def)
  then obtain p1 g1 where r: "gc_private_cons 1 2 no_conses small_heap = Inr (0x1000010010, p1, g1)"
    by (cases "gc_private_cons 1 2 no_conses small_heap") auto
  then show ?thesis
    using private_conses_managed[OF ok, of 1 2 "0x1000010010" p1 g1 0 "[]"] by blast
qed

end
