(* ===== verification/Objects.thy ===== *)
theory Objects
  imports Lispobj
begin

text \<open>
  The layout of heap objects: the widetags, the size of each kind of object
  (\<open>gc-common.c\<close>, with the tables that \<open>compiler/generic/late-objdef.lisp\<close> writes for the
  x86-64 build), instances and their layouts (\<open>instance.inc\<close>) and code objects
  (\<open>code.h\<close>). Sizes and lengths are machine words. The offsets within \<open>struct layout\<close>
  are generated from a Lisp structure and are parameters.
\<close>

unbundle bit_operations_syntax

section \<open>Widetags\<close>

definition BIGNUM_WIDETAG :: uword where "BIGNUM_WIDETAG = 0x11"
definition RATIO_WIDETAG :: uword where "RATIO_WIDETAG = 0x15"
definition COMPLEX_RATIONAL_WIDETAG :: uword where "COMPLEX_RATIONAL_WIDETAG = 0x21"
definition SYMBOL_WIDETAG :: uword where "SYMBOL_WIDETAG = 0x2D"
definition CODE_HEADER_WIDETAG :: uword where "CODE_HEADER_WIDETAG = 0x35"
definition INSTANCE_WIDETAG :: uword where "INSTANCE_WIDETAG = 0x39"
definition FUNCALLABLE_INSTANCE_WIDETAG :: uword where "FUNCALLABLE_INSTANCE_WIDETAG = 0x3D"
definition SIMPLE_FUN_WIDETAG :: uword where "SIMPLE_FUN_WIDETAG = 0x41"
definition CLOSURE_WIDETAG :: uword where "CLOSURE_WIDETAG = 0x45"
definition VALUE_CELL_WIDETAG :: uword where "VALUE_CELL_WIDETAG = 0x4D"
definition WEAK_POINTER_WIDETAG :: uword where "WEAK_POINTER_WIDETAG = 0x59"
definition FDEFN_WIDETAG :: uword where "FDEFN_WIDETAG = 0x5D"
definition SIMPLE_VECTOR_WIDETAG :: uword where "SIMPLE_VECTOR_WIDETAG = 0x89"

lemmas widetags = BIGNUM_WIDETAG_def RATIO_WIDETAG_def COMPLEX_RATIONAL_WIDETAG_def SYMBOL_WIDETAG_def
  CODE_HEADER_WIDETAG_def INSTANCE_WIDETAG_def FUNCALLABLE_INSTANCE_WIDETAG_def
  SIMPLE_FUN_WIDETAG_def CLOSURE_WIDETAG_def VALUE_CELL_WIDETAG_def WEAK_POINTER_WIDETAG_def
  FDEFN_WIDETAG_def SIMPLE_VECTOR_WIDETAG_def FILLER_WIDETAG_def CHARACTER_WIDETAG_def
  SINGLE_FLOAT_WIDETAG_def UNBOUND_MARKER_WIDETAG_def

text \<open>
  \<open>embedded_obj_p\<close> and \<open>leaf_obj_widetag_p\<close> are C functions that the build writes; the set
  bits of the latter are the specialized vectors, the unboxed objects, bignums and fillers.
\<close>

definition embedded_obj_p :: "uword \<Rightarrow> bool" where
  "embedded_obj_p tag \<longleftrightarrow> tag = SIMPLE_FUN_WIDETAG"

definition leaf_obj_widetag_p :: "uword \<Rightarrow> bool" where
  "leaf_obj_widetag_p widetag \<longleftrightarrow> drop_bit (unat (drop_bit 2 widetag)) (0x3FFFFFA0E001690 :: uword) AND 1 \<noteq> 0"

section \<open>Parts of words\<close>

definition heap_u32 :: "heap \<Rightarrow> uword \<Rightarrow> u32" where
  "heap_u32 h a = ucast (drop_bit (if bit a 2 then 32 else 0) (h (a AND NOT 7)))"

definition heap_u16 :: "heap \<Rightarrow> uword \<Rightarrow> u16" where
  "heap_u16 h a = ucast (drop_bit (if bit a 2 then if bit a 1 then 48 else 32
                                   else if bit a 1 then 16 else 0) (h (a AND NOT 7)))"

section \<open>Instances\<close>

definition instanceoid_widetag_p :: "uword \<Rightarrow> bool" where
  "instanceoid_widetag_p widetag \<longleftrightarrow> widetag OR 4 = FUNCALLABLE_INSTANCE_WIDETAG"

text \<open>An \<open>int\<close>; it has at most 15 bits.\<close>

definition instance_length :: "lispobj \<Rightarrow> uword" where
  "instance_length header =
     (let extra = drop_bit 10 (ucast header :: u32) AND drop_bit 9 (ucast header :: u32) AND 1
      in ucast ((drop_bit 10 (ucast header :: u32) AND 0x3FFF) + extra))"

definition instanceoid_length :: "lispobj \<Rightarrow> uword" where
  "instanceoid_length header =
     (if header AND 4 \<noteq> 0 then HeaderValue header AND 0x7FFF else instance_length header)"

text \<open>With compact instance headers the layout is the upper half of the header.\<close>

definition layout_of :: "heap \<Rightarrow> uword \<Rightarrow> lispobj" where
  "layout_of h native_ptr = ucast (heap_u32 h (native_ptr + 4))"

record layout_abi =
  sizeof_layout :: uword
  sw_flags_offset :: uword
  uw_id_word0_offset :: uword
  LFLIST_NODE_LAYOUT_ID :: u32

definition layout_depth2_id :: "layout_abi \<Rightarrow> heap \<Rightarrow> uword \<Rightarrow> u32" where
  "layout_depth2_id L h layout = heap_u32 h (layout + uw_id_word0_offset L)"

definition lockfree_list_node_layout_p :: "layout_abi \<Rightarrow> heap \<Rightarrow> uword \<Rightarrow> bool" where
  "lockfree_list_node_layout_p L h layout \<longleftrightarrow> layout_depth2_id L h layout = LFLIST_NODE_LAYOUT_ID L"

record bitmap =
  bitmap_bits :: uword
  bitmap_nwords :: u32

text \<open>\<open>extra_id_words\<close> and \<open>payload_words\<close> are \<open>int\<close>s, \<open>depthoid\<close> is signed.\<close>

definition get_layout_bitmap :: "layout_abi \<Rightarrow> heap \<Rightarrow> uword \<Rightarrow> bitmap" where
  "get_layout_bitmap L h layout =
     (let depthoid = signed_drop_bit (32 + N_FIXNUM_TAG_BITS) (h (layout + sw_flags_offset L));
          extra_id_words = (if 7 <s depthoid then drop_bit 1 (ALIGN_UP (depthoid - 7) 2) else 0);
          baseline_payload_words = drop_bit 3 (sizeof_layout L) - 1;
          payload_words = drop_bit 10 (ucast (h layout) :: u32) AND 0x3FFF
      in \<lparr>bitmap_bits = layout + sizeof_layout L + push_bit 3 extra_id_words,
          bitmap_nwords = payload_words - ucast baseline_payload_words - ucast extra_id_words\<rparr>)"

definition bitmap_logbitp :: "heap \<Rightarrow> u32 \<Rightarrow> bitmap \<Rightarrow> bool" where
  "bitmap_logbitp h index b =
     (let word_index = drop_bit 6 index; bit_index = index AND 63
      in if word_index \<ge> bitmap_nwords b
         then h (bitmap_bits b + push_bit 3 (ucast (bitmap_nwords b - 1))) <s 0
         else bit (h (bitmap_bits b + push_bit 3 (ucast word_index))) (unat bit_index))"

section \<open>Code\<close>

definition code_total_nwords :: "heap \<Rightarrow> uword \<Rightarrow> uword" where
  "code_total_nwords h c = scast (ucast (drop_bit 32 (h c)) :: u32)"

definition code_boxed_len :: "heap \<Rightarrow> uword \<Rightarrow> uword" where
  "code_boxed_len h c = h (c + 8) AND 0xFFFFFFFF"

definition code_header_words :: "heap \<Rightarrow> uword \<Rightarrow> uword" where
  "code_header_words h c = signed_drop_bit 3 (code_boxed_len h c)"

definition code_fun_table :: "heap \<Rightarrow> uword \<Rightarrow> uword" where
  "code_fun_table h code = code + 8 * code_total_nwords h code - 4"

definition code_trailer_len :: "heap \<Rightarrow> uword \<Rightarrow> u16" where
  "code_trailer_len h code = heap_u16 h (code + 8 * code_total_nwords h code - 2)"

definition code_n_funs :: "heap \<Rightarrow> uword \<Rightarrow> u16" where
  "code_n_funs h code =
     (if code_trailer_len h code = 0 then 0 else drop_bit 5 (heap_u16 h (code_fun_table h code)))"

definition code_text_start :: "heap \<Rightarrow> uword \<Rightarrow> uword" where
  "code_text_start h code = code + code_boxed_len h code"

text \<open>The addresses that \<open>for_each_simple_fun\<close> visits, in its order.\<close>

definition simple_funs :: "heap \<Rightarrow> uword \<Rightarrow> uword list" where
  "simple_funs h code =
     map (\<lambda>i. code_text_start h code + ucast (heap_u32 h (code_fun_table h code - 4 - 4 * of_nat i)))
       [0..<unat (code_n_funs h code)]"

text \<open>The build writes \<open>fun_code_header\<close>.\<close>

definition fun_code_header :: "heap \<Rightarrow> uword \<Rightarrow> uword" where
  "fun_code_header h fn = fn - 8 * ucast (drop_bit 8 (ucast (h fn) :: u32))"

section \<open>Weak pointers\<close>

text \<open>The build writes these too; the link is the upper 48 bits of the header.\<close>

definition weakptr_vectorp :: "heap \<Rightarrow> uword \<Rightarrow> bool" where
  "weakptr_vectorp h wp \<longleftrightarrow> h wp AND 0x100 = 0"

definition get_weak_pointer_next :: "heap \<Rightarrow> uword \<Rightarrow> uword" where
  "get_weak_pointer_next h wp = drop_bit 16 (h wp)"

definition set_weak_pointer_next :: "uword \<Rightarrow> uword \<Rightarrow> heap \<Rightarrow> heap" where
  "set_weak_pointer_next wp nxt h = h(wp := push_bit 16 nxt OR (h wp AND 0xFFFF))"

section \<open>Sizes\<close>

text \<open>\<open>length_\<close> is the word after the header, a fixnum.\<close>

definition vector_len :: "heap \<Rightarrow> uword \<Rightarrow> uword" where
  "vector_len h v = drop_bit 1 (h (v + 8))"

definition NWORDS :: "uword \<Rightarrow> uword \<Rightarrow> uword" where
  "NWORDS x n_bits =
     (if n_bits \<le> 64 then let elements_per_word = 64 div n_bits
                           in ALIGN_UP x elements_per_word div elements_per_word
      else x * (n_bits div 64))"

definition size_boxed :: "heap \<Rightarrow> uword \<Rightarrow> uword" where
  "size_boxed h obj = 1 + BOXED_NWORDS (h obj)"

definition size_short_boxed :: "heap \<Rightarrow> uword \<Rightarrow> uword" where
  "size_short_boxed h obj = 1 + SHORT_BOXED_NWORDS (h obj)"

definition size_code_blob :: "heap \<Rightarrow> uword \<Rightarrow> uword" where
  "size_code_blob h obj = code_total_nwords h obj"

definition size_filler :: "heap \<Rightarrow> uword \<Rightarrow> uword" where
  "size_filler h obj = filler_total_nwords (h obj)"

definition SYMBOL_SIZE :: uword where "SYMBOL_SIZE = 6"
definition FDEFN_SIZE :: uword where "FDEFN_SIZE = 4"
definition WEAK_POINTER_SIZE :: uword where "WEAK_POINTER_SIZE = 2"

definition size_symbol :: "heap \<Rightarrow> uword \<Rightarrow> uword" where
  "size_symbol h obj = ALIGN_UP SYMBOL_SIZE 2"

definition size_fdefn :: "heap \<Rightarrow> uword \<Rightarrow> uword" where
  "size_fdefn h obj = FDEFN_SIZE"

text \<open>The rank is stored less 1, in 8 bits; \<open>struct array\<close> has 8 words.\<close>

definition array_header_nwords :: "lispobj \<Rightarrow> uword" where
  "array_header_nwords header =
     (let rank = (ucast (drop_bit 8 header) :: u8) + 1; nwords = 8 + (ucast rank - 1) in ALIGN_UP nwords 2)"

definition size_array :: "heap \<Rightarrow> uword \<Rightarrow> uword" where
  "size_array h obj = array_header_nwords (h obj)"

definition size_instance :: "heap \<Rightarrow> uword \<Rightarrow> uword" where
  "size_instance h obj = 1 + (instance_length (h obj) OR 1)"

definition bignum_nwords :: "lispobj \<Rightarrow> uword" where
  "bignum_nwords header =
     (let ndigits = drop_bit N_WIDETAG_BITS header AND 0xFFFFFFFF in 1 + (ndigits OR 1))"

definition size_bignum :: "heap \<Rightarrow> uword \<Rightarrow> uword" where
  "size_bignum h obj = bignum_nwords (h obj)"

definition size_unboxed :: "heap \<Rightarrow> uword \<Rightarrow> uword" where
  "size_unboxed h obj = ALIGN_UP (ucast (ucast (drop_bit 8 (h obj)) :: u8) + 1) 2"

definition size_vector_t :: "heap \<Rightarrow> uword \<Rightarrow> uword" where
  "size_vector_t h obj = ALIGN_UP (vector_len h obj + 2) 2"

definition size_weakptr :: "heap \<Rightarrow> uword \<Rightarrow> uword" where
  "size_weakptr h obj = (if weakptr_vectorp h obj then size_vector_t h obj else ALIGN_UP WEAK_POINTER_SIZE 2)"

definition size_vector_nil :: "heap \<Rightarrow> uword \<Rightarrow> uword" where
  "size_vector_nil h obj = ALIGN_UP (0 * vector_len h obj + 2) 2"

definition size_vector_bit :: "heap \<Rightarrow> uword \<Rightarrow> uword" where
  "size_vector_bit h obj = ALIGN_UP (NWORDS (vector_len h obj) 1 + 2) 2"

definition size_base_string :: "heap \<Rightarrow> uword \<Rightarrow> uword" where
  "size_base_string h obj = ALIGN_UP (NWORDS (vector_len h obj + 1) 8 + 2) 2"

definition size_vector_unsigned_byte :: "uword \<Rightarrow> heap \<Rightarrow> uword \<Rightarrow> uword" where
  "size_vector_unsigned_byte nbits h obj = ALIGN_UP (NWORDS (vector_len h obj) nbits + 2) 2"

text \<open>
  The entries of \<open>sizetab\<close> for headered objects, by widetag. The size of a simple function
  cannot be taken.
\<close>

definition headered_size :: "(uword \<times> (heap \<Rightarrow> uword \<Rightarrow> uword) option) list" where
  "headered_size =
     [(0x11, Some size_bignum), (0x15, Some size_boxed), (0x1D, Some size_unboxed),
      (0x21, Some size_boxed), (0x25, Some size_unboxed), (0x29, Some size_unboxed),
      (0x35, Some size_code_blob), (0x41, None), (0x45, Some size_short_boxed),
      (0x3D, Some size_short_boxed), (0x4D, Some size_boxed), (0x2D, Some size_symbol),
      (0x31, Some size_unboxed), (0x59, Some size_weakptr), (0x39, Some size_instance),
      (0x5D, Some size_fdefn), (0x65, Some size_unboxed), (0x69, Some size_unboxed),
      (0x6D, Some size_filler), (0x81, Some size_array),
      (0x91, Some (size_vector_unsigned_byte 2)), (0x95, Some (size_vector_unsigned_byte 4)),
      (0x99, Some (size_vector_unsigned_byte 8)), (0x9D, Some (size_vector_unsigned_byte 8)),
      (0xA1, Some (size_vector_unsigned_byte 16)), (0xA5, Some (size_vector_unsigned_byte 16)),
      (0xB1, Some (size_vector_unsigned_byte 64)), (0xA9, Some (size_vector_unsigned_byte 32)),
      (0xAD, Some (size_vector_unsigned_byte 32)), (0xB5, Some (size_vector_unsigned_byte 64)),
      (0xB9, Some (size_vector_unsigned_byte 64)), (0xBD, Some (size_vector_unsigned_byte 8)),
      (0xC1, Some (size_vector_unsigned_byte 16)), (0xC5, Some (size_vector_unsigned_byte 32)),
      (0xC9, Some (size_vector_unsigned_byte 64)), (0xCD, Some (size_vector_unsigned_byte 64)),
      (0xD1, Some (size_vector_unsigned_byte 32)), (0xD5, Some (size_vector_unsigned_byte 64)),
      (0xD9, Some (size_vector_unsigned_byte 64)), (0xDD, Some (size_vector_unsigned_byte 128)),
      (0x8D, Some size_vector_bit), (0x89, Some size_vector_t), (0x85, Some size_vector_nil),
      (0xE1, Some size_base_string), (0xE5, Some (size_vector_unsigned_byte 32)),
      (0xED, Some size_array), (0xE9, Some size_array), (0xF1, Some size_array),
      (0xF5, Some size_array), (0xF9, Some size_array)]"

text \<open>
  What \<open>sizetab\<close> holds for a widetag: the null pointer for the words that can begin a cons,
  a size function, or \<open>size_lose\<close>.
\<close>

datatype sizer = No_sizer | Sizer "heap \<Rightarrow> uword \<Rightarrow> uword" | Size_lose

definition sizetab :: "uword \<Rightarrow> sizer" where
  "sizetab widetag =
     (if widetag AND 1 = 0 \<or> widetag AND 3 = 3 \<or>
         widetag \<in> {SINGLE_FLOAT_WIDETAG, CHARACTER_WIDETAG, UNBOUND_MARKER_WIDETAG} then No_sizer
      else case map_of headered_size widetag of Some (Some f) \<Rightarrow> Sizer f | _ \<Rightarrow> Size_lose)"

definition object_size :: "heap \<Rightarrow> uword \<Rightarrow> uword result" where
  "object_size h obj =
     (case sizetab (widetag_of h obj) of No_sizer \<Rightarrow> Inr (of_nat CONS_SIZE)
      | Sizer f \<Rightarrow> Inr (f h obj) | Size_lose \<Rightarrow> Inl Lose)"

text \<open>\<open>headerobj_size\<close> calls the entry without testing it; a null entry stops the process.\<close>

definition headerobj_size :: "heap \<Rightarrow> uword \<Rightarrow> uword result" where
  "headerobj_size h obj =
     (case sizetab (widetag_of h obj) of Sizer f \<Rightarrow> Inr (f h obj) | _ \<Rightarrow> Inl Lose)"

text \<open>The table \<open>widetag_lowtag\<close>.\<close>

definition widetag_lowtag :: "uword \<Rightarrow> u8" where
  "widetag_lowtag byte =
     (case map_of headered_size byte of
        Some _ \<Rightarrow>
          0x80 + (if byte = INSTANCE_WIDETAG then 3
                  else if byte \<in> {FUNCALLABLE_INSTANCE_WIDETAG, SIMPLE_FUN_WIDETAG, CLOSURE_WIDETAG}
                  then 11 else if byte = FILLER_WIDETAG then 0 else 15)
      | None \<Rightarrow>
          if byte AND 1 = 0 \<or> byte AND 3 = 3 \<or>
             byte \<in> {SINGLE_FLOAT_WIDETAG, CHARACTER_WIDETAG, UNBOUND_MARKER_WIDETAG}
          then 7 else 0)"

section \<open>Sizes are even\<close>

text \<open>An even, positive number of words.\<close>

definition whole_pairs :: "uword \<Rightarrow> bool" where
  "whole_pairs n \<longleftrightarrow> even (unat n) \<and> n \<noteq> 0"

lemma ALIGN_UP_pairs:
  assumes "0 < unat x" and "unat x < 2 ^ 64 - 1"
  shows "whole_pairs (ALIGN_UP x 2)"
proof -
  have "unat (ALIGN_UP x 2) = (unat x + 1) div 2 * 2"
    using unat_ALIGN_UP[of x 1] assms(2) by simp
  moreover have "0 < (unat x + 1) div 2" using assms(1) by linarith
  ultimately show ?thesis by (auto simp: whole_pairs_def simp flip: unat_gt_0)
qed

lemma round_to_odd_pairs:
  fixes x :: uword
  assumes "unat x < 2 ^ 63"
  shows "whole_pairs (1 + (x OR 1))"
proof -
  have "unat (x OR 1) = unat x OR 1" by (simp add: unsigned_or_eq)
  moreover have "unat x OR 1 < 2 ^ 63"
    using assms or_one_eq[of "unat x"] by (simp add: of_bool_def) presburger
  moreover have "odd (unat x OR 1)" by (simp add: even_or_iff)
  ultimately have "unat (1 + (x OR 1)) = 1 + (unat x OR 1)" and "odd (unat x OR 1)"
    by (simp_all add: unat_word_ariths)
  then show ?thesis by (auto simp: whole_pairs_def simp flip: unat_gt_0)
qed

lemma unat_and_less: "unat m < b \<Longrightarrow> unat ((w :: 'a::len word) AND m) < b"
  using unat_and_le2[of w m] by simp

lemma unat_NWORDS:
  assumes "unat x < 2 ^ 62 + 1" and "n \<in> {1, 2, 4, 8, 16, 32, 64}"
  shows "unat (NWORDS x n) < 2 ^ 62 + 64"
proof -
  define k :: nat where "k = (if n = 1 then 6 else if n = 2 then 5 else if n = 4 then 4 else if n = 8 then 3
    else if n = 16 then 2 else if n = 32 then 1 else 0)"
  have k: "64 div n = 2 ^ k" "k \<le> 6" and le: "n \<le> 64" using assms(2) by (auto simp: k_def)
  have p: "(2 :: nat) ^ k \<le> 64" using power_increasing[OF k(2), of "2 :: nat"] by simp
  then have "unat x + (2 ^ k - 1) < 2 ^ 64" using assms(1) by simp
  then have a: "unat (ALIGN_UP x (2 ^ k)) = (unat x + (2 ^ k - 1)) div 2 ^ k * 2 ^ k"
    using k(2) by (intro unat_ALIGN_UP) simp_all
  have "unat ((2 :: uword) ^ k) = unat (of_nat (2 ^ k) :: uword)" by simp
  also have "\<dots> = 2 ^ k" using p by (simp only: unat_of_nat) simp
  finally have "unat ((2 :: uword) ^ k) = 2 ^ k" .
  then have "unat (NWORDS x n) = (unat x + (2 ^ k - 1)) div 2 ^ k"
    using le by (simp add: NWORDS_def k(1) Let_def unat_div a)
  also have "\<dots> \<le> unat x + (2 ^ k - 1)" by (rule div_le_dividend)
  also have "\<dots> < 2 ^ 62 + 64" using assms(1) add_less_le_mono[of "unat x" "2 ^ 62 + 1" "2 ^ k - 1" 63] p by simp
  finally show ?thesis .
qed

lemma vector_pairs:
  assumes "unat x \<le> 2 ^ 63"
  shows "whole_pairs (ALIGN_UP (x + 2) 2)"
proof -
  have "unat (x + 2) = unat x + 2" using assms by (simp add: unat_word_ariths)
  then show ?thesis using assms by (intro ALIGN_UP_pairs) simp_all
qed

lemma NWORDS_pairs:
  "unat x < 2 ^ 62 + 1 \<Longrightarrow> n \<in> {1, 2, 4, 8, 16, 32, 64} \<Longrightarrow> whole_pairs (ALIGN_UP (NWORDS x n + 2) 2)"
  using unat_NWORDS[of x n] by (intro vector_pairs) simp

lemma unat_ucast_u8: "unat (ucast (x :: u8) :: uword) = unat x"
  unfolding unsigned_ucast_eq by (rule take_bit_nat_eq_self) (use unat_lt[of x] in simp)

lemma unat_ucast_u32: "unat (ucast (x :: u32) :: uword) = unat x"
  unfolding unsigned_ucast_eq by (rule take_bit_nat_eq_self) (use unat_lt[of x] in simp)

lemma size_pairs:
  shows "whole_pairs (size_boxed h obj)" "whole_pairs (size_short_boxed h obj)"
    "whole_pairs (size_bignum h obj)" "whole_pairs (size_symbol h obj)" "whole_pairs (size_fdefn h obj)"
    "whole_pairs (size_instance h obj)" "whole_pairs (size_unboxed h obj)" "whole_pairs (size_array h obj)"
    "whole_pairs (size_vector_nil h obj)"
proof -
  have b: "unat ((HeaderValue (h obj) AND 0x7FFFFF) :: uword) < 2 ^ 63"
    "unat ((HeaderValue (h obj) AND 0x7FFF) :: uword) < 2 ^ 63"
    "unat ((drop_bit N_WIDETAG_BITS (h obj) AND 0xFFFFFFFF) :: uword) < 2 ^ 63"
    by (rule unat_and_less, simp)+
  show "whole_pairs (size_boxed h obj)" "whole_pairs (size_short_boxed h obj)"
    "whole_pairs (size_bignum h obj)"
    using round_to_odd_pairs[OF b(1)] round_to_odd_pairs[OF b(2)] round_to_odd_pairs[OF b(3)]
    by (simp_all add: size_boxed_def size_short_boxed_def size_bignum_def BOXED_NWORDS_def
        SHORT_BOXED_NWORDS_def bignum_nwords_def Let_def or.assoc)
  show "whole_pairs (size_symbol h obj)" "whole_pairs (size_fdefn h obj)" "whole_pairs (size_vector_nil h obj)"
    by (simp_all add: size_symbol_def SYMBOL_SIZE_def size_fdefn_def FDEFN_SIZE_def size_vector_nil_def
        whole_pairs_def ALIGN_UP_def)
  have "unat (instance_length (h obj)) < 2 ^ 32"
  proof -
    have "unat (ucast (x :: u32) :: uword) < 2 ^ 32" for x
      using unat_lt[of x] by (simp add: unat_ucast_u32)
    then show ?thesis by (simp only: instance_length_def Let_def)
  qed
  then show "whole_pairs (size_instance h obj)"
    using round_to_odd_pairs[of "instance_length (h obj)"] by (simp add: size_instance_def)
  have "unat (ucast (x :: u8) + 1 :: uword) = unat x + 1" for x
    using unat_lt[of x] by (simp add: unat_word_ariths unat_ucast_u8)
  then show "whole_pairs (size_unboxed h obj)"
    unfolding size_unboxed_def using unat_lt[of "ucast (drop_bit 8 (h obj)) :: u8"]
    by (intro ALIGN_UP_pairs) simp_all
  have "unat (8 + (ucast (x :: u8) - 1) :: uword) = unat x + 7" for x
  proof -
    have "8 + (ucast x - 1) = (ucast x + 7 :: uword)" by simp
    then show ?thesis using unat_lt[of x] by (simp add: unat_word_ariths unat_ucast_u8)
  qed
  then show "whole_pairs (size_array h obj)"
    unfolding size_array_def array_header_nwords_def Let_def
    using unat_lt[of "(ucast (drop_bit 8 (h obj)) :: u8) + 1"] by (intro ALIGN_UP_pairs) simp_all
qed

lemma size_vector_pairs:
  assumes "unat (vector_len h obj) < 2 ^ 62"
  shows "whole_pairs (size_vector_t h obj)" "whole_pairs (size_vector_bit h obj)"
    "whole_pairs (size_base_string h obj)" "n \<in> {1, 2, 4, 8, 16, 32, 64, 128} \<Longrightarrow> whole_pairs (size_vector_unsigned_byte n h obj)"
proof -
  show "whole_pairs (size_vector_t h obj)"
    unfolding size_vector_t_def using assms by (intro vector_pairs) simp
  show "whole_pairs (size_vector_bit h obj)"
    unfolding size_vector_bit_def using assms by (intro NWORDS_pairs) simp_all
  have "unat (vector_len h obj + 1) = unat (vector_len h obj) + 1"
    using assms by (simp add: unat_word_ariths)
  then show "whole_pairs (size_base_string h obj)"
    unfolding size_base_string_def using assms by (intro NWORDS_pairs) simp_all
  show "whole_pairs (size_vector_unsigned_byte n h obj)" if "n \<in> {1, 2, 4, 8, 16, 32, 64, 128}"
  proof (cases "n = 128")
    case True
    have "unat (vector_len h obj * 2) = unat (vector_len h obj) * 2"
      using assms by (simp add: unat_word_ariths)
    then show ?thesis
      using assms unfolding size_vector_unsigned_byte_def True NWORDS_def by (intro vector_pairs) simp
  next
    case False
    then show ?thesis
      unfolding size_vector_unsigned_byte_def using assms that by (intro NWORDS_pairs) auto
  qed
qed

text \<open>
  The objects whose size the word behind the header decides: the vectors (their widetags run from
  simple vectors to character strings; vectors without storage come before them) and the weak
  vectors among the weak pointers.
\<close>

definition sized_by_length :: "heap \<Rightarrow> uword \<Rightarrow> bool" where
  "sized_by_length h obj \<longleftrightarrow>
     SIMPLE_VECTOR_WIDETAG \<le> widetag_of h obj \<and> widetag_of h obj \<le> 0xE5 \<or>
     widetag_of h obj = WEAK_POINTER_WIDETAG \<and> weakptr_vectorp h obj"

lemma size_weakptr_pairs:
  assumes "weakptr_vectorp h obj \<Longrightarrow> unat (vector_len h obj) < 2 ^ 62"
  shows "whole_pairs (size_weakptr h obj)"
  using size_vector_pairs(1)[of h obj] assms
  by (auto simp: size_weakptr_def whole_pairs_def ALIGN_UP_def WEAK_POINTER_SIZE_def)

text \<open>C32: Sizes. Every object whose kind has a size and does not store it in full (code objects
  and fillers do) takes up an even, positive number of words, whatever the rest of its header and
  its words are: conses, numbers, boxed and unboxed objects, arrays, instances, symbols, weak
  pointers, and, if their length is below 2^62, weak vectors and vectors of every element width; so
  walking a space object by object always moves forward and stays aligned. The bound on the
  length concerns only the objects that have one (\<open>sized_by_length\<close>).\<close>

theorem object_size_pairs:
  assumes "object_size h obj = Inr n"
    and "widetag_of h obj \<notin> {CODE_HEADER_WIDETAG, FILLER_WIDETAG}"
    and "sized_by_length h obj \<Longrightarrow> unat (vector_len h obj) < 2 ^ 62"
  shows "even (unat n) \<and> 0 < unat n"
proof -
  have tab: "whole_pairs (f h obj)" if "map_of headered_size (widetag_of h obj) = Some (Some f)" for f
  proof (cases "sized_by_length h obj")
    case True
    have "(widetag_of h obj, Some f) \<in> set headered_size" using that by (rule map_of_SomeD)
    then show ?thesis
      using assms(2) size_pairs[of h obj] size_vector_pairs[OF assms(3)[OF True]]
        size_weakptr_pairs[OF assms(3)[OF True]]
      by (auto simp: headered_size_def CODE_HEADER_WIDETAG_def FILLER_WIDETAG_def)
  next
    case False
    have "(widetag_of h obj, Some f) \<in> set headered_size" using that by (rule map_of_SomeD)
    moreover have "whole_pairs (size_weakptr h obj)" if "widetag_of h obj = WEAK_POINTER_WIDETAG"
      using False that by (intro size_weakptr_pairs) (simp add: sized_by_length_def)
    ultimately show ?thesis
      using assms(2) False size_pairs[of h obj]
      by (auto simp: headered_size_def sized_by_length_def widetags)
  qed
  have "whole_pairs n"
    using assms(1) tab
    by (auto simp: object_size_def sizetab_def CONS_SIZE_def whole_pairs_def split: if_splits option.splits)
  then show ?thesis by (simp add: whole_pairs_def unat_gt_0)
qed

text \<open>A bit vector of length 100, and a cons whose cdr is a negative fixnum.\<close>

lemma object_size_pairs_witness:
  "object_size (\<lambda>a. if a = 0x1000 then 0x8D else 200) 0x1000 = Inr 4 \<and> even (unat (4 :: uword)) \<and>
   object_size (\<lambda>a. if a = 0x1000 then 6 else - 2) 0x1000 = Inr 2 \<and> even (unat (2 :: uword))"
proof -
  let ?v = "\<lambda>a. if a = 0x1000 then 0x8D else 200" and ?c = "\<lambda>a. if a = 0x1000 then 6 else - 2"
  have v: "object_size ?v 0x1000 = Inr 4" and c: "object_size ?c 0x1000 = Inr 2" by code_simp+
  have "widetag_of ?v 0x1000 \<notin> {CODE_HEADER_WIDETAG, FILLER_WIDETAG}"
    and "widetag_of ?c 0x1000 \<notin> {CODE_HEADER_WIDETAG, FILLER_WIDETAG}"
    and s: "\<not> sized_by_length ?c 0x1000" by code_simp+
  moreover have "vector_len ?v 0x1000 = 100" by code_simp
  then have "unat (vector_len ?v 0x1000) < 2 ^ 62" by simp
  ultimately show ?thesis
    using object_size_pairs[OF v] object_size_pairs[OF c] v c by blast
qed

end
