(* ===== verification/MarkQueue.thy ===== *)
theory MarkQueue
  imports Tracing PrivateCons Objects Hopscotch
begin

text \<open>
  The queue of the mark phase of a full collection (\<open>fullcgc.c\<close>, \<open>queue.h\<close>): a list of
  page-sized blocks, each a circular buffer, with a list of emptied blocks for reuse. New
  blocks are whole pages taken from the end of dynamic space downward; when they meet the
  allocated part of the space, the process stops. It is an
  interpretation of the bounded first-in-first-out queue of \<open>Tracing\<close>.
\<close>

section \<open>Blocks and pages\<close>

definition sizeof_Qblock :: nat where
  "sizeof_Qblock = 24"

definition QBLOCK_BYTES :: nat where
  "QBLOCK_BYTES = GENCGC_PAGE_BYTES"

definition QBLOCK_CAPACITY :: nat where
  "QBLOCK_CAPACITY = 1 + (QBLOCK_BYTES - sizeof_Qblock) div 8"

record Qblock =
  qcount :: nat
  qtail :: nat
  qnext :: nat
  elements :: "nat \<Rightarrow> lispobj"

text \<open>
  The state of the marker: the collector's global state and its private cells; the blocks by
  address, the three pointers of \<open>scav_queue\<close>, the page after which the next block is taken;
  the mark bits with the index of the first bit of the fixed-object and the text space; and the
  weak objects found so far, as lists (\<open>weak_vectors\<close> of private cells, the others linked through
  the objects) and the table \<open>weak_objects\<close> from keys to what they keep alive.
\<close>

record marker =
  gcs :: gc
  conses :: private_conses
  blocks :: "nat \<Rightarrow> Qblock"
  head_block :: nat
  tail_block :: nat
  recycler :: nat
  free_page :: nat
  fullcgcmarks :: "nat \<Rightarrow> uword"
  fixedobj_index_bit_bias :: int
  text_index_bit_bias :: int
  weak_vectors :: uword
  weak_pointer_chain :: uword
  weak_hash_tables :: uword
  weak_objects :: hopscotch_table

definition set_block :: "nat \<Rightarrow> (Qblock \<Rightarrow> Qblock) \<Rightarrow> marker \<Rightarrow> marker" where
  "set_block b f m = m\<lparr>blocks := (blocks m)(b := f (blocks m b))\<rparr>"

text \<open>\<open>page_index_t\<close> is signed, so that taking the page before page 0 is a collision too.\<close>

definition get_free_page :: "marker \<Rightarrow> (nat \<times> marker) result" where
  "get_free_page m =
     (if int (free_page m) - 1 < int (next_free_page (gcs m)) then Inl Lose
      else let m = m\<lparr>free_page := free_page m - 1\<rparr>;
               p = free_page m;
               g = set_page_type p PAGE_TYPE_UNBOXED (gcs m);
               mem = page_address g p
           in rbind (prepare_pages p p PAGE_TYPE_UNBOXED (- 1) g) (\<lambda>g. Inr (mem, m\<lparr>gcs := g\<rparr>)))"

definition take_block :: "marker \<Rightarrow> (nat \<times> marker) result" where
  "take_block m =
     (let next = recycler m
      in if next \<noteq> 0 then Inr (next, m\<lparr>recycler := qnext (blocks m next)\<rparr>) else get_free_page m)"

text \<open>The new tail block of a queue whose tail block is full.\<close>

definition extend_queue :: "marker \<Rightarrow> marker result" where
  "extend_queue m =
     (let block = tail_block m
      in rbind (take_block m)
         (\<lambda>(next, m).
            let m = set_block block (\<lambda>b. b\<lparr>qnext := next\<rparr>) m;
                block = next;
                m = set_block block (\<lambda>b. b\<lparr>qnext := 0\<rparr>) m;
                m = set_block block (\<lambda>b. b\<lparr>qtail := 0, qcount := 0\<rparr>) m
            in Inr (m\<lparr>tail_block := block\<rparr>)))"

definition push_element :: "lispobj \<Rightarrow> marker \<Rightarrow> marker" where
  "push_element object m =
     (let block = tail_block m;
          m = set_block block (\<lambda>b. b\<lparr>elements := (elements b)(qtail b := object)\<rparr>) m;
          m = set_block block (\<lambda>b. b\<lparr>qtail := qtail b + 1\<rparr>) m;
          m = (if qtail (blocks m block) = QBLOCK_CAPACITY
               then set_block block (\<lambda>b. b\<lparr>qtail := 0\<rparr>) m else m)
      in set_block block (\<lambda>b. b\<lparr>qcount := qcount b + 1\<rparr>) m)"

definition gc_enqueue :: "lispobj \<Rightarrow> marker \<Rightarrow> marker result" where
  "gc_enqueue object m =
     rbind (if qcount (blocks m (tail_block m)) = QBLOCK_CAPACITY then extend_queue m else Inr m)
       (\<lambda>m. Inr (push_element object m))"

definition gc_dequeue :: "marker \<Rightarrow> (lispobj \<times> marker) result" where
  "gc_dequeue m =
     (let block = head_block m in
      gc_assert (qcount (blocks m block) \<noteq> 0)
        (let index = int (qtail (blocks m block)) - int (qcount (blocks m block));
             object = elements (blocks m block)
               (nat (index + (if index < 0 then int QBLOCK_CAPACITY else 0)));
             m = set_block block (\<lambda>b. b\<lparr>qcount := qcount b - 1\<rparr>) m
         in if qcount (blocks m block) = 0 then
              (let next = qnext (blocks m block)
               in if next \<noteq> 0 then
                    (let m = m\<lparr>head_block := next\<rparr>;
                         m = set_block block (\<lambda>b. b\<lparr>qnext := recycler m\<rparr>) m
                     in Inr (object, m\<lparr>recycler := block\<rparr>))
                  else Inr (object, m))
            else Inr (object, m)))"

section \<open>The queue as a sequence\<close>

text \<open>
  The elements of a block, oldest first; the blocks reached from an address through their
  \<open>next\<close> pointers; and the elements of the queue. \<open>block_chain m a bs\<close> holds when following
  the pointers from \<open>a\<close> visits \<open>bs\<close> and then ends.
\<close>

definition block_elements :: "Qblock \<Rightarrow> lispobj list" where
  "block_elements b =
     map (\<lambda>i. elements b ((qtail b + QBLOCK_CAPACITY - qcount b + i) mod QBLOCK_CAPACITY)) [0..<qcount b]"

fun block_chain :: "(nat \<Rightarrow> Qblock) \<Rightarrow> nat \<Rightarrow> nat list \<Rightarrow> bool" where
  "block_chain B a [] \<longleftrightarrow> a = 0"
| "block_chain B a (b # bs) \<longleftrightarrow> a = b \<and> b \<noteq> 0 \<and> block_chain B (qnext (B b)) bs"

definition queue_elements :: "(nat \<Rightarrow> Qblock) \<Rightarrow> nat list \<Rightarrow> lispobj list" where
  "queue_elements B bs = concat (map (\<lambda>b. block_elements (B b)) bs)"

definition block_ok :: "Qblock \<Rightarrow> bool" where
  "block_ok b \<longleftrightarrow> qcount b \<le> QBLOCK_CAPACITY \<and> qtail b < QBLOCK_CAPACITY"

text \<open>
  The shape of the queue: the blocks in use \<open>bs\<close> lead from the head to the tail, the
  blocks to reuse are \<open>rs\<close>, together they are the pages taken so far, each once; every
  block between the first and the last is full, and none before the last is empty.
\<close>

definition queue_shape :: "marker \<Rightarrow> nat list \<Rightarrow> nat list \<Rightarrow> bool" where
  "queue_shape m bs rs \<longleftrightarrow>
     bs \<noteq> [] \<and> block_chain (blocks m) (head_block m) bs \<and> last bs = tail_block m \<and>
     block_chain (blocks m) (recycler m) rs \<and>
     distinct (bs @ rs) \<and>
     set (bs @ rs) = page_address (gcs m) ` {free_page m..<page_table_pages (gcs m)} \<and>
     next_free_page (gcs m) \<le> free_page m \<and> free_page m \<le> page_table_pages (gcs m) \<and>
     0 < DYNAMIC_SPACE_START (gcs m) \<and>
     (\<forall>b \<in> set bs. block_ok (blocks m b)) \<and>
     (\<forall>b \<in> set (butlast (tl bs)). qcount (blocks m b) = QBLOCK_CAPACITY) \<and>
     (\<forall>b \<in> set (butlast bs). qcount (blocks m b) \<noteq> 0)"

definition queue_ok :: "marker \<Rightarrow> bool" where
  "queue_ok m \<longleftrightarrow> (\<exists>bs rs. queue_shape m bs rs)"

fun follow :: "(nat \<Rightarrow> Qblock) \<Rightarrow> nat \<Rightarrow> nat \<Rightarrow> nat list" where
  "follow B 0 a = []"
| "follow B (Suc n) a = (if a = 0 then [] else a # follow B n (qnext (B a)))"

definition pages_for_queue :: "marker \<Rightarrow> nat" where
  "pages_for_queue m = page_table_pages (gcs m) - next_free_page (gcs m)"

definition queue_contents :: "marker \<Rightarrow> lispobj list" where
  "queue_contents m = queue_elements (blocks m) (follow (blocks m) (pages_for_queue m) (head_block m))"

definition queue_room :: "marker \<Rightarrow> nat" where
  "queue_room m = 1 + (pages_for_queue m - 1) * QBLOCK_CAPACITY"

lemma QBLOCK_CAPACITY_pos: "0 < QBLOCK_CAPACITY"
  by (simp add: QBLOCK_CAPACITY_def)

lemma block_elements_length [simp]: "length (block_elements b) = qcount b"
  by (simp add: block_elements_def)

lemma block_elements_empty [simp]: "block_elements b = [] \<longleftrightarrow> qcount b = 0"
  by (simp add: block_elements_def)

lemma block_elements_cong:
  "qcount b = qcount b' \<Longrightarrow> qtail b = qtail b' \<Longrightarrow> elements b = elements b' \<Longrightarrow>
    block_elements b = block_elements b'"
  by (simp add: block_elements_def)

lemma follow_null [simp]: "follow B n 0 = []"
  by (cases n) simp_all

lemma block_chain_follow: "block_chain B a bs \<Longrightarrow> length bs \<le> n \<Longrightarrow> follow B n a = bs"
proof (induction bs arbitrary: a n)
  case (Cons b bs)
  then obtain k where "n = Suc k" by (cases n) auto
  then show ?case using Cons by auto
qed simp

lemma block_chain_cong:
  "\<forall>b \<in> set bs. qnext (B b) = qnext (B' b) \<Longrightarrow> block_chain B a bs \<longleftrightarrow> block_chain B' a bs"
  by (induction bs arbitrary: a) auto

lemma block_chain_snoc:
  assumes "block_chain B a (bs @ [t])" and "distinct (bs @ [t])" and "n \<noteq> 0" and "n \<notin> set (bs @ [t])"
    and "\<And>b. b \<in> set bs \<Longrightarrow> qnext (B' b) = qnext (B b)" and "qnext (B' t) = n" and "qnext (B' n) = 0"
  shows "block_chain B' a (bs @ [t, n])"
  using assms by (induction bs arbitrary: a) auto

lemma block_chain_last: "block_chain B a (bs @ [t]) \<Longrightarrow> qnext (B t) = 0"
  by (induction bs arbitrary: a) auto

lemma queue_elements_cong:
  "(\<And>b. b \<in> set bs \<Longrightarrow> block_elements (B b) = block_elements (B' b)) \<Longrightarrow>
    queue_elements B bs = queue_elements B' bs"
  unfolding queue_elements_def by (rule arg_cong[of _ _ concat], rule map_cong) auto

section \<open>One block\<close>

lemma ring_index_push:
  fixes C :: nat
  assumes "t < C" and "n < C" and "i < n"
  shows "(((t + 1) mod C) + C - (n + 1) + i) mod C = (t + C - n + i) mod C"
    and "(t + C - n + i) mod C \<noteq> t"
proof -
  have "((t + 1) mod C) = (if t + 1 = C then 0 else t + 1)" using assms(1) by simp
  moreover have "(t + C - n + i) mod C = (if t + i < n then t + C - n + i else t + i - n)"
  proof (cases "t + i < n")
    case False
    then have e: "t + C - n + i = C + (t + i - n)" and "t + i - n < C" using assms by linarith+
    then have "(C + (t + i - n)) mod C = t + i - n" by (simp only: mod_add_self1 mod_less)
    then show ?thesis using False unfolding e by simp
  qed (use assms in simp)
  ultimately show "(((t + 1) mod C) + C - (n + 1) + i) mod C = (t + C - n + i) mod C"
    and "(t + C - n + i) mod C \<noteq> t"
    using assms by (auto split: if_splits)
qed

lemma ring_index_newest:
  fixes C :: nat
  assumes "t < C" and "n < C"
  shows "(((t + 1) mod C) + C - (n + 1) + n) mod C = t"
proof (cases "t + 1 = C")
  case True
  then have "((t + 1) mod C) + C - (n + 1) + n = t" using assms by simp
  then show ?thesis using assms by simp
next
  case False
  then have "((t + 1) mod C) + C - (n + 1) + n = t + C" using assms by simp
  then show ?thesis using assms by simp
qed

lemma block_push:
  assumes "block_ok b" and "qcount b < QBLOCK_CAPACITY"
    and "elements c = (elements b)(qtail b := x)" and "qtail c = (qtail b + 1) mod QBLOCK_CAPACITY"
    and "qcount c = qcount b + 1"
  shows "block_elements c = block_elements b @ [x]" and "block_ok c"
proof -
  have t: "qtail b < QBLOCK_CAPACITY" using assms(1) by (simp add: block_ok_def)
  have "block_elements c = map (\<lambda>i. elements c ((qtail c + QBLOCK_CAPACITY - qcount c + i)
      mod QBLOCK_CAPACITY)) [0..<qcount b] @ [x]"
    unfolding block_elements_def using ring_index_newest[OF t assms(2)] assms(3-5) by simp
  also have "map (\<lambda>i. elements c ((qtail c + QBLOCK_CAPACITY - qcount c + i) mod QBLOCK_CAPACITY))
      [0..<qcount b] = block_elements b"
    unfolding block_elements_def assms(3-5)
    using ring_index_push[OF t assms(2)] by (intro map_cong) (auto simp del: mod_Suc_eq)
  finally show "block_elements c = block_elements b @ [x]" .
  show "block_ok c"
    using assms(2,4,5) QBLOCK_CAPACITY_pos by (simp add: block_ok_def)
qed

lemma block_pop:
  assumes "block_ok b" and "qcount b \<noteq> 0"
    and "elements c = elements b" and "qtail c = qtail b" and "qcount c = qcount b - 1"
  shows "block_elements b = elements b (nat (int (qtail b) - int (qcount b) +
      (if int (qtail b) - int (qcount b) < 0 then int QBLOCK_CAPACITY else 0))) # block_elements c"
    and "block_ok c"
proof -
  let ?C = QBLOCK_CAPACITY
  have b: "qtail b < ?C" "qcount b \<le> ?C" using assms(1) by (simp_all add: block_ok_def)
  obtain n where n: "qcount b = Suc n" using assms(2) by (cases "qcount b") auto
  have "(qtail b + ?C - qcount b) mod ?C =
      (if qtail b < qcount b then qtail b + ?C - qcount b else qtail b - qcount b)"
  proof (cases "qtail b < qcount b")
    case False
    then have e: "qtail b + ?C - qcount b = ?C + (qtail b - qcount b)" and "qtail b - qcount b < ?C"
      using b by linarith+
    then have "(?C + (qtail b - qcount b)) mod ?C = qtail b - qcount b"
      by (simp only: mod_add_self1 mod_less)
    then show ?thesis using False unfolding e by simp
  qed (use b in simp)
  then have i: "nat (int (qtail b) - int (qcount b) +
      (if int (qtail b) - int (qcount b) < 0 then int ?C else 0)) = (qtail b + ?C - qcount b + 0) mod ?C"
    using b by auto
  have "block_elements c = map (\<lambda>i. elements b ((qtail b + ?C - qcount b + i) mod ?C)) (map Suc [0..<n])"
    unfolding block_elements_def assms(3-5) n using b n by (simp add: Suc_diff_Suc)
  then show "block_elements b = elements b (nat (int (qtail b) - int (qcount b) +
      (if int (qtail b) - int (qcount b) < 0 then int ?C else 0))) # block_elements c"
    unfolding i map_Suc_upt by (simp add: block_elements_def n upt_conv_Cons del: upt_Suc)
  show "block_ok c" using b assms by (simp add: block_ok_def)
qed

section \<open>The whole queue\<close>

lemma page_address_inj: "page_address g i = page_address g j \<longleftrightarrow> i = j"
  by (simp add: page_address_def GENCGC_PAGE_BYTES_def)

lemma page_address_pos: "0 < DYNAMIC_SPACE_START g \<Longrightarrow> page_address g i \<noteq> 0"
  by (simp add: page_address_def)

lemma shape_pages:
  assumes "queue_shape m bs rs"
  shows "length bs + length rs = page_table_pages (gcs m) - free_page m"
proof -
  have "length (bs @ rs) = card (set (bs @ rs))"
    using assms by (intro distinct_card[symmetric]) (simp add: queue_shape_def)
  also have "\<dots> = card (page_address (gcs m) ` {free_page m..<page_table_pages (gcs m)})"
    using assms unfolding queue_shape_def by metis
  also have "\<dots> = page_table_pages (gcs m) - free_page m"
    by (subst card_image) (auto simp: inj_on_def page_address_inj)
  finally show ?thesis by simp
qed

lemma shape_contents:
  assumes "queue_shape m bs rs"
  shows "queue_contents m = queue_elements (blocks m) bs"
proof -
  have "length bs \<le> pages_for_queue m"
  proof -
    have "next_free_page (gcs m) \<le> free_page m" using assms by (simp add: queue_shape_def)
    then show ?thesis using shape_pages[OF assms] by (simp add: pages_for_queue_def)
  qed
  then show ?thesis
    using block_chain_follow[of "blocks m" "head_block m" bs] assms
    by (simp add: queue_contents_def queue_shape_def)
qed

lemma shape_tail:
  assumes "queue_shape m bs rs"
  obtains bs0 where "bs = bs0 @ [tail_block m]"
  using assms unfolding queue_shape_def by (metis append_butlast_last_id)

lemma queue_elements_append [simp]:
  "queue_elements B (xs @ ys) = queue_elements B xs @ queue_elements B ys"
  "queue_elements B [] = []"
  "queue_elements B (b # bs) = block_elements (B b) @ queue_elements B bs"
  by (simp_all add: queue_elements_def)

lemma push_element_eq:
  assumes "qtail (blocks m (tail_block m)) < QBLOCK_CAPACITY"
  shows "push_element x m = set_block (tail_block m)
    (\<lambda>b. b\<lparr>elements := (elements b)(qtail b := x), qtail := (qtail b + 1) mod QBLOCK_CAPACITY,
          qcount := qcount b + 1\<rparr>) m"
proof (cases "qtail (blocks m (tail_block m)) + 1 = QBLOCK_CAPACITY")
  case False
  then have "(qtail (blocks m (tail_block m)) + 1) mod QBLOCK_CAPACITY = qtail (blocks m (tail_block m)) + 1"
    using assms by simp
  then show ?thesis using False by (simp add: push_element_def set_block_def Let_def)
qed (simp add: push_element_def set_block_def Let_def)

lemma push_element_shape:
  assumes sh: "queue_shape m bs rs" and c: "qcount (blocks m (tail_block m)) < QBLOCK_CAPACITY"
  shows "queue_shape (push_element x m) bs rs"
    and "queue_contents (push_element x m) = queue_contents m @ [x]"
    and "queue_room (push_element x m) = queue_room m"
proof -
  let ?t = "tail_block m"
  obtain bs0 where bs: "bs = bs0 @ [?t]" by (rule shape_tail[OF sh])
  have ok: "block_ok (blocks m ?t)" using sh bs by (simp add: queue_shape_def)
  then have q: "qtail (blocks m ?t) < QBLOCK_CAPACITY" by (simp add: block_ok_def)
  define c where "c = (blocks m ?t)\<lparr>elements := (elements (blocks m ?t))(qtail (blocks m ?t) := x),
      qtail := (qtail (blocks m ?t) + 1) mod QBLOCK_CAPACITY, qcount := qcount (blocks m ?t) + 1\<rparr>"
  have e: "push_element x m = m\<lparr>blocks := (blocks m)(?t := c)\<rparr>"
    unfolding push_element_eq[OF q] set_block_def c_def by simp
  have p: "block_elements c = block_elements (blocks m ?t) @ [x]" "block_ok c"
    and n: "qnext c = qnext (blocks m ?t)"
    using block_push[OF ok c, of c x] by (simp_all add: c_def)
  have d: "?t \<notin> set bs0" "?t \<notin> set rs" using sh bs by (auto simp: queue_shape_def)
  have ch: "block_chain ((blocks m)(?t := c)) a l \<longleftrightarrow> block_chain (blocks m) a l" for a l
    by (rule block_chain_cong) (simp add: n)
  have mid: "set (butlast (tl bs)) \<subseteq> set bs0" "butlast bs = bs0"
    using bs by (cases bs0; auto dest: in_set_butlastD)+
  show s': "queue_shape (push_element x m) bs rs"
  proof -
    have n: "\<forall>b \<in> set (butlast bs). b \<noteq> ?t" "\<forall>b \<in> set (butlast (tl bs)). b \<noteq> ?t"
      using mid d(1) by auto
    show ?thesis
      using sh p(2) n unfolding e queue_shape_def
      by (simp add: ch)
  qed
  have "queue_elements ((blocks m)(?t := c)) bs0 = queue_elements (blocks m) bs0"
    by (rule queue_elements_cong) (use d in auto)
  then show "queue_contents (push_element x m) = queue_contents m @ [x]"
    unfolding shape_contents[OF s'] shape_contents[OF sh] using p(1) by (simp add: e bs)
  show "queue_room (push_element x m) = queue_room m"
    by (simp add: e queue_room_def pages_for_queue_def)
qed

lemma get_free_page_Inr:
  "get_free_page m = Inr (p, m1) \<longleftrightarrow>
    next_free_page (gcs m) < free_page m \<and> p = page_address (gcs m) (free_page m - 1) \<and>
    m1 = m\<lparr>free_page := free_page m - 1,
           gcs := set_page_type (free_page m - 1) PAGE_TYPE_UNBOXED (gcs m)\<rparr>"
proof -
  have "int (free_page m) - 1 < int (next_free_page (gcs m)) \<longleftrightarrow> \<not> next_free_page (gcs m) < free_page m"
    by linarith
  moreover have "PAGE_TYPE_UNBOXED \<noteq> PAGE_TYPE_MIXED"
    by (simp add: PAGE_TYPE_UNBOXED_def PAGE_TYPE_MIXED_def)
  ultimately show ?thesis
    by (auto simp: get_free_page_def Let_def prepare_pages_def gc_assert_def
        page_address_def set_page_type_def set_page_def)
qed

lemma take_block_fails:
  assumes "queue_shape m bs rs" and "take_block m = Inl e"
  shows "rs = []" and "free_page m = next_free_page (gcs m)"
proof -
  have r: "recycler m = 0" and g: "get_free_page m = Inl e"
    using assms(2) by (auto simp: take_block_def Let_def split: if_splits)
  show "rs = []" using assms(1) r by (cases rs) (auto simp: queue_shape_def)
  have "\<not> next_free_page (gcs m) < free_page m"
    using g get_free_page_Inr[of m] by (metis sum.distinct(1))
  then show "free_page m = next_free_page (gcs m)" using assms(1) by (simp add: queue_shape_def)
qed

lemma take_block_ok:
  assumes sh: "queue_shape m bs rs" and t: "take_block m = Inr (n, m1)"
  shows "\<exists>rs' k g. n \<noteq> 0 \<and> distinct (bs @ n # rs') \<and> block_chain (blocks m) (recycler m1) rs' \<and>
    m1 = m\<lparr>recycler := recycler m1, free_page := k, gcs := g\<rparr> \<and>
    page_table_pages g = page_table_pages (gcs m) \<and> next_free_page g = next_free_page (gcs m) \<and>
    DYNAMIC_SPACE_START g = DYNAMIC_SPACE_START (gcs m) \<and>
    next_free_page (gcs m) \<le> k \<and> k \<le> page_table_pages (gcs m) \<and>
    set (bs @ n # rs') = page_address g ` {k..<page_table_pages (gcs m)}"
proof (cases "recycler m = 0")
  case False
  then obtain rs' where rs: "rs = n # rs'" and m1: "m1 = m\<lparr>recycler := qnext (blocks m n)\<rparr>"
    using sh t by (cases rs) (auto simp: queue_shape_def take_block_def Let_def)
  show ?thesis
    using sh unfolding rs queue_shape_def
    by (intro exI[of _ rs'] exI[of _ "free_page m"] exI[of _ "gcs m"]) (simp add: m1)
next
  case True
  then have rs: "rs = []" using sh by (cases rs) (auto simp: queue_shape_def)
  let ?k = "free_page m - 1" and ?g = "set_page_type (free_page m - 1) PAGE_TYPE_UNBOXED (gcs m)"
  have g: "next_free_page (gcs m) < free_page m" "n = page_address (gcs m) ?k"
    "m1 = m\<lparr>free_page := ?k, gcs := ?g\<rparr>"
    using t True get_free_page_Inr[of m n m1] by (auto simp: take_block_def Let_def)
  have pa: "page_address ?g = page_address (gcs m)"
    by (simp add: page_address_def fun_eq_iff set_page_type_def)
  have k: "{?k..<page_table_pages (gcs m)} = insert ?k {free_page m..<page_table_pages (gcs m)}"
    using g(1) sh by (auto simp: queue_shape_def)
  have bs: "set bs = page_address (gcs m) ` {free_page m..<page_table_pages (gcs m)}"
    using sh rs by (simp add: queue_shape_def)
  have n: "n \<noteq> 0" "n \<notin> set bs"
    unfolding bs g(2) using g(1) sh
    by (auto simp: page_address_inj page_address_pos queue_shape_def)
  show ?thesis
    using sh n bs g k pa rs
    by (intro exI[of _ "[]"] exI[of _ ?k] exI[of _ ?g])
      (auto simp: queue_shape_def True set_page_type_def)
qed

lemma extend_queue_shape:
  assumes sh: "queue_shape m bs rs" and full: "qcount (blocks m (tail_block m)) = QBLOCK_CAPACITY"
    and t: "take_block m = Inr (n, m1)"
  shows "\<exists>m2 rs'. extend_queue m = Inr m2 \<and> queue_shape m2 (bs @ [n]) rs' \<and>
    queue_contents m2 = queue_contents m \<and> queue_room m2 = queue_room m \<and>
    qcount (blocks m2 (tail_block m2)) = 0"
proof -
  let ?t = "tail_block m"
  obtain rs' k g where n: "n \<noteq> 0" "distinct (bs @ n # rs')" "block_chain (blocks m) (recycler m1) rs'"
    and m1: "m1 = m\<lparr>recycler := recycler m1, free_page := k, gcs := g\<rparr>"
    and g: "page_table_pages g = page_table_pages (gcs m)" "next_free_page g = next_free_page (gcs m)"
      "DYNAMIC_SPACE_START g = DYNAMIC_SPACE_START (gcs m)"
    and k: "next_free_page (gcs m) \<le> k" "k \<le> page_table_pages (gcs m)"
      "set (bs @ n # rs') = page_address g ` {k..<page_table_pages (gcs m)}"
    using take_block_ok[OF sh t] by blast
  obtain bs0 where bs: "bs = bs0 @ [?t]" by (rule shape_tail[OF sh])
  have tn: "?t \<noteq> n" using n(2) bs by auto
  define B where "B = (blocks m)(?t := (blocks m ?t)\<lparr>qnext := n\<rparr>,
      n := (blocks m n)\<lparr>qnext := 0, qtail := 0, qcount := 0\<rparr>)"
  define m2 where "m2 = m\<lparr>blocks := B, recycler := recycler m1, free_page := k, gcs := g, tail_block := n\<rparr>"
  have m2s: "blocks m2 = B" "recycler m2 = recycler m1" "free_page m2 = k" "gcs m2 = g"
    "tail_block m2 = n" "head_block m2 = head_block m"
    by (simp_all add: m2_def)
  have e: "extend_queue m = Inr m2"
    unfolding extend_queue_def t rbind.simps Let_def prod.case
    using tn by (subst m1, subst m1) (simp add: m2_def B_def set_block_def)
  have B: "block_elements (B b) = block_elements (blocks m b)" "qcount (B b) = qcount (blocks m b)"
    "block_ok (B b) = block_ok (blocks m b)" if "b \<in> set bs" for b
    using that n(2) by (auto simp: B_def block_ok_def intro!: block_elements_cong)
  have "block_chain B (recycler m1) rs'"
    using n(2,3) bs by (subst block_chain_cong[of _ _ "blocks m"]) (auto simp: B_def)
  moreover have "block_chain B (head_block m) (bs @ [n])"
  proof -
    have "block_chain B (head_block m) (bs0 @ [?t, n])"
      by (rule block_chain_snoc[of "blocks m"]) (use sh bs n tn in \<open>auto simp: B_def queue_shape_def\<close>)
    then show ?thesis unfolding bs by simp
  qed
  moreover have "block_ok (B n)" using QBLOCK_CAPACITY_pos by (simp add: B_def block_ok_def)
  moreover have "\<forall>b \<in> set (butlast (tl (bs @ [n]))). qcount (B b) = QBLOCK_CAPACITY"
  proof
    fix b assume "b \<in> set (butlast (tl (bs @ [n])))"
    then have b: "b \<in> set (butlast (tl bs)) \<union> {?t}"
      using bs by (cases bs0) (auto simp: butlast_append)
    moreover have "set (butlast (tl bs)) \<subseteq> set bs"
      by (metis in_set_butlastD list.sel(2) list.set_sel(2) subsetI)
    ultimately have "b \<in> set bs" using bs by auto
    then show "qcount (B b) = QBLOCK_CAPACITY"
      using b sh full B(2)[of b] by (auto simp: queue_shape_def)
  qed
  moreover have "\<forall>b \<in> set bs. qcount (B b) \<noteq> 0"
    using sh full B(2) bs QBLOCK_CAPACITY_pos by (auto simp: queue_shape_def)
  ultimately have s2: "queue_shape m2 (bs @ [n]) rs'"
    using sh n(2) g k B(3) unfolding queue_shape_def m2s by simp
  have "block_elements (B n) = []" by (simp add: B_def)
  then have "queue_contents m2 = queue_contents m"
    unfolding shape_contents[OF s2] shape_contents[OF sh] m2s
    using queue_elements_cong[of bs B "blocks m"] B(1) by simp
  moreover have "queue_room m2 = queue_room m"
    by (simp add: queue_room_def pages_for_queue_def m2s g)
  moreover have "qcount (blocks m2 (tail_block m2)) = 0" by (simp add: m2s B_def)
  ultimately show ?thesis using e s2 by blast
qed

lemma full_middle_length:
  "\<forall>b \<in> set bs. qcount (B b) = QBLOCK_CAPACITY \<Longrightarrow>
    length (queue_elements B bs) = length bs * QBLOCK_CAPACITY"
  by (induction bs) auto

lemma full_queue_length:
  assumes sh: "queue_shape m bs rs" and full: "qcount (blocks m (tail_block m)) = QBLOCK_CAPACITY"
  shows "1 + (length bs - 1) * QBLOCK_CAPACITY \<le> length (queue_contents m)"
proof -
  obtain bs0 where bs: "bs = bs0 @ [tail_block m]" by (rule shape_tail[OF sh])
  show ?thesis
  proof (cases bs0)
    case Nil
    then show ?thesis
      using full QBLOCK_CAPACITY_pos unfolding shape_contents[OF sh] bs by simp
  next
    case (Cons h mid)
    have "length (queue_elements (blocks m) mid) = length mid * QBLOCK_CAPACITY"
      using sh bs Cons by (intro full_middle_length) (simp add: queue_shape_def)
    moreover have "qcount (blocks m h) \<noteq> 0" using sh bs Cons by (simp add: queue_shape_def)
    ultimately show ?thesis
      using full unfolding shape_contents[OF sh] bs Cons by simp
  qed
qed

lemma gc_enqueue_ok:
  assumes "queue_ok m"
  shows "length (queue_contents m) < queue_room m \<Longrightarrow> \<exists>t. gc_enqueue x m = Inr t"
    and "gc_enqueue x m = Inr t \<Longrightarrow>
      queue_ok t \<and> queue_contents t = queue_contents m @ [x] \<and> queue_room t = queue_room m"
proof -
  obtain bs rs where sh: "queue_shape m bs rs" using assms by (auto simp: queue_ok_def)
  let ?full = "qcount (blocks m (tail_block m)) = QBLOCK_CAPACITY"
  have t: "block_ok (blocks m (tail_block m))"
    using sh by (metis last_in_set queue_shape_def)
  have grow: "\<exists>m2 rs'. extend_queue m = Inr m2 \<and> queue_shape m2 (bs @ [n]) rs' \<and>
      queue_contents m2 = queue_contents m \<and> queue_room m2 = queue_room m \<and>
      qcount (blocks m2 (tail_block m2)) = 0" if ?full "take_block m = Inr (n, m1)" for n m1
    using extend_queue_shape[OF sh that] .
  show "\<exists>t. gc_enqueue x m = Inr t" if room: "length (queue_contents m) < queue_room m"
  proof (cases ?full)
    case True
    have "take_block m \<noteq> Inl e" for e
    proof
      assume "take_block m = Inl e"
      from take_block_fails[OF sh this] have "length bs = pages_for_queue m"
        using shape_pages[OF sh] by (simp add: pages_for_queue_def)
      then show False using full_queue_length[OF sh True] room by (simp add: queue_room_def)
    qed
    then obtain n m1 where "take_block m = Inr (n, m1)" by (metis sum.exhaust surj_pair)
    then show ?thesis using grow[OF True] True by (auto simp: gc_enqueue_def)
  qed (simp add: gc_enqueue_def)
  assume e: "gc_enqueue x m = Inr t"
  show "queue_ok t \<and> queue_contents t = queue_contents m @ [x] \<and> queue_room t = queue_room m"
  proof (cases ?full)
    case True
    then obtain m2 where m2: "extend_queue m = Inr m2" "t = push_element x m2"
      using e by (auto simp: gc_enqueue_def)
    then obtain n m1 where "take_block m = Inr (n, m1)"
      by (auto simp: extend_queue_def Let_def)
    then obtain rs' where "queue_shape m2 (bs @ [n]) rs'" "queue_contents m2 = queue_contents m"
      "queue_room m2 = queue_room m" "qcount (blocks m2 (tail_block m2)) = 0"
      using grow[OF True] m2(1) by auto
    then show ?thesis
      using push_element_shape[of m2 "bs @ [n]" rs' x] QBLOCK_CAPACITY_pos m2(2)
      by (auto simp: queue_ok_def)
  next
    case False
    then have "t = push_element x m" "qcount (blocks m (tail_block m)) < QBLOCK_CAPACITY"
      using e t by (auto simp: gc_enqueue_def block_ok_def)
    then show ?thesis using push_element_shape[OF sh, of x] by (auto simp: queue_ok_def)
  qed
qed

lemma shape_head:
  assumes "queue_shape m bs rs"
  obtains bs' where "bs = head_block m # bs'" and "block_chain (blocks m) (qnext (blocks m (head_block m))) bs'"
    and "head_block m \<noteq> 0"
  using assms by (cases bs) (auto simp: queue_shape_def)

lemma head_nonempty:
  assumes sh: "queue_shape m bs rs"
  shows "qcount (blocks m (head_block m)) = 0 \<longleftrightarrow> queue_contents m = []"
proof -
  obtain bs' where bs: "bs = head_block m # bs'" by (rule shape_head[OF sh])
  have "bs' = [] \<or> qcount (blocks m (head_block m)) \<noteq> 0"
    using sh by (cases bs') (auto simp: queue_shape_def bs)
  then show ?thesis unfolding shape_contents[OF sh] bs by auto
qed

lemma gc_dequeue_shape:
  assumes sh: "queue_shape m bs rs" and ne: "qcount (blocks m (head_block m)) \<noteq> 0"
  shows "\<exists>x t bs2 rs2. gc_dequeue m = Inr (x, t) \<and> queue_shape t bs2 rs2 \<and>
    queue_contents m = x # queue_contents t \<and> queue_room t = queue_room m"
proof -
  let ?h = "head_block m" and ?B = "blocks m"
  obtain bs' where bs: "bs = ?h # bs'" and ch: "block_chain ?B (qnext (?B ?h)) bs'" and h: "?h \<noteq> 0"
    by (rule shape_head[OF sh])
  have d: "?h \<notin> set bs'" "?h \<notin> set rs" using sh by (auto simp: queue_shape_def bs)
  have ok: "block_ok (?B ?h)" using sh by (auto simp: queue_shape_def bs)
  let ?i = "int (qtail (?B ?h)) - int (qcount (?B ?h))"
  define x where "x = elements (?B ?h) (nat (?i + (if ?i < 0 then int QBLOCK_CAPACITY else 0)))"
  define c where "c = (?B ?h)\<lparr>qcount := qcount (?B ?h) - 1\<rparr>"
  have c: "block_elements (?B ?h) = x # block_elements c" "block_ok c"
    using block_pop[OF ok ne, of c] by (simp_all add: c_def x_def)
  have m: "set_block ?h (\<lambda>b. b\<lparr>qcount := qcount b - 1\<rparr>) m = m\<lparr>blocks := ?B(?h := c)\<rparr>"
    by (simp add: set_block_def c_def)
  have old: "queue_contents m = x # block_elements c @ queue_elements ?B bs'"
    unfolding shape_contents[OF sh] bs using c(1) by simp
  show ?thesis
  proof (cases "qcount c = 0 \<and> bs' \<noteq> []")
    case False
    then have nx: "qcount c = 0 \<Longrightarrow> qnext (?B ?h) = 0" using ch by (cases bs') auto
    define t where "t = m\<lparr>blocks := ?B(?h := c)\<rparr>"
    have e: "gc_dequeue m = Inr (x, t)"
      unfolding gc_dequeue_def Let_def m using ne nx
      by (simp add: gc_assert_def x_def t_def c_def)
    have "block_chain (?B(?h := c)) a l \<longleftrightarrow> block_chain ?B a l" for a l
      by (rule block_chain_cong) (simp add: c_def)
    moreover have "\<forall>b \<in> set (butlast (tl bs)). b \<noteq> ?h"
      using d(1) by (auto simp: bs dest: in_set_butlastD)
    moreover have "\<forall>b \<in> set (butlast bs). qcount ((?B(?h := c)) b) \<noteq> 0"
      using sh False by (auto simp: queue_shape_def bs)
    ultimately have st: "queue_shape t bs rs"
      using sh c(2) unfolding queue_shape_def by (simp add: t_def)
    have "queue_elements (?B(?h := c)) bs' = queue_elements ?B bs'"
      by (rule queue_elements_cong) (use d in auto)
    then have "queue_contents m = x # queue_contents t"
      unfolding old shape_contents[OF st] by (simp add: bs t_def)
    then show ?thesis using e st by (auto simp: queue_room_def pages_for_queue_def t_def)
  next
    case True
    then obtain n bs'' where n: "bs' = n # bs''" by (cases bs') auto
    then have nx: "qnext (?B ?h) = n" "n \<noteq> 0" "n \<noteq> ?h" using ch d by auto
    define C where "C = ?B(?h := c\<lparr>qnext := recycler m\<rparr>)"
    define t where "t = m\<lparr>blocks := C, head_block := n, recycler := ?h\<rparr>"
    have e: "gc_dequeue m = Inr (x, t)"
      unfolding gc_dequeue_def Let_def m using ne nx True
      by (simp add: gc_assert_def x_def t_def C_def c_def set_block_def)
    have ch2: "block_chain C a l \<longleftrightarrow> block_chain ?B a l" if "?h \<notin> set l" for a l
      by (rule block_chain_cong) (use that in \<open>auto simp: C_def\<close>)
    have "block_chain C n bs'" using ch nx(1) ch2[OF d(1)] by simp
    moreover have "block_chain C ?h (?h # rs)"
      using sh ch2[OF d(2)] h by (simp add: C_def queue_shape_def)
    moreover have full: "\<forall>b \<in> set (butlast bs'). qcount (C b) = QBLOCK_CAPACITY"
      using sh d(1) by (auto simp: queue_shape_def bs C_def dest: in_set_butlastD)
    moreover have "\<forall>b \<in> set (butlast (tl bs')). qcount (C b) = QBLOCK_CAPACITY"
      using full unfolding butlast_tl by (cases "butlast bs'") auto
    moreover have "\<forall>b \<in> set bs'. block_ok (C b)"
      using sh d(1) by (auto simp: queue_shape_def bs C_def)
    moreover have "last bs' = tail_block m" "set (bs' @ ?h # rs) = set (bs @ rs)"
      "distinct (bs' @ ?h # rs)" "bs' \<noteq> []"
      using sh n by (auto simp: queue_shape_def bs)
    ultimately have st: "queue_shape t bs' (?h # rs)"
      using sh QBLOCK_CAPACITY_pos unfolding queue_shape_def t_def by simp
    have "queue_elements C bs' = queue_elements ?B bs'"
      by (rule queue_elements_cong) (use d in \<open>auto simp: C_def\<close>)
    then have "queue_contents m = x # queue_contents t"
      unfolding old shape_contents[OF st] using True by (simp add: t_def)
    then show ?thesis using e st by (auto simp: queue_room_def pages_for_queue_def t_def)
  qed
qed

interpretation mark_queue: bounded_queue queue_ok queue_contents queue_room gc_enqueue gc_dequeue
proof unfold_locales
  fix m x t
  assume ok: "queue_ok m"
  then obtain bs rs where sh: "queue_shape m bs rs" by (auto simp: queue_ok_def)
  show "length (queue_contents m) < queue_room m \<Longrightarrow> \<exists>t. gc_enqueue x m = Inr t"
    and "gc_enqueue x m = Inr t \<Longrightarrow>
      queue_ok t \<and> queue_contents t = queue_contents m @ [x] \<and> queue_room t = queue_room m"
    using gc_enqueue_ok[OF ok] by auto
  show "queue_contents m \<noteq> [] \<Longrightarrow> \<exists>x t. gc_dequeue m = Inr (x, t)"
    using gc_dequeue_shape[OF sh] head_nonempty[OF sh] by blast
  show "queue_contents m = [] \<Longrightarrow> gc_dequeue m = Inl Assert_failed"
    using head_nonempty[OF sh] by (simp add: gc_dequeue_def gc_assert_def Let_def)
  assume d: "gc_dequeue m = Inr (x, t)"
  then have "qcount (blocks m (head_block m)) \<noteq> 0"
    by (auto simp: gc_dequeue_def Let_def)
  then show "queue_ok t \<and> queue_contents m = x # queue_contents t \<and> queue_room t = queue_room m"
    using gc_dequeue_shape[OF sh] d by (auto simp: queue_ok_def)
qed

end
