(* ===== verification/FullMark.thy ===== *)
theory FullMark
  imports MarkQueue
begin

text \<open>
  Marking in a full collection, \<open>fullcgc.c\<close>: the index of the mark bit of a pointer, the test
  whether an object has been marked, marking one object, and the preparation of the mark phase.
  No stray pointer detector is installed. The addresses and sizes of the spaces are those of the
  running process; offsets within structures that Lisp defines are parameters.
\<close>

unbundle bit_operations_syntax

section \<open>The code\<close>

record mark_env =
  NIL :: lispobj
  FIXEDOBJ_SPACE_START :: uword
  FIXEDOBJ_SPACE_SIZE :: uword
  TEXT_SPACE_START :: uword
  text_space_size :: uword
  dynamic_space_size :: uword
  asm_routines_start :: uword
  asm_routines_end :: uword
  layouts :: layout_abi
  node_next_offset :: uword
  pairs_offset :: uword
  hash_vector_offset :: uword
  next_vector_offset :: uword
  uw_flags_offset :: uword
  next_weak_hash_table_offset :: uword
  hash_functions :: hash_env
  hopscotch_fuel :: nat

definition IMMOBILE_CARD_BYTES :: uword where
  "IMMOBILE_CARD_BYTES = 4096"

text \<open>\<open>low_page_index_t\<close> is \<open>int\<close>.\<close>

definition find_fixedobj_page_index :: "mark_env \<Rightarrow> uword \<Rightarrow> int" where
  "find_fixedobj_page_index e addr =
     (if FIXEDOBJ_SPACE_START e \<le> addr then
        let index = (addr - FIXEDOBJ_SPACE_START e) div IMMOBILE_CARD_BYTES
        in if sint index < sint (ucast (FIXEDOBJ_SPACE_SIZE e div IMMOBILE_CARD_BYTES) :: u32)
           then sint (ucast index :: u32) else - 1
      else - 1)"

definition find_text_page_index :: "mark_env \<Rightarrow> uword \<Rightarrow> int" where
  "find_text_page_index e addr =
     (if TEXT_SPACE_START e \<le> addr then
        let offset = addr - TEXT_SPACE_START e
        in if offset \<ge> text_space_size e then - 1
           else sint (ucast (offset div IMMOBILE_CARD_BYTES) :: u32)
      else - 1)"

definition dword_index :: "uword \<Rightarrow> uword \<Rightarrow> int" where
  "dword_index ptr base = sint (drop_bit 4 (ptr - base))"

text \<open>There are no return addresses as objects on this machine.\<close>

definition canonical_ptr :: "lispobj \<Rightarrow> lispobj" where
  "canonical_ptr pointer = pointer"

definition ptr_to_bit_index :: "mark_env \<Rightarrow> marker \<Rightarrow> lispobj \<Rightarrow> int" where
  "ptr_to_bit_index e m pointer =
     (if pointer = NIL e then - 1
      else if find_page_index (gcs m) (unat pointer) \<noteq> None
      then dword_index pointer (of_nat (DYNAMIC_SPACE_START (gcs m)))
      else if find_fixedobj_page_index e pointer \<ge> 0
      then dword_index pointer (FIXEDOBJ_SPACE_START e) + fixedobj_index_bit_bias m
      else if find_text_page_index e pointer \<ge> 0
      then dword_index pointer (TEXT_SPACE_START e) + text_index_bit_bias m
      else - 1)"

definition mark_bit :: "marker \<Rightarrow> nat \<Rightarrow> bool" where
  "mark_bit m i \<longleftrightarrow> fullcgcmarks m (i div 64) AND push_bit (i mod 64) 1 \<noteq> 0"

definition set_mark_bit :: "nat \<Rightarrow> marker \<Rightarrow> marker" where
  "set_mark_bit i m = m\<lparr>fullcgcmarks := (fullcgcmarks m)
     (i div 64 := fullcgcmarks m (i div 64) OR push_bit (i mod 64) 1)\<rparr>"

definition pointer_survived_gc_yet :: "mark_env \<Rightarrow> marker \<Rightarrow> lispobj \<Rightarrow> bool" where
  "pointer_survived_gc_yet e m pointer \<longleftrightarrow>
     (let mark_index = ptr_to_bit_index e m (canonical_ptr pointer)
      in if mark_index < 0 then True
         else drop_bit (nat mark_index mod 64) (fullcgcmarks m (nat mark_index div 64)) AND 1 \<noteq> 0)"

text \<open>The end of \<open>__mark_obj\<close>, for an object at \<open>base\<close> that was not marked.\<close>

definition mark_new_obj :: "lispobj \<Rightarrow> uword \<Rightarrow> nat \<Rightarrow> marker \<Rightarrow> marker result" where
  "mark_new_obj pointer base mark_index m =
     (let h = memory (gcs m);
          m = set_mark_bit mark_index m;
          m = (if widetag_of h base = CODE_HEADER_WIDETAG
               then fold (\<lambda>fn m. set_mark_bit
                            (mark_index + unat (ucast (drop_bit 4 (fn - base)) :: u32)) m)
                      (simple_funs h base) m
               else m)
      in if listp pointer \<or> \<not> leaf_obj_widetag_p (widetag_of h base) then gc_enqueue pointer m else Inr m)"

definition mark_obj :: "mark_env \<Rightarrow> lispobj \<Rightarrow> marker \<Rightarrow> marker result" where
  "mark_obj e pointer m =
     (let h = memory (gcs m);
          pointer = canonical_ptr pointer;
          mark_index = ptr_to_bit_index e m pointer
      in if mark_index < 0 then Inr m
         else if mark_bit m (nat mark_index) then Inr m
         else if lowtag_of pointer = FUN_POINTER_LOWTAG \<and>
                 embedded_obj_p (widetag_of h (pointer - FUN_POINTER_LOWTAG))
         then let code = fun_code_header h (pointer - FUN_POINTER_LOWTAG);
                  mark_index = mark_index - sint (signed_drop_bit 4 (pointer - FUN_POINTER_LOWTAG - code))
              in if mark_bit m (nat mark_index) then Inr m
                 else mark_new_obj (make_lispobj code OTHER_POINTER_LOWTAG) code (nat mark_index) m
         else mark_new_obj pointer (native_pointer pointer) (nat mark_index) m)"

definition gc_mark_obj :: "mark_env \<Rightarrow> lispobj \<Rightarrow> marker \<Rightarrow> marker result" where
  "gc_mark_obj e thing m = (if is_lisp_pointer thing then mark_obj e thing m else Inr m)"

definition mark_pair :: "mark_env \<Rightarrow> uword \<Rightarrow> marker \<Rightarrow> marker result" where
  "mark_pair e pair m =
     rbind (gc_mark_obj e (memory (gcs m) pair) m) (\<lambda>m. gc_mark_obj e (memory (gcs m) (pair + 8)) m)"

definition gc_mark_range :: "mark_env \<Rightarrow> uword \<Rightarrow> nat \<Rightarrow> marker \<Rightarrow> marker result" where
  "gc_mark_range e start count =
     for_each (\<lambda>i m. gc_mark_obj e (memory (gcs m) (start + 8 * of_nat i)) m) [0..<count]"

text \<open>The memory that \<open>os_allocate\<close> returns for the mark bits is zero.\<close>

definition prepare_for_full_mark_phase :: "mark_env \<Rightarrow> marker \<Rightarrow> marker result" where
  "prepare_for_full_mark_phase e m =
     (let m = m\<lparr>free_page := page_table_pages (gcs m)\<rparr>
      in rbind (get_free_page m) (\<lambda>(block, m).
         let m = m\<lparr>head_block := block\<rparr>;
             m = m\<lparr>tail_block := block\<rparr>;
             m = m\<lparr>recycler := 0\<rparr>;
             m = set_block block (\<lambda>b. b\<lparr>qnext := 0\<rparr>) m;
             m = set_block block (\<lambda>b. b\<lparr>qtail := 0, qcount := 0\<rparr>) m;
             nbits_dynamic = sint (dynamic_space_size e div 16);
             nbits_fixedobj = sint (FIXEDOBJ_SPACE_SIZE e div 16);
             m = m\<lparr>fixedobj_index_bit_bias := nbits_dynamic\<rparr>;
             m = m\<lparr>text_index_bit_bias := nbits_dynamic + nbits_fixedobj\<rparr>
         in Inr (m\<lparr>fullcgcmarks := (\<lambda>_. 0)\<rparr>)))"

section \<open>The start of the mark phase\<close>

lemma prepare_ok:
  assumes "next_free_page (gcs m) < page_table_pages (gcs m)" and "0 < DYNAMIC_SPACE_START (gcs m)"
  shows "\<exists>m'. prepare_for_full_mark_phase e m = Inr m' \<and> queue_ok m' \<and> queue_contents m' = [] \<and>
    queue_room m' = 1 + (page_table_pages (gcs m) - next_free_page (gcs m) - 1) * QBLOCK_CAPACITY \<and>
    fullcgcmarks m' = (\<lambda>_. 0) \<and> memory (gcs m') = memory (gcs m)"
proof -
  obtain n where n: "page_table_pages (gcs m) = Suc n" "next_free_page (gcs m) \<le> n"
    using assms(1) by (cases "page_table_pages (gcs m)") auto
  let ?m = "m\<lparr>free_page := page_table_pages (gcs m)\<rparr>"
  define b where "b = page_address (gcs m) n"
  define g where "g = set_page_type n PAGE_TYPE_UNBOXED (gcs m)"
  have f: "get_free_page ?m = Inr (b, ?m\<lparr>free_page := n, gcs := g\<rparr>)"
    using get_free_page_Inr[of ?m b "?m\<lparr>free_page := n, gcs := g\<rparr>"] n by (simp add: b_def g_def)
  have gs: "page_table_pages g = Suc n" "next_free_page g = next_free_page (gcs m)"
    "DYNAMIC_SPACE_START g = DYNAMIC_SPACE_START (gcs m)" "memory g = memory (gcs m)"
    by (simp_all add: g_def set_page_type_def n(1))
  have pa: "page_address g n = b" by (simp add: page_address_def gs b_def)
  obtain m' where m': "prepare_for_full_mark_phase e m = Inr m'" "gcs m' = g" "head_block m' = b"
    "tail_block m' = b" "recycler m' = 0" "free_page m' = n" "qnext (blocks m' b) = 0"
    "qtail (blocks m' b) = 0" "qcount (blocks m' b) = 0" "fullcgcmarks m' = (\<lambda>_. 0)"
    unfolding prepare_for_full_mark_phase_def Let_def f rbind.simps prod.case
    by (simp add: set_block_def)
  have b0: "b \<noteq> 0" using assms(2) by (simp add: b_def page_address_pos)
  have sh: "queue_shape m' [b] []"
    using assms(2) b0 n(2) by (simp add: queue_shape_def m' gs pa block_ok_def QBLOCK_CAPACITY_pos)
  then have "queue_ok m'" unfolding queue_ok_def by blast
  moreover have "queue_contents m' = []" unfolding shape_contents[OF sh] by (simp add: m')
  ultimately show ?thesis
    using m'(1,2,10) by (intro exI[of _ m']) (simp add: queue_room_def pages_for_queue_def gs n)
qed

text \<open>C15: The queue of the mark phase is first-in first-out and grows as announced: with a
  well-shaped queue, as the preparation leaves it and every operation keeps it, any sequence of
  objects that fits in the pages not yet allocated is accepted without stopping the process, comes
  out in the order it went in behind what was queued before, across blocks, through the reuse of
  emptied blocks, and then the queue is empty and a further dequeue fails its assertion.\<close>

theorem mark_queue_fifo:
  assumes "queue_ok m" and "length (queue_contents m) + length xs \<le> queue_room m"
  shows "\<exists>t u. for_each gc_enqueue xs m = Inr t \<and> queue_ok t \<and>
    take_from gc_dequeue (length (queue_contents m) + length xs) t = Inr (queue_contents m @ xs, u) \<and>
    queue_ok u \<and> queue_contents u = [] \<and> gc_dequeue u = Inl Assert_failed"
proof -
  obtain t where t: "for_each gc_enqueue xs m = Inr t" "queue_ok t" "queue_contents t = queue_contents m @ xs"
    using mark_queue.enq_all_succeeds[OF assms] by blast
  then obtain u where u: "take_from gc_dequeue (length (queue_contents m @ xs)) t = Inr (queue_contents m @ xs, u)"
    "queue_ok u" "queue_contents u = []"
    using mark_queue.take_from_queue[of t "queue_contents m @ xs" "[]"] by auto
  then show ?thesis using t mark_queue.deq_empty[OF u(2,3)] by auto
qed

definition small_marker :: marker where
  "small_marker =
     \<lparr>gcs = small_heap, conses = no_conses, blocks = (\<lambda>_. \<lparr>qcount = 0, qtail = 0, qnext = 0, elements = (\<lambda>_. 0)\<rparr>),
      head_block = 0, tail_block = 0, recycler = 0, free_page = 0, fullcgcmarks = (\<lambda>_. 0),
      fixedobj_index_bit_bias = 0, text_index_bit_bias = 0, weak_vectors = 0,
      weak_pointer_chain = 1, weak_hash_tables = 0,
      weak_objects = \<lparr>ht_keys = [], ht_hops = [], ht_vals = [], ht_hash = None, ht_compare = None,
        ht_mask = 0, ht_hop_range = 0, ht_count = 0, ht_threshold = 0, ht_prev_size = 0, ht_mem_size = 0,
        ht_value_size = 0, ht_hashfun = 0, ht_resized = False, ht_rehashing = False\<rparr>\<rparr>"

lemma mark_queue_fifo_witness:
  "\<forall>e. \<exists>m t u. prepare_for_full_mark_phase e small_marker = Inr m \<and>
    for_each gc_enqueue [0x1000000017, 0x1000000027] m = Inr t \<and>
    take_from gc_dequeue 2 t = Inr ([0x1000000017, 0x1000000027], u) \<and> queue_contents u = []"
proof
  fix e :: mark_env
  have "next_free_page (gcs small_marker) < page_table_pages (gcs small_marker)"
    "0 < DYNAMIC_SPACE_START (gcs small_marker)"
    by (simp_all add: small_marker_def small_heap_def)
  from prepare_ok[OF this, of e] obtain m where m: "prepare_for_full_mark_phase e small_marker = Inr m"
    "queue_ok m" "queue_contents m = []"
    "queue_room m = 1 + (page_table_pages (gcs small_marker) - next_free_page (gcs small_marker) - 1) * QBLOCK_CAPACITY"
    by blast
  have "length (queue_contents m) + length [0x1000000017, 0x1000000027 :: lispobj] \<le> queue_room m"
    using QBLOCK_CAPACITY_pos by (simp add: m(3,4) small_marker_def small_heap_def)
  from mark_queue_fifo[OF m(2) this] obtain t u where
    "for_each gc_enqueue [0x1000000017, 0x1000000027] m = Inr t" "queue_contents u = []"
    "take_from gc_dequeue 2 t = Inr ([0x1000000017, 0x1000000027], u)"
    unfolding m(3) append_Nil list.size add_0 add_0_right add_Suc_right numeral_2_eq_2 by blast
  then show "\<exists>m t u. prepare_for_full_mark_phase e small_marker = Inr m \<and>
    for_each gc_enqueue [0x1000000017, 0x1000000027] m = Inr t \<and>
    take_from gc_dequeue 2 t = Inr ([0x1000000017, 0x1000000027], u) \<and> queue_contents u = []"
    using m(1) by blast
qed

end
