(* ===== verification/WeakTables.thy ===== *)
theory WeakTables
  imports FullMark
begin

text \<open>
  Weak objects during marking: the list of weak vectors, weak hash tables and their triggers
  (\<open>gc-common.c\<close>, \<open>weak-hash-pred.inc\<close>, and the chain of weak pointers of
  \<open>gencgc-impl.h\<close>). A pair of a weak table that is not known to be live is recorded in the
  hopscotch table \<open>weak_objects\<close> under the object that would make it live. No card is
  protected by hardware here, so a store needs no unprotecting, and \<open>debug_weak_ht\<close> is off.
\<close>

unbundle bit_operations_syntax

section \<open>Weak vectors and weak pointers\<close>

definition WEAK_VECTOR_VISITED_BIT :: uword where "WEAK_VECTOR_VISITED_BIT = 0x40000000"
definition WEAK_POINTER_CHAIN_END :: uword where "WEAK_POINTER_CHAIN_END = 1"

definition set_memory :: "(heap \<Rightarrow> heap) \<Rightarrow> marker \<Rightarrow> marker" where
  "set_memory f m = m\<lparr>gcs := (gcs m)\<lparr>memory := f (memory (gcs m))\<rparr>\<rparr>"

definition private_cons :: "uword \<Rightarrow> uword \<Rightarrow> marker \<Rightarrow> (uword \<times> marker) result" where
  "private_cons car cdr m =
     rbind (gc_private_cons car cdr (conses m) (gcs m)) (\<lambda>(c, p, g). Inr (c, m\<lparr>conses := p, gcs := g\<rparr>))"

definition add_to_weak_vector_list :: "uword \<Rightarrow> lispobj \<Rightarrow> marker \<Rightarrow> marker result" where
  "add_to_weak_vector_list vector header m =
     (if header AND WEAK_VECTOR_VISITED_BIT = 0
      then rbind (private_cons vector (weak_vectors m) m) (\<lambda>(c, m).
           let m = m\<lparr>weak_vectors := c\<rparr>
           in Inr (set_memory (\<lambda>h. h(vector := h vector OR WEAK_VECTOR_VISITED_BIT)) m))
      else Inr m)"

definition add_to_weak_pointer_chain :: "uword \<Rightarrow> marker \<Rightarrow> marker" where
  "add_to_weak_pointer_chain wp m =
     (let m = set_memory (set_weak_pointer_next wp (weak_pointer_chain m)) m
      in m\<lparr>weak_pointer_chain := wp\<rparr>)"

section \<open>Weak hash tables\<close>

text \<open>The predicates, by weakness: key and value, key, value, key or value.\<close>

definition survived_gc_yet_KEY :: "mark_env \<Rightarrow> marker \<Rightarrow> lispobj \<Rightarrow> lispobj \<Rightarrow> bool" where
  "survived_gc_yet_KEY e m key val \<longleftrightarrow> \<not> is_lisp_pointer key \<or> pointer_survived_gc_yet e m key"

definition survived_gc_yet_VALUE :: "mark_env \<Rightarrow> marker \<Rightarrow> lispobj \<Rightarrow> lispobj \<Rightarrow> bool" where
  "survived_gc_yet_VALUE e m key val \<longleftrightarrow> \<not> is_lisp_pointer val \<or> pointer_survived_gc_yet e m val"

definition survived_gc_yet_AND :: "mark_env \<Rightarrow> marker \<Rightarrow> lispobj \<Rightarrow> lispobj \<Rightarrow> bool" where
  "survived_gc_yet_AND e m key val \<longleftrightarrow>
     (let key_nonpointer = \<not> is_lisp_pointer key; val_nonpointer = \<not> is_lisp_pointer val
      in if key_nonpointer \<and> val_nonpointer then True
         else (key_nonpointer \<or> pointer_survived_gc_yet e m key) \<and>
              (val_nonpointer \<or> pointer_survived_gc_yet e m val))"

definition survived_gc_yet_OR :: "mark_env \<Rightarrow> marker \<Rightarrow> lispobj \<Rightarrow> lispobj \<Rightarrow> bool" where
  "survived_gc_yet_OR e m key val \<longleftrightarrow>
     (let key_nonpointer = \<not> is_lisp_pointer key; val_nonpointer = \<not> is_lisp_pointer val
      in if key_nonpointer \<or> val_nonpointer then True
         else pointer_survived_gc_yet e m key \<or> pointer_survived_gc_yet e m val)"

text \<open>The array of the four predicates; there are no others.\<close>

definition alivep_funs :: "mark_env \<Rightarrow> uword \<Rightarrow> marker \<Rightarrow> lispobj \<Rightarrow> lispobj \<Rightarrow> bool" where
  "alivep_funs e weakness =
     (if weakness = 0 then survived_gc_yet_AND e else if weakness = 1 then survived_gc_yet_KEY e
      else if weakness = 2 then survived_gc_yet_VALUE e else survived_gc_yet_OR e)"

definition at_least_one_pointer_p :: "lispobj \<Rightarrow> lispobj \<Rightarrow> bool" where
  "at_least_one_pointer_p a b \<longleftrightarrow> is_lisp_pointer (a OR b)"

text \<open>
  The hopscotch table's operations have no result when the fuel of their model runs out; that
  counts as a failure here.
\<close>

definition add_trigger :: "mark_env \<Rightarrow> lispobj \<Rightarrow> uword \<Rightarrow> marker \<Rightarrow> marker result" where
  "add_trigger e triggering_object plivened_object m =
     (if is_lisp_pointer (memory (gcs m) plivened_object)
      then rbind (private_cons plivened_object (hopscotch_get (weak_objects m) triggering_object 0) m)
             (\<lambda>(c, m). case hopscotch_put (hash_functions e) (hopscotch_fuel e) (weak_objects m)
                              triggering_object c
                       of None \<Rightarrow> Inl Lose | Some (t, _) \<Rightarrow> Inr (m\<lparr>weak_objects := t\<rparr>))
      else Inr m)"

definition add_kv_triggers :: "mark_env \<Rightarrow> uword \<Rightarrow> uword \<Rightarrow> marker \<Rightarrow> marker result" where
  "add_kv_triggers e pair weakness m =
     rbind (if weakness AND 1 \<noteq> 0 then add_trigger e (memory (gcs m) pair) (pair + 8) m else Inr m) (\<lambda>m.
     if weakness AND 2 \<noteq> 0 then add_trigger e (memory (gcs m) (pair + 8)) pair m else Inr m)"

definition hashtable_weakp :: "mark_env \<Rightarrow> heap \<Rightarrow> uword \<Rightarrow> bool" where
  "hashtable_weakp e h ht \<longleftrightarrow> h (ht + uw_flags_offset e) AND 8 \<noteq> 0"

definition hashtable_weakness :: "mark_env \<Rightarrow> heap \<Rightarrow> uword \<Rightarrow> uword" where
  "hashtable_weakness e h ht = drop_bit 6 (h (ht + uw_flags_offset e))"

definition get_array_data :: "heap \<Rightarrow> lispobj \<Rightarrow> uword \<Rightarrow> uword result" where
  "get_array_data h array widetag =
     (if is_lisp_pointer array \<and> widetag_of h (native_pointer array) = widetag
      then Inr (array - OTHER_POINTER_LOWTAG + 16) else Inl Lose)"

text \<open>
  One entry of the loop, with whether any entry has been deferred. Marking moves nothing, so no
  key changes and the table never needs a rehash.
\<close>

definition scan_entry ::
    "mark_env \<Rightarrow> (marker \<Rightarrow> lispobj \<Rightarrow> lispobj \<Rightarrow> bool) \<Rightarrow> (uword \<Rightarrow> marker \<Rightarrow> marker result) \<Rightarrow>
     uword \<Rightarrow> uword \<Rightarrow> nat \<Rightarrow> bool \<times> marker \<Rightarrow> (bool \<times> marker) result" where
  "scan_entry e predicate scav_entry data weakness i = (\<lambda>(any_deferred, m).
     let pair = data + 8 * ucast (2 * of_nat i :: u32);
         key = memory (gcs m) pair;
         val = memory (gcs m) (pair + 8)
     in if at_least_one_pointer_p key val then
          if \<not> predicate m key val
          then rbind (add_kv_triggers e pair weakness m) (\<lambda>m. Inr (True, m))
          else rbind (scav_entry pair m) (\<lambda>m. Inr (any_deferred, m))
        else Inr (any_deferred, m))"

definition scan_weak_hashtable ::
    "mark_env \<Rightarrow> uword \<Rightarrow> (marker \<Rightarrow> lispobj \<Rightarrow> lispobj \<Rightarrow> bool) \<Rightarrow> (uword \<Rightarrow> marker \<Rightarrow> marker result) \<Rightarrow>
     marker \<Rightarrow> (bool \<times> marker) result" where
  "scan_weak_hashtable e hash_table predicate scav_entry m =
     (let h = memory (gcs m);
          pairs = h (hash_table + pairs_offset e);
          hash_vector = h (hash_table + hash_vector_offset e);
          next_vector = h (hash_table + next_vector_offset e)
      in rbind (get_array_data h pairs SIMPLE_VECTOR_WIDETAG) (\<lambda>data.
         let kv_length = vector_len h (pairs - OTHER_POINTER_LOWTAG)
         in rbind (if hash_vector \<noteq> NIL e
                   then rbind (get_array_data h hash_vector 0xAD) (\<lambda>_.
                        gc_assert (vector_len h (hash_vector - OTHER_POINTER_LOWTAG) =
                                   vector_len h (next_vector - OTHER_POINTER_LOWTAG)) (Inr ()))
                   else Inr ()) (\<lambda>_.
         gc_assert (2 * vector_len h (next_vector - OTHER_POINTER_LOWTAG) + 1 = kv_length)
           (let weakness = hashtable_weakness e h hash_table;
                hwm = unat (ucast (fixnum_value (h data)) :: u32)
            in for_each (scan_entry e predicate scav_entry data weakness) [1..<Suc hwm] (False, m)))))"

section \<open>Triggers\<close>

text \<open>The livened objects of one trigger; a chain that does not end is \<open>None\<close>.\<close>

partial_function (option) mark_chain ::
    "mark_env \<Rightarrow> uword \<Rightarrow> marker \<Rightarrow> marker result option" where
  "mark_chain e chain m =
     (if chain = 0 then Some (Inr m)
      else case gc_mark_obj e (memory (gcs m) (memory (gcs m) chain)) m of
             Inl x \<Rightarrow> Some (Inl x)
           | Inr m \<Rightarrow> mark_chain e (memory (gcs m) (chain + 8)) m)"

text \<open>The loop over the cells of the table, from the last to the first. The flag is the early
  return, taken when the table has become empty.\<close>

fun weak_triggers_loop :: "mark_env \<Rightarrow> nat list \<Rightarrow> marker \<Rightarrow> (bool \<times> marker) result option" where
  "weak_triggers_loop e [] m = Some (Inr (False, m))"
| "weak_triggers_loop e (index # is) m =
     (let trigger_obj = ht_keys (weak_objects m) ! index in
      if trigger_obj = 0 then weak_triggers_loop e is m
      else if \<not> is_lisp_pointer trigger_obj then Some (Inl Assert_failed)
      else if pointer_survived_gc_yet e m trigger_obj then
        let chain = ht_vals (weak_objects m) ! index in
        if chain = 0 then Some (Inl Assert_failed)
        else case mark_chain e chain m of
          None \<Rightarrow> None
        | Some (Inl x) \<Rightarrow> Some (Inl x)
        | Some (Inr m) \<Rightarrow>
            (case gc_private_free (ht_vals (weak_objects m) ! index) (conses m) (gcs m) of
               None \<Rightarrow> None
             | Some (p, g) \<Rightarrow>
                 let m = m\<lparr>conses := p, gcs := g\<rparr>;
                     m = m\<lparr>weak_objects := fst (hopscotch_delete (weak_objects m) trigger_obj)\<rparr>
                 in if ht_count (weak_objects m) = 0
                    then Some (Inr (True, m\<lparr>weak_objects := hopscotch_reset (weak_objects m)\<rparr>))
                    else weak_triggers_loop e is m)
      else weak_triggers_loop e is m)"

text \<open>\<open>test_weak_triggers(pointer_survived_gc_yet, gc_mark_obj)\<close>\<close>

definition test_weak_triggers :: "mark_env \<Rightarrow> marker \<Rightarrow> (bool \<times> marker) result option" where
  "test_weak_triggers e m =
     (let old_count = ht_count (weak_objects m) in
      if old_count = 0 then Some (Inr (False, m))
      else map_option (map_sum id (\<lambda>(done, m). (done \<or> ht_count (weak_objects m) \<noteq> old_count, m)))
             (weak_triggers_loop e (rev [0..<Suc (hopscotch_max_key_index (weak_objects m))]) m))"

end
