(* ===== verification/TraceObject.thy ===== *)
theory TraceObject
  imports WeakTables
begin

text \<open>
  The scan of one object in the mark phase: \<open>trace-object.inc\<close> as \<open>fullcgc.c\<close> includes it,
  with \<open>gc_mark_obj\<close> as the action on every pointer, and the loop over the queue
  (\<open>execute_full_mark_phase\<close>). There is no linkage space in this build and no stray pointer
  detector, so weak references stay weak. Marking does not write to the heap, so a slot may be
  read before or after the slots in front of it are marked.
\<close>

unbundle bit_operations_syntax

section \<open>One object\<close>

text \<open>\<open>slots\<close> is an address; \<open>lispobj* slots = where+1\<close>.\<close>

definition trace_object_using_layout ::
    "mark_env \<Rightarrow> lispobj \<Rightarrow> uword \<Rightarrow> uword \<Rightarrow> marker \<Rightarrow> marker result" where
  "trace_object_using_layout e layout obj nslots m =
     (if layout = 0 then Inr m else
      let h = memory (gcs m); LAYOUT = layout - INSTANCE_POINTER_LOWTAG in
      rbind (gc_mark_obj e layout m) (\<lambda>m.
      rbind (if lockfree_list_node_layout_p (layouts e) h LAYOUT
             then let nxt = h (obj + node_next_offset e)
                  in if fixnump nxt \<and> nxt \<noteq> 0 then gc_mark_obj e (nxt OR INSTANCE_POINTER_LOWTAG) m
                     else Inr m
             else Inr m) (\<lambda>m.
      let bitmap = get_layout_bitmap (layouts e) h LAYOUT;
          slots = obj + 8
      in for_each (\<lambda>i m. let slot = h (slots + 8 * of_nat i)
                         in if bitmap_logbitp h (of_nat i) bitmap \<and> is_lisp_pointer slot
                            then gc_mark_obj e slot m else Inr m)
           [0..<unat nslots] m)))"

definition flag_VectorWeak :: uword where "flag_VectorWeak = 1"
definition flag_VectorHashing :: uword where "flag_VectorHashing = 4"
definition ARRAY_FLAGS_POSITION :: nat where "ARRAY_FLAGS_POSITION = 16"

definition vector_flagp :: "lispobj \<Rightarrow> uword \<Rightarrow> bool" where
  "vector_flagp header flag \<longleftrightarrow> header AND push_bit ARRAY_FLAGS_POSITION flag \<noteq> 0"

definition fun_taggedptr_from_self :: "uword \<Rightarrow> lispobj" where
  "fun_taggedptr_from_self self = self - 16 + FUN_POINTER_LOWTAG"

definition points_to_asm_code_p :: "mark_env \<Rightarrow> uword \<Rightarrow> bool" where
  "points_to_asm_code_p e ptr \<longleftrightarrow> asm_routines_start e \<le> ptr \<and> ptr < asm_routines_end e"

definition FUN_RAW_ADDR_OFFSET :: uword where "FUN_RAW_ADDR_OFFSET = 16 - FUN_POINTER_LOWTAG"

definition decode_fdefn_rawfun :: "mark_env \<Rightarrow> heap \<Rightarrow> uword \<Rightarrow> lispobj" where
  "decode_fdefn_rawfun e h fdefn =
     (let raw_addr = h (fdefn + 24)
      in if raw_addr = 0 \<or> points_to_asm_code_p e raw_addr then 0 else raw_addr - FUN_RAW_ADDR_OFFSET)"

text \<open>The branch for the key and value vector of a weak hash table.\<close>

definition trace_weak_kv_vector :: "mark_env \<Rightarrow> uword \<Rightarrow> marker \<Rightarrow> marker result" where
  "trace_weak_kv_vector e v m =
     (let h = memory (gcs m);
          lhash_table = h (v + 16 + 8 * (vector_len h v - 1))
      in rbind (gc_mark_obj e lhash_table m) (\<lambda>m.
         let hash_table = native_pointer lhash_table in
         gc_assert (hashtable_weakp e h hash_table)
        (gc_assert (h (hash_table + next_weak_hash_table_offset e) = NIL e)
          (let weakness = hashtable_weakness e h hash_table
           in rbind (if weakness \<noteq> 0
                     then scan_weak_hashtable e hash_table (alivep_funs e weakness) (mark_pair e) m
                     else Inr (True, m)) (\<lambda>(defer, m).
              if defer
              then let m = set_memory (\<lambda>h. h(hash_table + next_weak_hash_table_offset e := weak_hash_tables m)) m
                   in Inr (m\<lparr>weak_hash_tables := hash_table\<rparr>)
              else Inr m)))))"

text \<open>\<open>for (i = scan_from; i < scan_to; ++i)\<close> over the words of the object\<close>

definition trace_words :: "mark_env \<Rightarrow> uword \<Rightarrow> nat \<Rightarrow> uword \<Rightarrow> marker \<Rightarrow> marker result" where
  "trace_words e obj scan_from scan_to m =
     (let h = memory (gcs m)
      in for_each (\<lambda>i. gc_mark_obj e (h (obj + 8 * of_nat i))) [scan_from..<nat (sint scan_to)] m)"

definition trace_object :: "mark_env \<Rightarrow> uword \<Rightarrow> marker \<Rightarrow> marker result" where
  "trace_object e obj m =
     (let h = memory (gcs m); header = h obj; widetag = header_widetag header in
      if instanceoid_widetag_p widetag
      then trace_object_using_layout e (layout_of h obj) obj (instanceoid_length header) m
      else rbind (headerobj_size h obj) (\<lambda>scan_to.
      if widetag = SIMPLE_VECTOR_WIDETAG then
        if vector_flagp header flag_VectorWeak then
          if \<not> vector_flagp header flag_VectorHashing then add_to_weak_vector_list obj header m
          else trace_weak_kv_vector e obj m
        else trace_words e obj 1 scan_to m
      else if widetag = CLOSURE_WIDETAG then
        rbind (gc_mark_obj e (fun_taggedptr_from_self (h (obj + 8))) m) (\<lambda>m. trace_words e obj 2 scan_to m)
      else if widetag = CODE_HEADER_WIDETAG then trace_words e obj 1 (code_header_words h obj) m
      else if widetag = SYMBOL_WIDETAG then
        rbind (gc_mark_obj e (h (obj + 40)) m) (\<lambda>m.
        rbind (gc_mark_obj e (h (obj + 16)) m) (\<lambda>m.
        rbind (gc_mark_obj e (h (obj + 32)) m) (\<lambda>m. gc_mark_obj e (h (obj + 24)) m)))
      else if widetag = FDEFN_WIDETAG then
        rbind (gc_mark_obj e (h (obj + 8)) m) (\<lambda>m.
        rbind (gc_mark_obj e (h (obj + 16)) m) (\<lambda>m. gc_mark_obj e (decode_fdefn_rawfun e h obj) m))
      else if widetag = WEAK_POINTER_WIDETAG then
        if weakptr_vectorp h obj then add_to_weak_vector_list obj header m
        else if is_lisp_pointer (h (obj + 8)) \<and> ptr_to_bit_index e m (h (obj + 8)) \<ge> 0
        then Inr (add_to_weak_pointer_chain obj m)
        else Inr m
      else if leaf_obj_widetag_p widetag then Inr m
      else trace_words e obj 1 scan_to m))"

section \<open>The mark phase\<close>

definition scan_queued :: "mark_env \<Rightarrow> lispobj \<Rightarrow> marker \<Rightarrow> marker result" where
  "scan_queued e ptr m =
     (if \<not> listp ptr then trace_object e (native_pointer ptr) m
      else mark_pair e (ptr - LIST_POINTER_LOWTAG) m)"

text \<open>
  A static space is walked object by object. An object of size 0 would keep the loop where it
  is until the queue fills the heap; not ending is \<open>None\<close>.
\<close>

partial_function (option) scav_static_range :: "uword \<Rightarrow> uword \<Rightarrow> marker \<Rightarrow> marker result option" where
  "scav_static_range obj limit m =
     (if obj < limit then
        let h = memory (gcs m); ptr = compute_lispobj widetag_lowtag h obj in
        case rbind (gc_enqueue ptr m) (\<lambda>m.
               rbind (if listp ptr then Inr 2 else headerobj_size h obj) (\<lambda>n. Inr (n, m))) of
          Inl x \<Rightarrow> Some (Inl x)
        | Inr (n, m) \<Rightarrow> scav_static_range (obj + 8 * n) limit m
      else Some (Inr m))"

text \<open>\<open>while (scav_queue.head_block->count || (test_weak_triggers(...) && scav_queue.head_block->count))\<close>\<close>

definition queue_nonempty :: "marker \<Rightarrow> bool" where
  "queue_nonempty m \<longleftrightarrow> qcount (blocks m (head_block m)) \<noteq> 0"

partial_function (option) mark_loop :: "mark_env \<Rightarrow> marker \<Rightarrow> marker result option" where
  "mark_loop e m =
     (case drain gc_dequeue (scan_queued e) queue_nonempty m of
        None \<Rightarrow> None
      | Some (Inl x) \<Rightarrow> Some (Inl x)
      | Some (Inr m) \<Rightarrow>
          (case test_weak_triggers e m of
             None \<Rightarrow> None
           | Some (Inl x) \<Rightarrow> Some (Inl x)
           | Some (Inr (progress, m)) \<Rightarrow>
               if progress \<and> queue_nonempty m then mark_loop e m else Some (Inr m)))"

text \<open>
  The roots: the symbol slots of \<open>NIL\<close> (no machine defines those of \<open>T\<close> apart), the static and the permanent space and three
  objects that the C code keeps in variables. \<open>option_rbind\<close> runs the next part when the part
  before it ended and did not stop the process.
\<close>

record mark_roots =
  NIL_SYMBOL_SLOTS_START :: uword
  STATIC_SPACE_OBJECTS_START :: uword
  static_space_free_pointer :: uword
  PERMGEN_SPACE_START :: uword
  permgen_space_free_pointer :: uword
  lisp_package_vector :: lispobj
  lisp_init_function :: lispobj
  alloc_profile_data :: lispobj

definition option_rbind :: "'a result option \<Rightarrow> ('a \<Rightarrow> 'b result option) \<Rightarrow> 'b result option" where
  "option_rbind r k = (case r of None \<Rightarrow> None | Some (Inl x) \<Rightarrow> Some (Inl x) | Some (Inr a) \<Rightarrow> k a)"

definition execute_full_mark_phase :: "mark_env \<Rightarrow> mark_roots \<Rightarrow> marker \<Rightarrow> marker result option" where
  "execute_full_mark_phase e r m =
     option_rbind (Some (trace_object e (NIL_SYMBOL_SLOTS_START r) m)) (\<lambda>m.
     option_rbind (scav_static_range (STATIC_SPACE_OBJECTS_START r) (static_space_free_pointer r) m) (\<lambda>m.
     option_rbind (scav_static_range (PERMGEN_SPACE_START r) (permgen_space_free_pointer r) m) (\<lambda>m.
     option_rbind (Some (gc_mark_obj e (lisp_package_vector r) m)) (\<lambda>m.
     option_rbind (Some (gc_mark_obj e (lisp_init_function r) m)) (\<lambda>m.
     option_rbind (Some (gc_mark_obj e (alloc_profile_data r) m)) (mark_loop e))))))"

end
