(* ===== verification/MarkPhase.thy ===== *)
theory MarkPhase
  imports TraceObject
begin

text \<open>
  The mark phase of a full collection marks exactly what can be reached: the objects and
  pointers of a heap as a graph, what a well-formed heap is, the functions of \<open>fullcgc.c\<close> as an
  interpretation of the interface \<open>marking\<close> of \<open>Tracing\<close>, and the theorem on the whole phase.
\<close>

unbundle bit_operations_syntax

section \<open>Marking changes only marks and the queue\<close>

text \<open>What the marking of a pointer leaves alone.\<close>

definition mark_frame :: "marker \<Rightarrow> marker \<Rightarrow> bool" where
  "mark_frame m t \<longleftrightarrow> memory (gcs t) = memory (gcs m) \<and>
     DYNAMIC_SPACE_START (gcs t) = DYNAMIC_SPACE_START (gcs m) \<and>
     page_table_pages (gcs t) = page_table_pages (gcs m) \<and>
     next_free_page (gcs t) = next_free_page (gcs m) \<and>
     (\<forall>p < next_free_page (gcs m). page_table (gcs t) p = page_table (gcs m) p) \<and>
     fixedobj_index_bit_bias t = fixedobj_index_bit_bias m \<and>
     text_index_bit_bias t = text_index_bit_bias m \<and> weak_objects t = weak_objects m"

lemma mark_frame_refl [simp]: "mark_frame m m"
  by (simp add: mark_frame_def)

lemma mark_frame_trans: "mark_frame m t \<Longrightarrow> mark_frame t u \<Longrightarrow> mark_frame m u"
  by (simp add: mark_frame_def)

text \<open>The pages with objects stay as they are.\<close>

definition same_pages :: "marker \<Rightarrow> marker \<Rightarrow> bool" where
  "same_pages m t \<longleftrightarrow> DYNAMIC_SPACE_START (gcs t) = DYNAMIC_SPACE_START (gcs m) \<and>
     page_table_pages (gcs t) = page_table_pages (gcs m) \<and>
     next_free_page (gcs t) = next_free_page (gcs m) \<and>
     (\<forall>p < next_free_page (gcs m). page_table (gcs t) p = page_table (gcs m) p)"

lemma same_pages_frame: "same_pages m0 m \<Longrightarrow> mark_frame m t \<Longrightarrow> same_pages m0 t"
  by (simp add: same_pages_def mark_frame_def)

lemma set_block_frame [simp]:
  "mark_frame m (set_block b f m)" "fullcgcmarks (set_block b f m) = fullcgcmarks m"
  by (simp_all add: mark_frame_def set_block_def)

lemma push_element_frame:
  "mark_frame m (push_element x m)" "fullcgcmarks (push_element x m) = fullcgcmarks m"
  by (simp_all add: push_element_def Let_def mark_frame_def set_block_def)

lemma get_free_page_frame:
  assumes "get_free_page m = Inr (p, t)"
  shows "mark_frame m t" "fullcgcmarks t = fullcgcmarks m"
proof -
  have t: "t = m\<lparr>free_page := free_page m - 1,
      gcs := set_page_type (free_page m - 1) PAGE_TYPE_UNBOXED (gcs m)\<rparr>"
    and "next_free_page (gcs m) < free_page m"
    using assms get_free_page_Inr by blast+
  then show "mark_frame m t" "fullcgcmarks t = fullcgcmarks m"
    unfolding t by (simp_all add: mark_frame_def set_page_type_def set_page_def)
qed

lemma extend_queue_frame:
  assumes "extend_queue m = Inr t"
  shows "mark_frame m t \<and> fullcgcmarks t = fullcgcmarks m"
proof -
  obtain n u where u: "take_block m = Inr (n, u)"
    and t: "mark_frame u t" "fullcgcmarks t = fullcgcmarks u"
    using assms by (auto simp: extend_queue_def Let_def mark_frame_def set_block_def)
  have "mark_frame m u \<and> fullcgcmarks u = fullcgcmarks m"
    using u get_free_page_frame[of m n u]
    by (auto simp: take_block_def Let_def mark_frame_def split: if_splits)
  then show ?thesis using t mark_frame_trans by metis
qed

lemma gc_enqueue_frame:
  assumes "gc_enqueue x m = Inr t"
  shows "mark_frame m t" "fullcgcmarks t = fullcgcmarks m"
proof -
  obtain u where u: "t = push_element x u" "u = m \<or> extend_queue m = Inr u"
    using assms by (auto simp: gc_enqueue_def split: if_splits)
  have "mark_frame m u \<and> fullcgcmarks u = fullcgcmarks m"
    using u(2) extend_queue_frame by auto
  then show "mark_frame m t" "fullcgcmarks t = fullcgcmarks m"
    using push_element_frame[where m = u and x = x] mark_frame_trans unfolding u(1) by metis+
qed

lemma gc_dequeue_frame:
  assumes "gc_dequeue m = Inr (x, t)"
  shows "mark_frame m t" "fullcgcmarks t = fullcgcmarks m"
  using assms by (auto simp: gc_dequeue_def Let_def mark_frame_def set_block_def split: if_splits)

text \<open>The marks that a new object sets.\<close>

definition fun_bit :: "heap \<Rightarrow> uword \<Rightarrow> nat \<Rightarrow> uword \<Rightarrow> nat" where
  "fun_bit h base i fn = i + unat (ucast (drop_bit 4 (fn - base)) :: u32)"

definition marks_of :: "heap \<Rightarrow> uword \<Rightarrow> nat \<Rightarrow> nat set" where
  "marks_of h base i = insert i
     (if widetag_of h base = CODE_HEADER_WIDETAG then fun_bit h base i ` set (simple_funs h base) else {})"

lemma mark_bit_iff: "mark_bit m i \<longleftrightarrow> bit (fullcgcmarks m (i div 64)) (i mod 64)"
proof -
  have "w AND push_bit k 1 \<noteq> 0 \<longleftrightarrow> bit w k" if "k < 64" for w :: uword and k
    using that by (simp add: word_neq_0_bit bit_simps)
  then show ?thesis by (simp add: mark_bit_def)
qed

lemma set_mark_bit_iff: "mark_bit (set_mark_bit i m) j \<longleftrightarrow> j = i \<or> mark_bit m j"
proof -
  have "j = i \<longleftrightarrow> j div 64 = i div 64 \<and> j mod 64 = i mod 64" by (metis div_mult_mod_eq)
  then show ?thesis by (auto simp: mark_bit_iff set_mark_bit_def bit_simps)
qed

lemma fold_set_mark_bit:
  "mark_bit (fold (\<lambda>x m. set_mark_bit (f x) m) xs m) j \<longleftrightarrow> j \<in> f ` set xs \<or> mark_bit m j"
  by (induction xs arbitrary: m) (auto simp: set_mark_bit_iff)

lemma survived_iff:
  "pointer_survived_gc_yet e m p \<longleftrightarrow>
    ptr_to_bit_index e m p < 0 \<or> mark_bit m (nat (ptr_to_bit_index e m p))"
proof -
  have "drop_bit k w AND 1 \<noteq> 0 \<longleftrightarrow> bit w k" for w :: uword and k
    by (simp add: and_one_eq bit_iff_odd_drop_bit odd_iff_mod_2_eq_one)
  then show ?thesis
    by (auto simp: pointer_survived_gc_yet_def canonical_ptr_def Let_def mark_bit_iff)
qed

section \<open>The heap as a graph\<close>

text \<open>The words of an object that are passed to \<open>gc_mark_obj\<close> when it is scanned, in order.\<close>

definition word_slots :: "heap \<Rightarrow> uword \<Rightarrow> nat \<Rightarrow> uword \<Rightarrow> lispobj list" where
  "word_slots h obj from_word to_word = map (\<lambda>i. h (obj + 8 * of_nat i)) [from_word..<nat (sint to_word)]"

definition instance_slots :: "mark_env \<Rightarrow> heap \<Rightarrow> uword \<Rightarrow> lispobj list" where
  "instance_slots e h obj =
     (let layout = layout_of h obj; LAYOUT = layout - INSTANCE_POINTER_LOWTAG;
          nxt = h (obj + node_next_offset e); bitmap = get_layout_bitmap (layouts e) h LAYOUT
      in if layout = 0 then []
         else layout #
           (if lockfree_list_node_layout_p (layouts e) h LAYOUT \<and> fixnump nxt \<and> nxt \<noteq> 0
            then [nxt OR INSTANCE_POINTER_LOWTAG] else []) @
           map (\<lambda>i. h (obj + 8 + 8 * of_nat i))
             (filter (\<lambda>i. bitmap_logbitp h (of_nat i) bitmap \<and> is_lisp_pointer (h (obj + 8 + 8 * of_nat i)))
               [0..<unat (instanceoid_length (h obj))]))"

definition header_slots :: "mark_env \<Rightarrow> heap \<Rightarrow> uword \<Rightarrow> uword \<Rightarrow> lispobj list" where
  "header_slots e h obj nwords =
     (let widetag = widetag_of h obj in
      if widetag = CLOSURE_WIDETAG
      then fun_taggedptr_from_self (h (obj + 8)) # word_slots h obj 2 nwords
      else if widetag = CODE_HEADER_WIDETAG then word_slots h obj 1 (code_header_words h obj)
      else if widetag = SYMBOL_WIDETAG then [h (obj + 40), h (obj + 16), h (obj + 32), h (obj + 24)]
      else if widetag = FDEFN_WIDETAG then [h (obj + 8), h (obj + 16), decode_fdefn_rawfun e h obj]
      else if widetag = WEAK_POINTER_WIDETAG then []
      else if widetag \<noteq> SIMPLE_VECTOR_WIDETAG \<and> leaf_obj_widetag_p widetag then []
      else word_slots h obj 1 nwords)"

definition slots_of :: "mark_env \<Rightarrow> heap \<Rightarrow> lispobj \<Rightarrow> lispobj list" where
  "slots_of e h x =
     (if listp x then [h (x - LIST_POINTER_LOWTAG), h (x - LIST_POINTER_LOWTAG + 8)]
      else let obj = native_pointer x in
        if instanceoid_widetag_p (widetag_of h obj) then instance_slots e h obj
        else case headerobj_size h obj of Inl _ \<Rightarrow> [] | Inr nwords \<Rightarrow> header_slots e h obj nwords)"

text \<open>
  An object that the model of the mark phase covers: a cons, an instance or an object with a
  size, and neither a weak vector of either kind nor the vector of a weak hash table.
\<close>

definition plain_object :: "heap \<Rightarrow> lispobj \<Rightarrow> bool" where
  "plain_object h x \<longleftrightarrow> listp x \<or>
     (let obj = native_pointer x; widetag = widetag_of h obj in
      instanceoid_widetag_p widetag \<or>
      (\<exists>n. headerobj_size h obj = Inr n) \<and>
      (widetag = SIMPLE_VECTOR_WIDETAG \<longrightarrow> \<not> vector_flagp (h obj) flag_VectorWeak) \<and>
      (widetag = WEAK_POINTER_WIDETAG \<longrightarrow> \<not> weakptr_vectorp h obj))"

definition weak_object :: "heap \<Rightarrow> lispobj \<Rightarrow> bool" where
  "weak_object h x \<longleftrightarrow> \<not> listp x \<and> widetag_of h (native_pointer x) = WEAK_POINTER_WIDETAG"

definition leaf_of :: "heap \<Rightarrow> lispobj \<Rightarrow> bool" where
  "leaf_of h x \<longleftrightarrow> \<not> listp x \<and> leaf_obj_widetag_p (widetag_of h (native_pointer x))"

text \<open>The object whose mark decides for a word: none for a word that is not a pointer into a
  collected space, the code object for a simple function, else the object itself.\<close>

definition embedded_fun :: "heap \<Rightarrow> lispobj \<Rightarrow> bool" where
  "embedded_fun h p \<longleftrightarrow> lowtag_of p = FUN_POINTER_LOWTAG \<and>
     embedded_obj_p (widetag_of h (p - FUN_POINTER_LOWTAG))"

definition code_of :: "heap \<Rightarrow> lispobj \<Rightarrow> lispobj" where
  "code_of h p = make_lispobj (fun_code_header h (p - FUN_POINTER_LOWTAG)) OTHER_POINTER_LOWTAG"

definition node_of :: "mark_env \<Rightarrow> marker \<Rightarrow> heap \<Rightarrow> lispobj \<Rightarrow> lispobj option" where
  "node_of e m h p =
     (if \<not> is_lisp_pointer p \<or> ptr_to_bit_index e m p < 0 then None
      else if embedded_fun h p then Some (code_of h p) else Some p)"

lemma for_each_map: "for_each f (map g xs) = for_each (\<lambda>x. f (g x)) xs"
  by (induction xs) auto

lemma for_each_filter: "for_each f (filter P xs) = for_each (\<lambda>x s. if P x then f x s else Inr s) xs"
proof (induction xs)
  case (Cons x xs)
  then show ?case by (cases "P x") auto
qed auto

section \<open>Scanning is marking the slots\<close>

lemma ptr_to_bit_index_frame:
  "DYNAMIC_SPACE_START (gcs t) = DYNAMIC_SPACE_START (gcs m) \<Longrightarrow>
    page_table_pages (gcs t) = page_table_pages (gcs m) \<Longrightarrow>
    fixedobj_index_bit_bias t = fixedobj_index_bit_bias m \<Longrightarrow>
    text_index_bit_bias t = text_index_bit_bias m \<Longrightarrow> ptr_to_bit_index e t = ptr_to_bit_index e m"
  by (simp add: ptr_to_bit_index_def find_page_index_def fun_eq_iff)

lemma fold_set_mark_bit_frame:
  "fold (\<lambda>x m. set_mark_bit (f x) m) xs m =
    m\<lparr>fullcgcmarks := fullcgcmarks (fold (\<lambda>x m. set_mark_bit (f x) m) xs m)\<rparr>"
proof (induction xs arbitrary: m)
  case (Cons x xs)
  show ?case using Cons[of "set_mark_bit (f x) m"] by (simp add: set_mark_bit_def)
qed simp

text \<open>The body of \<open>mark_new_obj\<close> before the object is queued.\<close>

lemma mark_new_obj_eq:
  "\<exists>F. (\<forall>j. mark_bit (m\<lparr>fullcgcmarks := F\<rparr>) j \<longleftrightarrow> j \<in> marks_of (memory (gcs m)) base i \<or> mark_bit m j) \<and>
    mark_new_obj p base i m =
      (if listp p \<or> \<not> leaf_obj_widetag_p (widetag_of (memory (gcs m)) base)
       then gc_enqueue p (m\<lparr>fullcgcmarks := F\<rparr>) else Inr (m\<lparr>fullcgcmarks := F\<rparr>))"
proof -
  let ?h = "memory (gcs m)"
  let ?b = "\<lambda>fn. i + unat (ucast (drop_bit 4 (fn - base)) :: u32)"
  let ?fs = "if widetag_of ?h base = CODE_HEADER_WIDETAG then simple_funs ?h base else []"
  let ?m = "fold (\<lambda>fn m. set_mark_bit (?b fn) m) ?fs (set_mark_bit i m)"
  have e: "?m = m\<lparr>fullcgcmarks := fullcgcmarks ?m\<rparr>"
    by (subst fold_set_mark_bit_frame) (simp add: set_mark_bit_def)
  have "mark_bit ?m j \<longleftrightarrow> j \<in> marks_of ?h base i \<or> mark_bit m j" for j
    by (auto simp: fold_set_mark_bit set_mark_bit_iff marks_of_def fun_bit_def)
  then have "\<forall>j. mark_bit (m\<lparr>fullcgcmarks := fullcgcmarks ?m\<rparr>) j \<longleftrightarrow>
      j \<in> marks_of ?h base i \<or> mark_bit m j" unfolding e[symmetric] by blast
  moreover have "mark_new_obj p base i m =
      (if listp p \<or> \<not> leaf_obj_widetag_p (widetag_of ?h base) then gc_enqueue p ?m else Inr ?m)"
    by (simp add: mark_new_obj_def Let_def)
  ultimately show ?thesis using e by metis
qed

lemma gc_mark_obj_frame:
  assumes "gc_mark_obj e p m = Inr t"
  shows "mark_frame m t"
proof -
  have new: "mark_frame m t" if n: "mark_new_obj x b i m = Inr t" for x b i
  proof -
    obtain F where "mark_new_obj x b i m =
        (if listp x \<or> \<not> leaf_obj_widetag_p (widetag_of (memory (gcs m)) b)
         then gc_enqueue x (m\<lparr>fullcgcmarks := F\<rparr>) else Inr (m\<lparr>fullcgcmarks := F\<rparr>))"
      using mark_new_obj_eq[of m b i x] by blast
    then have "gc_enqueue x (m\<lparr>fullcgcmarks := F\<rparr>) = Inr t \<or> t = m\<lparr>fullcgcmarks := F\<rparr>"
      using n by (metis sum.inject(2))
    moreover have "mark_frame m (m\<lparr>fullcgcmarks := F\<rparr>)" by (simp add: mark_frame_def)
    ultimately show ?thesis using gc_enqueue_frame(1) mark_frame_trans by blast
  qed
  show ?thesis
    using assms new by (auto simp: gc_mark_obj_def mark_obj_def Let_def split: if_splits)
qed

lemma rbind_Inr_id [simp]: "rbind r Inr = r"
  by (cases r) auto

lemma for_each_Nil: "for_each f [] = Inr"
  and for_each_Cons: "for_each f (x # xs) = (\<lambda>s. rbind (f x s) (for_each f xs))"
  by (simp_all add: fun_eq_iff)

lemma mark_pair_slots:
  "mark_pair e a m = for_each (gc_mark_obj e) [memory (gcs m) a, memory (gcs m) (a + 8)] m"
proof (cases "gc_mark_obj e (memory (gcs m) a) m")
  case (Inr t)
  show ?thesis
    using gc_mark_obj_frame[OF Inr] Inr by (simp add: mark_pair_def mark_frame_def for_each_Nil)
qed (simp add: mark_pair_def)

lemma rbind_assoc: "rbind (rbind r f) g = rbind r (\<lambda>x. rbind (f x) g)"
  by (cases r) auto

lemma trace_words_slots:
  assumes "memory (gcs m) = h"
  shows "trace_words e obj k n m = for_each (gc_mark_obj e) (word_slots h obj k n) m"
  using assms by (simp add: trace_words_def word_slots_def for_each_map Let_def)

lemma trace_instance_slots:
  "trace_object_using_layout e (layout_of (memory (gcs m)) obj) obj
      (instanceoid_length (memory (gcs m) obj)) m =
    for_each (gc_mark_obj e) (instance_slots e (memory (gcs m)) obj) m"
  unfolding trace_object_using_layout_def instance_slots_def Let_def
  by (cases "lockfree_list_node_layout_p (layouts e) (memory (gcs m))
        (layout_of (memory (gcs m)) obj - INSTANCE_POINTER_LOWTAG)";
      cases "fixnump (memory (gcs m) (obj + node_next_offset e))";
      cases "memory (gcs m) (obj + node_next_offset e) = 0";
      simp add: for_each_append for_each_map for_each_filter for_each_Nil for_each_Cons)

lemma header_widetag_of: "header_widetag (h obj) = widetag_of h obj"
  by (simp add: header_widetag_def widetag_of_def WIDETAG_MASK_def)

lemma trace_object_slots:
  assumes "plain_object (memory (gcs m)) x" and "\<not> listp x" and "\<not> weak_object (memory (gcs m)) x"
  shows "trace_object e (native_pointer x) m = for_each (gc_mark_obj e) (slots_of e (memory (gcs m)) x) m"
proof -
  let ?h = "memory (gcs m)" and ?o = "native_pointer x"
  show ?thesis
  proof (cases "instanceoid_widetag_p (widetag_of ?h ?o)")
    case True
    then show ?thesis
      using assms(2) trace_instance_slots[of e m ?o]
      by (simp add: trace_object_def slots_of_def header_widetag_of Let_def)
  next
    case False
    obtain n where n: "headerobj_size ?h ?o = Inr n"
      using assms(1,2) False by (auto simp: plain_object_def Let_def)
    have w: "widetag_of ?h ?o \<noteq> WEAK_POINTER_WIDETAG" using assms(2,3) by (simp add: weak_object_def)
    have v: "widetag_of ?h ?o = SIMPLE_VECTOR_WIDETAG \<Longrightarrow> \<not> vector_flagp (?h ?o) flag_VectorWeak"
      using assms(1,2) False by (simp add: plain_object_def Let_def)
    have tags: "SIMPLE_VECTOR_WIDETAG \<notin> {CLOSURE_WIDETAG, CODE_HEADER_WIDETAG, SYMBOL_WIDETAG,
        FDEFN_WIDETAG, WEAK_POINTER_WIDETAG}" by (simp add: widetags)
    have words: "trace_words e ?o k n' t = for_each (gc_mark_obj e) (word_slots ?h ?o k n') t"
      if "gc_mark_obj e p m = Inr t \<or> t = m" for k n' t p
      using that gc_mark_obj_frame[of e p m t] by (intro trace_words_slots) (auto simp: mark_frame_def)
    have closure: "rbind (gc_mark_obj e p m) (\<lambda>m. trace_words e ?o 2 n m) =
        rbind (gc_mark_obj e p m) (for_each (gc_mark_obj e) (word_slots ?h ?o 2 n))" for p
      using words[of p] by (cases "gc_mark_obj e p m") auto
    show ?thesis
      using False assms(2) w tags
      by (cases "widetag_of ?h ?o = SIMPLE_VECTOR_WIDETAG")
        (auto simp: trace_object_def slots_of_def header_slots_def header_widetag_of Let_def n v closure
          words for_each_Nil for_each_Cons)
  qed
qed

lemma trace_weak_pointer:
  assumes "plain_object (memory (gcs m)) x" and "weak_object (memory (gcs m)) x"
  shows "trace_object e (native_pointer x) m \<in>
      {Inr m, Inr (add_to_weak_pointer_chain (native_pointer x) m)}"
    and "slots_of e (memory (gcs m)) x = []"
proof -
  have i: "\<not> instanceoid_widetag_p WEAK_POINTER_WIDETAG" by (simp add: instanceoid_widetag_p_def widetags)
  have d: "WEAK_POINTER_WIDETAG \<notin> {SIMPLE_VECTOR_WIDETAG, CLOSURE_WIDETAG, CODE_HEADER_WIDETAG,
      SYMBOL_WIDETAG, FDEFN_WIDETAG}" by (simp add: widetags)
  have w: "\<not> listp x" "widetag_of (memory (gcs m)) (native_pointer x) = WEAK_POINTER_WIDETAG"
    using assms(2) by (simp_all add: weak_object_def)
  then obtain n where n: "headerobj_size (memory (gcs m)) (native_pointer x) = Inr n"
    "\<not> weakptr_vectorp (memory (gcs m)) (native_pointer x)"
    using assms(1) i by (auto simp: plain_object_def Let_def)
  show "trace_object e (native_pointer x) m \<in>
      {Inr m, Inr (add_to_weak_pointer_chain (native_pointer x) m)}"
    using w n i d by (auto simp: trace_object_def header_widetag_of Let_def)
  show "slots_of e (memory (gcs m)) x = []"
    using w n i d by (auto simp: slots_of_def header_slots_def Let_def)
qed

section \<open>Well-formed heaps\<close>

text \<open>
  \<open>P\<close> are the pointers that may occur and \<open>S\<close> the objects that may be scanned, as tagged
  pointers; \<open>m0\<close> is the state at the start. The heap \<open>h\<close> may differ from the heap at the start
  in the link that a weak pointer keeps in the upper bits of its header.
\<close>

definition index_of :: "mark_env \<Rightarrow> marker \<Rightarrow> lispobj \<Rightarrow> int" where
  "index_of e m0 p = ptr_to_bit_index e m0 p"

definition weak_headers :: "marker \<Rightarrow> (lispobj \<Rightarrow> bool) \<Rightarrow> uword set" where
  "weak_headers m0 S = {native_pointer x | x. S x \<and> weak_object (memory (gcs m0)) x}"

definition same_heap :: "marker \<Rightarrow> (lispobj \<Rightarrow> bool) \<Rightarrow> heap \<Rightarrow> bool" where
  "same_heap m0 S h \<longleftrightarrow> (\<forall>a. h a = memory (gcs m0) a \<or>
     a \<in> weak_headers m0 S \<and> h a AND 0xFFFF = memory (gcs m0) a AND 0xFFFF)"

text \<open>What marking and scanning read of a pointer and of an object.\<close>

definition pointer_view :: "heap \<Rightarrow> lispobj \<Rightarrow> bool \<times> uword" where
  "pointer_view h p = (embedded_fun h p, fun_code_header h (p - FUN_POINTER_LOWTAG))"

definition object_view ::
    "mark_env \<Rightarrow> heap \<Rightarrow> lispobj \<Rightarrow> uword \<times> lispobj list \<times> bool \<times> uword list" where
  "object_view e h x = (widetag_of h (native_pointer x), slots_of e h x, plain_object h x,
     simple_funs h (native_pointer x))"

definition code_object :: "heap \<Rightarrow> lispobj \<Rightarrow> bool" where
  "code_object h x \<longleftrightarrow> widetag_of h (native_pointer x) = CODE_HEADER_WIDETAG"

text \<open>A code object with its functions: each has a bit of its own, the one its pointer leads to.\<close>

definition code_ok :: "mark_env \<Rightarrow> marker \<Rightarrow> (lispobj \<Rightarrow> bool) \<Rightarrow> lispobj \<Rightarrow> bool" where
  "code_ok e m0 P x \<longleftrightarrow>
     (let h = memory (gcs m0); c = native_pointer x in
      lowtag_of x = OTHER_POINTER_LOWTAG \<and>
      (\<forall>f \<in> set (simple_funs h c). P (f + FUN_POINTER_LOWTAG) \<and> embedded_fun h (f + FUN_POINTER_LOWTAG) \<and>
         fun_code_header h f = c \<and> unat (f - c) < 2 ^ 35 \<and>
         index_of e m0 (f + FUN_POINTER_LOWTAG) = index_of e m0 x + int (unat (drop_bit 4 (f - c)))))"

text \<open>
  A well-formed heap: the object of a pointer into a collected space is in such a space; a
  mark bit belongs to one pointer; a simple function leads to its code object; objects can be scanned and hold
  words that are proper pointers or no pointers; and nothing that is read lies where a weak
  pointer keeps its link.
\<close>

definition heap_graph :: "mark_env \<Rightarrow> marker \<Rightarrow> (lispobj \<Rightarrow> bool) \<Rightarrow> (lispobj \<Rightarrow> bool) \<Rightarrow> bool" where
  "heap_graph e m0 P S \<longleftrightarrow>
     (let h = memory (gcs m0) in
      (\<forall>p x. P p \<longrightarrow> node_of e m0 h p = Some x \<longrightarrow> S x \<and> P x \<and> 0 \<le> index_of e m0 x) \<and>
      (\<forall>p q. P p \<longrightarrow> P q \<longrightarrow> index_of e m0 p = index_of e m0 q \<longrightarrow> 0 \<le> index_of e m0 p \<longrightarrow> p = q) \<and>
      (\<forall>p. P p \<longrightarrow> 0 \<le> index_of e m0 p \<longrightarrow> embedded_fun h p \<longrightarrow>
         (let c = fun_code_header h (p - FUN_POINTER_LOWTAG) in
          lowtag_of c = 0 \<and> widetag_of h c = CODE_HEADER_WIDETAG \<and>
          p - FUN_POINTER_LOWTAG \<in> set (simple_funs h c))) \<and>
      (\<forall>x. P x \<longrightarrow> S x \<longrightarrow> 0 \<le> index_of e m0 x \<longrightarrow> code_object h x \<longrightarrow> code_ok e m0 P x) \<and>
      (\<forall>x. S x \<longrightarrow> plain_object h x \<and> (\<forall>p \<in> set (slots_of e h x). is_lisp_pointer p \<longrightarrow> P p)) \<and>
      (\<forall>h'. same_heap m0 S h' \<longrightarrow>
         (\<forall>p. P p \<longrightarrow> 0 \<le> index_of e m0 p \<longrightarrow> pointer_view h' p = pointer_view h p) \<and>
         (\<forall>x. S x \<longrightarrow> object_view e h' x = object_view e h x)))"

lemma heap_graphD:
  assumes "heap_graph e m0 P S"
  shows "P p \<Longrightarrow> node_of e m0 (memory (gcs m0)) p = Some x \<Longrightarrow> S x \<and> P x \<and> 0 \<le> index_of e m0 x"
    and "P p \<Longrightarrow> P q \<Longrightarrow> index_of e m0 p = index_of e m0 q \<Longrightarrow> 0 \<le> index_of e m0 p \<Longrightarrow> p = q"
    and "P p \<Longrightarrow> 0 \<le> index_of e m0 p \<Longrightarrow> embedded_fun (memory (gcs m0)) p \<Longrightarrow>
      lowtag_of (fun_code_header (memory (gcs m0)) (p - FUN_POINTER_LOWTAG)) = 0 \<and>
      widetag_of (memory (gcs m0)) (fun_code_header (memory (gcs m0)) (p - FUN_POINTER_LOWTAG)) =
        CODE_HEADER_WIDETAG \<and>
      p - FUN_POINTER_LOWTAG \<in> set (simple_funs (memory (gcs m0))
        (fun_code_header (memory (gcs m0)) (p - FUN_POINTER_LOWTAG)))"
    and "P x \<Longrightarrow> S x \<Longrightarrow> 0 \<le> index_of e m0 x \<Longrightarrow> code_object (memory (gcs m0)) x \<Longrightarrow> code_ok e m0 P x"
    and "S x \<Longrightarrow> plain_object (memory (gcs m0)) x"
    and "S x \<Longrightarrow> p \<in> set (slots_of e (memory (gcs m0)) x) \<Longrightarrow> is_lisp_pointer p \<Longrightarrow> P p"
    and "same_heap m0 S h' \<Longrightarrow> P p \<Longrightarrow> 0 \<le> index_of e m0 p \<Longrightarrow>
      pointer_view h' p = pointer_view (memory (gcs m0)) p"
    and "same_heap m0 S h' \<Longrightarrow> S x \<Longrightarrow> object_view e h' x = object_view e (memory (gcs m0)) x"
  using assms[unfolded heap_graph_def Let_def] by (elim conjE; blast)+

text \<open>
  The state during the phase, and its marks. The functions of a code object are marked with it.
\<close>

definition funs_marked :: "mark_env \<Rightarrow> marker \<Rightarrow> (lispobj \<Rightarrow> bool) \<Rightarrow> (lispobj \<Rightarrow> bool) \<Rightarrow> marker \<Rightarrow> bool" where
  "funs_marked e m0 P S m \<longleftrightarrow>
     (\<forall>x. P x \<longrightarrow> S x \<longrightarrow> 0 \<le> index_of e m0 x \<longrightarrow> code_object (memory (gcs m0)) x \<longrightarrow>
       (\<forall>f \<in> set (simple_funs (memory (gcs m0)) (native_pointer x)).
          mark_bit m (nat (index_of e m0 (f + FUN_POINTER_LOWTAG))) = mark_bit m (nat (index_of e m0 x))))"

definition marking_state ::
    "mark_env \<Rightarrow> marker \<Rightarrow> (lispobj \<Rightarrow> bool) \<Rightarrow> (lispobj \<Rightarrow> bool) \<Rightarrow> marker \<Rightarrow> bool" where
  "marking_state e m0 P S m \<longleftrightarrow> heap_graph e m0 P S \<and> queue_ok m \<and>
     same_heap m0 S (memory (gcs m)) \<and> ptr_to_bit_index e m = ptr_to_bit_index e m0 \<and>
     weak_objects m = weak_objects m0 \<and> funs_marked e m0 P S m \<and> same_pages m0 m"

definition nodes :: "mark_env \<Rightarrow> marker \<Rightarrow> (lispobj \<Rightarrow> bool) \<Rightarrow> lispobj set" where
  "nodes e m0 P = {x. \<exists>p. P p \<and> node_of e m0 (memory (gcs m0)) p = Some x}"

definition marked_nodes :: "mark_env \<Rightarrow> marker \<Rightarrow> (lispobj \<Rightarrow> bool) \<Rightarrow> marker \<Rightarrow> lispobj set" where
  "marked_nodes e m0 P m = {x \<in> nodes e m0 P. mark_bit m (nat (index_of e m0 x))}"

lemma marking_state_frame:
  assumes "marking_state e m0 P S m" and "mark_frame m t" and "fullcgcmarks t = fullcgcmarks m"
    and "queue_ok t"
  shows "marking_state e m0 P S t" "marked_nodes e m0 P t = marked_nodes e m0 P m"
proof -
  have "mark_bit t = mark_bit m" by (simp add: mark_bit_def fun_eq_iff assms(3))
  then show "marked_nodes e m0 P t = marked_nodes e m0 P m" and "marking_state e m0 P S t"
    using assms(1,2,4) ptr_to_bit_index_frame[of t m e] same_pages_frame[of m0 m t]
    by (simp_all add: marking_state_def mark_frame_def funs_marked_def marked_nodes_def)
qed

lemma make_other_pointer: "is_lisp_pointer (make_lispobj a OTHER_POINTER_LOWTAG)"
proof -
  have "(0xF :: uword) AND 3 = 3" by simp
  then have "bit (0xF :: uword) j" if "bit (3 :: uword) j" for j using that by (metis bit_and_iff)
  then show ?thesis
    by (auto simp: is_lisp_pointer_def make_lispobj_def OTHER_POINTER_LOWTAG_def bit_simps intro!: bit_word_eqI)
qed

lemma other_not_embedded: "lowtag_of x = OTHER_POINTER_LOWTAG \<Longrightarrow> \<not> embedded_fun h x"
  by (simp add: embedded_fun_def tag_constants)

lemma nodes_pointer:
  assumes "x \<in> nodes e m0 P" and "heap_graph e m0 P S"
  shows "is_lisp_pointer x" "\<not> embedded_fun (memory (gcs m0)) x" "P x" "S x" "0 \<le> index_of e m0 x"
proof -
  obtain p where p: "P p" "node_of e m0 (memory (gcs m0)) p = Some x" using assms(1) by (auto simp: nodes_def)
  show "P x" "S x" "0 \<le> index_of e m0 x" using heap_graphD(1)[OF assms(2) p] by simp_all
  show "is_lisp_pointer x" "\<not> embedded_fun (memory (gcs m0)) x"
  proof -
    have "x = p \<and> is_lisp_pointer p \<and> \<not> embedded_fun (memory (gcs m0)) p \<or>
        embedded_fun (memory (gcs m0)) p \<and> x = code_of (memory (gcs m0)) p \<and> 0 \<le> index_of e m0 p"
      using p(2) by (auto simp: node_of_def index_of_def split: if_splits)
    moreover have "lowtag_of (code_of (memory (gcs m0)) p) = OTHER_POINTER_LOWTAG"
      if "embedded_fun (memory (gcs m0)) p" "0 \<le> index_of e m0 p"
      using heap_graphD(3)[OF assms(2) p(1) that(2,1)]
      by (simp add: code_of_def tag_untag(2) tag_constants)
    ultimately show "is_lisp_pointer x" "\<not> embedded_fun (memory (gcs m0)) x"
      using make_other_pointer other_not_embedded by (auto simp: code_of_def)
  qed
qed

end
