(* ===== verification/Marking.thy ===== *)
theory Marking
  imports MarkPhase
begin

text \<open>
  Marking one pointer and scanning one object in a well-formed heap, and the interpretation of
  the interface \<open>marking\<close> of \<open>Tracing\<close> on the functions of \<open>fullcgc.c\<close>.
\<close>

unbundle bit_operations_syntax

section \<open>Marking one pointer\<close>

lemma small_offset:
  fixes d :: uword
  assumes "unat d < 2 ^ 35"
  shows "int (unat (ucast (drop_bit 4 d) :: u32)) = sint (signed_drop_bit 4 d)"
    and "sint (signed_drop_bit 4 d) = int (unat (drop_bit 4 d))"
proof -
  have u: "uint d = int (unat d)" by simp
  have "unat d < 2 ^ 63" using assms by simp
  then have lt: "int (unat d) < 2 ^ 63" by (metis of_nat_less_iff of_nat_numeral of_nat_power)
  have "- (2 ^ 63) \<le> int (unat d)" by (rule order_trans[of _ 0]) simp_all
  then have "signed_take_bit 63 (int (unat d)) = int (unat d)"
    using lt by (rule signed_take_bit_int_eq_self)
  then have d: "sint d = int (unat d)" unfolding sint_uint u by simp
  have e: "unat (drop_bit 4 d) = unat d div 16"
    by (simp only: unat_drop_bit_eq) (simp add: drop_bit_eq_div)
  have s: "sint (signed_drop_bit 4 d) = int (unat d div 16)"
    unfolding sint_signed_drop_bit_eq d by (simp add: drop_bit_eq_div zdiv_int)
  then show "sint (signed_drop_bit 4 d) = int (unat (drop_bit 4 d))" using e by simp
  have "unat (drop_bit 4 d) < 2 ^ 32" using e assms by simp
  moreover have "unat (ucast (drop_bit 4 d) :: u32) = take_bit 32 (unat (drop_bit 4 d))"
    by (subst unsigned_ucast_eq) simp
  ultimately have "unat (ucast (drop_bit 4 d) :: u32) = unat (drop_bit 4 d)"
    by (simp only: take_bit_nat_eq_self)
  then show "int (unat (ucast (drop_bit 4 d) :: u32)) = sint (signed_drop_bit 4 d)" using s e by simp
qed


text \<open>The marks of a new object are its own and those of its functions.\<close>

definition code_funs :: "heap \<Rightarrow> lispobj \<Rightarrow> uword set" where
  "code_funs h x = (if code_object h x then set (simple_funs h (native_pointer x)) else {})"

lemma code_funsD:
  assumes g: "heap_graph e m0 P S" and x: "P x" "S x" "0 \<le> index_of e m0 x"
    and f: "f \<in> code_funs (memory (gcs m0)) x"
  shows "P (f + FUN_POINTER_LOWTAG)" "embedded_fun (memory (gcs m0)) (f + FUN_POINTER_LOWTAG)"
    "fun_code_header (memory (gcs m0)) f = native_pointer x" "lowtag_of x = OTHER_POINTER_LOWTAG"
    "unat (f - native_pointer x) < 2 ^ 35"
    "index_of e m0 (f + FUN_POINTER_LOWTAG) =
      index_of e m0 x + int (unat (drop_bit 4 (f - native_pointer x)))"
proof -
  have c: "code_object (memory (gcs m0)) x" and f: "f \<in> set (simple_funs (memory (gcs m0)) (native_pointer x))"
    using f by (auto simp: code_funs_def split: if_splits)
  note ok = heap_graphD(4)[OF g x c, unfolded code_ok_def Let_def]
  show "lowtag_of x = OTHER_POINTER_LOWTAG" using ok by blast
  show "P (f + FUN_POINTER_LOWTAG)" "embedded_fun (memory (gcs m0)) (f + FUN_POINTER_LOWTAG)"
    "fun_code_header (memory (gcs m0)) f = native_pointer x" "unat (f - native_pointer x) < 2 ^ 35"
    "index_of e m0 (f + FUN_POINTER_LOWTAG) =
      index_of e m0 x + int (unat (drop_bit 4 (f - native_pointer x)))"
    using ok f by blast+
qed

lemma marks_of_index:
  assumes g: "heap_graph e m0 P S" and x: "P x" "S x" "0 \<le> index_of e m0 x"
  shows "marks_of (memory (gcs m0)) (native_pointer x) (nat (index_of e m0 x)) =
    insert (nat (index_of e m0 x))
      ((\<lambda>f. nat (index_of e m0 (f + FUN_POINTER_LOWTAG))) ` code_funs (memory (gcs m0)) x)"
proof -
  let ?h = "memory (gcs m0)" and ?c = "native_pointer x" and ?i = "nat (index_of e m0 x)"
  have b: "fun_bit ?h ?c ?i f = nat (index_of e m0 (f + FUN_POINTER_LOWTAG))" if "f \<in> code_funs ?h x" for f
  proof -
    have "int (fun_bit ?h ?c ?i f) = index_of e m0 x + int (unat (drop_bit 4 (f - ?c)))"
      using code_funsD(5)[OF g x that] x(3) unfolding fun_bit_def
      by (simp only: of_nat_add small_offset int_nat_eq if_True)
    then show ?thesis using code_funsD(6)[OF g x that] by simp
  qed
  have "marks_of ?h ?c ?i = insert ?i (fun_bit ?h ?c ?i ` code_funs ?h x)"
    by (simp add: marks_of_def code_funs_def code_object_def)
  also have "fun_bit ?h ?c ?i ` code_funs ?h x =
      (\<lambda>f. nat (index_of e m0 (f + FUN_POINTER_LOWTAG))) ` code_funs ?h x"
    using b by (rule image_cong[OF refl])
  finally show ?thesis .
qed

lemma same_index:
  assumes "heap_graph e m0 P S" and "P p" "P q" "0 \<le> index_of e m0 p" "0 \<le> index_of e m0 q"
    and "nat (index_of e m0 p) = nat (index_of e m0 q)"
  shows "p = q"
  using assms(6) by (intro heap_graphD(2)[OF assms(1-3) _ assms(4)]) (use assms(4,5) in simp)

lemma fun_index:
  assumes g: "heap_graph e m0 P S" and x: "P x" "S x" "0 \<le> index_of e m0 x"
    and f: "f \<in> code_funs (memory (gcs m0)) x"
  shows "0 \<le> index_of e m0 (f + FUN_POINTER_LOWTAG)"
  using code_funsD(6)[OF g x f] x(3) by simp

text \<open>A pointer whose bit is among these marks is the object or one of its functions.\<close>

lemma marks_of_pointer:
  assumes g: "heap_graph e m0 P S" and x: "P x" "S x" "0 \<le> index_of e m0 x"
    and y: "P y" "0 \<le> index_of e m0 y"
    and m: "nat (index_of e m0 y) \<in> marks_of (memory (gcs m0)) (native_pointer x) (nat (index_of e m0 x))"
  shows "y = x \<or> (\<exists>f \<in> code_funs (memory (gcs m0)) x. y = f + FUN_POINTER_LOWTAG)"
proof -
  consider "nat (index_of e m0 y) = nat (index_of e m0 x)"
    | f where "f \<in> code_funs (memory (gcs m0)) x"
        "nat (index_of e m0 y) = nat (index_of e m0 (f + FUN_POINTER_LOWTAG))"
    using m unfolding marks_of_index[OF g x] by blast
  then show ?thesis
  proof cases
    case 1
    then show ?thesis using same_index[OF g y(1) x(1) y(2) x(3)] by blast
  next
    case 2
    then show ?thesis
      using same_index[OF g y(1) code_funsD(1)[OF g x 2(1)] y(2) fun_index[OF g x 2(1)]] by blast
  qed
qed

lemma nodes_marks:
  assumes g: "heap_graph e m0 P S" and x: "x \<in> nodes e m0 P" and y: "y \<in> nodes e m0 P"
  shows "nat (index_of e m0 y) \<in> marks_of (memory (gcs m0)) (native_pointer x) (nat (index_of e m0 x)) \<longleftrightarrow> y = x"
proof
  note xs = nodes_pointer[OF x g] and ys = nodes_pointer[OF y g]
  assume "nat (index_of e m0 y) \<in> marks_of (memory (gcs m0)) (native_pointer x) (nat (index_of e m0 x))"
  from marks_of_pointer[OF g xs(3-5) ys(3,5) this] show "y = x"
    using code_funsD(2)[OF g xs(3-5)] ys(2) by blast
qed (simp add: marks_of_def)

lemma funs_marked_new:
  assumes g: "heap_graph e m0 P S" and x: "x \<in> nodes e m0 P" and fm: "funs_marked e m0 P S m"
    and t: "\<forall>j. mark_bit t j \<longleftrightarrow>
      j \<in> marks_of (memory (gcs m0)) (native_pointer x) (nat (index_of e m0 x)) \<or> mark_bit m j"
  shows "funs_marked e m0 P S t"
  unfolding funs_marked_def
proof (intro allI impI ballI)
  let ?h = "memory (gcs m0)"
  note xs = nodes_pointer[OF x g]
  fix z f
  assume z: "P z" "S z" "0 \<le> index_of e m0 z" "code_object ?h z" and f: "f \<in> set (simple_funs ?h (native_pointer z))"
  have cf: "f \<in> code_funs ?h z" using z(4) f by (simp add: code_funs_def)
  let ?p = "f + FUN_POINTER_LOWTAG" and ?M = "marks_of ?h (native_pointer x) (nat (index_of e m0 x))"
  note fs = code_funsD[OF g z(1-3) cf]
  have old: "mark_bit m (nat (index_of e m0 ?p)) = mark_bit m (nat (index_of e m0 z))"
    using fm z f by (auto simp: funs_marked_def)
  show "mark_bit t (nat (index_of e m0 ?p)) = mark_bit t (nat (index_of e m0 z))"
  proof (cases "z = x")
    case True
    then have "nat (index_of e m0 z) \<in> ?M" "nat (index_of e m0 ?p) \<in> ?M"
      using cf unfolding True marks_of_index[OF g xs(3-5)] by blast+
    then show ?thesis using t by blast
  next
    case False
    have "nat (index_of e m0 z) \<notin> ?M"
      using marks_of_pointer[OF g xs(3-5) z(1,3)] False code_funsD(2)[OF g xs(3-5)]
        other_not_embedded[OF fs(4)] by blast
    moreover have "nat (index_of e m0 ?p) \<notin> ?M"
    proof
      assume "nat (index_of e m0 ?p) \<in> ?M"
      from marks_of_pointer[OF g xs(3-5) fs(1) fun_index[OF g z(1-3) cf] this]
      obtain f' where "f' \<in> code_funs ?h x" "?p = f' + FUN_POINTER_LOWTAG" using fs(2) xs(2) by blast
      then have "f \<in> code_funs ?h x" by simp
      from code_funsD(3,4)[OF g xs(3-5) this] have "native_pointer z = native_pointer x" "lowtag_of z = lowtag_of x"
        using fs(3,4) by simp_all
      then have "z = x" by (metis untag_tag)
      then show False using False by blast
    qed
    ultimately show ?thesis using t old by blast
  qed
qed


lemma marking_stateD:
  assumes "marking_state e m0 P S m"
  shows "heap_graph e m0 P S" "queue_ok m" "same_heap m0 S (memory (gcs m))"
    "ptr_to_bit_index e m p = index_of e m0 p" "weak_objects m = weak_objects m0" "funs_marked e m0 P S m" "same_pages m0 m"
  using assms by (auto simp: marking_state_def index_of_def)

lemma state_pointer:
  assumes st: "marking_state e m0 P S m" and p: "P p" "0 \<le> index_of e m0 p"
  shows "embedded_fun (memory (gcs m)) p = embedded_fun (memory (gcs m0)) p"
    "fun_code_header (memory (gcs m)) (p - FUN_POINTER_LOWTAG) =
      fun_code_header (memory (gcs m0)) (p - FUN_POINTER_LOWTAG)"
  using heap_graphD(7)[OF marking_stateD(1,3)[OF st] p] by (simp_all add: pointer_view_def)

lemma state_object:
  assumes st: "marking_state e m0 P S m" and x: "S x"
  shows "widetag_of (memory (gcs m)) (native_pointer x) = widetag_of (memory (gcs m0)) (native_pointer x)"
    "slots_of e (memory (gcs m)) x = slots_of e (memory (gcs m0)) x"
    "plain_object (memory (gcs m)) x = plain_object (memory (gcs m0)) x"
    "simple_funs (memory (gcs m)) (native_pointer x) = simple_funs (memory (gcs m0)) (native_pointer x)"
  using heap_graphD(8)[OF marking_stateD(1,3)[OF st] x] by (simp_all add: object_view_def)

lemma node_index:
  assumes "node_of e m0 h p = Some x"
  shows "is_lisp_pointer p" "0 \<le> index_of e m0 p" "x = (if embedded_fun h p then code_of h p else p)"
  using assms by (auto simp: node_of_def index_of_def split: if_splits)

lemma embedded_node:
  assumes g: "heap_graph e m0 P S" and p: "P p" and n: "node_of e m0 (memory (gcs m0)) p = Some x"
    and em: "embedded_fun (memory (gcs m0)) p"
  shows "native_pointer x = fun_code_header (memory (gcs m0)) (p - FUN_POINTER_LOWTAG)"
    "p - FUN_POINTER_LOWTAG \<in> code_funs (memory (gcs m0)) x"
    "index_of e m0 p - sint (signed_drop_bit 4 (p - FUN_POINTER_LOWTAG - native_pointer x)) = index_of e m0 x"
proof -
  let ?h = "memory (gcs m0)" and ?f = "p - FUN_POINTER_LOWTAG"
  note i = node_index[OF n]
  note f = heap_graphD(3)[OF g p i(2) em]
  have x: "x = make_lispobj (fun_code_header ?h ?f) OTHER_POINTER_LOWTAG" using i(3) em by (simp add: code_of_def)
  show nx: "native_pointer x = fun_code_header ?h ?f" unfolding x using f by (simp add: tag_untag(1) tag_constants)
  then show cf: "?f \<in> code_funs ?h x" using f by (simp add: code_funs_def code_object_def)
  note xs = heap_graphD(1)[OF g p n]
  have "index_of e m0 p = index_of e m0 x + int (unat (drop_bit 4 (?f - native_pointer x)))"
    using code_funsD(6)[OF g _ _ _ cf] xs by simp
  moreover have "unat (?f - native_pointer x) < 2 ^ 35" using code_funsD(5)[OF g _ _ _ cf] xs by blast
  ultimately show "index_of e m0 p - sint (signed_drop_bit 4 (?f - native_pointer x)) = index_of e m0 x"
    using small_offset(2) by simp
qed

lemma gc_mark_obj_node:
  assumes st: "marking_state e m0 P S m" and p: "P p" and n: "node_of e m0 (memory (gcs m0)) p = Some x"
  shows "gc_mark_obj e p m = (if x \<in> marked_nodes e m0 P m then Inr m
    else mark_new_obj x (native_pointer x) (nat (index_of e m0 x)) m)"
proof -
  let ?h = "memory (gcs m0)" and ?f = "p - FUN_POINTER_LOWTAG"
  note g = marking_stateD(1)[OF st] and i = node_index[OF n]
  note sp = state_pointer[OF st p i(2)] and xs = heap_graphD(1)[OF g p n]
  have x: "x \<in> marked_nodes e m0 P m \<longleftrightarrow> mark_bit m (nat (index_of e m0 x))"
    using p n by (auto simp: marked_nodes_def nodes_def)
  have l: "lowtag_of p = FUN_POINTER_LOWTAG \<and> embedded_obj_p (widetag_of (memory (gcs m)) ?f) \<longleftrightarrow> embedded_fun ?h p"
    using sp(1) by (simp add: embedded_fun_def)
  have mo: "gc_mark_obj e p m = (if mark_bit m (nat (index_of e m0 p)) then Inr m
      else if embedded_fun ?h p
      then let code = fun_code_header ?h ?f;
               mark_index = index_of e m0 p - sint (signed_drop_bit 4 (?f - code))
           in if mark_bit m (nat mark_index) then Inr m
              else mark_new_obj (make_lispobj code OTHER_POINTER_LOWTAG) code (nat mark_index) m
      else mark_new_obj p (native_pointer p) (nat (index_of e m0 p)) m)"
    using i(1,2) unfolding gc_mark_obj_def mark_obj_def Let_def canonical_ptr_def
      marking_stateD(4)[OF st] l sp(2) by simp
  show ?thesis
  proof (cases "embedded_fun ?h p")
    case True
    note em = embedded_node[OF g p n True]
    have cx: "code_object ?h x" "?f \<in> set (simple_funs ?h (native_pointer x))"
      using em(2) by (auto simp: code_funs_def split: if_splits)
    have "mark_bit m (nat (index_of e m0 (?f + FUN_POINTER_LOWTAG))) = mark_bit m (nat (index_of e m0 x))"
      using marking_stateD(6)[OF st] xs cx unfolding funs_marked_def by blast
    moreover have "make_lispobj (fun_code_header ?h ?f) OTHER_POINTER_LOWTAG = x"
      using i(3) True by (simp add: code_of_def)
    ultimately show ?thesis using True em(1,3) unfolding mo x Let_def by simp
  next
    case False
    then show ?thesis using i(3) unfolding mo x by simp
  qed
qed

lemma queue_ok_marks [simp]: "queue_ok (m\<lparr>fullcgcmarks := F\<rparr>) = queue_ok m"
  "queue_contents (m\<lparr>fullcgcmarks := F\<rparr>) = queue_contents m"
  "queue_room (m\<lparr>fullcgcmarks := F\<rparr>) = queue_room m"
  by (simp_all add: queue_ok_def queue_shape_def queue_contents_def queue_room_def pages_for_queue_def)

lemma mark_new_obj_state:
  assumes st: "marking_state e m0 P S m" and x: "x \<in> nodes e m0 P" "x \<notin> marked_nodes e m0 P m"
    and room: "length (queue_contents m) < queue_room m"
  shows "\<exists>t. mark_new_obj x (native_pointer x) (nat (index_of e m0 x)) m = Inr t \<and>
    marking_state e m0 P S t \<and> marked_nodes e m0 P t = insert x (marked_nodes e m0 P m) \<and>
    queue_room t = queue_room m \<and>
    queue_contents t = queue_contents m @ (if leaf_of (memory (gcs m0)) x then [] else [x])"
proof -
  let ?h = "memory (gcs m0)" and ?i = "nat (index_of e m0 x)" and ?c = "native_pointer x"
  note g = marking_stateD(1)[OF st]
  note xs = nodes_pointer[OF x(1) g]
  note so = state_object[OF st xs(4)]
  obtain F where F: "\<forall>j. mark_bit (m\<lparr>fullcgcmarks := F\<rparr>) j \<longleftrightarrow> j \<in> marks_of (memory (gcs m)) ?c ?i \<or> mark_bit m j"
    and new: "mark_new_obj x ?c ?i m = (if listp x \<or> \<not> leaf_obj_widetag_p (widetag_of (memory (gcs m)) ?c)
       then gc_enqueue x (m\<lparr>fullcgcmarks := F\<rparr>) else Inr (m\<lparr>fullcgcmarks := F\<rparr>))"
    using mark_new_obj_eq by blast
  define u where "u = m\<lparr>fullcgcmarks := F\<rparr>"
  have bits: "\<forall>j. mark_bit u j \<longleftrightarrow> j \<in> marks_of ?h ?c ?i \<or> mark_bit m j"
    using F so(1,4) by (simp add: marks_of_def u_def fun_bit_def cong: image_cong)
  have fr: "mark_frame m u" by (simp add: u_def mark_frame_def)
  have pi: "ptr_to_bit_index e u = ptr_to_bit_index e m"
    using fr by (intro ptr_to_bit_index_frame) (auto simp: mark_frame_def)
  have "funs_marked e m0 P S u" by (rule funs_marked_new[OF g x(1) marking_stateD(6)[OF st] bits])
  then have su: "marking_state e m0 P S u"
    using st fr pi same_pages_frame[of m0 m u] by (simp add: marking_state_def mark_frame_def u_def)
  have mu: "marked_nodes e m0 P u = insert x (marked_nodes e m0 P m)"
    using bits x(1) nodes_marks[OF g x(1)] by (auto simp: marked_nodes_def)
  have qu: "queue_contents u = queue_contents m" "queue_room u = queue_room m" by (simp_all add: u_def)
  show ?thesis
  proof (cases "leaf_of ?h x")
    case True
    then show ?thesis using su mu qu so(1) unfolding new by (simp add: leaf_of_def flip: u_def)
  next
    case False
    obtain t where t: "gc_enqueue x u = Inr t"
      using mark_queue.enq_succeeds[OF marking_stateD(2)[OF su]] room qu by auto
    note q = mark_queue.enq_contents[OF marking_stateD(2)[OF su] t]
    have "queue_ok t" using q by simp
    from marking_state_frame[OF su gc_enqueue_frame[OF t] this] show ?thesis
      using False mu qu q t so(1) unfolding new by (auto simp: leaf_of_def simp flip: u_def)
  qed
qed


section \<open>Scanning one object\<close>

lemma queue_ok_chain:
  "queue_ok (add_to_weak_pointer_chain wp m) = queue_ok m"
  "queue_contents (add_to_weak_pointer_chain wp m) = queue_contents m"
  "queue_room (add_to_weak_pointer_chain wp m) = queue_room m"
  by (simp_all add: add_to_weak_pointer_chain_def set_memory_def queue_ok_def queue_shape_def queue_contents_def
      queue_room_def pages_for_queue_def page_address_def)

lemma set_weak_pointer_next_bits:
  "set_weak_pointer_next wp nxt h a AND 0xFFFF = h a AND 0xFFFF"
proof -
  have "push_bit 16 nxt AND 0xFFFF = (0 :: uword)"
  proof -
    have "(0xFFFF :: uword) = mask 16" by (simp add: mask_eq_exp_minus_1)
    moreover have "push_bit 16 nxt AND mask 16 = (0 :: uword)" by (rule bit_word_eqI) (auto simp: bit_simps)
    ultimately show ?thesis by (simp only:)
  qed
  then show ?thesis
    by (simp add: set_weak_pointer_next_def bit.conj_disj_distrib2 and.assoc)
qed

lemma chain_state:
  assumes st: "marking_state e m0 P S m" and x: "S x" "weak_object (memory (gcs m0)) x"
  shows "marking_state e m0 P S (add_to_weak_pointer_chain (native_pointer x) m)"
    and "marked_nodes e m0 P (add_to_weak_pointer_chain (native_pointer x) m) = marked_nodes e m0 P m"
proof -
  let ?t = "add_to_weak_pointer_chain (native_pointer x) m"
  have h: "memory (gcs ?t) = set_weak_pointer_next (native_pointer x) (weak_pointer_chain m) (memory (gcs m))"
    and f: "fullcgcmarks ?t = fullcgcmarks m" "weak_objects ?t = weak_objects m"
    "DYNAMIC_SPACE_START (gcs ?t) = DYNAMIC_SPACE_START (gcs m)"
    "page_table_pages (gcs ?t) = page_table_pages (gcs m)"
    "fixedobj_index_bit_bias ?t = fixedobj_index_bit_bias m" "text_index_bit_bias ?t = text_index_bit_bias m"
    by (simp_all add: add_to_weak_pointer_chain_def set_memory_def)
  have b: "mark_bit ?t = mark_bit m" by (simp add: mark_bit_def fun_eq_iff f)
  have pages: "same_pages m0 ?t"
    using marking_stateD(7)[OF st] by (simp add: same_pages_def add_to_weak_pointer_chain_def set_memory_def)
  have w: "native_pointer x \<in> weak_headers m0 S" using x by (auto simp: weak_headers_def)
  have "same_heap m0 S (memory (gcs ?t))"
    unfolding same_heap_def h
  proof
    fix a
    have "memory (gcs m) a = memory (gcs m0) a \<or>
        a \<in> weak_headers m0 S \<and> memory (gcs m) a AND 0xFFFF = memory (gcs m0) a AND 0xFFFF"
      using marking_stateD(3)[OF st] by (simp add: same_heap_def)
    then show "set_weak_pointer_next (native_pointer x) (weak_pointer_chain m) (memory (gcs m)) a = memory (gcs m0) a \<or>
        a \<in> weak_headers m0 S \<and>
        set_weak_pointer_next (native_pointer x) (weak_pointer_chain m) (memory (gcs m)) a AND 0xFFFF =
          memory (gcs m0) a AND 0xFFFF"
      using w unfolding set_weak_pointer_next_bits
      by (cases "a = native_pointer x") (auto simp: set_weak_pointer_next_def)
  qed
  then show "marking_state e m0 P S ?t"
    using st f(2) ptr_to_bit_index_frame[OF f(3-6), of e]
    by (simp add: marking_state_def queue_ok_chain funs_marked_def b pages)
  show "marked_nodes e m0 P ?t = marked_nodes e m0 P m" by (simp add: marked_nodes_def b)
qed

lemma scan_queued_slots:
  assumes st: "marking_state e m0 P S m" and x: "S x"
  shows "\<exists>t. scan_queued e x m = for_each (gc_mark_obj e) (slots_of e (memory (gcs m0)) x) t \<and>
    marking_state e m0 P S t \<and> marked_nodes e m0 P t = marked_nodes e m0 P m \<and>
    queue_room t = queue_room m \<and> queue_contents t = queue_contents m"
proof -
  let ?h = "memory (gcs m)"
  note so = state_object[OF st x]
  have pl: "plain_object ?h x" using heap_graphD(5)[OF marking_stateD(1)[OF st] x] so(3) by simp
  consider "listp x" | "\<not> listp x" "\<not> weak_object ?h x" | "weak_object ?h x" by blast
  then show ?thesis
  proof cases
    case 1
    then have "scan_queued e x m = for_each (gc_mark_obj e) (slots_of e ?h x) m"
      by (simp only: scan_queued_def mark_pair_slots slots_of_def if_True not_True_eq_False if_False)
    then show ?thesis using so(2) st by auto
  next
    case 2
    then have "scan_queued e x m = for_each (gc_mark_obj e) (slots_of e ?h x) m"
      using trace_object_slots[OF pl 2] by (simp add: scan_queued_def)
    then show ?thesis using so(2) st by auto
  next
    case 3
    then have w: "weak_object (memory (gcs m0)) x" and l: "\<not> listp x" using so(1) by (auto simp: weak_object_def)
    have s0: "slots_of e (memory (gcs m0)) x = []" using trace_weak_pointer(2)[OF pl 3] so(2) by simp
    have "scan_queued e x m \<in> {Inr m, Inr (add_to_weak_pointer_chain (native_pointer x) m)}"
      using trace_weak_pointer(1)[OF pl 3] l by (simp add: scan_queued_def)
    moreover have "for_each (gc_mark_obj e) (slots_of e (memory (gcs m0)) x) = Inr" by (simp add: s0 for_each_Nil)
    ultimately show ?thesis using st chain_state[OF st x w] queue_ok_chain by auto
  qed
qed

section \<open>The interface\<close>

definition proper_pointer :: "(lispobj \<Rightarrow> bool) \<Rightarrow> lispobj \<Rightarrow> bool" where
  "proper_pointer P p \<longleftrightarrow> (is_lisp_pointer p \<longrightarrow> P p)"

interpretation full_mark: marking "marking_state e m0 P S" queue_contents queue_room gc_enqueue gc_dequeue
  "marked_nodes e m0 P" "node_of e m0 (memory (gcs m0))" "slots_of e (memory (gcs m0))"
  "leaf_of (memory (gcs m0))" "gc_mark_obj e" "scan_queued e" queue_nonempty "nodes e m0 P"
  "proper_pointer P" S
  for e m0 P S
proof unfold_locales
  fix m x p t
  assume st: "marking_state e m0 P S m"
  note ok = marking_stateD(2)[OF st] and g = marking_stateD(1)[OF st]
  show "length (queue_contents m) < queue_room m \<Longrightarrow> \<exists>t. gc_enqueue x m = Inr t"
    using mark_queue.enq_succeeds[OF ok] .
  show "queue_contents m \<noteq> [] \<Longrightarrow> \<exists>x t. gc_dequeue m = Inr (x, t)" using mark_queue.deq_succeeds[OF ok] .
  show "queue_contents m = [] \<Longrightarrow> gc_dequeue m = Inl Assert_failed" using mark_queue.deq_empty[OF ok] .
  show "gc_enqueue x m = Inr t \<Longrightarrow> marking_state e m0 P S t \<and>
      queue_contents t = queue_contents m @ [x] \<and> queue_room t = queue_room m"
    and "gc_enqueue x m = Inr t \<Longrightarrow> marked_nodes e m0 P t = marked_nodes e m0 P m"
    using mark_queue.enq_contents[OF ok] marking_state_frame[OF st gc_enqueue_frame] by blast+
  show "gc_dequeue m = Inr (x, t) \<Longrightarrow> marking_state e m0 P S t \<and>
      queue_contents m = x # queue_contents t \<and> queue_room t = queue_room m"
    and "gc_dequeue m = Inr (x, t) \<Longrightarrow> marked_nodes e m0 P t = marked_nodes e m0 P m"
    using mark_queue.deq_contents[OF ok] marking_state_frame[OF st gc_dequeue_frame] by blast+
  show "queue_nonempty m \<longleftrightarrow> queue_contents m \<noteq> []"
  proof -
    obtain bs rs where "queue_shape m bs rs" using ok by (auto simp: queue_ok_def)
    from head_nonempty[OF this] show ?thesis by (simp add: queue_nonempty_def)
  qed
  show "finite (nodes e m0 P)" by simp
  show "marked_nodes e m0 P m \<subseteq> nodes e m0 P" by (auto simp: marked_nodes_def)
  show "proper_pointer P p" if "S x" "p \<in> set (slots_of e (memory (gcs m0)) x)"
    using heap_graphD(6)[OF g that] by (auto simp: proper_pointer_def)
  assume pp: "proper_pointer P p"
  show "node_of e m0 (memory (gcs m0)) p = None \<Longrightarrow> gc_mark_obj e p m = Inr m"
    using marking_stateD(4)[OF st, of p]
    by (auto simp: node_of_def gc_mark_obj_def mark_obj_def Let_def canonical_ptr_def index_of_def split: if_splits)
  assume n: "node_of e m0 (memory (gcs m0)) p = Some x"
  have p: "P p" using pp node_index(1)[OF n] by (simp add: proper_pointer_def)
  have nx: "x \<in> nodes e m0 P" using p n by (auto simp: nodes_def)
  show "x \<in> nodes e m0 P \<and> S x" using nx heap_graphD(1)[OF g p n] by blast
  show "x \<in> marked_nodes e m0 P m \<Longrightarrow> gc_mark_obj e p m = Inr m" using gc_mark_obj_node[OF st p n] by simp
  show "x \<notin> marked_nodes e m0 P m \<Longrightarrow> length (queue_contents m) < queue_room m \<Longrightarrow>
      \<exists>t. gc_mark_obj e p m = Inr t \<and> marking_state e m0 P S t \<and>
        marked_nodes e m0 P t = insert x (marked_nodes e m0 P m) \<and> queue_room t = queue_room m \<and>
        queue_contents t = queue_contents m @ (if leaf_of (memory (gcs m0)) x then [] else [x])"
    using gc_mark_obj_node[OF st p n] mark_new_obj_state[OF st nx] by simp
next
  fix m x
  assume "marking_state e m0 P S m" "S x"
  then show "\<exists>t. scan_queued e x m = for_each (gc_mark_obj e) (slots_of e (memory (gcs m0)) x) t \<and>
      marking_state e m0 P S t \<and> marked_nodes e m0 P t = marked_nodes e m0 P m \<and>
      queue_room t = queue_room m \<and> queue_contents t = queue_contents m"
    by (rule scan_queued_slots)
qed

end
