(* ===== verification/MarkRoots.thy ===== *)
theory MarkRoots
  imports Marking
begin

text \<open>
  The whole mark phase of a full collection: the walk of a static space, the roots, the loop
  with the triggers of weak tables, and the theorem that the phase ends with exactly the
  reachable objects marked.
\<close>

unbundle bit_operations_syntax

section \<open>Leaves have no slots\<close>

lemma instanceoid_tags:
  assumes "instanceoid_widetag_p w"
  shows "w = INSTANCE_WIDETAG \<or> w = FUNCALLABLE_INSTANCE_WIDETAG"
proof -
  have w: "w OR 2 ^ 2 = 0x3D"
    using assms by (simp add: instanceoid_widetag_p_def FUNCALLABLE_INSTANCE_WIDETAG_def)
  show ?thesis
  proof (cases "bit w 2")
    case True
    have "bit (w OR 2 ^ 2) j \<longleftrightarrow> bit w j \<or> j = 2" for j by (rule bit_or_push_1) simp
    then have "w OR 2 ^ 2 = w" using True by (intro bit_word_eqI) metis
    then show ?thesis using w by (simp add: FUNCALLABLE_INSTANCE_WIDETAG_def)
  next
    case False
    have "bit (2 ^ 2 :: uword) j \<longleftrightarrow> j = 2" for j unfolding bit_exp_iff by auto
    then have "w = (w OR 2 ^ 2) AND NOT (2 ^ 2)"
      using False by (intro bit_word_eqI) (simp only: bit_and_iff bit_or_iff bit_not_iff, auto)
    then have "w = 0x3D AND NOT (2 ^ 2)" unfolding w .
    then show ?thesis by (simp add: INSTANCE_WIDETAG_def)
  qed
qed

lemma leaf_slots:
  assumes "plain_object h x" and "leaf_of h x"
  shows "slots_of e h x = []"
proof -
  let ?w = "widetag_of h (native_pointer x)"
  have l: "leaf_obj_widetag_p ?w" "\<not> listp x" using assms(2) by (simp_all add: leaf_of_def)
  have no: "\<not> leaf_obj_widetag_p t" if "t \<in> {CLOSURE_WIDETAG, CODE_HEADER_WIDETAG, SYMBOL_WIDETAG,
      FDEFN_WIDETAG, SIMPLE_VECTOR_WIDETAG, INSTANCE_WIDETAG, FUNCALLABLE_INSTANCE_WIDETAG}" for t
    using that by (auto simp: leaf_obj_widetag_p_def widetags)
  have "?w \<notin> {CLOSURE_WIDETAG, CODE_HEADER_WIDETAG, SYMBOL_WIDETAG, FDEFN_WIDETAG, SIMPLE_VECTOR_WIDETAG}"
    using l(1) no by blast
  moreover have "\<not> instanceoid_widetag_p ?w"
  proof
    assume "instanceoid_widetag_p ?w"
    then have "?w = INSTANCE_WIDETAG \<or> ?w = FUNCALLABLE_INSTANCE_WIDETAG" by (rule instanceoid_tags)
    then show False using l(1) no by auto
  qed
  ultimately show ?thesis using l by (auto simp: slots_of_def header_slots_def Let_def split: sum.splits)
qed

section \<open>The walk of a static space\<close>

text \<open>The objects from the address \<open>obj\<close> up to \<open>limit\<close>, in order.\<close>

inductive objects_in :: "heap \<Rightarrow> uword \<Rightarrow> uword \<Rightarrow> lispobj list \<Rightarrow> bool" for h limit where
  range_done: "\<not> obj < limit \<Longrightarrow> objects_in h limit obj []"
| range_object: "obj < limit \<Longrightarrow> ptr = compute_lispobj widetag_lowtag h obj \<Longrightarrow>
    (if listp ptr then Inr 2 else headerobj_size h obj) = Inr n \<Longrightarrow>
    objects_in h limit (obj + 8 * n) ptrs \<Longrightarrow> objects_in h limit obj (ptr # ptrs)"

lemma scav_static_range_objects:
  "objects_in h limit obj ptrs \<Longrightarrow> memory (gcs m) = h \<Longrightarrow>
    scav_static_range obj limit m = Some (for_each gc_enqueue ptrs m)"
proof (induction arbitrary: m rule: objects_in.induct)
  case (range_done obj)
  then show ?case by (subst scav_static_range.simps) simp
next
  case (range_object obj ptr n ptrs)
  show ?case
  proof (cases "gc_enqueue ptr m")
    case (Inl x)
    then show ?thesis using range_object.hyps range_object.prems
      by (subst scav_static_range.simps) (simp add: Let_def)
  next
    case (Inr t)
    have "memory (gcs t) = h" using gc_enqueue_frame(1)[OF Inr] range_object.prems by (simp add: mark_frame_def)
    from range_object.IH[OF this] show ?thesis using range_object.hyps range_object.prems Inr
      by (subst scav_static_range.simps) (simp add: Let_def)
  qed
qed

section \<open>Live objects\<close>

text \<open>
  What is live from the pointers \<open>R\<close> and the slots of the objects \<open>Q\<close>, following the
  words that scanning passes on.
\<close>

inductive_set live_objects :: "mark_env \<Rightarrow> marker \<Rightarrow> lispobj set \<Rightarrow> lispobj set \<Rightarrow> lispobj set"
  for e m0 R Q where
  live_root: "p \<in> R \<Longrightarrow> node_of e m0 (memory (gcs m0)) p = Some x \<Longrightarrow> x \<in> live_objects e m0 R Q"
| live_start: "y \<in> Q \<Longrightarrow> p \<in> set (slots_of e (memory (gcs m0)) y) \<Longrightarrow>
    node_of e m0 (memory (gcs m0)) p = Some x \<Longrightarrow> x \<in> live_objects e m0 R Q"
| live_slot: "y \<in> live_objects e m0 R Q \<Longrightarrow> p \<in> set (slots_of e (memory (gcs m0)) y) \<Longrightarrow>
    node_of e m0 (memory (gcs m0)) p = Some x \<Longrightarrow> x \<in> live_objects e m0 R Q"

lemma live_scannable:
  assumes g: "heap_graph e m0 P S" and R: "\<forall>p \<in> R. proper_pointer P p" and Q: "\<forall>x \<in> Q. S x"
    and x: "x \<in> live_objects e m0 R Q"
  shows "S x"
  using x
proof induction
  case (live_root p x)
  then show ?case using R heap_graphD(1)[OF g] node_index(1) by (metis proper_pointer_def)
next
  case (live_start y p x)
  then show ?case using Q heap_graphD(1,6)[OF g] node_index(1) by metis
next
  case (live_slot y p x)
  then show ?case using heap_graphD(1,6)[OF g] node_index(1) by metis
qed

lemma reach_live:
  assumes g: "heap_graph e m0 P S" and R: "\<forall>p \<in> R. proper_pointer P p" and Q: "\<forall>x \<in> Q. S x"
  shows "full_mark.reach e m0 Q {y. \<exists>p \<in> R. node_of e m0 (memory (gcs m0)) p = Some y} = live_objects e m0 R Q"
    (is "full_mark.reach e m0 Q ?B = _")
proof
  show "full_mark.reach e m0 Q ?B \<subseteq> live_objects e m0 R Q"
  proof
    fix x assume "x \<in> full_mark.reach e m0 Q ?B"
    then show "x \<in> live_objects e m0 R Q"
    proof induction
      case (reach_root x)
      then show ?case by (auto intro: live_root)
    next
      case (reach_start y x)
      then show ?case unfolding full_mark.succs_def by (auto intro: live_start[of y])
    next
      case (reach_step y x)
      then show ?case unfolding full_mark.succs_def by (auto intro: live_slot[of y])
    qed
  qed
  show "live_objects e m0 R Q \<subseteq> full_mark.reach e m0 Q ?B"
  proof
    fix x assume "x \<in> live_objects e m0 R Q"
    then show "x \<in> full_mark.reach e m0 Q ?B"
    proof induction
      case (live_root p x)
      then show ?case by (intro full_mark.reach_root) auto
    next
      case (live_start y p x)
      then show ?case by (intro full_mark.reach_start[of y]) (auto simp: full_mark.succs_def)
    next
      case (live_slot y p x)
      have "plain_object (memory (gcs m0)) y"
        using live_scannable[OF g R Q live_slot.hyps(1)] heap_graphD(5)[OF g] by blast
      then have "\<not> leaf_of (memory (gcs m0)) y" using leaf_slots live_slot.hyps(2) by force
      moreover have "x \<in> full_mark.succs e m0 y"
        using live_slot.hyps(2,3) unfolding full_mark.succs_def by blast
      ultimately show ?case by (rule full_mark.reach_step[OF live_slot.IH])
    qed
  qed
qed


section \<open>What survives\<close>

text \<open>The test whether a pointer survived looks at the mark of the object it belongs to.\<close>

lemma survived_node:
  assumes st: "marking_state e m0 P S m" and p: "P p" "is_lisp_pointer p"
  shows "pointer_survived_gc_yet e m p \<longleftrightarrow>
    (case node_of e m0 (memory (gcs m0)) p of None \<Rightarrow> True | Some x \<Rightarrow> x \<in> marked_nodes e m0 P m)"
proof (cases "node_of e m0 (memory (gcs m0)) p")
  case None
  then have "index_of e m0 p < 0" using p(2) by (auto simp: node_of_def index_of_def split: if_splits)
  then show ?thesis using None by (simp add: survived_iff marking_stateD(4)[OF st])
next
  case (Some x)
  note g = marking_stateD(1)[OF st] and i = node_index[OF Some] and xs = heap_graphD(1)[OF marking_stateD(1)[OF st] p(1) Some]
  have x: "x \<in> marked_nodes e m0 P m \<longleftrightarrow> mark_bit m (nat (index_of e m0 x))"
    using p(1) Some by (auto simp: marked_nodes_def nodes_def)
  have "mark_bit m (nat (index_of e m0 p)) = mark_bit m (nat (index_of e m0 x))"
  proof (cases "embedded_fun (memory (gcs m0)) p")
    case True
    from embedded_node(2)[OF g p(1) Some True]
    have "code_object (memory (gcs m0)) x"
      "p - FUN_POINTER_LOWTAG \<in> set (simple_funs (memory (gcs m0)) (native_pointer x))"
      by (auto simp: code_funs_def split: if_splits)
    then have "mark_bit m (nat (index_of e m0 (p - FUN_POINTER_LOWTAG + FUN_POINTER_LOWTAG))) =
        mark_bit m (nat (index_of e m0 x))"
      using marking_stateD(6)[OF st] xs unfolding funs_marked_def by blast
    then show ?thesis by simp
  qed (use i(3) in simp)
  then show ?thesis using Some i(2) x by (simp add: survived_iff marking_stateD(4)[OF st])
qed

section \<open>The phase\<close>

lemma prepare_frame:
  assumes "prepare_for_full_mark_phase e m = Inr t"
  shows "memory (gcs t) = memory (gcs m)" "DYNAMIC_SPACE_START (gcs t) = DYNAMIC_SPACE_START (gcs m)"
    "page_table_pages (gcs t) = page_table_pages (gcs m)" "weak_objects t = weak_objects m"
    "next_free_page (gcs t) = next_free_page (gcs m)"
proof -
  obtain b u where u: "get_free_page (m\<lparr>free_page := page_table_pages (gcs m)\<rparr>) = Inr (b, u)"
    using assms by (auto simp: prepare_for_full_mark_phase_def Let_def)
  have "mark_frame (m\<lparr>free_page := page_table_pages (gcs m)\<rparr>) u" by (rule get_free_page_frame[OF u])
  then show "memory (gcs t) = memory (gcs m)" "DYNAMIC_SPACE_START (gcs t) = DYNAMIC_SPACE_START (gcs m)"
    "page_table_pages (gcs t) = page_table_pages (gcs m)" "weak_objects t = weak_objects m"
    "next_free_page (gcs t) = next_free_page (gcs m)"
    using assms u by (auto simp: prepare_for_full_mark_phase_def Let_def mark_frame_def set_block_def)
qed

text \<open>The symbol that is \<open>NIL\<close>, as an object at its slots.\<close>

definition nil_symbol :: "mark_roots \<Rightarrow> lispobj" where
  "nil_symbol r = make_lispobj (NIL_SYMBOL_SLOTS_START r) OTHER_POINTER_LOWTAG"

definition root_pointers :: "mark_roots \<Rightarrow> lispobj list" where
  "root_pointers r = [lisp_package_vector r, lisp_init_function r, alloc_profile_data r]"

text \<open>
  What the phase asks of its roots: \<open>NIL\<close> is a symbol, the static and the permanent space
  hold the objects \<open>xs\<close>, and the three variables hold proper words.
\<close>

definition roots_ok ::
    "mark_env \<Rightarrow> mark_roots \<Rightarrow> marker \<Rightarrow> (lispobj \<Rightarrow> bool) \<Rightarrow> (lispobj \<Rightarrow> bool) \<Rightarrow> lispobj list \<Rightarrow> bool" where
  "roots_ok e r m0 P S xs \<longleftrightarrow>
     (let h = memory (gcs m0) in
      lowtag_of (NIL_SYMBOL_SLOTS_START r) = 0 \<and> widetag_of h (NIL_SYMBOL_SLOTS_START r) = SYMBOL_WIDETAG \<and>
      S (nil_symbol r) \<and> (\<forall>x \<in> set xs. S x) \<and> xs \<noteq> [] \<and>
      (\<exists>ys zs. xs = ys @ zs \<and>
         objects_in h (static_space_free_pointer r) (STATIC_SPACE_OBJECTS_START r) ys \<and>
         objects_in h (permgen_space_free_pointer r) (PERMGEN_SPACE_START r) zs) \<and>
      (\<forall>p \<in> set (root_pointers r). proper_pointer P p))"

lemma start_state:
  assumes g: "heap_graph e m0 P S" and q: "queue_ok m0" and z: "fullcgcmarks m0 = (\<lambda>_. 0)"
  shows "marking_state e m0 P S m0" "marked_nodes e m0 P m0 = {}"
proof -
  have "\<not> mark_bit m0 i" for i by (simp add: mark_bit_def z)
  then show "marking_state e m0 P S m0" "marked_nodes e m0 P m0 = {}"
    using g q by (auto simp: marking_state_def same_heap_def funs_marked_def marked_nodes_def same_pages_def)
qed

lemma mark_loop_ends:
  assumes i: "full_mark.loop_inv e m0 P S Q B m" and ne: "queue_contents m \<noteq> []"
    and w: "ht_count (weak_objects m0) = 0"
  shows "\<exists>t. mark_loop e m = Some (Inr t) \<and> marking_state e m0 P S t \<and> queue_contents t = [] \<and>
    marked_nodes e m0 P t = full_mark.reach e m0 Q B"
proof -
  obtain t where d: "drain gc_dequeue (scan_queued e) queue_nonempty m = Some (Inr t)"
    and t: "full_mark.loop_inv e m0 P S Q B t" "queue_contents t = []"
      "marked_nodes e m0 P t = full_mark.reach e m0 Q B"
    using full_mark.loop_marks[OF i ne] by blast
  have st: "marking_state e m0 P S t" using t(1) by (simp add: full_mark.loop_inv_def)
  have "test_weak_triggers e t = Some (Inr (False, t))"
    using marking_stateD(5)[OF st] w by (simp add: test_weak_triggers_def)
  then have "mark_loop e m = Some (Inr t)" by (subst mark_loop.simps) (simp add: d)
  then show ?thesis using st t by blast
qed

lemma gc_mark_objs_memory: "for_each (gc_mark_obj e) ps m = Inr t \<Longrightarrow> mark_frame m t"
proof (induction ps arbitrary: m)
  case (Cons p ps)
  then obtain u where "gc_mark_obj e p m = Inr u" "for_each (gc_mark_obj e) ps u = Inr t"
    by (cases "gc_mark_obj e p m") auto
  then show ?case using Cons.IH gc_mark_obj_frame mark_frame_trans by blast
qed simp

lemma for_each_static:
  "for_each gc_enqueue ps m = Inr t \<Longrightarrow> memory (gcs t) = memory (gcs m)"
proof (induction ps arbitrary: m)
  case (Cons p ps)
  then obtain u where "gc_enqueue p m = Inr u" "for_each gc_enqueue ps u = Inr t"
    by (cases "gc_enqueue p m") auto
  then show ?case using Cons.IH[of u] gc_enqueue_frame(1)[of p m u] by (simp add: mark_frame_def)
qed simp


lemma live_insert:
  "live_objects e m0 (set (slots_of e (memory (gcs m0)) y) \<union> R) Q = live_objects e m0 R (insert y Q)"
    (is "?A = ?B")
proof
  show "?A \<subseteq> ?B"
  proof
    fix x assume "x \<in> ?A"
    then show "x \<in> ?B"
    proof induction
      case (live_root p x)
      then show ?case using live_objects.live_root[of p R] live_objects.live_start[of y "insert y Q"] by blast
    next
      case (live_start z p x)
      then show ?case using live_objects.live_start[of z "insert y Q"] by blast
    next
      case (live_slot z p x)
      then show ?case using live_objects.live_slot[of z] by blast
    qed
  qed
  show "?B \<subseteq> ?A"
  proof
    fix x assume "x \<in> ?B"
    then show "x \<in> ?A"
    proof induction
      case (live_root p x)
      then show ?case using live_objects.live_root[of p] by blast
    next
      case (live_start z p x)
      then show ?case
        using live_objects.live_root[of p "set (slots_of e (memory (gcs m0)) y) \<union> R"]
          live_objects.live_start[of z Q] by blast
    next
      case (live_slot z p x)
      then show ?case using live_objects.live_slot[of z] by blast
    qed
  qed
qed

lemma nil_traced:
  assumes st: "marking_state e m0 P S m" and r: "roots_ok e r m0 P S xs"
  shows "trace_object e (NIL_SYMBOL_SLOTS_START r) m = scan_queued e (nil_symbol r) m" "S (nil_symbol r)"
proof -
  have a: "lowtag_of (NIL_SYMBOL_SLOTS_START r) = 0" and "S (nil_symbol r)"
    using r by (simp_all add: roots_ok_def Let_def)
  then show "S (nil_symbol r)" by blast
  have "native_pointer (nil_symbol r) = NIL_SYMBOL_SLOTS_START r" "lowtag_of (nil_symbol r) = OTHER_POINTER_LOWTAG"
    using a by (simp_all add: nil_symbol_def tag_untag tag_constants)
  then show "trace_object e (NIL_SYMBOL_SLOTS_START r) m = scan_queued e (nil_symbol r) m"
    by (simp add: scan_queued_def listp_def tag_constants)
qed

lemma nil_memory:
  assumes g: "heap_graph e m0 P S" and r: "roots_ok e r m0 P S xs"
    and t: "trace_object e (NIL_SYMBOL_SLOTS_START r) m0 = Inr t"
  shows "memory (gcs t) = memory (gcs m0)"
proof -
  let ?h = "memory (gcs m0)" and ?n = "nil_symbol r"
  have a: "lowtag_of (NIL_SYMBOL_SLOTS_START r) = 0" "widetag_of ?h (NIL_SYMBOL_SLOTS_START r) = SYMBOL_WIDETAG"
    and s: "S ?n" using r by (simp_all add: roots_ok_def Let_def)
  have n: "native_pointer ?n = NIL_SYMBOL_SLOTS_START r" "lowtag_of ?n = OTHER_POINTER_LOWTAG"
    using a(1) by (simp_all add: nil_symbol_def tag_untag tag_constants)
  have "\<not> listp ?n" using n by (simp add: listp_def tag_constants)
  moreover have "\<not> weak_object ?h ?n" using n a(2) by (simp add: weak_object_def widetags)
  ultimately have "for_each (gc_mark_obj e) (slots_of e ?h ?n) m0 = Inr t"
    using trace_object_slots[OF heap_graphD(5)[OF g s]] t n(1) by metis
  from gc_mark_objs_memory[OF this] show ?thesis by (simp add: mark_frame_def)
qed

lemma execute_run:
  assumes "trace_object e (NIL_SYMBOL_SLOTS_START r) m0 = Inr m1" and "memory (gcs m1) = h"
    and "objects_in h (static_space_free_pointer r) (STATIC_SPACE_OBJECTS_START r) ys"
    and "for_each gc_enqueue ys m1 = Inr m2"
    and "objects_in h (permgen_space_free_pointer r) (PERMGEN_SPACE_START r) zs"
    and "for_each gc_enqueue zs m2 = Inr m3"
    and "for_each (gc_mark_obj e) (root_pointers r) m3 = Inr m4" and "mark_loop e m4 = t"
  shows "execute_full_mark_phase e r m0 = t"
proof -
  have s: "scav_static_range (STATIC_SPACE_OBJECTS_START r) (static_space_free_pointer r) m1 = Some (Inr m2)"
    using scav_static_range_objects[OF assms(3,2)] assms(4) by simp
  have "memory (gcs m2) = h" using for_each_static[OF assms(4)] assms(2) by simp
  then have p: "scav_static_range (PERMGEN_SPACE_START r) (permgen_space_free_pointer r) m2 = Some (Inr m3)"
    using scav_static_range_objects[OF assms(5)] assms(6) by simp
  obtain u v where u: "gc_mark_obj e (lisp_package_vector r) m3 = Inr u"
    "gc_mark_obj e (lisp_init_function r) u = Inr v" "gc_mark_obj e (alloc_profile_data r) v = Inr m4"
    using assms(7) unfolding root_pointers_def
    by (cases "gc_mark_obj e (lisp_package_vector r) m3"; simp)
      (metis (no_types, lifting) rbind.simps sum.exhaust sum.distinct(1))
  show ?thesis
    unfolding execute_full_mark_phase_def option_rbind_def assms(1) option.case sum.case s p u assms(8) ..
qed

lemma execute_phase:
  assumes g: "heap_graph e m0 P S" and q: "queue_ok m0" "queue_contents m0 = []"
    and z: "fullcgcmarks m0 = (\<lambda>_. 0)" and w: "ht_count (weak_objects m0) = 0"
    and r: "roots_ok e r m0 P S xs" and room: "card (nodes e m0 P) + length xs \<le> queue_room m0"
  shows "\<exists>t. execute_full_mark_phase e r m0 = Some (Inr t) \<and> marking_state e m0 P S t \<and> queue_contents t = [] \<and>
    marked_nodes e m0 P t = live_objects e m0 (set (root_pointers r)) (insert (nil_symbol r) (set xs))"
proof -
  let ?h = "memory (gcs m0)" and ?N = "full_mark.succs e m0 (nil_symbol r)"
  let ?R = "{y. \<exists>p \<in> set (root_pointers r). node_of e m0 ?h p = Some y}"
  note s0 = start_state[OF g q(1) z]
  obtain ys zs where xs: "xs = ys @ zs"
    and ys: "objects_in ?h (static_space_free_pointer r) (STATIC_SPACE_OBJECTS_START r) ys"
    and zs: "objects_in ?h (permgen_space_free_pointer r) (PERMGEN_SPACE_START r) zs"
    using r by (auto simp: roots_ok_def Let_def)
  have S: "\<forall>x \<in> set xs. S x" "xs \<noteq> []" and rp: "\<forall>p \<in> set (root_pointers r). proper_pointer P p"
    and sym: "widetag_of ?h (NIL_SYMBOL_SLOTS_START r) = SYMBOL_WIDETAG"
    using r by (auto simp: roots_ok_def Let_def)
  have b0: "full_mark.budget e m0 P m0 = card (nodes e m0 P)"
    by (simp add: full_mark.budget_def s0(2) q(2))
  have i0: "full_mark.loop_inv e m0 P S {} {} m0" by (rule full_mark.inv_init) (use s0 q b0 room in auto)
  note nil = nil_traced[OF s0(1) r]
  obtain m1 where m1: "trace_object e (NIL_SYMBOL_SLOTS_START r) m0 = Inr m1"
    "full_mark.loop_inv e m0 P S {} ({} \<union> ?N) m1"
    "full_mark.budget e m0 P m1 \<le> full_mark.budget e m0 P m0" "queue_room m1 = queue_room m0"
    using full_mark.inv_scan[OF i0 nil(2)] nil(1) by metis
  have h1: "memory (gcs m1) = ?h" by (rule nil_memory[OF g r m1(1)])
  obtain m2 where m2: "for_each gc_enqueue ys m1 = Inr m2" "full_mark.loop_inv e m0 P S (set ys \<union> {}) ({} \<union> ?N) m2"
    "full_mark.budget e m0 P m2 = full_mark.budget e m0 P m1 + length ys" "queue_room m2 = queue_room m1"
    "queue_contents m1 \<noteq> [] \<or> ys \<noteq> [] \<longrightarrow> queue_contents m2 \<noteq> []"
    using full_mark.inv_enqs[OF m1(2), of ys] S(1) xs m1(3,4) b0 room by auto
  have h2: "memory (gcs m2) = ?h" using for_each_static[OF m2(1)] h1 by simp
  obtain m3 where m3: "for_each gc_enqueue zs m2 = Inr m3"
    "full_mark.loop_inv e m0 P S (set zs \<union> (set ys \<union> {})) ({} \<union> ?N) m3"
    "queue_contents m2 \<noteq> [] \<or> zs \<noteq> [] \<longrightarrow> queue_contents m3 \<noteq> []"
    using full_mark.inv_enqs[OF m2(2), of zs] S(1) xs m1(3,4) m2(3,4) b0 room by auto
  obtain m4 where m4: "for_each (gc_mark_obj e) (root_pointers r) m3 = Inr m4"
    "full_mark.loop_inv e m0 P S (set zs \<union> (set ys \<union> {})) (({} \<union> ?N) \<union> ?R) m4"
    "queue_contents m3 \<noteq> [] \<longrightarrow> queue_contents m4 \<noteq> []"
    using full_mark.inv_marks[OF m3(2) rp] by blast
  have "queue_contents m4 \<noteq> []" using m4(3) m3(3) m2(5) S(2) xs by auto
  from mark_loop_ends[OF m4(2) this w] obtain t where t: "mark_loop e m4 = Some (Inr t)"
    "marking_state e m0 P S t" "queue_contents t = []"
    "marked_nodes e m0 P t = full_mark.reach e m0 (set zs \<union> (set ys \<union> {})) (({} \<union> ?N) \<union> ?R)" by blast
  have "execute_full_mark_phase e r m0 = Some (Inr t)"
    by (rule execute_run[OF m1(1) h1 ys m2(1) zs m3(1) m4(1) t(1)])
  moreover have "marked_nodes e m0 P t = live_objects e m0 (set (root_pointers r)) (insert (nil_symbol r) (set xs))"
  proof -
    have B: "({} \<union> ?N) \<union> ?R =
        {y. \<exists>p \<in> set (slots_of e ?h (nil_symbol r)) \<union> set (root_pointers r). node_of e m0 ?h p = Some y}"
      by (auto simp: full_mark.succs_def)
    have Q: "set zs \<union> (set ys \<union> {}) = set xs" using xs by auto
    have "\<forall>p \<in> set (slots_of e ?h (nil_symbol r)). proper_pointer P p"
      using heap_graphD(6)[OF g nil(2)] by (simp add: proper_pointer_def)
    then have "\<forall>p \<in> set (slots_of e ?h (nil_symbol r)) \<union> set (root_pointers r). proper_pointer P p" using rp by blast
    from reach_live[OF g this S(1)] show ?thesis unfolding t(4) B Q live_insert[symmetric] .
  qed
  ultimately show ?thesis using t by blast
qed


text \<open>C11: On a heap without weak vectors and weak hash tables, the mark phase of a full collection ends and
  marks exactly what is live. If the heap is well formed (every pointer of an object is to an object;
  conses, instances, code, vectors, weak pointers and all other kinds with a size are covered), its
  collected and its static objects fit the queue and no weak table entry is
  pending, the phase returns with an empty queue; the heap is as before except for the
  links of weak pointers; and a pointer counts as survived exactly if it does not point into a
  collected space or the object it belongs to (the code object for a simple function) can be
  reached from the three root variables, the symbol NIL and the objects of the static and the
  permanent space through the words that tracing follows.\<close>

theorem full_mark_phase_marks_live:
  assumes "next_free_page (gcs m) < page_table_pages (gcs m)" and "0 < DYNAMIC_SPACE_START (gcs m)"
    and "prepare_for_full_mark_phase e m = Inr m0"
    and "heap_graph e m0 P S" and "roots_ok e r m0 P S xs" and "ht_count (weak_objects m) = 0"
    and "card (nodes e m0 P) + length xs
      \<le> 1 + (page_table_pages (gcs m) - next_free_page (gcs m) - 1) * QBLOCK_CAPACITY"
  shows "\<exists>t. execute_full_mark_phase e r m0 = Some (Inr t) \<and> queue_contents t = [] \<and>
    same_heap m0 S (memory (gcs t)) \<and>
    (\<forall>p. P p \<and> is_lisp_pointer p \<longrightarrow>
      (pointer_survived_gc_yet e t p \<longleftrightarrow>
       (case node_of e m0 (memory (gcs m0)) p of None \<Rightarrow> True
        | Some x \<Rightarrow> x \<in> live_objects e m0 (set (root_pointers r)) (insert (nil_symbol r) (set xs)))))"
proof -
  note g = assms(4)
  have m0: "queue_ok m0" "queue_contents m0 = []" "fullcgcmarks m0 = (\<lambda>_. 0)"
    "queue_room m0 = 1 + (page_table_pages (gcs m) - next_free_page (gcs m) - 1) * QBLOCK_CAPACITY"
    using prepare_ok[OF assms(1,2), of e] assms(3) by auto
  have w: "ht_count (weak_objects m0) = 0" using prepare_frame(4)[OF assms(3)] assms(6) by simp
  let ?L = "live_objects e m0 (set (root_pointers r)) (insert (nil_symbol r) (set xs))"
  obtain t where t: "execute_full_mark_phase e r m0 = Some (Inr t)" "marking_state e m0 P S t"
    "queue_contents t = []" "marked_nodes e m0 P t = ?L"
    using execute_phase[OF g m0(1-3) w assms(5)] assms(7) m0(4) by auto
  have "pointer_survived_gc_yet e t p \<longleftrightarrow>
      (case node_of e m0 (memory (gcs m0)) p of None \<Rightarrow> True | Some x \<Rightarrow> x \<in> ?L)"
    if p: "P p" "is_lisp_pointer p" for p
    using survived_node[OF t(2) p] t(4) by (simp split: option.split)
  then show ?thesis using t marking_stateD(3)[OF t(2)] by blast
qed


section \<open>An instance\<close>

text \<open>
  Three conses at the start of dynamic space: the first is the car of a static cons, the second
  the car of the first, the third is garbage.
\<close>

definition tiny_memory :: heap where
  "tiny_memory = (\<lambda>_. 0)(0x50000100 := SYMBOL_WIDETAG, 0x50000200 := 0x1000000007, 0x1000000000 := 0x1000000017)"

definition tiny_marker :: marker where
  "tiny_marker = small_marker\<lparr>gcs := small_heap\<lparr>memory := tiny_memory\<rparr>\<rparr>"

definition tiny_roots :: mark_roots where
  "tiny_roots = \<lparr>NIL_SYMBOL_SLOTS_START = 0x50000100, STATIC_SPACE_OBJECTS_START = 0x50000200,
     static_space_free_pointer = 0x50000210, PERMGEN_SPACE_START = 0, permgen_space_free_pointer = 0,
     lisp_package_vector = 0, lisp_init_function = 0, alloc_profile_data = 0\<rparr>"

definition tiny_pointers :: "lispobj set" where
  "tiny_pointers = {0x1000000007, 0x1000000017, 0x1000000027}"

definition tiny_objects :: "lispobj set" where
  "tiny_objects = {0x5000010F, 0x50000207} \<union> tiny_pointers"

lemma tiny_view:
  "widetag_of tiny_memory (native_pointer 0x5000010F) = SYMBOL_WIDETAG"
  "slots_of e tiny_memory 0x5000010F = [0, 0, 0, 0]"
  "plain_object tiny_memory 0x5000010F"
  "slots_of e tiny_memory 0x50000207 = [0x1000000007, 0]"
  "slots_of e tiny_memory 0x1000000007 = [0x1000000017, 0]"
  "slots_of e tiny_memory 0x1000000017 = [0, 0]"
  "slots_of e tiny_memory 0x1000000027 = [0, 0]"
  "x \<in> {0x50000207, 0x1000000007, 0x1000000017, 0x1000000027} \<Longrightarrow>
    listp x \<and> widetag_of tiny_memory (native_pointer x) \<noteq> CODE_HEADER_WIDETAG"
proof -
  have n: "native_pointer 0x5000010F = 0x50000100" by (simp add: native_pointer_def tag_constants)
  have h: "tiny_memory 0x50000100 = SYMBOL_WIDETAG" by (simp add: tiny_memory_def)
  have i: "\<not> instanceoid_widetag_p SYMBOL_WIDETAG" by (simp add: instanceoid_widetag_p_def widetags)
  have l: "\<not> listp 0x5000010F" by (simp add: listp_def lowtag_of_def tag_constants)
  have hs: "headerobj_size tiny_memory 0x50000100 = Inr 6"
    by (simp add: headerobj_size_def widetag_of_def h sizetab_def headered_size_def widetags WIDETAG_MASK_def
        size_symbol_def SYMBOL_SIZE_def ALIGN_UP_def)
  show w: "widetag_of tiny_memory (native_pointer 0x5000010F) = SYMBOL_WIDETAG"
    by (simp add: n widetag_of_def h WIDETAG_MASK_def widetags)
  show "plain_object tiny_memory 0x5000010F"
    unfolding plain_object_def Let_def w using l hs n by (simp add: widetags)
  show "slots_of e tiny_memory 0x5000010F = [0, 0, 0, 0]"
    using w l hs i unfolding slots_of_def Let_def n header_slots_def
    by (simp add: widetags) (simp add: tiny_memory_def)
  show "slots_of e tiny_memory 0x50000207 = [0x1000000007, 0]"
    "slots_of e tiny_memory 0x1000000007 = [0x1000000017, 0]"
    "slots_of e tiny_memory 0x1000000017 = [0, 0]"
    "slots_of e tiny_memory 0x1000000027 = [0, 0]"
    by (simp_all add: slots_of_def listp_def lowtag_of_def tag_constants tiny_memory_def)
  show "listp x \<and> widetag_of tiny_memory (native_pointer x) \<noteq> CODE_HEADER_WIDETAG"
    if "x \<in> {0x50000207, 0x1000000007, 0x1000000017, 0x1000000027}"
    using that by (auto simp: listp_def lowtag_of_def tag_constants native_pointer_def widetag_of_def tiny_memory_def
        WIDETAG_MASK_def widetags)
qed


lemma tiny_lists:
  assumes "x \<in> {0x50000207, 0x1000000007, 0x1000000017, 0x1000000027}"
  shows "listp x" "plain_object tiny_memory x" "\<not> code_object tiny_memory x" "\<not> weak_object tiny_memory x"
    "\<not> embedded_fun tiny_memory x" "is_lisp_pointer x"
proof -
  show l: "listp x" "\<not> code_object tiny_memory x" using tiny_view(8)[OF assms] by (simp_all add: code_object_def)
  show "plain_object tiny_memory x" "\<not> weak_object tiny_memory x" using l by (simp_all add: plain_object_def weak_object_def)
  have t: "lowtag_of x = LIST_POINTER_LOWTAG" using l by (simp add: listp_def)
  then show "\<not> embedded_fun tiny_memory x" by (simp add: embedded_fun_def tag_constants)
  show "is_lisp_pointer x" using assms by (auto simp: is_lisp_pointer_def)
qed

lemma tiny_start:
  assumes "prepare_for_full_mark_phase e tiny_marker = Inr m0" and "NIL e = 0x50000117"
  shows "memory (gcs m0) = tiny_memory"
    and "index_of e m0 0x1000000007 = 0" "index_of e m0 0x1000000017 = 1" "index_of e m0 0x1000000027 = 2"
proof -
  note f = prepare_frame[OF assms(1)]
  show "memory (gcs m0) = tiny_memory" using f(1) by (simp add: tiny_marker_def)
  have d: "DYNAMIC_SPACE_START (gcs m0) = 0x1000000000" "page_table_pages (gcs m0) = 4"
    using f(2,3) by (simp_all add: tiny_marker_def small_marker_def small_heap_def)
  show "index_of e m0 0x1000000007 = 0" "index_of e m0 0x1000000017 = 1" "index_of e m0 0x1000000027 = 2"
    by (simp_all add: index_of_def ptr_to_bit_index_def assms(2) find_page_index_def d GENCGC_PAGE_BYTES_def
        dword_index_def)
qed

lemma tiny_objects_cases:
  "x \<in> tiny_objects \<Longrightarrow> x = 0x5000010F \<or> x \<in> {0x50000207, 0x1000000007, 0x1000000017, 0x1000000027}"
  by (auto simp: tiny_objects_def tiny_pointers_def)

lemma tiny_same:
  assumes "memory (gcs m0) = tiny_memory" and "same_heap m0 (\<lambda>x. x \<in> tiny_objects) h'"
  shows "h' = tiny_memory"
proof -
  have "\<not> weak_object tiny_memory x" if "x \<in> tiny_objects" for x
    using tiny_objects_cases[OF that]
  proof
    assume "x = 0x5000010F"
    then show ?thesis using tiny_view(1) by (simp add: weak_object_def widetags)
  qed (rule tiny_lists(4))
  then have "weak_headers m0 (\<lambda>x. x \<in> tiny_objects) = {}" unfolding weak_headers_def assms(1) by blast
  then show ?thesis using assms by (simp add: same_heap_def fun_eq_iff)
qed

lemma tiny_graph:
  assumes m0: "prepare_for_full_mark_phase e tiny_marker = Inr m0" and n: "NIL e = 0x50000117"
  shows "heap_graph e m0 (\<lambda>p. p \<in> tiny_pointers) (\<lambda>x. x \<in> tiny_objects)"
    and "p \<in> tiny_pointers \<Longrightarrow> node_of e m0 tiny_memory p = Some p"
proof -
  note h = tiny_start[OF m0 n]
  have sub: "p \<in> {0x50000207, 0x1000000007, 0x1000000017, 0x1000000027}" if "p \<in> tiny_pointers" for p
    using that by (auto simp: tiny_pointers_def)
  have idx: "0 \<le> index_of e m0 p" if "p \<in> tiny_pointers" for p
    using that h by (auto simp: tiny_pointers_def)
  show node: "node_of e m0 tiny_memory p = Some p" if "p \<in> tiny_pointers" for p
    using tiny_lists(5,6)[OF sub[OF that]] idx[OF that] by (simp add: node_of_def index_of_def)
  note obj = tiny_objects_cases
  note same = tiny_same[OF h(1)]
  have slot: "p \<in> tiny_pointers" if "x \<in> tiny_objects" "p \<in> set (slots_of e tiny_memory x)" "is_lisp_pointer p" for x p
    using obj[OF that(1)] that(2,3) tiny_view(2,4-7) by (auto simp: tiny_pointers_def is_lisp_pointer_def)
  have inj: "p = q" if "p \<in> tiny_pointers" "q \<in> tiny_pointers" "index_of e m0 p = index_of e m0 q" for p q
    using that h(2-4) by (auto simp: tiny_pointers_def)
  have plain: "plain_object tiny_memory x" if "x \<in> tiny_objects" for x
    using obj[OF that] tiny_view(3) tiny_lists(2) by blast
  show "heap_graph e m0 (\<lambda>p. p \<in> tiny_pointers) (\<lambda>x. x \<in> tiny_objects)"
    unfolding heap_graph_def Let_def h(1)
  proof (intro conjI allI impI)
    fix p x assume "p \<in> tiny_pointers" "node_of e m0 tiny_memory p = Some x"
    then show "x \<in> tiny_objects" "x \<in> tiny_pointers" "0 \<le> index_of e m0 x"
      using node idx by (auto simp: tiny_objects_def)
  next
    fix p assume "p \<in> tiny_pointers" "embedded_fun tiny_memory p"
    then have False using tiny_lists(5) sub by blast
    then show "lowtag_of (fun_code_header tiny_memory (p - FUN_POINTER_LOWTAG)) = 0"
      "widetag_of tiny_memory (fun_code_header tiny_memory (p - FUN_POINTER_LOWTAG)) = CODE_HEADER_WIDETAG"
      "p - FUN_POINTER_LOWTAG \<in> set (simple_funs tiny_memory (fun_code_header tiny_memory (p - FUN_POINTER_LOWTAG)))"
      by blast+
  next
    fix x assume "x \<in> tiny_pointers" "code_object tiny_memory x"
    then show "code_ok e m0 (\<lambda>p. p \<in> tiny_pointers) x" using tiny_lists(3) sub by blast
  qed (use inj plain slot same in blast)+
qed

lemma tiny_roots_ok:
  assumes m0: "prepare_for_full_mark_phase e tiny_marker = Inr m0" and n: "NIL e = 0x50000117"
  shows "nil_symbol tiny_roots = 0x5000010F"
    and "roots_ok e tiny_roots m0 (\<lambda>p. p \<in> tiny_pointers) (\<lambda>x. x \<in> tiny_objects) [0x50000207]"
    and "card (nodes e m0 (\<lambda>p. p \<in> tiny_pointers)) + length [0x50000207 :: lispobj] \<le>
      1 + (page_table_pages (gcs tiny_marker) - next_free_page (gcs tiny_marker) - 1) * QBLOCK_CAPACITY"
proof -
  note h = tiny_start(1)[OF m0 n] and g = tiny_graph[OF m0 n]
  let ?P = "\<lambda>p. p \<in> tiny_pointers" and ?S = "\<lambda>x. x \<in> tiny_objects"
  show nil: "nil_symbol tiny_roots = 0x5000010F" by (simp add: nil_symbol_def tiny_roots_def make_lispobj_def tag_constants)
  have obj: "compute_lispobj widetag_lowtag tiny_memory 0x50000200 = 0x50000207"
    by (simp add: compute_lispobj_def tiny_memory_def widetag_lowtag_def headered_size_def WIDETAG_MASK_def
        make_lispobj_def tag_constants)
  have "objects_in tiny_memory 0x50000210 0x50000200 [0x50000207]"
    by (rule range_object[where n = 2]) (use obj tiny_lists(1) in \<open>auto intro: range_done\<close>)
  moreover have "objects_in tiny_memory 0 0 []" by (rule range_done) simp
  ultimately show "roots_ok e tiny_roots m0 ?P ?S [0x50000207]"
    using tiny_view(1) unfolding roots_ok_def Let_def h nil
    by (auto simp: tiny_roots_def tiny_objects_def root_pointers_def proper_pointer_def is_lisp_pointer_def
        native_pointer_def lowtag_of_def tag_constants)
  have nodes: "nodes e m0 ?P = tiny_pointers" using g(2) by (auto simp: nodes_def h)
  show "card (nodes e m0 ?P) + length [0x50000207 :: lispobj] \<le>
      1 + (page_table_pages (gcs tiny_marker) - next_free_page (gcs tiny_marker) - 1) * QBLOCK_CAPACITY"
    unfolding nodes by (simp add: tiny_pointers_def tiny_marker_def small_marker_def small_heap_def
        QBLOCK_CAPACITY_def QBLOCK_BYTES_def sizeof_Qblock_def GENCGC_PAGE_BYTES_def)
qed

lemma tiny_live:
  assumes m0: "prepare_for_full_mark_phase e tiny_marker = Inr m0" and n: "NIL e = 0x50000117"
  defines "L \<equiv> live_objects e m0 (set (root_pointers tiny_roots)) {0x5000010F, 0x50000207}"
  shows "0x1000000007 \<in> L" "0x1000000017 \<in> L" "0x1000000027 \<notin> L"
proof -
  note h = tiny_start(1)[OF m0 n] and g = tiny_graph[OF m0 n]
  have nx: "x = p" if "node_of e m0 tiny_memory p = Some x" "p \<in> tiny_pointers" for p x
    using g(2)[OF that(2)] that(1) by simp
  have tp: "0x1000000007 \<in> tiny_pointers" "0x1000000017 \<in> tiny_pointers" "0x1000000027 \<in> tiny_pointers"
    by (simp_all add: tiny_pointers_def)
  show first: "0x1000000007 \<in> L"
    unfolding L_def by (rule live_start[of "0x50000207" _ "0x1000000007"]) (simp_all add: h tiny_view(4) g(2)[OF tp(1)])
  show "0x1000000017 \<in> L"
    unfolding L_def by (rule live_slot[OF first[unfolded L_def], of "0x1000000017"]) (simp_all add: h tiny_view(5) g(2)[OF tp(2)])
  have no: "node_of e m0 tiny_memory 0 = None" by (simp add: node_of_def is_lisp_pointer_def)
  have slots: "set (slots_of e tiny_memory y) \<subseteq> {0, 0x1000000007, 0x1000000017}"
    if "y \<in> {0x5000010F, 0x50000207, 0x1000000007, 0x1000000017}" for y
    using that tiny_view(2,4-6)[of e] by (elim insertE) simp_all
  have nd: "x \<in> {0x1000000007, 0x1000000017}"
    if "node_of e m0 tiny_memory p = Some x" "p \<in> {0, 0x1000000007, 0x1000000017}" for p x
    using that(2) nx[OF that(1)] no that(1) tp(1,2) by (elim insertE) simp_all
  have "x \<in> {0x1000000007, 0x1000000017}" if "x \<in> L" for x
    using that unfolding L_def
  proof induction
    case (live_root p x)
    then show ?case using nd[of p x] by (simp add: root_pointers_def tiny_roots_def h)
  next
    case (live_start y p x)
    then show ?case using nd[of p x] slots[of y] unfolding h by blast
  next
    case (live_slot y p x)
    then show ?case using nd[of p x] slots[of y] unfolding h by blast
  qed
  then show "0x1000000027 \<notin> L" by fastforce
qed

lemma tiny_pages:
  "next_free_page (gcs tiny_marker) < page_table_pages (gcs tiny_marker)" "0 < DYNAMIC_SPACE_START (gcs tiny_marker)"
  "ht_count (weak_objects tiny_marker) = 0"
  by (simp_all add: tiny_marker_def small_marker_def small_heap_def)

lemma full_mark_phase_marks_live_witness:
  "\<exists>e m0 t. prepare_for_full_mark_phase e tiny_marker = Inr m0 \<and>
     execute_full_mark_phase e tiny_roots m0 = Some (Inr t) \<and>
     pointer_survived_gc_yet e t 0x1000000007 \<and> pointer_survived_gc_yet e t 0x1000000017 \<and>
     \<not> pointer_survived_gc_yet e t 0x1000000027"
proof -
  obtain e :: mark_env where n: "NIL e = 0x50000117" by (meson mark_env.select_convs(1))
  note pg = tiny_pages(1,2)
  obtain m0 where m0: "prepare_for_full_mark_phase e tiny_marker = Inr m0" using prepare_ok[OF pg] by blast
  note h = tiny_start(1)[OF m0 n] and g = tiny_graph[OF m0 n] and r = tiny_roots_ok[OF m0 n]
  from full_mark_phase_marks_live[OF pg m0 g(1) r(2) tiny_pages(3) r(3)]
  obtain t where t: "execute_full_mark_phase e tiny_roots m0 = Some (Inr t)"
    "\<And>p. p \<in> tiny_pointers \<Longrightarrow> pointer_survived_gc_yet e t p \<longleftrightarrow>
      p \<in> live_objects e m0 (set (root_pointers tiny_roots)) {0x5000010F, 0x50000207}"
    using g(2) tiny_lists(6) unfolding h r(1) by (auto simp: tiny_pointers_def)
  have tp: "0x1000000007 \<in> tiny_pointers" "0x1000000017 \<in> tiny_pointers" "0x1000000027 \<in> tiny_pointers"
    by (simp_all add: tiny_pointers_def)
  show ?thesis using m0 t(1) t(2)[OF tp(1)] t(2)[OF tp(2)] t(2)[OF tp(3)] tiny_live[OF m0 n] by blast
qed

end
