(* ===== verification/Sweep.thy ===== *)
theory Sweep
  imports MarkRoots AllocRegion
begin

text \<open>
  The sweep after the mark phase of a full collection (\<open>fullcgc.c\<close>, with \<open>walk_generation\<close> and
  \<open>free_large_object\<close> of \<open>gencgc.c\<close>): weak pointers to dead objects are broken, dead entries
  leave the weak tables and the finalizer table (\<open>gc-common.c\<close>), dead objects are overwritten, and the
  pages of the mark phase go back. No object moves in a full collection, so tables are culled without
  following forwarding pointers. Messages are left out.
\<close>

unbundle bit_operations_syntax

section \<open>State\<close>

text \<open>Further limits of the spaces, the alignment of the objects on each fixed-object page in
  words, offsets in structures that Lisp defines and the symbols that hold finalizers.\<close>

record sweep_env =
  marking :: mark_env
  text_space_highwatermark :: uword
  tlsf_mem_start :: uword
  fixedobj_free_pointer :: uword
  fixedobj_obj_align :: "nat \<Rightarrow> u8"
  index_vector_offset :: uword
  count_offset :: uword
  smashed_cells_offset :: uword
  so_head_offset :: uword
  so_count_offset :: uword
  node_hash_offset :: uword
  so_key_offset :: uword
  so_data_offset :: uword
  LFLIST_TAIL_ATOM :: lispobj
  FINALIZER_STORE :: uword
  FINALIZERS_TRIGGERED :: uword
  FINALIZER_REHASHLIST :: uword

text \<open>Besides the state of the marker: the list of dead code in text space and the generations on
  each page of it.\<close>

record sweeper =
  marked :: marker
  codeblob_freelist :: uword
  text_page_genmask :: "int \<Rightarrow> u8"

definition swept_memory :: "sweeper \<Rightarrow> heap" where
  "swept_memory s = memory (gcs (marked s))"

definition write_words :: "uword \<Rightarrow> nat \<Rightarrow> uword \<Rightarrow> marker \<Rightarrow> marker" where
  "write_words addr nwords v =
     set_memory (\<lambda>h. fold (\<lambda>i h. h(addr + 8 * of_nat i := v)) [0..<nwords] h)"

definition in_marker :: "(marker \<Rightarrow> marker result) \<Rightarrow> sweeper \<Rightarrow> sweeper result" where
  "in_marker f s = rbind (f (marked s)) (\<lambda>m. Inr (s\<lparr>marked := m\<rparr>))"

section \<open>Weak pointers and weak vectors\<close>

definition reset_weak_pointer_next :: "uword \<Rightarrow> heap \<Rightarrow> heap" where
  "reset_weak_pointer_next wp = set_weak_pointer_next wp 0"

partial_function (option) smash_weak_pointers :: "mark_env \<Rightarrow> uword \<Rightarrow> marker \<Rightarrow> marker result option" where
  "smash_weak_pointers e wp m =
     (if wp = WEAK_POINTER_CHAIN_END then Some (Inr m)
      else if widetag_of (memory (gcs m)) wp \<noteq> WEAK_POINTER_WIDETAG then Some (Inl Assert_failed)
      else let next_wp = get_weak_pointer_next (memory (gcs m)) wp;
               m = set_memory (reset_weak_pointer_next wp) m;
               pointee = memory (gcs m) (wp + 8)
           in if \<not> is_lisp_pointer pointee then Some (Inl Assert_failed)
              else smash_weak_pointers e next_wp
                (if \<not> pointer_survived_gc_yet e m pointee
                 then set_memory (\<lambda>h. h(wp + 8 := UNBOUND_MARKER_WIDETAG)) m else m))"

definition unset_weak_vector_visited :: "uword \<Rightarrow> marker \<Rightarrow> marker result" where
  "unset_weak_vector_visited v m =
     gc_assert (memory (gcs m) v AND WEAK_VECTOR_VISITED_BIT \<noteq> 0)
       (Inr (set_memory (\<lambda>h. h(v := h v XOR WEAK_VECTOR_VISITED_BIT)) m))"

definition smash_weak_vector :: "mark_env \<Rightarrow> uword \<Rightarrow> marker \<Rightarrow> marker result" where
  "smash_weak_vector e vector m =
     rbind (unset_weak_vector_visited vector m) (\<lambda>m.
       Inr (fold (\<lambda>i m. let slot = vector + 16 + 8 * of_nat i; obj = memory (gcs m) slot
                        in if is_lisp_pointer obj \<and> \<not> pointer_survived_gc_yet e m obj
                           then set_memory (\<lambda>h. h(slot := NIL e)) m else m)
              [0..<unat (vector_len (memory (gcs m)) vector)] m))"

partial_function (option) smash_vector_list :: "mark_env \<Rightarrow> uword \<Rightarrow> marker \<Rightarrow> marker result option" where
  "smash_vector_list e vectors m =
     (if vectors = 0 then Some (Inr m)
      else let vector = memory (gcs m) vectors; rest = memory (gcs m) (vectors + 8)
           in case smash_weak_vector e vector m of
                Inl x \<Rightarrow> Some (Inl x) | Inr m \<Rightarrow> smash_vector_list e rest m)"

definition local_smash_weak_pointers :: "mark_env \<Rightarrow> marker \<Rightarrow> marker result option" where
  "local_smash_weak_pointers e m =
     option_rbind (smash_weak_pointers e (weak_pointer_chain m) m) (\<lambda>m.
       let m = m\<lparr>weak_pointer_chain := WEAK_POINTER_CHAIN_END\<rparr>
       in option_rbind (smash_vector_list e (weak_vectors m) m) (\<lambda>m. Some (Inr (m\<lparr>weak_vectors := 0\<rparr>))))"

section \<open>Culling weak hash tables\<close>

definition cons_region :: nat where "cons_region = 5"

definition alloc_cons_cells :: "nat \<Rightarrow> marker \<Rightarrow> (uword \<times> marker) result" where
  "alloc_cons_cells n m =
     rbind (gc_general_alloc cons_region (16 * n) PAGE_TYPE_CONS (gcs m)) (\<lambda>(a, g).
       Inr (of_nat a, m\<lparr>gcs := g\<rparr>))"

definition notice_store :: "uword \<Rightarrow> marker \<Rightarrow> marker" where
  "notice_store a m = m\<lparr>gcs := notice_pointer_store (unat a) (gcs m)\<rparr>"

text \<open>The cell that records the freed pair: two numbers of 14 bits in a fixnum, or a second cons.\<close>

definition smashed_cell :: "mark_env \<Rightarrow> u32 \<Rightarrow> u32 \<Rightarrow> marker \<Rightarrow> (uword \<times> marker) result" where
  "smashed_cell e bucket index m =
     (if (index AND NOT 0x3FFF) OR (bucket AND NOT 0x3FFF) \<noteq> 0
      then rbind (alloc_cons_cells 2 m) (\<lambda>(cons, m).
        let car = make_lispobj (cons + 16) LIST_POINTER_LOWTAG;
            m = set_memory (\<lambda>h. h(cons := car, cons + 16 := make_fixnum (ucast index),
                                  cons + 24 := make_fixnum (ucast bucket))) m
        in rbind (gc_mark_obj e car m) (\<lambda>m. Inr (cons, m)))
      else rbind (alloc_cons_cells 1 m) (\<lambda>(cons, m).
        Inr (cons, set_memory (\<lambda>h. h(cons := ucast (push_bit N_FIXNUM_TAG_BITS (push_bit 14 index OR bucket)))) m)))"

definition cull_pair :: "sweep_env \<Rightarrow> uword \<Rightarrow> u32 \<Rightarrow> uword \<Rightarrow> u32 \<Rightarrow> marker \<Rightarrow> marker result" where
  "cull_pair e hash_table bucket kv_vector index m =
     (let pair = kv_vector + 8 * ucast (2 * index); h = memory (gcs m) in
      gc_assert (h pair \<noteq> UNBOUND_MARKER_WIDETAG)
     (gc_assert (h (pair + 8) \<noteq> UNBOUND_MARKER_WIDETAG)
     (gc_assert (0 < h (hash_table + count_offset e))
       (let m = set_memory (\<lambda>h. h(pair := UNBOUND_MARKER_WIDETAG, pair + 8 := UNBOUND_MARKER_WIDETAG)) m;
            m = set_memory (\<lambda>h. h(hash_table + count_offset e := h (hash_table + count_offset e) - make_fixnum 1)) m
        in rbind (smashed_cell (marking e) bucket index m) (\<lambda>(cons, m).
           let m = set_memory (\<lambda>h. h(cons + 8 := h (hash_table + smashed_cells_offset e))) m;
               m = notice_store hash_table m;
               obj = make_lispobj cons LIST_POINTER_LOWTAG;
               m = set_memory (\<lambda>h. h(hash_table + smashed_cells_offset e := obj)) m
           in gc_mark_obj (marking e) obj m)))))"

text \<open>\<open>next_vector\<close> is the address of an array of 32-bit numbers. A chain that does not end is \<open>None\<close>.\<close>

partial_function (option) cull_weak_hash_table_bucket ::
    "sweep_env \<Rightarrow> uword \<Rightarrow> u32 \<Rightarrow> u32 \<Rightarrow> uword \<Rightarrow> uword \<Rightarrow> (marker \<Rightarrow> lispobj \<Rightarrow> lispobj \<Rightarrow> bool) \<Rightarrow>
     marker \<Rightarrow> marker result option" where
  "cull_weak_hash_table_bucket e hash_table bucket index kv_vector next_vector alivep_test m =
     (if index = 0 then Some (Inr m)
      else
        let pair = kv_vector + 8 * ucast (2 * index);
            key = memory (gcs m) pair;
            val = memory (gcs m) (pair + 8)
        in case (if key = UNBOUND_MARKER_WIDETAG \<and> val = UNBOUND_MARKER_WIDETAG then Inr m
                 else if \<not> alivep_test m key val then cull_pair e hash_table bucket kv_vector index m
                 else Inr m) of
             Inl x \<Rightarrow> Some (Inl x)
           | Inr m \<Rightarrow> cull_weak_hash_table_bucket e hash_table bucket
                        (heap_u32 (memory (gcs m)) (next_vector + 4 * ucast index))
                        kv_vector next_vector alivep_test m)"

fun cull_buckets ::
    "sweep_env \<Rightarrow> uword \<Rightarrow> uword \<Rightarrow> uword \<Rightarrow> uword \<Rightarrow> (marker \<Rightarrow> lispobj \<Rightarrow> lispobj \<Rightarrow> bool) \<Rightarrow>
     nat list \<Rightarrow> marker \<Rightarrow> marker result option" where
  "cull_buckets e hash_table kv_vector index_vector next_vector alivep_test [] m = Some (Inr m)"
| "cull_buckets e hash_table kv_vector index_vector next_vector alivep_test (i # is) m =
     option_rbind
       (cull_weak_hash_table_bucket e hash_table (of_nat i)
          (heap_u32 (memory (gcs m)) (index_vector + 4 * of_nat i)) kv_vector next_vector alivep_test m)
       (cull_buckets e hash_table kv_vector index_vector next_vector alivep_test is)"

definition SIMPLE_ARRAY_UNSIGNED_BYTE_32_WIDETAG :: uword where
  "SIMPLE_ARRAY_UNSIGNED_BYTE_32_WIDETAG = 0xAD"

definition cull_weak_hash_table ::
    "sweep_env \<Rightarrow> uword \<Rightarrow> (marker \<Rightarrow> lispobj \<Rightarrow> lispobj \<Rightarrow> bool) \<Rightarrow> marker \<Rightarrow> marker result option" where
  "cull_weak_hash_table e hash_table alivep_test m =
     (let h = memory (gcs m); index_obj = h (hash_table + index_vector_offset e) in
      option_rbind (Some (get_array_data h (h (hash_table + pairs_offset (marking e))) SIMPLE_VECTOR_WIDETAG))
        (\<lambda>kv_vector.
      option_rbind (Some (get_array_data h index_obj SIMPLE_ARRAY_UNSIGNED_BYTE_32_WIDETAG)) (\<lambda>index_vector.
      let n_buckets = vector_len h (index_obj - OTHER_POINTER_LOWTAG) in
      option_rbind (Some (get_array_data h (h (hash_table + next_vector_offset (marking e)))
                            SIMPLE_ARRAY_UNSIGNED_BYTE_32_WIDETAG)) (\<lambda>next_vector.
      option_rbind
        (if h (hash_table + hash_vector_offset (marking e)) \<noteq> NIL (marking e)
         then Some (get_array_data h (h (hash_table + hash_vector_offset (marking e)))
                      SIMPLE_ARRAY_UNSIGNED_BYTE_32_WIDETAG)
         else Some (Inr 0)) (\<lambda>_.
      cull_buckets e hash_table kv_vector index_vector next_vector alivep_test [0..<unat n_buckets] m)))))"

partial_function (option) cull_table_list :: "sweep_env \<Rightarrow> uword \<Rightarrow> marker \<Rightarrow> marker result option" where
  "cull_table_list e table m =
     (if table = 0 then Some (Inr m)
      else
        let nxt = memory (gcs m) (table + next_weak_hash_table_offset (marking e));
            m = set_memory (\<lambda>h. h(table + next_weak_hash_table_offset (marking e) := NIL (marking e))) m;
            weakness = hashtable_weakness (marking e) (memory (gcs m)) table
        in if weakness AND NOT 3 \<noteq> 0 then Some (Inl Assert_failed)
           else case cull_weak_hash_table e table (alivep_funs (marking e) weakness) m of
                  None \<Rightarrow> None
                | Some (Inl x) \<Rightarrow> Some (Inl x)
                | Some (Inr m) \<Rightarrow> cull_table_list e nxt m)"

definition close_cons_region :: "marker \<Rightarrow> marker result" where
  "close_cons_region m =
     rbind (ensure_region_closed cons_region PAGE_TYPE_CONS (gcs m)) (\<lambda>g. Inr (m\<lparr>gcs := g\<rparr>))"

definition cull_weak_hash_tables :: "sweep_env \<Rightarrow> marker \<Rightarrow> marker result option" where
  "cull_weak_hash_tables e m =
     option_rbind (cull_table_list e (weak_hash_tables m) m) (\<lambda>m.
       let m = m\<lparr>weak_hash_tables := 0\<rparr>;
           m = (if ht_count (weak_objects m) \<noteq> 0
                then m\<lparr>weak_objects := hopscotch_reset (weak_objects m)\<rparr> else m)
       in Some (close_cons_region m))"

section \<open>Finalizers\<close>

text \<open>\<open>list_holder\<close> is a symbol; the compare-and-swap always succeeds, since the world is stopped.\<close>

definition push_in_ordinary_list :: "mark_env \<Rightarrow> uword \<Rightarrow> lispobj \<Rightarrow> marker \<Rightarrow> marker result" where
  "push_in_ordinary_list e list_holder element m =
     rbind (alloc_cons_cells 1 m) (\<lambda>(cons, m).
       let m = set_memory (\<lambda>h. h(cons := element)) m;
           old = memory (gcs m) (list_holder + 16);
           m = set_memory (\<lambda>h. h(cons + 8 := old)) m;
           new = make_lispobj cons LIST_POINTER_LOWTAG;
           m = set_memory (\<lambda>h. h(list_holder + 16 := new)) m
       in gc_mark_obj e new m)"

definition push_in_alist :: "mark_env \<Rightarrow> uword \<Rightarrow> lispobj \<Rightarrow> lispobj \<Rightarrow> marker \<Rightarrow> marker result" where
  "push_in_alist e list_holder key val m =
     rbind (alloc_cons_cells 1 m) (\<lambda>(cons, m).
       let m = set_memory (\<lambda>h. h(cons := key, cons + 8 := val)) m;
           pair = make_lispobj cons LIST_POINTER_LOWTAG
       in rbind (gc_mark_obj e pair m) (push_in_ordinary_list e list_holder pair))"

definition obj_alivep :: "mark_env \<Rightarrow> uword \<Rightarrow> marker \<Rightarrow> bool" where
  "obj_alivep e obj_base m \<longleftrightarrow>
     pointer_survived_gc_yet e m (compute_lispobj widetag_lowtag (memory (gcs m)) obj_base)"

definition so_dummy_node_p :: "sweep_env \<Rightarrow> heap \<Rightarrow> uword \<Rightarrow> bool" where
  "so_dummy_node_p e h n \<longleftrightarrow> h (n + node_hash_offset e) AND NOT 2 = 0"

definition logically_delete :: "sweep_env \<Rightarrow> uword \<Rightarrow> uword \<Rightarrow> marker \<Rightarrow> marker" where
  "logically_delete e solist this m =
     (let next_slot = this + node_next_offset (marking e);
          m = set_memory (\<lambda>h. h(next_slot := h next_slot AND NOT LOWTAG_MASK)) m
      in set_memory (\<lambda>h. h(solist + so_count_offset e := h (solist + so_count_offset e) - 1)) m)"

partial_function (option) scan_finalizer_nodes :: "sweep_env \<Rightarrow> uword \<Rightarrow> lispobj \<Rightarrow> marker \<Rightarrow> marker result option" where
  "scan_finalizer_nodes e solist node m =
     (if node = LFLIST_TAIL_ATOM e then Some (Inr m)
      else
        let h = memory (gcs m);
            this = node - INSTANCE_POINTER_LOWTAG;
            nxt = h (this + node_next_offset (marking e));
            key = h (this + so_key_offset e);
            data = h (this + so_data_offset e)
        in if fixnump nxt then
             if so_dummy_node_p e h this then Some (Inl Assert_failed)
             else scan_finalizer_nodes e solist (nxt OR INSTANCE_POINTER_LOWTAG) m
           else
             case (if so_dummy_node_p e h this then Inr m
                   else if forwarding_pointer_p h key then
                     rbind (push_in_alist (marking e) (FINALIZER_REHASHLIST e) (forwarding_pointer_value h key) data m)
                       (\<lambda>m. Inr (logically_delete e solist this m))
                   else if \<not> obj_alivep (marking e) key m then
                     rbind (push_in_ordinary_list (marking e) (FINALIZERS_TRIGGERED e) data m)
                       (\<lambda>m. Inr (logically_delete e solist this m))
                   else Inr m) of
               Inl x \<Rightarrow> Some (Inl x)
             | Inr m \<Rightarrow> scan_finalizer_nodes e solist nxt m)"

definition scan_finalizers :: "sweep_env \<Rightarrow> marker \<Rightarrow> marker result option" where
  "scan_finalizers e m =
     (let h = memory (gcs m);
          finalizer_store = h (FINALIZER_STORE e + 16);
          solist = native_pointer finalizer_store;
          head = native_pointer (h (solist + so_head_offset e))
      in if lowtag_of finalizer_store \<noteq> INSTANCE_POINTER_LOWTAG then Some (Inl Assert_failed)
         else option_rbind (scan_finalizer_nodes e solist (h (head + node_next_offset (marking e))) m)
                (\<lambda>m. Some (close_cons_region m)))"

section \<open>Fixed-object pages\<close>

text \<open>The mark bit that the sweep looks at.\<close>

definition sweep_livep :: "marker \<Rightarrow> int \<Rightarrow> uword \<Rightarrow> uword \<Rightarrow> bool" where
  "sweep_livep m bitmap_index_bias space_base wh \<longleftrightarrow>
     mark_bit m (unat (word_of_int bitmap_index_bias + drop_bit 4 (wh - space_base)))"

definition fixedobj_page_address :: "mark_env \<Rightarrow> nat \<Rightarrow> uword" where
  "fixedobj_page_address e page = FIXEDOBJ_SPACE_START e + of_nat page * IMMOBILE_CARD_BYTES"

definition sweep_fixedobj :: "sweep_env \<Rightarrow> nat \<Rightarrow> uword \<Rightarrow> marker \<Rightarrow> marker" where
  "sweep_fixedobj e nwords obj m =
     (if fixnump (memory (gcs m) obj) then m
      else if \<not> sweep_livep m (fixedobj_index_bit_bias m) (FIXEDOBJ_SPACE_START (marking e)) obj
      then write_words obj nwords 0 m else m)"

text \<open>The objects of a page start at the multiples of the spacing and end on the page.\<close>

definition sweep_fixedobj_page :: "sweep_env \<Rightarrow> nat \<Rightarrow> marker \<Rightarrow> marker" where
  "sweep_fixedobj_page e page m =
     (let obj = fixedobj_page_address (marking e) page;
          obj_spacing = 8 * unat (fixedobj_obj_align e page)
      in if obj_spacing = 0 then m
         else fold (\<lambda>i. sweep_fixedobj e (obj_spacing div 8) (obj + of_nat (i * obj_spacing)))
                [0..<unat IMMOBILE_CARD_BYTES div obj_spacing] m)"

partial_function (option) sweep_fixedobj_pages :: "sweep_env \<Rightarrow> nat \<Rightarrow> marker \<Rightarrow> marker option" where
  "sweep_fixedobj_pages e page m =
     (if fixedobj_page_address (marking e) page \<ge> fixedobj_free_pointer e then Some m
      else sweep_fixedobj_pages e (page + 1) (sweep_fixedobj_page e page m))"

section \<open>Ranges of dynamic and text space\<close>

definition assign_widetag :: "uword \<Rightarrow> uword \<Rightarrow> heap \<Rightarrow> heap" where
  "assign_widetag addr byte h = h(addr := (h addr AND NOT WIDETAG_MASK) OR byte)"

definition clobber_headered_object :: "sweep_env \<Rightarrow> uword \<Rightarrow> uword \<Rightarrow> sweeper \<Rightarrow> sweeper" where
  "clobber_headered_object e addr nwords s =
     (let m = marked s in
      case find_page_index (gcs m) (unat addr) of
        None \<Rightarrow>
          if widetag_of (memory (gcs m)) addr = CODE_HEADER_WIDETAG then
            let m = set_memory (assign_widetag addr FILLER_WIDETAG) m;
                m = set_memory (\<lambda>h. h(addr := h addr AND NOT 0xFF0000)) m;
                m = set_memory (\<lambda>h. h(addr := h addr AND NOT 0xFF000000)) m
            in if addr \<ge> tlsf_mem_start e
               then s\<lparr>marked := set_memory (\<lambda>h. h(addr + 8 := codeblob_freelist s)) m, codeblob_freelist := addr\<rparr>
               else s\<lparr>marked := m\<rparr>
          else s
      | Some page \<Rightarrow>
          if is_code (ptype (page_table (gcs m) page))
          then s\<lparr>marked := set_memory (\<lambda>h. h(addr := make_filler_header nwords, addr + 8 := 0)) m\<rparr>
          else s\<lparr>marked := write_words addr (unat nwords) 0 m\<rparr>)"

partial_function (option) sweep_range ::
    "sweep_env \<Rightarrow> int \<Rightarrow> uword \<Rightarrow> uword \<Rightarrow> uword \<Rightarrow> sweeper \<Rightarrow> sweeper result option" where
  "sweep_range e bias base wh limit s =
     (if \<not> wh < limit then Some (Inr s)
      else
        let word = swept_memory s wh; livep = sweep_livep (marked s) bias base wh in
        if is_header widetag_lowtag word then
          (case headerobj_size (swept_memory s) wh of
             Inl x \<Rightarrow> Some (Inl x)
           | Inr nwords \<Rightarrow> sweep_range e bias base (wh + 8 * nwords) limit
               (if \<not> livep \<and> header_widetag word \<noteq> FILLER_WIDETAG
                then clobber_headered_object e wh nwords s else s))
        else sweep_range e bias base (wh + 16) limit
               (if \<not> livep then s\<lparr>marked := set_memory (\<lambda>h. h(wh := - 1, wh + 8 := - 1)) (marked s)\<rparr> else s))"

definition sweep :: "sweep_env \<Rightarrow> uword \<Rightarrow> uword \<Rightarrow> sweeper \<Rightarrow> sweeper result option" where
  "sweep e wh limit s =
     (let m = marked s in
      if find_page_index (gcs m) (unat wh) = None then
        if find_text_page_index (marking e) wh \<ge> 0
        then sweep_range e (text_index_bit_bias m) (TEXT_SPACE_START (marking e)) wh limit s
        else Some (Inl Assert_failed)
      else sweep_range e 0 (of_nat (DYNAMIC_SPACE_START (gcs m))) wh limit s)"

section \<open>Large objects and the walk over the pages\<close>

definition free_used_page :: "nat \<Rightarrow> gc \<Rightarrow> gc" where
  "free_used_page page g =
     (let used = page_words_used g page;
          g = (if used \<noteq> 0 then set_page_need_to_zero page True g else g);
          g = set_page_bytes_used page 0 g
      in reset_page_flags page g)"

text \<open>The address \<open>end - 1\<close> is taken as a byte address.\<close>

definition free_large_object :: "nat \<Rightarrow> nat \<Rightarrow> gc \<Rightarrow> gc result" where
  "free_large_object wh limit g =
     (let first = the (find_page_index g wh); last = the (find_page_index g (limit - 1));
          gen = pgen (page_table g first)
      in gc_assert (page_ends_contiguous_block_p g last)
        (gc_assert (list_all (\<lambda>page. page_single_obj_p g page \<and> pgen (page_table g page) = gen \<and>
                       page_scan_start g page = wh) [first..<Suc last])
          (let bytes_freed = sum_list (map (\<lambda>page. 8 * page_words_used g page) [first..<Suc last]);
               g = fold free_used_page [first..<Suc last] g
           in Inr (g\<lparr>generations_bytes := (generations_bytes g)(gen := generations_bytes g gen - bytes_freed),
                     bytes_allocated := bytes_allocated g - bytes_freed\<rparr>))))"

definition sweep_possibly_large :: "sweep_env \<Rightarrow> nat \<Rightarrow> nat \<Rightarrow> sweeper \<Rightarrow> sweeper result option" where
  "sweep_possibly_large e wh limit s =
     (let g = gcs (marked s) in
      if page_single_obj_p g (the (find_page_index g wh)) then
        if \<not> pointer_survived_gc_yet (marking e) (marked s) (of_nat wh)
        then Some (in_marker (\<lambda>m. rbind (free_large_object wh limit g) (\<lambda>g. Inr (m\<lparr>gcs := g\<rparr>))) s)
        else Some (Inr s)
      else sweep e (of_nat wh) (of_nat limit) s)"

text \<open>
  \<open>walk_generation\<close>, with the state of the caller in front of the collector's. No procedure that is
  passed here asks to stop. A block that goes on past the end of the table has no result.
\<close>

partial_function (option) walk_generation ::
    "('s \<Rightarrow> gc) \<Rightarrow> (nat \<Rightarrow> nat \<Rightarrow> 's \<Rightarrow> 's result option) \<Rightarrow> int \<Rightarrow> nat \<Rightarrow> 's \<Rightarrow> 's result option" where
  "walk_generation gc_of proc generation i s =
     (let g = gc_of s in
      if \<not> i < next_free_page g then Some (Inr s)
      else if page_words_used g i \<noteq> 0 \<and> (generation < 0 \<or> pgen (page_table g i) = generation) then
        if \<not> page_starts_contiguous_block_p g i then Some (Inl Assert_failed)
        else Option.bind (contiguous_block_final_page g i) (\<lambda>last_page.
          case proc (page_address g i) (page_address g last_page + 8 * page_words_used g last_page) s of
            None \<Rightarrow> None
          | Some (Inl x) \<Rightarrow> Some (Inl x)
          | Some (Inr s) \<Rightarrow> walk_generation gc_of proc generation (last_page + 1) s)
      else walk_generation gc_of proc generation (i + 1) s)"

section \<open>The phase\<close>

definition dispose_markbits :: "marker \<Rightarrow> marker result" where
  "dispose_markbits m =
     (let m = m\<lparr>fullcgcmarks := (\<lambda>_. 0)\<rparr> in
      rbind (for_each (\<lambda>page g.
          gc_assert (ptype (page_table g page) AND PAGE_TYPE_MASK = PAGE_TYPE_UNBOXED)
         (gc_assert (page_bytes_used g page = 0)
           (Inr (set_page_type page FREE_PAGE_FLAG (set_page_need_to_zero page True g)))))
        [free_page m..<page_table_pages (gcs m)] (gcs m)) (\<lambda>g. Inr (m\<lparr>gcs := g\<rparr>)))"

definition immobile_obj_gen_bits :: "heap \<Rightarrow> uword \<Rightarrow> u8" where
  "immobile_obj_gen_bits h obj = ucast (drop_bit 24 (h obj)) AND 0x1F"

partial_function (option) recompute_genmask :: "sweep_env \<Rightarrow> uword \<Rightarrow> sweeper \<Rightarrow> sweeper result option" where
  "recompute_genmask e wh s =
     (if \<not> wh < text_space_highwatermark e then Some (Inr s)
      else case object_size (swept_memory s) wh of
        Inl x \<Rightarrow> Some (Inl x)
      | Inr nwords \<Rightarrow>
          let page = find_text_page_index (marking e) wh;
              s' = (if widetag_of (swept_memory s) wh = CODE_HEADER_WIDETAG
                    then s\<lparr>text_page_genmask := (text_page_genmask s)(page := text_page_genmask s page OR
                      push_bit (unat (immobile_obj_gen_bits (swept_memory s) wh)) 1)\<rparr>
                    else s)
          in recompute_genmask e (wh + 8 * nwords) s')"

definition execute_full_sweep_phase :: "sweep_env \<Rightarrow> sweeper \<Rightarrow> sweeper result option" where
  "execute_full_sweep_phase e s =
     (let lift = (\<lambda>f k s. option_rbind (f (marked s)) (\<lambda>m. k (s\<lparr>marked := m\<rparr>))) in
      lift (local_smash_weak_pointers (marking e))
     (lift (\<lambda>m. map_option (\<lambda>(p, g). Inr (m\<lparr>conses := p, gcs := g\<rparr>)) (gc_dispose_private_pages (conses m) (gcs m)))
     (lift (cull_weak_hash_tables e)
     (lift (scan_finalizers e)
     (lift (\<lambda>m. map_option Inr (sweep_fixedobj_pages e 0 m)) (\<lambda>s.
      option_rbind (sweep e (TEXT_SPACE_START (marking e)) (text_space_highwatermark e) s) (\<lambda>s.
      let npages = uint ((ALIGN_UP (text_space_highwatermark e) IMMOBILE_CARD_BYTES - TEXT_SPACE_START (marking e))
                     div IMMOBILE_CARD_BYTES);
          s = s\<lparr>text_page_genmask := (\<lambda>p. if 0 \<le> p \<and> p < npages then 0 else text_page_genmask s p)\<rparr> in
      option_rbind (recompute_genmask e (TEXT_SPACE_START (marking e)) s) (\<lambda>s.
      option_rbind (walk_generation (gcs \<circ> marked) (sweep_possibly_large e) (- 1) 0 s)
        (lift (Some \<circ> dispose_markbits) (Some \<circ> Inr))))))))) s)"

end
