(* ===== verification/SweepRange.thy ===== *)
theory SweepRange
  imports Sweep
begin

text \<open>
  The sweep of a range of objects: it ends, keeps every marked object as it is, overwrites the
  others with words that are no references, and leaves the range walkable.
\<close>

unbundle bit_operations_syntax

section \<open>Ranges of objects\<close>

text \<open>The words of an object, and the objects that fill a range.\<close>

definition object_words :: "heap \<Rightarrow> uword \<Rightarrow> uword result" where
  "object_words h a = (if is_header widetag_lowtag (h a) then headerobj_size h a else Inr 2)"

definition words_of :: "uword \<Rightarrow> uword \<Rightarrow> uword set" where
  "words_of a n = {a + 8 * of_nat i | i. i < unat n}"

inductive laid_out :: "heap \<Rightarrow> uword \<Rightarrow> uword \<Rightarrow> (uword \<times> uword) list \<Rightarrow> bool" for h limit where
  laid_end: "laid_out h limit limit []"
| laid_object: "object_words h a = Inr n \<Longrightarrow> whole_pairs n \<Longrightarrow> unat a + 8 * unat n \<le> unat limit \<Longrightarrow>
    laid_out h limit (a + 8 * n) objs \<Longrightarrow> laid_out h limit a ((a, n) # objs)"

lemma unat_next:
  assumes "unat (a :: uword) + 8 * unat n \<le> unat (limit :: uword)" and "i \<le> unat (n :: uword)"
  shows "unat (a + 8 * of_nat i) = unat a + 8 * i"
proof -
  have "unat a + 8 * i < 2 ^ 64" using assms unsigned_less[of limit, where 'a = nat] by simp
  then show ?thesis by (simp add: unat_word_ariths unat_of_nat)
qed

lemma words_of_range:
  assumes "unat a + 8 * unat n \<le> unat (limit :: uword)" and "x \<in> words_of a n"
  shows "unat a \<le> unat x" "unat x < unat a + 8 * unat n"
proof -
  obtain i where i: "i < unat n" "x = a + 8 * of_nat i" using assms(2) by (auto simp: words_of_def)
  then show "unat a \<le> unat x" "unat x < unat a + 8 * unat n" using unat_next[OF assms(1), of i] by simp_all
qed

lemma whole_pairs_words:
  assumes "whole_pairs n"
  shows "a \<in> words_of a n" "a + 8 \<in> words_of a n" "2 \<le> unat n"
proof -
  show n: "2 \<le> unat n"
  proof -
    have "unat n \<noteq> 0" "unat n \<noteq> 1" using assms by (auto simp: whole_pairs_def unat_eq_0)
    then show ?thesis by linarith
  qed
  show "a \<in> words_of a n" using n by (auto simp: words_of_def intro!: exI[of _ 0])
  show "a + 8 \<in> words_of a n" using n by (auto simp: words_of_def intro!: exI[of _ 1])
qed

lemma laid_out_range:
  assumes "laid_out h limit a objs"
  shows "unat a \<le> unat limit \<and> (\<forall>(b, n) \<in> set objs. unat a \<le> unat b \<and> unat b + 8 * unat n \<le> unat limit)"
  using assms
proof (induction rule: laid_out.induct)
  case (laid_object a n objs)
  have "unat (a + 8 * n) = unat a + 8 * unat n" using unat_next[OF laid_object(3), of "unat n"] by simp
  then show ?case using laid_object by (fastforce split: prod.splits)
qed simp

text \<open>The size of an object is written in its first two words.\<close>

lemma sizer_cong:
  assumes "h' a = h a" "h' (a + 8) = h (a + 8)" and "Some f \<in> snd ` set headered_size"
  shows "f h' a = f h a"
  using assms(3,1,2) by (auto simp: headered_size_def size_boxed_def size_short_boxed_def size_code_blob_def size_filler_def
      size_symbol_def size_fdefn_def size_array_def size_instance_def size_bignum_def size_unboxed_def
      size_vector_t_def size_weakptr_def size_vector_nil_def size_vector_bit_def size_base_string_def
      size_vector_unsigned_byte_def vector_len_def weakptr_vectorp_def code_total_nwords_def)

lemma sizetab_Sizer: "sizetab w = Sizer f \<Longrightarrow> Some f \<in> snd ` set headered_size"
  by (force simp: sizetab_def split: if_splits option.splits dest: map_of_SomeD)

lemma object_words_cong:
  assumes "h' a = h a" "h' (a + 8) = h (a + 8)"
  shows "object_words h' a = object_words h a" "object_size h' a = object_size h a"
proof -
  have w: "widetag_of h' a = widetag_of h a" using assms(1) by (simp add: widetag_of_def)
  have f: "f h' a = f h a" if "sizetab (widetag_of h a) = Sizer f" for f
    using sizer_cong[of h' a h f] sizetab_Sizer[OF that] assms by blast
  then have "headerobj_size h' a = headerobj_size h a"
    by (simp add: headerobj_size_def w split: sizer.split)
  then show "object_words h' a = object_words h a" using assms by (simp add: object_words_def)
  show "object_size h' a = object_size h a" using f by (simp add: object_size_def w split: sizer.split)
qed

section \<open>One object\<close>

text \<open>What the sweep makes of an object: a live object or a filler stays, a dead cons becomes two words of ones, a
  dead object on a code page becomes a filler, any other is zeroed.\<close>

definition swept_object :: "heap \<Rightarrow> heap \<Rightarrow> bool \<Rightarrow> bool \<Rightarrow> uword \<times> uword \<Rightarrow> bool" where
  "swept_object h h' code live = (\<lambda>(a, n).
     if live \<or> is_header widetag_lowtag (h a) \<and> header_widetag (h a) = FILLER_WIDETAG
     then \<forall>x \<in> words_of a n. h' x = h x
     else if \<not> is_header widetag_lowtag (h a) then h' a = - 1 \<and> h' (a + 8) = - 1
     else if code then h' a = make_filler_header n \<and> h' (a + 8) = 0
     else \<forall>x \<in> words_of a n. h' x = 0)"

definition with_memory :: "heap \<Rightarrow> sweeper \<Rightarrow> sweeper" where
  "with_memory H s = s\<lparr>marked := set_memory (\<lambda>_. H) (marked s)\<rparr>"

lemma with_memory_simps [simp]:
  "swept_memory (with_memory H s) = H" "with_memory H' (with_memory H s) = with_memory H' s"
  "fullcgcmarks (marked (with_memory H s)) = fullcgcmarks (marked s)"
  "page_table (gcs (marked (with_memory H s))) = page_table (gcs (marked s))"
  "find_page_index (gcs (marked (with_memory H s))) = find_page_index (gcs (marked s))"
  "with_memory (swept_memory s) s = s"
  by (simp_all add: with_memory_def set_memory_def swept_memory_def find_page_index_def fun_eq_iff)

lemma sweep_livep_with_memory [simp]:
  "sweep_livep (marked (with_memory H s)) bias base = sweep_livep (marked s) bias base"
  by (simp add: sweep_livep_def mark_bit_def fun_eq_iff)

lemma write_words_memory:
  "write_words a n v m = set_memory (\<lambda>h x. if x \<in> {a + 8 * of_nat i | i. i < n} then v else h x) m"
proof -
  have "fold (\<lambda>i h. h(a + 8 * of_nat i := v)) [0..<n] h =
      (\<lambda>x. if x \<in> {a + 8 * of_nat i | i. i < n} then v else h x)" for h :: heap
  proof (induction n)
    case (Suc n)
    have "[0..<Suc n] = [0..<n] @ [n]" by simp
    then have e: "fold (\<lambda>i h. h(a + 8 * of_nat i := v)) [0..<Suc n] h =
        (\<lambda>x. if x \<in> {a + 8 * of_nat i | i. i < n} then v else h x)(a + 8 * of_nat n := v)"
      by (simp only: fold_append comp_apply fold.simps id_apply Suc)
    show ?case unfolding e by (rule ext) (auto simp: less_Suc_eq)
  qed simp
  then show ?thesis by (simp add: write_words_def)
qed

definition code_at :: "gc \<Rightarrow> uword \<Rightarrow> bool" where
  "code_at g a \<longleftrightarrow> is_code (ptype (page_table g (the (find_page_index g (unat a)))))"

text \<open>The body of the loop.\<close>

definition sweep_one :: "sweep_env \<Rightarrow> bool \<Rightarrow> uword \<Rightarrow> uword \<Rightarrow> sweeper \<Rightarrow> sweeper" where
  "sweep_one e livep a n s =
     (if is_header widetag_lowtag (swept_memory s a)
      then if \<not> livep \<and> header_widetag (swept_memory s a) \<noteq> FILLER_WIDETAG then clobber_headered_object e a n s else s
      else if \<not> livep then s\<lparr>marked := set_memory (\<lambda>h. h(a := - 1, a + 8 := - 1)) (marked s)\<rparr> else s)"

lemma sweep_range_step:
  assumes "a < limit" and "object_words (swept_memory s) a = Inr n"
  shows "sweep_range e bias base a limit s =
    sweep_range e bias base (a + 8 * n) limit (sweep_one e (sweep_livep (marked s) bias base a) a n s)"
  using assms by (subst sweep_range.simps) (auto simp: object_words_def sweep_one_def Let_def split: if_splits)

lemma sweep_one_swept:
  assumes n: "whole_pairs n" and p: "find_page_index (gcs (marked s)) (unat a) \<noteq> None"
  shows "\<exists>H. sweep_one e live a n s = with_memory H s \<and>
    swept_object (swept_memory s) H (code_at (gcs (marked s)) a) live (a, n) \<and>
    (\<forall>x. x \<notin> words_of a n \<longrightarrow> H x = swept_memory s x)"
proof -
  let ?h = "swept_memory s"
  note w = whole_pairs_words(1,2)[OF n, of a]
  have ne: "a \<noteq> a + 8" by simp
  consider (keep) "live \<or> is_header widetag_lowtag (?h a) \<and> header_widetag (?h a) = FILLER_WIDETAG"
    | (pair) "\<not> live" "\<not> is_header widetag_lowtag (?h a)"
    | (code) "\<not> live" "is_header widetag_lowtag (?h a)" "header_widetag (?h a) \<noteq> FILLER_WIDETAG" "code_at (gcs (marked s)) a"
    | (other) "\<not> live" "is_header widetag_lowtag (?h a)" "header_widetag (?h a) \<noteq> FILLER_WIDETAG" "\<not> code_at (gcs (marked s)) a"
    by blast
  then show ?thesis
  proof cases
    case keep
    then have "sweep_one e live a n s = s" by (auto simp: sweep_one_def)
    then show ?thesis using keep by (intro exI[of _ ?h]) (simp add: swept_object_def)
  next
    case pair
    let ?H = "?h(a := - 1, a + 8 := - 1)"
    have "sweep_one e live a n s = with_memory ?H s"
      using pair by (simp add: sweep_one_def with_memory_def set_memory_def swept_memory_def)
    moreover have "swept_object ?h ?H (code_at (gcs (marked s)) a) live (a, n)"
      using pair ne by (simp add: swept_object_def)
    ultimately show ?thesis using w by (intro exI[of _ ?H]) auto
  next
    case code
    let ?H = "?h(a := make_filler_header n, a + 8 := 0)"
    have "sweep_one e live a n s = with_memory ?H s"
      using code p by (auto simp: sweep_one_def with_memory_def set_memory_def swept_memory_def
          clobber_headered_object_def code_at_def Let_def)
    moreover have "swept_object ?h ?H (code_at (gcs (marked s)) a) live (a, n)"
      using code ne by (simp add: swept_object_def)
    ultimately show ?thesis using w by (intro exI[of _ ?H]) auto
  next
    case other
    let ?H = "\<lambda>x. if x \<in> words_of a n then 0 else ?h x"
    have "sweep_one e live a n s = s\<lparr>marked := write_words a (unat n) 0 (marked s)\<rparr>"
      using other p by (auto simp: sweep_one_def clobber_headered_object_def code_at_def Let_def)
    then have "sweep_one e live a n s = with_memory ?H s"
      unfolding write_words_memory words_of_def[symmetric] with_memory_def set_memory_def swept_memory_def by simp
    moreover have "swept_object ?h ?H (code_at (gcs (marked s)) a) live (a, n)"
      using other by (simp add: swept_object_def)
    ultimately show ?thesis by (intro exI[of _ ?H]) auto
  qed
qed

section \<open>The range\<close>

lemma laid_out_apart:
  assumes "laid_out h limit (a + 8 * n) objs" and "unat a + 8 * unat n \<le> unat limit"
    and "(b, k) \<in> set objs" and "x \<in> words_of a n"
  shows "x \<notin> words_of b k"
proof
  assume x: "x \<in> words_of b k"
  have "unat (a + 8 * n) = unat a + 8 * unat n" using unat_next[OF assms(2), of "unat n"] by simp
  then have "unat a + 8 * unat n \<le> unat b" "unat b + 8 * unat k \<le> unat limit"
    using laid_out_range[OF assms(1)] assms(3) by auto
  then show False using words_of_range[OF _ x, of limit] words_of_range(2)[OF assms(2,4)] by simp
qed

lemma swept_object_cong:
  assumes "\<forall>x \<in> words_of a n. H' x = H x" "whole_pairs n" "\<forall>x \<in> words_of a n. h' x = h x"
  shows "swept_object h' H' c l (a, n) = swept_object h H c l (a, n)"
  using assms whole_pairs_words(1,2)[OF assms(2), of a] by (simp add: swept_object_def)

lemma sweep_range_swept:
  assumes "laid_out h limit a objs" and "\<forall>(b, k) \<in> set objs. \<forall>x \<in> words_of b k. swept_memory s x = h x"
    and "\<forall>(b, k) \<in> set objs. find_page_index (gcs (marked s)) (unat b) \<noteq> None"
  shows "\<exists>H. sweep_range e bias base a limit s = Some (Inr (with_memory H s)) \<and>
    (\<forall>(b, k) \<in> set objs. swept_object h H (code_at (gcs (marked s)) b) (sweep_livep (marked s) bias base b) (b, k)) \<and>
    (\<forall>x. (\<forall>(b, k) \<in> set objs. x \<notin> words_of b k) \<longrightarrow> H x = swept_memory s x)"
  using assms
proof (induction arbitrary: s rule: laid_out.induct)
  case laid_end
  have "sweep_range e bias base limit limit s = Some (Inr s)" by (subst sweep_range.simps) simp
  then show ?case by (intro exI[of _ "swept_memory s"]) simp
next
  case (laid_object a n objs)
  note w = whole_pairs_words(1,2)[OF laid_object.hyps(2), of a] whole_pairs_words(3)[OF laid_object.hyps(2)]
  have m: "swept_memory s x = h x" if "x \<in> words_of a n" for x using laid_object.prems(1) that by simp
  have ow: "object_words (swept_memory s) a = Inr n"
    using object_words_cong[of "swept_memory s" a h] m w(1,2) laid_object.hyps(1) by simp
  have lt: "a < limit" using laid_object.hyps(3) w(3) by (simp add: word_less_nat_alt)
  let ?live = "sweep_livep (marked s) bias base"
  have p: "find_page_index (gcs (marked s)) (unat a) \<noteq> None" using laid_object.prems(2) by simp
  obtain H1 where H1: "sweep_one e (?live a) a n s = with_memory H1 s"
    "swept_object (swept_memory s) H1 (code_at (gcs (marked s)) a) (?live a) (a, n)"
    "\<forall>x. x \<notin> words_of a n \<longrightarrow> H1 x = swept_memory s x"
    using sweep_one_swept[OF laid_object.hyps(2) p] by blast
  note apart = laid_out_apart[OF laid_object.hyps(4,3)]
  have "\<forall>(b, k) \<in> set objs. \<forall>x \<in> words_of b k. swept_memory (with_memory H1 s) x = h x"
    using laid_object.prems(1) H1(3) apart by fastforce
  moreover have "\<forall>(b, k) \<in> set objs. find_page_index (gcs (marked (with_memory H1 s))) (unat b) \<noteq> None"
    using laid_object.prems(2) by simp
  ultimately obtain H where H: "sweep_range e bias base (a + 8 * n) limit (with_memory H1 s) =
      Some (Inr (with_memory H (with_memory H1 s)))"
    "\<forall>(b, k) \<in> set objs. swept_object h H (code_at (gcs (marked (with_memory H1 s))) b)
       (sweep_livep (marked (with_memory H1 s)) bias base b) (b, k)"
    "\<forall>x. (\<forall>(b, k) \<in> set objs. x \<notin> words_of b k) \<longrightarrow> H x = swept_memory (with_memory H1 s) x"
    using laid_object.IH[of "with_memory H1 s"] by blast
  have Ha: "\<forall>x \<in> words_of a n. H x = H1 x" using H(3) apart by fastforce
  have "swept_object h H (code_at (gcs (marked s)) a) (?live a) (a, n)"
    using H1(2) swept_object_cong[OF Ha laid_object.hyps(2), of h "swept_memory s"] m by simp
  moreover have "\<forall>x. x \<notin> words_of a n \<and> (\<forall>(b, k) \<in> set objs. x \<notin> words_of b k) \<longrightarrow> H x = swept_memory s x"
    using H(3) H1(3) by simp
  moreover have "sweep_range e bias base a limit s = Some (Inr (with_memory H s))"
    unfolding sweep_range_step[OF lt ow] H1(1) H(1) by simp
  ultimately show ?case using H(2) by (intro exI[of _ H]) (simp add: code_at_def)
qed

end
