(* ===== verification/SweepLayout.thy ===== *)
theory SweepLayout
  imports SweepRange
begin

text \<open>
  The range is well formed after the sweep as it was before: it is filled by the live objects, bit
  for bit, and by blanks, which are fillers and pairs of words that no one reads.
\<close>

unbundle bit_operations_syntax

section \<open>Blanks\<close>

definition blank :: "heap \<Rightarrow> uword \<times> uword \<Rightarrow> bool" where
  "blank h = (\<lambda>(a, n). is_header widetag_lowtag (h a) \<and> header_widetag (h a) = FILLER_WIDETAG \<or>
     n = 2 \<and> h a \<in> {0, - 1} \<and> h (a + 8) = h a)"

lemma widetag_kinds:
  "\<not> is_header widetag_lowtag 0" "\<not> is_header widetag_lowtag (- 1)" "widetag_lowtag FILLER_WIDETAG AND 0x80 \<noteq> 0"
  by (simp_all add: is_header_def widetag_lowtag_def headered_size_def WIDETAG_MASK_def widetags)

lemma filler_words:
  assumes "h a = make_filler_header n" and "unat n < 2 ^ 32"
  shows "object_words h a = Inr n" "is_header widetag_lowtag (h a)" "header_widetag (h a) = FILLER_WIDETAG"
    "object_size h a = Inr n"
proof -
  have w: "make_filler_header n AND WIDETAG_MASK = FILLER_WIDETAG"
  proof -
    have m: "(x :: uword) AND WIDETAG_MASK = take_bit 8 x" for x
      by (simp add: take_bit_eq_mask mask_eq_exp_minus_1 WIDETAG_MASK_def)
    have "take_bit 8 (push_bit 32 n) = 0" by (rule bit_word_eqI) (simp add: bit_simps)
    then show ?thesis by (simp add: m make_filler_header_def widetags)
  qed
  have s: "drop_bit 32 (make_filler_header n) = n"
  proof (rule bit_word_eqI)
    fix i assume "i < LENGTH(64)"
    moreover have "\<not> bit n j" if "32 \<le> j" for j
    proof -
      have "take_bit 32 n = n"
        using assms(2) by (simp add: word_eq_iff_unsigned[where ?'a = nat] unsigned_take_bit_eq take_bit_nat_eq_self)
      then show ?thesis using that bit_take_bit_iff[of 32 n j] by simp
    qed
    ultimately show "bit (drop_bit 32 (make_filler_header n)) i = bit n i"
      by (auto simp: make_filler_header_def bit_simps widetags not_less[symmetric])
  qed
  show "is_header widetag_lowtag (h a)" using widetag_kinds(3) by (simp add: assms(1) is_header_def w)
  moreover have z: "sizetab FILLER_WIDETAG = Sizer size_filler" by (simp add: sizetab_def headered_size_def widetags)
  moreover have "widetag_of h a = FILLER_WIDETAG" using w by (simp add: widetag_of_def assms(1) WIDETAG_MASK_def)
  ultimately show "object_words h a = Inr n"
    using s by (simp add: object_words_def headerobj_size_def size_filler_def filler_total_nwords_def assms(1))
  show "object_size h a = Inr n"
    using s z \<open>widetag_of h a = _\<close> by (simp add: object_size_def size_filler_def filler_total_nwords_def assms(1))
  show "header_widetag (h a) = FILLER_WIDETAG" by (simp add: header_widetag_def assms(1) w)
qed

lemma laid_out_append:
  assumes "laid_out h mid a xs" and "laid_out h limit mid ys"
  shows "laid_out h limit a (xs @ ys)"
  using assms
proof (induction rule: laid_out.induct)
  case (laid_object a n objs)
  have "unat mid \<le> unat limit" using laid_out_range[OF laid_object.prems] by blast
  then show ?case using laid_object by (auto intro: laid_out.laid_object)
qed simp

lemma laid_out_single:
  assumes "object_words h a = Inr n" "whole_pairs n" "unat a + 8 * unat n \<le> unat (limit :: uword)"
  shows "laid_out h (a + 8 * n) a [(a, n)]"
  using assms(1,2)
proof (rule laid_out.laid_object)
  show "unat a + 8 * unat n \<le> unat (a + 8 * n)" using unat_next[OF assms(3), of "unat n"] by simp
qed (rule laid_out.laid_end)

lemma blank_pair:
  assumes "H a \<in> {0, - 1}" "H (a + 8) = H a"
  shows "object_words H a = Inr 2" "blank H (a, 2)"
  using assms widetag_kinds(1,2) by (auto simp: object_words_def blank_def)

lemma zeroed_laid_out:
  assumes "\<forall>i < 2 * k. H (a + 8 * of_nat i) = 0" and "unat a + 16 * k < 2 ^ 64"
  shows "\<exists>xs. laid_out H (a + 16 * of_nat k) a xs \<and> list_all (blank H) xs"
  using assms
proof (induction k)
  case 0
  then show ?case by (auto intro!: exI[of _ "[]"] laid_out.laid_end)
next
  case (Suc k)
  then obtain xs where xs: "laid_out H (a + 16 * of_nat k) a xs" "list_all (blank H) xs" by auto
  let ?b = "a + 16 * of_nat k"
  have b: "unat ?b = unat a + 16 * k" using Suc.prems(2) by (simp add: unat_word_ariths unat_of_nat)
  have "H ?b = 0" "H (?b + 8) = 0"
    using spec[OF Suc.prems(1), of "2 * k"] spec[OF Suc.prems(1), of "2 * k + 1"] by (simp_all add: algebra_simps)
  then have p: "object_words H ?b = Inr 2" "blank H (?b, 2)" by (auto intro: blank_pair)
  have lim: "unat ?b + 8 * unat (2 :: uword) \<le> unat (a + 16 * of_nat (Suc k))"
    using Suc.prems(2) b by (simp add: unat_word_ariths unat_of_nat)
  have "laid_out H (?b + 8 * 2) ?b [(?b, 2)]"
    by (rule laid_out_single[OF p(1) _ lim]) (simp add: whole_pairs_def)
  then have "laid_out H (a + 16 * of_nat (Suc k)) ?b [(?b, 2)]" by (simp add: algebra_simps)
  from laid_out_append[OF xs(1) this] show ?case using xs(2) p(2) by auto
qed

lemma swept_object_laid_out:
  assumes "object_words h a = Inr n" "whole_pairs n" "unat a + 8 * unat n \<le> unat (limit :: uword)"
    and "swept_object h H code live (a, n)" and "code \<Longrightarrow> unat n < 2 ^ 32"
  shows "\<exists>xs. laid_out H (a + 8 * n) a xs \<and>
    (\<forall>ob \<in> set xs. if live then ob = (a, n) else blank H ob) \<and> (live \<longrightarrow> (a, n) \<in> set xs)"
proof -
  note w = whole_pairs_words(1,2)[OF assms(2), of a]
  consider (keep) "live \<or> is_header widetag_lowtag (h a) \<and> header_widetag (h a) = FILLER_WIDETAG"
    | (pair) "\<not> live" "\<not> is_header widetag_lowtag (h a)"
    | (code) "\<not> live" "is_header widetag_lowtag (h a)" "header_widetag (h a) \<noteq> FILLER_WIDETAG" "code"
    | (other) "\<not> live" "is_header widetag_lowtag (h a)" "header_widetag (h a) \<noteq> FILLER_WIDETAG" "\<not> code"
    by blast
  then show ?thesis
  proof cases
    case keep
    then have "\<forall>x \<in> words_of a n. H x = h x" using assms(4) by (simp add: swept_object_def)
    then have "H a = h a" "H (a + 8) = h (a + 8)" using w by blast+
    moreover from this have "object_words H a = Inr n" using object_words_cong(1)[of H a h] assms(1) by simp
    ultimately show ?thesis using laid_out_single[OF _ assms(2,3)] keep
      by (intro exI[of _ "[(a, n)]"]) (auto simp: blank_def)
  next
    case pair
    then have "H a = - 1" "H (a + 8) = - 1" "n = 2"
      using assms(1,4) by (auto simp: swept_object_def object_words_def)
    then show ?thesis using laid_out_single[OF _ assms(2,3)] pair blank_pair[of H a]
      by (intro exI[of _ "[(a, 2)]"]) auto
  next
    case code
    then have "H a = make_filler_header n" using assms(4) by (simp add: swept_object_def)
    from filler_words[of H, OF this assms(5)[OF code(4)]] show ?thesis
      using laid_out_single[OF _ assms(2,3)] code
      by (intro exI[of _ "[(a, n)]"]) (auto simp: blank_def)
  next
    case other
    then have z: "\<forall>x \<in> words_of a n. H x = 0" using assms(4) by (simp add: swept_object_def)
    obtain k where k: "unat n = 2 * k" using assms(2) by (auto simp: whole_pairs_def)
    have "n = of_nat (unat n)" by simp
    then have n: "8 * n = 16 * of_nat k" unfolding k by (simp only: of_nat_mult) simp
    have "unat a + 16 * k < 2 ^ 64" using assms(3) k unsigned_less[of limit, where 'a = nat] by simp
    moreover have "\<forall>i < 2 * k. H (a + 8 * of_nat i) = 0" using z k by (auto simp: words_of_def)
    ultimately show ?thesis using zeroed_laid_out[of k H a] other unfolding n by (auto simp: list_all_iff)
  qed
qed

section \<open>The range\<close>

lemma swept_laid_out:
  assumes "laid_out h limit a objs" and "\<forall>(b, k) \<in> set objs. swept_object h H (code b) (live b) (b, k)"
    and "\<forall>(b, k) \<in> set objs. code b \<longrightarrow> unat k < 2 ^ 32"
  shows "\<exists>objs'. laid_out H limit a objs' \<and> {ob \<in> set objs. live (fst ob)} \<subseteq> set objs' \<and>
    (\<forall>ob \<in> set objs'. ob \<in> set objs \<and> live (fst ob) \<or> blank H ob)"
  using assms
proof (induction rule: laid_out.induct)
  case laid_end
  then show ?case by (auto intro!: exI[of _ "[]"] laid_out.laid_end)
next
  case (laid_object a n objs)
  then obtain ys where ys: "laid_out H limit (a + 8 * n) ys" "{ob \<in> set objs. live (fst ob)} \<subseteq> set ys"
    "\<forall>ob \<in> set ys. ob \<in> set objs \<and> live (fst ob) \<or> blank H ob" by auto
  obtain xs where xs: "laid_out H (a + 8 * n) a xs"
    "\<forall>ob \<in> set xs. if live a then ob = (a, n) else blank H ob" "live a \<longrightarrow> (a, n) \<in> set xs"
    using swept_object_laid_out[OF laid_object.hyps(1-3), of H "code a" "live a"] laid_object.prems by auto
  have "laid_out H limit a (xs @ ys)" by (rule laid_out_append[OF xs(1) ys(1)])
  moreover have "{ob \<in> set ((a, n) # objs). live (fst ob)} \<subseteq> set (xs @ ys)" using xs(3) ys(2) by auto
  moreover have "\<forall>ob \<in> set (xs @ ys). ob \<in> set ((a, n) # objs) \<and> live (fst ob) \<or> blank H ob"
    using xs(2) ys(3) by (auto split: if_splits)
  ultimately show ?case by blast
qed

end
