(* ===== verification/SweepLive.thy ===== *)
theory SweepLive
  imports SweepLayout
begin

text \<open>
  The sweep of a range of dynamic space, and mark and sweep together: what is reachable stays as it
  is, everything else becomes blank.
\<close>

unbundle bit_operations_syntax

section \<open>Sweeping a range\<close>

lemma sweep_dynamic:
  assumes "find_page_index (gcs (marked s)) (unat wh) \<noteq> None"
  shows "sweep e wh limit s = sweep_range e 0 (of_nat (DYNAMIC_SPACE_START (gcs (marked s)))) wh limit s"
  using assms by (auto simp: sweep_def Let_def)

lemma swept_range:
  assumes lay: "laid_out (swept_memory s) limit wh objs" and ne: "objs \<noteq> []"
    and pg: "\<forall>(a, n) \<in> set objs. find_page_index (gcs (marked s)) (unat a) \<noteq> None \<and>
      (code_at (gcs (marked s)) a \<longrightarrow> unat n < 2 ^ 32)"
  defines "live \<equiv> sweep_livep (marked s) 0 (of_nat (DYNAMIC_SPACE_START (gcs (marked s))))"
  shows "\<exists>H objs'. sweep e wh limit s = Some (Inr (with_memory H s)) \<and> laid_out H limit wh objs' \<and>
    {ob \<in> set objs. live (fst ob)} \<subseteq> set objs' \<and>
    (\<forall>ob \<in> set objs'. ob \<in> set objs \<and> live (fst ob) \<or> blank H ob) \<and>
    (\<forall>(a, n) \<in> set objs. swept_object (swept_memory s) H (code_at (gcs (marked s)) a) (live a) (a, n)) \<and>
    (\<forall>x. (\<forall>(a, n) \<in> set objs. x \<notin> words_of a n) \<longrightarrow> H x = swept_memory s x)"
proof -
  obtain a n rest where objs: "objs = (a, n) # rest" using ne by (cases objs) auto
  then have "wh = a" using lay by (auto elim: laid_out.cases)
  then have st: "find_page_index (gcs (marked s)) (unat wh) \<noteq> None" using pg objs by simp
  have "\<forall>(b, k) \<in> set objs. \<forall>x \<in> words_of b k. swept_memory s x = swept_memory s x"
    "\<forall>(b, k) \<in> set objs. find_page_index (gcs (marked s)) (unat b) \<noteq> None" using pg by auto
  from sweep_range_swept[OF lay this, of e 0 "of_nat (DYNAMIC_SPACE_START (gcs (marked s)))"]
  obtain H where H: "sweep_range e 0 (of_nat (DYNAMIC_SPACE_START (gcs (marked s)))) wh limit s = Some (Inr (with_memory H s))"
    "\<forall>(b, k) \<in> set objs. swept_object (swept_memory s) H (code_at (gcs (marked s)) b) (live b) (b, k)"
    "\<forall>x. (\<forall>(b, k) \<in> set objs. x \<notin> words_of b k) \<longrightarrow> H x = swept_memory s x"
    unfolding live_def by blast
  have code: "\<forall>(b, k) \<in> set objs. code_at (gcs (marked s)) b \<longrightarrow> unat k < 2 ^ 32" using pg by auto
  obtain objs' where "laid_out H limit wh objs'" "{ob \<in> set objs. live (fst ob)} \<subseteq> set objs'"
    "\<forall>ob \<in> set objs'. ob \<in> set objs \<and> live (fst ob) \<or> blank H ob"
    using swept_laid_out[OF lay H(2) code] by blast
  then show ?thesis using H sweep_dynamic[OF st] by (intro exI[of _ H] exI[of _ objs']) simp
qed

text \<open>C13: The sweep keeps a range of dynamic space well formed: if objects fill the range and
  lie on pages of the table, those on code pages below 2^32 words, the sweep returns and blanks and the
  unchanged live objects fill it. A live object or a filler keeps every word, a dead cons becomes two words of ones,
  a dead object becomes zeros or, on a code page, a filler of its size; no other word changes.\<close>

theorem sweep_well_formed:
  assumes "laid_out (swept_memory s) limit wh objs" and "objs \<noteq> []"
    and "\<forall>(a, n) \<in> set objs. find_page_index (gcs (marked s)) (unat a) \<noteq> None \<and>
      (code_at (gcs (marked s)) a \<longrightarrow> unat n < 2 ^ 32)"
  shows "let live = sweep_livep (marked s) 0 (of_nat (DYNAMIC_SPACE_START (gcs (marked s))))
    in \<exists>H objs'. sweep e wh limit s = Some (Inr (with_memory H s)) \<and> laid_out H limit wh objs' \<and>
      {ob \<in> set objs. live (fst ob)} \<subseteq> set objs' \<and>
      (\<forall>ob \<in> set objs'. ob \<in> set objs \<and> live (fst ob) \<or> blank H ob) \<and>
      (\<forall>(a, n) \<in> set objs. swept_object (swept_memory s) H (code_at (gcs (marked s)) a) (live a) (a, n)) \<and>
      (\<forall>x. (\<forall>(a, n) \<in> set objs. x \<notin> words_of a n) \<longrightarrow> H x = swept_memory s x)"
  using swept_range[OF assms] by (simp only: Let_def)

section \<open>The mark bit of an object\<close>

lemma tagged_address:
  assumes "16 dvd unat (a :: uword)" and "unat (t :: uword) < 16"
  shows "unat (make_lispobj a t) = unat a + unat t"
proof -
  have a: "take_bit 4 a = 0" and t: "take_bit 4 t = t"
    using assms by (simp_all add: word_eq_iff_unsigned[where ?'a = nat] unsigned_take_bit_eq take_bit_eq_mod
        unat_mod_distrib)
  have "a AND t = 0"
  proof (rule bit_word_eqI)
    fix i
    show "bit (a AND t) i = bit (0 :: uword) i"
      using bit_take_bit_iff[of 4 a i] bit_take_bit_iff[of 4 t i] unfolding a t by (auto simp: bit_and_iff)
  qed
  then have p: "make_lispobj a t = a + t" by (simp add: make_lispobj_def disjunctive_add_eq_or)
  obtain k where k: "unat a = 16 * k" using assms(1) by (auto elim: dvdE)
  have "16 * k < 16 * 2 ^ 60" using unsigned_less[of a, where 'a = nat] k by simp
  then have "unat a + 16 \<le> 2 ^ 64" using k by simp
  then show ?thesis using assms(2) unfolding p by (simp add: unat_word_ariths)
qed

lemma same_page:
  assumes "16 dvd unat a" "16 dvd DYNAMIC_SPACE_START g" "t < 16"
  shows "find_page_index g (unat a + t) = find_page_index g (unat a) \<or> \<not> DYNAMIC_SPACE_START g \<le> unat a"
proof (cases "DYNAMIC_SPACE_START g \<le> unat a")
  case True
  then obtain k where k: "unat a = DYNAMIC_SPACE_START g + 16 * k"
    using assms(1,2) by (metis dvd_diff_nat dvdE le_add_diff_inverse)
  have "(16 * k + t) div 32768 = 16 * k div 32768"
  proof -
    have "(16 * k + t) div 16 div 2048 = 16 * k div 16 div 2048" using assms(3) by simp
    then show ?thesis by (simp only: div_mult2_eq[symmetric]) simp
  qed
  then show ?thesis by (simp add: find_page_index_def k GENCGC_PAGE_BYTES_def add.assoc)
qed simp

lemma object_mark_index:
  assumes "16 dvd unat a" "16 dvd DYNAMIC_SPACE_START (gcs m)" "unat t < 16"
    and "find_page_index (gcs m) (unat a) \<noteq> None" and "make_lispobj a t \<noteq> NIL e"
  shows "nat (ptr_to_bit_index e m (make_lispobj a t)) =
    unat (drop_bit 4 (a - of_nat (DYNAMIC_SPACE_START (gcs m))))"
proof -
  let ?D = "DYNAMIC_SPACE_START (gcs m)" and ?p = "make_lispobj a t"
  note p = tagged_address[OF assms(1,3)]
  have le: "?D \<le> unat a" using assms(4) by (auto simp: find_page_index_def split: if_splits)
  then have D: "unat (of_nat ?D :: uword) = ?D"
    using unsigned_less[of a, where 'a = nat] by (simp add: unat_of_nat)
  have pg: "find_page_index (gcs m) (unat ?p) \<noteq> None"
    using same_page[OF assms(1,2,3)] le assms(4) unfolding p by auto
  obtain k where k: "unat a = ?D + 16 * k"
    using assms(1,2) le by (metis dvd_diff_nat dvdE le_add_diff_inverse)
  have "unat (?p - of_nat ?D) = 16 * k + unat t" "unat (a - of_nat ?D) = 16 * k"
    using D k p by (simp_all add: unat_sub_if')
  then have d: "unat (drop_bit 4 (?p - of_nat ?D)) = k" "unat (drop_bit 4 (a - of_nat ?D)) = k"
    using assms(3) by (simp_all add: unat_drop_bit_eq drop_bit_eq_div unat_div_distrib)
  have "k < 2 ^ 60" using k unsigned_less[of a, where 'a = nat] by simp
  then have "sint (drop_bit 4 (?p - of_nat ?D)) = int k"
    using d(1) by (simp add: sint_uint signed_take_bit_eq_if_positive bit_iff_odd uint_nat
        take_bit_int_eq_self_iff)
  then show ?thesis using pg assms(5) d(2) by (simp add: ptr_to_bit_index_def dword_index_def)
qed

section \<open>Mark and sweep\<close>

text \<open>A range of dynamic space that a full collection can sweep: whatever the links of weak objects
  are, objects fill it; they are on pages in use, and each but the fillers is an object that marking knows.\<close>

definition filler_at :: "heap \<Rightarrow> uword \<Rightarrow> bool" where
  "filler_at h a \<longleftrightarrow> is_header widetag_lowtag (h a) \<and> header_widetag (h a) = FILLER_WIDETAG"

definition sweepable ::
    "mark_env \<Rightarrow> marker \<Rightarrow> (lispobj \<Rightarrow> bool) \<Rightarrow> (lispobj \<Rightarrow> bool) \<Rightarrow> uword \<Rightarrow> uword \<Rightarrow> (uword \<times> uword) list \<Rightarrow> bool" where
  "sweepable e m0 P S wh limit objs \<longleftrightarrow>
     objs \<noteq> [] \<and> 16 dvd unat wh \<and> 16 dvd DYNAMIC_SPACE_START (gcs m0) \<and>
     (\<forall>h. same_heap m0 S h \<longrightarrow> laid_out h limit wh objs) \<and>
     (\<forall>(a, n) \<in> set objs.
        (\<exists>p < next_free_page (gcs m0). find_page_index (gcs m0) (unat a) = Some p) \<and>
        (code_at (gcs m0) a \<longrightarrow> unat n < 2 ^ 32) \<and>
        (filler_at (memory (gcs m0)) a \<or>
         (let p = compute_lispobj widetag_lowtag (memory (gcs m0)) a
          in P p \<and> node_of e m0 (memory (gcs m0)) p = Some p)))"

lemma same_heap_widetag:
  assumes "same_heap m0 S h"
  shows "h a AND WIDETAG_MASK = memory (gcs m0) a AND WIDETAG_MASK"
proof -
  have "x AND WIDETAG_MASK = (x AND 0xFFFF) AND WIDETAG_MASK" for x :: uword
    by (simp add: WIDETAG_MASK_def and.assoc)
  then show ?thesis using assms unfolding same_heap_def by metis
qed

lemma filler_at_same: "same_heap m0 S h \<Longrightarrow> filler_at h a = filler_at (memory (gcs m0)) a"
  using same_heap_widetag[of m0 S h a] by (simp add: filler_at_def is_header_def header_widetag_def)

lemma laid_out_aligned:
  assumes "laid_out h limit a objs" and "16 dvd unat a" and "(b, n) \<in> set objs"
  shows "16 dvd unat b"
  using assms
proof (induction rule: laid_out.induct)
  case (laid_object a n objs)
  have "unat (a + 8 * n) = unat a + 8 * unat n" using unat_next[OF laid_object(3), of "unat n"] by simp
  moreover have "16 dvd 8 * unat n" using laid_object(2) by (auto simp: whole_pairs_def elim!: evenE)
  ultimately show ?case using laid_object by auto
qed simp

lemma sweep_livep_survived:
  assumes st: "marking_state e m0 P S t" and sw: "sweepable e m0 P S wh limit objs" and ob: "(a, n) \<in> set objs"
    and f: "\<not> filler_at (memory (gcs m0)) a"
  defines "p \<equiv> compute_lispobj widetag_lowtag (memory (gcs m0)) a"
  shows "sweep_livep t 0 (of_nat (DYNAMIC_SPACE_START (gcs t))) a \<longleftrightarrow> p \<in> marked_nodes e m0 P t"
proof -
  have P: "P p" and n: "node_of e m0 (memory (gcs m0)) p = Some p"
    and pg: "find_page_index (gcs m0) (unat a) \<noteq> None" and D: "16 dvd DYNAMIC_SPACE_START (gcs m0)"
    using sw ob f by (auto simp: sweepable_def p_def Let_def)
  have "same_heap m0 S (memory (gcs m0))" by (simp add: same_heap_def)
  then have al: "16 dvd unat a" using sw ob laid_out_aligned unfolding sweepable_def by blast
  obtain tag where p: "p = make_lispobj a tag" "unat tag < 16"
  proof -
    have "unat (x AND LOWTAG_MASK) < 16" for x :: uword using lowtag_range[of x] by (simp add: lowtag_of_def)
    then show ?thesis using that by (auto simp: p_def compute_lispobj_def)
  qed
  have i: "0 \<le> ptr_to_bit_index e m0 p" using n by (auto simp: node_of_def split: if_splits)
  then have "p \<noteq> NIL e" by (auto simp: ptr_to_bit_index_def)
  then have idx: "nat (index_of e m0 p) = unat (drop_bit 4 (a - of_nat (DYNAMIC_SPACE_START (gcs m0))))"
    using object_mark_index[OF al D p(2) pg] unfolding index_of_def p(1) by simp
  have "DYNAMIC_SPACE_START (gcs t) = DYNAMIC_SPACE_START (gcs m0)"
    using marking_stateD(7)[OF st] by (simp add: same_pages_def)
  then show ?thesis using P n idx by (auto simp: sweep_livep_def marked_nodes_def nodes_def)
qed

lemma sweep_marked_range:
  assumes st: "marking_state e m0 P S t" and ok: "sweepable e m0 P S wh limit objs" and s: "marked s = t"
  defines "kept \<equiv> \<lambda>a. compute_lispobj widetag_lowtag (memory (gcs m0)) a \<in> marked_nodes e m0 P t"
  shows "\<exists>H objs'. sweep e' wh limit s = Some (Inr (with_memory H s)) \<and> laid_out H limit wh objs' \<and>
    (\<forall>(a, n) \<in> set objs. kept a \<and> \<not> filler_at (memory (gcs m0)) a \<longrightarrow>
       (a, n) \<in> set objs' \<and> (\<forall>x \<in> words_of a n. H x = memory (gcs t) x)) \<and>
    (\<forall>ob \<in> set objs'. ob \<in> set objs \<and> kept (fst ob) \<or> blank H ob) \<and>
    (\<forall>x. (\<forall>(a, n) \<in> set objs. x \<notin> words_of a n) \<longrightarrow> H x = memory (gcs t) x)"
proof -
  let ?live = "sweep_livep t 0 (of_nat (DYNAMIC_SPACE_START (gcs t)))" and ?h0 = "memory (gcs m0)"
  have h: "swept_memory s = memory (gcs t)" by (simp add: swept_memory_def s)
  note sh = marking_stateD(3)[OF st] and pages = marking_stateD(7)[OF st]
  have lay: "laid_out (swept_memory s) limit wh objs" using ok sh unfolding sweepable_def h by blast
  have ne: "objs \<noteq> []" using ok by (simp add: sweepable_def)
  have fp: "find_page_index (gcs t) = find_page_index (gcs m0)"
    using pages by (simp add: same_pages_def find_page_index_def fun_eq_iff)
  have "find_page_index (gcs t) (unat a) \<noteq> None \<and> (code_at (gcs t) a \<longrightarrow> unat n < 2 ^ 32)"
    if "(a, n) \<in> set objs" for a n
    using ok that pages by (auto simp: sweepable_def code_at_def fp same_pages_def)
  then have "\<forall>(a, n) \<in> set objs. find_page_index (gcs (marked s)) (unat a) \<noteq> None \<and>
      (code_at (gcs (marked s)) a \<longrightarrow> unat n < 2 ^ 32)" unfolding s by auto
  from swept_range[OF lay ne this, of e'] obtain H objs' where
    H: "sweep e' wh limit s = Some (Inr (with_memory H s))" "laid_out H limit wh objs'"
    "{ob \<in> set objs. ?live (fst ob)} \<subseteq> set objs'" "\<forall>ob \<in> set objs'. ob \<in> set objs \<and> ?live (fst ob) \<or> blank H ob"
    and sw: "\<forall>(a, n) \<in> set objs. swept_object (memory (gcs t)) H (code_at (gcs t) a) (?live a) (a, n)"
    and frame: "\<forall>x. (\<forall>(a, n) \<in> set objs. x \<notin> words_of a n) \<longrightarrow> H x = memory (gcs t) x"
    unfolding s h by blast
  have H5: "\<forall>(a, n) \<in> set objs. ?live a \<longrightarrow> (\<forall>x \<in> words_of a n. H x = memory (gcs t) x)"
    using sw by (auto simp: swept_object_def)
  have kept: "?live a \<longleftrightarrow> kept a" if "(a, n) \<in> set objs" "\<not> filler_at ?h0 a" for a n
    unfolding kept_def by (rule sweep_livep_survived[OF st ok that])
  have filler: "blank H (a, n)" if ob: "(a, n) \<in> set objs" "?live a" "filler_at ?h0 a" for a n
  proof -
    have "whole_pairs n" using lay ob(1) by (induction rule: laid_out.induct) auto
    then have "H a = memory (gcs t) a" using H5 ob(1,2) whole_pairs_words(1) by fast
    moreover have "filler_at (memory (gcs t)) a" using filler_at_same[OF sh] ob(3) by blast
    ultimately show ?thesis by (simp add: blank_def filler_at_def)
  qed
  have "(a, n) \<in> set objs' \<and> (\<forall>x \<in> words_of a n. H x = memory (gcs t) x)"
    if "(a, n) \<in> set objs" "kept a" "\<not> filler_at ?h0 a" for a n
    using that kept[OF that(1,3)] H(3) H5 by auto
  moreover have "ob \<in> set objs \<and> kept (fst ob) \<or> blank H ob" if "ob \<in> set objs'" for ob
    using H(4) that kept filler by (cases ob) fastforce
  ultimately show ?thesis using H(1,2) frame by (intro exI[of _ H] exI[of _ objs']) auto
qed

text \<open>C12: Mark and sweep keep exactly what is reachable, on a heap without weak vectors and weak hash
  tables: when it is well formed, its objects fit the queue and
  no weak table entry is pending, the mark phase returns, and the sweep of a range of dynamic space then
  ends, leaves every object of the range that can be reached from the roots as it was, bit for bit
  (but for the links of weak pointers), and turns everything else into blanks; the range can be walked as before
  and no word outside of its objects is written.\<close>

theorem mark_and_sweep_keeps_reachable:
  assumes "next_free_page (gcs m) < page_table_pages (gcs m)" and "0 < DYNAMIC_SPACE_START (gcs m)"
    and "prepare_for_full_mark_phase e m = Inr m0"
    and "heap_graph e m0 P S" and "roots_ok e r m0 P S xs" and "ht_count (weak_objects m) = 0"
    and "card (nodes e m0 P) + length xs
      \<le> 1 + (page_table_pages (gcs m) - next_free_page (gcs m) - 1) * QBLOCK_CAPACITY"
    and "sweepable e m0 P S wh limit objs"
  shows "\<exists>t. execute_full_mark_phase e r m0 = Some (Inr t) \<and> same_heap m0 S (memory (gcs t)) \<and>
    (\<forall>s e'. marked s = t \<longrightarrow>
      (let h0 = memory (gcs m0);
           kept = (\<lambda>a. compute_lispobj widetag_lowtag h0 a
                     \<in> live_objects e m0 (set (root_pointers r)) (insert (nil_symbol r) (set xs)))
       in \<exists>H objs'. sweep e' wh limit s = Some (Inr (with_memory H s)) \<and> laid_out H limit wh objs' \<and>
          (\<forall>(a, n) \<in> set objs. kept a \<and> \<not> filler_at h0 a \<longrightarrow>
             (a, n) \<in> set objs' \<and> (\<forall>x \<in> words_of a n. H x = memory (gcs t) x)) \<and>
          (\<forall>ob \<in> set objs'. ob \<in> set objs \<and> kept (fst ob) \<or> blank H ob) \<and>
          (\<forall>x. (\<forall>(a, n) \<in> set objs. x \<notin> words_of a n) \<longrightarrow> H x = memory (gcs t) x)))"
proof -
  note g = assms(4)
  have m0: "queue_ok m0" "queue_contents m0 = []" "fullcgcmarks m0 = (\<lambda>_. 0)"
    "queue_room m0 = 1 + (page_table_pages (gcs m) - next_free_page (gcs m) - 1) * QBLOCK_CAPACITY"
    using prepare_ok[OF assms(1,2), of e] assms(3) by auto
  have w: "ht_count (weak_objects m0) = 0" using prepare_frame(4)[OF assms(3)] assms(6) by simp
  obtain t where t: "execute_full_mark_phase e r m0 = Some (Inr t)" "marking_state e m0 P S t"
    "marked_nodes e m0 P t = live_objects e m0 (set (root_pointers r)) (insert (nil_symbol r) (set xs))"
    using execute_phase[OF g m0(1-3) w assms(5)] assms(7) m0(4) by auto
  show ?thesis
    using t(1) marking_stateD(3)[OF t(2)] sweep_marked_range[OF t(2) assms(8)] unfolding t(3) Let_def
    by (intro exI[of _ t]) simp
qed

text \<open>The range of the three conses of the small heap: the third is garbage.\<close>

definition tiny_range :: "(uword \<times> uword) list" where
  "tiny_range = [(0x1000000000, 2), (0x1000000010, 2), (0x1000000020, 2)]"

lemma tiny_conses:
  assumes "a \<in> {0x1000000000, 0x1000000010, 0x1000000020}"
  shows "\<not> is_header widetag_lowtag (tiny_memory a)"
proof -
  have "tiny_memory a \<in> {0, 0x1000000017}" using assms by (elim insertE) (simp_all add: tiny_memory_def)
  moreover have "\<not> is_header widetag_lowtag 0x1000000017"
    by (simp add: is_header_def widetag_lowtag_def headered_size_def WIDETAG_MASK_def)
  ultimately show ?thesis using widetag_kinds(1) by auto
qed

lemma tiny_range_objects: "laid_out tiny_memory 0x1000000030 0x1000000000 tiny_range"
proof -
  have w: "object_words tiny_memory a = Inr 2" if "a \<in> {0x1000000000, 0x1000000010, 0x1000000020}" for a
    using tiny_conses[OF that] by (simp add: object_words_def)
  have p: "whole_pairs 2" by (simp add: whole_pairs_def)
  have "laid_out tiny_memory 0x1000000030 0x1000000030 []" by (rule laid_end)
  then have "laid_out tiny_memory 0x1000000030 0x1000000020 [(0x1000000020, 2)]"
    by (intro laid_object[OF w p]) simp_all
  then have "laid_out tiny_memory 0x1000000030 0x1000000010 [(0x1000000010, 2), (0x1000000020, 2)]"
    by (intro laid_object[OF w p]) simp_all
  then show ?thesis
    unfolding tiny_range_def by (intro laid_object[OF w p]) simp_all
qed

lemma tiny_sweepable:
  assumes m0: "prepare_for_full_mark_phase e tiny_marker = Inr m0" and n: "NIL e = 0x50000117"
  shows "sweepable e m0 (\<lambda>p. p \<in> tiny_pointers) (\<lambda>x. x \<in> tiny_objects) 0x1000000000 0x1000000030 tiny_range"
    and "compute_lispobj widetag_lowtag tiny_memory 0x1000000000 = 0x1000000007"
    "compute_lispobj widetag_lowtag tiny_memory 0x1000000010 = 0x1000000017"
    "compute_lispobj widetag_lowtag tiny_memory 0x1000000020 = 0x1000000027"
    "\<not> filler_at tiny_memory 0x1000000000" "\<not> filler_at tiny_memory 0x1000000010"
proof -
  note h = tiny_start(1)[OF m0 n]
  have pages: "next_free_page (gcs m0) = 2"
    using prepare_frame(5)[OF m0] by (simp add: tiny_marker_def small_marker_def small_heap_def)
  show c: "compute_lispobj widetag_lowtag tiny_memory 0x1000000000 = 0x1000000007"
    "compute_lispobj widetag_lowtag tiny_memory 0x1000000010 = 0x1000000017"
    "compute_lispobj widetag_lowtag tiny_memory 0x1000000020 = 0x1000000027"
    by (simp_all add: compute_lispobj_def tiny_memory_def widetag_lowtag_def headered_size_def WIDETAG_MASK_def
        make_lispobj_def tag_constants)
  show f: "\<not> filler_at tiny_memory 0x1000000000" "\<not> filler_at tiny_memory 0x1000000010"
    by (simp_all add: filler_at_def header_widetag_def tiny_memory_def WIDETAG_MASK_def widetags)
  have d: "DYNAMIC_SPACE_START (gcs m0) = 0x1000000000" "page_table_pages (gcs m0) = 4"
    using prepare_frame(2,3)[OF m0] by (simp_all add: tiny_marker_def small_marker_def small_heap_def)
  note tiny_range_objects
  moreover have "(\<exists>q < next_free_page (gcs m0). find_page_index (gcs m0) (unat a) = Some q) \<and> unat n < 2 ^ 32 \<and>
      compute_lispobj widetag_lowtag tiny_memory a \<in> tiny_pointers"
    if "(a, n) \<in> set tiny_range" for a n
  proof -
    have a: "a \<in> {0x1000000000, 0x1000000010, 0x1000000020}" and k: "n = 2"
      using that by (auto simp: tiny_range_def)
    have "find_page_index (gcs m0) (unat a) = Some 0"
      using a by (elim insertE) (simp_all add: find_page_index_def d GENCGC_PAGE_BYTES_def)
    moreover have "compute_lispobj widetag_lowtag tiny_memory a \<in> tiny_pointers"
      using a c by (elim insertE) (simp_all add: tiny_pointers_def)
    ultimately show ?thesis using pages by (simp add: k)
  qed
  moreover have "tiny_range \<noteq> []" by (simp add: tiny_range_def)
  ultimately show "sweepable e m0 (\<lambda>p. p \<in> tiny_pointers) (\<lambda>x. x \<in> tiny_objects) 0x1000000000 0x1000000030 tiny_range"
    using tiny_same[OF h] tiny_graph(2)[OF m0 n] unfolding sweepable_def h d Let_def
    by auto
qed

lemma mark_and_sweep_keeps_reachable_witness:
  "\<exists>e e' m0 t s H objs'. prepare_for_full_mark_phase e tiny_marker = Inr m0 \<and>
     execute_full_mark_phase e tiny_roots m0 = Some (Inr t) \<and> marked s = t \<and>
     sweep e' 0x1000000000 0x1000000030 s = Some (Inr (with_memory H s)) \<and>
     laid_out H 0x1000000030 0x1000000000 objs' \<and>
     (0x1000000000, 2) \<in> set objs' \<and> H 0x1000000000 = 0x1000000017 \<and>
     (0x1000000010, 2) \<in> set objs' \<and> H 0x1000000010 = 0 \<and>
     list_all (\<lambda>ob. ob = (0x1000000000, 2) \<or> ob = (0x1000000010, 2) \<or> blank H ob) objs'"
proof -
  obtain e :: mark_env where n: "NIL e = 0x50000117" by (meson mark_env.select_convs(1))
  fix e' :: sweep_env
  note pg = tiny_pages(1,2)
  obtain m0 where m0: "prepare_for_full_mark_phase e tiny_marker = Inr m0" using prepare_ok[OF pg] by blast
  note h = tiny_start(1)[OF m0 n] and g = tiny_graph[OF m0 n] and r = tiny_roots_ok[OF m0 n]
    and sw = tiny_sweepable[OF m0 n] and live = tiny_live[OF m0 n]
  obtain t where t: "execute_full_mark_phase e tiny_roots m0 = Some (Inr t)"
    "same_heap m0 (\<lambda>x. x \<in> tiny_objects) (memory (gcs t))"
    and sweep: "\<forall>s e'. marked s = t \<longrightarrow> (\<exists>H objs'. sweep e' 0x1000000000 0x1000000030 s = Some (Inr (with_memory H s)) \<and>
      laid_out H 0x1000000030 0x1000000000 objs' \<and>
      (\<forall>(a, n) \<in> set tiny_range. compute_lispobj widetag_lowtag tiny_memory a \<in>
          live_objects e m0 (set (root_pointers tiny_roots)) {0x5000010F, 0x50000207} \<and> \<not> filler_at tiny_memory a \<longrightarrow>
         (a, n) \<in> set objs' \<and> (\<forall>x \<in> words_of a n. H x = memory (gcs t) x)) \<and>
      (\<forall>ob \<in> set objs'. ob \<in> set tiny_range \<and> compute_lispobj widetag_lowtag tiny_memory (fst ob) \<in>
          live_objects e m0 (set (root_pointers tiny_roots)) {0x5000010F, 0x50000207} \<or> blank H ob) \<and>
      (\<forall>x. (\<forall>(a, n) \<in> set tiny_range. x \<notin> words_of a n) \<longrightarrow> H x = memory (gcs t) x))"
    using mark_and_sweep_keeps_reachable[OF pg m0 g(1) r(2) tiny_pages(3) r(3) sw(1)]
    unfolding h r(1) Let_def list.set by (elim exE conjE)
  have mt: "memory (gcs t) = tiny_memory" by (rule tiny_same[OF h t(2)])
  obtain s :: sweeper where s: "marked s = t" by (meson sweeper.select_convs(1))
  obtain H objs' where H: "sweep e' 0x1000000000 0x1000000030 s = Some (Inr (with_memory H s))"
    "laid_out H 0x1000000030 0x1000000000 objs'"
    "\<forall>(a, n) \<in> set tiny_range. compute_lispobj widetag_lowtag tiny_memory a \<in>
        live_objects e m0 (set (root_pointers tiny_roots)) {0x5000010F, 0x50000207} \<and> \<not> filler_at tiny_memory a \<longrightarrow>
       (a, n) \<in> set objs' \<and> (\<forall>x \<in> words_of a n. H x = memory (gcs t) x)"
    "\<forall>ob \<in> set objs'. ob \<in> set tiny_range \<and> compute_lispobj widetag_lowtag tiny_memory (fst ob) \<in>
        live_objects e m0 (set (root_pointers tiny_roots)) {0x5000010F, 0x50000207} \<or> blank H ob"
    using spec[OF spec[OF sweep, of s], of e', THEN mp, OF s] by (elim exE conjE)
  have first: "(0x1000000000, 2) \<in> set objs' \<and> (\<forall>x \<in> words_of 0x1000000000 2. H x = tiny_memory x)"
    and second: "(0x1000000010, 2) \<in> set objs' \<and> (\<forall>x \<in> words_of 0x1000000010 2. H x = tiny_memory x)"
    using H(3) sw(2,3,5,6) live(1,2) unfolding mt tiny_range_def by simp_all
  have p: "whole_pairs 2" by (simp add: whole_pairs_def)
  have words: "H 0x1000000000 = 0x1000000017" "H 0x1000000010 = 0"
    using first second whole_pairs_words(1)[OF p] by (simp_all add: tiny_memory_def)
  have "list_all (\<lambda>ob. ob = (0x1000000000, 2) \<or> ob = (0x1000000010, 2) \<or> blank H ob) objs'"
    using H(4) sw(4) live(3) by (auto simp: tiny_range_def list_all_iff)
  then show ?thesis using m0 t(1) s H(1,2) first second words by blast
qed

text \<open>Without marks, the three conses of the small heap are dead.\<close>

lemma sweep_well_formed_witness:
  "\<exists>e s H objs'. marked s = tiny_marker \<and> sweep e 0x1000000000 0x1000000030 s = Some (Inr (with_memory H s)) \<and>
     laid_out H 0x1000000030 0x1000000000 objs' \<and> list_all (blank H) objs' \<and>
     H 0x1000000000 = - 1 \<and> H 0x1000000010 = - 1 \<and> H 0x1000000020 = - 1 \<and> H 0x1000000030 = 0"
proof -
  fix e :: sweep_env
  obtain s :: sweeper where s: "marked s = tiny_marker" by (meson sweeper.select_convs(1))
  have h: "swept_memory s = tiny_memory" by (simp add: swept_memory_def s tiny_marker_def)
  have pg: "find_page_index (gcs (marked s)) (unat a) \<noteq> None \<and> (code_at (gcs (marked s)) a \<longrightarrow> unat n < 2 ^ 32)"
    if "(a, n) \<in> set tiny_range" for a n
    using that by (auto simp: tiny_range_def s tiny_marker_def small_marker_def small_heap_def find_page_index_def
        GENCGC_PAGE_BYTES_def)
  have dead: "\<not> sweep_livep tiny_marker 0 b a" for b a
    by (simp add: sweep_livep_def mark_bit_def tiny_marker_def small_marker_def)
  have lay: "laid_out (swept_memory s) 0x1000000030 0x1000000000 tiny_range" unfolding h by (rule tiny_range_objects)
  have ne: "tiny_range \<noteq> []" by (simp add: tiny_range_def)
  have pgs: "\<forall>(a, n) \<in> set tiny_range. find_page_index (gcs (marked s)) (unat a) \<noteq> None \<and>
      (code_at (gcs (marked s)) a \<longrightarrow> unat n < 2 ^ 32)" using pg by auto
  obtain H objs' where H: "sweep e 0x1000000000 0x1000000030 s = Some (Inr (with_memory H s))"
    "laid_out H 0x1000000030 0x1000000000 objs'" "\<forall>ob \<in> set objs'. blank H ob"
    "\<forall>(a, n) \<in> set tiny_range. swept_object tiny_memory H (code_at (gcs tiny_marker) a) False (a, n)"
    "\<forall>x. (\<forall>(a, n) \<in> set tiny_range. x \<notin> words_of a n) \<longrightarrow> H x = tiny_memory x"
    using sweep_well_formed[OF lay ne pgs, of e] unfolding Let_def h s by (auto simp: dead)
  have "\<not> is_header widetag_lowtag (tiny_memory a)" if "a \<in> {0x1000000000, 0x1000000010, 0x1000000020}" for a
    using tiny_conses[OF that] .
  then have "H 0x1000000000 = - 1" "H 0x1000000010 = - 1" "H 0x1000000020 = - 1"
    using H(4) by (auto simp: tiny_range_def swept_object_def)
  moreover have "H 0x1000000030 = 0"
  proof -
    have "0x1000000030 \<notin> words_of a n" if "(a, n) \<in> set tiny_range" for a n
      using words_of_range(2)[of a n "0x1000000030" "0x1000000030"] that by (auto simp: tiny_range_def)
    then have "H 0x1000000030 = tiny_memory 0x1000000030" using H(5) by blast
    then show ?thesis by (simp add: tiny_memory_def)
  qed
  ultimately show ?thesis using s H(1-3) by (auto simp: list_all_iff)
qed

end
