(* ===== verification/Pinning.thy ===== *)
theory Pinning
  imports Sweep Search HeapSort
begin

text \<open>
  Conservative roots and pinned objects (\<open>gencgc.c\<close>, \<open>immobile-space.c\<close>): a word on a control
  stack that may point to an object keeps that object where it is. The ambiguous words are
  collected in a hash set, sorted and matched against the objects that there really are; after the
  collection, what lies between pinned objects becomes fillers, and the old space is freed.
  Messages, statistics and the memory for the sorted keys are left out.
\<close>

unbundle bit_operations_syntax

section \<open>State\<close>

text \<open>Bounds of the immobile spaces, the offsets of the code that was loaded with the core, and the trees of
  code objects with a bound on their height.\<close>

record pin_env = sweep_env +
  immobile_space_lower_bound :: uword
  immobile_space_max_offset :: uword
  immobile_range_1_max_offset :: uword
  immobile_range_2_min_offset :: uword
  loaded_codeblob_offsets :: "u32 list"
  codeblob_trees :: brothertree_heap
  tree_height :: nat
  dynspace_codeblob_tree :: lispobj
  immobile_codeblob_tree :: lispobj

text \<open>\<open>gc_filtered_pins\<close> holds the first \<open>gc_pin_count\<close> keys. Of a fixed-object page, the generations and
  the flags are the state.\<close>

record compactor = sweeper +
  pinned_objects :: hopscotch_table
  new_space :: int
  pin_all_dynamic_space_code :: bool
  gc_filtered_pins :: "lispobj list"
  pins_alloc_size :: nat
  fixedobj_gens :: "int \<Rightarrow> u8"
  fixedobj_flags :: "int \<Rightarrow> u8"
  text_page_touched :: "int \<Rightarrow> bool"
  immobile_scav_queue :: "nat \<Rightarrow> uword"
  immobile_scav_queue_head :: nat
  immobile_scav_queue_count :: nat

definition heap_of :: "compactor \<Rightarrow> gc" where
  "heap_of s = gcs (marked s)"

definition map_gc :: "(gc \<Rightarrow> gc) \<Rightarrow> compactor \<Rightarrow> compactor" where
  "map_gc f s = s\<lparr>marked := (marked s)\<lparr>gcs := f (gcs (marked s))\<rparr>\<rparr>"

definition gc_pin_count :: "compactor \<Rightarrow> nat" where
  "gc_pin_count s = length (gc_filtered_pins s)"

definition compacting_p :: "compactor \<Rightarrow> bool" where
  "compacting_p s \<longleftrightarrow> 0 \<le> from_space (heap_of s)"

section \<open>Searching for objects\<close>

text \<open>A word that is no object has no size: the search then has no result.\<close>

definition size_or_0 :: "heap \<Rightarrow> nat \<Rightarrow> nat" where
  "size_or_0 h a = (case object_size h (of_nat a) of Inl _ \<Rightarrow> 0 | Inr n \<Rightarrow> unat n)"

definition gc_search_space :: "heap \<Rightarrow> nat \<Rightarrow> nat \<Rightarrow> nat option option" where
  "gc_search_space h start pointer =
     gc_search_space3 (size_or_0 h) pointer start (1 + unat ((of_nat pointer :: uword) OR LOWTAG_MASK))"

text \<open>The base of the code object with the greatest address up to the pointer, 0 for none. A node that is
  no binary node has no key: then there is no result.\<close>

definition codeblob_at_most :: "pin_env \<Rightarrow> lispobj \<Rightarrow> uword \<Rightarrow> uword option" where
  "codeblob_at_most e tree pointer =
     Option.bind (brothertree_find_lesseql (codeblob_trees e) (tree_height e) pointer tree) (\<lambda>node.
       if node = nil_obj (codeblob_trees e) then Some 0
       else case node_at (codeblob_trees e) node of
              Some (BinaryNode uw_key _ _ _) \<Rightarrow> Some uw_key | _ \<Rightarrow> None)"

definition search_page :: "gc \<Rightarrow> nat \<Rightarrow> nat \<Rightarrow> nat option option" where
  "search_page g page pointer =
     (let t = ptype (page_table g page) AND PAGE_TYPE_MASK in
      if pointer > page_address g page + page_bytes_used g page then Some None
      else gc_search_space (memory g)
        (if t = PAGE_TYPE_SMALL_MIXED \<or> t = PAGE_TYPE_CONS
         then pointer div GENCGC_CARD_BYTES * GENCGC_CARD_BYTES else page_scan_start g page) pointer)"

definition search_dynamic_space :: "pin_env \<Rightarrow> gc \<Rightarrow> uword \<Rightarrow> nat option result option" where
  "search_dynamic_space e g pointer =
     (case find_page_index g (unat pointer) of
        None \<Rightarrow> Some (Inr None)
      | Some page \<Rightarrow>
          if page_free_p g page then Some (Inr None)
          else if ptype (page_table g page) AND PAGE_TYPE_MASK = PAGE_TYPE_CODE \<and> pgen (page_table g page) = 0 then
            Option.bind (codeblob_at_most e (dynspace_codeblob_tree e) pointer) (\<lambda>found.
              if found = 0 then map_option Inr (search_page g page (unat pointer))
              else if widetag_of (memory g) found \<notin> {CODE_HEADER_WIDETAG, FUNCALLABLE_INSTANCE_WIDETAG}
              then Some (Inl Lose)
              else case object_size (memory g) found of
                     Inl x \<Rightarrow> Some (Inl x)
                   | Inr nwords \<Rightarrow>
                       if pointer < found + 8 * nwords then Some (Inr (Some (unat found)))
                       else map_option Inr (search_page g page (unat pointer)))
          else map_option Inr (search_page g page (unat pointer)))"

section \<open>Which words are roots\<close>

definition immune_set_memberp :: "compactor \<Rightarrow> nat \<Rightarrow> bool" where
  "immune_set_memberp s page \<longleftrightarrow>
     (let g = heap_of s in
      pgen (page_table g page) \<noteq> from_space g \<or>
      gc_page_pins g page \<noteq> 0 \<and>
        (page_single_obj_p g page \<or> is_code (ptype (page_table g page)) \<and> pin_all_dynamic_space_code s))"

definition COMPLEX_BASE_STRING_WIDETAG :: uword where
  "COMPLEX_BASE_STRING_WIDETAG = 0xE9"

definition potential_largeobj_p :: "uword \<Rightarrow> bool" where
  "potential_largeobj_p w \<longleftrightarrow> w = BIGNUM_WIDETAG \<or> w = CODE_HEADER_WIDETAG \<or>
     w \<ge> SIMPLE_VECTOR_WIDETAG \<and> w < COMPLEX_BASE_STRING_WIDETAG"

text \<open>With the feature \<open>use-cons-region\<close>, which this processor's build has.\<close>

definition lowtag_ok_for_page_type :: "lispobj \<Rightarrow> u8 \<Rightarrow> bool" where
  "lowtag_ok_for_page_type ptr page_type \<longleftrightarrow>
     (if lowtag_of ptr = LIST_POINTER_LOWTAG then page_type = PAGE_TYPE_CONS else page_type \<noteq> PAGE_TYPE_CONS)"

definition LOWTAG_FOR_WIDETAG :: "uword \<Rightarrow> uword" where
  "LOWTAG_FOR_WIDETAG w = ucast (widetag_lowtag w) AND LOWTAG_MASK"

definition plausible_tag_p :: "heap \<Rightarrow> lispobj \<Rightarrow> bool" where
  "plausible_tag_p h addr \<longleftrightarrow>
     (if listp addr
      then let a = addr - LIST_POINTER_LOWTAG in is_cons_half (h a) \<and> is_cons_half (h (a + 8)) \<and> h a \<noteq> - 1
      else let widetag = widetag_of h (native_pointer addr)
           in other_immediate_lowtag_p widetag \<and> lowtag_of addr = LOWTAG_FOR_WIDETAG widetag)"

definition instruction_ptr_p :: "heap \<Rightarrow> uword \<Rightarrow> uword \<Rightarrow> bool" where
  "instruction_ptr_p h pointer start \<longleftrightarrow>
     widetag_of h start = CODE_HEADER_WIDETAG \<and> pointer \<ge> code_text_start h start"

definition AMBIGUOUS_POINTER :: lispobj where "AMBIGUOUS_POINTER = 1"

definition conservative_root_p :: "pin_env \<Rightarrow> compactor \<Rightarrow> lispobj \<Rightarrow> nat \<Rightarrow> lispobj result option" where
  "conservative_root_p e s addr page =
     (let g = heap_of s; h = memory g; t = ptype (page_table g page) in
      if unat addr mod GENCGC_PAGE_BYTES \<ge> page_bytes_used g page \<or>
         \<not> is_lisp_pointer addr \<and> \<not> is_code t \<or>
         compacting_p s \<and> immune_set_memberp s page
      then Some (Inr 0)
      else if t AND OPEN_REGION_PAGE_FLAG \<noteq> 0 then Some (Inl Assert_failed)
      else if page_single_obj_p g page then
        let object_start = of_nat (page_scan_start g page);
            obj = make_lispobj object_start OTHER_POINTER_LOWTAG
        in Some (Inr (if instruction_ptr_p h addr object_start \<or>
                         potential_largeobj_p (widetag_of h object_start) \<and> obj = addr
                      then obj else 0))
      else if is_code t then
        option_rbind (search_dynamic_space e g addr) (\<lambda>found.
          case found of
            None \<Rightarrow> Some (Inl Assert_failed)
          | Some start \<Rightarrow>
              let object_start = of_nat start; w = widetag_of h object_start in
              Some (Inr
                (if w = CODE_HEADER_WIDETAG then
                   let obj = make_lispobj object_start OTHER_POINTER_LOWTAG
                   in if instruction_ptr_p h addr object_start \<or> addr = obj then obj else 0
                 else if w = FUNCALLABLE_INSTANCE_WIDETAG then
                   let obj = make_lispobj object_start FUN_POINTER_LOWTAG
                   in if object_start + 16 \<le> addr \<and> addr < object_start + 32 \<or> addr = object_start + 8 \<or> addr = obj
                      then obj else 0
                 else 0)))
      else Some (Inr (if widetag_of h (native_pointer addr) \<noteq> FILLER_WIDETAG \<and>
                         lowtag_ok_for_page_type addr t \<and> plausible_tag_p h addr
                      then AMBIGUOUS_POINTER else 0)))"

section \<open>Large objects that shrank\<close>

text \<open>The loops of \<open>adjust_obj_ptes\<close>: pages that the object fills, and pages that it left.\<close>

definition check_and_set_pte :: "nat \<Rightarrow> u8 \<Rightarrow> int \<Rightarrow> u8 \<Rightarrow> nat \<Rightarrow> gc \<Rightarrow> gc result" where
  "check_and_set_pte first_page old_allocated new_gen new_allocated page g =
     gc_assert (ptype (page_table g page) = old_allocated)
    (gc_assert (pgen (page_table g page) = from_space g)
    (gc_assert (page_scan_start_offset g page = npage_bytes (page - first_page))
      (Inr (set_page_type page new_allocated (set_page_gen page new_gen g)))))"

definition adjust_full_page :: "nat \<Rightarrow> u8 \<Rightarrow> int \<Rightarrow> u8 \<Rightarrow> nat \<Rightarrow> gc \<Rightarrow> gc result" where
  "adjust_full_page first_page old_allocated new_gen new_allocated page g =
     gc_assert (page_words_used g page = GENCGC_PAGE_WORDS)
       (check_and_set_pte first_page old_allocated new_gen new_allocated page g)"

partial_function (option) free_object_tail ::
    "nat \<Rightarrow> u8 \<Rightarrow> nat \<Rightarrow> nat \<Rightarrow> nat \<Rightarrow> gc \<Rightarrow> (nat \<times> gc) result option" where
  "free_object_tail first_page old_allocated prev_bytes_used bytes_freed page g =
     (if prev_bytes_used = GENCGC_PAGE_BYTES \<and> pgen (page_table g page) = from_space g \<and>
         ptype (page_table g page) = old_allocated \<and>
         page_scan_start_offset g page = npage_bytes (page - first_page)
      then if \<not> page_cards_all_marked_nonsticky g page then Some (Inl Assert_failed)
           else let prev_bytes_used = page_bytes_used g page;
                    g = set_page_need_to_zero page True g;
                    g = set_page_bytes_used page 0 g;
                    g = reset_page_flags page g
                in free_object_tail first_page old_allocated prev_bytes_used (bytes_freed + prev_bytes_used) (page + 1) g
      else Some (Inr (bytes_freed, g)))"

definition adjust_obj_ptes :: "nat \<Rightarrow> nat \<Rightarrow> int \<Rightarrow> u8 \<Rightarrow> gc \<Rightarrow> (nat \<times> gc) result option" where
  "adjust_obj_ptes first_page nwords new_gen new_allocated g =
     (let old_allocated = ptype (page_table g first_page);
          n_full_pages = nwords div GENCGC_PAGE_WORDS;
          excess = nwords * 8 mod GENCGC_PAGE_BYTES;
          final_page = first_page + n_full_pages - (if excess = 0 then 1 else 0)
      in if (n_full_pages = 0 \<or> page_words_used g (first_page + (n_full_pages - 1)) = GENCGC_PAGE_WORDS) \<and>
            (excess = 0 \<or> page_bytes_used g final_page = excess) \<and>
            page_starts_contiguous_block_p g (1 + final_page)
         then Some (Inr (0, fold (\<lambda>page g. set_page_gen page new_gen
                (if old_allocated = new_allocated then g else set_page_type page new_allocated g))
              [first_page..<Suc final_page] g))
         else if \<not> page_starts_contiguous_block_p g first_page then Some (Inl Assert_failed)
         else
           let full = (nwords * 8 - 1) div GENCGC_PAGE_BYTES;
               remaining_bytes = nwords * 8 - full * GENCGC_PAGE_BYTES;
               page = first_page + full
           in option_rbind (Some (for_each (adjust_full_page first_page old_allocated new_gen new_allocated)
                               [first_page..<page] g)) (\<lambda>g.
              option_rbind (Some (gc_assert (remaining_bytes \<le> page_bytes_used g page)
                               (check_and_set_pte first_page old_allocated new_gen new_allocated page g))) (\<lambda>g.
              let prev_bytes_used = page_bytes_used g page;
                  g = set_page_bytes_used page remaining_bytes g
              in option_rbind (free_object_tail first_page old_allocated prev_bytes_used
                                 (prev_bytes_used - remaining_bytes) (page + 1) g) (\<lambda>(bytes_freed, g).
                 Some (gc_assert (bytes_freed \<noteq> 0) (Inr (bytes_freed, g)))))))"

definition SIMPLE_ARRAY_NIL_WIDETAG :: uword where
  "SIMPLE_ARRAY_NIL_WIDETAG = 0x85"

text \<open>The build writes this predicate, a bit for each widetag of a vector but \<open>simple-vector\<close>.\<close>

definition specialized_vector_widetag_p :: "uword \<Rightarrow> bool" where
  "specialized_vector_widetag_p w \<longleftrightarrow>
     (let k = w div 4 in k = SIMPLE_ARRAY_NIL_WIDETAG div 4 \<and> w \<ge> SIMPLE_ARRAY_NIL_WIDETAG \<or>
        SIMPLE_VECTOR_WIDETAG div 4 < k \<and> k < COMPLEX_BASE_STRING_WIDETAG div 4)"

definition maybe_adjust_large_object :: "uword \<Rightarrow> nat \<Rightarrow> nat \<Rightarrow> gc \<Rightarrow> gc result option" where
  "maybe_adjust_large_object wh first_page nwords g =
     (let widetag = widetag_of (memory g) wh;
          adjust = (\<lambda>page_type.
            option_rbind (adjust_obj_ptes first_page nwords (from_space g) page_type g) (\<lambda>(bytes_freed, g).
              Some (Inr (g\<lparr>generations_bytes := (generations_bytes g)
                             (from_space g := generations_bytes g (from_space g) - bytes_freed),
                           bytes_allocated := bytes_allocated g - bytes_freed\<rparr>))))
      in if widetag = SIMPLE_VECTOR_WIDETAG then adjust (SINGLE_OBJECT_FLAG OR PAGE_TYPE_MIXED)
         else if specialized_vector_widetag_p widetag \<or> widetag = BIGNUM_WIDETAG
         then adjust (SINGLE_OBJECT_FLAG OR PAGE_TYPE_UNBOXED)
         else Some (Inr g))"


end
