(* ===== verification/PinRoots.thy ===== *)
theory PinRoots
  imports Pinning
begin

text \<open>
  Pinning an object, and what is done with a word of a stack or a register that may point to one:
  in dynamic space its page is marked and the object or the word is entered into the set of pinned
  objects, in the immobile spaces the object becomes live (\<open>gencgc.c\<close>, \<open>immobile-space.c\<close>).
  If nothing moves in this collection, the object is marked instead. Code that would read a page
  table entry that is not there has no result, like an insertion without end.
\<close>

unbundle bit_operations_syntax

section \<open>Objects in dynamic space\<close>

definition PAGE_PINNED :: u8 where "PAGE_PINNED = 0xFF"

definition mark_in :: "(marker \<Rightarrow> marker result) \<Rightarrow> compactor \<Rightarrow> compactor result" where
  "mark_in f s = rbind (f (marked s)) (\<lambda>m. Inr (s\<lparr>marked := m\<rparr>))"

definition insert_pin :: "pin_env \<Rightarrow> lispobj \<Rightarrow> compactor \<Rightarrow> compactor result option" where
  "insert_pin e key s =
     map_option (\<lambda>(ht, _). Inr (s\<lparr>pinned_objects := ht\<rparr>))
       (hopscotch_insert (hash_functions (marking e)) (hopscotch_fuel (marking e)) (pinned_objects s) key 1)"

text \<open>A page has 8 parts, each with its bit.\<close>

definition pin_page_part :: "nat \<Rightarrow> uword \<Rightarrow> gc \<Rightarrow> gc" where
  "pin_page_part page addr g =
     g\<lparr>gc_page_pins := (gc_page_pins g)(page := gc_page_pins g page OR
         push_bit (unat addr mod GENCGC_PAGE_BYTES div (GENCGC_PAGE_BYTES div 8)) 1)\<rparr>"

fun pin_simple_funs :: "pin_env \<Rightarrow> uword list \<Rightarrow> compactor \<Rightarrow> compactor result option" where
  "pin_simple_funs e [] s = Some (Inr s)"
| "pin_simple_funs e (fn # fns) s =
     option_rbind (insert_pin e (make_lispobj fn FUN_POINTER_LOWTAG) s) (\<lambda>s.
       case find_page_index (heap_of s) (unat fn) of
         None \<Rightarrow> None
       | Some page \<Rightarrow> pin_simple_funs e fns (map_gc (pin_page_part page fn) s))"

definition pin_large_object :: "uword \<Rightarrow> nat \<Rightarrow> compactor \<Rightarrow> compactor result option" where
  "pin_large_object object_start page s =
     (let g = heap_of s in
      if gc_page_pins g page \<noteq> 0 then Some (Inr s)
      else option_rbind (Some (object_size (memory g) object_start)) (\<lambda>nwords.
           option_rbind (maybe_adjust_large_object object_start page (unat nwords) g) (\<lambda>g.
           let pages = (case find_page_index g (unat (object_start + 8 * (nwords - 1))) of
                          None \<Rightarrow> [] | Some last_page \<Rightarrow> [page..<Suc last_page]);
               g = g\<lparr>gc_page_pins := (\<lambda>i. if i \<in> set pages then PAGE_PINNED else gc_page_pins g i)\<rparr>
           in Some (Inr (map_gc (\<lambda>_. g) s)))))"

definition pin_object :: "pin_env \<Rightarrow> lispobj \<Rightarrow> compactor \<Rightarrow> compactor result option" where
  "pin_object e object s =
     (if \<not> compacting_p s then Some (mark_in (gc_mark_obj (marking e) object) s)
      else
        let object_start = native_pointer object; h = memory (heap_of s)
        in case find_page_index (heap_of s) (unat object_start) of
             None \<Rightarrow> None
           | Some page \<Rightarrow>
               if page_single_obj_p (heap_of s) page then pin_large_object object_start page s
               else if hopscotch_containsp (pinned_objects s) object then Some (Inr s)
               else option_rbind (insert_pin e object s) (\<lambda>s.
                      let s = map_gc (pin_page_part page object) s
                      in if widetag_of h object_start = CODE_HEADER_WIDETAG \<and> h (object_start + 16) \<noteq> 0
                         then pin_simple_funs e (simple_funs h object_start) s
                         else Some (Inr s)))"

text \<open>Whether an object on a page of the table is pinned, and whether it has to be transported.\<close>

definition pinned_p :: "compactor \<Rightarrow> lispobj \<Rightarrow> nat \<Rightarrow> bool" where
  "pinned_p s obj page \<longleftrightarrow>
     (let pins = gc_page_pins (heap_of s) page in
      \<not> page_single_obj_p (heap_of s) page \<and> pins \<noteq> 0 \<and>
      bit pins (unat obj mod GENCGC_PAGE_BYTES div (GENCGC_PAGE_BYTES div 8)) \<and>
      hopscotch_containsp (pinned_objects s) obj)"

text \<open>The entry before the table's first has a generation that no page has.\<close>

definition from_space_p :: "compactor \<Rightarrow> lispobj \<Rightarrow> bool" where
  "from_space_p s obj \<longleftrightarrow>
     (case find_page_index (heap_of s) (unat obj) of
        None \<Rightarrow> False
      | Some page \<Rightarrow> pgen (page_table (heap_of s) page) = from_space (heap_of s) \<and> \<not> pinned_p s obj page)"

section \<open>Sticky card marks\<close>

definition STICKY_MARK :: u8 where "STICKY_MARK = 2"

definition stick_card :: "nat \<Rightarrow> gc \<Rightarrow> gc" where
  "stick_card i g =
     (if gc_card_mark g i = CARD_MARKED then g\<lparr>gc_card_mark := (gc_card_mark g)(i := STICKY_MARK)\<rparr> else g)"

partial_function (option) stick_pages :: "nat \<Rightarrow> gc \<Rightarrow> gc option" where
  "stick_pages page g =
     (let first = page_to_card_index g page;
          g = fold (\<lambda>i. stick_card (first + i)) [0..<CARDS_PER_PAGE] g
      in if page_ends_contiguous_block_p g page then Some g else stick_pages (page + 1) g)"

definition impart_mark_stickiness :: "uword \<Rightarrow> gc \<Rightarrow> gc option" where
  "impart_mark_stickiness word g =
     (case find_page_index g (unat word) of
        None \<Rightarrow> Some g
      | Some page \<Rightarrow>
          if page_boxed_p g page \<and> unat word mod GENCGC_PAGE_BYTES < page_bytes_used g page \<and>
             pgen (page_table g page) \<noteq> 0 \<and> lowtag_ok_for_page_type word (ptype (page_table g page)) \<and>
             plausible_tag_p (memory g) word
          then if lowtag_of word = OTHER_POINTER_LOWTAG \<and>
                  widetag_of (memory g) (native_pointer word) = SIMPLE_VECTOR_WIDETAG
               then stick_pages page g
               else Some (stick_card (addr_to_card_index g (unat word)) g)
          else Some g)"

section \<open>Objects in the immobile spaces\<close>

definition immobile_space_p :: "pin_env \<Rightarrow> lispobj \<Rightarrow> bool" where
  "immobile_space_p e obj \<longleftrightarrow>
     (let offset = obj - immobile_space_lower_bound e in
      offset < immobile_space_max_offset e \<and>
      \<not> (immobile_range_1_max_offset e \<le> offset \<and> offset < immobile_range_2_min_offset e))"

definition properly_tagged_p_internal :: "heap \<Rightarrow> lispobj \<Rightarrow> uword \<Rightarrow> bool" where
  "properly_tagged_p_internal h pointer base \<longleftrightarrow>
     (let word = h base in
      if \<not> is_header widetag_lowtag word then make_lispobj base LIST_POINTER_LOWTAG = pointer
      else
        let widetag = header_widetag word; lowtag = LOWTAG_FOR_WIDETAG widetag
        in lowtag \<noteq> 0 \<and> make_lispobj base lowtag = pointer \<or>
           widetag = CODE_HEADER_WIDETAG \<and> h (base + 16) \<noteq> 0 \<and> functionp pointer \<and>
           (let potential_fun = pointer - FUN_POINTER_LOWTAG
            in widetag_of h potential_fun = SIMPLE_FUN_WIDETAG \<and>
               simple_fun_index (map unat (simple_funs h base)) (unat potential_fun) \<ge> 0))"

definition properly_tagged_descriptor_p :: "heap \<Rightarrow> lispobj \<Rightarrow> uword \<Rightarrow> bool" where
  "properly_tagged_descriptor_p h pointer base \<longleftrightarrow>
     is_lisp_pointer pointer \<and> properly_tagged_p_internal h pointer base"

text \<open>The code object around \<open>ptr\<close>, 0 for none.\<close>

definition search_immobile_code :: "pin_env \<Rightarrow> heap \<Rightarrow> uword \<Rightarrow> uword option" where
  "search_immobile_code e h ptr =
     (let start = TEXT_SPACE_START (marking e);
          check = (\<lambda>candidate.
            if candidate \<noteq> 0 \<and> widetag_of h candidate = CODE_HEADER_WIDETAG \<and>
               ptr < candidate + 8 * code_total_nwords h candidate
            then candidate else 0)
      in if ptr < start then Some 0
         else if ptr < tlsf_mem_start e
         then let index = bsearch_lesseql_uint32 (ucast (ptr - start)) (loaded_codeblob_offsets e)
              in Some (if index \<ge> 0 then check (start + ucast (loaded_codeblob_offsets e ! nat index)) else 0)
         else if ptr < text_space_highwatermark e
         then map_option check (codeblob_at_most e (immobile_codeblob_tree e) ptr)
         else Some 0)"

definition IMMOBILE_OBJ_VISITED_FLAG :: u8 where "IMMOBILE_OBJ_VISITED_FLAG = 0x10"
definition OBJ_WRITTEN_FLAG :: u8 where "OBJ_WRITTEN_FLAG = 0x40"
definition WRITE_PROTECT_CLEARED :: u8 where "WRITE_PROTECT_CLEARED = 0x40"
definition QCAPACITY :: nat where "QCAPACITY = 1024"

text \<open>The generation is byte 3 of the header; its upper three bits stay.\<close>

definition assign_generation :: "uword \<Rightarrow> u8 \<Rightarrow> heap \<Rightarrow> heap" where
  "assign_generation obj gen h =
     h(obj := (h obj AND NOT (push_bit 24 0xFF)) OR
         push_bit 24 (ucast ((ucast (drop_bit 24 (h obj)) AND 0xE0) OR gen)))"

definition enqueue_immobile :: "uword \<Rightarrow> compactor \<Rightarrow> compactor" where
  "enqueue_immobile ptr s =
     (if immobile_scav_queue_count s > QCAPACITY then s
      else
        let s = (if immobile_scav_queue_count s < QCAPACITY
                 then s\<lparr>immobile_scav_queue := (immobile_scav_queue s)(immobile_scav_queue_head s := ptr),
                        immobile_scav_queue_head := (immobile_scav_queue_head s + 1) mod QCAPACITY\<rparr>
                 else s)
        in s\<lparr>immobile_scav_queue_count := immobile_scav_queue_count s + 1\<rparr>)"

definition touch_immobile_page :: "bool \<Rightarrow> int \<Rightarrow> compactor \<Rightarrow> compactor" where
  "touch_immobile_page is_text page_index s =
     (if is_text then s\<lparr>text_page_touched := (text_page_touched s)(page_index := True)\<rparr>
      else s\<lparr>fixedobj_flags := (fixedobj_flags s)(page_index :=
                (fixedobj_flags s page_index AND 0x3F) OR WRITE_PROTECT_CLEARED)\<rparr>)"

definition enliven_immobile_obj :: "pin_env \<Rightarrow> uword \<Rightarrow> bool \<Rightarrow> compactor \<Rightarrow> compactor result" where
  "enliven_immobile_obj e ptr rescan s =
     (let h = memory (heap_of s); tag = widetag_of h ptr; gen = of_int (new_space s) :: u8 in
      gc_assert (tag \<noteq> SIMPLE_FUN_WIDETAG)
     (gc_assert (tag \<noteq> FILLER_WIDETAG)
     (gc_assert (uint (immobile_obj_gen_bits h ptr) = from_space (heap_of s))
       (let pointerish = \<not> leaf_obj_widetag_p tag;
            bits = (if pointerish then 0 else IMMOBILE_OBJ_VISITED_FLAG);
            bits = (if tag = CODE_HEADER_WIDETAG then bits OR OBJ_WRITTEN_FLAG else bits);
            s = map_gc (\<lambda>g. g\<lparr>memory := assign_generation ptr (bits OR gen) (memory g)\<rparr>) s;
            fixed = find_fixedobj_page_index (marking e) ptr;
            is_text = fixed < 0;
            page_index = (if is_text then find_text_page_index (marking e) ptr else fixed);
            bit = push_bit (nat (new_space s)) 1
        in gc_assert (0 \<le> page_index)
             (let s = (if is_text
                       then s\<lparr>text_page_genmask := (text_page_genmask s)(page_index := text_page_genmask s page_index OR bit)\<rparr>
                       else s\<lparr>fixedobj_gens := (fixedobj_gens s)(page_index := fixedobj_gens s page_index OR bit)\<rparr>)
              in Inr (if \<not> rescan then if pointerish then touch_immobile_page is_text page_index s else s
                      else if pointerish then enqueue_immobile ptr s else s))))))"

text \<open>The object and whether the pointer to it is a good one. The objects on a fixed-object page in use have
  an alignment.\<close>

definition immobile_object_of :: "pin_env \<Rightarrow> compactor \<Rightarrow> uword \<Rightarrow> (uword \<times> bool) option" where
  "immobile_object_of e s addr =
     (let h = memory (heap_of s);
          page_index = find_fixedobj_page_index (marking e) addr;
          genmask = (if compacting_p s then push_bit (nat (from_space (heap_of s))) 1 else 0xFF)
      in if 0 \<le> page_index \<and> fixedobj_gens s page_index AND genmask \<noteq> 0
         then let obj_spacing = 8 * ucast (fixedobj_obj_align e (nat page_index)) :: uword;
                  obj_index = (addr AND (IMMOBILE_CARD_BYTES - 1)) div obj_spacing;
                  object_start = (addr AND NOT (IMMOBILE_CARD_BYTES - 1)) + obj_index * obj_spacing
              in Some (object_start, \<not> fixnump (h object_start) \<and> properly_tagged_descriptor_p h addr object_start)
         else if compacting_p s \<and> addr < tlsf_mem_start e then Some (0, False)
         else map_option (\<lambda>object_start. (object_start, object_start \<noteq> 0 \<and>
                (instruction_ptr_p h addr object_start \<or> properly_tagged_descriptor_p h addr object_start)))
              (search_immobile_code e h addr))"

definition immobile_space_preserve_pointer ::
    "pin_env \<Rightarrow> uword \<Rightarrow> compactor \<Rightarrow> (bool \<times> compactor) result option" where
  "immobile_space_preserve_pointer e addr s =
     Option.bind (immobile_object_of e s addr) (\<lambda>(object_start, valid).
       let h = memory (heap_of s) in
       Some (if valid \<and> (\<not> compacting_p s \<or> uint (immobile_obj_gen_bits h object_start) = from_space (heap_of s))
             then rbind (if compacting_p s then enliven_immobile_obj e object_start False s
                         else mark_in (gc_mark_obj (marking e) (compute_lispobj widetag_lowtag h object_start)) s)
                    (\<lambda>s. Inr (True, s))
             else Inr (False, s)))"

definition preserve_immobile :: "pin_env \<Rightarrow> uword \<Rightarrow> compactor \<Rightarrow> compactor result option" where
  "preserve_immobile e addr s =
     (if immobile_space_p e addr
      then option_rbind (immobile_space_preserve_pointer e addr s) (\<lambda>(_, s). Some (Inr s))
      else Some (Inr s))"

section \<open>Words on stacks and in registers\<close>

definition context_word :: "gc \<Rightarrow> bool \<Rightarrow> uword \<Rightarrow> nat \<Rightarrow> uword" where
  "context_word g contextp word page =
     (if contextp \<and> lowtag_of word = 0 \<and>
         ptype (page_table g page) \<in> {PAGE_TYPE_MIXED, PAGE_TYPE_SMALL_MIXED} \<and>
         widetag_of (memory g) word = INSTANCE_WIDETAG
      then word OR INSTANCE_POINTER_LOWTAG else word)"

definition preserve_pointer :: "pin_env \<Rightarrow> uword \<Rightarrow> bool \<Rightarrow> compactor \<Rightarrow> compactor result option" where
  "preserve_pointer e word contextp s =
     (case find_page_index (heap_of s) (unat word) of
        None \<Rightarrow> preserve_immobile e word s
      | Some page \<Rightarrow>
          let word = context_word (heap_of s) contextp word page
          in option_rbind (conservative_root_p e s word page) (\<lambda>object.
               if object = 0 then Some (Inr s)
               else if object \<noteq> AMBIGUOUS_POINTER then pin_object e object s
               else if compacting_p s then
                 if hopscotch_containsp (pinned_objects s) word then Some (Inr s)
                 else option_rbind (insert_pin e word s) (\<lambda>s. Some (Inr (map_gc (pin_page_part page word) s)))
               else option_rbind (search_dynamic_space e (heap_of s) word) (\<lambda>found.
                 case found of
                   None \<Rightarrow> Some (Inr s)
                 | Some start \<Rightarrow> Some (mark_in (gc_mark_obj (marking e)
                     (compute_lispobj widetag_lowtag (memory (heap_of s)) (of_nat start))) s))))"

definition sticky_preserve_pointer :: "pin_env \<Rightarrow> uword \<Rightarrow> bool \<Rightarrow> compactor \<Rightarrow> compactor result option" where
  "sticky_preserve_pointer e word contextp s =
     (if is_lisp_pointer word
      then Option.bind (impart_mark_stickiness word (heap_of s)) (\<lambda>g. preserve_pointer e word contextp (map_gc (\<lambda>_. g) s))
      else preserve_pointer e word contextp s)"

definition pin_exact_root :: "pin_env \<Rightarrow> lispobj \<Rightarrow> compactor \<Rightarrow> compactor result option" where
  "pin_exact_root e obj s =
     (if \<not> is_lisp_pointer obj \<or> \<not> compacting_p s then Some (Inr s)
      else case find_page_index (heap_of s) (unat obj) of
        None \<Rightarrow> preserve_immobile e obj s
      | Some page \<Rightarrow>
          if immune_set_memberp s page then Some (Inr s)
          else let h = memory (heap_of s); object_start = native_pointer obj
               in pin_object e (if widetag_of h object_start = SIMPLE_FUN_WIDETAG
                                then make_lispobj (fun_code_header h object_start) OTHER_POINTER_LOWTAG
                                else obj) s)"

end
