(* ===== verification/PinFilter.thy ===== *)
theory PinFilter
  imports PinRoots SweepLayout Allocator HopscotchMap
begin

text \<open>
  The filter of the ambiguous roots (\<open>gencgc.c\<close>): the keys of the set of pinned objects are sorted, the
  heap is walked from the scan starts of their pages, and a key stays if it is where an object begins.
\<close>

unbundle bit_operations_syntax

section \<open>Code\<close>

definition SMALL_MAX_PINS :: nat where "SMALL_MAX_PINS = 200"

definition pin_keys :: "hopscotch_table \<Rightarrow> lispobj list" where
  "pin_keys ht = filter (\<lambda>key. key \<noteq> 0) (map (\<lambda>i. ht_keys ht ! i) (rev [0..<Suc (hopscotch_max_key_index ht)]))"

definition base_pins :: "heap \<Rightarrow> lispobj list \<Rightarrow> lispobj list result" where
  "base_pins h keys =
     gc_assert (list_all is_lisp_pointer keys)
       (Inr (filter (\<lambda>key. listp key \<or> widetag_of h (native_pointer key) \<noteq> SIMPLE_FUN_WIDETAG) keys))"

text \<open>Where the scan stops: at \<open>key\<close> or past it.\<close>

partial_function (option) seek_pin :: "heap \<Rightarrow> uword \<Rightarrow> uword \<Rightarrow> uword result option" where
  "seek_pin h key wh =
     (if wh < key then case object_size h wh of Inl x \<Rightarrow> Some (Inl x) | Inr n \<Rightarrow> seek_pin h key (wh + 8 * n)
      else Some (Inr wh))"

fun filter_pins :: "gc \<Rightarrow> lispobj list \<Rightarrow> uword \<Rightarrow> uword \<Rightarrow> lispobj list result option" where
  "filter_pins g [] wh previous_scan_start = Some (Inr [])"
| "filter_pins g (pin # pins) wh previous_scan_start =
     (let key = native_pointer pin in
      case find_page_index g (unat key) of
        None \<Rightarrow> None
      | Some page \<Rightarrow>
          let scan_start = of_nat (page_scan_start g page)
          in option_rbind (seek_pin (memory g) key (if scan_start \<noteq> previous_scan_start then scan_start else wh))
               (\<lambda>wh. option_rbind (filter_pins g pins wh scan_start)
                 (\<lambda>rest. Some (Inr ((if wh = key then pin else 0) # rest)))))"

definition refine_ambiguous_roots :: "compactor \<Rightarrow> compactor result option" where
  "refine_ambiguous_roots s =
     (let pre_deletion_count = ht_count (pinned_objects s) in
      if pre_deletion_count = 0 then Some (Inr (s\<lparr>gc_filtered_pins := []\<rparr>))
      else
        let s = (if pre_deletion_count < SMALL_MAX_PINS then s
                 else s\<lparr>pins_alloc_size := ((pre_deletion_count + 1) * N_WORD_BYTES + (GENCGC_PAGE_BYTES - 1))
                          div GENCGC_PAGE_BYTES * GENCGC_PAGE_BYTES\<rparr>)
        in option_rbind (Some (base_pins (memory (heap_of s)) (pin_keys (pinned_objects s)))) (\<lambda>workspace.
           option_rbind (filter_pins (heap_of s) (gc_heapsort_uwords workspace (length workspace)) 0 0) (\<lambda>workspace.
           let kept = filter (\<lambda>key. key \<noteq> 0) workspace
           in Some (gc_assert (list_ex (\<lambda>key. key = 0) workspace \<longrightarrow> length kept < length workspace)
                (Inr (s\<lparr>gc_filtered_pins := kept\<rparr>))))))"

section \<open>Walks\<close>

text \<open>Objects of a size that the collector can tell fill the words from \<open>a\<close> to \<open>limit\<close>.\<close>

definition sized :: "heap \<Rightarrow> uword \<times> uword \<Rightarrow> bool" where
  "sized h = (\<lambda>(a, n). object_size h a = Inr n)"

definition walk :: "heap \<Rightarrow> uword \<Rightarrow> uword \<Rightarrow> (uword \<times> uword) list \<Rightarrow> bool" where
  "walk h limit a objs \<longleftrightarrow> laid_out h limit a objs \<and> list_all (sized h) objs"

lemma walk_Nil [simp]: "walk h limit a [] \<longleftrightarrow> a = limit"
  by (auto simp: walk_def intro: laid_out.intros elim: laid_out.cases)

lemma walk_Cons:
  "walk h limit a (ob # objs) \<longleftrightarrow> (\<exists>n. ob = (a, n) \<and> object_words h a = Inr n \<and> object_size h a = Inr n \<and>
     whole_pairs n \<and> unat a + 8 * unat n \<le> unat limit \<and> walk h limit (a + 8 * n) objs)"
  by (auto simp: walk_def sized_def intro: laid_out.intros elim: laid_out.cases)

lemma walk_range:
  assumes "walk h limit a objs"
  shows "unat a \<le> unat limit" "(b, n) \<in> set objs \<Longrightarrow> unat a \<le> unat b \<and> unat b + 8 * unat n \<le> unat limit"
  using laid_out_range[of h limit a objs] assms by (auto simp: walk_def)

lemma walk_append:
  "walk h mid a xs \<Longrightarrow> walk h limit mid ys \<Longrightarrow> walk h limit a (xs @ ys)"
  by (auto simp: walk_def intro: laid_out_append)

text \<open>An object begins at \<open>key\<close>, if \<open>key\<close> is in a range that objects fill from \<open>start\<close> on.\<close>

definition boundary :: "heap \<Rightarrow> uword \<Rightarrow> uword \<Rightarrow> bool" where
  "boundary h start key \<longleftrightarrow> (\<exists>objs. walk h key start objs)"

lemma walk_prefix:
  assumes "walk h limit a objs" "walk h v a xs" "v \<le> limit"
  shows "\<exists>ys. objs = xs @ ys \<and> walk h limit v ys"
  using assms
proof (induction xs arbitrary: a objs)
  case (Cons ob xs)
  then obtain n where n: "ob = (a, n)" "object_words h a = Inr n" "whole_pairs n" "walk h v (a + 8 * n) xs"
    "unat a + 8 * unat n \<le> unat v" by (auto simp: walk_Cons)
  have "a \<noteq> limit"
  proof
    assume "a = limit"
    then have "unat v \<le> unat a" using Cons.prems(3) by (simp add: word_le_nat_alt)
    then show False using n(5) whole_pairs_words(3)[OF n(3)] by simp
  qed
  then obtain ob' objs' where o: "objs = ob' # objs'" using Cons.prems(1) by (cases objs) auto
  then have "ob' = ob" "walk h limit (a + 8 * n) objs'" using Cons.prems(1) n by (auto simp: walk_Cons)
  then show ?case using Cons.IH[of "a + 8 * n" objs'] n Cons.prems(3) o by auto
qed auto

lemma boundary_refl [simp]: "boundary h a a"
  by (auto simp: boundary_def intro!: exI[of _ "[]"])

lemma boundary_le: "boundary h a v \<Longrightarrow> a \<le> v"
  by (auto simp: boundary_def word_le_nat_alt dest: walk_range)

lemma boundary_trans: "boundary h a b \<Longrightarrow> boundary h b c \<Longrightarrow> boundary h a c"
  unfolding boundary_def by (blast intro: walk_append)

lemma boundary_from:
  assumes "boundary h a v" "boundary h a w" "w \<le> v"
  shows "boundary h w v"
  using assms walk_prefix unfolding boundary_def by blast

lemma boundary_next:
  assumes "boundary h a v" "a < v"
  shows "\<exists>n. object_size h a = Inr n \<and> boundary h (a + 8 * n) v \<and> boundary h a (a + 8 * n) \<and> a < a + 8 * n \<and>
    (\<forall>u. boundary h a u \<and> a < u \<longrightarrow> a + 8 * n \<le> u)"
proof -
  obtain objs where o: "walk h v a objs" using assms(1) by (auto simp: boundary_def)
  then obtain ob objs' where c: "objs = ob # objs'" using assms(2) by (cases objs) auto
  then obtain n where n: "object_words h a = Inr n" "object_size h a = Inr n" "whole_pairs n"
    "unat a + 8 * unat n \<le> unat v" "walk h v (a + 8 * n) objs'" using o by (auto simp: walk_Cons)
  have "unat (a + 8 * n) = unat a + 8 * unat n" using unat_next[OF n(4), of "unat n"] by simp
  then have "walk h (a + 8 * n) a [(a, n)]" and "a < a + 8 * n"
    using n whole_pairs_words(3)[OF n(3)] by (simp_all add: walk_Cons word_less_nat_alt)
  moreover have "a + 8 * n \<le> u" if "boundary h a u" "a < u" for u
  proof -
    obtain us where us: "walk h u a us" using \<open>boundary h a u\<close> by (auto simp: boundary_def)
    then obtain u1 us' where "us = u1 # us'" using \<open>a < u\<close> by (cases us) auto
    then have "walk h u (a + 8 * n) us'" using us n(1) by (auto simp: walk_Cons)
    then show ?thesis by (auto simp: word_le_nat_alt dest: walk_range)
  qed
  ultimately show ?thesis using n(2,5) unfolding boundary_def by (intro exI[of _ n]) blast
qed

text \<open>The scan goes on to the first boundary that is not before the key.\<close>

definition first_boundary :: "heap \<Rightarrow> uword \<Rightarrow> uword \<Rightarrow> uword \<Rightarrow> bool" where
  "first_boundary h start key w \<longleftrightarrow>
     boundary h start w \<and> key \<le> w \<and> (\<forall>v. boundary h start v \<and> key \<le> v \<longrightarrow> w \<le> v)"

lemma seek_pin_walk:
  assumes "boundary h wh limit" and "key \<le> limit"
  shows "\<exists>w. seek_pin h key wh = Some (Inr w) \<and> (if wh < key then first_boundary h wh key w else w = wh)"
  using assms(1)
proof (induction "unat limit - unat wh" arbitrary: wh rule: less_induct)
  case less
  show ?case
  proof (cases "wh < key")
    case True
    then have lt: "wh < limit" using assms(2) by simp
    obtain n where n: "object_size h wh = Inr n" "boundary h (wh + 8 * n) limit" "wh < wh + 8 * n"
      "\<forall>u. boundary h wh u \<and> wh < u \<longrightarrow> wh + 8 * n \<le> u" "boundary h wh (wh + 8 * n)"
      using boundary_next[OF less.prems lt] by blast
    have "unat limit - unat (wh + 8 * n) < unat limit - unat wh"
      using n(3) lt by (simp add: word_less_nat_alt)
    from less.hyps[OF this n(2)] obtain w where w: "seek_pin h key (wh + 8 * n) = Some (Inr w)"
      "if wh + 8 * n < key then first_boundary h (wh + 8 * n) key w else w = wh + 8 * n" by blast
    have "seek_pin h key wh = Some (Inr w)" using True n(1) w(1) by (subst seek_pin.simps) simp
    moreover have "first_boundary h wh key w"
    proof (cases "wh + 8 * n < key")
      case True
      then have f: "first_boundary h (wh + 8 * n) key w" using w(2) by simp
      have "w \<le> v" if v: "boundary h wh v" "key \<le> v" for v
      proof -
        have "boundary h (wh + 8 * n) v" using boundary_from[OF v(1) n(5)] True v(2) by simp
        then show ?thesis using f v(2) by (simp add: first_boundary_def)
      qed
      then show ?thesis using f boundary_trans[OF n(5)] by (auto simp: first_boundary_def)
    next
      case False
      have "wh < v" if "key \<le> v" for v using True that \<open>wh < key\<close> by simp
      then show ?thesis using False w(2) n(4,5) by (auto simp: first_boundary_def)
    qed
    ultimately show ?thesis using True by simp
  next
    case False
    then show ?thesis by (subst seek_pin.simps) simp
  qed
qed

section \<open>The filter\<close>

lemma native_pointer_unat: "unat (native_pointer p) = unat p div 16 * 16"
proof -
  have m: "LOWTAG_MASK = mask 4" by (simp add: LOWTAG_MASK_def mask_eq_exp_minus_1)
  have "native_pointer p = push_bit 4 (drop_bit 4 p)"
    by (rule bit_word_eqI) (auto simp: native_pointer_def m bit_simps)
  also have "unat \<dots> = unat p div 16 * 16"
  proof -
    have "unat p div 16 * 16 < 2 ^ 64" using unsigned_less[of p, where 'a = nat] by simp
    then show ?thesis by (simp add: push_bit_eq_mult drop_bit_eq_div unat_word_ariths unat_div_distrib mult.commute)
  qed
  finally show ?thesis .
qed

lemma native_pointer_mono: "x \<le> y \<Longrightarrow> native_pointer x \<le> native_pointer y"
  by (simp add: word_le_nat_alt native_pointer_unat div_le_mono mult_right_mono)

text \<open>The page of a key, where its walk starts, and a key that lies in a range of objects from there on.\<close>

definition walk_start :: "gc \<Rightarrow> lispobj \<Rightarrow> uword" where
  "walk_start g pin = of_nat (page_scan_start g (the (find_page_index g (unat (native_pointer pin)))))"

definition walked :: "gc \<Rightarrow> lispobj \<Rightarrow> bool" where
  "walked g pin \<longleftrightarrow> find_page_index g (unat (native_pointer pin)) \<noteq> None \<and> walk_start g pin \<noteq> 0 \<and>
     walk_start g pin \<le> native_pointer pin \<and>
     (\<exists>limit. boundary (memory g) (walk_start g pin) limit \<and> native_pointer pin < limit)"

definition object_begins :: "gc \<Rightarrow> lispobj \<Rightarrow> bool" where
  "object_begins g pin \<longleftrightarrow> boundary (memory g) (walk_start g pin) (native_pointer pin)"

lemma first_boundary_key:
  "first_boundary h start key w \<Longrightarrow> w = key \<longleftrightarrow> boundary h start key"
  by (force simp: first_boundary_def)

lemma filter_pins_correct:
  assumes "list_all (walked g) pins" and "sorted_wrt (\<lambda>x y. native_pointer x \<le> native_pointer y) pins"
    and "prev = 0 \<or> (\<exists>k. first_boundary (memory g) prev k wh \<and> (\<forall>pin \<in> set pins. k \<le> native_pointer pin))"
  shows "filter_pins g pins wh prev = Some (Inr (map (\<lambda>pin. if object_begins g pin then pin else 0) pins))"
  using assms
proof (induction pins arbitrary: wh prev)
  case (Cons pin pins)
  let ?h = "memory g" and ?key = "native_pointer pin" and ?S = "walk_start g pin"
  obtain page limit where p: "find_page_index g (unat ?key) = Some page" "?S \<noteq> 0" "?S \<le> ?key"
    "boundary ?h ?S limit" "?key < limit" using Cons.prems(1) by (auto simp: walked_def)
  define st where "st = (if ?S \<noteq> prev then ?S else wh)"
  have "\<exists>w. seek_pin ?h ?key st = Some (Inr w) \<and> first_boundary ?h ?S ?key w"
  proof (cases "?S = prev")
    case True
    then obtain k where k: "first_boundary ?h ?S k wh" "k \<le> ?key" using Cons.prems(3) p(2) by auto
    have "wh \<le> limit" using k p(4,5) by (auto simp: first_boundary_def)
    then have b: "boundary ?h wh limit" using boundary_from[OF p(4)] k(1) by (simp add: first_boundary_def)
    obtain w where w: "seek_pin ?h ?key wh = Some (Inr w)" "if wh < ?key then first_boundary ?h wh ?key w else w = wh"
      using seek_pin_walk[OF b, of ?key] p(5) less_imp_le by blast
    have "first_boundary ?h ?S ?key w"
    proof (cases "wh < ?key")
      case True
      then have "first_boundary ?h wh ?key w" using w(2) by simp
      then show ?thesis using k boundary_trans[of ?h ?S wh w] boundary_from[of ?h ?S _ wh] True
        by (auto simp: first_boundary_def)
    next
      case False
      then show ?thesis using w(2) k by (auto simp: first_boundary_def)
    qed
    then show ?thesis using w(1) True by (simp add: st_def)
  next
    case False
    obtain w where "seek_pin ?h ?key ?S = Some (Inr w)" "if ?S < ?key then first_boundary ?h ?S ?key w else w = ?S"
      using seek_pin_walk[OF p(4), of ?key] p(5) less_imp_le by blast
    then show ?thesis using False p(3) by (auto simp: st_def first_boundary_def split: if_splits intro: boundary_le)
  qed
  then obtain w where w: "seek_pin ?h ?key st = Some (Inr w)" "first_boundary ?h ?S ?key w" by blast
  have rest: "filter_pins g pins w ?S = Some (Inr (map (\<lambda>pin. if object_begins g pin then pin else 0) pins))"
    using Cons.prems w(2) by (intro Cons.IH) auto
  have S: "of_nat (page_scan_start g page) = ?S" by (simp add: walk_start_def p(1))
  show ?case
    using p(1) w(1) rest first_boundary_key[OF w(2)]
    by (simp add: Let_def S option_rbind_def object_begins_def st_def[symmetric])
qed simp

lemma distinct_nonzero:
  assumes "\<And>p q. p < length ks \<Longrightarrow> q < length ks \<Longrightarrow> ks ! p \<noteq> (0 :: uword) \<Longrightarrow> ks ! p = ks ! q \<Longrightarrow> p = q"
  shows "distinct (filter (\<lambda>key. key \<noteq> 0) ks)"
  using assms
proof (induction ks)
  case (Cons k ks)
  have "distinct (filter (\<lambda>key. key \<noteq> 0) ks)"
    using Cons.prems[of "Suc _" "Suc _"] by (intro Cons.IH) auto
  moreover have "k \<notin> set ks" if "k \<noteq> 0"
    using Cons.prems[of 0 "Suc _"] that by (fastforce simp: in_set_conv_nth)
  ultimately show ?case by auto
qed simp

lemma pin_keys_hs:
  assumes "hs_inv ht"
  shows "set (pin_keys ht) = hs_keys ht" "distinct (pin_keys ht)"
proof -
  note L = hs_invD(1)[OF assms]
  have n: "Suc (hopscotch_max_key_index ht) = length (ht_keys ht)"
    using layoutD(2,3)[OF L] by (simp add: hopscotch_max_key_index_def table_size_def)
  have k: "map (\<lambda>i. ht_keys ht ! i) (rev [0..<Suc (hopscotch_max_key_index ht)]) = rev (ht_keys ht)"
    unfolding n by (simp add: rev_map[symmetric] map_nth)
  show "set (pin_keys ht) = hs_keys ht" unfolding pin_keys_def k by (auto simp: hs_keys_def)
  have "distinct (filter (\<lambda>key. key \<noteq> 0) (ht_keys ht))"
    using layoutD(9)[OF L] by (intro distinct_nonzero) blast
  then show "distinct (pin_keys ht)" unfolding pin_keys_def k by (simp add: rev_filter[symmetric])
qed

text \<open>Sorting all of a list, and leaving out what has become 0.\<close>

lemma heapsort_whole:
  fixes keys :: "uword list"
  shows "sorted (gc_heapsort_uwords keys (length keys))" "set (gc_heapsort_uwords keys (length keys)) = set keys"
    "distinct (gc_heapsort_uwords keys (length keys)) = distinct keys"
proof -
  let ?ws = "gc_heapsort_uwords keys (length keys)"
  have sort: "sorted (take (length keys) ?ws)" "mset (take (length keys) ?ws) = mset (take (length keys) keys)"
    "drop (length keys) ?ws = drop (length keys) keys"
    using gc_heapsort_sorts[of "length keys" keys] by blast+
  then have t: "take (length keys) ?ws = ?ws" by simp
  have m: "mset ?ws = mset keys" using sort(2) unfolding t by simp
  show "sorted ?ws" "set ?ws = set keys" "distinct ?ws = distinct keys"
    using sort(1) mset_eq_setD[OF m] mset_eq_imp_distinct_iff[OF m] unfolding t by simp_all
qed

lemma zeros_dropped:
  fixes ws :: "uword list"
  assumes nz: "\<And>pin. pin \<in> set ws \<Longrightarrow> pin \<noteq> 0"
  shows "filter (\<lambda>key. key \<noteq> 0) (map (\<lambda>pin. if P pin then pin else 0) ws) = filter P ws"
    "list_ex (\<lambda>key. key = 0) (map (\<lambda>pin. if P pin then pin else 0) ws) \<Longrightarrow> length (filter P ws) < length ws"
proof -
  show "filter (\<lambda>key. key \<noteq> 0) (map (\<lambda>pin. if P pin then pin else 0) ws) = filter P ws"
    using nz by (induction ws) auto
  assume ex: "list_ex (\<lambda>key. key = 0) (map (\<lambda>pin. if P pin then pin else 0) ws)"
  obtain x where "x \<in> set ws" "\<not> P x" using ex nz by (force simp: list_ex_iff split: if_splits)
  then show "length (filter P ws) < length ws" by (rule length_filter_less)
qed

text \<open>C10: The filter of the ambiguous roots keeps the real objects: if every key in the set of pinned objects is a tagged
  pointer into a range of objects that begins at the scan start of its page, no assertion fails, and the filtered pins are,
  in ascending order and without repetition, the keys at which an object begins, less those of simple functions, which
  are inside their code; nothing of the heap or of the set changes.\<close>

theorem refine_ambiguous_roots_correct:
  assumes "hs_inv (pinned_objects s)"
    and "\<forall>pin \<in> hs_keys (pinned_objects s). is_lisp_pointer pin \<and> walked (heap_of s) pin"
  shows "\<exists>s'. refine_ambiguous_roots s = Some (Inr s') \<and> marked s' = marked s \<and> pinned_objects s' = pinned_objects s \<and>
    sorted (gc_filtered_pins s') \<and> distinct (gc_filtered_pins s') \<and>
    set (gc_filtered_pins s') = {pin \<in> hs_keys (pinned_objects s). object_begins (heap_of s) pin \<and>
      (listp pin \<or> widetag_of (memory (heap_of s)) (native_pointer pin) \<noteq> SIMPLE_FUN_WIDETAG)}"
proof (cases "ht_count (pinned_objects s) = 0")
  case True
  have "finite (hs_keys (pinned_objects s))" by (simp add: hs_keys_def)
  then have "hs_keys (pinned_objects s) = {}" using True hs_invD(7)[OF assms(1)] by simp
  then show ?thesis using True
    by (intro exI[of _ "s\<lparr>gc_filtered_pins := []\<rparr>"]) (simp add: refine_ambiguous_roots_def)
next
  case False
  let ?g = "heap_of s" and ?ht = "pinned_objects s"
  let ?own = "\<lambda>key. listp key \<or> widetag_of (memory ?g) (native_pointer key) \<noteq> SIMPLE_FUN_WIDETAG"
  note K = pin_keys_hs[OF assms(1)]
  define keys where "keys = filter ?own (pin_keys ?ht)"
  define ws where "ws = gc_heapsort_uwords keys (length keys)"
  have ws: "sorted ws" and set: "set ws = set keys" and dist: "distinct ws"
    using heapsort_whole[of keys] K(2) by (simp_all add: ws_def keys_def)
  have base: "base_pins (memory ?g) (pin_keys ?ht) = Inr keys"
    using assms(2) K(1) by (simp add: base_pins_def keys_def gc_assert_def list_all_iff)
  let ?pins = "filter (object_begins ?g) ws"
  have nz: "pin \<noteq> 0" if "pin \<in> set ws" for pin using that K(1) by (auto simp: set keys_def hs_keys_def)
  have "list_all (walked ?g) ws" using assms(2) K(1) by (auto simp: list_all_iff set keys_def)
  moreover have "sorted_wrt (\<lambda>x y. native_pointer x \<le> native_pointer y) ws"
    using ws native_pointer_mono by (auto simp: sorted_wrt_iff_nth_less sorted_iff_nth_mono)
  ultimately have f: "filter_pins ?g ws 0 0 = Some (Inr (map (\<lambda>pin. if object_begins ?g pin then pin else 0) ws))"
    by (rule filter_pins_correct) simp
  have kept: "filter (\<lambda>key. key \<noteq> 0) (map (\<lambda>pin. if object_begins ?g pin then pin else 0) ws) = ?pins"
    and less: "list_ex (\<lambda>key. key = 0) (map (\<lambda>pin. if object_begins ?g pin then pin else 0) ws) \<Longrightarrow> length ?pins < length ws"
    using zeros_dropped[of ws "object_begins ?g"] nz by blast+
  define s1 where "s1 = (if ht_count ?ht < SMALL_MAX_PINS then s
      else s\<lparr>pins_alloc_size := ((ht_count ?ht + 1) * N_WORD_BYTES + (GENCGC_PAGE_BYTES - 1))
                          div GENCGC_PAGE_BYTES * GENCGC_PAGE_BYTES\<rparr>)"
  have s1: "marked s1 = marked s" "pinned_objects s1 = ?ht" by (simp_all add: s1_def)
  have "refine_ambiguous_roots s = Some (Inr (s1\<lparr>gc_filtered_pins := ?pins\<rparr>))"
    using False f less unfolding refine_ambiguous_roots_def Let_def s1_def[symmetric]
    by (simp add: s1 heap_of_def base[unfolded heap_of_def] option_rbind_def ws_def[symmetric] kept[unfolded heap_of_def]
        gc_assert_def)
  moreover have "set ?pins = {pin \<in> hs_keys ?ht. object_begins ?g pin \<and> ?own pin}"
    using K(1) by (auto simp: set keys_def)
  ultimately show ?thesis using ws dist by (intro exI[of _ "s1\<lparr>gc_filtered_pins := ?pins\<rparr>"]) (simp add: s1 sorted_wrt_filter)
qed

text \<open>A page in generation 1 with a filler of four words and two conses, and two keys, one to a cons and one into the
  filler.\<close>

definition pin_heap :: gc where
  "pin_heap = small_heap\<lparr>
     page_table := (page_table small_heap)(
       2 := \<lparr>scan_start_offset_w = 0, need_zerofill = False, words_used_w = 8, ptype = PAGE_TYPE_MIXED, pgen = 1\<rparr>),
     next_free_page := 3, bytes_allocated := 65600, from_space := 1,
     generations_bytes := (\<lambda>n. if n = 0 then 65536 else if n = 1 then 64 else 0),
     memory := (\<lambda>_. 0)(0x1000010000 := make_filler_header 4)\<rparr>"

definition pin_state :: "hopscotch_table \<Rightarrow> lispobj list \<Rightarrow> compactor" where
  "pin_state t pins =
     \<lparr>marked = small_marker\<lparr>gcs := pin_heap\<rparr>, codeblob_freelist = 0, text_page_genmask = (\<lambda>_. 0),
      pinned_objects = t, new_space = 2, pin_all_dynamic_space_code = False, gc_filtered_pins = pins,
      pins_alloc_size = 0, fixedobj_gens = (\<lambda>_. 0), fixedobj_flags = (\<lambda>_. 0), text_page_touched = (\<lambda>_. False),
      immobile_scav_queue = (\<lambda>_. 0), immobile_scav_queue_head = 0, immobile_scav_queue_count = 0\<rparr>"

lemma pin_heap_objects:
  "object_words (memory pin_heap) 0x1000010000 = Inr 4" "object_size (memory pin_heap) 0x1000010000 = Inr 4"
  "object_words (memory pin_heap) 0x1000010020 = Inr 2" "object_size (memory pin_heap) 0x1000010020 = Inr 2"
  "object_words (memory pin_heap) 0x1000010030 = Inr 2" "object_size (memory pin_heap) 0x1000010030 = Inr 2"
proof -
  have "memory pin_heap 0x1000010000 = make_filler_header 4" by (simp add: pin_heap_def)
  from filler_words(1,4)[of "memory pin_heap", OF this]
  show "object_words (memory pin_heap) 0x1000010000 = Inr 4" "object_size (memory pin_heap) 0x1000010000 = Inr 4"
    by simp_all
  have z: "object_words h a = Inr 2" "object_size h a = Inr 2" if "h a = 0" for h a
    using that widetag_kinds(1) by (simp_all add: object_words_def object_size_def widetag_of_def sizetab_def CONS_SIZE_def)
  show "object_words (memory pin_heap) 0x1000010020 = Inr 2" "object_size (memory pin_heap) 0x1000010020 = Inr 2"
    "object_words (memory pin_heap) 0x1000010030 = Inr 2" "object_size (memory pin_heap) 0x1000010030 = Inr 2"
    by (rule z; simp add: pin_heap_def)+
qed

lemma pin_heap_walk:
  "walk (memory pin_heap) 0x1000010040 0x1000010000 [(0x1000010000, 4), (0x1000010020, 2), (0x1000010030, 2)]"
  "walk (memory pin_heap) 0x1000010020 0x1000010000 [(0x1000010000, 4)]"
  by (simp_all add: walk_Cons pin_heap_objects whole_pairs_def)

lemma pin_heap_page:
  assumes "0x1000010000 \<le> a" "a < 0x1000018000"
  shows "find_page_index pin_heap a = Some 2"
  using assms by (simp add: find_page_index_Some page_address_def page_constants) (simp add: pin_heap_def small_heap_def)

lemma pin_heap_start: "page_scan_start pin_heap 2 = 0x1000010000"
  by (simp add: page_scan_start_def page_scan_start_offset_def page_address_def pin_heap_def small_heap_def
      page_constants SCAN_START_OFS_MAX_def)

lemma pin_heap_keys:
  "native_pointer 0x1000010027 = 0x1000010020" "native_pointer 0x1000010013 = 0x1000010010"
  "is_lisp_pointer 0x1000010027" "is_lisp_pointer 0x1000010013" "listp 0x1000010027"
  by code_simp+

lemma pin_heap_walked:
  "walk_start pin_heap 0x1000010027 = 0x1000010000" "walk_start pin_heap 0x1000010013 = 0x1000010000"
  "walked pin_heap 0x1000010027" "walked pin_heap 0x1000010013"
  "object_begins pin_heap 0x1000010027" "\<not> object_begins pin_heap 0x1000010013"
proof -
  have p: "find_page_index pin_heap 0x1000010020 = Some 2" "find_page_index pin_heap 0x1000010010 = Some 2"
    by (simp_all add: pin_heap_page)
  show w: "walk_start pin_heap 0x1000010027 = 0x1000010000" "walk_start pin_heap 0x1000010013 = 0x1000010000"
    by (simp_all add: walk_start_def pin_heap_keys p pin_heap_start)
  have b: "boundary (memory pin_heap) 0x1000010000 0x1000010040" using pin_heap_walk(1) unfolding boundary_def by blast
  show "walked pin_heap 0x1000010027" "walked pin_heap 0x1000010013"
    using b by (auto simp: walked_def w pin_heap_keys p intro!: exI[of _ "0x1000010040"])
  show "object_begins pin_heap 0x1000010027"
    using pin_heap_walk(2) by (auto simp: object_begins_def w pin_heap_keys boundary_def)
  show "\<not> object_begins pin_heap 0x1000010013"
  proof
    assume "object_begins pin_heap 0x1000010013"
    then have "boundary (memory pin_heap) 0x1000010000 0x1000010010" by (simp add: object_begins_def w pin_heap_keys)
    from boundary_next[OF this] have "boundary (memory pin_heap) 0x1000010020 0x1000010010"
      by (simp add: pin_heap_objects)
    from boundary_le[OF this] show False by simp
  qed
qed

lemma refine_ambiguous_roots_correct_witness:
  "\<exists>t s'. hs_keys t = {0x1000010027, 0x1000010013} \<and>
     refine_ambiguous_roots (pin_state t []) = Some (Inr s') \<and> gc_filtered_pins s' = [0x1000010027]"
proof -
  let ?k1 = "0x1000010027 :: uword" and ?k2 = "0x1000010013 :: uword"
  obtain t where t: "hopscotch_create address_env 1 0 8 0 = Some t"
    using pow2_create[of 1 0 address_env 3] by auto
  note C = create_inv[OF t _ _ hop_range_for_props, simplified] and D = create_SomeD[OF t]
  have "map_option snd (hopscotch_insert address_env 1 (the (hopscotch_create address_env 1 0 8 0)) ?k1 1) = Some 1"
    by code_simp
  then obtain t1 where t1: "hopscotch_insert address_env 1 t ?k1 1 = Some (t1, 1)" using t by auto
  have "map_option snd (hopscotch_insert address_env 1
      (fst (the (hopscotch_insert address_env 1 (the (hopscotch_create address_env 1 0 8 0)) ?k1 1))) ?k2 1) = Some 2"
    by code_simp
  then obtain t2 where t2: "hopscotch_insert address_env 1 t1 ?k2 1 = Some (t2, 2)" using t t1 by auto
  have p1: "insert_post t ?k1 1 t1" using insert_correct[OF C(1) _ _ _ t1] D C(2) by simp
  then have i1: "hs_inv t1" "\<not> ht_rehashing t1" "hs_keys t1 = {?k1}"
    using D C(2) by (simp_all add: insert_post_def)
  have "insert_post t1 ?k2 1 t2" using insert_correct[OF i1(1,2) _ _ t2] i1(3) by simp
  then have i2: "hs_inv t2" "hs_keys t2 = {?k1, ?k2}" using i1(3) by (auto simp: insert_post_def)
  let ?s = "pin_state t2 []"
  have h: "heap_of ?s = pin_heap" "pinned_objects ?s = t2" by (simp_all add: heap_of_def pin_state_def)
  have "\<exists>s'. refine_ambiguous_roots ?s = Some (Inr s') \<and> marked s' = marked ?s \<and> pinned_objects s' = pinned_objects ?s \<and>
    sorted (gc_filtered_pins s') \<and> distinct (gc_filtered_pins s') \<and>
    set (gc_filtered_pins s') = {pin \<in> hs_keys (pinned_objects ?s). object_begins (heap_of ?s) pin \<and>
      (listp pin \<or> widetag_of (memory (heap_of ?s)) (native_pointer pin) \<noteq> SIMPLE_FUN_WIDETAG)}"
    by (rule refine_ambiguous_roots_correct) (simp_all add: h i2 pin_heap_keys pin_heap_walked)
  then obtain s' where s': "refine_ambiguous_roots ?s = Some (Inr s')" "distinct (gc_filtered_pins s')"
    "set (gc_filtered_pins s') = {?k1}"
    unfolding h i2(2) using pin_heap_walked(5,6) pin_heap_keys(5) by auto
  then have "gc_filtered_pins s' = [?k1]"
  proof -
    have "length (gc_filtered_pins s') = 1" using distinct_card[OF s'(2)] s'(3) by simp
    then show ?thesis using s'(3) by (auto simp: length_Suc_conv)
  qed
  then show ?thesis using s'(1) i2(2) by blast
qed

end
