(* ===== verification/FreeLarge.thy ===== *)
theory FreeLarge
  imports Sweep Allocator
begin

text \<open>
  Freeing a large object (\<open>free_large_object\<close> of \<open>gencgc.c\<close>) keeps the invariant of the allocator
  and gives its pages and bytes back.
\<close>

unbundle bit_operations_syntax

section \<open>One page\<close>

lemma free_used_page_simps:
  "page_table (free_used_page i g) i = (page_table g i)\<lparr>scan_start_offset_w := 0, words_used_w := 0,
     ptype := FREE_PAGE_FLAG, need_zerofill := need_zerofill (page_table g i) \<or> words_used_w (page_table g i) \<noteq> 0\<rparr>"
  "j \<noteq> i \<Longrightarrow> page_table (free_used_page i g) j = page_table g j"
  "page_table_pages (free_used_page i g) = page_table_pages g"
  "DYNAMIC_SPACE_START (free_used_page i g) = DYNAMIC_SPACE_START g"
  "gc_alloc_generation (free_used_page i g) = gc_alloc_generation g"
  "region (free_used_page i g) = region g" "memory (free_used_page i g) = memory g"
  "bytes_allocated (free_used_page i g) = bytes_allocated g"
  "generations_bytes (free_used_page i g) = generations_bytes g" "from_space (free_used_page i g) = from_space g"
  by (simp_all add: free_used_page_def reset_page_flags_def set_page_type_def set_page_def assign_page_card_marks_def
      set_page_bytes_used_def set_page_need_to_zero_def page_words_used_def Let_def)

lemma free_used_page_usage:
  assumes "i < page_table_pages g"
  shows "usage g = usage (free_used_page i g) + page_bytes_used g i"
    "gen_usage g n = gen_usage (free_used_page i g) n + (if n = pgen (page_table g i) then page_bytes_used g i else 0)"
  using usage_grow[where g' = g and g = "free_used_page i g" and i = i and k = "page_bytes_used g i"] assms
  by (simp_all add: free_used_page_simps page_bytes_used_def)

section \<open>The pages of an object\<close>

lemma free_used_pages:
  assumes "distinct is" and "\<forall>i \<in> set is. i < page_table_pages g \<and> pgen (page_table g i) = G"
  defines "g' \<equiv> fold free_used_page is g" and "freed \<equiv> sum_list (map (\<lambda>i. 8 * page_words_used g i) is)"
  shows "frame (set is) g g'" "region g' = region g" "memory g' = memory g"
    "bytes_allocated g' = bytes_allocated g" "generations_bytes g' = generations_bytes g"
    "usage g = usage g' + freed" "gen_usage g n = gen_usage g' n + (if n = G then freed else 0)"
    "\<forall>i \<in> set is. page_table g' i = (page_table g i)\<lparr>scan_start_offset_w := 0, words_used_w := 0,
       ptype := FREE_PAGE_FLAG, need_zerofill := need_zerofill (page_table g i) \<or> words_used_w (page_table g i) \<noteq> 0\<rparr>"
    "\<forall>i. i \<notin> set is \<longrightarrow> page_table g' i = page_table g i" "from_space g' = from_space g"
proof -
  have "frame (set is) g (fold free_used_page is g) \<and> region (fold free_used_page is g) = region g \<and>
      memory (fold free_used_page is g) = memory g \<and>
      bytes_allocated (fold free_used_page is g) = bytes_allocated g \<and>
      generations_bytes (fold free_used_page is g) = generations_bytes g \<and>
      usage g = usage (fold free_used_page is g) + sum_list (map (\<lambda>i. 8 * page_words_used g i) is) \<and>
      gen_usage g n = gen_usage (fold free_used_page is g) n +
        (if n = G then sum_list (map (\<lambda>i. 8 * page_words_used g i) is) else 0) \<and>
      (\<forall>i \<in> set is. page_table (fold free_used_page is g) i = (page_table g i)\<lparr>scan_start_offset_w := 0,
         words_used_w := 0, ptype := FREE_PAGE_FLAG,
         need_zerofill := need_zerofill (page_table g i) \<or> words_used_w (page_table g i) \<noteq> 0\<rparr>) \<and>
      (\<forall>i. i \<notin> set is \<longrightarrow> page_table (fold free_used_page is g) i = page_table g i) \<and>
      from_space (fold free_used_page is g) = from_space g"
    using assms(1,2)
  proof (induction "is" arbitrary: g)
    case Nil
    then show ?case by (simp add: frame_refl)
  next
    case (Cons i "is")
    let ?g = "free_used_page i g"
    have o: "page_table ?g j = page_table g j" if "j \<in> set is" for j
      using that Cons.prems(1) by (intro free_used_page_simps(2)) auto
    have p: "\<forall>j \<in> set is. j < page_table_pages ?g \<and> pgen (page_table ?g j) = G"
      using Cons.prems o by (simp add: free_used_page_simps(3))
    have e: "sum_list (map (\<lambda>i. 8 * page_words_used ?g i) is) = sum_list (map (\<lambda>i. 8 * page_words_used g i) is)"
      using o by (intro arg_cong[where f = sum_list] map_cong) (simp_all add: page_words_used_def)
    have f: "frame {i} g ?g" by (simp add: frame_def free_used_page_simps)
    have i: "i < page_table_pages g" "pgen (page_table g i) = G" "i \<notin> set is" using Cons.prems by auto
    note IH = Cons.IH[OF _ p, unfolded e]
    have IHs: "frame (set is) ?g (fold free_used_page is ?g)" using IH Cons.prems(1) by simp
    have b: "page_bytes_used g i = 8 * page_words_used g i" by (simp add: page_bytes_used_def page_words_used_def WORD_SHIFT_def)
    have "frame (set (i # is)) g (fold free_used_page is ?g)"
      by (rule frame_trans[OF frame_mono[OF f] frame_mono[OF IHs]]) auto
    then show ?case
      using IH Cons.prems(1) free_used_page_usage[OF i(1)] i o free_used_page_simps b
      by (simp add: free_used_page_simps)
  qed
  then show "frame (set is) g g'" "region g' = region g" "memory g' = memory g"
    "bytes_allocated g' = bytes_allocated g" "generations_bytes g' = generations_bytes g"
    "usage g = usage g' + freed" "gen_usage g n = gen_usage g' n + (if n = G then freed else 0)"
    "\<forall>i \<in> set is. page_table g' i = (page_table g i)\<lparr>scan_start_offset_w := 0, words_used_w := 0,
       ptype := FREE_PAGE_FLAG, need_zerofill := need_zerofill (page_table g i) \<or> words_used_w (page_table g i) \<noteq> 0\<rparr>"
    "\<forall>i. i \<notin> set is \<longrightarrow> page_table g' i = page_table g i" "from_space g' = from_space g"
    by (simp_all add: g'_def freed_def)
qed

section \<open>Freeing the object\<close>

text \<open>The pages \<open>f\<close> to \<open>l\<close> are those of one large object at \<open>wh\<close>.\<close>

definition large_block :: "gc \<Rightarrow> nat \<Rightarrow> nat \<Rightarrow> nat \<Rightarrow> nat \<Rightarrow> bool" where
  "large_block g wh limit f l \<longleftrightarrow>
     f \<le> l \<and> l < page_table_pages g \<and> wh = page_address g f \<and> find_page_index g (limit - 1) = Some l \<and>
     page_ends_contiguous_block_p g l \<and>
     (\<forall>i \<in> {f..l}. page_single_obj_p g i \<and> pgen (page_table g i) = pgen (page_table g f) \<and> page_scan_start g i = wh)"

definition block_bytes :: "gc \<Rightarrow> nat \<Rightarrow> nat \<Rightarrow> nat" where
  "block_bytes g f l = (\<Sum>i = f..l. page_bytes_used g i)"

lemma open_page_not_single: "open_type t \<Longrightarrow> (OPEN_REGION_PAGE_FLAG OR t) AND SINGLE_OBJECT_FLAG = 0"
  unfolding open_type_def by (auto simp: page_types)

lemma block_bytes_list: "sum_list (map (\<lambda>i. 8 * page_words_used g i) [f..<Suc l]) = block_bytes g f l"
proof -
  have "block_bytes g f l = (\<Sum>i \<in> set [f..<Suc l]. page_bytes_used g i)"
    by (simp add: block_bytes_def atLeastLessThanSuc_atLeastAtMost del: upt_Suc)
  also have "\<dots> = sum_list (map (page_bytes_used g) [f..<Suc l])"
    by (subst sum_list_distinct_conv_sum_set) simp_all
  finally show ?thesis by (simp add: page_bytes_used_def[abs_def] page_words_used_def WORD_SHIFT_def mult.commute)
qed

text \<open>Changes outside the pages of open regions keep the invariant, if they keep the heap well formed and counted.\<close>

lemma alloc_inv_outside:
  assumes I: "alloc_inv T g" and fr: "frame A g g'" and r: "region g' = region g"
    and A: "\<forall>r' f l. region_open g r' (T r') f l \<longrightarrow> A \<inter> {f..l} = {}" and ok: "heap_ok g'" "accounted g'"
  shows "alloc_inv T g'"
proof -
  have A': "A \<inter> {f..l} = {}" if "region_open g r' (T r') f l" for r' f l using A that by blast
  have regions: "region_open g' r' (T r') f l \<longleftrightarrow> region_open g r' (T r') f l" for r' f l
  proof
    assume o: "region_open g r' (T r') f l"
    show "region_open g' r' (T r') f l" by (rule region_open_frame[OF o fr A'[OF o]]) (simp add: r)
  next
    assume o: "region_open g' r' (T r') f l"
    show "region_open g r' (T r') f l"
    proof (cases "region_closed g r'")
      case True
      then have "region_closed g' r'" by (simp add: region_closed_def r)
      then show ?thesis using region_open_not_closed[OF ok(1) o] by blast
    next
      case False
      then obtain f' l' where o': "region_open g r' (T r') f' l'" using alloc_invD(3)[OF I] by blast
      have "region_open g' r' (T r') f' l'" by (rule region_open_frame[OF o' fr A'[OF o']]) (simp add: r)
      from region_open_unique[OF o this] show ?thesis using o' by simp
    qed
  qed
  show ?thesis
    unfolding alloc_inv_def regions using ok alloc_invD(3,4)[OF I] by (auto simp: region_closed_def r)
qed

text \<open>Pages that are freed and no longer counted.\<close>

lemma freed_pages_inv:
  assumes I: "alloc_inv T g" and d: "distinct is" "\<forall>i \<in> set is. i < page_table_pages g \<and> pgen (page_table g i) = G"
    and A: "\<forall>r' f l. region_open g r' (T r') f l \<longrightarrow> set is \<inter> {f..l} = {}"
  defines "M \<equiv> sum_list (map (\<lambda>i. 8 * page_words_used g i) is)" and "u \<equiv> fold free_used_page is g"
  defines "g' \<equiv> u\<lparr>generations_bytes := (generations_bytes u)(G := generations_bytes u G - M),
      bytes_allocated := bytes_allocated u - M\<rparr>"
  shows "alloc_inv T g'" "frame (set is) g g'" "memory g' = memory g" "bytes_allocated g = bytes_allocated g' + M"
    "generations_bytes g n = generations_bytes g' n + (if n = G then M else 0)" "generations_bytes g' n = gen_usage g' n"
    "page_table g' = page_table u"
proof -
  note U = free_used_pages[OF d, folded u_def M_def]
  have pb: "page_bytes_used g' = page_bytes_used u" by (simp add: g'_def page_bytes_used_def fun_eq_iff)
  have t: "page_table g' = page_table u" "region g' = region g" "memory g' = memory g"
    "page_table_pages g' = page_table_pages u"
    using U(2,3) by (simp_all add: g'_def)
  have us: "usage g' = usage u" "gen_usage g' = gen_usage u"
    by (simp_all only: fun_eq_iff usage_def gen_usage_def pb t(1,4) simp_thms)
  have fr: "frame (set is) g g'" using U(1) by (simp add: frame_def g'_def)
  note acc = alloc_invD(2)[OF I, unfolded accounted_def]
  have cnt: "bytes_allocated g' = bytes_allocated u - M"
    "generations_bytes g' n = generations_bytes u n - (if n = G then M else 0)" for n
    by (simp_all add: g'_def)
  show b1: "bytes_allocated g = bytes_allocated g' + M"
    using acc U(4) U(6) by (simp_all add: cnt us(1))
  have b2: "bytes_allocated g' = usage g'" using acc U(4) U(6) by (simp add: cnt us(1))
  show g1: "generations_bytes g n = generations_bytes g' n + (if n = G then M else 0)"
    and g2: "generations_bytes g' n = gen_usage g' n" for n
    using acc U(5) U(7)[of n] by (simp_all add: cnt us(2))
  have "page_ok (page_table g' i)" if i: "i < page_table_pages g" for i
  proof (cases "i \<in> set is")
    case True
    then show ?thesis using U(8) by (simp add: t(1) page_ok_def)
  next
    case False
    then show ?thesis using frame_page[OF fr False] heap_ok_page[OF alloc_invD(1)[OF I] i] by (simp add: page_ok_def)
  qed
  then have h: "heap_ok g'" using alloc_invD(1)[OF I] frame_const[OF fr] by (simp add: heap_ok_def)
  have "accounted g'" using b2 g2 by (simp add: accounted_def)
  then show "alloc_inv T g'" by (rule alloc_inv_outside[OF I fr t(2) A h])
  show "frame (set is) g g'" "memory g' = memory g" "page_table g' = page_table u" using fr t by simp_all
qed

text \<open>C14: Freeing a large object gives its pages and its bytes back: if the pages of one object run
  from the page at \<open>wh\<close> to the end of a block, no assertion of \<open>free_large_object\<close> fails, the invariant of the
  allocator is kept, these pages become free and are to be zeroed if they were used, no other page
  changes, and the counts of the heap and of the generation of the object drop by its bytes.\<close>

theorem free_large_object_correct:
  assumes I: "alloc_inv T g" and b: "large_block g wh limit f l"
  shows "\<exists>g'. free_large_object wh limit g = Inr g' \<and> alloc_inv T g' \<and> frame {f..l} g g' \<and>
    (\<forall>i \<in> {f..l}. page_free_p g' i \<and> page_words_used g' i = 0 \<and>
       (page_words_used g i \<noteq> 0 \<longrightarrow> page_need_to_zero g' i)) \<and>
    bytes_allocated g = bytes_allocated g' + block_bytes g f l \<and>
    (\<forall>n. generations_bytes g n = generations_bytes g' n + (if n = pgen (page_table g f) then block_bytes g f l else 0)) \<and>
    memory g' = memory g"
proof -
  let ?is = "[f..<Suc l]" and ?b = "block_bytes g f l"
  define G where "G = pgen (page_table g f)"
  have fl: "f \<le> l" "l < page_table_pages g" "wh = page_address g f" "find_page_index g (limit - 1) = Some l"
    "page_ends_contiguous_block_p g l"
    and pages: "\<forall>i \<in> {f..l}. page_single_obj_p g i \<and> pgen (page_table g i) = G \<and> page_scan_start g i = wh"
    using b unfolding large_block_def G_def by blast+
  have f: "find_page_index g wh = Some f"
    using fl(1-3) by (simp add: find_page_index_Some page_address_def page_constants)
  have st: "set ?is = {f..l}" by auto
  have all: "list_all (\<lambda>page. page_single_obj_p g page \<and> pgen (page_table g page) = G \<and> page_scan_start g page = wh) ?is"
    unfolding list_all_iff st using pages by blast
  have d: "distinct ?is" "\<forall>i \<in> set ?is. i < page_table_pages g \<and> pgen (page_table g i) = G"
    using fl(1,2) pages unfolding st by auto
  have A: "\<forall>r' f' l'. region_open g r' (T r') f' l' \<longrightarrow> set ?is \<inter> {f'..l'} = {}"
  proof (intro allI impI equals0I)
    fix r' f' l' i
    assume o: "region_open g r' (T r') f' l'" and i: "i \<in> set ?is \<inter> {f'..l'}"
    then have "ptype (page_table g i) AND SINGLE_OBJECT_FLAG = 0"
      using region_open_type(1,2)[OF o, of i] open_page_not_single[of "T r'"] by auto
    then show False using pages i unfolding st by (auto simp: page_single_obj_p_def)
  qed
  note F = freed_pages_inv[OF I d A, unfolded st block_bytes_list]
  note U = free_used_pages(8)[OF d, unfolded st]
  define g' where "g' = (let u = fold free_used_page ?is g in u\<lparr>generations_bytes := (generations_bytes u)(G := generations_bytes u G - ?b),
      bytes_allocated := bytes_allocated u - ?b\<rparr>)"
  note F = F[folded g'_def[unfolded Let_def]]
  have g': "free_large_object wh limit g = Inr g'"
    using fl(5) all unfolding free_large_object_def Let_def f fl(4) option.sel block_bytes_list G_def[symmetric]
    by (simp add: gc_assert_def g'_def Let_def del: upt_Suc)
  moreover have "page_free_p g' i \<and> page_words_used g' i = 0 \<and> (page_words_used g i \<noteq> 0 \<longrightarrow> page_need_to_zero g' i)"
    if "i \<in> {f..l}" for i
    using that U by (simp add: F(7) page_free_p_def page_words_used_def page_need_to_zero_def)
  ultimately show ?thesis using F(1-5) unfolding G_def by blast
qed

text \<open>A large object of 4106 words on the last two pages of the small heap.\<close>

definition large_heap :: gc where
  "large_heap = small_heap\<lparr>
     page_table := (page_table small_heap)(
       2 := \<lparr>scan_start_offset_w = 0, need_zerofill = False, words_used_w = 4096,
             ptype = SINGLE_OBJECT_FLAG OR PAGE_TYPE_BOXED, pgen = 1\<rparr>,
       3 := \<lparr>scan_start_offset_w = 3, need_zerofill = False, words_used_w = 10,
             ptype = SINGLE_OBJECT_FLAG OR PAGE_TYPE_BOXED, pgen = 1\<rparr>),
     next_free_page := 4, bytes_allocated := 98384,
     generations_bytes := (\<lambda>n. if n = 0 then 65536 else if n = 1 then 32848 else 0)\<rparr>"

lemma large_heap_inv: "alloc_inv (\<lambda>_. PAGE_TYPE_MIXED) large_heap"
proof -
  have s: "{..<4 :: nat} = {0, 1, 2, 3}" by auto
  have "heap_ok large_heap"
    by (auto simp: heap_ok_def large_heap_def small_heap_def page_ok_def page_constants page_types)
  moreover have "accounted large_heap"
    by (simp add: accounted_def usage_def gen_usage_def large_heap_def small_heap_def s page_bytes_used_def WORD_SHIFT_def)
  moreover have c: "region_closed large_heap r" for r by (simp add: region_closed_def large_heap_def small_heap_def)
  moreover have "\<not> region_open large_heap r t f l" for r t f l
    using c region_open_not_closed[OF \<open>heap_ok large_heap\<close>] by blast
  ultimately show ?thesis by (simp add: alloc_inv_def)
qed

lemma large_heap_block: "large_block large_heap 0x1000010000 0x1000018050 2 3" "block_bytes large_heap 2 3 = 32848"
proof -
  have i: "{2..3 :: nat} = {2, 3}" by auto
  show "block_bytes large_heap 2 3 = 32848"
    by (simp add: block_bytes_def i large_heap_def page_bytes_used_def WORD_SHIFT_def)
  have "page_scan_start large_heap 2 = 0x1000010000" "page_scan_start large_heap 3 = 0x1000010000"
    by (simp_all add: page_scan_start_def page_scan_start_offset_def page_address_def large_heap_def small_heap_def
        page_constants SCAN_START_OFS_MAX_def bit_iff_odd push_bit_eq_mult)
  moreover have "find_page_index large_heap 0x100001804F = Some 3"
    by (simp add: find_page_index_def large_heap_def small_heap_def page_constants)
  ultimately show "large_block large_heap 0x1000010000 0x1000018050 2 3"
    unfolding large_block_def i
    by (simp add: large_heap_def small_heap_def page_address_def page_constants page_ends_contiguous_block_p_def
        page_words_used_def page_single_obj_p_def page_types)
qed

lemma free_large_object_correct_witness:
  "\<exists>g. free_large_object 0x1000010000 0x1000018050 large_heap = Inr g \<and> alloc_inv (\<lambda>_. PAGE_TYPE_MIXED) g \<and>
     page_free_p g 2 \<and> page_free_p g 3 \<and> bytes_allocated g = 65536 \<and> generations_bytes g 1 = 0"
proof -
  obtain g where g: "free_large_object 0x1000010000 0x1000018050 large_heap = Inr g" "alloc_inv (\<lambda>_. PAGE_TYPE_MIXED) g"
    "\<forall>i \<in> {2..3}. page_free_p g i \<and> page_words_used g i = 0 \<and> (page_words_used large_heap i \<noteq> 0 \<longrightarrow> page_need_to_zero g i)"
    "bytes_allocated large_heap = bytes_allocated g + 32848"
    "\<forall>n. generations_bytes large_heap n = generations_bytes g n + (if n = pgen (page_table large_heap 2) then 32848 else 0)"
    using free_large_object_correct[OF large_heap_inv large_heap_block(1)] unfolding large_heap_block(2) by blast
  have "bytes_allocated g = 65536" using g(4) by (simp add: large_heap_def)
  moreover have "generations_bytes g 1 = 0" using spec[OF g(5), of 1] by (simp add: large_heap_def)
  moreover have "page_free_p g 2" "page_free_p g 3" using g(3) by simp_all
  ultimately show ?thesis using g(1,2) by blast
qed

end
