(* ===== verification/PinFill.thy ===== *)
theory PinFill
  imports PinFilter FreeLarge
begin

text \<open>
  Fillers between pinned objects (\<open>gencgc.c\<close>): the pages of the pinned objects move to the new space as they are,
  and what is on them besides becomes fillers, so that each of them can still be walked object by object.
\<close>

unbundle bit_operations_syntax

section \<open>Code\<close>

definition page_base :: "uword \<Rightarrow> uword" where
  "page_base x = ALIGN_DOWN x (of_nat GENCGC_PAGE_BYTES)"

definition put_filler :: "uword \<Rightarrow> uword \<Rightarrow> gc \<Rightarrow> gc" where
  "put_filler frm nwords g = g\<lparr>memory := (memory g)(frm := make_filler_header nwords)\<rparr>"

partial_function (option) split_filler :: "uword \<Rightarrow> nat \<Rightarrow> uword \<Rightarrow> gc \<Rightarrow> gc option" where
  "split_filler to last_card frm g =
     (if addr_to_card_index g (unat frm) \<noteq> last_card then
        let frm = ALIGN_DOWN frm (of_nat GENCGC_CARD_BYTES) + of_nat GENCGC_CARD_BYTES
        in split_filler to last_card frm (put_filler frm (drop_bit WORD_SHIFT (to - frm)) g)
      else Some g)"

definition deposit_filler :: "uword \<Rightarrow> uword \<Rightarrow> gc \<Rightarrow> gc result option" where
  "deposit_filler frm to g =
     (let nbytes = sint (to - frm); nwords = drop_bit WORD_SHIFT (to - frm) in
      if nbytes = 0 then Some (Inr g)
      else if \<not> 0 < nbytes then Some (Inl Assert_failed)
      else if \<not> sint (nwords - 1) \<le> 0x7FFFFF then Some (Inl Assert_failed)
      else if find_page_index g (unat (to - 1)) \<noteq> find_page_index g (unat frm) then Some (Inl Assert_failed)
      else case find_page_index g (unat frm) of
             None \<Rightarrow> None
           | Some page \<Rightarrow>
               let g = put_filler frm nwords g
               in if ptype (page_table g page) \<in> {PAGE_TYPE_BOXED, PAGE_TYPE_CONS, PAGE_TYPE_SMALL_MIXED}
                  then map_option Inr (split_filler to (addr_to_card_index g (unat (to - 1))) frm g)
                  else Some (Inr g))"

text \<open>A state is the heap and the bytes moved so far.\<close>

definition adjust_gen_usage :: "int \<Rightarrow> nat \<Rightarrow> nat \<times> gc \<Rightarrow> (nat \<times> gc) result" where
  "adjust_gen_usage new_gen i = (\<lambda>(bytes_moved, g).
     gc_assert (pgen (page_table g i) = from_space g)
       (Inr (bytes_moved + page_bytes_used g i, set_page_gen i new_gen g)))"

definition begin_pinned_page :: "int \<Rightarrow> nat \<Rightarrow> nat \<times> gc \<Rightarrow> (nat \<times> gc) result" where
  "begin_pinned_page new_gen page st =
     rbind (adjust_gen_usage new_gen page st) (\<lambda>(bytes_moved, g).
       rbind (set_page_scan_start_offset page 0 g) (\<lambda>g. Inr (bytes_moved, g)))"

definition extend_pinned_page :: "int \<Rightarrow> nat \<Rightarrow> nat \<Rightarrow> nat \<times> gc \<Rightarrow> (nat \<times> gc) result" where
  "extend_pinned_page new_gen scan_start index = (\<lambda>(bytes_moved, g).
     rbind (addr_diff (page_address g index) scan_start) (\<lambda>offset.
     rbind (set_page_scan_start_offset index offset g) (\<lambda>g.
       adjust_gen_usage new_gen index (bytes_moved, g))))"

text \<open>One pinned object: its pages, and where it ends with the page of its last byte.\<close>

definition move_pinned_object ::
    "int \<Rightarrow> uword \<Rightarrow> uword \<Rightarrow> nat \<times> gc \<Rightarrow> (uword \<times> nat \<times> nat \<times> gc) result option" where
  "move_pinned_object new_gen fill_from obj = (\<lambda>(bytes_moved, g).
     case find_page_index g (unat obj) of
       None \<Rightarrow> None
     | Some begin_page_index \<Rightarrow>
         option_rbind (Some (if fill_from = page_base obj then begin_pinned_page new_gen begin_page_index (bytes_moved, g)
                             else Inr (bytes_moved, g))) (\<lambda>(bytes_moved, g).
         option_rbind (Some (object_size (memory g) obj)) (\<lambda>nwords.
         let obj_end = obj + 8 * nwords
         in case find_page_index g (unat (obj_end - 1)) of
              None \<Rightarrow> None
            | Some end_page_index \<Rightarrow>
                option_rbind (Some (for_each (extend_pinned_page new_gen (page_scan_start g begin_page_index))
                                [begin_page_index + 1..<Suc end_page_index] (bytes_moved, g)))
                  (\<lambda>(bytes_moved, g). Some (Inr (obj_end, end_page_index, bytes_moved, g))))))"

definition next_key :: "lispobj list \<Rightarrow> lispobj" where
  "next_key keys = (case keys of [] \<Rightarrow> - 1 | key # _ \<Rightarrow> key)"

fun fill_between :: "int \<Rightarrow> lispobj list \<Rightarrow> uword \<Rightarrow> nat \<times> gc \<Rightarrow> (nat \<times> gc) result option" where
  "fill_between new_gen [] fill_from st = Some (Inr st)"
| "fill_between new_gen (key # keys) fill_from (bytes_moved, g) =
     (let obj = native_pointer key in
      option_rbind (deposit_filler fill_from obj g) (\<lambda>g.
      option_rbind (move_pinned_object new_gen fill_from obj (bytes_moved, g))
        (\<lambda>(obj_end, end_page_index, bytes_moved, g).
      let obj_end_pageaddr = page_base (obj_end - 1)
      in if next_key keys < obj_end_pageaddr + of_nat GENCGC_PAGE_BYTES
         then fill_between new_gen keys obj_end (bytes_moved, g)
         else option_rbind (deposit_filler obj_end (obj_end_pageaddr + of_nat (page_bytes_used g end_page_index)) g)
                (\<lambda>g. fill_between new_gen keys (page_base (next_key keys)) (bytes_moved, g)))))"

definition obliterate_nonpinned_words :: "compactor \<Rightarrow> compactor result option" where
  "obliterate_nonpinned_words s =
     (case gc_filtered_pins s of
        [] \<Rightarrow> Some (Inr s)
      | key # _ \<Rightarrow>
          option_rbind (fill_between (new_space s) (gc_filtered_pins s) (page_base key) (0, heap_of s))
            (\<lambda>(bytes_moved, g).
          let oldspace = from_space g;
              bytes = (generations_bytes g)(oldspace := generations_bytes g oldspace - bytes_moved);
              bytes = bytes(new_space s := bytes (new_space s) + bytes_moved);
              s = map_gc (\<lambda>_. g\<lparr>generations_bytes := bytes\<rparr>) s
          in Some (Inr (if pins_alloc_size s \<noteq> 0 then s\<lparr>gc_filtered_pins := [], pins_alloc_size := 0\<rparr> else s))))"

section \<open>A filler\<close>

lemma put_filler_simps [simp]:
  "page_table (put_filler a n g) = page_table g" "find_page_index (put_filler a n g) = find_page_index g"
  "addr_to_card_index (put_filler a n g) = addr_to_card_index g"
  "memory (put_filler a n g) = (memory g)(a := make_filler_header n)"
  "put_filler a n g = g\<lparr>memory := (memory g)(a := make_filler_header n)\<rparr>"
  by (simp_all add: put_filler_def find_page_index_def addr_to_card_index_def fun_eq_iff)

lemma card_index_memory [simp]: "addr_to_card_index (g\<lparr>memory := H\<rparr>) = addr_to_card_index g"
  by (simp add: addr_to_card_index_def fun_eq_iff)

lemma next_card:
  assumes "unat (frm :: uword) div 1024 < unat (a :: uword) div 1024"
  shows "unat (ALIGN_DOWN frm (of_nat GENCGC_CARD_BYTES) + of_nat GENCGC_CARD_BYTES) = (unat frm div 1024 + 1) * 1024"
    "(unat frm div 1024 + 1) * 1024 \<le> unat a"
proof -
  have a: "unat (ALIGN_DOWN frm 1024) = unat frm div 1024 * 1024" using unat_ALIGN_DOWN[of frm 10] by simp
  have "(unat frm div 1024 + 1) * 1024 \<le> unat a div 1024 * 1024" using assms by simp
  also have "\<dots> \<le> unat a" by simp
  finally show le: "(unat frm div 1024 + 1) * 1024 \<le> unat a" .
  have "unat a < 2 ^ 64" using unsigned_less[of a, where 'a = nat] by simp
  from le_less_trans[OF le this] show "unat (ALIGN_DOWN frm (of_nat GENCGC_CARD_BYTES) + of_nat GENCGC_CARD_BYTES) = (unat frm div 1024 + 1) * 1024"
    by (simp add: GENCGC_CARD_BYTES_def unat_word_ariths a)
qed

lemma split_filler_spec:
  assumes "unat frm < unat to"
  shows "\<exists>H. split_filler to (addr_to_card_index g (unat (to - 1))) frm g = Some (g\<lparr>memory := H\<rparr>) \<and>
    (\<forall>x. unat x \<le> unat frm \<or> unat to \<le> unat x \<longrightarrow> H x = memory g x)"
  using assms
proof (induction "unat to - unat frm" arbitrary: frm g rule: less_induct)
  case less
  let ?last = "addr_to_card_index g (unat (to - 1))"
  let ?frm = "ALIGN_DOWN frm (of_nat GENCGC_CARD_BYTES) + of_nat GENCGC_CARD_BYTES"
  show ?case
  proof (cases "addr_to_card_index g (unat frm) = ?last")
    case True
    then show ?thesis by (subst split_filler.simps) (auto intro!: exI[of _ "memory g"])
  next
    case False
    have t: "unat (to - 1) = unat to - 1" using less.prems by (simp add: unat_sub_if' unat_eq_0)
    have d: "drop_bit 10 n = n div 1024" for n :: nat by (simp add: drop_bit_eq_div)
    have "unat frm div 1024 \<noteq> unat (to - 1) div 1024"
      using False by (auto simp: addr_to_card_index_def GENCGC_CARD_SHIFT_def d)
    moreover have "unat frm div 1024 \<le> unat (to - 1) div 1024" using less.prems t by (simp add: div_le_mono)
    ultimately have "unat frm div 1024 < unat (to - 1) div 1024" by simp
    note n = next_card[OF this]
    have lt: "unat frm < unat ?frm" "unat ?frm < unat to"
      using n t less.prems by (simp_all add: n(1)) 
    let ?g = "put_filler ?frm (drop_bit WORD_SHIFT (to - ?frm)) g"
    have "unat to - unat ?frm < unat to - unat frm" using lt by simp
    from less.hyps[OF this lt(2), of ?g] obtain H where
      H: "split_filler to ?last ?frm ?g = Some (?g\<lparr>memory := H\<rparr>)"
        "\<forall>x. unat x \<le> unat ?frm \<or> unat to \<le> unat x \<longrightarrow> H x = memory ?g x" by auto
    have "split_filler to ?last frm g = Some (g\<lparr>memory := H\<rparr>)"
      using False H(1) by (subst split_filler.simps) (simp add: Let_def)
    moreover have "H x = memory g x" if "unat x \<le> unat frm \<or> unat to \<le> unat x" for x
      using that H(2) lt by (auto simp: fun_upd_def)
    ultimately show ?thesis by blast
  qed
qed

lemma walk_cong:
  assumes "walk h limit a objs" and "\<And>x. unat a \<le> unat x \<Longrightarrow> unat x < unat limit \<Longrightarrow> h' x = h x"
  shows "walk h' limit a objs"
  using assms
proof (induction objs arbitrary: a)
  case (Cons ob objs)
  then obtain n where n: "ob = (a, n)" "object_words h a = Inr n" "object_size h a = Inr n" "whole_pairs n"
    "unat a + 8 * unat n \<le> unat limit" "walk h limit (a + 8 * n) objs" by (auto simp: walk_Cons)
  have e: "unat (a + 8 * n) = unat a + 8 * unat n" using unat_next[OF n(5), of "unat n"] by simp
  have "h' x = h x" if "x \<in> words_of a n" for x
    using words_of_range[OF n(5) that] n(5) by (intro Cons.prems(2)) simp_all
  then have "h' a = h a" "h' (a + 8) = h (a + 8)" using whole_pairs_words(1,2)[OF n(4)] by blast+
  note c = object_words_cong[OF this]
  have "walk h' limit (a + 8 * n) objs" using e by (intro Cons.IH[OF n(6)] Cons.prems(2)) simp_all
  then show ?case using n c by (simp add: walk_Cons)
qed auto

text \<open>The words from \<open>frm\<close> to \<open>to\<close> of one page become a filler, or nothing if there are none.\<close>

definition page_span :: "gc \<Rightarrow> nat \<Rightarrow> uword \<Rightarrow> uword \<Rightarrow> bool" where
  "page_span g p frm to \<longleftrightarrow> p < page_table_pages g \<and> page_address g p \<le> unat frm \<and> unat frm \<le> unat to \<and>
     unat to \<le> page_address g p + GENCGC_PAGE_BYTES \<and> 16 dvd unat frm \<and> 16 dvd unat to"

definition blanks :: "heap \<Rightarrow> uword \<Rightarrow> uword \<Rightarrow> (uword \<times> uword) list \<Rightarrow> bool" where
  "blanks h limit a objs \<longleftrightarrow> walk h limit a objs \<and> list_all (blank h) objs"

lemma sint_small: "unat (x :: uword) < 2 ^ 63 \<Longrightarrow> sint x = int (unat x)"
proof -
  assume "unat x < 2 ^ 63"
  then have "int (unat x) < int (2 ^ 63)" by (simp only: of_nat_less_iff)
  then have "uint x < 2 ^ 63" by simp
  then have "signed_take_bit 63 (uint x) = uint x" using uint_ge_0[of x]
    by (intro signed_take_bit_int_eq_self) linarith+
  then show ?thesis by (simp add: sint_uint)
qed

lemma unat_pred: "0 < unat (x :: uword) \<Longrightarrow> unat (x - 1) = unat x - 1"
  by (simp add: unat_sub_if' unat_eq_0)

lemma unat_of_nat_small: "n < 2 ^ 64 \<Longrightarrow> unat (of_nat n :: uword) = n"
  by (simp add: unsigned_of_nat take_bit_nat_eq_self)

lemma page_span_index:
  assumes "page_span g p frm to" "unat frm \<le> u" "u < unat to"
  shows "find_page_index g u = Some p"
  using assms by (simp add: page_span_def find_page_index_Some)

lemma deposit_filler_spec:
  assumes sp: "page_span g p frm to"
  shows "\<exists>H xs. deposit_filler frm to g = Some (Inr (g\<lparr>memory := H\<rparr>)) \<and> blanks H to frm xs \<and>
    (\<forall>x. unat x < unat frm \<or> unat to \<le> unat x \<longrightarrow> H x = memory g x)"
proof (cases "frm = to")
  case True
  then show ?thesis by (intro exI[of _ "memory g"] exI[of _ "[]"]) (simp add: deposit_filler_def blanks_def)
next
  case False
  let ?n = "drop_bit 3 (to - frm)" and ?last = "addr_to_card_index g (unat (to - 1))"
  have lt: "unat frm < unat to"
    using False sp by (simp add: page_span_def order_le_less word_unat_eq_iff)
  obtain j k where jk: "unat frm = 16 * j" "unat to = 16 * k" using sp by (auto simp: page_span_def elim!: dvdE)
  have d: "unat (to - frm) = unat to - unat frm" using lt by (simp add: unat_sub_if')
  have b: "unat to - unat frm \<le> 32768" using sp unfolding page_span_def GENCGC_PAGE_BYTES_def by linarith
  have e: "unat ?n = (unat to - unat frm) div 8" unfolding unat_drop_bit_eq d by (simp add: drop_bit_eq_div)
  have n: "unat ?n = 2 * (k - j)" "unat ?n \<le> 4096" using b unfolding e jk by auto
  have jk': "j < k" using lt jk by simp
  have n1: "unat (?n - 1) = unat ?n - 1" using n jk' by (subst unat_sub_if') simp
  have s: "sint (to - frm) = int (unat to - unat frm)" "sint (?n - 1) = int (unat ?n - 1)"
    using d b n n1 by (simp_all add: sint_small)
  have t: "unat (to - 1) = unat to - 1" using lt by (simp add: unat_sub_if' unat_eq_0)
  have p: "find_page_index g (unat frm) = Some p" "find_page_index g (unat (to - 1)) = Some p"
    using lt by (auto intro!: page_span_index[OF sp] simp: t)
  obtain H where H: "split_filler to ?last frm (put_filler frm ?n g) = Some (g\<lparr>memory := H\<rparr>)"
    "\<forall>x. unat x \<le> unat frm \<or> unat to \<le> unat x \<longrightarrow> H x = memory (put_filler frm ?n g) x"
    using split_filler_spec[OF lt, of "put_filler frm ?n g"] by auto
  define H' where "H' = (if ptype (page_table g p) \<in> {PAGE_TYPE_BOXED, PAGE_TYPE_CONS, PAGE_TYPE_SMALL_MIXED}
      then H else memory (put_filler frm ?n g))"
  have H': "H' frm = make_filler_header ?n" "\<forall>x. unat x < unat frm \<or> unat to \<le> unat x \<longrightarrow> H' x = memory g x"
    using H(2) lt by (auto simp: H'_def)
  have "deposit_filler frm to g = Some (Inr (g\<lparr>memory := H'\<rparr>))"
  proof -
    have c: "(sint (to - frm) = 0) = False" "(0 < sint (to - frm)) = True" "(sint (?n - 1) \<le> 0x7FFFFF) = True"
      unfolding s eq_False eq_True using lt n(2) by linarith+
    show ?thesis unfolding deposit_filler_def Let_def WORD_SHIFT_def c p
      by (simp add: H(1)[unfolded put_filler_simps] H'_def)
  qed
  moreover have "blanks H' to frm [(frm, ?n)]"
  proof -
    have "unat ?n < 2 ^ 32" using n(2) by simp
    note f = filler_words[of H', OF H'(1) this]
    have "unat (8 * ?n) = 8 * unat ?n" using n(2) by (simp add: unat_word_ariths)
    then have "8 * ?n = to - frm" using n(1) d jk by (simp add: word_unat_eq_iff)
    moreover have "whole_pairs ?n" using n(1) jk' by (auto simp: whole_pairs_def unat_eq_0[symmetric] simp del: unat_eq_0)
    ultimately show ?thesis using f n jk jk' by (simp add: blanks_def walk_Cons blank_def)
  qed
  ultimately show ?thesis using H'(2) by blast
qed

section \<open>Pages of pinned objects\<close>

definition move_pages :: "int \<Rightarrow> nat \<Rightarrow> nat set \<Rightarrow> gc \<Rightarrow> gc" where
  "move_pages ns s A g = g\<lparr>page_table := (\<lambda>i. if i \<in> A
     then (page_table g i)\<lparr>scan_start_offset_w := block_offset (i - s), pgen := ns\<rparr> else page_table g i)\<rparr>"

lemma move_pages_simps [simp]:
  "page_table_pages (move_pages ns s A g) = page_table_pages g" "memory (move_pages ns s A g) = memory g"
  "from_space (move_pages ns s A g) = from_space g" "page_address (move_pages ns s A g) = page_address g"
  "find_page_index (move_pages ns s A g) = find_page_index g"
  "page_bytes_used (move_pages ns s A g) = page_bytes_used g"
  "DYNAMIC_SPACE_START (move_pages ns s A g) = DYNAMIC_SPACE_START g"
  "move_pages ns s {} g = g"
  by (simp_all add: move_pages_def page_address_def find_page_index_def page_bytes_used_def fun_eq_iff)

lemma move_pages_table:
  "page_table (move_pages ns s A g) i = (if i \<in> A
     then (page_table g i)\<lparr>scan_start_offset_w := block_offset (i - s), pgen := ns\<rparr> else page_table g i)"
  by (simp add: move_pages_def)

lemma move_pages_Un: "move_pages ns s B (move_pages ns s A g) = move_pages ns s (A \<union> B) g"
  by (simp add: move_pages_def fun_eq_iff)

lemma memory_page_simps [simp]:
  "page_address (g\<lparr>memory := H\<rparr>) = page_address g" "find_page_index (g\<lparr>memory := H\<rparr>) = find_page_index g"
  "page_bytes_used (g\<lparr>memory := H\<rparr>) = page_bytes_used g" "page_scan_start (g\<lparr>memory := H\<rparr>) = page_scan_start g"
proof -
  have "lookback_pages (g\<lparr>memory := H\<rparr>) i = lookback_pages g i" for i
    by (induction g i rule: lookback_pages.induct) (subst (1 2) lookback_pages.simps, auto simp: Let_def)
  then have "scan_start_offset_iterated (g\<lparr>memory := H\<rparr>) i = scan_start_offset_iterated g i" for i
    by (simp add: scan_start_offset_iterated_def)
  then show "page_scan_start (g\<lparr>memory := H\<rparr>) = page_scan_start g"
    by (simp add: page_scan_start_def page_scan_start_offset_def page_address_def fun_eq_iff Let_def)
qed (simp_all add: page_address_def find_page_index_def page_bytes_used_def fun_eq_iff)

lemma begin_pinned_page_spec:
  assumes "pgen (page_table g f) = from_space g"
  shows "begin_pinned_page ns f (m, g) = Inr (m + page_bytes_used g f, move_pages ns f {f} g)"
proof -
  have "set_page_scan_start_offset f 0 (set_page_gen f ns g) = Inr (move_pages ns f {f} g)"
    using set_block_offset[of f 0 "set_page_gen f ns g"]
    by (simp add: set_page_gen_def set_page_def move_pages_def fun_eq_iff)
  then show ?thesis using assms by (simp add: begin_pinned_page_def adjust_gen_usage_def gc_assert_def)
qed

lemma extend_pinned_page_spec:
  assumes "s \<le> i" and "pgen (page_table g i) = from_space g"
  shows "extend_pinned_page ns (page_address g s) i (m, g) = Inr (m + page_bytes_used g i, move_pages ns s {i} g)"
proof -
  have d: "page_address g i - page_address g s = (i - s) * GENCGC_PAGE_BYTES" "page_address g s \<le> page_address g i"
    using assms(1) by (simp_all add: page_address_def diff_mult_distrib)
  then show ?thesis using set_block_offset[of i "i - s" g] assms(2)
    by (simp add: extend_pinned_page_def addr_diff_def adjust_gen_usage_def gc_assert_def set_page_gen_def set_page_def
        move_pages_def page_bytes_used_def fun_eq_iff)
qed

lemma extend_pinned_pages:
  assumes "s \<le> f" and "\<forall>i \<in> {f<..l}. pgen (page_table g i) = from_space g"
  shows "for_each (extend_pinned_page ns (page_address g s)) [f + 1..<Suc l] (m, g) =
    Inr (m + (\<Sum>i \<in> {f<..l}. page_bytes_used g i), move_pages ns s {f<..l} g)"
  using assms(2)
proof (induction l)
  case (Suc l)
  show ?case
  proof (cases "f \<le> l")
    case True
    then have u: "[f + 1..<Suc (Suc l)] = [f + 1..<Suc l] @ [Suc l]" "{f<..Suc l} = insert (Suc l) {f<..l}" by auto
    have g: "pgen (page_table (move_pages ns s {f<..l} g) (Suc l)) = from_space (move_pages ns s {f<..l} g)"
      using Suc.prems True by (simp add: move_pages_table)
    have IH: "for_each (extend_pinned_page ns (page_address g s)) [f + 1..<Suc l] (m, g) =
      Inr (m + (\<Sum>i \<in> {f<..l}. page_bytes_used g i), move_pages ns s {f<..l} g)" using Suc by simp
    have "s \<le> Suc l" using assms(1) True by simp
    from extend_pinned_page_spec[OF this g] show ?thesis
      unfolding u(1) for_each_append IH by (simp add: u(2) move_pages_Un)
  qed (simp add: not_le)
qed simp

text \<open>The table is aligned and ends before the address space does.\<close>

definition table_fits :: "gc \<Rightarrow> bool" where
  "table_fits g \<longleftrightarrow> GENCGC_PAGE_BYTES dvd DYNAMIC_SPACE_START g \<and> page_address g (page_table_pages g) < 2 ^ 64"

definition pin_at :: "gc \<Rightarrow> uword \<Rightarrow> uword \<Rightarrow> nat \<Rightarrow> nat \<Rightarrow> bool" where
  "pin_at g a n f l \<longleftrightarrow> f \<le> l \<and> l < page_table_pages g \<and> 16 dvd unat a \<and> whole_pairs n \<and>
     object_words (memory g) a = Inr n \<and> object_size (memory g) a = Inr n \<and>
     page_address g f \<le> unat a \<and> unat a < page_address g f + GENCGC_PAGE_BYTES \<and>
     page_address g l < unat a + 8 * unat n \<and> unat a + 8 * unat n \<le> page_address g l + page_bytes_used g l \<and>
     page_bytes_used g l \<le> GENCGC_PAGE_BYTES \<and> 16 dvd page_bytes_used g l \<and>
     (\<forall>i \<in> {f..<l}. page_bytes_used g i = GENCGC_PAGE_BYTES)"

lemma page_end:
  assumes "table_fits g" "p < page_table_pages g"
  shows "page_address g p + GENCGC_PAGE_BYTES < 2 ^ 64"
proof -
  have "page_address g p + GENCGC_PAGE_BYTES \<le> page_address g (page_table_pages g)"
    using assms(2) by (simp add: page_address_def GENCGC_PAGE_BYTES_def)
  then show ?thesis using assms(1) by (simp add: table_fits_def)
qed

lemma page_base_unat:
  assumes "table_fits g" "page_address g p \<le> unat x" "unat x < page_address g p + GENCGC_PAGE_BYTES"
  shows "unat (page_base x) = page_address g p"
proof -
  obtain d where d: "DYNAMIC_SPACE_START g = 32768 * d"
    using assms(1) by (auto simp: table_fits_def GENCGC_PAGE_BYTES_def)
  have "unat x div 32768 = d + p"
    using assms(2,3) unfolding page_address_def GENCGC_PAGE_BYTES_def d by (simp add: div_nat_eqI)
  moreover have "unat (page_base x) = unat x div 32768 * 32768"
    using unat_ALIGN_DOWN[of x 15] by (simp add: page_base_def GENCGC_PAGE_BYTES_def)
  ultimately show ?thesis by (simp add: page_address_def GENCGC_PAGE_BYTES_def d)
qed

lemma pin_atD:
  assumes "table_fits g" "pin_at g a n f l"
  shows "find_page_index g (unat a) = Some f" "unat (a + 8 * n) = unat a + 8 * unat n"
    "unat (a + 8 * n - 1) = unat a + 8 * unat n - 1" "find_page_index g (unat (a + 8 * n - 1)) = Some l"
    "unat (page_base a) = page_address g f" "unat (page_base (a + 8 * n - 1)) = page_address g l"
    "2 \<le> unat n" "16 dvd unat a + 8 * unat n"
proof -
  note p = assms(2)[unfolded pin_at_def] and e = page_end[OF assms(1), of l]
  have lim: "unat a + 8 * unat n < 2 ^ 64" "l < page_table_pages g" "f < page_table_pages g" using p e by linarith+
  show two: "2 \<le> unat n" using whole_pairs_words(3) p by blast
  show end_: "unat (a + 8 * n) = unat a + 8 * unat n" using lim(1) by (simp add: unat_word_ariths)
  show last: "unat (a + 8 * n - 1) = unat a + 8 * unat n - 1"
    using unat_pred[of "a + 8 * n"] two unfolding end_ by simp
  show "find_page_index g (unat a) = Some f" using p lim by (simp add: find_page_index_Some)
  show "find_page_index g (unat (a + 8 * n - 1)) = Some l"
    unfolding last find_page_index_Some using p lim by linarith
  show "unat (page_base a) = page_address g f" using p by (intro page_base_unat[OF assms(1)]) simp_all
  show "unat (page_base (a + 8 * n - 1)) = page_address g l"
    using p unfolding last[symmetric] by (intro page_base_unat[OF assms(1)]) (unfold last, linarith+)
  show "16 dvd unat a + 8 * unat n" using p by (auto simp: whole_pairs_def elim!: evenE)
qed

lemma move_pinned_object_spec:
  assumes fits: "table_fits g" and pin: "pin_at g a n f l" and ns: "ns \<noteq> from_space g"
    and pages: "\<forall>i \<in> (if fill_from = page_base a then {f..l} else {f<..l}). pgen (page_table g i) = from_space g"
    and s: "if fill_from = page_base a then s = f else s \<le> f \<and> page_scan_start g f = page_address g s"
  defines "A \<equiv> if fill_from = page_base a then {f..l} else {f<..l}"
  shows "move_pinned_object ns fill_from a (m, g) =
    Some (Inr (a + 8 * n, l, m + (\<Sum>i \<in> A. page_bytes_used g i), move_pages ns s A g))"
proof -
  note D = pin_atD[OF fits pin]
  have fl: "f \<le> l" and sz: "object_size (memory g) a = Inr n" using pin by (simp_all add: pin_at_def)
  show ?thesis
  proof (cases "fill_from = page_base a")
    case True
    let ?g = "move_pages ns f {f} g"
    have A: "{f..l} = insert f {f<..l}" using fl by auto
    have "pgen (page_table g f) = from_space g" using pages True fl by simp
    note b = begin_pinned_page_spec[OF this, of ns m]
    have ss: "page_scan_start ?g f = page_address g f"
      using page_scan_start_block[of 0 ?g f] by (simp add: move_pages_table)
    have e: "\<forall>i \<in> {f<..l}. pgen (page_table ?g i) = from_space ?g" using pages True by (simp add: move_pages_table)
    show ?thesis
      using extend_pinned_pages[OF order_refl e, of ns "m + page_bytes_used g f"] True s
      by (simp add: move_pinned_object_def D(1,4) b option_rbind_def sz ss A_def A move_pages_Un Let_def)
  next
    case False
    then show ?thesis
      using extend_pinned_pages[of s f l g ns m] pages s
      by (simp add: move_pinned_object_def D(1,4) option_rbind_def sz A_def Let_def)
  qed
qed

section \<open>One pinned object\<close>

definition touches :: "gc \<Rightarrow> uword \<Rightarrow> uword \<Rightarrow> nat \<Rightarrow> bool" where
  "touches g a n i \<longleftrightarrow> page_address g i < unat a + 8 * unat n \<and> unat a < page_address g i + GENCGC_PAGE_BYTES \<and>
     0 < page_bytes_used g i"

lemma pin_at_touches:
  assumes "pin_at g a n f l" "i \<in> {f..l}"
  shows "touches g a n i"
proof -
  have "page_address g f \<le> page_address g i" "page_address g i \<le> page_address g l"
    using assms(2) by (auto intro: page_address_mono)
  moreover have "0 < page_bytes_used g i"
    using assms by (cases "i = l") (auto simp: pin_at_def GENCGC_PAGE_BYTES_def)
  ultimately show ?thesis using assms(1) unfolding pin_at_def touches_def by linarith
qed

text \<open>Fillers go on from \<open>fill_from\<close> on the page of the object, which begins a group of pages or, with the
  pages from \<open>s\<close> on, is one that has been moved already; \<open>lo\<close> is the first page not moved.\<close>

definition fill_at :: "int \<Rightarrow> gc \<Rightarrow> nat \<Rightarrow> nat \<Rightarrow> uword \<Rightarrow> uword \<Rightarrow> nat \<Rightarrow> bool" where
  "fill_at ns g lo s fill_from a f \<longleftrightarrow>
     fill_from = page_base a \<and> s = f \<and> lo \<le> f \<or>
     page_address g f < unat fill_from \<and> unat fill_from \<le> unat a \<and> 16 dvd unat fill_from \<and> lo = Suc f \<and> s \<le> f \<and>
     (\<forall>i \<in> {s..f}. pgen (page_table g i) = ns \<and> scan_start_offset_w (page_table g i) = block_offset (i - s))"

lemma page_address_16: "table_fits g \<Longrightarrow> 16 dvd page_address g p"
  using dvd_trans[of "16 :: nat" 32768] by (auto simp: table_fits_def page_address_def GENCGC_PAGE_BYTES_def)

lemma fill_at_span:
  assumes fits: "table_fits g" and pin: "pin_at g a n f l" and fa: "fill_at ns g lo s fill_from a f"
  shows "page_span g f fill_from a"
proof -
  note D = pin_atD[OF fits pin]
  note d = page_address_16[OF fits, of f]
  have "page_address g f \<le> unat fill_from \<and> unat fill_from \<le> unat a \<and> 16 dvd unat fill_from"
    using fa D(5) d pin by (auto simp: fill_at_def pin_at_def)
  then show ?thesis using pin by (simp add: page_span_def pin_at_def)
qed

lemma pin_at_memory:
  assumes "pin_at g a n f l" and "\<forall>x. unat a \<le> unat x \<and> unat x < unat a + 8 * unat n \<longrightarrow> H x = memory g x"
    and "table_fits g"
  shows "pin_at (g\<lparr>memory := H\<rparr>) a n f l"
proof -
  note D = pin_atD[OF assms(3,1)]
  have "unat (a + 8) = unat a + 8" using D(2,7) unsigned_less[of "a + 8 * n", where 'a = nat]
    by (simp add: unat_word_ariths)
  then have "H a = memory g a" "H (a + 8) = memory g (a + 8)" using assms(2) D(7) by simp_all
  from object_words_cong[of H, OF this] show ?thesis using assms(1) by (simp add: pin_at_def)
qed

lemma pin_step:
  assumes fits: "table_fits g" and pin: "pin_at g a n f l" and ns: "ns \<noteq> from_space g"
    and fa: "fill_at ns g lo s fill_from a f" and pages: "\<forall>i \<in> {f..l}. lo \<le> i \<longrightarrow> pgen (page_table g i) = from_space g"
  defines "A \<equiv> {i \<in> {f..l}. lo \<le> i}"
  shows "\<exists>H xs. let g1 = g\<lparr>memory := H\<rparr>; g2 = move_pages ns s A g1 in
    deposit_filler fill_from a g = Some (Inr g1) \<and>
    move_pinned_object ns fill_from a (m, g1) = Some (Inr (a + 8 * n, l, m + (\<Sum>i \<in> A. page_bytes_used g i), g2)) \<and>
    walk H (a + 8 * n) fill_from (xs @ [(a, n)]) \<and> list_all (blank H) xs \<and>
    (\<forall>x. unat x < unat fill_from \<or> unat a \<le> unat x \<longrightarrow> H x = memory g x) \<and> s \<le> f \<and>
    (\<forall>i \<in> {s..l}. pgen (page_table g2 i) = ns \<and> scan_start_offset_w (page_table g2 i) = block_offset (i - s))"
proof -
  note D = pin_atD[OF fits pin]
  have fl: "f \<le> l" using pin by (simp add: pin_at_def)
  obtain H xs where H: "deposit_filler fill_from a g = Some (Inr (g\<lparr>memory := H\<rparr>))" "blanks H a fill_from xs"
    "\<forall>x. unat x < unat fill_from \<or> unat a \<le> unat x \<longrightarrow> H x = memory g x"
    using deposit_filler_spec[OF fill_at_span[OF fits pin fa]] by blast
  let ?g = "g\<lparr>memory := H\<rparr>"
  have fits': "table_fits ?g" using fits by (simp add: table_fits_def)
  have pin': "pin_at ?g a n f l" using H(3) by (intro pin_at_memory[OF pin _ fits]) simp
  have new: "fill_from = page_base a \<longleftrightarrow> lo \<le> f" using fa D(5) by (auto simp: fill_at_def)
  have A: "A = (if fill_from = page_base a then {f..l} else {f<..l})"
    using fa new by (auto simp: A_def fill_at_def)
  have s: "if fill_from = page_base a then s = f else s \<le> f \<and> page_scan_start ?g f = page_address ?g s"
    and off: "lo \<le> f \<or> (\<forall>i \<in> {s..f}. pgen (page_table g i) = ns \<and> scan_start_offset_w (page_table g i) = block_offset (i - s))"
    and sf: "s \<le> f"
    using fa page_scan_start_block[of "f - s" g s] new D(5) by (auto simp: fill_at_def)
  have "\<forall>i \<in> (if fill_from = page_base a then {f..l} else {f<..l}). pgen (page_table ?g i) = from_space ?g"
    using pages unfolding A[symmetric] by (simp add: A_def)
  from move_pinned_object_spec[OF fits' pin' _ this s, of ns m]
  have mv: "move_pinned_object ns fill_from a (m, ?g) =
      Some (Inr (a + 8 * n, l, m + (\<Sum>i \<in> A. page_bytes_used g i), move_pages ns s A ?g))"
    using ns unfolding A[symmetric] by simp
  have w: "walk H (a + 8 * n) fill_from (xs @ [(a, n)])"
    using H(2) pin' D(2) by (intro walk_append[of H a]) (simp_all add: blanks_def walk_Cons pin_at_def)
  have "pgen (page_table (move_pages ns s A ?g) i) = ns \<and>
      scan_start_offset_w (page_table (move_pages ns s A ?g) i) = block_offset (i - s)" if "i \<in> {s..l}" for i
  proof (cases "i \<in> A")
    case False
    have "\<not> lo \<le> f"
    proof
      assume "lo \<le> f"
      moreover from this fa have "s = f" by (auto simp: fill_at_def)
      ultimately show False using False that by (auto simp: A_def)
    qed
    moreover have "i \<le> f" using False that fa sf by (auto simp: A_def fill_at_def not_le)
    ultimately show ?thesis using off that False by (simp add: move_pages_table)
  qed (simp add: move_pages_table)
  then show ?thesis using H w mv sf by (intro exI[of _ H] exI[of _ xs]) (simp add: Let_def blanks_def)
qed

section \<open>All pinned objects\<close>

definition pin_of :: "(uword \<Rightarrow> uword) \<Rightarrow> lispobj \<Rightarrow> uword \<times> uword" where
  "pin_of N key = (native_pointer key, N (native_pointer key))"

definition pinned_keys :: "gc \<Rightarrow> (uword \<Rightarrow> uword) \<Rightarrow> nat \<Rightarrow> lispobj list \<Rightarrow> bool" where
  "pinned_keys g N lo keys \<longleftrightarrow>
     (\<forall>key \<in> set keys. \<exists>f l. pin_at g (native_pointer key) (N (native_pointer key)) f l \<and>
        (\<forall>i \<in> {f..l}. lo \<le> i \<longrightarrow> pgen (page_table g i) = from_space g)) \<and>
     sorted_wrt (\<lambda>x y. unat (native_pointer x) + 8 * unat (N (native_pointer x)) \<le> unat (native_pointer y)) keys"

text \<open>Pages \<open>s\<close> to \<open>l\<close>, moved, with \<open>s\<close> as their scan start; from \<open>st\<close> on, blanks and objects of \<open>P\<close>
  fill what is used of them.\<close>

definition pinned_group :: "gc \<Rightarrow> (uword \<times> uword) set \<Rightarrow> int \<Rightarrow> nat \<Rightarrow> nat \<Rightarrow> uword \<Rightarrow> (uword \<times> uword) list \<Rightarrow> bool" where
  "pinned_group g P ns s l st objs \<longleftrightarrow>
     s \<le> l \<and> l < page_table_pages g \<and> walk (memory g) (of_nat (page_address g l + page_bytes_used g l)) st objs \<and>
     (\<forall>ob \<in> set objs. ob \<in> P \<or> blank (memory g) ob) \<and>
     (\<forall>i \<in> {s..l}. pgen (page_table g i) = ns \<and> scan_start_offset_w (page_table g i) = block_offset (i - s))"

definition in_group :: "gc \<Rightarrow> (uword \<times> uword) set \<Rightarrow> int \<Rightarrow> uword \<times> uword \<Rightarrow> bool" where
  "in_group g P ns pin \<longleftrightarrow>
     (\<exists>s l objs. pinned_group g P ns s l (of_nat (page_address g s)) objs \<and> pin \<in> set objs)"

definition moved_pages :: "int \<Rightarrow> gc \<Rightarrow> gc \<Rightarrow> (uword \<times> uword) set \<Rightarrow> nat set \<Rightarrow> bool" where
  "moved_pages ns g g' Q A \<longleftrightarrow> finite A \<and> (\<forall>i. i \<notin> A \<longrightarrow> page_table g' i = page_table g i) \<and>
     (\<forall>i \<in> A. i < page_table_pages g \<and> pgen (page_table g i) = from_space g \<and> (\<exists>(a, n) \<in> Q. touches g a n i) \<and>
        (\<exists>k. page_table g' i = (page_table g i)\<lparr>scan_start_offset_w := k, pgen := ns\<rparr>))"

lemma walk_blank_cong:
  assumes "walk h limit a objs" and "\<And>x. unat a \<le> unat x \<Longrightarrow> unat x < unat limit \<Longrightarrow> h' x = h x"
    and "ob \<in> set objs" "blank h ob"
  shows "blank h' ob"
  using assms
proof (induction objs arbitrary: a)
  case (Cons ob' objs)
  then obtain n where n: "ob' = (a, n)" "whole_pairs n" "unat a + 8 * unat n \<le> unat limit" "walk h limit (a + 8 * n) objs"
    by (auto simp: walk_Cons)
  have e: "unat (a + 8 * n) = unat a + 8 * unat n" using unat_next[OF n(3), of "unat n"] by simp
  show ?case
  proof (cases "ob = ob'")
    case True
    have "h' x = h x" if "x \<in> words_of a n" for x
      using words_of_range[OF n(3) that] n(3) by (intro Cons.prems(2)) simp_all
    then have "h' a = h a" "h' (a + 8) = h (a + 8)" using whole_pairs_words(1,2)[OF n(2)] by blast+
    then show ?thesis using Cons.prems(4) unfolding True n(1) by (simp add: blank_def)
  next
    case False
    then show ?thesis using Cons.prems e by (intro Cons.IH[OF n(4)]) simp_all
  qed
qed simp

lemma key_below:
  assumes "16 dvd unat B"
  shows "key < B \<longleftrightarrow> native_pointer key < B"
proof -
  obtain k where "unat B = 16 * k" using assms by (auto elim: dvdE)
  moreover have "u div 16 * 16 < 16 * k \<longleftrightarrow> u < 16 * k" for u :: nat
    by (simp add: div_less_iff_less_mult mult.commute)
  ultimately show ?thesis by (simp add: word_less_nat_alt native_pointer_unat)
qed

lemma page_base_native: "page_base (native_pointer key) = page_base key"
proof -
  have b: "unat (page_base x) = unat x div 32768 * 32768" for x
    using unat_ALIGN_DOWN[of x 15] by (simp add: page_base_def GENCGC_PAGE_BYTES_def)
  have "u div 16 * 16 div 32768 = u div 32768" for u :: nat
  proof -
    have "u div 16 * 16 div (16 * 2048) = u div 16 div 2048" by (subst div_mult2_eq) simp
    also have "\<dots> = u div (16 * 2048)" by (simp only: div_mult2_eq)
    finally show ?thesis by simp
  qed
  then show ?thesis by (simp add: word_unat_eq_iff b native_pointer_unat)
qed

lemma moved_pages_trans:
  assumes "moved_pages ns (move_pages ns s A (g\<lparr>memory := H\<rparr>)) g' Q B" and "\<forall>i \<in> A. i \<notin> B"
    and "finite A" "\<forall>i \<in> A. i < page_table_pages g \<and> pgen (page_table g i) = from_space g \<and> touches g a n i"
  shows "moved_pages ns g g' (insert (a, n) Q) (A \<union> B)"
proof -
  let ?g = "move_pages ns s A (g\<lparr>memory := H\<rparr>)"
  have t: "touches ?g = touches g" by (simp add: touches_def fun_eq_iff)
  note m = assms(1)[unfolded moved_pages_def t]
  have e: "page_table ?g i = page_table g i" if "i \<notin> A" for i using that by (simp add: move_pages_table)
  have a: "\<exists>k. page_table g' i = (page_table g i)\<lparr>scan_start_offset_w := k, pgen := ns\<rparr>" if "i \<in> A" for i
    using m that assms(2) by (auto simp: move_pages_table)
  have b: "i < page_table_pages g \<and> pgen (page_table g i) = from_space g \<and> (\<exists>(a, n) \<in> Q. touches g a n i) \<and>
      (\<exists>k. page_table g' i = (page_table g i)\<lparr>scan_start_offset_w := k, pgen := ns\<rparr>)" if "i \<in> B" for i
  proof -
    have "i \<notin> A" using that assms(2) by blast
    note ei = e[OF this]
    have "i < page_table_pages ?g \<and> pgen (page_table ?g i) = from_space ?g \<and> (\<exists>(a, n) \<in> Q. touches g a n i) \<and>
      (\<exists>k. page_table g' i = (page_table ?g i)\<lparr>scan_start_offset_w := k, pgen := ns\<rparr>)" using m that by blast
    then show ?thesis unfolding ei by simp
  qed
  have c: "page_table g' i = page_table g i" if "i \<notin> A \<union> B" for i using that m e by simp
  show ?thesis unfolding moved_pages_def
  proof (intro conjI ballI allI impI)
    show "finite (A \<union> B)" using m assms(3) by simp
  qed (use a b c assms(4) in blast)+
qed

lemma pinned_keys_after:
  assumes K: "pinned_keys g N lo (key # keys)" and fits: "table_fits g" and A: "\<forall>i \<in> A. i \<le> l" "lo \<le> Suc l"
    and H: "\<forall>x. keys \<noteq> [] \<and> unat (native_pointer (hd keys)) \<le> unat x \<longrightarrow> H x = memory g x"
  shows "pinned_keys (move_pages ns s A (g\<lparr>memory := H\<rparr>)) N (Suc l) keys"
proof -
  let ?g = "move_pages ns s A (g\<lparr>memory := H\<rparr>)"
  have "\<exists>f l'. pin_at ?g (native_pointer k) (N (native_pointer k)) f l' \<and>
      (\<forall>i \<in> {f..l'}. Suc l \<le> i \<longrightarrow> pgen (page_table ?g i) = from_space ?g)" if k: "k \<in> set keys" for k
  proof -
    obtain f l' where p: "pin_at g (native_pointer k) (N (native_pointer k)) f l'"
      "\<forall>i \<in> {f..l'}. lo \<le> i \<longrightarrow> pgen (page_table g i) = from_space g"
      using K k unfolding pinned_keys_def by auto
    have "unat (native_pointer (hd keys)) \<le> unat (native_pointer k)"
      using K k by (cases keys) (auto simp: pinned_keys_def)
    moreover have "keys \<noteq> []" using k by auto
    ultimately have "\<forall>x. unat (native_pointer k) \<le> unat x \<longrightarrow> H x = memory g x" using H le_trans by blast
    then have "pin_at (g\<lparr>memory := H\<rparr>) (native_pointer k) (N (native_pointer k)) f l'"
      by (intro pin_at_memory[OF p(1) _ fits]) simp
    then have "pin_at ?g (native_pointer k) (N (native_pointer k)) f l'" by (simp add: pin_at_def)
    moreover have "\<forall>i \<in> {f..l'}. Suc l \<le> i \<longrightarrow> pgen (page_table ?g i) = from_space ?g"
      using p(2) A by (auto simp: move_pages_table)
    ultimately show ?thesis by blast
  qed
  then show ?thesis using K by (simp add: pinned_keys_def)
qed

lemma pinned_group_append:
  assumes w: "walk H mid st (xs @ [pin])" "list_all (blank H) xs" "\<forall>x. unat x < unat mid \<longrightarrow> memory g x = H x"
    and g: "pinned_group g P ns s l mid objs" and p: "pin \<in> P"
  shows "pinned_group g P ns s l st (xs @ pin # objs)"
proof -
  have "walk (memory g) mid st (xs @ [pin])" by (rule walk_cong[OF w(1)]) (simp add: w(3))
  then have "walk (memory g) (of_nat (page_address g l + page_bytes_used g l)) st ((xs @ [pin]) @ objs)"
    by (rule walk_append) (use g in \<open>simp add: pinned_group_def\<close>)
  moreover have "blank (memory g) ob" if "ob \<in> set xs" for ob
    by (rule walk_blank_cong[OF w(1)]) (use w(2,3) that in \<open>auto simp: list_all_iff\<close>)
  ultimately show ?thesis using g p by (auto simp: pinned_group_def)
qed

lemma fill_between_spec:
  assumes "table_fits g" and "ns \<noteq> from_space g" and "pinned_keys g N lo keys"
    and "keys = key # keys'" and "find_page_index g (unat (native_pointer key)) = Some f"
    and "fill_at ns g lo s fill_from (native_pointer key) f" and "pin_of N ` set keys \<subseteq> P"
  shows "\<exists>H T A. let g' = g\<lparr>memory := H, page_table := T\<rparr> in
    fill_between ns keys fill_from (m, g) = Some (Inr (m + (\<Sum>i \<in> A. page_bytes_used g i), g')) \<and>
    moved_pages ns g g' (pin_of N ` set keys) A \<and> (\<forall>i \<in> A. lo \<le> i) \<and>
    (\<forall>x. unat x < unat fill_from \<longrightarrow> H x = memory g x) \<and>
    (\<forall>(a, n) \<in> pin_of N ` set keys. \<forall>x. unat a \<le> unat x \<and> unat x < unat a + 8 * unat n \<longrightarrow> H x = memory g x) \<and>
    (\<exists>l objs. pinned_group g' P ns s l fill_from objs \<and> pin_of N key \<in> set objs \<and>
       (\<forall>pin \<in> pin_of N ` set keys. pin \<in> set objs \<or> in_group g' P ns pin))"
  using assms
proof (induction keys arbitrary: m g lo s fill_from key keys' f)
  case (Cons key0 keys)
  let ?a = "native_pointer key" let ?n = "N ?a"
  have k: "key0 = key" "keys' = keys" using Cons.prems(4) by simp_all
  note fits = Cons.prems(1) and ns = Cons.prems(2) and fa = Cons.prems(6)
  obtain f0 l where pin: "pin_at g ?a ?n f0 l" and pages: "\<forall>i \<in> {f0..l}. lo \<le> i \<longrightarrow> pgen (page_table g i) = from_space g"
    using Cons.prems(3) unfolding pinned_keys_def k by auto
  have f: "f0 = f" using pin_atD(1)[OF fits pin] Cons.prems(5) by simp
  note pin = pin[unfolded f] and pages = pages[unfolded f]
  note D = pin_atD[OF fits pin]
  have fl: "f \<le> l" "l < page_table_pages g" using pin by (simp_all add: pin_at_def)
  define A where "A = {i \<in> {f..l}. lo \<le> i}"
  obtain H xs where st: "deposit_filler fill_from ?a g = Some (Inr (g\<lparr>memory := H\<rparr>))"
    "move_pinned_object ns fill_from ?a (m, g\<lparr>memory := H\<rparr>) =
       Some (Inr (?a + 8 * ?n, l, m + (\<Sum>i \<in> A. page_bytes_used g i), move_pages ns s A (g\<lparr>memory := H\<rparr>)))"
    "walk H (?a + 8 * ?n) fill_from (xs @ [(?a, ?n)])" "list_all (blank H) xs"
    "\<forall>x. unat x < unat fill_from \<or> unat ?a \<le> unat x \<longrightarrow> H x = memory g x" "s \<le> f"
    "\<forall>i \<in> {s..l}. pgen (page_table (move_pages ns s A (g\<lparr>memory := H\<rparr>)) i) = ns \<and>
       scan_start_offset_w (page_table (move_pages ns s A (g\<lparr>memory := H\<rparr>)) i) = block_offset (i - s)"
    using pin_step[OF fits pin ns fa pages, of m, folded A_def] unfolding Let_def by blast
  have A: "finite A" "\<forall>i \<in> A. lo \<le> i \<and> i \<le> l"
    "\<forall>i \<in> A. i < page_table_pages g \<and> pgen (page_table g i) = from_space g \<and> touches g ?a ?n i"
    using pages fl pin_at_touches[OF pin] by (auto simp: A_def)
  define B where "B = page_base (?a + 8 * ?n - 1) + of_nat GENCGC_PAGE_BYTES"
  have B: "unat B = page_address g l + GENCGC_PAGE_BYTES"
    using page_end[OF fits fl(2)] D(6) by (simp add: B_def unat_word_ariths GENCGC_PAGE_BYTES_def)
  have B16: "16 dvd unat B" using page_address_16[OF fits, of l] by (simp add: B GENCGC_PAGE_BYTES_def)
  have later: "\<forall>k \<in> set keys. unat ?a + 8 * unat ?n \<le> unat (native_pointer k)"
    using Cons.prems(3) unfolding pinned_keys_def k by simp
  have lo: "lo \<le> Suc l" using fa fl(1) by (auto simp: fill_at_def)
  let ?g2 = "move_pages ns s A (g\<lparr>memory := H\<rparr>)" and ?m = "m + (\<Sum>i \<in> A. page_bytes_used g i)"
  have inP: "pin_of N key \<in> P" "pin_of N ` set keys \<subseteq> P" using Cons.prems(7) by (auto simp: k)
  have pin_of: "pin_of N key = (?a, ?n)" by (simp add: pin_of_def)
  have sum: "(\<Sum>i \<in> A \<union> A'. page_bytes_used g i) = (\<Sum>i \<in> A. page_bytes_used g i) + (\<Sum>i \<in> A'. page_bytes_used g i)"
    if "finite A'" "\<forall>i \<in> A'. Suc l \<le> i" for A'
    using that A(1,2) by (intro sum.union_disjoint) force+
  show ?case
  proof (cases "next_key keys < B")
    case True
    then obtain k2 ks where ks: "keys = k2 # ks" and lt: "k2 < B"
    proof (cases keys)
      case Nil
      then show ?thesis using True by (simp add: next_key_def not_less[symmetric])
    qed (use True in \<open>simp add: next_key_def\<close>)
    let ?a2 = "native_pointer k2"
    have a2: "unat ?a + 8 * unat ?n \<le> unat ?a2" "unat ?a2 < unat B"
      using later lt key_below[OF B16, of k2] by (simp_all add: ks word_less_nat_alt)
    have f2: "find_page_index ?g2 (unat ?a2) = Some l"
      using a2 B fl pin by (simp add: find_page_index_Some pin_at_def)
    have fits2: "table_fits ?g2" using fits by (simp add: table_fits_def)
    have K2: "pinned_keys ?g2 N (Suc l) keys"
      using Cons.prems(3) st(5) a2(1) by (intro pinned_keys_after[OF _ fits _ lo]) (auto simp: k A(2) ks)
    have fa2: "fill_at ns ?g2 (Suc l) s (?a + 8 * ?n) ?a2 l"
      using D(2,8) a2(1) fl st(6,7) pin by (auto simp: fill_at_def pin_at_def)
    have ns2: "ns \<noteq> from_space ?g2" using ns by simp
    have upd: "?g2\<lparr>memory := H', page_table := T\<rparr> = g\<lparr>memory := H', page_table := T\<rparr>" for H' T
      by (simp add: move_pages_def)
    have bytes: "page_bytes_used ?g2 = page_bytes_used g" and mem: "memory ?g2 = H" by simp_all
    obtain H' T A' where IH: "fill_between ns keys (?a + 8 * ?n) (?m, ?g2) =
        Some (Inr (?m + (\<Sum>i \<in> A'. page_bytes_used g i), g\<lparr>memory := H', page_table := T\<rparr>))"
      "moved_pages ns ?g2 (g\<lparr>memory := H', page_table := T\<rparr>) (pin_of N ` set keys) A'" "\<forall>i \<in> A'. Suc l \<le> i"
      "\<forall>x. unat x < unat (?a + 8 * ?n) \<longrightarrow> H' x = H x"
      "\<forall>(b, n) \<in> pin_of N ` set keys. \<forall>x. unat b \<le> unat x \<and> unat x < unat b + 8 * unat n \<longrightarrow> H' x = H x"
      "\<exists>l objs. pinned_group (g\<lparr>memory := H', page_table := T\<rparr>) P ns s l (?a + 8 * ?n) objs \<and> pin_of N k2 \<in> set objs \<and>
         (\<forall>pin \<in> pin_of N ` set keys. pin \<in> set objs \<or> in_group (g\<lparr>memory := H', page_table := T\<rparr>) P ns pin)"
      using Cons.IH[OF fits2 ns2 K2 ks f2 fa2 inP(2), of ?m] unfolding Let_def upd bytes mem
      by (elim exE conjE) (rule that; (assumption | blast))
    let ?g' = "g\<lparr>memory := H', page_table := T\<rparr>"
    obtain l' objs where gr: "pinned_group ?g' P ns s l' (?a + 8 * ?n) objs"
      "\<forall>pin \<in> pin_of N ` set keys. pin \<in> set objs \<or> in_group ?g' P ns pin" using IH(6) by blast
    have le: "unat ?a \<le> unat (?a + 8 * ?n)" "unat fill_from \<le> unat ?a" using D(2) fill_at_span[OF fits pin fa]
      by (simp_all add: page_span_def)
    have c1: "fill_between ns (key0 # keys) fill_from (m, g) =
        Some (Inr (m + (\<Sum>i \<in> A \<union> A'. page_bytes_used g i), ?g'))"
      using st(1,2) True IH(1) sum[of A'] IH(2,3) unfolding k
      by (simp add: option_rbind_def B_def Let_def moved_pages_def add.assoc)
    have c2: "moved_pages ns g ?g' (pin_of N ` set (key0 # keys)) (A \<union> A')"
      using moved_pages_trans[OF IH(2) _ A(1,3)] IH(3) A(2) unfolding k by (force simp: pin_of)
    have c3: "\<forall>i \<in> A \<union> A'. lo \<le> i" using A(2) IH(3) lo by force
    have c4: "\<forall>x. unat x < unat fill_from \<longrightarrow> H' x = memory g x" using IH(4) st(5) le by simp
    have c5: "H' x = memory g x" if "(b, n) \<in> pin_of N ` set (key0 # keys)" "unat b \<le> unat x" "unat x < unat b + 8 * unat n" for b n x
    proof (cases "(b, n) = (?a, ?n)")
      case True
      then show ?thesis using that IH(4) st(5) D(2) by simp
    next
      case False
      then have "(b, n) \<in> pin_of N ` set keys" using that(1) by (auto simp: k pin_of)
      moreover from this have "unat ?a \<le> unat x" using later that(2) by (auto simp: pin_of_def)
      ultimately show ?thesis using IH(5) that(2,3) st(5) by fastforce
    qed
    have c6: "pinned_group ?g' P ns s l' fill_from (xs @ (?a, ?n) # objs)"
      using inP(1) IH(4) by (intro pinned_group_append[OF st(3,4) _ gr(1)]) (simp_all add: pin_of)
    have c5': "\<forall>(b, n) \<in> pin_of N ` set (key0 # keys). \<forall>x. unat b \<le> unat x \<and> unat x < unat b + 8 * unat n \<longrightarrow>
        H' x = memory g x" using c5 by blast
    have c7: "pin_of N key \<in> set (xs @ (?a, ?n) # objs)" by (simp add: pin_of)
    have c8: "\<forall>pin \<in> pin_of N ` set (key0 # keys). pin \<in> set (xs @ (?a, ?n) # objs) \<or> in_group ?g' P ns pin"
      using gr(2) by (auto simp: k pin_of)
    show ?thesis unfolding Let_def by (intro exI conjI) (rule c1 c2 c3 c4 c5' c6 c7 c8)+
  next
    case False
    let ?lim = "of_nat (page_address g l + page_bytes_used g l) :: uword"
    have used: "page_bytes_used g l \<le> GENCGC_PAGE_BYTES" "16 dvd page_bytes_used g l"
      "unat ?a + 8 * unat ?n \<le> page_address g l + page_bytes_used g l" "page_address g l < unat ?a + 8 * unat ?n"
      using pin by (simp_all add: pin_at_def)
    have lim: "unat ?lim = page_address g l + page_bytes_used g l"
      using page_end[OF fits fl(2)] used(1) by (intro unat_of_nat_small) linarith
    have limw: "page_base (?a + 8 * ?n - 1) + of_nat (page_bytes_used g l) = ?lim"
      using page_end[OF fits fl(2)] used(1) D(6) by (simp add: word_unat_eq_iff lim unat_word_ariths unat_of_nat_small del: of_nat_add)
    have sp: "page_span ?g2 l (?a + 8 * ?n) ?lim"
      using used D(2,8) fl(2) page_address_16[OF fits, of l] by (simp add: page_span_def lim del: of_nat_add)
    obtain H3 ys where H3: "deposit_filler (?a + 8 * ?n) ?lim ?g2 = Some (Inr (?g2\<lparr>memory := H3\<rparr>))"
      "blanks H3 ?lim (?a + 8 * ?n) ys" "\<forall>x. unat x < unat (?a + 8 * ?n) \<or> unat ?lim \<le> unat x \<longrightarrow> H3 x = H x"
      using deposit_filler_spec[OF sp] by auto
    let ?g3 = "move_pages ns s A (g\<lparr>memory := H3\<rparr>)"
    have g3: "?g2\<lparr>memory := H3\<rparr> = ?g3" by (simp add: move_pages_def cong: if_cong)
    have upd: "?g3\<lparr>memory := H', page_table := T\<rparr> = g\<lparr>memory := H', page_table := T\<rparr>" for H' T
      by (simp add: move_pages_def)
    have bytes: "page_bytes_used ?g3 = page_bytes_used g" and mem: "memory ?g3 = H3" by simp_all
    have first: "fill_between ns (key0 # keys) fill_from (m, g) = fill_between ns keys (page_base (next_key keys)) (?m, ?g3)"
      using st(1,2) False H3(1) unfolding k by (simp add: option_rbind_def B_def Let_def limw g3 del: of_nat_add)
    have far: "unat B \<le> unat (native_pointer k')" if k': "k' \<in> set keys" for k'
    proof -
      obtain k2 ks where ks: "keys = k2 # ks" using k' by (cases keys) auto
      have "unat B \<le> unat (native_pointer k2)"
        using False key_below[OF B16, of k2] by (simp add: ks next_key_def word_less_nat_alt not_less)
      moreover have "unat (native_pointer k2) \<le> unat (native_pointer k')"
        using Cons.prems(3) k' by (auto simp: k ks pinned_keys_def)
      ultimately show ?thesis by simp
    qed
    have HB: "H3 x = memory g x" if "unat B \<le> unat x" for x
    proof -
      have "unat ?lim \<le> unat x" "unat ?a \<le> unat x" using that B used(1,3) unfolding lim by linarith+
      then show ?thesis using H3(3) st(5) by simp
    qed
    obtain H' T A' where IH: "fill_between ns keys (page_base (next_key keys)) (?m, ?g3) =
        Some (Inr (?m + (\<Sum>i \<in> A'. page_bytes_used g i), g\<lparr>memory := H', page_table := T\<rparr>))"
      "moved_pages ns ?g3 (g\<lparr>memory := H', page_table := T\<rparr>) (pin_of N ` set keys) A'" "\<forall>i \<in> A'. Suc l \<le> i"
      "\<forall>x. unat x < unat ?lim \<longrightarrow> H' x = H3 x"
      "\<forall>(b, n) \<in> pin_of N ` set keys. \<forall>x. unat b \<le> unat x \<and> unat x < unat b + 8 * unat n \<longrightarrow> H' x = H3 x"
      "\<forall>pin \<in> pin_of N ` set keys. in_group (g\<lparr>memory := H', page_table := T\<rparr>) P ns pin"
    proof (cases keys)
      case Nil
      have "g\<lparr>memory := H3, page_table := page_table ?g3\<rparr> = ?g3" by (simp add: move_pages_def)
      then show ?thesis using that[of "{}" "page_table ?g3" H3] unfolding Nil by (simp add: moved_pages_def)
    next
      case (Cons k2 ks)
      let ?a2 = "native_pointer k2"
      have a2: "unat B \<le> unat ?a2" by (rule far) (simp add: Cons)
      have H: "H3 x = memory g x" if "unat ?a2 \<le> unat x" for x using that a2 HB by simp
      have fits3: "table_fits ?g3" and ns3: "ns \<noteq> from_space ?g3" using fits ns by (simp_all add: table_fits_def)
      have K3: "pinned_keys ?g3 N (Suc l) keys"
        using Cons.prems(3) H by (intro pinned_keys_after[OF _ fits _ lo]) (auto simp: k A(2) Cons)
      then obtain f2 l2 where p2: "pin_at ?g3 ?a2 (N ?a2) f2 l2" unfolding pinned_keys_def Cons by auto
      note D2 = pin_atD[OF fits3 p2]
      have "page_address g l < page_address g f2" using a2 B p2 by (simp add: pin_at_def)
      then have f2: "Suc l \<le> f2" by (simp add: page_address_def)
      have pb: "page_base (next_key keys) = page_base ?a2" by (simp add: Cons next_key_def page_base_native)
      have fa3: "fill_at ns ?g3 (Suc l) f2 (page_base (next_key keys)) ?a2 f2" using f2 by (simp add: fill_at_def pb)
      have away: "unat ?lim \<le> unat (page_base (next_key keys))"
        using f2 used(1) D2(5) page_address_mono[OF f2, of g] unfolding pb lim
        by (simp add: page_address_def GENCGC_PAGE_BYTES_def)
      obtain H' T A' l' objs where IH: "fill_between ns keys (page_base (next_key keys)) (?m, ?g3) =
          Some (Inr (?m + (\<Sum>i \<in> A'. page_bytes_used g i), g\<lparr>memory := H', page_table := T\<rparr>))"
        "moved_pages ns ?g3 (g\<lparr>memory := H', page_table := T\<rparr>) (pin_of N ` set keys) A'" "\<forall>i \<in> A'. Suc l \<le> i"
        "\<forall>x. unat x < unat (page_base (next_key keys)) \<longrightarrow> H' x = H3 x"
        "\<forall>(b, n) \<in> pin_of N ` set keys. \<forall>x. unat b \<le> unat x \<and> unat x < unat b + 8 * unat n \<longrightarrow> H' x = H3 x"
        "pinned_group (g\<lparr>memory := H', page_table := T\<rparr>) P ns f2 l' (page_base (next_key keys)) objs"
        "\<forall>pin \<in> pin_of N ` set keys. pin \<in> set objs \<or> in_group (g\<lparr>memory := H', page_table := T\<rparr>) P ns pin"
        using Cons.IH[OF fits3 ns3 K3 Cons D2(1) fa3 inP(2), of ?m] unfolding Let_def upd bytes mem
        by (elim exE conjE) (rule that; assumption)
      have "page_base (next_key keys) = of_nat (page_address (g\<lparr>memory := H', page_table := T\<rparr>) f2)"
        using arg_cong[OF D2(5), of "of_nat :: nat \<Rightarrow> uword"] by (simp add: pb page_address_def)
      then have "in_group (g\<lparr>memory := H', page_table := T\<rparr>) P ns pin" if "pin \<in> pin_of N ` set keys" for pin
        using IH(6,7) that unfolding in_group_def by metis
      then show ?thesis using IH(1-5) away by (intro that[of A' T H']) auto
    qed
    let ?g' = "g\<lparr>memory := H', page_table := T\<rparr>"
    have w3: "walk H3 (?a + 8 * ?n) fill_from (xs @ [(?a, ?n)])"
      by (rule walk_cong[OF st(3)]) (simp add: H3(3))
    have b3: "list_all (blank H3) xs" unfolding list_all_iff
    proof
      fix ob assume "ob \<in> set xs"
      then show "blank H3 ob"
        using walk_blank_cong[OF st(3), of H3 ob] H3(3) st(4) by (auto simp: list_all_iff)
    qed
    have below: "unat (?a + 8 * ?n) \<le> unat ?lim" using used(3) D(2) unfolding lim by simp
    have pages': "T i = page_table ?g2 i" if "i \<le> l" for i
    proof -
      have "i \<notin> A'" using IH(3) that by force
      then have "page_table ?g' i = page_table ?g3 i" using IH(2) unfolding moved_pages_def by blast
      then show ?thesis by (simp add: move_pages_table)
    qed
    have wy: "walk H' ?lim (?a + 8 * ?n) ys"
      by (rule walk_cong[of H3]) (use H3(2) IH(4) in \<open>simp_all add: blanks_def\<close>)
    have by': "blank H' ob" if "ob \<in> set ys" for ob
      using walk_blank_cong[of H3 ?lim "?a + 8 * ?n" ys H' ob] H3(2) IH(4) that
      by (auto simp: blanks_def list_all_iff)
    have "pinned_group ?g' P ns s l (?a + 8 * ?n) ys"
    proof -
      have "page_bytes_used ?g' l = page_bytes_used g l"
        using pages'[of l] by (simp add: page_bytes_used_def move_pages_table)
      moreover have "page_address ?g' l = page_address g l" by (simp add: page_address_def)
      ultimately show ?thesis using st(6,7) fl wy by' pages' by (auto simp: pinned_group_def simp del: of_nat_add)
    qed
    then have c6: "pinned_group ?g' P ns s l fill_from (xs @ (?a, ?n) # ys)"
      using inP(1) IH(4) below by (intro pinned_group_append[OF w3 b3]) (simp_all add: pin_of)
    have c1: "fill_between ns (key0 # keys) fill_from (m, g) =
        Some (Inr (m + (\<Sum>i \<in> A \<union> A'. page_bytes_used g i), ?g'))"
      using IH(1) sum[of A'] IH(2,3) unfolding first by (simp add: moved_pages_def add.assoc)
    have c2: "moved_pages ns g ?g' (pin_of N ` set (key0 # keys)) (A \<union> A')"
      using moved_pages_trans[OF IH(2) _ A(1,3)] IH(3) A(2) unfolding k by (force simp: pin_of)
    have c3: "\<forall>i \<in> A \<union> A'. lo \<le> i" using A(2) IH(3) lo by force
    have le: "unat fill_from \<le> unat ?a" using fill_at_span[OF fits pin fa] by (simp add: page_span_def)
    have c4: "\<forall>x. unat x < unat fill_from \<longrightarrow> H' x = memory g x"
      using IH(4) H3(3) st(5) le below D(2) by simp
    have c5: "H' x = memory g x" if "(b, n) \<in> pin_of N ` set (key0 # keys)" "unat b \<le> unat x" "unat x < unat b + 8 * unat n" for b n x
    proof (cases "(b, n) = (?a, ?n)")
      case True
      then show ?thesis using that IH(4) H3(3) st(5) D(2) below by simp
    next
      case False
      then have b: "(b, n) \<in> pin_of N ` set keys" using that(1) by (auto simp: k pin_of)
      then have "unat B \<le> unat b" using far by (auto simp: pin_of_def)
      then show ?thesis using b IH(5) that(2,3) HB by fastforce
    qed
    have c5': "\<forall>(b, n) \<in> pin_of N ` set (key0 # keys). \<forall>x. unat b \<le> unat x \<and> unat x < unat b + 8 * unat n \<longrightarrow>
        H' x = memory g x" using c5 by blast
    have c7: "pin_of N key \<in> set (xs @ (?a, ?n) # ys)" by (simp add: pin_of)
    have c8: "\<forall>pin \<in> pin_of N ` set (key0 # keys). pin \<in> set (xs @ (?a, ?n) # ys) \<or> in_group ?g' P ns pin"
      using IH(6) by (auto simp: k pin_of)
    show ?thesis unfolding Let_def by (intro exI conjI) (rule c1 c2 c3 c4 c5' c6 c7 c8)+
  qed
qed simp

section \<open>The whole set\<close>

text \<open>The counts after pages have moved to another generation.\<close>

lemma moved_pages_usage:
  assumes m: "moved_pages ns g g' Q A" and ns: "ns \<noteq> from_space g" and n: "page_table_pages g' = page_table_pages g"
  shows "usage g' = usage g"
    "gen_usage g' k + (if k = from_space g then \<Sum>i \<in> A. page_bytes_used g i else 0) =
     gen_usage g k + (if k = ns then \<Sum>i \<in> A. page_bytes_used g i else 0)"
proof -
  let ?b = "page_bytes_used g" and ?N = "{..<page_table_pages g}"
  have b: "page_bytes_used g' i = ?b i" for i
    using m by (cases "i \<in> A") (force simp: moved_pages_def page_bytes_used_def)+
  have p: "pgen (page_table g' i) = (if i \<in> A then ns else pgen (page_table g i))" for i
    using m by (cases "i \<in> A") (force simp: moved_pages_def)+
  have A: "A \<subseteq> ?N" "\<forall>i \<in> A. pgen (page_table g i) = from_space g" using m by (auto simp: moved_pages_def)
  show "usage g' = usage g" by (simp add: usage_def n b)
  have S: "(\<Sum>i \<in> A. ?b i) = (\<Sum>i \<in> ?N. if i \<in> A then ?b i else 0)"
    using A(1) by (simp add: sum.If_cases Int_absorb1)
  have c: "(if C then \<Sum>i \<in> A. ?b i else 0) = (\<Sum>i \<in> ?N. if C \<and> i \<in> A then ?b i else 0)" for C
    by (simp add: S)
  show "gen_usage g' k + (if k = from_space g then \<Sum>i \<in> A. ?b i else 0) =
     gen_usage g k + (if k = ns then \<Sum>i \<in> A. ?b i else 0)"
    unfolding c gen_usage_def n sum.distrib[symmetric] b
    using A(2) ns by (intro sum.cong) (auto simp: p)
qed

text \<open>The pinned objects with their sizes, and what a collection ensures of them before it fills the gaps: each has its
  place on pages in the old space, full but for the last, they do not overlap, and no region is open in the old space.\<close>

definition size_at :: "heap \<Rightarrow> uword \<Rightarrow> uword" where
  "size_at h a = (case object_size h a of Inl _ \<Rightarrow> 0 | Inr n \<Rightarrow> n)"

definition pins_of :: "compactor \<Rightarrow> (uword \<times> uword) set" where
  "pins_of s = pin_of (size_at (memory (heap_of s))) ` set (gc_filtered_pins s)"

definition pins_ok :: "compactor \<Rightarrow> bool" where
  "pins_ok s \<longleftrightarrow> (let g = heap_of s in
     page_address g (page_table_pages g) < 2 ^ 64 \<and> new_space s \<noteq> from_space g \<and>
     gc_alloc_generation g \<noteq> from_space g \<and>
     pinned_keys g (size_at (memory g)) 0 (gc_filtered_pins s))"

text \<open>The object is among those that fill the used part of pages \<open>f\<close> to \<open>l\<close> of a generation, all but pinned objects
  being blank, and the pages have the first as their scan start.\<close>

definition kept_with :: "gc \<Rightarrow> (uword \<times> uword) set \<Rightarrow> int \<Rightarrow> uword \<times> uword \<Rightarrow> bool" where
  "kept_with g P gen pin \<longleftrightarrow>
     (\<exists>f l objs. f \<le> l \<and> l < page_table_pages g \<and> pin \<in> set objs \<and>
        walk (memory g) (of_nat (page_address g l + page_bytes_used g l)) (of_nat (page_address g f)) objs \<and>
        (\<forall>ob \<in> set objs. ob \<in> P \<or> blank (memory g) ob) \<and>
        (\<forall>i \<in> {f..l}. pgen (page_table g i) = gen \<and> page_scan_start g i = page_address g f))"

lemma in_group_kept:
  assumes "in_group g P gen pin"
  shows "kept_with g P gen pin"
proof -
  obtain s l objs where g: "pinned_group g P gen s l (of_nat (page_address g s)) objs" "pin \<in> set objs"
    using assms by (auto simp: in_group_def)
  have "page_scan_start g i = page_address g s" if "i \<in> {s..l}" for i
    using page_scan_start_block[of "i - s" g s] g(1) that by (auto simp: pinned_group_def)
  then show ?thesis using g unfolding pinned_group_def kept_with_def by blast
qed

text \<open>No page of the old space belongs to an open region.\<close>

lemma old_pages_not_open:
  assumes "gc_alloc_generation g \<noteq> F" and "\<forall>i \<in> A. pgen (page_table g i) = F"
  shows "\<forall>r' f l. region_open g r' (T r') f l \<longrightarrow> A \<inter> {f..l} = {}"
proof (intro allI impI equals0I)
  fix r' f l i
  assume o: "region_open g r' (T r') f l" and i: "i \<in> A \<inter> {f..l}"
  then have "pgen (page_table g i) = gc_alloc_generation g"
    using region_open_tail[OF o, of i] by (cases "i = f") (auto simp: region_tail_page_def region_open_def Let_def)
  then show False using assms i by auto
qed

lemma moved_alloc_inv:
  assumes I: "alloc_inv T g" and m: "moved_pages ns g g' Q A" and ns: "ns \<noteq> from_space g"
    and reg: "gc_alloc_generation g \<noteq> from_space g"
    and g': "g' = g\<lparr>memory := H, page_table := pt\<rparr>"
  defines "M \<equiv> \<Sum>i \<in> A. page_bytes_used g i"
  shows "alloc_inv T (g'\<lparr>generations_bytes := (generations_bytes g)(from_space g := generations_bytes g (from_space g) - M,
    ns := generations_bytes g ns + M)\<rparr>)"
    (is "alloc_inv T ?g")
proof (rule alloc_inv_outside[OF I])
  note u = moved_pages_usage[OF m ns, folded M_def]
  have n: "page_table_pages g' = page_table_pages g" by (simp add: g')
  have p: "ptype (page_table g' i) = ptype (page_table g i) \<and> words_used_w (page_table g' i) = words_used_w (page_table g i)" for i
    using m by (cases "i \<in> A") (force simp: moved_pages_def)+
  have same: "page_table g' i = page_table g i" if "i \<notin> A" for i using m that by (simp add: moved_pages_def)
  show "frame A g ?g" using same by (simp add: frame_def g')
  show "region ?g = region g" by (simp add: g')
  have "\<forall>i \<in> A. pgen (page_table g i) = from_space g" using m by (simp add: moved_pages_def)
  then show "\<forall>r' f l. region_open g r' (T r') f l \<longrightarrow> A \<inter> {f..l} = {}" by (rule old_pages_not_open[OF reg])
  show "heap_ok ?g"
  proof -
    have "page_ok (page_table g' i)" if "i < page_table_pages g" for i
    proof (cases "i \<in> A")
      case True
      then have "words_used_w (page_table g i) \<noteq> 0" using m by (auto simp: moved_pages_def touches_def page_bytes_used_def)
      then show ?thesis using heap_ok_page[OF alloc_invD(1)[OF I] that] p[of i] by (simp add: page_ok_def)
    next
      case False
      then show ?thesis using heap_ok_page[OF alloc_invD(1)[OF I] that] same by simp
    qed
    then show ?thesis using alloc_invD(1)[OF I] by (simp add: heap_ok_def g')
  qed
  note acc = alloc_invD(2)[OF I, unfolded accounted_def]
  have us: "usage ?g = usage g'" "gen_usage ?g = gen_usage g'"
  proof -
    have "page_bytes_used ?g = page_bytes_used g'" by (simp add: page_bytes_used_def fun_eq_iff)
    then show "usage ?g = usage g'" "gen_usage ?g = gen_usage g'" by (simp_all add: usage_def gen_usage_def fun_eq_iff cong: if_cong)
  qed
  have k: "generations_bytes ?g k = gen_usage g' k" for k
  proof -
    have "generations_bytes g k = gen_usage g k" for k using acc by simp
    then show ?thesis using u(2)[OF n, of k] ns by (cases "k = from_space g"; cases "k = ns") simp_all
  qed
  have "bytes_allocated ?g = bytes_allocated g" by (simp add: g')
  then show "accounted ?g" unfolding accounted_def us using acc k u(1)[OF n] by simp
qed

lemma obliterate_spec:
  assumes I: "alloc_inv T (heap_of s)" and ok: "pins_ok s"
  shows "\<exists>s' H pt gb. obliterate_nonpinned_words s = Some (Inr s') \<and> alloc_inv T (heap_of s') \<and>
    heap_of s' = (heap_of s)\<lparr>memory := H, page_table := pt, generations_bytes := gb\<rparr> \<and>
    (\<forall>(a, n) \<in> pins_of s. (\<forall>x \<in> words_of a n. H x = memory (heap_of s) x) \<and>
       in_group (heap_of s') (pins_of s) (new_space s) (a, n)) \<and>
    (\<forall>i. (\<forall>(a, n) \<in> pins_of s. \<not> touches (heap_of s) a n i) \<longrightarrow> pt i = page_table (heap_of s) i) \<and>
    (\<forall>i. pt i = page_table (heap_of s) i \<or> pgen (pt i) = new_space s)"
proof (cases "gc_filtered_pins s")
  case Nil
  then show ?thesis using I
    by (intro exI[of _ s] exI[of _ "memory (heap_of s)"] exI[of _ "page_table (heap_of s)"] exI[of _ "generations_bytes (heap_of s)"])
      (simp add: obliterate_nonpinned_words_def pins_of_def)
next
  case (Cons key keys)
  define g where "g = heap_of s"
  let ?N = "size_at (memory g)" and ?ns = "new_space s" and ?a = "native_pointer key"
  have P: "pins_of s = pin_of ?N ` set (key # keys)" by (simp add: pins_of_def Cons g_def)
  have ns: "?ns \<noteq> from_space g" and reg: "gc_alloc_generation g \<noteq> from_space g"
    and K: "pinned_keys g ?N 0 (key # keys)" and end_: "page_address g (page_table_pages g) < 2 ^ 64"
    using ok by (simp_all add: pins_ok_def Let_def g_def Cons)
  have fits: "table_fits g" using end_ alloc_invD(1)[OF I] by (simp add: table_fits_def heap_ok_def g_def)
  obtain f' l where pin: "pin_at g ?a (?N ?a) f' l" using K by (auto simp: pinned_keys_def)
  have fa: "fill_at ?ns g 0 f' (page_base key) ?a f'" by (simp add: fill_at_def page_base_native)
  obtain H pt A l' objs where F: "fill_between ?ns (key # keys) (page_base key) (0, g) =
      Some (Inr (0 + (\<Sum>i \<in> A. page_bytes_used g i), g\<lparr>memory := H, page_table := pt\<rparr>))"
    "moved_pages ?ns g (g\<lparr>memory := H, page_table := pt\<rparr>) (pin_of ?N ` set (key # keys)) A" "\<forall>i \<in> A. 0 \<le> i"
    "\<forall>x. unat x < unat (page_base key) \<longrightarrow> H x = memory g x"
    "\<forall>(a, n) \<in> pin_of ?N ` set (key # keys). \<forall>x. unat a \<le> unat x \<and> unat x < unat a + 8 * unat n \<longrightarrow> H x = memory g x"
    "pinned_group (g\<lparr>memory := H, page_table := pt\<rparr>) (pins_of s) ?ns f' l' (page_base key) objs"
    "\<forall>pin \<in> pin_of ?N ` set (key # keys). pin \<in> set objs \<or> in_group (g\<lparr>memory := H, page_table := pt\<rparr>) (pins_of s) ?ns pin"
    using fill_between_spec[OF fits ns K refl pin_atD(1)[OF fits pin] fa equalityD2[OF P], of 0] unfolding Let_def
    by (elim exE conjE) (rule that; assumption)
  define g' where "g' = g\<lparr>memory := H, page_table := pt\<rparr>"
  let ?M = "\<Sum>i \<in> A. page_bytes_used g i"
  define g2 where "g2 = g'\<lparr>generations_bytes := (generations_bytes g)
    (from_space g := generations_bytes g (from_space g) - ?M, ?ns := generations_bytes g ?ns + ?M)\<rparr>"
  have inv: "alloc_inv T g2"
    unfolding g2_def by (rule moved_alloc_inv[OF I[folded g_def] F(2)[folded g'_def] ns reg g'_def])
  have same: "memory g2 = H" "page_table g2 = pt" by (simp_all add: g2_def g'_def)
  obtain s' where s': "obliterate_nonpinned_words s = Some (Inr s')" "heap_of s' = g2"
  proof
    let ?s = "map_gc (\<lambda>_. g2) s"
    let ?s' = "if pins_alloc_size ?s \<noteq> 0 then ?s\<lparr>gc_filtered_pins := [], pins_alloc_size := 0\<rparr> else ?s"
    show "heap_of ?s' = g2" by (simp add: heap_of_def map_gc_def)
    show "obliterate_nonpinned_words s = Some (Inr ?s')"
      using F(1) ns by (simp add: obliterate_nonpinned_words_def Cons option_rbind_def g_def[symmetric] g2_def g'_def Let_def
          del: fill_between.simps)
  qed
  have pins: "(\<forall>x \<in> words_of a n. H x = memory g x) \<and> in_group g2 (pins_of s) ?ns (a, n)" if an: "(a, n) \<in> pins_of s" for a n
  proof
    obtain f l where "pin_at g a n f l" using K an by (auto simp: P pin_of_def pinned_keys_def)
    note D = pin_atD[OF fits this]
    show "\<forall>x \<in> words_of a n. H x = memory g x"
      using F(5) an words_of_range[of a n "a + 8 * n"] D(2) unfolding P by fastforce
    have "page_base key = of_nat (unat (page_base ?a))" by (simp add: page_base_native)
    also have "\<dots> = of_nat (page_address g' f')"
      using pin_atD(5)[OF fits pin] by (simp add: g'_def page_address_def)
    finally have "in_group g' (pins_of s) ?ns (a, n)" using F(6,7) an unfolding in_group_def P g'_def by metis
    then show "in_group g2 (pins_of s) ?ns (a, n)"
      by (simp add: in_group_def pinned_group_def page_address_def page_bytes_used_def g2_def)
  qed
  have others: "pt i = page_table g i" if "\<forall>(a, n) \<in> pins_of s. \<not> touches g a n i" for i
  proof -
    have "i \<notin> A"
    proof
      assume "i \<in> A"
      then have "\<exists>(a, n) \<in> pins_of s. touches g a n i" using F(2) unfolding moved_pages_def P by simp
      then show False using that by blast
    qed
    then show ?thesis using F(2) by (simp add: moved_pages_def)
  qed
  have moved: "pt i = page_table g i \<or> pgen (pt i) = ?ns" for i
    using F(2) by (cases "i \<in> A") (force simp: moved_pages_def)+
  show ?thesis
  proof (intro exI conjI)
    show "heap_of s' = (heap_of s)\<lparr>memory := H, page_table := pt, generations_bytes := generations_bytes g2\<rparr>"
      by (simp add: s'(2) g2_def g'_def g_def)
    show "\<forall>(a, n) \<in> pins_of s. (\<forall>x \<in> words_of a n. H x = memory (heap_of s) x) \<and>
        in_group (heap_of s') (pins_of s) ?ns (a, n)"
      unfolding s'(2) g_def[symmetric] using pins by blast
    show "\<forall>i. (\<forall>(a, n) \<in> pins_of s. \<not> touches (heap_of s) a n i) \<longrightarrow> pt i = page_table (heap_of s) i"
      unfolding g_def[symmetric] using others by blast
    show "\<forall>i. pt i = page_table (heap_of s) i \<or> pgen (pt i) = ?ns" using moved by (simp add: g_def)
  qed (simp_all add: s' inv)
qed


text \<open>The page with a filler and two conses, the first of them pinned.\<close>

lemma pin_heap_inv: "alloc_inv (\<lambda>_. PAGE_TYPE_MIXED) pin_heap"
proof -
  have s: "{..<4 :: nat} = {0, 1, 2, 3}" by auto
  have "heap_ok pin_heap"
    by (auto simp: heap_ok_def pin_heap_def small_heap_def page_ok_def page_constants page_types)
  moreover have "accounted pin_heap"
    by (simp add: accounted_def usage_def gen_usage_def pin_heap_def small_heap_def s page_bytes_used_def WORD_SHIFT_def)
  moreover have c: "region_closed pin_heap r" for r by (simp add: region_closed_def pin_heap_def small_heap_def)
  moreover have "\<not> region_open pin_heap r t f l" for r t f l
    using c region_open_not_closed[OF \<open>heap_ok pin_heap\<close>] by blast
  ultimately show ?thesis by (simp add: alloc_inv_def)
qed

definition one_pinned :: compactor where
  "one_pinned = pin_state (weak_objects small_marker) [0x1000010027]"

lemma one_pinned_ok:
  "heap_of one_pinned = pin_heap" "new_space one_pinned = 2" "pins_of one_pinned = {(0x1000010020, 2)}" "pins_ok one_pinned"
  "gc_filtered_pins one_pinned = [0x1000010027]"
proof -
  show h: "heap_of one_pinned = pin_heap" and n: "new_space one_pinned = 2"
    and k: "gc_filtered_pins one_pinned = [0x1000010027]"
    by (simp_all add: one_pinned_def pin_state_def heap_of_def)
  have sz: "size_at (memory pin_heap) 0x1000010020 = 2" by (simp add: size_at_def pin_heap_objects)
  show "pins_of one_pinned = {(0x1000010020, 2)}" by (simp add: pins_of_def pin_of_def h k pin_heap_keys sz)
  have "pin_at pin_heap 0x1000010020 2 2 2"
    by (simp add: pin_at_def pin_heap_objects whole_pairs_def)
      (simp add: pin_heap_def small_heap_def page_address_def page_constants page_bytes_used_def)
  moreover have "pgen (page_table pin_heap 2) = from_space pin_heap" by (simp add: pin_heap_def)
  ultimately have "pinned_keys pin_heap (size_at (memory pin_heap)) 0 [0x1000010027]"
    by (auto simp: pinned_keys_def pin_heap_keys sz intro!: exI[of _ 2])
  then show "pins_ok one_pinned"
    by (simp add: pins_ok_def Let_def h n k) (simp add: pin_heap_def small_heap_def page_address_def page_constants)
qed


end
