(* ===== verification/OldSpace.thy ===== *)
theory OldSpace
  imports PinFill
begin

text \<open>
  The end of a copying collection (\<open>gencgc.c\<close>): pages that are pinned as a whole move to the new space, and all that is
  left of the old space is freed. With the filling of gaps this is why a pinned object survives.
\<close>

unbundle bit_operations_syntax

section \<open>Code\<close>

definition move_pinned_page :: "int \<Rightarrow> bool \<Rightarrow> nat \<Rightarrow> gc \<Rightarrow> gc" where
  "move_pinned_page new_gen pin_all_code i g =
     (if gc_page_pins g i = PAGE_PINNED \<and> pgen (page_table g i) = from_space g \<and>
         (page_single_obj_p g i \<or> is_code (ptype (page_table g i)) \<and> pin_all_code)
      then
        let g = set_page_gen i new_gen g;
            used = page_bytes_used g i;
            bytes = (generations_bytes g)(new_gen := generations_bytes g new_gen + used)
        in g\<lparr>generations_bytes := bytes(from_space g := bytes (from_space g) - used)\<rparr>
      else g)"

definition move_pinned_pages_to_newspace :: "compactor \<Rightarrow> compactor" where
  "move_pinned_pages_to_newspace s =
     map_gc (\<lambda>g. fold (move_pinned_page (new_space s) (pin_all_dynamic_space_code s)) [0..<next_free_page g] g) s"

definition free_oldspace_page :: "nat \<Rightarrow> nat \<times> gc \<Rightarrow> nat \<times> gc" where
  "free_oldspace_page page = (\<lambda>(bytes_freed, g).
     if pgen (page_table g page) = from_space g
     then (bytes_freed + push_bit WORD_SHIFT (page_words_used g page), free_used_page page g)
     else (bytes_freed, g))"

definition free_oldspace :: "gc \<Rightarrow> gc" where
  "free_oldspace g =
     (let (bytes_freed, g) = fold free_oldspace_page [0..<next_free_page g] (0, g) in
      g\<lparr>generations_bytes := (generations_bytes g)(from_space g := generations_bytes g (from_space g) - bytes_freed),
        bytes_allocated := bytes_allocated g - bytes_freed\<rparr>)"

section \<open>Freeing the old space\<close>

lemma free_oldspace_fold:
  assumes "distinct is" and "from_space g = F"
  shows "fold free_oldspace_page is (m, g) =
    (let old = filter (\<lambda>i. pgen (page_table g i) = F) is
     in (m + sum_list (map (\<lambda>i. 8 * page_words_used g i) old), fold free_used_page old g))"
  using assms
proof (induction "is" arbitrary: m g)
  case (Cons i "is")
  show ?case
  proof (cases "pgen (page_table g i) = F")
    case True
    let ?g = "free_used_page i g"
    have o: "page_table ?g j = page_table g j" if "j \<in> set is" for j
      using that Cons.prems(1) by (intro free_used_page_simps(2)) auto
    have f: "filter (\<lambda>i. pgen (page_table ?g i) = F) is = filter (\<lambda>i. pgen (page_table g i) = F) is"
      using o by (intro filter_cong) simp_all
    have w: "map (\<lambda>i. 8 * page_words_used ?g i) (filter (\<lambda>i. pgen (page_table g i) = F) is) =
        map (\<lambda>i. 8 * page_words_used g i) (filter (\<lambda>i. pgen (page_table g i) = F) is)"
      using o by (intro map_cong) (simp_all add: page_words_used_def)
    have p: "push_bit WORD_SHIFT n = 8 * n" for n :: nat by (simp add: push_bit_eq_mult WORD_SHIFT_def mult.commute)
    have "from_space ?g = F" using Cons.prems(2) by (simp add: free_used_page_simps)
    from Cons.IH[OF _ this, of "m + 8 * page_words_used g i"] show ?thesis
      using True Cons.prems by (simp add: free_oldspace_page_def f w p Let_def)
  next
    case False
    then show ?thesis using Cons by (simp add: free_oldspace_page_def)
  qed
qed simp

definition old_space_ends :: "gc \<Rightarrow> bool" where
  "old_space_ends g \<longleftrightarrow> gc_alloc_generation g \<noteq> from_space g \<and> next_free_page g \<le> page_table_pages g \<and>
     (\<forall>i. next_free_page g \<le> i \<and> pgen (page_table g i) = from_space g \<longrightarrow> page_words_used g i = 0)"

lemma free_oldspace_spec:
  assumes I: "alloc_inv T g" and ends: "old_space_ends g"
  defines "g' \<equiv> free_oldspace g"
  shows "alloc_inv T g'" "generations_bytes g' (from_space g) = 0"
    "\<forall>i < next_free_page g. pgen (page_table g i) = from_space g \<longrightarrow>
       page_free_p g' i \<and> page_words_used g' i = 0 \<and> (page_words_used g i \<noteq> 0 \<longrightarrow> page_need_to_zero g' i)"
    "bytes_allocated g = bytes_allocated g' + generations_bytes g (from_space g)"
    "\<forall>n. n \<noteq> from_space g \<longrightarrow> generations_bytes g' n = generations_bytes g n"
    "\<forall>i. pgen (page_table g i) \<noteq> from_space g \<longrightarrow> page_table g' i = page_table g i" "memory g' = memory g"
    "page_table_pages g' = page_table_pages g" "DYNAMIC_SPACE_START g' = DYNAMIC_SPACE_START g"
proof -
  note reg = ends[unfolded old_space_ends_def, THEN conjunct1]
  have nx: "next_free_page g \<le> page_table_pages g"
    "\<forall>i. next_free_page g \<le> i \<and> pgen (page_table g i) = from_space g \<longrightarrow> page_words_used g i = 0"
    using ends unfolding old_space_ends_def by blast+
  define F where "F = from_space g"
  define old where "old = filter (\<lambda>i. pgen (page_table g i) = F) [0..<next_free_page g]"
  define M where "M = sum_list (map (\<lambda>i. 8 * page_words_used g i) old)"
  have d: "distinct old" "\<forall>i \<in> set old. i < page_table_pages g \<and> pgen (page_table g i) = F"
    using nx(1) by (auto simp: old_def)
  have A: "\<forall>r' f l. region_open g r' (T r') f l \<longrightarrow> set old \<inter> {f..l} = {}"
    using d(2) by (intro old_pages_not_open[where F = F]) (simp_all add: reg F_def)
  note U = free_used_pages(8-10)[OF d]
  define f where "f = (let u = fold free_used_page old g in u\<lparr>generations_bytes := (generations_bytes u)(F := generations_bytes u F - M),
      bytes_allocated := bytes_allocated u - M\<rparr>)"
  note R0 = freed_pages_inv[OF I d A, folded M_def, folded f_def[unfolded Let_def]]
  have g': "g' = f"
  proof -
    have fo: "fold free_oldspace_page [0..<next_free_page g] (0, g) = (M, fold free_used_page old g)"
      using free_oldspace_fold[OF distinct_upt F_def[symmetric]] by (simp add: Let_def old_def M_def)
    show ?thesis unfolding g'_def free_oldspace_def fo f_def Let_def by (simp add: U(3) F_def)
  qed
  note R = R0[folded g']
  have pages: "page_free_p g' i \<and> page_words_used g' i = 0 \<and> (page_words_used g i \<noteq> 0 \<longrightarrow> page_need_to_zero g' i)"
    if "i < next_free_page g" "pgen (page_table g i) = F" for i
    using that U(1) by (simp add: old_def R(7) page_free_p_def page_words_used_def page_need_to_zero_def)
  have others: "page_table g' i = page_table g i" if "pgen (page_table g i) \<noteq> F" for i
    using that U(2) by (simp add: old_def R(7))
  have "page_words_used g' i = 0" if "pgen (page_table g' i) = F" for i
  proof -
    have i: "pgen (page_table g i) = F" using that others[of i] by metis
    show ?thesis
    proof (cases "i < next_free_page g")
      case False
      then have "page_table g' i = page_table g i" using U(2) by (simp add: old_def R(7))
      then show ?thesis using nx(2) i False by (simp add: F_def page_words_used_def)
    qed (use pages i in blast)
  qed
  then have "gen_usage g' F = 0" by (simp add: gen_usage_def page_bytes_used_def page_words_used_def)
  then have z: "generations_bytes g' F = 0" using R(6)[of F] by simp
  moreover have "M = generations_bytes g F" using R(5)[of F] z by simp
  ultimately have M: "M = generations_bytes g F" by simp
  show "alloc_inv T g'" "memory g' = memory g" "page_table_pages g' = page_table_pages g"
    "DYNAMIC_SPACE_START g' = DYNAMIC_SPACE_START g" using R(1-3) by (simp_all add: frame_def)
  show "bytes_allocated g = bytes_allocated g' + generations_bytes g (from_space g)" using R(4) M by (simp add: F_def)
  show "generations_bytes g' (from_space g) = 0" using z by (simp add: F_def)
  show "\<forall>n. n \<noteq> from_space g \<longrightarrow> generations_bytes g' n = generations_bytes g n" using R(5) by (simp add: F_def)
  show "\<forall>i < next_free_page g. pgen (page_table g i) = from_space g \<longrightarrow>
       page_free_p g' i \<and> page_words_used g' i = 0 \<and> (page_words_used g i \<noteq> 0 \<longrightarrow> page_need_to_zero g' i)"
    using pages by (simp add: F_def)
  show "\<forall>i. pgen (page_table g i) \<noteq> from_space g \<longrightarrow> page_table g' i = page_table g i" using others by (simp add: F_def)
qed


text \<open>C9: Freeing the old space returns all of it: if the invariant of the allocator holds, no region is open in the old
  space and pages from the next free page on hold nothing, the invariant is kept, the old space has no bytes and each of its pages is
  free, and is to be zeroed if it was used; the count of the heap drops by what the old space held, while
  other generations keep their counts and pages, and memory does not change.\<close>

theorem free_oldspace_correct:
  assumes "alloc_inv T g" and "old_space_ends g"
  shows "let g' = free_oldspace g in alloc_inv T g' \<and> generations_bytes g' (from_space g) = 0 \<and>
    (\<forall>i < next_free_page g. pgen (page_table g i) = from_space g \<longrightarrow>
       page_free_p g' i \<and> page_words_used g' i = 0 \<and> (page_words_used g i \<noteq> 0 \<longrightarrow> page_need_to_zero g' i)) \<and>
    bytes_allocated g = bytes_allocated g' + generations_bytes g (from_space g) \<and>
    (\<forall>n. n \<noteq> from_space g \<longrightarrow> generations_bytes g' n = generations_bytes g n) \<and>
    (\<forall>i. pgen (page_table g i) \<noteq> from_space g \<longrightarrow> page_table g' i = page_table g i) \<and> memory g' = memory g"
  using free_oldspace_spec[OF assms] by (simp add: Let_def)

section \<open>What is pinned survives\<close>

lemma in_group_frame:
  assumes "in_group g P ns pin" and "memory g' = memory g" "page_table_pages g' = page_table_pages g"
    "DYNAMIC_SPACE_START g' = DYNAMIC_SPACE_START g"
    and "\<forall>i. pgen (page_table g i) = ns \<longrightarrow> page_table g' i = page_table g i"
  shows "in_group g' P ns pin"
proof -
  obtain s l objs where g: "pinned_group g P ns s l (of_nat (page_address g s)) objs" "pin \<in> set objs"
    using assms(1) by (auto simp: in_group_def)
  then have t: "page_table g' i = page_table g i" if "i \<in> {s..l}" for i
    using assms(5) that by (simp add: pinned_group_def)
  moreover have "l \<in> {s..l}" using g(1) by (simp add: pinned_group_def)
  ultimately have "page_bytes_used g' l = page_bytes_used g l" by (simp add: page_bytes_used_def)
  moreover have "page_address g' = page_address g" using assms(4) by (simp add: page_address_def fun_eq_iff)
  ultimately have "pinned_group g' P ns s l (of_nat (page_address g' s)) objs"
    using g(1) t assms(2,3) unfolding pinned_group_def by auto
  then show ?thesis using g(2) by (auto simp: in_group_def)
qed

text \<open>C7: Pinned objects survive the collection where they are: after the gaps between them have been filled and the old space
  has been freed, the old space holds nothing, the invariant of the allocator is kept, and every pinned object has its words
  and lies on pages of the new space that can be walked from their first, from one pinned object or blank to the next.\<close>

theorem pinned_objects_survive:
  assumes I: "alloc_inv T (heap_of s)" and ok: "pins_ok s" and ends: "old_space_ends (heap_of s)"
  shows "\<exists>s'. obliterate_nonpinned_words s = Some (Inr s') \<and> (let g' = free_oldspace (heap_of s') in
    alloc_inv T g' \<and> generations_bytes g' (from_space (heap_of s)) = 0 \<and>
    (\<forall>(a, n) \<in> pins_of s. (\<forall>x \<in> words_of a n. memory g' x = memory (heap_of s) x) \<and>
       kept_with g' (pins_of s) (new_space s) (a, n)))"
proof -
  obtain s' H pt gb where s': "obliterate_nonpinned_words s = Some (Inr s')" "alloc_inv T (heap_of s')"
    "heap_of s' = (heap_of s)\<lparr>memory := H, page_table := pt, generations_bytes := gb\<rparr>"
    "\<forall>(a, n) \<in> pins_of s. (\<forall>x \<in> words_of a n. H x = memory (heap_of s) x) \<and>
       in_group (heap_of s') (pins_of s) (new_space s) (a, n)"
    "\<forall>i. pt i = page_table (heap_of s) i \<or> pgen (pt i) = new_space s"
    using obliterate_spec[OF I ok] by (elim exE conjE) (rule that; assumption)
  let ?g = "heap_of s'"
  have ns: "new_space s \<noteq> from_space (heap_of s)" using ok by (simp add: pins_ok_def Let_def)
  have h: "memory ?g = H" "page_table ?g = pt" "from_space ?g = from_space (heap_of s)" by (simp_all add: s'(3))
  have "page_words_used ?g i = 0" if i: "next_free_page (heap_of s) \<le> i" "pgen (pt i) = from_space (heap_of s)" for i
  proof -
    have "pt i = page_table (heap_of s) i" using s'(5) ns i(2) by metis
    then show ?thesis using ends i h(2) by (simp add: old_space_ends_def page_words_used_def)
  qed
  then have "old_space_ends ?g" using ends by (simp add: old_space_ends_def h) (simp add: s'(3))
  note F = free_oldspace_spec[OF s'(2) this]
  have "in_group (free_oldspace ?g) (pins_of s) (new_space s) pin" if "in_group ?g (pins_of s) (new_space s) pin" for pin
    using F(6-9) ns h(3) by (intro in_group_frame[OF that]) auto
  then show ?thesis using s'(1,4) F(1,2,7) h in_group_kept[of "free_oldspace ?g" "pins_of s" "new_space s"]
    by (intro exI[of _ s']) (fastforce simp: Let_def)
qed

lemma pin_heap_ends: "old_space_ends pin_heap" "from_space pin_heap = 1"
  by (simp_all add: old_space_ends_def pin_heap_def small_heap_def page_words_used_def)

lemma free_oldspace_correct_witness:
  "bytes_allocated (free_oldspace pin_heap) = 65536 \<and> page_free_p (free_oldspace pin_heap) 2 \<and>
   page_need_to_zero (free_oldspace pin_heap) 2"
proof -
  note F = free_oldspace_correct[OF pin_heap_inv pin_heap_ends(1), unfolded Let_def pin_heap_ends(2)]
  have "2 < next_free_page pin_heap" "pgen (page_table pin_heap 2) = 1" "page_words_used pin_heap 2 \<noteq> 0"
    "bytes_allocated pin_heap = 65600" "generations_bytes pin_heap 1 = 64"
    by (simp_all add: pin_heap_def page_words_used_def)
  then show ?thesis using F by auto
qed

lemma pinned_objects_survive_witness:
  "\<exists>s'. obliterate_nonpinned_words one_pinned = Some (Inr s') \<and> generations_bytes (free_oldspace (heap_of s')) 1 = 0 \<and>
     kept_with (free_oldspace (heap_of s')) {(0x1000010020, 2)} 2 (0x1000010020, 2)"
proof -
  have "alloc_inv (\<lambda>_. PAGE_TYPE_MIXED) (heap_of one_pinned)" "old_space_ends (heap_of one_pinned)"
    using pin_heap_inv pin_heap_ends by (simp_all add: one_pinned_ok)
  from pinned_objects_survive[OF this(1) one_pinned_ok(4) this(2)] show ?thesis
    unfolding one_pinned_ok pin_heap_ends(2) Let_def by auto
qed

end
