(* ===== verification/Interrupts.thy ===== *)
theory Interrupts
  imports Signals
begin

text \<open>
  Deferral of asynchronous signals: \<open>interrupt.c\<close>, with the handler of the signal that
  stops a thread for the collector (\<open>stop-the-world.c\<close>), \<open>maybe_gc\<close>
  (\<open>gc-common.c\<close>), \<open>trigger_gc\<close> (\<open>gengc.inc\<close>), the pseudo-atomic bits of
  x86-64 and dynamic binding (\<open>dynbind.c\<close>). One thread is modelled, with the signal mask the
  kernel keeps for it. A signal context is a number under which its mask is stored; the rest of
  a context and \<open>errno\<close> are left out. What Lisp functions do that the code calls is a parameter.
\<close>

unbundle bit_operations_syntax

section \<open>The state of a thread\<close>

text \<open>The variables with a thread-local cell that the code reads, and their values.\<close>

datatype tls_symbol = INTERRUPTS_ENABLED | INTERRUPT_PENDING | ALLOW_WITH_INTERRUPTS | GC_INHIBIT
  | GC_PENDING | STOP_FOR_GC_PENDING | IN_WITHOUT_GCING | FREE_INTERRUPT_CONTEXT_INDEX

datatype lisp_value = V_NIL | V_T | V_IN_PROGRESS | V_FIXNUM int

text \<open>The only C function that is ever stored as a pending handler; a signal's information is
  copied whole, 0 stands for the information that is all zero.\<close>

datatype c_handler = Interrupt_handle_now

type_synonym siginfo = nat
type_synonym os_context = nat

datatype thread_state = STATE_RUNNING | STATE_STOPPED | STATE_DEAD

record thread =
  tls :: "tls_symbol \<Rightarrow> lisp_value"
  binding_stack :: "(tls_symbol \<times> lisp_value) list"
  pseudo_atomic_bits :: uword
  ffcall_active_p :: bool
  sigcontexts :: "int \<Rightarrow> os_context option"
  pending_handler :: "c_handler option"
  pending_signal :: signal
  pending_info :: siginfo
  pending_mask :: sigset
  gc_blocked_deferrables :: bool
  user_thread_p :: bool
  lisp_thread_alive :: bool
  state_word :: thread_state
  sigmask :: sigset
  os_context_sigmask :: "os_context \<Rightarrow> sigset"
  lisp_calls :: "(signal \<times> siginfo) list"

text \<open>
  What the code finds installed, and what Lisp and the kernel do: whether a signal has a Lisp
  function as its handler, the effect of calling that function (each call is also noted in
  \<open>lisp_calls\<close>), the value and effect of \<open>SUB-GC\<close> and the effect of \<open>POST-GC\<close>, and the
  state in which a stopped thread wakes up.
\<close>

record lisp_side =
  lisp_sig_handlers :: "signal \<Rightarrow> bool"
  call_handler :: "signal \<Rightarrow> siginfo \<Rightarrow> os_context \<Rightarrow> thread \<Rightarrow> thread"
  SUB_GC :: "thread \<Rightarrow> lisp_value \<times> thread"
  POST_GC :: "thread \<Rightarrow> thread"
  woken_state :: "thread \<Rightarrow> thread_state"

definition MAX_INTERRUPTS :: int where "MAX_INTERRUPTS = 8"

definition read_TLS :: "tls_symbol \<Rightarrow> thread \<Rightarrow> lisp_value" where
  "read_TLS s th = tls th s"

definition write_TLS :: "tls_symbol \<Rightarrow> lisp_value \<Rightarrow> thread \<Rightarrow> thread" where
  "write_TLS s v th = th\<lparr>tls := (tls th)(s := v)\<rparr>"

definition fixnum_of :: "lisp_value \<Rightarrow> int" where
  "fixnum_of v = (case v of V_FIXNUM n \<Rightarrow> n | _ \<Rightarrow> 0)"

section \<open>Dynamic binding\<close>

definition bind_variable :: "tls_symbol \<Rightarrow> lisp_value \<Rightarrow> thread \<Rightarrow> thread" where
  "bind_variable s v th =
     th\<lparr>binding_stack := (s, tls th s) # binding_stack th, tls := (tls th)(s := v)\<rparr>"

text \<open>Unbinding with nothing bound would read below the stack.\<close>

definition unbind :: "thread \<Rightarrow> thread result" where
  "unbind th =
     (case binding_stack th of
        [] \<Rightarrow> Inl Lose
      | (s, v) # rest \<Rightarrow> Inr (th\<lparr>tls := (tls th)(s := v), binding_stack := rest\<rparr>))"

section \<open>Pseudo-atomic sections\<close>

definition get_pseudo_atomic_atomic :: "thread \<Rightarrow> bool" where
  "get_pseudo_atomic_atomic th \<longleftrightarrow> pseudo_atomic_bits th AND NOT 1 \<noteq> 0"

definition get_pseudo_atomic_interrupted :: "thread \<Rightarrow> bool" where
  "get_pseudo_atomic_interrupted th \<longleftrightarrow> pseudo_atomic_bits th AND 1 \<noteq> 0"

definition set_pseudo_atomic_interrupted :: "thread \<Rightarrow> thread result" where
  "set_pseudo_atomic_interrupted th =
     (if \<not> get_pseudo_atomic_atomic th then Inl Lose
      else Inr (th\<lparr>pseudo_atomic_bits := pseudo_atomic_bits th OR 1\<rparr>))"

definition clear_pseudo_atomic_interrupted :: "thread \<Rightarrow> thread result" where
  "clear_pseudo_atomic_interrupted th =
     (if get_pseudo_atomic_atomic th then Inl Lose
      else Inr (th\<lparr>pseudo_atomic_bits := pseudo_atomic_bits th AND NOT 1\<rparr>))"

section \<open>Signal masks\<close>

definition deferrable_sigset :: sigset where "deferrable_sigset = sigaddset_deferrable {}"
definition blockable_sigset :: sigset where "blockable_sigset = sigaddset_blockable {}"
definition gc_sigset :: sigset where "gc_sigset = sigaddset_gc {}"

text \<open>\<open>mask\<close> is the tuple of the ten signals, \<open>relevant_bits\<close> those of them that count.\<close>

definition deferrables_blocked_p :: "sigset \<Rightarrow> bool result" where
  "deferrables_blocked_p s =
     (let relevant = {SIGHUP, SIGINT, SIGTERM, SIGQUIT, SIGURG, SIGTSTP, SIGXFSZ, SIGVTALRM, SIGWINCH} \<union>
            (if SIGCHLD \<in> deferrable_sigset then {SIGCHLD} else {})
      in if relevant \<subseteq> s then Inr True
         else if relevant \<inter> s = {} then Inr False
         else Inl Lose)"

definition check_deferrables_unblocked_or_lose :: "sigset \<Rightarrow> 'a result \<Rightarrow> 'a result" where
  "check_deferrables_unblocked_or_lose s k =
     rbind (deferrables_blocked_p s) (\<lambda>b. if b then Inl Lose else k)"

definition check_deferrables_blocked_or_lose :: "sigset \<Rightarrow> 'a result \<Rightarrow> 'a result" where
  "check_deferrables_blocked_or_lose s k =
     rbind (deferrables_blocked_p s) (\<lambda>b. if b then k else Inl Lose)"

definition assert_blockables_blocked :: "thread \<Rightarrow> 'a result \<Rightarrow> 'a result" where
  "assert_blockables_blocked th k =
     (if SIG_STOP_FOR_GC \<in> sigmask th \<and> SIGHUP \<in> sigmask th \<and> SIGPIPE \<in> sigmask th then k else Inl Lose)"

definition check_gc_signals_unblocked_or_lose :: "sigset \<Rightarrow> 'a result \<Rightarrow> 'a result" where
  "check_gc_signals_unblocked_or_lose s k = (if SIG_STOP_FOR_GC \<in> s then Inl Lose else k)"

definition block_deferrable_signals :: "thread \<Rightarrow> thread" where
  "block_deferrable_signals th = th\<lparr>sigmask := sigmask th \<union> deferrable_sigset\<rparr>"

definition block_blockable_signals :: "thread \<Rightarrow> thread" where
  "block_blockable_signals th = th\<lparr>sigmask := sigmask th \<union> blockable_sigset\<rparr>"

definition interrupt_handler_pending_p :: "thread \<Rightarrow> bool" where
  "interrupt_handler_pending_p th \<longleftrightarrow> pending_handler th \<noteq> None"

text \<open>\<open>where\<close> is the mask of a context, or the thread's own mask.\<close>

definition unblock_deferrable_signals :: "os_context option \<Rightarrow> thread \<Rightarrow> thread result" where
  "unblock_deferrable_signals whr th =
     (if interrupt_handler_pending_p th then Inl Lose
      else check_gc_signals_unblocked_or_lose
        (case whr of None \<Rightarrow> sigmask th | Some c \<Rightarrow> os_context_sigmask th c)
        (let s = (if user_thread_p th then deferrable_sigset else deferrable_sigset - {SIGALRM})
         in Inr (case whr of
              Some c \<Rightarrow> th\<lparr>os_context_sigmask := (os_context_sigmask th)(c := os_context_sigmask th c - s)\<rparr>
            | None \<Rightarrow> th\<lparr>sigmask := sigmask th - s\<rparr>)))"

definition unblock_gc_stop_signal :: "thread \<Rightarrow> thread" where
  "unblock_gc_stop_signal th = th\<lparr>sigmask := sigmask th - gc_sigset\<rparr>"

definition set_context_mask :: "os_context \<Rightarrow> sigset \<Rightarrow> thread \<Rightarrow> thread" where
  "set_context_mask c s th = th\<lparr>os_context_sigmask := (os_context_sigmask th)(c := s)\<rparr>"

text \<open>A warning is printed when the signal of the collector was blocked.\<close>

definition unblock_signals_in_context_and_maybe_warn :: "os_context \<Rightarrow> thread \<Rightarrow> thread result" where
  "unblock_signals_in_context_and_maybe_warn c th =
     (let th = (if SIG_STOP_FOR_GC \<in> os_context_sigmask th c
                then set_context_mask c (os_context_sigmask th c - {SIG_STOP_FOR_GC}) th else th)
      in if \<not> interrupt_handler_pending_p th then unblock_deferrable_signals (Some c) th else Inr th)"

definition maybe_save_gc_mask_and_block_deferrables :: "os_context option \<Rightarrow> thread \<Rightarrow> thread" where
  "maybe_save_gc_mask_and_block_deferrables context th =
     (let oldset = sigmask th; th = block_blockable_signals th in
      if pending_handler th = None \<and> \<not> gc_blocked_deferrables th then
        let th = th\<lparr>gc_blocked_deferrables := True\<rparr> in
        (case context of
           Some c \<Rightarrow>
             let th = th\<lparr>pending_mask := os_context_sigmask th c\<rparr>;
                 th = set_context_mask c (sigaddset_deferrable (os_context_sigmask th c)) th
             in th\<lparr>sigmask := oldset\<rparr>
         | None \<Rightarrow> unblock_gc_stop_signal (th\<lparr>pending_mask := oldset\<rparr>))
      else th\<lparr>sigmask := oldset\<rparr>)"

section \<open>Checking the invariants\<close>

definition in_leaving_without_gcing_race_p :: "thread \<Rightarrow> bool" where
  "in_leaving_without_gcing_race_p th \<longleftrightarrow>
     read_TLS IN_WITHOUT_GCING th \<noteq> V_NIL \<and> read_TLS INTERRUPTS_ENABLED th \<noteq> V_NIL \<and>
     read_TLS GC_INHIBIT th = V_NIL \<and>
     (read_TLS GC_PENDING th \<noteq> V_NIL \<or> read_TLS STOP_FOR_GC_PENDING th \<noteq> V_NIL)"

definition lose_if :: "bool \<Rightarrow> 'a result \<Rightarrow> 'a result" where
  "lose_if b k = (if b then Inl Lose else k)"

definition check_interrupt_context_or_lose :: "os_context \<Rightarrow> thread \<Rightarrow> 'a result \<Rightarrow> 'a result" where
  "check_interrupt_context_or_lose context th k =
     (let interrupt_deferred_p = pending_handler th \<noteq> None;
          interrupt_pending = read_TLS INTERRUPT_PENDING th \<noteq> V_NIL;
          s = os_context_sigmask th context;
          interrupts_enabled = read_TLS INTERRUPTS_ENABLED th \<noteq> V_NIL;
          gc_inhibit = read_TLS GC_INHIBIT th \<noteq> V_NIL;
          gc_pending = read_TLS GC_PENDING th = V_T;
          pseudo_atomic_interrupted = get_pseudo_atomic_interrupted th;
          in_race_p = in_leaving_without_gcing_race_p th;
          stop_for_gc_pending = read_TLS STOP_FOR_GC_PENDING th \<noteq> V_NIL
      in lose_if (interrupt_deferred_p \<and> \<not> (\<not> interrupts_enabled \<or> pseudo_atomic_interrupted \<or> in_race_p))
        (lose_if (gc_pending \<and> \<not> (pseudo_atomic_interrupted \<or> gc_inhibit \<or> in_race_p))
        (lose_if (stop_for_gc_pending \<and> \<not> (pseudo_atomic_interrupted \<or> gc_inhibit \<or> in_race_p))
        (lose_if (pseudo_atomic_interrupted \<and> \<not> (gc_pending \<or> stop_for_gc_pending \<or> interrupt_deferred_p))
        (lose_if (interrupt_pending \<and> \<not> interrupt_deferred_p)
        (lose_if (gc_blocked_deferrables th \<and> interrupt_pending)
        (if interrupt_pending \<or> interrupt_deferred_p \<or> gc_blocked_deferrables th
         then check_deferrables_blocked_or_lose s k
         else check_deferrables_unblocked_or_lose s (check_gc_signals_unblocked_or_lose s k))))))))"


section \<open>Calling Lisp from a signal handler\<close>

definition save_interrupt_context :: "os_context \<Rightarrow> thread \<Rightarrow> thread result" where
  "save_interrupt_context context th =
     (let context_index = fixnum_of (read_TLS FREE_INTERRUPT_CONTEXT_INDEX th) in
      if context_index \<ge> MAX_INTERRUPTS then Inl Lose
      else let th = bind_variable FREE_INTERRUPT_CONTEXT_INDEX (V_FIXNUM (context_index + 1)) th
           in Inr (th\<lparr>sigcontexts := (sigcontexts th)(context_index := Some context)\<rparr>))"

definition drop_interrupt_context :: "thread \<Rightarrow> thread result" where
  "drop_interrupt_context th =
     unbind (th\<lparr>sigcontexts := (sigcontexts th)
       (fixnum_of (read_TLS FREE_INTERRUPT_CONTEXT_INDEX th) - 1 := None)\<rparr>)"

text \<open>This machine builds no stack frames and keeps no foreign call flag here.\<close>

definition fake_foreign_function_call_noassert :: "os_context \<Rightarrow> thread \<Rightarrow> thread result" where
  "fake_foreign_function_call_noassert context th = save_interrupt_context context th"

definition fake_foreign_function_call :: "os_context \<Rightarrow> thread \<Rightarrow> thread result" where
  "fake_foreign_function_call context th =
     assert_blockables_blocked th (fake_foreign_function_call_noassert context th)"

definition undo_fake_foreign_function_call :: "thread \<Rightarrow> thread result" where
  "undo_fake_foreign_function_call th =
     (let th = block_blockable_signals th;
          th = th\<lparr>ffcall_active_p := False\<rparr>
      in drop_interrupt_context th)"

definition interrupt_handle_now :: "lisp_side \<Rightarrow> signal \<Rightarrow> siginfo \<Rightarrow> os_context \<Rightarrow> thread \<Rightarrow> thread result" where
  "interrupt_handle_now L signum info context th =
     (if \<not> lisp_sig_handlers L signum then Inr th
      else assert_blockables_blocked th
        (lose_if (signum \<in> deferrable_sigset \<and>
             (read_TLS INTERRUPTS_ENABLED th = V_NIL \<or> get_pseudo_atomic_atomic th))
          (let were_in_lisp = \<not> ffcall_active_p th
           in rbind (if were_in_lisp then fake_foreign_function_call_noassert context th else Inr th) (\<lambda>th.
              let th = unblock_gc_stop_signal th;
                  th = call_handler L signum info context (th\<lparr>lisp_calls := lisp_calls th @ [(signum, info)]\<rparr>)
              in if were_in_lisp then undo_fake_foreign_function_call th else Inr th))))"

section \<open>Deferring a signal\<close>

definition store_signal_data_for_later ::
    "c_handler option \<Rightarrow> signal \<Rightarrow> siginfo option \<Rightarrow> os_context option \<Rightarrow> thread \<Rightarrow> thread result" where
  "store_signal_data_for_later handler signum info context th =
     (case context of
        None \<Rightarrow> Inl Lose
      | Some c \<Rightarrow>
          if handler = None \<or> pending_handler th \<noteq> None then Inl Lose
          else
            let th = th\<lparr>pending_handler := handler\<rparr>;
                th = th\<lparr>pending_signal := signum\<rparr>;
                th = th\<lparr>pending_info := (case info of Some i \<Rightarrow> i | None \<Rightarrow> 0)\<rparr>;
                th = th\<lparr>pending_mask := os_context_sigmask th c\<rparr>
            in Inr (set_context_mask c (sigaddset_deferrable (os_context_sigmask th c)) th))"

definition can_handle_now ::
    "c_handler \<Rightarrow> signal \<Rightarrow> siginfo \<Rightarrow> os_context \<Rightarrow> thread \<Rightarrow> (bool \<times> thread) result" where
  "can_handle_now handler signum info context th =
     lose_if (read_TLS INTERRUPT_PENDING th \<noteq> V_NIL)
    (lose_if (pending_handler th \<noteq> None)
    (lose_if (gc_blocked_deferrables th)
      (rbind
        (if read_TLS INTERRUPTS_ENABLED th = V_NIL \<or> in_leaving_without_gcing_race_p th
         then rbind (store_signal_data_for_later (Some handler) signum (Some info) (Some context) th)
                (\<lambda>th. Inr (False, write_TLS INTERRUPT_PENDING V_T th))
         else if get_pseudo_atomic_atomic th
         then rbind (store_signal_data_for_later (Some handler) signum (Some info) (Some context) th)
                (\<lambda>th. rbind (set_pseudo_atomic_interrupted th) (\<lambda>th. Inr (False, th)))
         else Inr (True, th))
        (\<lambda>(answer, th). check_interrupt_context_or_lose context th (Inr (answer, th))))))"

definition maybe_now_maybe_later :: "lisp_side \<Rightarrow> signal \<Rightarrow> siginfo \<Rightarrow> os_context \<Rightarrow> thread \<Rightarrow> thread result" where
  "maybe_now_maybe_later L signum info context th =
     rbind (can_handle_now Interrupt_handle_now signum info context th) (\<lambda>(now, th).
       if now then interrupt_handle_now L signum info context th else Inr th)"

definition run_deferred_handler :: "lisp_side \<Rightarrow> os_context \<Rightarrow> thread \<Rightarrow> thread result" where
  "run_deferred_handler L context th =
     (case pending_handler th of
        None \<Rightarrow> Inl Lose
      | Some Interrupt_handle_now \<Rightarrow>
          let th = th\<lparr>pending_handler := None\<rparr>
          in interrupt_handle_now L (pending_signal th) (pending_info th) context th)"

section \<open>Stopping for the collector\<close>

text \<open>
  \<open>set_thread_state\<close> and \<open>thread_wait_until_not\<close> leave the mask as it was; the semaphores
  between them are left out, and the state after the wait is what the collector set. Guard pages
  and the scrubbing of the stack are left out.
\<close>

definition stop_thread :: "lisp_side \<Rightarrow> os_context \<Rightarrow> thread \<Rightarrow> thread result" where
  "stop_thread L context th =
     (let th = write_TLS GC_PENDING V_NIL th;
          th = write_TLS STOP_FOR_GC_PENDING V_NIL th
      in rbind (if gc_blocked_deferrables th
                then rbind (clear_pseudo_atomic_interrupted th) (\<lambda>th.
                     let th = set_context_mask context (pending_mask th) th
                     in Inr (th\<lparr>gc_blocked_deferrables := False\<rparr>))
                else Inr th) (\<lambda>th.
         lose_if (state_word th \<noteq> STATE_RUNNING)
          (let th = th\<lparr>state_word := STATE_STOPPED\<rparr>;
               my_state = woken_state L th;
               th = th\<lparr>state_word := my_state\<rparr>
           in lose_if (my_state \<noteq> STATE_RUNNING) (Inr th))))"

definition sig_stop_for_gc_handler :: "lisp_side \<Rightarrow> os_context \<Rightarrow> thread \<Rightarrow> thread result" where
  "sig_stop_for_gc_handler L context th =
     (if read_TLS GC_INHIBIT th \<noteq> V_NIL then Inr (write_TLS STOP_FOR_GC_PENDING V_T th)
      else if get_pseudo_atomic_atomic th then
        rbind (set_pseudo_atomic_interrupted (write_TLS STOP_FOR_GC_PENDING V_T th))
          (\<lambda>th. Inr (maybe_save_gc_mask_and_block_deferrables (Some context) th))
      else
        let was_in_lisp = \<not> ffcall_active_p th in
        rbind (if was_in_lisp then fake_foreign_function_call context th else Inr th) (\<lambda>th.
        rbind (stop_thread L context th) (\<lambda>th.
        if was_in_lisp then undo_fake_foreign_function_call th else Inr th)))"

definition can_invoke_post_gc :: "sigset \<Rightarrow> thread \<Rightarrow> bool result" where
  "can_invoke_post_gc context_sigmask th =
     (if \<not> lisp_thread_alive th then Inr False
      else rbind (deferrables_blocked_p context_sigmask) (\<lambda>b. Inr (\<not> b)))"

definition gc_in_lisp :: "lisp_side \<Rightarrow> os_context \<Rightarrow> thread \<Rightarrow> (lisp_value \<times> thread) result" where
  "gc_in_lisp L context th =
     check_gc_signals_unblocked_or_lose (os_context_sigmask th context)
       (let th = unblock_gc_stop_signal th;
            (gc_happened, th) = SUB_GC L th
        in if gc_happened = V_T \<and>
              (read_TLS INTERRUPTS_ENABLED th \<noteq> V_NIL \<or> read_TLS ALLOW_WITH_INTERRUPTS th \<noteq> V_NIL)
           then rbind (can_invoke_post_gc (os_context_sigmask th context) th) (\<lambda>can.
                if can then
                  let th = th\<lparr>sigmask := os_context_sigmask th context\<rparr>
                  in check_gc_signals_unblocked_or_lose (sigmask th) (Inr (gc_happened, POST_GC L th))
                else Inr (gc_happened, th))
           else Inr (gc_happened, th))"

definition maybe_gc :: "lisp_side \<Rightarrow> os_context \<Rightarrow> thread \<Rightarrow> (bool \<times> thread) result" where
  "maybe_gc L context th =
     (let were_in_lisp = \<not> ffcall_active_p th in
      rbind (if were_in_lisp then fake_foreign_function_call context th else Inr th) (\<lambda>th.
      rbind (gc_in_lisp L context th) (\<lambda>(gc_happened, th).
      rbind (if were_in_lisp then undo_fake_foreign_function_call th
             else Inr (block_blockable_signals th)) (\<lambda>th.
      Inr (gc_happened \<noteq> V_NIL, th)))))"

text \<open>The allocator calls this in a pseudo-atomic section when a collection is due.\<close>

definition trigger_gc :: "thread \<Rightarrow> thread result" where
  "trigger_gc th =
     (if read_TLS GC_PENDING th = V_NIL then
        let th = write_TLS GC_PENDING V_T th in
        if read_TLS GC_INHIBIT th = V_NIL then
          rbind (set_pseudo_atomic_interrupted th)
            (\<lambda>th. Inr (maybe_save_gc_mask_and_block_deferrables None th))
        else Inr th
      else Inr th)"

section \<open>Handling what is pending\<close>

text \<open>The parts of \<open>interrupt_handle_pending\<close>, in order.\<close>

definition restore_gc_mask :: "os_context \<Rightarrow> thread \<Rightarrow> thread result" where
  "restore_gc_mask context th =
     (if gc_blocked_deferrables th then
        lose_if (pending_handler th \<noteq> None)
       (lose_if (read_TLS GC_INHIBIT th \<noteq> V_NIL)
         (let th = set_context_mask context (pending_mask th) th
          in Inr (th\<lparr>gc_blocked_deferrables := False\<rparr>)))
      else Inr th)"

definition pending_gc :: "lisp_side \<Rightarrow> os_context \<Rightarrow> thread \<Rightarrow> thread result" where
  "pending_gc L context th =
     rbind
      (if read_TLS STOP_FOR_GC_PENDING th \<noteq> V_NIL then
         rbind (clear_pseudo_atomic_interrupted th) (sig_stop_for_gc_handler L context)
       else if read_TLS GC_PENDING th = V_T then
         let th = (if pending_handler th \<noteq> None
                   then bind_variable INTERRUPTS_ENABLED V_NIL (bind_variable ALLOW_WITH_INTERRUPTS V_NIL th)
                   else th)
         in rbind (clear_pseudo_atomic_interrupted th) (\<lambda>th.
            rbind (maybe_gc L context th) (\<lambda>(gcd, th).
            lose_if (\<not> gcd)
              (if pending_handler th \<noteq> None then rbind (unbind th) unbind else Inr th)))
       else lose_if (read_TLS GC_PENDING th \<noteq> V_NIL) (Inr th))
      (\<lambda>th'. assert_blockables_blocked th'
        (lose_if (read_TLS GC_PENDING th' \<noteq> V_NIL)
        (lose_if (read_TLS STOP_FOR_GC_PENDING th' \<noteq> V_NIL)
        (lose_if (pending_handler th \<noteq> pending_handler th') (Inr th')))))"

definition pending_signal_handler :: "lisp_side \<Rightarrow> os_context \<Rightarrow> thread \<Rightarrow> thread result" where
  "pending_signal_handler L context th =
     (if read_TLS INTERRUPTS_ENABLED th \<noteq> V_NIL \<and> pending_handler th \<noteq> None then
        let th = write_TLS INTERRUPT_PENDING V_NIL th in
        rbind (clear_pseudo_atomic_interrupted th) (\<lambda>th.
        let th = set_context_mask context (pending_mask th) th
        in run_deferred_handler L context th)
      else Inr th)"

definition interrupt_handle_pending :: "lisp_side \<Rightarrow> os_context \<Rightarrow> thread \<Rightarrow> thread result" where
  "interrupt_handle_pending L context th =
     lose_if (get_pseudo_atomic_atomic th)
    (assert_blockables_blocked th
      (rbind (restore_gc_mask context th) (\<lambda>th.
       rbind (if read_TLS GC_INHIBIT th = V_NIL then pending_gc L context th else Inr th) (\<lambda>th.
       rbind (pending_signal_handler L context th) (\<lambda>th.
       lose_if (get_pseudo_atomic_interrupted th) (Inr th))))))"

end
