(* ===== verification/InterruptSteps.thy ===== *)
theory InterruptSteps
  imports Interrupts
begin

text \<open>
  A thread running Lisp code under asynchronous signals, as events: pseudo-atomic sections, the
  extents of \<open>without-interrupts\<close> and \<open>without-gcing\<close>, allocations that make a collection due,
  deferrable signals, the stop signal of the collector and the trap on which pending work is
  handled. An event is possible in some states, and performing it runs the code of \<open>Interrupts\<close>.
\<close>

unbundle bit_operations_syntax

section \<open>Events\<close>

text \<open>
  Where a thread is between two instructions: in ordinary code; behind the unbinding of
  \<open>*gc-inhibit*\<close> at the end of \<open>without-gcing\<close>, before and after the two variables bound
  around it are unbound; behind the test for pending work; and at a trap instruction, in ordinary
  code or at the end of \<open>without-gcing\<close>.
\<close>

datatype phase = Running | Leaving_inner | Leaving | Left | Trap_run | Trap_left

record world =
  self :: thread
  phase :: phase
  delivered :: "(signal \<times> siginfo) list"

datatype event = Begin_pseudo_atomic | End_pseudo_atomic | Allocation_trigger
  | Enter_without_interrupts | Leave_without_interrupts | Enter_without_gcing | Leave_without_gcing
  | Trap_pending | Signal signal siginfo | Stop_for_gc

text \<open>
  The kernel runs a handler with the blockable signals added to the mask and the old mask in the
  context, and installs the mask of the context when the handler returns.
\<close>

definition in_handler :: "(os_context \<Rightarrow> thread \<Rightarrow> thread result) \<Rightarrow> thread \<Rightarrow> thread result" where
  "in_handler f th =
     (let th = set_context_mask 0 (sigmask th) th
      in rbind (f 0 (th\<lparr>sigmask := sigmask th \<union> blockable_sigset\<rparr>)) (\<lambda>th.
         Inr (th\<lparr>sigmask := os_context_sigmask th 0\<rparr>)))"

text \<open>The Lisp side: the macros, as what they do to the thread. \<open>pa\<close> is the word that marks a
  pseudo-atomic section.\<close>

definition enter_without_interrupts :: "thread \<Rightarrow> thread" where
  "enter_without_interrupts th = bind_variable ALLOW_WITH_INTERRUPTS V_NIL (bind_variable INTERRUPTS_ENABLED V_NIL th)"

definition enter_without_gcing :: "thread \<Rightarrow> thread" where
  "enter_without_gcing th =
     bind_variable GC_INHIBIT V_T (bind_variable INTERRUPTS_ENABLED V_NIL
       (bind_variable ALLOW_WITH_INTERRUPTS V_NIL (bind_variable IN_WITHOUT_GCING V_T th)))"

definition end_pseudo_atomic :: "uword \<Rightarrow> thread \<Rightarrow> thread \<times> phase" where
  "end_pseudo_atomic pa th =
     (let bits = pseudo_atomic_bits th XOR pa
      in (th\<lparr>pseudo_atomic_bits := bits\<rparr>, if bits = 0 then Running else Trap_run))"

definition leave_without_interrupts :: "thread \<Rightarrow> (thread \<times> phase) result" where
  "leave_without_interrupts th =
     rbind (unbind th) (\<lambda>th. rbind (unbind th) (\<lambda>th.
       Inr (th, if read_TLS INTERRUPTS_ENABLED th \<noteq> V_NIL \<and> read_TLS INTERRUPT_PENDING th \<noteq> V_NIL
                then Trap_run else Running)))"

definition leave_without_gcing :: "phase \<Rightarrow> thread \<Rightarrow> (thread \<times> phase) result" where
  "leave_without_gcing p th =
     (case p of
        Running \<Rightarrow> rbind (unbind th) (\<lambda>th. Inr (th, Leaving_inner))
      | Leaving_inner \<Rightarrow> rbind (unbind th) (\<lambda>th. rbind (unbind th) (\<lambda>th. Inr (th, Leaving)))
      | Leaving \<Rightarrow> Inr (th, if read_TLS INTERRUPT_PENDING th \<noteq> V_NIL \<or> read_TLS GC_PENDING th \<noteq> V_NIL \<or>
                             read_TLS STOP_FOR_GC_PENDING th \<noteq> V_NIL then Trap_left else Left)
      | Left \<Rightarrow> rbind (unbind th) (\<lambda>th. Inr (th, Running))
      | _ \<Rightarrow> Inr (th, p))"

text \<open>When an event can happen.\<close>

definition plain_code :: "world \<Rightarrow> bool" where
  "plain_code w \<longleftrightarrow> phase w = Running \<and> pseudo_atomic_bits (self w) = 0"

definition can_happen :: "event \<Rightarrow> world \<Rightarrow> bool" where
  "can_happen ev w =
     (let th = self w in
      case ev of
        Begin_pseudo_atomic \<Rightarrow> plain_code w
      | End_pseudo_atomic \<Rightarrow> phase w = Running \<and> get_pseudo_atomic_atomic th
      | Allocation_trigger \<Rightarrow> phase w = Running \<and> get_pseudo_atomic_atomic th
      | Enter_without_interrupts \<Rightarrow> plain_code w
      | Leave_without_interrupts \<Rightarrow> plain_code w \<and> map fst (take 2 (binding_stack th)) =
          [ALLOW_WITH_INTERRUPTS, INTERRUPTS_ENABLED]
      | Enter_without_gcing \<Rightarrow> plain_code w \<and> read_TLS GC_INHIBIT th = V_NIL
      | Leave_without_gcing \<Rightarrow> plain_code w \<and> map fst (take 1 (binding_stack th)) = [GC_INHIBIT] \<or>
          phase w \<in> {Leaving_inner, Leaving, Left}
      | Trap_pending \<Rightarrow> phase w \<in> {Trap_run, Trap_left}
      | Signal s i \<Rightarrow> s \<in> deferrable_sigset \<and> s \<notin> sigmask th
      | Stop_for_gc \<Rightarrow> SIG_STOP_FOR_GC \<notin> sigmask th)"

definition perform :: "lisp_side \<Rightarrow> uword \<Rightarrow> event \<Rightarrow> world \<Rightarrow> world result" where
  "perform L pa ev w =
     (let th = self w; moved = (\<lambda>r. rbind r (\<lambda>(th, p). Inr (w\<lparr>self := th, phase := p\<rparr>)));
          handled = (\<lambda>r. rbind r (\<lambda>th. Inr (w\<lparr>self := th\<rparr>))) in
      case ev of
        Begin_pseudo_atomic \<Rightarrow> Inr (w\<lparr>self := th\<lparr>pseudo_atomic_bits := pa\<rparr>\<rparr>)
      | End_pseudo_atomic \<Rightarrow> moved (Inr (end_pseudo_atomic pa th))
      | Allocation_trigger \<Rightarrow> handled (trigger_gc th)
      | Enter_without_interrupts \<Rightarrow> Inr (w\<lparr>self := enter_without_interrupts th\<rparr>)
      | Leave_without_interrupts \<Rightarrow> moved (leave_without_interrupts th)
      | Enter_without_gcing \<Rightarrow> Inr (w\<lparr>self := enter_without_gcing th\<rparr>)
      | Leave_without_gcing \<Rightarrow> moved (leave_without_gcing (phase w) th)
      | Trap_pending \<Rightarrow>
          rbind (in_handler (interrupt_handle_pending L) th) (\<lambda>th.
            Inr (w\<lparr>self := th, phase := (if phase w = Trap_left then Left else Running)\<rparr>))
      | Signal s i \<Rightarrow>
          rbind (in_handler (maybe_now_maybe_later L s i) th) (\<lambda>th.
            Inr (w\<lparr>self := th, delivered := delivered w @ [(s, i)]\<rparr>))
      | Stop_for_gc \<Rightarrow> handled (in_handler (sig_stop_for_gc_handler L) th))"

end
