(* ===== verification/InterruptInv.thy ===== *)
theory InterruptInv
  imports InterruptSteps
begin

text \<open>
  The invariant of signal deferral and its preservation by every event, outside the windows in
  which the code stops the process.
\<close>

unbundle bit_operations_syntax

section \<open>The invariant\<close>

abbreviation enabled :: "thread \<Rightarrow> bool" where
  "enabled th \<equiv> tls th INTERRUPTS_ENABLED \<noteq> V_NIL"
abbreviation inhibited :: "thread \<Rightarrow> bool" where
  "inhibited th \<equiv> tls th GC_INHIBIT \<noteq> V_NIL"
abbreviation gc_due :: "thread \<Rightarrow> bool" where
  "gc_due th \<equiv> tls th GC_PENDING \<noteq> V_NIL \<or> tls th STOP_FOR_GC_PENDING \<noteq> V_NIL"

text \<open>
  The variables that \<open>without-interrupts\<close> and \<open>without-gcing\<close> have bound: stack, and the
  values of \<open>*interrupts-enabled*\<close>, \<open>*gc-inhibit*\<close> and \<open>*in-without-gcing*\<close>.
\<close>

inductive extents :: "(tls_symbol \<times> lisp_value) list \<Rightarrow> lisp_value \<Rightarrow> lisp_value \<Rightarrow> lisp_value \<Rightarrow> bool" where
  no_extent: "e \<noteq> V_NIL \<Longrightarrow> extents [] e V_NIL V_NIL"
| in_without_interrupts: "extents st e i w \<Longrightarrow>
    extents ((ALLOW_WITH_INTERRUPTS, a) # (INTERRUPTS_ENABLED, e) # st) V_NIL i w"
| in_without_gcing: "extents st e V_NIL w \<Longrightarrow>
    extents ((GC_INHIBIT, V_NIL) # (INTERRUPTS_ENABLED, e) # (ALLOW_WITH_INTERRUPTS, a) # (IN_WITHOUT_GCING, w) # st)
      V_NIL V_T V_T"

inductive_cases extents_Nil: "extents [] e i w"
inductive_cases extents_allow: "extents ((ALLOW_WITH_INTERRUPTS, a) # st) e i w"
inductive_cases extents_inhibit: "extents ((GC_INHIBIT, a) # st) e i w"

lemma extents_flags:
  "extents st e i w \<Longrightarrow> (i \<noteq> V_NIL \<longrightarrow> e = V_NIL) \<and> (i = V_NIL \<longrightarrow> w = V_NIL)"
  by (induction rule: extents.induct) auto

text \<open>The stack in each phase.\<close>

definition stack_ok :: "phase \<Rightarrow> thread \<Rightarrow> bool" where
  "stack_ok p th \<longleftrightarrow>
     (let st = binding_stack th; e = tls th INTERRUPTS_ENABLED; i = tls th GC_INHIBIT; w = tls th IN_WITHOUT_GCING in
      if p \<in> {Running, Trap_run} then extents st e i w
      else i = V_NIL \<and> w \<noteq> V_NIL \<and>
        (if p = Leaving_inner
         then e = V_NIL \<and> (\<exists>e' a w' st'. st = (INTERRUPTS_ENABLED, e') # (ALLOW_WITH_INTERRUPTS, a) # (IN_WITHOUT_GCING, w') # st' \<and>
                extents st' e' V_NIL w')
         else \<exists>w' st'. st = (IN_WITHOUT_GCING, w') # st' \<and> extents st' e V_NIL w'))"

text \<open>The frame of every handler: the state word, the foreign call flag, room for a context.\<close>

definition lisp_frame :: "thread \<Rightarrow> bool" where
  "lisp_frame th \<longleftrightarrow> state_word th = STATE_RUNNING \<and> \<not> ffcall_active_p th \<and>
     (\<exists>k. tls th FREE_INTERRUPT_CONTEXT_INDEX = V_FIXNUM k \<and> k < MAX_INTERRUPTS)"

definition bits_ok :: "phase \<Rightarrow> uword \<Rightarrow> uword \<Rightarrow> bool" where
  "bits_ok p pa b \<longleftrightarrow>
     (case p of Running \<Rightarrow> b \<in> {0, pa, pa OR 1} | Trap_run \<Rightarrow> b \<in> {0, 1} | _ \<Rightarrow> b = 0)"

definition flags_ok :: "phase \<Rightarrow> thread \<Rightarrow> bool" where
  "flags_ok p th \<longleftrightarrow>
     (let ip = tls th INTERRUPT_PENDING \<noteq> V_NIL; pai = get_pseudo_atomic_interrupted th;
          H = pending_handler th \<noteq> None; gb = gc_blocked_deferrables th in
      tls th GC_PENDING \<in> {V_NIL, V_T} \<and>
      (ip \<longrightarrow> H) \<and> (H \<and> \<not> ip \<longrightarrow> pai \<and> enabled th) \<and>
      (gb \<longrightarrow> pai \<and> \<not> H \<and> gc_due th) \<and> (pai \<longrightarrow> \<not> inhibited th \<and> (gb \<or> H)) \<and>
      (p \<noteq> Running \<longrightarrow> \<not> inhibited th) \<and>
      (pai \<and> H \<and> \<not> enabled th \<longrightarrow> gc_due th) \<and>
      (gc_due th \<longrightarrow> pai \<or> inhibited th \<or> p \<in> {Leaving_inner, Leaving, Trap_left}) \<and>
      (H \<and> enabled th \<longrightarrow> pai \<or> p \<in> {Leaving, Trap_run, Trap_left}))"

definition mask_ok :: "thread \<Rightarrow> bool" where
  "mask_ok th \<longleftrightarrow>
     SIG_STOP_FOR_GC \<notin> sigmask th \<and>
     (if pending_handler th \<noteq> None \<or> gc_blocked_deferrables th
      then deferrable_sigset \<subseteq> sigmask th \<and> pending_mask th \<inter> insert SIG_STOP_FOR_GC deferrable_sigset = {}
      else sigmask th \<inter> deferrable_sigset = {})"

text \<open>Every signal delivered has been handled, in order, except for the one that is pending.\<close>

definition pending_signals :: "thread \<Rightarrow> (signal \<times> siginfo) list" where
  "pending_signals th = (if pending_handler th = None then [] else [(pending_signal th, pending_info th)])"

definition signals_kept :: "world \<Rightarrow> bool" where
  "signals_kept w \<longleftrightarrow> delivered w = lisp_calls (self w) @ pending_signals (self w) \<and>
     (pending_handler (self w) \<noteq> None \<longrightarrow> pending_signal (self w) \<in> deferrable_sigset)"

definition protocol_inv :: "uword \<Rightarrow> world \<Rightarrow> bool" where
  "protocol_inv pa w \<longleftrightarrow>
     lisp_frame (self w) \<and> stack_ok (phase w) (self w) \<and> bits_ok (phase w) pa (pseudo_atomic_bits (self w)) \<and>
     flags_ok (phase w) (self w) \<and> mask_ok (self w) \<and> signals_kept w"

text \<open>
  What is assumed of the Lisp functions: a handler returns with everything but the signal mask as
  it found it; \<open>SUB-GC\<close>, when collecting is not inhibited, collects or finds that another thread
  did, and leaves no collection pending; every deferrable signal has a Lisp handler; and a
  stopped thread is set running again.
\<close>

definition lisp_behaves :: "lisp_side \<Rightarrow> bool" where
  "lisp_behaves L \<longleftrightarrow>
     (\<forall>s \<in> deferrable_sigset. lisp_sig_handlers L s) \<and>
     (\<forall>s i c th. \<exists>m. call_handler L s i c th = th\<lparr>sigmask := m\<rparr>) \<and>
     (\<forall>th. \<not> inhibited th \<longrightarrow> (\<exists>v m. v \<noteq> V_NIL \<and> SUB_GC L th =
        (v, th\<lparr>tls := (tls th)(GC_PENDING := V_NIL, STOP_FOR_GC_PENDING := V_NIL), sigmask := m\<rparr>))) \<and>
     (\<forall>th. \<exists>m. POST_GC L th = th\<lparr>sigmask := m\<rparr>) \<and>
     (\<forall>th. woken_state L th = STATE_RUNNING)"

definition pa_word :: "uword \<Rightarrow> bool" where
  "pa_word pa \<longleftrightarrow> pa \<noteq> 0 \<and> pa AND 1 = 0"

section \<open>Facts on sets and bits\<close>

lemma signal_sets:
  "SIG_STOP_FOR_GC \<notin> deferrable_sigset" "SIGHUP \<in> deferrable_sigset" "SIGCHLD \<in> deferrable_sigset"
  "deferrable_sigset \<subseteq> blockable_sigset" "SIG_STOP_FOR_GC \<in> blockable_sigset" "SIGPIPE \<in> blockable_sigset"
  "gc_sigset = {SIG_STOP_FOR_GC}" "SIGHUP \<in> blockable_sigset"
  "sigaddset_deferrable s = s \<union> deferrable_sigset"
  by (auto simp: deferrable_sigset_def blockable_sigset_def gc_sigset_def sigaddset_blockable_def
      sigaddset_gc_def sigaddset_deferrable_def SIG_STOP_FOR_GC_def Let_def)

lemma deferrables_blocked_p_eq:
  "deferrable_sigset \<subseteq> s \<Longrightarrow> deferrables_blocked_p s = Inr True"
  "s \<inter> deferrable_sigset = {} \<Longrightarrow> deferrables_blocked_p s = Inr False"
  by (auto simp: deferrables_blocked_p_def deferrable_sigset_def sigaddset_deferrable_def
      SIG_STOP_FOR_GC_def Let_def)

lemma pa_bits:
  assumes "pa_word pa"
  shows "pa AND NOT 1 = pa" "(pa OR 1) AND NOT 1 = pa" "(pa OR 1) AND 1 = 1" "(pa OR 1) XOR pa = 1"
    "(1 :: uword) AND NOT 1 = 0" "pa \<noteq> 0" "pa OR 1 \<noteq> 0" "pa AND 1 = 0" "(pa OR 1) OR 1 = pa OR 1"
proof -
  have z: "\<not> bit pa 0" using assms by (simp add: pa_word_def and_one_eq bit_0 even_iff_mod_2_eq_zero)
  have eq: "x = y" if "\<And>j. bit x j = bit y j" for x y :: uword using that by (simp add: bit_eq_iff)
  show "pa AND NOT 1 = pa" "(pa OR 1) AND NOT 1 = pa" "(pa OR 1) AND 1 = 1" "(pa OR 1) XOR pa = 1"
    using z by (auto simp: bit_simps bit_1_iff intro!: bit_word_eqI) (metis not_gr0)+
  show "(1 :: uword) AND NOT 1 = 0" "pa \<noteq> 0" "pa AND 1 = 0" "(pa OR 1) OR 1 = pa OR 1"
    using assms by (simp_all add: pa_word_def or.assoc)
  have "bit (pa OR 1) 0" by (simp add: bit_simps)
  then show "pa OR 1 \<noteq> 0" by force
qed


section \<open>What the handlers do\<close>

lemmas interrupt_simps = read_TLS_def write_TLS_def bind_variable_def unbind_def lose_if_def
  assert_blockables_blocked_def check_gc_signals_unblocked_or_lose_def set_context_mask_def

lemma fake_call:
  assumes "lisp_frame th" and "blockable_sigset \<subseteq> sigmask th"
  shows "fake_foreign_function_call c th = fake_foreign_function_call_noassert c th"
    and "\<exists>sc k. fake_foreign_function_call_noassert c th =
      Inr (th\<lparr>binding_stack := (FREE_INTERRUPT_CONTEXT_INDEX, tls th FREE_INTERRUPT_CONTEXT_INDEX) # binding_stack th,
        tls := (tls th)(FREE_INTERRUPT_CONTEXT_INDEX := V_FIXNUM k), sigcontexts := sc\<rparr>)"
proof -
  show "fake_foreign_function_call c th = fake_foreign_function_call_noassert c th"
    using assms(2) signal_sets(5,6,8) by (auto simp: fake_foreign_function_call_def interrupt_simps)
  obtain k where k: "tls th FREE_INTERRUPT_CONTEXT_INDEX = V_FIXNUM k" "k < MAX_INTERRUPTS"
    using assms(1) by (auto simp: lisp_frame_def)
  then show "\<exists>sc k. fake_foreign_function_call_noassert c th =
      Inr (th\<lparr>binding_stack := (FREE_INTERRUPT_CONTEXT_INDEX, tls th FREE_INTERRUPT_CONTEXT_INDEX) # binding_stack th,
        tls := (tls th)(FREE_INTERRUPT_CONTEXT_INDEX := V_FIXNUM k), sigcontexts := sc\<rparr>)"
    by (intro exI[of _ "(sigcontexts th)(k \<mapsto> c)"] exI[of _ "k + 1"])
      (simp add: fake_foreign_function_call_noassert_def save_interrupt_context_def fixnum_of_def interrupt_simps Let_def)
qed

lemma undo_call:
  assumes "binding_stack th = (FREE_INTERRUPT_CONTEXT_INDEX, v) # st"
  shows "\<exists>sc. undo_fake_foreign_function_call th =
    Inr (th\<lparr>tls := (tls th)(FREE_INTERRUPT_CONTEXT_INDEX := v), binding_stack := st,
      sigmask := sigmask th \<union> blockable_sigset, sigcontexts := sc, ffcall_active_p := False\<rparr>)"
  by (intro exI[of _ "(sigcontexts th)(fixnum_of (tls th FREE_INTERRUPT_CONTEXT_INDEX) - 1 := None)"])
    (use assms in \<open>cases th; simp add: undo_fake_foreign_function_call_def drop_interrupt_context_def
      block_blockable_signals_def interrupt_simps Let_def\<close>)

lemma handled_now:
  assumes L: "lisp_behaves L" and s: "s \<in> deferrable_sigset" and m: "blockable_sigset \<subseteq> sigmask th"
    and th: "enabled th" "\<not> get_pseudo_atomic_atomic th" "lisp_frame th"
  shows "\<exists>m sc. interrupt_handle_now L s i c th =
      Inr (th\<lparr>lisp_calls := lisp_calls th @ [(s, i)], sigmask := m, sigcontexts := sc, ffcall_active_p := False\<rparr>)
      \<and> blockable_sigset \<subseteq> m"
proof -
  obtain sc k where f: "fake_foreign_function_call_noassert c th =
      Inr (th\<lparr>binding_stack := (FREE_INTERRUPT_CONTEXT_INDEX, tls th FREE_INTERRUPT_CONTEXT_INDEX) # binding_stack th,
        tls := (tls th)(FREE_INTERRUPT_CONTEXT_INDEX := V_FIXNUM k), sigcontexts := sc\<rparr>)"
    using fake_call(2)[OF th(3) m] by blast
  have h: "lisp_sig_handlers L s" using L s by (simp add: lisp_behaves_def)
  define u where "u = unblock_gc_stop_signal (th\<lparr>
      binding_stack := (FREE_INTERRUPT_CONTEXT_INDEX, tls th FREE_INTERRUPT_CONTEXT_INDEX) # binding_stack th,
      tls := (tls th)(FREE_INTERRUPT_CONTEXT_INDEX := V_FIXNUM k), sigcontexts := sc\<rparr>)"
  obtain m where c: "call_handler L s i c (u\<lparr>lisp_calls := lisp_calls u @ [(s, i)]\<rparr>) =
      (u\<lparr>lisp_calls := lisp_calls u @ [(s, i)]\<rparr>)\<lparr>sigmask := m\<rparr>" (is "_ = ?v")
    using L unfolding lisp_behaves_def by blast
  have b: "interrupt_handle_now L s i c th = undo_fake_foreign_function_call ?v"
    using h th s m signal_sets(5,6,8) unfolding interrupt_handle_now_def
    by (simp add: interrupt_simps f lisp_frame_def Let_def c subset_iff flip: u_def)
  have "binding_stack ?v = (FREE_INTERRUPT_CONTEXT_INDEX, tls th FREE_INTERRUPT_CONTEXT_INDEX) # binding_stack th"
    by (simp add: u_def unblock_gc_stop_signal_def)
  from undo_call[OF this] obtain sc' where e: "undo_fake_foreign_function_call ?v =
      Inr (?v\<lparr>tls := (tls ?v)(FREE_INTERRUPT_CONTEXT_INDEX := tls th FREE_INTERRUPT_CONTEXT_INDEX),
        binding_stack := binding_stack th, sigmask := sigmask ?v \<union> blockable_sigset, sigcontexts := sc',
        ffcall_active_p := False\<rparr>)" by blast
  have "interrupt_handle_now L s i c th = Inr (th\<lparr>lisp_calls := lisp_calls th @ [(s, i)],
      sigmask := m \<union> blockable_sigset, sigcontexts := sc', ffcall_active_p := False\<rparr>)"
    unfolding b e by (cases th) (simp add: u_def unblock_gc_stop_signal_def)
  then show ?thesis by blast
qed


lemma stop_thread_eq:
  assumes L: "lisp_behaves L" and th: "state_word th = STATE_RUNNING" "\<not> get_pseudo_atomic_atomic th"
  shows "stop_thread L c th =
      Inr (th\<lparr>tls := (tls th)(GC_PENDING := V_NIL, STOP_FOR_GC_PENDING := V_NIL),
        pseudo_atomic_bits := (if gc_blocked_deferrables th then pseudo_atomic_bits th AND NOT 1 else pseudo_atomic_bits th),
        os_context_sigmask := (if gc_blocked_deferrables th
          then (os_context_sigmask th)(c := pending_mask th) else os_context_sigmask th),
        gc_blocked_deferrables := False\<rparr>)"
proof -
  have w: "woken_state L t = STATE_RUNNING" for t using L by (simp add: lisp_behaves_def)
  show ?thesis
    using th by (cases th) (simp add: stop_thread_def interrupt_simps w Let_def clear_pseudo_atomic_interrupted_def
        get_pseudo_atomic_atomic_def)
qed

lemma index_restored:
  "(t(FREE_INTERRUPT_CONTEXT_INDEX := k, GC_PENDING := a, STOP_FOR_GC_PENDING := b))
      (FREE_INTERRUPT_CONTEXT_INDEX := t FREE_INTERRUPT_CONTEXT_INDEX) =
    t(GC_PENDING := a, STOP_FOR_GC_PENDING := b)"
  by (rule ext) simp

lemma stopped_now:
  assumes L: "lisp_behaves L" and th: "lisp_frame th" "\<not> inhibited th" "\<not> get_pseudo_atomic_atomic th"
    and m: "blockable_sigset \<subseteq> sigmask th"
  shows "\<exists>sc m. sig_stop_for_gc_handler L c th =
      Inr (th\<lparr>tls := (tls th)(GC_PENDING := V_NIL, STOP_FOR_GC_PENDING := V_NIL),
        pseudo_atomic_bits := (if gc_blocked_deferrables th then pseudo_atomic_bits th AND NOT 1 else pseudo_atomic_bits th),
        os_context_sigmask := (if gc_blocked_deferrables th
          then (os_context_sigmask th)(c := pending_mask th) else os_context_sigmask th),
        gc_blocked_deferrables := False, sigmask := m, sigcontexts := sc, ffcall_active_p := False\<rparr>) \<and>
      blockable_sigset \<subseteq> m"
proof -
  let ?old = "tls th FREE_INTERRUPT_CONTEXT_INDEX"
  obtain sc k where f: "fake_foreign_function_call_noassert c th =
      Inr (th\<lparr>binding_stack := (FREE_INTERRUPT_CONTEXT_INDEX, ?old) # binding_stack th,
        tls := (tls th)(FREE_INTERRUPT_CONTEXT_INDEX := V_FIXNUM k), sigcontexts := sc\<rparr>)" (is "_ = Inr ?u")
    using fake_call(2)[OF th(1) m] by blast
  have u: "state_word ?u = STATE_RUNNING" "\<not> get_pseudo_atomic_atomic ?u"
    using th by (simp_all add: lisp_frame_def get_pseudo_atomic_atomic_def)
  obtain v where v: "stop_thread L c ?u = Inr v" "binding_stack v = (FREE_INTERRUPT_CONTEXT_INDEX, ?old) # binding_stack th"
    and v': "v = ?u\<lparr>tls := (tls ?u)(GC_PENDING := V_NIL, STOP_FOR_GC_PENDING := V_NIL),
        pseudo_atomic_bits := (if gc_blocked_deferrables th then pseudo_atomic_bits th AND NOT 1 else pseudo_atomic_bits th),
        os_context_sigmask := (if gc_blocked_deferrables th
          then (os_context_sigmask th)(c := pending_mask th) else os_context_sigmask th),
        gc_blocked_deferrables := False\<rparr>"
    using stop_thread_eq[OF L u, of c] by simp
  obtain sc' where e: "undo_fake_foreign_function_call v =
      Inr (v\<lparr>tls := (tls v)(FREE_INTERRUPT_CONTEXT_INDEX := ?old), binding_stack := binding_stack th,
        sigmask := sigmask v \<union> blockable_sigset, sigcontexts := sc', ffcall_active_p := False\<rparr>)"
    using undo_call[OF v(2)] by blast
  have s: "sig_stop_for_gc_handler L c th = undo_fake_foreign_function_call v"
  proof -
    have fr: "\<not> ffcall_active_p th" using th(1) by (simp add: lisp_frame_def)
    show ?thesis
      using th(2,3) fr unfolding sig_stop_for_gc_handler_def fake_call(1)[OF th(1) m] f Let_def read_TLS_def
      by (simp only: if_False if_True simp_thms rbind.simps v(1))
  qed
  have "v\<lparr>tls := (tls v)(FREE_INTERRUPT_CONTEXT_INDEX := ?old), binding_stack := binding_stack th,
        sigmask := sigmask v \<union> blockable_sigset, sigcontexts := sc', ffcall_active_p := False\<rparr> =
      th\<lparr>tls := (tls th)(GC_PENDING := V_NIL, STOP_FOR_GC_PENDING := V_NIL),
        pseudo_atomic_bits := (if gc_blocked_deferrables th then pseudo_atomic_bits th AND NOT 1 else pseudo_atomic_bits th),
        os_context_sigmask := (if gc_blocked_deferrables th
          then (os_context_sigmask th)(c := pending_mask th) else os_context_sigmask th),
        gc_blocked_deferrables := False, sigmask := sigmask th \<union> blockable_sigset, sigcontexts := sc',
        ffcall_active_p := False\<rparr>"
    unfolding v' by (simp add: index_restored)
  then show ?thesis unfolding s e by (intro exI[of _ sc'] exI[of _ "sigmask th \<union> blockable_sigset"]) simp
qed

lemma gc_in_lisp_eq:
  assumes L: "lisp_behaves L" and th: "\<not> inhibited th"
    and c: "SIG_STOP_FOR_GC \<notin> os_context_sigmask th c"
      "deferrable_sigset \<subseteq> os_context_sigmask th c \<or> os_context_sigmask th c \<inter> deferrable_sigset = {}"
  shows "\<exists>v m. v \<noteq> V_NIL \<and> gc_in_lisp L c th =
      Inr (v, th\<lparr>tls := (tls th)(GC_PENDING := V_NIL, STOP_FOR_GC_PENDING := V_NIL), sigmask := m\<rparr>)"
proof -
  let ?t = "unblock_gc_stop_signal th"
  have "tls ?t = tls th" by (simp add: unblock_gc_stop_signal_def)
  then obtain v m where s: "v \<noteq> V_NIL" "SUB_GC L ?t =
      (v, ?t\<lparr>tls := (tls th)(GC_PENDING := V_NIL, STOP_FOR_GC_PENDING := V_NIL), sigmask := m\<rparr>)" (is "_ = (v, ?u)")
    using L th unfolding lisp_behaves_def by metis
  have u: "?u = th\<lparr>tls := (tls th)(GC_PENDING := V_NIL, STOP_FOR_GC_PENDING := V_NIL), sigmask := m\<rparr>"
    by (cases th) (simp add: unblock_gc_stop_signal_def)
  have "\<exists>d. deferrables_blocked_p (os_context_sigmask th c) = Inr d"
    using c(2) deferrables_blocked_p_eq[of "os_context_sigmask th c"] by (elim disjE) blast+
  then have "\<exists>b. can_invoke_post_gc (os_context_sigmask th c) ?u = Inr b"
    by (auto simp: can_invoke_post_gc_def)
  then obtain b where can: "can_invoke_post_gc (os_context_sigmask th c) ?u = Inr b" by blast
  obtain m' where p: "POST_GC L (?u\<lparr>sigmask := os_context_sigmask th c\<rparr>) =
      (?u\<lparr>sigmask := os_context_sigmask th c\<rparr>)\<lparr>sigmask := m'\<rparr>"
    using L unfolding lisp_behaves_def by blast
  let ?post = "v = V_T \<and> (read_TLS INTERRUPTS_ENABLED ?u \<noteq> V_NIL \<or> read_TLS ALLOW_WITH_INTERRUPTS ?u \<noteq> V_NIL)"
  have o: "os_context_sigmask ?u c = os_context_sigmask th c" by (simp add: unblock_gc_stop_signal_def)
  have g: "gc_in_lisp L c th = (if ?post then rbind (can_invoke_post_gc (os_context_sigmask ?u c) ?u) (\<lambda>can.
                if can then
                  let th = ?u\<lparr>sigmask := os_context_sigmask ?u c\<rparr>
                  in check_gc_signals_unblocked_or_lose (sigmask th) (Inr (v, POST_GC L th))
                else Inr (v, ?u))
           else Inr (v, ?u))"
    using c(1) unfolding gc_in_lisp_def by (simp only: s(2) check_gc_signals_unblocked_or_lose_def if_False Let_def prod.case)
  have "\<exists>m. gc_in_lisp L c th = Inr (v, ?u\<lparr>sigmask := m\<rparr>)"
  proof (cases "?post \<and> b")
    case True
    then have "gc_in_lisp L c th = Inr (v, ?u\<lparr>sigmask := m'\<rparr>)"
      unfolding g o can using c(1) p by (simp add: check_gc_signals_unblocked_or_lose_def)
    then show ?thesis by blast
  next
    case False
    then have "gc_in_lisp L c th = Inr (v, ?u\<lparr>sigmask := m\<rparr>)" unfolding g o can by (auto simp: u)
    then show ?thesis by blast
  qed
  then show ?thesis using s(1) unfolding u by auto
qed


lemma collected_now:
  assumes L: "lisp_behaves L" and th: "lisp_frame th" "\<not> inhibited th"
    and m: "blockable_sigset \<subseteq> sigmask th"
    and c: "SIG_STOP_FOR_GC \<notin> os_context_sigmask th c"
      "deferrable_sigset \<subseteq> os_context_sigmask th c \<or> os_context_sigmask th c \<inter> deferrable_sigset = {}"
  shows "\<exists>sc m. maybe_gc L c th =
      Inr (True, th\<lparr>tls := (tls th)(GC_PENDING := V_NIL, STOP_FOR_GC_PENDING := V_NIL), sigmask := m,
        sigcontexts := sc, ffcall_active_p := False\<rparr>) \<and> blockable_sigset \<subseteq> m"
proof -
  let ?old = "tls th FREE_INTERRUPT_CONTEXT_INDEX"
  obtain sc k where f: "fake_foreign_function_call_noassert c th =
      Inr (th\<lparr>binding_stack := (FREE_INTERRUPT_CONTEXT_INDEX, ?old) # binding_stack th,
        tls := (tls th)(FREE_INTERRUPT_CONTEXT_INDEX := V_FIXNUM k), sigcontexts := sc\<rparr>)" (is "_ = Inr ?u")
    using fake_call(2)[OF th(1) m] by blast
  have u: "\<not> inhibited ?u" "os_context_sigmask ?u = os_context_sigmask th" using th by simp_all
  obtain v m' where v: "v \<noteq> V_NIL" "gc_in_lisp L c ?u =
      Inr (v, ?u\<lparr>tls := (tls ?u)(GC_PENDING := V_NIL, STOP_FOR_GC_PENDING := V_NIL), sigmask := m'\<rparr>)"
      (is "_ = Inr (v, ?v)")
    using gc_in_lisp_eq[OF L u(1)] c unfolding u(2) by blast
  obtain sc' where e: "undo_fake_foreign_function_call ?v =
      Inr (?v\<lparr>tls := (tls ?v)(FREE_INTERRUPT_CONTEXT_INDEX := ?old), binding_stack := binding_stack th,
        sigmask := sigmask ?v \<union> blockable_sigset, sigcontexts := sc', ffcall_active_p := False\<rparr>)"
    using undo_call[of ?v ?old "binding_stack th"] by auto
  have fr: "\<not> ffcall_active_p th" using th(1) by (simp add: lisp_frame_def)
  have "maybe_gc L c th = rbind (undo_fake_foreign_function_call ?v) (\<lambda>th. Inr (v \<noteq> V_NIL, th))"
    using fr unfolding maybe_gc_def fake_call(1)[OF th(1) m] f Let_def
    by (simp only: if_True simp_thms rbind.simps v(2) prod.case)
  moreover have "?v\<lparr>tls := (tls ?v)(FREE_INTERRUPT_CONTEXT_INDEX := ?old), binding_stack := binding_stack th,
        sigmask := sigmask ?v \<union> blockable_sigset, sigcontexts := sc', ffcall_active_p := False\<rparr> =
      th\<lparr>tls := (tls th)(GC_PENDING := V_NIL, STOP_FOR_GC_PENDING := V_NIL),
        sigmask := m' \<union> blockable_sigset, sigcontexts := sc', ffcall_active_p := False\<rparr>"
    by (simp add: index_restored)
  ultimately show ?thesis
    using v(1) unfolding e by (intro exI[of _ sc'] exI[of _ "m' \<union> blockable_sigset"]) simp
qed

end
