(* ===== verification/InterruptEvents.thy ===== *)
theory InterruptEvents
  imports InterruptInv
begin

text \<open>Every event, outside the windows, succeeds and keeps the invariant.\<close>

unbundle bit_operations_syntax

lemma protocol_invD:
  assumes "protocol_inv pa w"
  shows "lisp_frame (self w)" "stack_ok (phase w) (self w)" "bits_ok (phase w) pa (pseudo_atomic_bits (self w))"
    "flags_ok (phase w) (self w)" "mask_ok (self w)" "signals_kept w"
  using assms by (simp_all add: protocol_inv_def)

lemma flags_okD:
  assumes "flags_ok p th"
  shows "gc_blocked_deferrables th \<Longrightarrow> get_pseudo_atomic_interrupted th \<and> pending_handler th = None \<and>
      tls th INTERRUPT_PENDING = V_NIL \<and> gc_due th"
    and "tls th INTERRUPT_PENDING \<noteq> V_NIL \<Longrightarrow> pending_handler th \<noteq> None"
    and "pending_handler th \<noteq> None \<Longrightarrow> tls th INTERRUPT_PENDING = V_NIL \<Longrightarrow> get_pseudo_atomic_interrupted th \<and> enabled th"
    and "get_pseudo_atomic_interrupted th \<Longrightarrow> \<not> inhibited th \<and> (gc_blocked_deferrables th \<or> pending_handler th \<noteq> None)"
    and "p \<noteq> Running \<Longrightarrow> \<not> inhibited th"
    and "get_pseudo_atomic_interrupted th \<Longrightarrow> pending_handler th \<noteq> None \<Longrightarrow> \<not> enabled th \<Longrightarrow> gc_due th"
    and "gc_due th \<Longrightarrow> get_pseudo_atomic_interrupted th \<or> inhibited th \<or> p \<in> {Leaving_inner, Leaving, Trap_left}"
    and "pending_handler th \<noteq> None \<Longrightarrow> enabled th \<Longrightarrow>
      get_pseudo_atomic_interrupted th \<or> p \<in> {Leaving, Trap_run, Trap_left}"
    and "tls th GC_PENDING \<noteq> V_NIL \<Longrightarrow> tls th GC_PENDING = V_T"
  using assms unfolding flags_ok_def Let_def by blast+

text \<open>With no extent around, interrupts are enabled; inhibiting disables them.\<close>

lemma stack_enabled:
  assumes "stack_ok p th"
  shows "inhibited th \<Longrightarrow> \<not> enabled th" "p = Leaving_inner \<Longrightarrow> \<not> enabled th"
    "p \<notin> {Running, Trap_run} \<Longrightarrow> tls th IN_WITHOUT_GCING \<noteq> V_NIL \<and> \<not> inhibited th"
    "p \<in> {Running, Trap_run} \<Longrightarrow> \<not> inhibited th \<Longrightarrow> tls th IN_WITHOUT_GCING = V_NIL"
  using assms extents_flags[of "binding_stack th"] by (auto simp: stack_ok_def Let_def split: if_splits)

lemma pa_bits_neq: "pa_word pa \<Longrightarrow> pa \<noteq> 1 \<and> pa OR 1 \<noteq> 1 \<and> pa OR 1 \<noteq> pa"
proof -
  assume "pa_word pa"
  note b = pa_bits(1,2,3,5,6,8)[OF this]
  have "pa \<noteq> 1" "pa OR 1 \<noteq> 1" "pa OR 1 \<noteq> pa" using b by force+
  then show ?thesis by simp
qed

lemma pa_bits_eq:
  assumes pa: "pa_word pa" and b: "bits_ok p pa (pseudo_atomic_bits th)"
  shows "get_pseudo_atomic_atomic th \<longleftrightarrow> pseudo_atomic_bits th \<in> {pa, pa OR 1}"
    and "get_pseudo_atomic_interrupted th \<longleftrightarrow> pseudo_atomic_bits th \<in> {1, pa OR 1}"
    and "get_pseudo_atomic_atomic th \<Longrightarrow> p = Running"
proof -
  have "pa \<noteq> 1" "pa OR 1 \<noteq> 1" "pa OR 1 \<noteq> pa" using pa_bits_neq[OF pa] by blast+
  then show "get_pseudo_atomic_atomic th \<longleftrightarrow> pseudo_atomic_bits th \<in> {pa, pa OR 1}"
    "get_pseudo_atomic_interrupted th \<longleftrightarrow> pseudo_atomic_bits th \<in> {1, pa OR 1}"
    using b pa_bits[OF pa] unfolding bits_ok_def get_pseudo_atomic_atomic_def get_pseudo_atomic_interrupted_def
    by (auto split: phase.splits)
  then show "get_pseudo_atomic_atomic th \<Longrightarrow> p = Running"
    using b pa_bits[OF pa] \<open>pa \<noteq> 1\<close> \<open>pa OR 1 \<noteq> 1\<close> by (auto simp: bits_ok_def split: phase.splits)
qed

section \<open>A deferrable signal\<close>

lemma stored:
  assumes "pending_handler th = None"
  shows "store_signal_data_for_later (Some h) s (Some i) (Some c) th =
    Inr (th\<lparr>pending_handler := Some h, pending_signal := s, pending_info := i,
      pending_mask := os_context_sigmask th c,
      os_context_sigmask := (os_context_sigmask th)(c := os_context_sigmask th c \<union> deferrable_sigset)\<rparr>)"
  using assms by (cases th) (simp add: store_signal_data_for_later_def set_context_mask_def signal_sets(9) Let_def)

text \<open>A thread that takes a deferrable signal has nothing pending.\<close>

lemma nothing_pending:
  assumes "flags_ok p th" "mask_ok th" and "s \<in> deferrable_sigset" "s \<notin> sigmask th"
  shows "pending_handler th = None" "\<not> gc_blocked_deferrables th" "tls th INTERRUPT_PENDING = V_NIL"
    "\<not> get_pseudo_atomic_interrupted th" "sigmask th \<inter> deferrable_sigset = {}"
proof -
  show *: "pending_handler th = None" "\<not> gc_blocked_deferrables th" "sigmask th \<inter> deferrable_sigset = {}"
    using assms(2-4) by (auto simp: mask_ok_def split: if_splits)
  show "tls th INTERRUPT_PENDING = V_NIL" "\<not> get_pseudo_atomic_interrupted th"
    using assms(1) * by (auto simp: flags_ok_def Let_def)
qed

text \<open>The first window: in it the check at the end of \<open>can_handle_now\<close> stops the process.\<close>

definition signal_window :: "world \<Rightarrow> bool" where
  "signal_window w \<longleftrightarrow> gc_due (self w) \<and> \<not> enabled (self w) \<and> phase w \<in> {Leaving_inner, Leaving, Trap_left}"

lemma signal_stored_inhibited:
  assumes inv: "flags_ok p th" "mask_ok th" "stack_ok p th" and s: "s \<in> deferrable_sigset" "s \<notin> sigmask th"
    and later: "\<not> enabled th \<or> in_leaving_without_gcing_race_p th"
    and win: "\<not> (gc_due th \<and> \<not> enabled th \<and> p \<in> {Leaving_inner, Leaving, Trap_left})"
  shows "in_handler (maybe_now_maybe_later L s i) th =
    Inr (th\<lparr>pending_handler := Some Interrupt_handle_now, pending_signal := s, pending_info := i,
      pending_mask := sigmask th, tls := (tls th)(INTERRUPT_PENDING := V_T),
      os_context_sigmask := (os_context_sigmask th)(0 := sigmask th \<union> deferrable_sigset),
      sigmask := sigmask th \<union> deferrable_sigset\<rparr>)"
proof -
  note n = nothing_pending[OF inv(1,2) s]
  define t where "t = th\<lparr>os_context_sigmask := (os_context_sigmask th)(0 := sigmask th), sigmask := sigmask th \<union> blockable_sigset\<rparr>"
  define u where "u = th\<lparr>pending_handler := Some Interrupt_handle_now, pending_signal := s, pending_info := i,
      pending_mask := sigmask th, tls := (tls th)(INTERRUPT_PENDING := V_T),
      os_context_sigmask := (os_context_sigmask th)(0 := sigmask th \<union> deferrable_sigset),
      sigmask := sigmask th \<union> blockable_sigset\<rparr>"
  have t: "pending_handler t = None" "\<not> gc_blocked_deferrables t" "tls t = tls th" "os_context_sigmask t 0 = sigmask th"
    using n by (simp_all add: t_def)
  have race: "in_leaving_without_gcing_race_p t = in_leaving_without_gcing_race_p th"
    "in_leaving_without_gcing_race_p u = in_leaving_without_gcing_race_p th"
    by (simp_all add: t_def u_def in_leaving_without_gcing_race_p_def read_TLS_def)
  have st: "rbind (store_signal_data_for_later (Some Interrupt_handle_now) s (Some i) (Some 0) t)
      (\<lambda>th. Inr (False, write_TLS INTERRUPT_PENDING V_T th)) = Inr (False, u)"
    unfolding stored[OF t(1)] by (simp add: write_TLS_def u_def t_def)
  have gc: "gc_due th \<longrightarrow> inhibited th \<or> in_leaving_without_gcing_race_p th"
    using inv(1) n(4) later win stack_enabled[OF inv(3)] by (auto simp: flags_ok_def Let_def)
  have f: "pending_handler u \<noteq> None" "\<not> get_pseudo_atomic_interrupted u" "tls u INTERRUPT_PENDING \<noteq> V_NIL"
    "\<not> gc_blocked_deferrables u" "tls u GC_PENDING = tls th GC_PENDING"
    "tls u STOP_FOR_GC_PENDING = tls th STOP_FOR_GC_PENDING" "tls u GC_INHIBIT = tls th GC_INHIBIT"
    "tls u INTERRUPTS_ENABLED = tls th INTERRUPTS_ENABLED" "deferrable_sigset \<subseteq> os_context_sigmask u 0"
    using n by (simp_all add: u_def get_pseudo_atomic_interrupted_def)
  have ok: "check_interrupt_context_or_lose 0 u k = k" for k :: "(bool \<times> thread) result"
    using f gc later unfolding check_interrupt_context_or_lose_def check_deferrables_blocked_or_lose_def
    by (auto simp: Let_def lose_if_def read_TLS_def race deferrables_blocked_p_eq(1)[OF f(9)])
  have later': "read_TLS INTERRUPTS_ENABLED t = V_NIL \<or> in_leaving_without_gcing_race_p t"
    using later by (simp add: read_TLS_def t(3) race)
  have "can_handle_now Interrupt_handle_now s i 0 t = Inr (False, u)"
    unfolding can_handle_now_def using later' t n(3) by (simp add: lose_if_def st ok read_TLS_def)
  then show ?thesis
    by (simp add: in_handler_def maybe_now_maybe_later_def set_context_mask_def Let_def u_def flip: t_def)
qed

lemma signal_stored_atomic:
  assumes inv: "flags_ok p th" "mask_ok th" "stack_ok p th" and s: "s \<in> deferrable_sigset" "s \<notin> sigmask th"
    and now: "enabled th" "\<not> in_leaving_without_gcing_race_p th" and pa: "get_pseudo_atomic_atomic th" "p = Running"
  shows "in_handler (maybe_now_maybe_later L s i) th =
    Inr (th\<lparr>pending_handler := Some Interrupt_handle_now, pending_signal := s, pending_info := i,
      pending_mask := sigmask th, pseudo_atomic_bits := pseudo_atomic_bits th OR 1,
      os_context_sigmask := (os_context_sigmask th)(0 := sigmask th \<union> deferrable_sigset),
      sigmask := sigmask th \<union> deferrable_sigset\<rparr>)"
proof -
  note n = nothing_pending[OF inv(1,2) s]
  define t where "t = th\<lparr>os_context_sigmask := (os_context_sigmask th)(0 := sigmask th), sigmask := sigmask th \<union> blockable_sigset\<rparr>"
  define u where "u = th\<lparr>pending_handler := Some Interrupt_handle_now, pending_signal := s, pending_info := i,
      pending_mask := sigmask th, pseudo_atomic_bits := pseudo_atomic_bits th OR 1,
      os_context_sigmask := (os_context_sigmask th)(0 := sigmask th \<union> deferrable_sigset),
      sigmask := sigmask th \<union> blockable_sigset\<rparr>"
  have t: "pending_handler t = None" "\<not> gc_blocked_deferrables t" "tls t = tls th" "os_context_sigmask t 0 = sigmask th"
    "get_pseudo_atomic_atomic t" using n pa by (simp_all add: t_def get_pseudo_atomic_atomic_def)
  have race: "in_leaving_without_gcing_race_p t = in_leaving_without_gcing_race_p th"
    by (simp add: t_def in_leaving_without_gcing_race_p_def read_TLS_def)
  have st: "rbind (store_signal_data_for_later (Some Interrupt_handle_now) s (Some i) (Some 0) t)
      (\<lambda>th. rbind (set_pseudo_atomic_interrupted th) (\<lambda>th. Inr (False, th))) = Inr (False, u)"
    using t(5) unfolding stored[OF t(1)]
    by (simp add: set_pseudo_atomic_interrupted_def get_pseudo_atomic_atomic_def u_def t_def)
  have gc: "\<not> gc_due th"
    using inv(1) n(4) now(1) pa(2) stack_enabled[OF inv(3)] by (auto simp: flags_ok_def Let_def)
  have "bit (pseudo_atomic_bits u) 0" by (simp add: u_def bit_simps)
  then have pai: "get_pseudo_atomic_interrupted u" by (simp add: get_pseudo_atomic_interrupted_def and_one_eq bit_0 mod_2_eq_odd)
  have f: "pending_handler u \<noteq> None" "tls u = tls th" "\<not> gc_blocked_deferrables u" "deferrable_sigset \<subseteq> os_context_sigmask u 0"
    using n by (simp_all add: u_def)
  have ok: "check_interrupt_context_or_lose 0 u k = k" for k :: "(bool \<times> thread) result"
    using f gc pai n(3) unfolding check_interrupt_context_or_lose_def check_deferrables_blocked_or_lose_def
    by (auto simp: Let_def lose_if_def read_TLS_def deferrables_blocked_p_eq(1)[OF f(4)])
  have "\<not> (read_TLS INTERRUPTS_ENABLED t = V_NIL \<or> in_leaving_without_gcing_race_p t)"
    using now by (simp add: read_TLS_def t(3) race)
  then have "can_handle_now Interrupt_handle_now s i 0 t = Inr (False, u)"
    unfolding can_handle_now_def using t n(3) by (simp add: lose_if_def st ok read_TLS_def)
  then show ?thesis
    by (simp add: in_handler_def maybe_now_maybe_later_def set_context_mask_def Let_def u_def flip: t_def)
qed

lemma signal_handled:
  assumes L: "lisp_behaves L" and fr: "lisp_frame th"
    and inv: "flags_ok p th" "mask_ok th" "stack_ok p th" and s: "s \<in> deferrable_sigset" "s \<notin> sigmask th"
    and now: "enabled th" "\<not> in_leaving_without_gcing_race_p th" "\<not> get_pseudo_atomic_atomic th"
  shows "\<exists>sc. in_handler (maybe_now_maybe_later L s i) th =
    Inr (th\<lparr>os_context_sigmask := (os_context_sigmask th)(0 := sigmask th), lisp_calls := lisp_calls th @ [(s, i)],
      sigcontexts := sc, ffcall_active_p := False\<rparr>)"
proof -
  note n = nothing_pending[OF inv(1,2) s]
  define t where "t = th\<lparr>os_context_sigmask := (os_context_sigmask th)(0 := sigmask th), sigmask := sigmask th \<union> blockable_sigset\<rparr>"
  have t: "pending_handler t = None" "\<not> gc_blocked_deferrables t" "tls t = tls th" "os_context_sigmask t 0 = sigmask th"
    "\<not> get_pseudo_atomic_atomic t" "\<not> get_pseudo_atomic_interrupted t" "lisp_frame t" "blockable_sigset \<subseteq> sigmask t"
    using n now fr by (simp_all add: t_def get_pseudo_atomic_atomic_def get_pseudo_atomic_interrupted_def lisp_frame_def)
  have race: "\<not> in_leaving_without_gcing_race_p t"
    using now(2) by (simp add: t_def in_leaving_without_gcing_race_p_def read_TLS_def)
  have gc: "\<not> gc_due th"
  proof
    assume "gc_due th"
    then have "p \<in> {Leaving_inner, Leaving, Trap_left}"
      using inv(1) n(4) now(1) stack_enabled(1)[OF inv(3)] by (auto simp: flags_ok_def Let_def)
    then have "tls th IN_WITHOUT_GCING \<noteq> V_NIL \<and> \<not> inhibited th" using stack_enabled(3)[OF inv(3)] by auto
    with \<open>gc_due th\<close> now show False by (auto simp: in_leaving_without_gcing_race_p_def read_TLS_def)
  qed
  have stop: "SIG_STOP_FOR_GC \<notin> sigmask th" using inv(2) by (simp add: mask_ok_def)
  have ok: "check_interrupt_context_or_lose 0 t k = k" for k :: "(bool \<times> thread) result"
    using t gc n(3) stop unfolding check_interrupt_context_or_lose_def check_deferrables_unblocked_or_lose_def
    by (auto simp: Let_def lose_if_def read_TLS_def deferrables_blocked_p_eq(2)[OF n(5)]
        check_gc_signals_unblocked_or_lose_def)
  have c: "can_handle_now Interrupt_handle_now s i 0 t = Inr (True, t)"
    unfolding can_handle_now_def using t n(3) now race by (simp add: lose_if_def ok read_TLS_def)
  obtain m sc where h: "interrupt_handle_now L s i 0 t =
      Inr (t\<lparr>lisp_calls := lisp_calls t @ [(s, i)], sigmask := m, sigcontexts := sc, ffcall_active_p := False\<rparr>)"
    using handled_now[OF L s(1) t(8) _ t(5,7)] now(1) unfolding t(3) by blast
  have "in_handler (maybe_now_maybe_later L s i) th =
    Inr (th\<lparr>os_context_sigmask := (os_context_sigmask th)(0 := sigmask th), lisp_calls := lisp_calls th @ [(s, i)],
      sigcontexts := sc, ffcall_active_p := False\<rparr>)"
    using h by (simp add: in_handler_def maybe_now_maybe_later_def set_context_mask_def Let_def c flip: t_def)
      (simp add: t_def)
  then show ?thesis by blast
qed

lemmas inv_simps = protocol_inv_def lisp_frame_def stack_ok_def flags_ok_def mask_ok_def signals_kept_def
  pending_signals_def get_pseudo_atomic_interrupted_def Let_def

lemma signal_keeps_inv:
  assumes L: "lisp_behaves L" and pa: "pa_word pa" and inv: "protocol_inv pa w"
    and can: "can_happen (Signal s i) w" and win: "\<not> signal_window w"
  shows "\<exists>w'. perform L pa (Signal s i) w = Inr w' \<and> protocol_inv pa w'"
proof -
  let ?th = "self w"
  note I = protocol_invD[OF inv]
  have s: "s \<in> deferrable_sigset" "s \<notin> sigmask ?th" using can by (simp_all add: can_happen_def)
  note n = nothing_pending[OF I(4,5) s]
  have S: "perform L pa (Signal s i) w = Inr (w\<lparr>self := u, delivered := delivered w @ [(s, i)]\<rparr>)"
    if "in_handler (maybe_now_maybe_later L s i) ?th = Inr u" for u
    using that by (simp add: perform_def)
  have stop: "SIG_STOP_FOR_GC \<notin> sigmask ?th" using I(5) by (simp add: mask_ok_def)
  have dl: "delivered w = lisp_calls ?th" using I(6) n by (simp add: signals_kept_def pending_signals_def)
  consider (later) "\<not> enabled ?th \<or> in_leaving_without_gcing_race_p ?th"
    | (atomic) "enabled ?th" "\<not> in_leaving_without_gcing_race_p ?th" "get_pseudo_atomic_atomic ?th"
    | (now) "enabled ?th" "\<not> in_leaving_without_gcing_race_p ?th" "\<not> get_pseudo_atomic_atomic ?th" by blast
  then show ?thesis
  proof cases
    case later
    have w: "\<not> (gc_due ?th \<and> \<not> enabled ?th \<and> phase w \<in> {Leaving_inner, Leaving, Trap_left})"
      using win by (simp add: signal_window_def)
    have r: "enabled ?th \<longrightarrow> phase w \<in> {Leaving, Trap_left}"
    proof
      assume e: "enabled ?th"
      then have g: "gc_due ?th" "tls ?th IN_WITHOUT_GCING \<noteq> V_NIL" "\<not> inhibited ?th"
        using later by (auto simp: in_leaving_without_gcing_race_p_def read_TLS_def)
      then show "phase w \<in> {Leaving, Trap_left}"
        using I(4) n(4) e stack_enabled(2)[OF I(2)] by (auto simp: flags_ok_def Let_def)
    qed
    show ?thesis
      unfolding S[OF signal_stored_inhibited[OF I(4,5,2) s later w]]
      using I(1-4) n stop r s(1) dl signal_sets(1) by (auto simp: inv_simps)
  next
    case atomic
    have p: "phase w = Running" using pa_bits_eq(3)[OF pa I(3)] atomic(3) .
    have b: "bits_ok (phase w) pa (pseudo_atomic_bits ?th OR 1)"
      using p atomic(3) pa_bits_eq(1)[OF pa I(3)] pa_bits(9)[OF pa] by (auto simp: bits_ok_def)
    have "bit (pseudo_atomic_bits ?th OR 1) 0" by (simp add: bit_simps)
    then have o: "(pseudo_atomic_bits ?th OR 1) AND 1 \<noteq> 0" by (simp add: and_one_eq bit_0 mod_2_eq_odd)
    have i: "\<not> inhibited ?th" using stack_enabled(1)[OF I(2)] atomic(1) by blast
    show ?thesis
      unfolding S[OF signal_stored_atomic[OF I(4,5,2) s atomic p]]
      using I(1,2,4) n stop b o i s(1) dl p atomic(1) signal_sets(1) by (auto simp: inv_simps)
  next
    case now
    obtain sc where h: "in_handler (maybe_now_maybe_later L s i) ?th =
      Inr (?th\<lparr>os_context_sigmask := (os_context_sigmask ?th)(0 := sigmask ?th), lisp_calls := lisp_calls ?th @ [(s, i)],
        sigcontexts := sc, ffcall_active_p := False\<rparr>)"
      using signal_handled[OF L I(1,4,5,2) s now] by blast
    show ?thesis
      unfolding S[OF h] using I(1-4) n stop dl by (auto simp: inv_simps)
  qed
qed

section \<open>The stop signal of the collector\<close>

text \<open>The second window: the collection that the pending trap is for is done by another thread,
  and the bit that made the thread trap stays.\<close>

definition stop_window :: "world \<Rightarrow> bool" where
  "stop_window w \<longleftrightarrow> get_pseudo_atomic_interrupted (self w) \<and> phase w = Trap_run \<and>
     pending_handler (self w) \<noteq> None \<and> \<not> enabled (self w)"

lemma bit_set: "(b OR 1) AND 1 \<noteq> (0 :: uword)"
proof -
  have "bit (b OR 1) 0" by (simp add: bit_simps)
  then show ?thesis by (simp add: and_one_eq bit_0 mod_2_eq_odd)
qed

text \<open>What a request to collect does in a pseudo-atomic section.\<close>

lemma mask_saved:
  "maybe_save_gc_mask_and_block_deferrables (Some c) th =
    (if pending_handler th = None \<and> \<not> gc_blocked_deferrables th
     then th\<lparr>gc_blocked_deferrables := True, pending_mask := os_context_sigmask th c,
       os_context_sigmask := (os_context_sigmask th)(c := os_context_sigmask th c \<union> deferrable_sigset)\<rparr>
     else th)"
  "maybe_save_gc_mask_and_block_deferrables None th =
    (if pending_handler th = None \<and> \<not> gc_blocked_deferrables th
     then th\<lparr>gc_blocked_deferrables := True, pending_mask := sigmask th,
       sigmask := (sigmask th \<union> blockable_sigset) - gc_sigset\<rparr>
     else th)"
  by (cases th; simp add: maybe_save_gc_mask_and_block_deferrables_def block_blockable_signals_def
      set_context_mask_def signal_sets(9) unblock_gc_stop_signal_def Let_def)+

lemma stop_signal_now:
  assumes L: "lisp_behaves L" and th: "lisp_frame th" "\<not> inhibited th" "\<not> get_pseudo_atomic_atomic th"
  shows "\<exists>sc. in_handler (sig_stop_for_gc_handler L) th = Inr (th\<lparr>
      tls := (tls th)(GC_PENDING := V_NIL, STOP_FOR_GC_PENDING := V_NIL),
      pseudo_atomic_bits := (if gc_blocked_deferrables th then pseudo_atomic_bits th AND NOT 1 else pseudo_atomic_bits th),
      os_context_sigmask := (os_context_sigmask th)(0 := if gc_blocked_deferrables th then pending_mask th else sigmask th),
      gc_blocked_deferrables := False, sigmask := (if gc_blocked_deferrables th then pending_mask th else sigmask th),
      sigcontexts := sc, ffcall_active_p := False\<rparr>)"
proof -
  let ?t = "set_context_mask 0 (sigmask th) th\<lparr>sigmask := sigmask (set_context_mask 0 (sigmask th) th) \<union> blockable_sigset\<rparr>"
  have t: "lisp_frame ?t" "\<not> inhibited ?t" "\<not> get_pseudo_atomic_atomic ?t" "blockable_sigset \<subseteq> sigmask ?t"
    using th by (simp_all add: lisp_frame_def get_pseudo_atomic_atomic_def set_context_mask_def)
  obtain sc m where f: "sig_stop_for_gc_handler L 0 ?t =
      Inr (?t\<lparr>tls := (tls ?t)(GC_PENDING := V_NIL, STOP_FOR_GC_PENDING := V_NIL),
        pseudo_atomic_bits := (if gc_blocked_deferrables ?t then pseudo_atomic_bits ?t AND NOT 1 else pseudo_atomic_bits ?t),
        os_context_sigmask := (if gc_blocked_deferrables ?t
          then (os_context_sigmask ?t)(0 := pending_mask ?t) else os_context_sigmask ?t),
        gc_blocked_deferrables := False, sigmask := m, sigcontexts := sc, ffcall_active_p := False\<rparr>)"
    using stopped_now[OF L t, of 0] by blast
  have "in_handler (sig_stop_for_gc_handler L) th = Inr (th\<lparr>
      tls := (tls th)(GC_PENDING := V_NIL, STOP_FOR_GC_PENDING := V_NIL),
      pseudo_atomic_bits := (if gc_blocked_deferrables th then pseudo_atomic_bits th AND NOT 1 else pseudo_atomic_bits th),
      os_context_sigmask := (os_context_sigmask th)(0 := if gc_blocked_deferrables th then pending_mask th else sigmask th),
      gc_blocked_deferrables := False, sigmask := (if gc_blocked_deferrables th then pending_mask th else sigmask th),
      sigcontexts := sc, ffcall_active_p := False\<rparr>)"
    unfolding in_handler_def Let_def f by (cases th) (simp add: set_context_mask_def)
  then show ?thesis by blast
qed

lemma stop_keeps_inv:
  assumes L: "lisp_behaves L" and pa: "pa_word pa" and inv: "protocol_inv pa w" and win: "\<not> stop_window w"
  shows "\<exists>w'. perform L pa Stop_for_gc w = Inr w' \<and> protocol_inv pa w'"
proof -
  let ?th = "self w"
  note I = protocol_invD[OF inv]
  define t where "t = ?th\<lparr>os_context_sigmask := (os_context_sigmask ?th)(0 := sigmask ?th), sigmask := sigmask ?th \<union> blockable_sigset\<rparr>"
  have h: "perform L pa Stop_for_gc w = rbind (sig_stop_for_gc_handler L 0 t)
      (\<lambda>u. Inr (w\<lparr>self := u\<lparr>sigmask := os_context_sigmask u 0\<rparr>\<rparr>))"
    by (cases "sig_stop_for_gc_handler L 0 t")
      (simp_all add: perform_def in_handler_def set_context_mask_def Let_def flip: t_def)
  have t: "tls t = tls ?th" "pseudo_atomic_bits t = pseudo_atomic_bits ?th" "lisp_frame t" "blockable_sigset \<subseteq> sigmask t"
    "get_pseudo_atomic_atomic t = get_pseudo_atomic_atomic ?th"
    using I(1) by (simp_all add: t_def lisp_frame_def get_pseudo_atomic_atomic_def)
  consider (inhibit) "inhibited ?th" | (atomic) "\<not> inhibited ?th" "get_pseudo_atomic_atomic ?th"
    | (now) "\<not> inhibited ?th" "\<not> get_pseudo_atomic_atomic ?th" by blast
  then show ?thesis
  proof cases
    case inhibit
    then have "sig_stop_for_gc_handler L 0 t = Inr (write_TLS STOP_FOR_GC_PENDING V_T t)"
      by (simp add: sig_stop_for_gc_handler_def read_TLS_def t(1))
    then show ?thesis
      unfolding h using I inhibit by (auto simp: inv_simps write_TLS_def t_def)
  next
    case atomic
    have p: "phase w = Running" using pa_bits_eq(3)[OF pa I(3)] atomic(2) .
    have b: "bits_ok (phase w) pa (pseudo_atomic_bits ?th OR 1)"
      using p atomic(2) pa_bits_eq(1)[OF pa I(3)] pa_bits(9)[OF pa] by (auto simp: bits_ok_def)
    have a': "get_pseudo_atomic_atomic (write_TLS STOP_FOR_GC_PENDING V_T t)"
      using atomic(2) t(5) by (simp add: get_pseudo_atomic_atomic_def write_TLS_def)
    have f: "sig_stop_for_gc_handler L 0 t = Inr (maybe_save_gc_mask_and_block_deferrables (Some 0)
        (t\<lparr>tls := (tls t)(STOP_FOR_GC_PENDING := V_T), pseudo_atomic_bits := pseudo_atomic_bits ?th OR 1\<rparr>))"
      using atomic t a' by (simp add: sig_stop_for_gc_handler_def read_TLS_def set_pseudo_atomic_interrupted_def)
        (simp add: write_TLS_def)
    show ?thesis
    proof (cases "pending_handler ?th = None \<and> \<not> gc_blocked_deferrables ?th")
      case True
      then have q: "pending_handler t = None \<and> \<not> gc_blocked_deferrables t" "os_context_sigmask t 0 = sigmask ?th"
        by (simp_all add: t_def)
      let ?t = "t\<lparr>tls := (tls t)(STOP_FOR_GC_PENDING := V_T), pseudo_atomic_bits := pseudo_atomic_bits ?th OR 1,
          gc_blocked_deferrables := True, pending_mask := sigmask ?th,
          os_context_sigmask := (os_context_sigmask t)(0 := sigmask ?th \<union> deferrable_sigset)\<rparr>"
      let ?u = "?t\<lparr>sigmask := sigmask ?th \<union> deferrable_sigset\<rparr>"
      have f': "sig_stop_for_gc_handler L 0 t = Inr ?t" using q unfolding f mask_saved by simp
      have r: "perform L pa Stop_for_gc w = Inr (w\<lparr>self := ?u\<rparr>)" unfolding h f' by simp
      have ip: "tls ?th INTERRUPT_PENDING = V_NIL" using True flags_okD(2)[OF I(4)] by blast
      have "lisp_frame ?u" "stack_ok (phase w) ?u" "bits_ok (phase w) pa (pseudo_atomic_bits ?u)"
        using I(1,2) b by (simp_all add: inv_simps t_def)
      moreover have "flags_ok (phase w) ?u"
        using True ip atomic p bit_set[of "pseudo_atomic_bits ?th"] I(4)
        by (simp add: flags_ok_def t_def get_pseudo_atomic_interrupted_def Let_def)
      moreover have "mask_ok ?u"
        using I(5) True signal_sets(1) by (simp add: mask_ok_def Int_commute)
      moreover have "signals_kept (w\<lparr>self := ?u\<rparr>)" using I(6) by (simp add: inv_simps t_def)
      ultimately show ?thesis unfolding r protocol_inv_def by simp
    next
      case False
      then have q: "\<not> (pending_handler t = None \<and> \<not> gc_blocked_deferrables t)" by (simp add: t_def)
      have f': "sig_stop_for_gc_handler L 0 t =
          Inr (t\<lparr>tls := (tls t)(STOP_FOR_GC_PENDING := V_T), pseudo_atomic_bits := pseudo_atomic_bits ?th OR 1\<rparr>)"
        using q unfolding f mask_saved by auto
      let ?u = "t\<lparr>tls := (tls t)(STOP_FOR_GC_PENDING := V_T), pseudo_atomic_bits := pseudo_atomic_bits ?th OR 1,
          sigmask := sigmask ?th\<rparr>"
      have r: "perform L pa Stop_for_gc w = Inr (w\<lparr>self := ?u\<rparr>)" unfolding h f' by (simp add: t_def)
      have "lisp_frame ?u" "stack_ok (phase w) ?u" "bits_ok (phase w) pa (pseudo_atomic_bits ?u)" "mask_ok ?u"
        "signals_kept (w\<lparr>self := ?u\<rparr>)"
        using I(1,2,5,6) b by (simp_all add: inv_simps t_def)
      moreover have "flags_ok (phase w) ?u"
        using False flags_okD(1,2,3,9)[OF I(4)] atomic p bit_set[of "pseudo_atomic_bits ?th"]
        unfolding flags_ok_def t_def get_pseudo_atomic_interrupted_def Let_def by simp blast
      ultimately show ?thesis unfolding r protocol_inv_def by simp
    qed
  next
    case now
    obtain sc where f: "in_handler (sig_stop_for_gc_handler L) ?th = Inr (?th\<lparr>
      tls := (tls ?th)(GC_PENDING := V_NIL, STOP_FOR_GC_PENDING := V_NIL),
      pseudo_atomic_bits := (if gc_blocked_deferrables ?th then pseudo_atomic_bits ?th AND NOT 1 else pseudo_atomic_bits ?th),
      os_context_sigmask := (os_context_sigmask ?th)(0 := if gc_blocked_deferrables ?th then pending_mask ?th else sigmask ?th),
      gc_blocked_deferrables := False, sigmask := (if gc_blocked_deferrables ?th then pending_mask ?th else sigmask ?th),
      sigcontexts := sc, ffcall_active_p := False\<rparr>)" (is "_ = Inr ?u")
      using stop_signal_now[OF L I(1) now] by blast
    have r: "perform L pa Stop_for_gc w = Inr (w\<lparr>self := ?u\<rparr>)" unfolding perform_def Let_def event.case f rbind.simps by (rule refl)
    have na: "pseudo_atomic_bits ?th \<in> {0, 1}"
      using I(3) now(2) pa_bits_eq(1)[OF pa I(3)] by (auto simp: bits_ok_def split: phase.splits)
    show ?thesis
    proof (cases "gc_blocked_deferrables ?th")
      case True
      then have g: "get_pseudo_atomic_interrupted ?th" "pending_handler ?th = None" "tls ?th INTERRUPT_PENDING = V_NIL"
        using flags_okD(1)[OF I(4) True] by blast+
      have b: "pseudo_atomic_bits ?th = 1" using na g(1) by (auto simp: get_pseudo_atomic_interrupted_def)
      have p: "phase w = Trap_run"
        using I(3) b pa_bits_neq[OF pa] by (simp add: bits_ok_def split: phase.splits)
      have d: "gc_due ?th" "pending_mask ?th \<inter> insert SIG_STOP_FOR_GC deferrable_sigset = {}"
        using flags_okD(1)[OF I(4) True] I(5) True by (simp_all add: mask_ok_def)
      have "lisp_frame ?u" "stack_ok Trap_run ?u" using I(1,2) unfolding p by (simp_all add: inv_simps)
      moreover have "bits_ok Trap_run pa (pseudo_atomic_bits ?u)" using b True by (simp add: bits_ok_def)
      moreover have "flags_ok Trap_run ?u"
        using g(2,3) True b now(1) by (simp add: flags_ok_def get_pseudo_atomic_interrupted_def Let_def)
      moreover have "mask_ok ?u" using d(2) g(2) True by (simp add: mask_ok_def)
      moreover have "signals_kept (w\<lparr>self := ?u\<rparr>)" using I(6) by (simp add: inv_simps)
      ultimately have "lisp_frame ?u" "stack_ok Trap_run ?u" "bits_ok Trap_run pa (pseudo_atomic_bits ?u)"
        "flags_ok Trap_run ?u" "mask_ok ?u" "signals_kept (w\<lparr>self := ?u\<rparr>)" by blast+
      then show ?thesis unfolding r protocol_inv_def using p by simp
    next
      case False
      have "lisp_frame ?u" "stack_ok (phase w) ?u" "bits_ok (phase w) pa (pseudo_atomic_bits ?u)" "mask_ok ?u"
        "signals_kept (w\<lparr>self := ?u\<rparr>)"
        using I(1,2,3,5,6) False by (simp_all add: inv_simps)
      moreover have "flags_ok (phase w) ?u"
      proof -
        have pai: "get_pseudo_atomic_interrupted ?u = get_pseudo_atomic_interrupted ?th"
          using False by (simp add: get_pseudo_atomic_interrupted_def)
        have trap: "phase w = Trap_run" if "get_pseudo_atomic_interrupted ?th"
        proof -
          have "pseudo_atomic_bits ?th = 1" using that na by (auto simp: get_pseudo_atomic_interrupted_def)
          then show ?thesis using I(3) pa_bits_neq[OF pa] by (simp add: bits_ok_def split: phase.splits)
        qed
        show ?thesis
          unfolding flags_ok_def Let_def pai using False now(1) win trap flags_okD(2,3,4,8)[OF I(4)]
          by (simp add: stop_window_def)
      qed
      ultimately show ?thesis unfolding r protocol_inv_def by simp
    qed
  qed
qed

end
