(* ===== verification/InterruptTrap.thy ===== *)
theory InterruptTrap
  imports InterruptEvents
begin

text \<open>The trap: \<open>interrupt_handle_pending\<close> collects or stops if that is due, then runs the
  deferred handler if interrupts are enabled.\<close>

unbundle bit_operations_syntax

lemma cleared:
  assumes "\<not> get_pseudo_atomic_atomic th"
  shows "clear_pseudo_atomic_interrupted th = Inr (th\<lparr>pseudo_atomic_bits := pseudo_atomic_bits th AND NOT 1\<rparr>)"
  using assms by (simp add: clear_pseudo_atomic_interrupted_def)

lemma still_not_atomic: "\<not> get_pseudo_atomic_atomic th \<Longrightarrow> (pseudo_atomic_bits th AND NOT 1) AND NOT 1 = 0"
  by (simp add: get_pseudo_atomic_atomic_def and.assoc)

lemma blockables_blocked: "blockable_sigset \<subseteq> sigmask th \<Longrightarrow> assert_blockables_blocked th k = k"
  using signal_sets(5,6,8) by (auto simp: assert_blockables_blocked_def)

text \<open>The collection itself, with interrupts disabled around it if a handler is pending.\<close>

lemma pending_collection:
  assumes L: "lisp_behaves L" and th: "lisp_frame th" "\<not> inhibited th" "\<not> get_pseudo_atomic_atomic th"
    and m: "blockable_sigset \<subseteq> sigmask th"
    and c: "SIG_STOP_FOR_GC \<notin> os_context_sigmask th c"
      "deferrable_sigset \<subseteq> os_context_sigmask th c \<or> os_context_sigmask th c \<inter> deferrable_sigset = {}"
  shows "\<exists>sc m.
     (let th' = (if pending_handler th \<noteq> None
                 then bind_variable INTERRUPTS_ENABLED V_NIL (bind_variable ALLOW_WITH_INTERRUPTS V_NIL th)
                 else th)
      in rbind (clear_pseudo_atomic_interrupted th') (\<lambda>th.
         rbind (maybe_gc L c th) (\<lambda>(gcd, th).
         lose_if (\<not> gcd) (if pending_handler th \<noteq> None then rbind (unbind th) unbind else Inr th)))) =
     Inr (th\<lparr>tls := (tls th)(GC_PENDING := V_NIL, STOP_FOR_GC_PENDING := V_NIL),
        pseudo_atomic_bits := pseudo_atomic_bits th AND NOT 1, sigmask := m,
        sigcontexts := sc, ffcall_active_p := False\<rparr>) \<and> blockable_sigset \<subseteq> m"
proof (cases "pending_handler th = None")
  case True
  let ?t = "th\<lparr>pseudo_atomic_bits := pseudo_atomic_bits th AND NOT 1\<rparr>"
  have t: "lisp_frame ?t" "\<not> inhibited ?t" "blockable_sigset \<subseteq> sigmask ?t"
    using th m by (simp_all add: lisp_frame_def)
  obtain sc m' where g: "maybe_gc L c ?t = Inr (True, ?t\<lparr>tls := (tls ?t)(GC_PENDING := V_NIL, STOP_FOR_GC_PENDING := V_NIL),
        sigmask := m', sigcontexts := sc, ffcall_active_p := False\<rparr>)" "blockable_sigset \<subseteq> m'"
    using collected_now[OF L t, of c] c by auto
  have e: "?t\<lparr>tls := (tls ?t)(GC_PENDING := V_NIL, STOP_FOR_GC_PENDING := V_NIL),
        sigmask := m', sigcontexts := sc, ffcall_active_p := False\<rparr> =
      th\<lparr>tls := (tls th)(GC_PENDING := V_NIL, STOP_FOR_GC_PENDING := V_NIL),
        pseudo_atomic_bits := pseudo_atomic_bits th AND NOT 1, sigmask := m',
        sigcontexts := sc, ffcall_active_p := False\<rparr>" by (cases th) simp
  show ?thesis
    using True g(2) unfolding Let_def
    by (simp only: simp_thms if_False cleared[OF th(3)] rbind.simps g(1) prod.case lose_if_def e) auto
next
  case False
  let ?b = "bind_variable INTERRUPTS_ENABLED V_NIL (bind_variable ALLOW_WITH_INTERRUPTS V_NIL th)"
  let ?t = "?b\<lparr>pseudo_atomic_bits := pseudo_atomic_bits ?b AND NOT 1\<rparr>"
  have b: "\<not> get_pseudo_atomic_atomic ?b" using th(3) by (simp add: bind_variable_def get_pseudo_atomic_atomic_def)
  have t: "lisp_frame ?t" "\<not> inhibited ?t" "blockable_sigset \<subseteq> sigmask ?t"
    using th m by (simp_all add: lisp_frame_def bind_variable_def)
  have oc: "os_context_sigmask ?t = os_context_sigmask th" by (simp add: bind_variable_def)
  obtain sc m' where g: "maybe_gc L c ?t = Inr (True, ?t\<lparr>tls := (tls ?t)(GC_PENDING := V_NIL, STOP_FOR_GC_PENDING := V_NIL),
        sigmask := m', sigcontexts := sc, ffcall_active_p := False\<rparr>)" (is "_ = Inr (True, ?g)") "blockable_sigset \<subseteq> m'"
    using collected_now[OF L t, of c] c unfolding oc by blast
  have tl: "((tls th)(ALLOW_WITH_INTERRUPTS := V_NIL, INTERRUPTS_ENABLED := V_NIL, GC_PENDING := V_NIL, STOP_FOR_GC_PENDING := V_NIL,
      INTERRUPTS_ENABLED := tls th INTERRUPTS_ENABLED, ALLOW_WITH_INTERRUPTS := tls th ALLOW_WITH_INTERRUPTS)) =
      (tls th)(GC_PENDING := V_NIL, STOP_FOR_GC_PENDING := V_NIL)" by (rule ext) simp
  have "rbind (unbind ?g) unbind = Inr (th\<lparr>tls := (tls th)(GC_PENDING := V_NIL, STOP_FOR_GC_PENDING := V_NIL),
        pseudo_atomic_bits := pseudo_atomic_bits th AND NOT 1, sigmask := m', sigcontexts := sc, ffcall_active_p := False\<rparr>)"
    using tl by (cases th) (simp add: bind_variable_def unbind_def)
  moreover have "pending_handler ?g \<noteq> None" using False by (simp add: bind_variable_def)
  ultimately show ?thesis
    using False g(2) unfolding Let_def
    by (simp only: simp_thms if_False if_True cleared[OF b] rbind.simps g(1) prod.case lose_if_def) auto
qed

lemma pending_gc_done:
  assumes L: "lisp_behaves L" and th: "lisp_frame th" "\<not> inhibited th" "\<not> get_pseudo_atomic_atomic th"
    and gb: "\<not> gc_blocked_deferrables th" and gp: "tls th GC_PENDING \<noteq> V_NIL \<Longrightarrow> tls th GC_PENDING = V_T"
    and m: "blockable_sigset \<subseteq> sigmask th"
    and c: "SIG_STOP_FOR_GC \<notin> os_context_sigmask th c"
      "deferrable_sigset \<subseteq> os_context_sigmask th c \<or> os_context_sigmask th c \<inter> deferrable_sigset = {}"
  shows "\<exists>sc m. pending_gc L c th =
     Inr (th\<lparr>tls := (tls th)(GC_PENDING := V_NIL, STOP_FOR_GC_PENDING := V_NIL),
        pseudo_atomic_bits := (if gc_due th then pseudo_atomic_bits th AND NOT 1 else pseudo_atomic_bits th), sigmask := m,
        sigcontexts := sc, ffcall_active_p := False\<rparr>) \<and> blockable_sigset \<subseteq> m"
proof -
  define body where "body =
      (if read_TLS STOP_FOR_GC_PENDING th \<noteq> V_NIL then
         rbind (clear_pseudo_atomic_interrupted th) (sig_stop_for_gc_handler L c)
       else if read_TLS GC_PENDING th = V_T then
         let th = (if pending_handler th \<noteq> None
                   then bind_variable INTERRUPTS_ENABLED V_NIL (bind_variable ALLOW_WITH_INTERRUPTS V_NIL th)
                   else th)
         in rbind (clear_pseudo_atomic_interrupted th) (\<lambda>th.
            rbind (maybe_gc L c th) (\<lambda>(gcd, th).
            lose_if (\<not> gcd)
              (if pending_handler th \<noteq> None then rbind (unbind th) unbind else Inr th)))
       else lose_if (read_TLS GC_PENDING th \<noteq> V_NIL) (Inr th))"
  let ?r = "\<lambda>sc m. th\<lparr>tls := (tls th)(GC_PENDING := V_NIL, STOP_FOR_GC_PENDING := V_NIL),
        pseudo_atomic_bits := (if gc_due th then pseudo_atomic_bits th AND NOT 1 else pseudo_atomic_bits th), sigmask := m,
        sigcontexts := sc, ffcall_active_p := False\<rparr>"
  have "\<exists>sc m. body = Inr (?r sc m) \<and> blockable_sigset \<subseteq> m"
  proof -
    consider (stop) "tls th STOP_FOR_GC_PENDING \<noteq> V_NIL"
      | (gc) "tls th STOP_FOR_GC_PENDING = V_NIL" "tls th GC_PENDING = V_T"
      | (none) "tls th STOP_FOR_GC_PENDING = V_NIL" "tls th GC_PENDING = V_NIL" using gp by blast
    then show ?thesis
    proof cases
      case stop
      let ?t = "th\<lparr>pseudo_atomic_bits := pseudo_atomic_bits th AND NOT 1\<rparr>"
      have t: "lisp_frame ?t" "\<not> inhibited ?t" "blockable_sigset \<subseteq> sigmask ?t" "\<not> gc_blocked_deferrables ?t"
        using th m gb by (simp_all add: lisp_frame_def)
      have a: "\<not> get_pseudo_atomic_atomic ?t" using still_not_atomic[OF th(3)] by (simp add: get_pseudo_atomic_atomic_def)
      obtain sc m' where g: "sig_stop_for_gc_handler L c ?t = Inr (?t\<lparr>tls := (tls ?t)(GC_PENDING := V_NIL, STOP_FOR_GC_PENDING := V_NIL),
          pseudo_atomic_bits := pseudo_atomic_bits ?t, os_context_sigmask := os_context_sigmask ?t,
          gc_blocked_deferrables := False, sigmask := m', sigcontexts := sc, ffcall_active_p := False\<rparr>)" "blockable_sigset \<subseteq> m'"
        using stopped_now[OF L t(1,2) a t(3), of c] t(4) by (simp only: if_False) blast
      have "?t\<lparr>tls := (tls ?t)(GC_PENDING := V_NIL, STOP_FOR_GC_PENDING := V_NIL),
          pseudo_atomic_bits := pseudo_atomic_bits ?t, os_context_sigmask := os_context_sigmask ?t,
          gc_blocked_deferrables := False, sigmask := m', sigcontexts := sc, ffcall_active_p := False\<rparr> = ?r sc m'"
        using gb stop by (cases th) simp
      then have "body = Inr (?r sc m')"
        using stop g(1) unfolding body_def by (simp only: read_TLS_def cleared[OF th(3)] rbind.simps if_True simp_thms)
      with g(2) show ?thesis by blast
    next
      case gc
      obtain sc m' where g: "body = Inr (th\<lparr>tls := (tls th)(GC_PENDING := V_NIL, STOP_FOR_GC_PENDING := V_NIL),
        pseudo_atomic_bits := pseudo_atomic_bits th AND NOT 1, sigmask := m',
        sigcontexts := sc, ffcall_active_p := False\<rparr>)" "blockable_sigset \<subseteq> m'"
        using pending_collection[OF L th m c] gc unfolding body_def
        by (simp only: read_TLS_def if_True if_False simp_thms) blast
      have "gc_due th" using gc by simp
      then show ?thesis using g by auto
    next
      case none
      have "(tls th)(GC_PENDING := V_NIL, STOP_FOR_GC_PENDING := V_NIL) = tls th" using none by (intro ext) simp
      then have "th = ?r (sigcontexts th) (sigmask th)"
        using none th(1) by (cases th) (simp add: lisp_frame_def)
      moreover have "body = Inr th" using none by (simp add: body_def read_TLS_def lose_if_def)
      ultimately show ?thesis using m by metis
    qed
  qed
  then obtain sc m' where b: "body = Inr (?r sc m')" "blockable_sigset \<subseteq> m'" by blast
  have "pending_gc L c th = Inr (?r sc m')"
    unfolding pending_gc_def body_def[symmetric] b rbind.simps
    using b(2) by (simp add: blockables_blocked lose_if_def read_TLS_def)
  with b(2) show ?thesis by blast
qed

lemma deferred_handler_run:
  assumes L: "lisp_behaves L" and th: "lisp_frame th" "\<not> get_pseudo_atomic_atomic th" "enabled th"
    and m: "blockable_sigset \<subseteq> sigmask th"
    and H: "pending_handler th \<noteq> None" "pending_signal th \<in> deferrable_sigset"
  shows "\<exists>sc m. pending_signal_handler L c th =
     Inr (th\<lparr>tls := (tls th)(INTERRUPT_PENDING := V_NIL), pseudo_atomic_bits := pseudo_atomic_bits th AND NOT 1,
        os_context_sigmask := (os_context_sigmask th)(c := pending_mask th), pending_handler := None,
        lisp_calls := lisp_calls th @ [(pending_signal th, pending_info th)],
        sigmask := m, sigcontexts := sc, ffcall_active_p := False\<rparr>)"
proof -
  let ?t = "write_TLS INTERRUPT_PENDING V_NIL th"
  let ?u = "set_context_mask c (pending_mask th) (?t\<lparr>pseudo_atomic_bits := pseudo_atomic_bits ?t AND NOT 1\<rparr>)"
  let ?v = "?u\<lparr>pending_handler := None\<rparr>"
  have t: "\<not> get_pseudo_atomic_atomic ?t" using th(2) by (simp add: write_TLS_def get_pseudo_atomic_atomic_def)
  have "\<not> get_pseudo_atomic_atomic ?v" using still_not_atomic[OF th(2)]
    by (simp add: write_TLS_def set_context_mask_def get_pseudo_atomic_atomic_def)
  moreover have "lisp_frame ?v" "enabled ?v" "blockable_sigset \<subseteq> sigmask ?v"
    using th m by (simp_all add: write_TLS_def set_context_mask_def lisp_frame_def)
  ultimately obtain m' sc where h: "interrupt_handle_now L (pending_signal th) (pending_info th) c ?v =
      Inr (?v\<lparr>lisp_calls := lisp_calls ?v @ [(pending_signal th, pending_info th)], sigmask := m', sigcontexts := sc,
        ffcall_active_p := False\<rparr>)"
    using handled_now[OF L H(2)] by blast
  have sel: "pending_mask (?t\<lparr>pseudo_atomic_bits := pseudo_atomic_bits ?t AND NOT 1\<rparr>) = pending_mask th"
    "pending_handler ?u = pending_handler th" "pending_signal ?v = pending_signal th" "pending_info ?v = pending_info th"
    by (simp_all add: write_TLS_def set_context_mask_def)
  obtain h' where h': "pending_handler th = Some h'" using H(1) by blast
  then have hh: "h' = Interrupt_handle_now" by (cases h') simp
  have "run_deferred_handler L c ?u = interrupt_handle_now L (pending_signal th) (pending_info th) c ?v"
    unfolding run_deferred_handler_def sel(2) h' hh option.case c_handler.case Let_def sel(3,4) by (rule refl)
  then have "pending_signal_handler L c th = interrupt_handle_now L (pending_signal th) (pending_info th) c ?v"
    using th(3) H(1) unfolding pending_signal_handler_def Let_def cleared[OF t] rbind.simps sel(1)
    by (simp only: read_TLS_def simp_thms if_True)
  also have "\<dots> = Inr (th\<lparr>tls := (tls th)(INTERRUPT_PENDING := V_NIL), pseudo_atomic_bits := pseudo_atomic_bits th AND NOT 1,
        os_context_sigmask := (os_context_sigmask th)(c := pending_mask th), pending_handler := None,
        lisp_calls := lisp_calls th @ [(pending_signal th, pending_info th)],
        sigmask := m', sigcontexts := sc, ffcall_active_p := False\<rparr>)"
    unfolding h by (cases th) (simp add: write_TLS_def set_context_mask_def)
  finally show ?thesis by blast
qed

text \<open>The trap up to the handler: the collection is done and the mask it saved is back.\<close>

lemma trap_collects:
  assumes L: "lisp_behaves L" and fr: "lisp_frame th" and inh: "\<not> inhibited th"
    and gb: "gc_blocked_deferrables th \<Longrightarrow> pending_handler th = None"
    and gd: "tls th GC_PENDING \<noteq> V_NIL \<Longrightarrow> tls th GC_PENDING = V_T"
    and m: "mask_ok th" and na: "\<not> get_pseudo_atomic_atomic th"
  shows "\<exists>sc m. blockable_sigset \<subseteq> m \<and> in_handler (interrupt_handle_pending L) th =
     rbind (pending_signal_handler L 0 (th\<lparr>tls := (tls th)(GC_PENDING := V_NIL, STOP_FOR_GC_PENDING := V_NIL),
        pseudo_atomic_bits := (if gc_due th then pseudo_atomic_bits th AND NOT 1 else pseudo_atomic_bits th),
        os_context_sigmask := (os_context_sigmask th)(0 := if gc_blocked_deferrables th then pending_mask th else sigmask th),
        gc_blocked_deferrables := False, sigmask := m, sigcontexts := sc, ffcall_active_p := False\<rparr>))
     (\<lambda>u. lose_if (get_pseudo_atomic_interrupted u) (Inr (u\<lparr>sigmask := os_context_sigmask u 0\<rparr>)))"
proof -
  let ?m = "if gc_blocked_deferrables th then pending_mask th else sigmask th"
  let ?t = "set_context_mask 0 (sigmask th) th\<lparr>sigmask := sigmask (set_context_mask 0 (sigmask th) th) \<union> blockable_sigset\<rparr>"
  let ?t1 = "th\<lparr>sigmask := sigmask th \<union> blockable_sigset, os_context_sigmask := (os_context_sigmask th)(0 := ?m),
      gc_blocked_deferrables := False\<rparr>"
  have r: "restore_gc_mask 0 ?t = Inr ?t1"
    using inh gb
    by (cases th) (auto simp: restore_gc_mask_def set_context_mask_def lose_if_def read_TLS_def)
  have t: "\<not> get_pseudo_atomic_atomic ?t" "blockable_sigset \<subseteq> sigmask ?t"
    using na by (simp_all add: set_context_mask_def get_pseudo_atomic_atomic_def)
  have t1: "lisp_frame ?t1" "\<not> inhibited ?t1" "\<not> get_pseudo_atomic_atomic ?t1" "\<not> gc_blocked_deferrables ?t1"
    "blockable_sigset \<subseteq> sigmask ?t1"
    using fr inh na by (simp_all add: lisp_frame_def get_pseudo_atomic_atomic_def)
  have gp: "tls ?t1 GC_PENDING = V_T" if "tls ?t1 GC_PENDING \<noteq> V_NIL"
    using gd that by simp
  have c: "SIG_STOP_FOR_GC \<notin> os_context_sigmask ?t1 0"
    "deferrable_sigset \<subseteq> os_context_sigmask ?t1 0 \<or> os_context_sigmask ?t1 0 \<inter> deferrable_sigset = {}"
    using m by (auto simp: mask_ok_def split: if_splits)
  obtain sc m' where g: "pending_gc L 0 ?t1 = Inr (?t1\<lparr>tls := (tls ?t1)(GC_PENDING := V_NIL, STOP_FOR_GC_PENDING := V_NIL),
        pseudo_atomic_bits := (if gc_due ?t1 then pseudo_atomic_bits ?t1 AND NOT 1 else pseudo_atomic_bits ?t1), sigmask := m',
        sigcontexts := sc, ffcall_active_p := False\<rparr>)" (is "_ = Inr ?g") "blockable_sigset \<subseteq> m'"
    using pending_gc_done[OF L t1(1-4) gp t1(5) c] by blast
  have e: "?g = th\<lparr>tls := (tls th)(GC_PENDING := V_NIL, STOP_FOR_GC_PENDING := V_NIL),
        pseudo_atomic_bits := (if gc_due th then pseudo_atomic_bits th AND NOT 1 else pseudo_atomic_bits th),
        os_context_sigmask := (os_context_sigmask th)(0 := ?m),
        gc_blocked_deferrables := False, sigmask := m', sigcontexts := sc, ffcall_active_p := False\<rparr>" (is "_ = ?e")
    by (cases th) simp
  have i: "read_TLS GC_INHIBIT ?t1 = V_NIL" using inh by (simp add: read_TLS_def)
  have h: "interrupt_handle_pending L 0 ?t = rbind (pending_signal_handler L 0 ?e)
      (\<lambda>u. lose_if (get_pseudo_atomic_interrupted u) (Inr u))"
    unfolding interrupt_handle_pending_def blockables_blocked[OF t(2)] r rbind.simps
    by (simp only: i t(1) lose_if_def if_False if_True g(1) rbind.simps e simp_thms)
  have "in_handler (interrupt_handle_pending L) th = rbind (pending_signal_handler L 0 ?e)
      (\<lambda>u. lose_if (get_pseudo_atomic_interrupted u) (Inr (u\<lparr>sigmask := os_context_sigmask u 0\<rparr>)))"
    unfolding in_handler_def Let_def h
    by (cases "pending_signal_handler L 0 ?e") (simp_all only: rbind.simps lose_if_def split: if_split, simp)
  with g(2) show ?thesis by blast
qed

lemma bits_cleared:
  assumes "b \<in> {0, 1 :: uword}"
  shows "b AND NOT 1 = 0" "(b AND NOT 1) AND NOT 1 = 0"
  using assms by auto

lemma trap_keeps_inv:
  assumes L: "lisp_behaves L" and pa: "pa_word pa" and inv: "protocol_inv pa w" and can: "can_happen Trap_pending w"
  shows "\<exists>w'. perform L pa Trap_pending w = Inr w' \<and> protocol_inv pa w'"
proof -
  let ?th = "self w"
  define q where "q = (if phase w = Trap_left then Left else Running)"
  note I = protocol_invD[OF inv]
  have p: "phase w \<in> {Trap_run, Trap_left}" using can by (simp add: can_happen_def)
  then have pr: "phase w \<noteq> Running" by auto
  have bits: "pseudo_atomic_bits ?th \<in> {0, 1}" using I(3) p by (auto simp: bits_ok_def)
  then have na: "\<not> get_pseudo_atomic_atomic ?th"
    using bits_cleared(1) by (simp add: get_pseudo_atomic_atomic_def del: insert_iff)
  have inh: "\<not> inhibited ?th" using flags_okD(5)[OF I(4) pr] .
  let ?b = "if gc_due ?th then pseudo_atomic_bits ?th AND NOT 1 else pseudo_atomic_bits ?th"
  let ?m = "if gc_blocked_deferrables ?th then pending_mask ?th else sigmask ?th"
  obtain sc m where m: "blockable_sigset \<subseteq> m" and h: "in_handler (interrupt_handle_pending L) ?th =
     rbind (pending_signal_handler L 0 (?th\<lparr>tls := (tls ?th)(GC_PENDING := V_NIL, STOP_FOR_GC_PENDING := V_NIL),
        pseudo_atomic_bits := ?b, os_context_sigmask := (os_context_sigmask ?th)(0 := ?m),
        gc_blocked_deferrables := False, sigmask := m, sigcontexts := sc, ffcall_active_p := False\<rparr>))
     (\<lambda>u. lose_if (get_pseudo_atomic_interrupted u) (Inr (u\<lparr>sigmask := os_context_sigmask u 0\<rparr>)))"
    (is "_ = rbind (pending_signal_handler L 0 ?t) _")
    using trap_collects[OF L I(1) inh _ flags_okD(9)[OF I(4)] I(5) na] flags_okD(1)[OF I(4)] by blast
  have P: "perform L pa Trap_pending w = Inr (w\<lparr>self := u, phase := q\<rparr>)"
    if "in_handler (interrupt_handle_pending L) ?th = Inr u" for u
    using that by (simp add: perform_def q_def)
  have stack: "stack_ok q u" if "binding_stack u = binding_stack ?th"
    "tls u INTERRUPTS_ENABLED = tls ?th INTERRUPTS_ENABLED" "tls u GC_INHIBIT = tls ?th GC_INHIBIT"
    "tls u IN_WITHOUT_GCING = tls ?th IN_WITHOUT_GCING" for u
    using I(2) p that by (auto simp: stack_ok_def q_def)
  show ?thesis
  proof (cases "pending_handler ?th \<noteq> None \<and> enabled ?th")
    case True
    then have gb: "\<not> gc_blocked_deferrables ?th" using flags_okD(1)[OF I(4)] by auto
    have t: "lisp_frame ?t" "enabled ?t" "blockable_sigset \<subseteq> sigmask ?t"
      "pending_handler ?t \<noteq> None" "pending_signal ?t \<in> deferrable_sigset"
      using I(1,6) True m by (simp_all add: lisp_frame_def signals_kept_def)
    have tn: "\<not> get_pseudo_atomic_atomic ?t" using bits_cleared[OF bits] by (simp add: get_pseudo_atomic_atomic_def)
    obtain sc' m' where d: "pending_signal_handler L 0 ?t =
     Inr (?t\<lparr>tls := (tls ?t)(INTERRUPT_PENDING := V_NIL), pseudo_atomic_bits := pseudo_atomic_bits ?t AND NOT 1,
        os_context_sigmask := (os_context_sigmask ?t)(0 := pending_mask ?t), pending_handler := None,
        lisp_calls := lisp_calls ?t @ [(pending_signal ?t, pending_info ?t)],
        sigmask := m', sigcontexts := sc', ffcall_active_p := False\<rparr>)" (is "_ = Inr ?d")
      using deferred_handler_run[OF L t(1) tn t(2-5)] by blast
    have z: "pseudo_atomic_bits ?t AND NOT 1 = 0" using bits_cleared[OF bits] by simp
    let ?u = "?d\<lparr>sigmask := os_context_sigmask ?d 0\<rparr>"
    have "pseudo_atomic_bits ?d = 0" using z by simp
    then have p0: "\<not> get_pseudo_atomic_interrupted ?d" by (simp only: get_pseudo_atomic_interrupted_def) simp
    have r: "perform L pa Trap_pending w = Inr (w\<lparr>self := ?u, phase := q\<rparr>)"
      by (rule P) (simp only: h d rbind.simps lose_if_def p0 if_False)
    have k: "pseudo_atomic_bits ?u = 0" "tls ?u INTERRUPT_PENDING = V_NIL" "pending_handler ?u = None"
      "\<not> gc_blocked_deferrables ?u" "\<not> gc_due ?u" "\<not> inhibited ?u" "tls ?u GC_PENDING = V_NIL"
      using z inh by simp_all
    have "lisp_frame ?u" using I(1) by (simp add: lisp_frame_def)
    moreover have "stack_ok q ?u" by (rule stack) simp_all
    moreover have "bits_ok q pa (pseudo_atomic_bits ?u)" unfolding k(1) by (simp add: bits_ok_def q_def)
    moreover have "flags_ok q ?u"
      unfolding flags_ok_def Let_def get_pseudo_atomic_interrupted_def using k by simp
    moreover have "mask_ok ?u" using I(5) True by (auto simp: mask_ok_def split: if_splits)
    moreover have "signals_kept (w\<lparr>self := ?u, phase := q\<rparr>)"
      using I(6) True by (simp add: signals_kept_def pending_signals_def)
    ultimately show ?thesis unfolding r protocol_inv_def by simp
  next
    case False
    have pai: "\<not> get_pseudo_atomic_interrupted ?t"
    proof (cases "gc_due ?th")
      case True
      then show ?thesis using bits_cleared[OF bits] by (simp add: get_pseudo_atomic_interrupted_def)
    next
      case no: False
      then have "\<not> get_pseudo_atomic_interrupted ?th"
        using flags_okD(1,4,6)[OF I(4)] False by blast
      with no show ?thesis by (simp add: get_pseudo_atomic_interrupted_def)
    qed
    have "pending_signal_handler L 0 ?t = Inr ?t" using False by (auto simp: pending_signal_handler_def read_TLS_def)
    then have r: "perform L pa Trap_pending w = Inr (w\<lparr>self := ?t\<lparr>sigmask := ?m\<rparr>, phase := q\<rparr>)" (is "_ = Inr (w\<lparr>self := ?u, phase := q\<rparr>)")
      by (intro P) (simp only: h rbind.simps lose_if_def pai if_False, simp)
    have k: "pending_handler ?u = pending_handler ?th" "tls ?u INTERRUPT_PENDING = tls ?th INTERRUPT_PENDING"
      "\<not> gc_blocked_deferrables ?u" "\<not> gc_due ?u" "\<not> inhibited ?u" "tls ?u GC_PENDING = V_NIL"
      "enabled ?u = enabled ?th" "\<not> get_pseudo_atomic_interrupted ?u"
      using inh pai by (simp_all add: get_pseudo_atomic_interrupted_def)
    have "?b \<in> {0, 1}" using bits bits_cleared[OF bits] by simp
    then have b0: "?b = 0" using pai by (auto simp: get_pseudo_atomic_interrupted_def)
    have "lisp_frame ?u" using I(1) by (simp add: lisp_frame_def)
    moreover have "stack_ok q ?u" by (rule stack) simp_all
    moreover have "bits_ok q pa (pseudo_atomic_bits ?u)" using b0 by (simp add: bits_ok_def q_def)
    moreover have flags: "flags_ok q u" if "pending_handler u = pending_handler ?th"
      "tls u INTERRUPT_PENDING = tls ?th INTERRUPT_PENDING" "\<not> gc_blocked_deferrables u" "\<not> gc_due u"
      "\<not> inhibited u" "tls u GC_PENDING = V_NIL" "enabled u = enabled ?th" "\<not> get_pseudo_atomic_interrupted u" for u
      using that False flags_okD(2,3)[OF I(4)] unfolding flags_ok_def Let_def by auto
    moreover have "flags_ok q ?u" by (rule flags[OF k])
    moreover have "mask_ok ?u" using I(5) flags_okD(1)[OF I(4)] by (auto simp: mask_ok_def split: if_splits)
    moreover have "signals_kept (w\<lparr>self := ?u, phase := q\<rparr>)"
      using I(6) by (simp add: signals_kept_def pending_signals_def)
    ultimately show ?thesis unfolding r protocol_inv_def by simp
  qed
qed

end
