(* ===== verification/InterruptProtocol.thy ===== *)
theory InterruptProtocol
  imports InterruptTrap
begin

text \<open>
  The steps of the Lisp code itself keep the invariant; with the handlers of \<open>InterruptEvents\<close>
  and \<open>InterruptTrap\<close>, every event outside the two windows does.
\<close>

unbundle bit_operations_syntax

lemma plain_flags:
  assumes pa: "pa_word pa" and inv: "protocol_inv pa w" and p: "plain_code w"
  shows "\<not> get_pseudo_atomic_interrupted (self w)" "\<not> gc_blocked_deferrables (self w)"
    "pending_handler (self w) \<noteq> None \<longleftrightarrow> tls (self w) INTERRUPT_PENDING \<noteq> V_NIL"
    "pending_handler (self w) \<noteq> None \<Longrightarrow> \<not> enabled (self w)" "gc_due (self w) \<Longrightarrow> inhibited (self w)"
proof -
  note I = protocol_invD[OF inv]
  have r: "phase w = Running" "pseudo_atomic_bits (self w) = 0" using p by (simp_all add: plain_code_def)
  show n: "\<not> get_pseudo_atomic_interrupted (self w)" using r(2) by (simp add: get_pseudo_atomic_interrupted_def)
  show "\<not> gc_blocked_deferrables (self w)" using flags_okD(1)[OF I(4)] n by blast
  show "pending_handler (self w) \<noteq> None \<longleftrightarrow> tls (self w) INTERRUPT_PENDING \<noteq> V_NIL"
    using flags_okD(2,3)[OF I(4)] n by blast
  show "\<not> enabled (self w)" if "pending_handler (self w) \<noteq> None"
    using flags_okD(8)[OF I(4) that] n r(1) by auto
  show "inhibited (self w)" if "gc_due (self w)" using flags_okD(7)[OF I(4) that] n r(1) by auto
qed

text \<open>Changes to the bindings and the phase only: the parts of the invariant that remain.\<close>

lemma rebound:
  assumes inv: "protocol_inv pa w" and S: "stack_ok p u" "flags_ok p u" "bits_ok p pa (pseudo_atomic_bits u)"
    and u: "\<exists>t st b. u = (self w)\<lparr>tls := t, binding_stack := st, pseudo_atomic_bits := b\<rparr> \<and>
      t FREE_INTERRUPT_CONTEXT_INDEX = tls (self w) FREE_INTERRUPT_CONTEXT_INDEX"
  shows "protocol_inv pa (w\<lparr>self := u, phase := p\<rparr>)"
  using S u protocol_invD(1,5,6)[OF inv]
  by (auto simp: protocol_inv_def lisp_frame_def mask_ok_def signals_kept_def pending_signals_def)

lemma begin_keeps_inv:
  assumes pa: "pa_word pa" and inv: "protocol_inv pa w" and can: "can_happen Begin_pseudo_atomic w"
  shows "\<exists>w'. perform L pa Begin_pseudo_atomic w = Inr w' \<and> protocol_inv pa w'"
proof -
  let ?u = "(self w)\<lparr>pseudo_atomic_bits := pa\<rparr>"
  note I = protocol_invD[OF inv]
  have p: "plain_code w" using can by (simp add: can_happen_def)
  then have r: "phase w = Running" by (simp add: plain_code_def)
  have n: "\<not> get_pseudo_atomic_interrupted ?u" using pa_bits(8)[OF pa] by (simp add: get_pseudo_atomic_interrupted_def)
  have "protocol_inv pa (w\<lparr>self := ?u, phase := Running\<rparr>)"
  proof (rule rebound[OF inv])
    show "stack_ok Running ?u" using I(2) r by (simp add: stack_ok_def)
    show "bits_ok Running pa (pseudo_atomic_bits ?u)" by (simp add: bits_ok_def)
    show "flags_ok Running ?u"
      using I(4) plain_flags(1)[OF pa inv p] n r unfolding flags_ok_def Let_def by simp
    show "\<exists>t st b. ?u = (self w)\<lparr>tls := t, binding_stack := st, pseudo_atomic_bits := b\<rparr> \<and>
        t FREE_INTERRUPT_CONTEXT_INDEX = tls (self w) FREE_INTERRUPT_CONTEXT_INDEX"
      by (intro exI[of _ "tls (self w)"] exI[of _ "binding_stack (self w)"] exI[of _ pa]) (cases "self w", simp)
  qed
  then show ?thesis using r by (cases w) (simp add: perform_def)
qed

lemma end_keeps_inv:
  assumes pa: "pa_word pa" and inv: "protocol_inv pa w" and can: "can_happen End_pseudo_atomic w"
  shows "\<exists>w'. perform L pa End_pseudo_atomic w = Inr w' \<and> protocol_inv pa w'"
proof -
  let ?b = "pseudo_atomic_bits (self w) XOR pa"
  let ?u = "(self w)\<lparr>pseudo_atomic_bits := ?b\<rparr>" and ?p = "if ?b = 0 then Running else Trap_run"
  note I = protocol_invD[OF inv]
  have r: "phase w = Running" and a: "get_pseudo_atomic_atomic (self w)" using can by (simp_all add: can_happen_def)
  have b: "pseudo_atomic_bits (self w) \<in> {pa, pa OR 1}" using pa_bits_eq(1)[OF pa I(3)] a by simp
  have b': "?b = (if get_pseudo_atomic_interrupted (self w) then 1 else 0)"
    using b pa_bits(3,4,8)[OF pa] by (auto simp: get_pseudo_atomic_interrupted_def)
  have n: "get_pseudo_atomic_interrupted ?u = get_pseudo_atomic_interrupted (self w)"
    unfolding get_pseudo_atomic_interrupted_def[of ?u] using b' by simp
  have "protocol_inv pa (w\<lparr>self := ?u, phase := ?p\<rparr>)"
  proof (rule rebound[OF inv])
    show "stack_ok ?p ?u" using I(2) r by (simp add: stack_ok_def)
    show "bits_ok ?p pa (pseudo_atomic_bits ?u)" using b' by (auto simp: bits_ok_def)
    show "flags_ok ?p ?u"
      using I(4) r b' unfolding flags_ok_def Let_def n by (auto split: if_splits)
    show "\<exists>t st b. ?u = (self w)\<lparr>tls := t, binding_stack := st, pseudo_atomic_bits := b\<rparr> \<and>
        t FREE_INTERRUPT_CONTEXT_INDEX = tls (self w) FREE_INTERRUPT_CONTEXT_INDEX"
      by (intro exI[of _ "tls (self w)"] exI[of _ "binding_stack (self w)"] exI[of _ ?b]) (cases "self w", simp)
  qed
  then show ?thesis by (simp add: perform_def end_pseudo_atomic_def Let_def)
qed

lemma trigger_keeps_inv:
  assumes pa: "pa_word pa" and inv: "protocol_inv pa w" and can: "can_happen Allocation_trigger w"
  shows "\<exists>w'. perform L pa Allocation_trigger w = Inr w' \<and> protocol_inv pa w'"
proof -
  let ?th = "self w"
  note I = protocol_invD[OF inv]
  have r: "phase w = Running" and a: "get_pseudo_atomic_atomic ?th" using can by (simp_all add: can_happen_def)
  have P: "perform L pa Allocation_trigger w = Inr (w\<lparr>self := u\<rparr>)" if "trigger_gc ?th = Inr u" for u
    using that by (simp add: perform_def)
  consider (due) "tls ?th GC_PENDING \<noteq> V_NIL" | (inhibit) "tls ?th GC_PENDING = V_NIL" "inhibited ?th"
    | (now) "tls ?th GC_PENDING = V_NIL" "\<not> inhibited ?th" by blast
  then show ?thesis
  proof cases
    case due
    then have "trigger_gc ?th = Inr ?th" by (simp add: trigger_gc_def read_TLS_def)
    from P[OF this] show ?thesis using inv by simp
  next
    case inhibit
    let ?u = "write_TLS GC_PENDING V_T ?th"
    have t: "trigger_gc ?th = Inr ?u" using inhibit by (simp add: trigger_gc_def read_TLS_def write_TLS_def)
    have "lisp_frame ?u" "stack_ok (phase w) ?u" "bits_ok (phase w) pa (pseudo_atomic_bits ?u)" "mask_ok ?u"
      "signals_kept (w\<lparr>self := ?u\<rparr>)"
      using I(1,2,3,5,6) by (simp_all add: inv_simps write_TLS_def)
    moreover have "flags_ok (phase w) ?u"
      using flags_okD(1,2,3,4)[OF I(4)] stack_enabled(1)[OF I(2)] inhibit r unfolding flags_ok_def write_TLS_def get_pseudo_atomic_interrupted_def Let_def
      by auto
    ultimately show ?thesis unfolding P[OF t] protocol_inv_def by simp
  next
    case now
    let ?t = "?th\<lparr>tls := (tls ?th)(GC_PENDING := V_T), pseudo_atomic_bits := pseudo_atomic_bits ?th OR 1\<rparr>"
    have b: "bits_ok (phase w) pa (pseudo_atomic_bits ?th OR 1)"
      using r a pa_bits_eq(1)[OF pa I(3)] pa_bits(9)[OF pa] by (auto simp: bits_ok_def)
    have t: "trigger_gc ?th = Inr (maybe_save_gc_mask_and_block_deferrables None ?t)"
      using now a by (simp add: trigger_gc_def read_TLS_def write_TLS_def set_pseudo_atomic_interrupted_def get_pseudo_atomic_atomic_def)
    note bs = bit_set[of "pseudo_atomic_bits ?th"]
    show ?thesis
    proof (cases "pending_handler ?th = None \<and> \<not> gc_blocked_deferrables ?th")
      case True
      let ?u = "?t\<lparr>gc_blocked_deferrables := True, pending_mask := sigmask ?th,
          sigmask := (sigmask ?th \<union> blockable_sigset) - gc_sigset\<rparr>"
      have t': "trigger_gc ?th = Inr ?u" using True unfolding t mask_saved by simp
      have ip: "tls ?th INTERRUPT_PENDING = V_NIL" using True flags_okD(2)[OF I(4)] by blast
      have "lisp_frame ?u" "stack_ok (phase w) ?u" "bits_ok (phase w) pa (pseudo_atomic_bits ?u)"
        "signals_kept (w\<lparr>self := ?u\<rparr>)"
        using I(1,2,6) b by (simp_all add: inv_simps)
      moreover have "mask_ok ?u" using I(5) True signal_sets(1,4) by (auto simp: mask_ok_def signal_sets(7))
      moreover have "flags_ok (phase w) ?u"
        using True ip now bs r by (simp add: flags_ok_def get_pseudo_atomic_interrupted_def Let_def)
      ultimately show ?thesis unfolding P[OF t'] protocol_inv_def by simp
    next
      case False
      have t': "trigger_gc ?th = Inr ?t" using False unfolding t mask_saved by auto
      have "lisp_frame ?t" "stack_ok (phase w) ?t" "bits_ok (phase w) pa (pseudo_atomic_bits ?t)" "mask_ok ?t"
        "signals_kept (w\<lparr>self := ?t\<rparr>)"
        using I(1,2,5,6) b by (simp_all add: inv_simps)
      moreover have "flags_ok (phase w) ?t"
        using False flags_okD(1,2,3)[OF I(4)] now bs r
        unfolding flags_ok_def get_pseudo_atomic_interrupted_def Let_def by auto
      ultimately show ?thesis unfolding P[OF t'] protocol_inv_def by simp
    qed
  qed
qed

section \<open>Entering and leaving extents\<close>

lemma enter_wi_keeps_inv:
  assumes pa: "pa_word pa" and inv: "protocol_inv pa w" and can: "can_happen Enter_without_interrupts w"
  shows "\<exists>w'. perform L pa Enter_without_interrupts w = Inr w' \<and> protocol_inv pa w'"
proof -
  let ?u = "enter_without_interrupts (self w)"
  note I = protocol_invD[OF inv]
  have p: "plain_code w" using can by (simp add: can_happen_def)
  then have r: "phase w = Running" "pseudo_atomic_bits (self w) = 0" by (simp_all add: plain_code_def)
  note f = plain_flags[OF pa inv p]
  have "protocol_inv pa (w\<lparr>self := ?u, phase := Running\<rparr>)"
  proof (rule rebound[OF inv])
    show "stack_ok Running ?u"
      using I(2) r by (simp add: stack_ok_def enter_without_interrupts_def bind_variable_def in_without_interrupts)
    show "bits_ok Running pa (pseudo_atomic_bits ?u)"
      using r by (simp add: bits_ok_def enter_without_interrupts_def bind_variable_def)
    show "flags_ok Running ?u"
      using I(4) f r unfolding flags_ok_def Let_def
      by (simp add: enter_without_interrupts_def bind_variable_def get_pseudo_atomic_interrupted_def)
    show "\<exists>t st b. ?u = (self w)\<lparr>tls := t, binding_stack := st, pseudo_atomic_bits := b\<rparr> \<and>
        t FREE_INTERRUPT_CONTEXT_INDEX = tls (self w) FREE_INTERRUPT_CONTEXT_INDEX"
      by (cases "self w") (simp add: enter_without_interrupts_def bind_variable_def)
  qed
  then show ?thesis using r by (cases w) (simp add: perform_def)
qed

lemma enter_wg_keeps_inv:
  assumes pa: "pa_word pa" and inv: "protocol_inv pa w" and can: "can_happen Enter_without_gcing w"
  shows "\<exists>w'. perform L pa Enter_without_gcing w = Inr w' \<and> protocol_inv pa w'"
proof -
  let ?u = "enter_without_gcing (self w)"
  note I = protocol_invD[OF inv]
  have p: "plain_code w" and i: "\<not> inhibited (self w)" using can by (simp_all add: can_happen_def read_TLS_def)
  have r: "phase w = Running" "pseudo_atomic_bits (self w) = 0" using p by (simp_all add: plain_code_def)
  note f = plain_flags[OF pa inv p]
  have "protocol_inv pa (w\<lparr>self := ?u, phase := Running\<rparr>)"
  proof (rule rebound[OF inv])
    show "stack_ok Running ?u"
      using I(2) r i by (simp add: stack_ok_def enter_without_gcing_def bind_variable_def in_without_gcing)
    show "bits_ok Running pa (pseudo_atomic_bits ?u)"
      using r by (simp add: bits_ok_def enter_without_gcing_def bind_variable_def)
    show "flags_ok Running ?u"
      using I(4) f r i unfolding flags_ok_def Let_def
      by (simp add: enter_without_gcing_def bind_variable_def get_pseudo_atomic_interrupted_def)
    show "\<exists>t st b. ?u = (self w)\<lparr>tls := t, binding_stack := st, pseudo_atomic_bits := b\<rparr> \<and>
        t FREE_INTERRUPT_CONTEXT_INDEX = tls (self w) FREE_INTERRUPT_CONTEXT_INDEX"
      by (cases "self w") (simp add: enter_without_gcing_def bind_variable_def)
  qed
  then show ?thesis using r by (cases w) (simp add: perform_def)
qed

lemma leave_wi_keeps_inv:
  assumes pa: "pa_word pa" and inv: "protocol_inv pa w" and can: "can_happen Leave_without_interrupts w"
  shows "\<exists>w'. perform L pa Leave_without_interrupts w = Inr w' \<and> protocol_inv pa w'"
proof -
  let ?th = "self w"
  note I = protocol_invD[OF inv]
  have p: "plain_code w" using can by (simp add: can_happen_def)
  then have r: "phase w = Running" "pseudo_atomic_bits ?th = 0" by (simp_all add: plain_code_def)
  obtain a e st where st: "binding_stack ?th = (ALLOW_WITH_INTERRUPTS, a) # (INTERRUPTS_ENABLED, e) # st"
    using can by (cases "binding_stack ?th"; cases "tl (binding_stack ?th)") (auto simp: can_happen_def)
  have x: "extents st e (tls ?th GC_INHIBIT) (tls ?th IN_WITHOUT_GCING)" "\<not> enabled ?th"
    using I(2) r(1) by (auto simp: stack_ok_def st Let_def elim: extents_allow)
  note f = plain_flags[OF pa inv p]
  let ?u = "?th\<lparr>tls := (tls ?th)(ALLOW_WITH_INTERRUPTS := a, INTERRUPTS_ENABLED := e), binding_stack := st\<rparr>"
  let ?p = "if e \<noteq> V_NIL \<and> tls ?th INTERRUPT_PENDING \<noteq> V_NIL then Trap_run else Running"
  have l: "leave_without_interrupts ?th = Inr (?u, ?p)"
    by (simp add: leave_without_interrupts_def unbind_def st read_TLS_def)
  have "protocol_inv pa (w\<lparr>self := ?u, phase := ?p\<rparr>)"
  proof (rule rebound[OF inv])
    show "stack_ok ?p ?u" using x by (simp add: stack_ok_def)
    show "bits_ok ?p pa (pseudo_atomic_bits ?u)" using r by (simp add: bits_ok_def)
    show "flags_ok ?p ?u"
      using I(4) f r extents_flags[OF x(1)] unfolding flags_ok_def Let_def get_pseudo_atomic_interrupted_def
      by (auto split: if_splits)
    show "\<exists>t st b. ?u = (self w)\<lparr>tls := t, binding_stack := st, pseudo_atomic_bits := b\<rparr> \<and>
        t FREE_INTERRUPT_CONTEXT_INDEX = tls (self w) FREE_INTERRUPT_CONTEXT_INDEX"
      by (cases "self w") simp
  qed
  then show ?thesis unfolding perform_def Let_def event.case l by simp
qed

lemma leave_wg_begins:
  assumes pa: "pa_word pa" and inv: "protocol_inv pa w" and p: "plain_code w"
    and top: "map fst (take 1 (binding_stack (self w))) = [GC_INHIBIT]"
  shows "\<exists>w'. perform L pa Leave_without_gcing w = Inr w' \<and> protocol_inv pa w'"
proof -
  let ?th = "self w"
  note I = protocol_invD[OF inv]
  have r: "phase w = Running" "pseudo_atomic_bits ?th = 0" using p by (simp_all add: plain_code_def)
  obtain i st where st: "binding_stack ?th = (GC_INHIBIT, i) # st" using top by (cases "binding_stack ?th") auto
  have x: "i = V_NIL" "\<not> enabled ?th" "tls ?th IN_WITHOUT_GCING \<noteq> V_NIL"
    "\<exists>e' a w' st'. st = (INTERRUPTS_ENABLED, e') # (ALLOW_WITH_INTERRUPTS, a) # (IN_WITHOUT_GCING, w') # st' \<and>
       extents st' e' V_NIL w'"
    using I(2) r(1) by (auto simp: stack_ok_def st Let_def elim: extents_inhibit)
  note f = plain_flags[OF pa inv p]
  let ?u = "?th\<lparr>tls := (tls ?th)(GC_INHIBIT := V_NIL), binding_stack := st\<rparr>"
  have l: "leave_without_gcing Running ?th = Inr (?u, Leaving_inner)"
    by (simp add: leave_without_gcing_def unbind_def st x(1))
  have "protocol_inv pa (w\<lparr>self := ?u, phase := Leaving_inner\<rparr>)"
  proof (rule rebound[OF inv])
    show "stack_ok Leaving_inner ?u" using x by (simp add: stack_ok_def)
    show "bits_ok Leaving_inner pa (pseudo_atomic_bits ?u)" using r by (simp add: bits_ok_def)
    show "flags_ok Leaving_inner ?u"
      using I(4) f r x(2) unfolding flags_ok_def Let_def get_pseudo_atomic_interrupted_def by auto
    show "\<exists>t st b. ?u = (self w)\<lparr>tls := t, binding_stack := st, pseudo_atomic_bits := b\<rparr> \<and>
        t FREE_INTERRUPT_CONTEXT_INDEX = tls (self w) FREE_INTERRUPT_CONTEXT_INDEX"
      by (cases "self w") simp
  qed
  then show ?thesis unfolding perform_def Let_def event.case r l by simp
qed

lemma leaving_flags:
  assumes inv: "protocol_inv pa w" and p: "phase w \<in> {Leaving_inner, Leaving, Left}"
  shows "\<not> get_pseudo_atomic_interrupted (self w)" "\<not> gc_blocked_deferrables (self w)" "\<not> inhibited (self w)"
    "pending_handler (self w) \<noteq> None \<longleftrightarrow> tls (self w) INTERRUPT_PENDING \<noteq> V_NIL"
    "pending_handler (self w) \<noteq> None \<Longrightarrow> enabled (self w) \<Longrightarrow> phase w = Leaving"
    "phase w = Left \<Longrightarrow> \<not> gc_due (self w)"
proof -
  note I = protocol_invD[OF inv]
  have "pseudo_atomic_bits (self w) = 0" using I(3) p by (auto simp: bits_ok_def)
  then show n: "\<not> get_pseudo_atomic_interrupted (self w)" by (simp add: get_pseudo_atomic_interrupted_def)
  show "\<not> gc_blocked_deferrables (self w)" using flags_okD(1)[OF I(4)] n by blast
  show i: "\<not> inhibited (self w)" using flags_okD(5)[OF I(4)] p by auto
  show "pending_handler (self w) \<noteq> None \<longleftrightarrow> tls (self w) INTERRUPT_PENDING \<noteq> V_NIL"
    using flags_okD(2,3)[OF I(4)] n by blast
  show "phase w = Leaving" if "pending_handler (self w) \<noteq> None" "enabled (self w)"
    using flags_okD(8)[OF I(4) that] n p by auto
  show "\<not> gc_due (self w)" if "phase w = Left" using flags_okD(7)[OF I(4)] n i that by auto
qed

lemma leave_wg_goes_on:
  assumes inv: "protocol_inv pa w" and p: "phase w \<in> {Leaving_inner, Leaving, Left}"
  shows "\<exists>w'. perform L pa Leave_without_gcing w = Inr w' \<and> protocol_inv pa w'"
proof -
  let ?th = "self w"
  note I = protocol_invD[OF inv]
  have b: "pseudo_atomic_bits ?th = 0" using I(3) p by (auto simp: bits_ok_def)
  note f = leaving_flags[OF inv p]
  have R: "\<exists>w'. perform L pa Leave_without_gcing w = Inr w' \<and> protocol_inv pa w'"
    if l: "leave_without_gcing (phase w) ?th = Inr (?th\<lparr>tls := t, binding_stack := st\<rparr>, q)"
      and "stack_ok q (?th\<lparr>tls := t, binding_stack := st\<rparr>)" "flags_ok q (?th\<lparr>tls := t, binding_stack := st\<rparr>)"
      and t: "t FREE_INTERRUPT_CONTEXT_INDEX = tls ?th FREE_INTERRUPT_CONTEXT_INDEX" for t st q
  proof -
    have "protocol_inv pa (w\<lparr>self := ?th\<lparr>tls := t, binding_stack := st\<rparr>, phase := q\<rparr>)"
    proof (rule rebound[OF inv that(2,3)])
      show "bits_ok q pa (pseudo_atomic_bits (?th\<lparr>tls := t, binding_stack := st\<rparr>))"
        using b by (simp add: bits_ok_def split: phase.splits)
      show "\<exists>t' st' b. ?th\<lparr>tls := t, binding_stack := st\<rparr> =
            ?th\<lparr>tls := t', binding_stack := st', pseudo_atomic_bits := b\<rparr> \<and>
          t' FREE_INTERRUPT_CONTEXT_INDEX = tls ?th FREE_INTERRUPT_CONTEXT_INDEX"
        using t by (intro exI[of _ t] exI[of _ st] exI[of _ "pseudo_atomic_bits ?th"]) (cases ?th, simp)
    qed
    then show ?thesis unfolding perform_def Let_def event.case l by simp
  qed
  consider (inner) "phase w = Leaving_inner" | (test) "phase w = Leaving" | (left) "phase w = Left" using p by blast
  then show ?thesis
  proof cases
    case inner
    obtain e' a w' st' where st: "binding_stack ?th = (INTERRUPTS_ENABLED, e') # (ALLOW_WITH_INTERRUPTS, a) # (IN_WITHOUT_GCING, w') # st'"
      and x: "extents st' e' V_NIL w'" "tls ?th GC_INHIBIT = V_NIL" "tls ?th IN_WITHOUT_GCING \<noteq> V_NIL"
      using I(2) inner by (auto simp: stack_ok_def Let_def)
    show ?thesis
    proof (rule R)
      show "leave_without_gcing (phase w) ?th = Inr (?th\<lparr>tls := (tls ?th)(INTERRUPTS_ENABLED := e', ALLOW_WITH_INTERRUPTS := a),
          binding_stack := (IN_WITHOUT_GCING, w') # st'\<rparr>, Leaving)"
        using st by (simp add: inner leave_without_gcing_def unbind_def)
      show "stack_ok Leaving (?th\<lparr>tls := (tls ?th)(INTERRUPTS_ENABLED := e', ALLOW_WITH_INTERRUPTS := a),
          binding_stack := (IN_WITHOUT_GCING, w') # st'\<rparr>)" using x by (simp add: stack_ok_def)
      show "flags_ok Leaving (?th\<lparr>tls := (tls ?th)(INTERRUPTS_ENABLED := e', ALLOW_WITH_INTERRUPTS := a),
          binding_stack := (IN_WITHOUT_GCING, w') # st'\<rparr>)"
        using f(1-4) flags_okD(9)[OF I(4)] unfolding flags_ok_def Let_def get_pseudo_atomic_interrupted_def by auto
    qed simp
  next
    case test
    let ?q = "if tls ?th INTERRUPT_PENDING \<noteq> V_NIL \<or> gc_due ?th then Trap_left else Left"
    have e: "?th\<lparr>tls := tls ?th, binding_stack := binding_stack ?th\<rparr> = ?th" by (cases ?th) simp
    have "leave_without_gcing (phase w) ?th = Inr (?th, ?q)" by (simp add: test leave_without_gcing_def read_TLS_def)
    moreover have "stack_ok ?q ?th" using I(2) test by (simp add: stack_ok_def)
    moreover have "flags_ok ?q ?th"
      using f(1-4) flags_okD(9)[OF I(4)] unfolding flags_ok_def Let_def by auto
    ultimately show ?thesis using R[where t = "tls ?th" and st = "binding_stack ?th" and q = ?q] unfolding e by blast
  next
    case left
    obtain w' st' where st: "binding_stack ?th = (IN_WITHOUT_GCING, w') # st'"
      and x: "extents st' (tls ?th INTERRUPTS_ENABLED) V_NIL w'" "tls ?th GC_INHIBIT = V_NIL"
      using I(2) left by (auto simp: stack_ok_def Let_def)
    show ?thesis
    proof (rule R)
      show "leave_without_gcing (phase w) ?th =
          Inr (?th\<lparr>tls := (tls ?th)(IN_WITHOUT_GCING := w'), binding_stack := st'\<rparr>, Running)"
        using st by (simp add: left leave_without_gcing_def unbind_def)
      show "stack_ok Running (?th\<lparr>tls := (tls ?th)(IN_WITHOUT_GCING := w'), binding_stack := st'\<rparr>)"
        using x by (simp add: stack_ok_def)
      show "flags_ok Running (?th\<lparr>tls := (tls ?th)(IN_WITHOUT_GCING := w'), binding_stack := st'\<rparr>)"
        using f left unfolding flags_ok_def Let_def get_pseudo_atomic_interrupted_def by auto
    qed simp
  qed
qed

section \<open>Every event\<close>

text \<open>The two windows together.\<close>

definition race_window :: "event \<Rightarrow> world \<Rightarrow> bool" where
  "race_window ev w \<longleftrightarrow>
     (case ev of Signal s i \<Rightarrow> signal_window w | Stop_for_gc \<Rightarrow> stop_window w | _ \<Rightarrow> False)"

theorem step_keeps_inv:
  assumes L: "lisp_behaves L" and pa: "pa_word pa" and inv: "protocol_inv pa w"
    and can: "can_happen ev w" and win: "\<not> race_window ev w"
  shows "\<exists>w'. perform L pa ev w = Inr w' \<and> protocol_inv pa w'"
proof (cases ev)
  case (Signal s i)
  then show ?thesis using signal_keeps_inv[OF L pa inv] can win by (simp add: race_window_def)
next
  case Stop_for_gc
  then show ?thesis using stop_keeps_inv[OF L pa inv] win by (simp add: race_window_def)
next
  case Leave_without_gcing
  then show ?thesis
    using leave_wg_begins[OF pa inv] leave_wg_goes_on[OF inv] can by (auto simp: can_happen_def)
qed (use can in \<open>simp_all add: begin_keeps_inv[OF pa inv] end_keeps_inv[OF pa inv] trigger_keeps_inv[OF pa inv]
      enter_wi_keeps_inv[OF pa inv] enter_wg_keeps_inv[OF pa inv] leave_wi_keeps_inv[OF pa inv]
      trap_keeps_inv[OF L pa inv]\<close>)

end
