(* ===== verification/Deferral.thy ===== *)
theory Deferral
  imports InterruptProtocol
begin

text \<open>
  The properties of signal deferral: in every reachable state no check in the handlers stops the
  process and no signal is lost, outside two windows; inside them the process stops. The
  witnesses run concrete sequences of events.
\<close>

unbundle bit_operations_syntax

section \<open>Reachable states\<close>

text \<open>A thread that runs Lisp code with nothing pending and no extent around it.\<close>

definition fresh_thread :: "thread \<Rightarrow> bool" where
  "fresh_thread th \<longleftrightarrow> lisp_frame th \<and> binding_stack th = [] \<and> pseudo_atomic_bits th = 0 \<and>
     tls th INTERRUPTS_ENABLED \<noteq> V_NIL \<and> tls th GC_INHIBIT = V_NIL \<and> tls th IN_WITHOUT_GCING = V_NIL \<and>
     tls th INTERRUPT_PENDING = V_NIL \<and> tls th GC_PENDING = V_NIL \<and> tls th STOP_FOR_GC_PENDING = V_NIL \<and>
     pending_handler th = None \<and> \<not> gc_blocked_deferrables th \<and> lisp_calls th = [] \<and>
     sigmask th \<inter> insert SIG_STOP_FOR_GC deferrable_sigset = {}"

text \<open>The states that any sequence of events outside the windows leads to.\<close>

inductive reached :: "lisp_side \<Rightarrow> uword \<Rightarrow> world \<Rightarrow> bool" for L pa where
  started: "fresh_thread th \<Longrightarrow> reached L pa \<lparr>self = th, phase = Running, delivered = []\<rparr>"
| stepped: "reached L pa w \<Longrightarrow> can_happen ev w \<Longrightarrow> \<not> race_window ev w \<Longrightarrow>
    perform L pa ev w = Inr w' \<Longrightarrow> reached L pa w'"

lemma reached_inv:
  assumes L: "lisp_behaves L" and pa: "pa_word pa" and "reached L pa w"
  shows "protocol_inv pa w"
  using assms(3)
proof induction
  case (started th)
  then show ?case
    by (auto simp: fresh_thread_def protocol_inv_def stack_ok_def bits_ok_def flags_ok_def mask_ok_def
        signals_kept_def pending_signals_def get_pseudo_atomic_interrupted_def Let_def intro: no_extent)
next
  case (stepped w ev w')
  then show ?case using step_keeps_inv[OF L pa stepped.IH stepped.hyps(2,3)] by auto
qed

text \<open>A signal that arrives in the first window stops the process.\<close>

lemma signal_in_window:
  assumes inv: "protocol_inv pa w" and can: "can_happen (Signal s i) w" and win: "signal_window w"
  shows "perform L pa (Signal s i) w = Inl Lose"
proof -
  let ?th = "self w"
  note I = protocol_invD[OF inv]
  have s: "s \<in> deferrable_sigset" "s \<notin> sigmask ?th" using can by (simp_all add: can_happen_def)
  note n = nothing_pending[OF I(4,5) s]
  have g: "gc_due ?th" "\<not> enabled ?th" "\<not> inhibited ?th"
    using win stack_enabled(3)[OF I(2)] by (auto simp: signal_window_def)
  let ?t = "set_context_mask 0 (sigmask ?th) ?th\<lparr>sigmask := sigmask (set_context_mask 0 (sigmask ?th) ?th) \<union> blockable_sigset\<rparr>"
  have t: "pending_handler ?t = None" "\<not> gc_blocked_deferrables ?t" "tls ?t = tls ?th"
    using n by (simp_all add: set_context_mask_def)
  define u where "u = write_TLS INTERRUPT_PENDING V_T (?t\<lparr>pending_handler := Some Interrupt_handle_now, pending_signal := s, pending_info := i,
      pending_mask := os_context_sigmask ?t 0,
      os_context_sigmask := (os_context_sigmask ?t)(0 := os_context_sigmask ?t 0 \<union> deferrable_sigset)\<rparr>)"
  have u: "tls u GC_PENDING = tls ?th GC_PENDING" "tls u STOP_FOR_GC_PENDING = tls ?th STOP_FOR_GC_PENDING"
    "tls u INTERRUPTS_ENABLED = V_NIL" "tls u GC_INHIBIT = V_NIL" "\<not> get_pseudo_atomic_interrupted u"
    using n(4) g by (simp_all add: u_def write_TLS_def set_context_mask_def get_pseudo_atomic_interrupted_def)
  have nr: "\<not> in_leaving_without_gcing_race_p u" by (simp only: in_leaving_without_gcing_race_p_def read_TLS_def u) simp
  have "tls ?th GC_PENDING = V_T \<or> tls ?th STOP_FOR_GC_PENDING \<noteq> V_NIL" using g(1) flags_okD(9)[OF I(4)] by blast
  then have l: "check_interrupt_context_or_lose 0 u k = Inl Lose" for k :: "(bool \<times> thread) result"
    unfolding check_interrupt_context_or_lose_def Let_def read_TLS_def lose_if_def
    by (elim disjE) (simp_all add: u nr)
  have "can_handle_now Interrupt_handle_now s i 0 ?t = Inl Lose"
    using t(1,2) n(3) g(2) unfolding can_handle_now_def read_TLS_def t(3) lose_if_def
    by (simp only: simp_thms if_False if_True stored[OF t(1)] rbind.simps prod.case l flip: u_def)
  then have "in_handler (maybe_now_maybe_later L s i) ?th = Inl Lose"
    unfolding in_handler_def maybe_now_maybe_later_def Let_def by (simp only: rbind.simps)
  then show ?thesis by (simp add: perform_def)
qed

text \<open>In the second window the stop signal is served, and the trap that follows stops the process.\<close>

lemma stop_in_window:
  assumes L: "lisp_behaves L" and pa: "pa_word pa" and inv: "protocol_inv pa w" and win: "stop_window w"
  shows "\<exists>w'. perform L pa Stop_for_gc w = Inr w' \<and> can_happen Trap_pending w' \<and>
    perform L pa Trap_pending w' = Inl Lose"
proof -
  let ?th = "self w"
  note I = protocol_invD[OF inv]
  have p: "phase w = Trap_run" "pending_handler ?th \<noteq> None" "\<not> enabled ?th" "get_pseudo_atomic_interrupted ?th"
    using win by (simp_all add: stop_window_def)
  have gb: "\<not> gc_blocked_deferrables ?th" using flags_okD(1)[OF I(4)] p(2) by auto
  have bits: "pseudo_atomic_bits ?th \<in> {0, 1}" using I(3) p(1) by (simp add: bits_ok_def)
  then have na: "\<not> get_pseudo_atomic_atomic ?th"
    using bits_cleared(1) by (simp add: get_pseudo_atomic_atomic_def del: insert_iff)
  have inh: "\<not> inhibited ?th" using flags_okD(5)[OF I(4)] p(1) by simp
  obtain sc where f: "in_handler (sig_stop_for_gc_handler L) ?th = Inr (?th\<lparr>
      tls := (tls ?th)(GC_PENDING := V_NIL, STOP_FOR_GC_PENDING := V_NIL), pseudo_atomic_bits := pseudo_atomic_bits ?th,
      os_context_sigmask := (os_context_sigmask ?th)(0 := sigmask ?th),
      gc_blocked_deferrables := False, sigmask := sigmask ?th,
      sigcontexts := sc, ffcall_active_p := False\<rparr>)" (is "_ = Inr ?u")
    using stop_signal_now[OF L I(1) inh na] gb by (simp only: if_False) blast
  have r: "perform L pa Stop_for_gc w = Inr (w\<lparr>self := ?u\<rparr>)"
    unfolding perform_def Let_def event.case f rbind.simps by (rule refl)
  have u: "lisp_frame ?u" "\<not> inhibited ?u" "\<not> gc_blocked_deferrables ?u" "tls ?u GC_PENDING = V_NIL" "\<not> gc_due ?u"
    "mask_ok ?u" "\<not> get_pseudo_atomic_atomic ?u" "\<not> enabled ?u" "get_pseudo_atomic_interrupted ?u"
    using I(1,5) inh na p gb by (simp_all add: lisp_frame_def mask_ok_def get_pseudo_atomic_atomic_def get_pseudo_atomic_interrupted_def)
  obtain sc' m where h: "in_handler (interrupt_handle_pending L) ?u =
     rbind (pending_signal_handler L 0 (?u\<lparr>tls := (tls ?u)(GC_PENDING := V_NIL, STOP_FOR_GC_PENDING := V_NIL),
        pseudo_atomic_bits := (if gc_due ?u then pseudo_atomic_bits ?u AND NOT 1 else pseudo_atomic_bits ?u),
        os_context_sigmask := (os_context_sigmask ?u)(0 := if gc_blocked_deferrables ?u then pending_mask ?u else sigmask ?u),
        gc_blocked_deferrables := False, sigmask := m, sigcontexts := sc', ffcall_active_p := False\<rparr>))
     (\<lambda>u. lose_if (get_pseudo_atomic_interrupted u) (Inr (u\<lparr>sigmask := os_context_sigmask u 0\<rparr>)))"
    (is "_ = rbind (pending_signal_handler L 0 ?v) _")
    using trap_collects[OF L u(1,2) _ _ u(6,7)] u(3,4) by blast
  have "\<not> enabled ?v" "get_pseudo_atomic_interrupted ?v" using p by (simp_all add: get_pseudo_atomic_interrupted_def)
  moreover from this have "pending_signal_handler L 0 ?v = Inr ?v"
    unfolding pending_signal_handler_def read_TLS_def by (simp only: simp_thms if_False)
  ultimately have lose: "in_handler (interrupt_handle_pending L) ?u = Inl Lose"
    unfolding h by (simp only: rbind.simps lose_if_def if_True)
  have P: "perform L pa Trap_pending v = Inl Lose" if "in_handler (interrupt_handle_pending L) (self v) = Inl Lose" for v
    using that by (simp add: perform_def)
  have sel: "self (w\<lparr>self := x\<rparr>) = x" for x by simp
  have "perform L pa Trap_pending (w\<lparr>self := ?u\<rparr>) = Inl Lose" by (rule P) (simp only: sel lose)
  then show ?thesis using r p(1) by (auto simp: can_happen_def)
qed

section \<open>The properties\<close>

text \<open>C17: Deferral never stops the process. In every state a thread can reach, whatever the order of
  its pseudo-atomic sections, \<open>without-interrupts\<close> and \<open>without-gcing\<close> extents, allocations,
  signals, stop requests and traps, the next event succeeds: no check in the handlers fails,
  provided the event is not in one of the two windows of \<open>race_window\<close>, Lisp functions behave as
  \<open>lisp_behaves\<close> says and the word that marks pseudo-atomic sections is an even one.\<close>

theorem interrupts_never_lose:
  assumes "lisp_behaves L" and "pa_word pa" and "reached L pa w" and "can_happen ev w" and "\<not> race_window ev w"
  shows "\<exists>w'. perform L pa ev w = Inr w'"
  using step_keeps_inv[OF assms(1,2) reached_inv[OF assms(1-3)] assms(4,5)] by blast

text \<open>C18: No signal is lost, none is handled twice, and they are handled in the order they arrive. In every
  reachable state the signals delivered are those for which Lisp handlers have run, then the
  one that is deferred, if any. In ordinary code a signal is deferred only while interrupts are
  disabled, with deferrable signals blocked, and a collection is put off only while collecting is inhibited.\<close>

theorem no_signal_lost:
  assumes "lisp_behaves L" and "pa_word pa" and "reached L pa w"
  shows "delivered w = lisp_calls (self w) @ pending_signals (self w) \<and>
    (plain_code w \<and> pending_signals (self w) \<noteq> [] \<longrightarrow>
      read_TLS INTERRUPTS_ENABLED (self w) = V_NIL \<and> deferrable_sigset \<subseteq> sigmask (self w)) \<and>
    (plain_code w \<and> read_TLS GC_INHIBIT (self w) = V_NIL \<longrightarrow>
      read_TLS GC_PENDING (self w) = V_NIL \<and> read_TLS STOP_FOR_GC_PENDING (self w) = V_NIL)"
proof (intro conjI[OF _ conjI] impI)
  note inv = reached_inv[OF assms]
  note I = protocol_invD[OF inv]
  show "delivered w = lisp_calls (self w) @ pending_signals (self w)" using I(6) by (simp add: signals_kept_def)
  show "read_TLS INTERRUPTS_ENABLED (self w) = V_NIL \<and> deferrable_sigset \<subseteq> sigmask (self w)"
    if "plain_code w \<and> pending_signals (self w) \<noteq> []"
    using plain_flags(4)[OF assms(2) inv] that I(5)
    by (auto simp: pending_signals_def read_TLS_def mask_ok_def split: if_splits)
  show "read_TLS GC_PENDING (self w) = V_NIL \<and> read_TLS STOP_FOR_GC_PENDING (self w) = V_NIL"
    if "plain_code w \<and> read_TLS GC_INHIBIT (self w) = V_NIL"
    using plain_flags(5)[OF assms(2) inv] that by (auto simp: read_TLS_def)
qed

text \<open>C19: The two windows are real. A deferrable signal that arrives at the end of \<open>without-gcing\<close> inside
  \<open>without-interrupts\<close>, when a collection is due, stops the process in
  \<open>check_interrupt_context_or_lose\<close>. A stop request that arrives between the end of a
  pseudo-atomic section and its trap, while a deferred signal waits for interrupts to be
  enabled, is served, but the trap then stops the process in \<open>interrupt_handle_pending\<close>.\<close>

theorem race_windows_lose:
  assumes "lisp_behaves L" and "pa_word pa" and "reached L pa w"
  shows "(can_happen (Signal s i) w \<and> signal_window w \<longrightarrow> perform L pa (Signal s i) w = Inl Lose) \<and>
    (stop_window w \<longrightarrow> (\<exists>w'. perform L pa Stop_for_gc w = Inr w' \<and> can_happen Trap_pending w' \<and>
      perform L pa Trap_pending w' = Inl Lose))"
  using signal_in_window[OF reached_inv[OF assms]] stop_in_window[OF assms(1,2) reached_inv[OF assms]] by blast

section \<open>Instances\<close>

text \<open>Runs of events outside the windows, for the witnesses.\<close>

fun run_events :: "lisp_side \<Rightarrow> uword \<Rightarrow> event list \<Rightarrow> world \<Rightarrow> world option" where
  "run_events L pa [] w = Some w"
| "run_events L pa (ev # evs) w =
     (if can_happen ev w \<and> \<not> race_window ev w
      then (case perform L pa ev w of Inr w' \<Rightarrow> run_events L pa evs w' | Inl _ \<Rightarrow> None) else None)"

lemma run_reached: "reached L pa w \<Longrightarrow> run_events L pa evs w = Some w' \<Longrightarrow> reached L pa w'"
  by (induction L pa evs w rule: run_events.induct) (auto split: if_splits sum.splits intro: stepped)

definition plain_lisp :: lisp_side where
  "plain_lisp = \<lparr>lisp_sig_handlers = (\<lambda>s. True), call_handler = (\<lambda>s i c th. th),
     SUB_GC = (\<lambda>th. (V_T, th\<lparr>tls := (tls th)(GC_PENDING := V_NIL, STOP_FOR_GC_PENDING := V_NIL)\<rparr>)),
     POST_GC = (\<lambda>th. th), woken_state = (\<lambda>th. STATE_RUNNING)\<rparr>"

definition new_thread :: thread where
  "new_thread = \<lparr>tls = (\<lambda>s. V_NIL)(INTERRUPTS_ENABLED := V_T, FREE_INTERRUPT_CONTEXT_INDEX := V_FIXNUM 0),
     binding_stack = [], pseudo_atomic_bits = 0, ffcall_active_p = False, sigcontexts = (\<lambda>i. None),
     pending_handler = None, pending_signal = SIGHUP, pending_info = 0, pending_mask = {},
     gc_blocked_deferrables = False, user_thread_p = True, lisp_thread_alive = True, state_word = STATE_RUNNING,
     sigmask = {}, os_context_sigmask = (\<lambda>c. {}), lisp_calls = []\<rparr>"

definition new_world :: world where
  "new_world = \<lparr>self = new_thread, phase = Running, delivered = []\<rparr>"

lemma plain_lisp_behaves: "lisp_behaves plain_lisp"
  unfolding lisp_behaves_def
proof (intro conjI allI ballI impI)
  fix th :: thread and s i c
  have e: "th\<lparr>sigmask := sigmask th\<rparr> = th" by (cases th) simp
  show "\<exists>m. call_handler plain_lisp s i c th = th\<lparr>sigmask := m\<rparr>" "\<exists>m. POST_GC plain_lisp th = th\<lparr>sigmask := m\<rparr>"
    by (rule exI[of _ "sigmask th"], simp only: e, simp add: plain_lisp_def)+
  have "SUB_GC plain_lisp th = (V_T, th\<lparr>tls := (tls th)(GC_PENDING := V_NIL, STOP_FOR_GC_PENDING := V_NIL), sigmask := sigmask th\<rparr>)"
    by (cases th) (simp add: plain_lisp_def)
  then show "\<exists>v m. v \<noteq> V_NIL \<and> SUB_GC plain_lisp th =
      (v, th\<lparr>tls := (tls th)(GC_PENDING := V_NIL, STOP_FOR_GC_PENDING := V_NIL), sigmask := m\<rparr>)" by blast
qed (simp_all add: plain_lisp_def)

lemma new_world_reached: "reached plain_lisp 8 new_world"
  unfolding new_world_def
  by (rule started) (simp add: fresh_thread_def new_thread_def lisp_frame_def MAX_INTERRUPTS_def)

lemma pa_8: "pa_word 8" by (simp add: pa_word_def)

lemmas instance_facts = plain_lisp_behaves pa_8

text \<open>A signal is handled, one is deferred, a collection becomes due; the section ends.\<close>

definition sample_run :: "event list" where
  "sample_run = [Signal SIGTERM 1, Enter_without_interrupts, Signal SIGINT 7, Begin_pseudo_atomic, Allocation_trigger]"

lemma sample_run_facts:
  "case run_events plain_lisp 8 sample_run new_world of None \<Rightarrow> False
   | Some w \<Rightarrow> can_happen End_pseudo_atomic w \<and> \<not> race_window End_pseudo_atomic w \<and>
       pending_signals (self w) = [(SIGINT, 7)] \<and> lisp_calls (self w) = [(SIGTERM, 1)]"
  by code_simp

lemma interrupts_never_lose_witness:
  "\<exists>w w'. run_events plain_lisp 8 sample_run new_world = Some w \<and>
     perform plain_lisp 8 End_pseudo_atomic w = Inr w'"
proof -
  obtain w where w: "run_events plain_lisp 8 sample_run new_world = Some w"
    "can_happen End_pseudo_atomic w" "\<not> race_window End_pseudo_atomic w"
    using sample_run_facts by (auto split: option.splits)
  show ?thesis
    using interrupts_never_lose[OF instance_facts run_reached[OF new_world_reached w(1)] w(2,3)] w(1) by blast
qed

lemma no_signal_lost_witness:
  "\<exists>w. run_events plain_lisp 8 sample_run new_world = Some w \<and>
     delivered w = [(SIGTERM, 1), (SIGINT, 7)]"
proof -
  obtain w where w: "run_events plain_lisp 8 sample_run new_world = Some w"
    "pending_signals (self w) = [(SIGINT, 7)]" "lisp_calls (self w) = [(SIGTERM, 1)]"
    using sample_run_facts by (auto split: option.splits)
  then show ?thesis using no_signal_lost[OF instance_facts run_reached[OF new_world_reached w(1)]] by auto
qed

text \<open>Both windows are reached.\<close>

definition signal_race_run :: "event list" where
  "signal_race_run = [Enter_without_interrupts, Enter_without_gcing, Begin_pseudo_atomic, Allocation_trigger,
     End_pseudo_atomic, Leave_without_gcing, Leave_without_gcing]"

definition stop_race_run :: "event list" where
  "stop_race_run = [Enter_without_interrupts, Signal SIGINT 7, Begin_pseudo_atomic, Allocation_trigger,
     End_pseudo_atomic]"

lemma race_run_facts:
  "case run_events plain_lisp 8 signal_race_run new_world of None \<Rightarrow> False
   | Some w \<Rightarrow> can_happen (Signal SIGINT 7) w \<and> signal_window w"
  "case run_events plain_lisp 8 stop_race_run new_world of None \<Rightarrow> False
   | Some w \<Rightarrow> can_happen Stop_for_gc w \<and> stop_window w"
  by code_simp+

lemma race_windows_lose_witness:
  "\<exists>v w w'. run_events plain_lisp 8 signal_race_run new_world = Some v \<and>
     perform plain_lisp 8 (Signal SIGINT 7) v = Inl Lose \<and>
     run_events plain_lisp 8 stop_race_run new_world = Some w \<and>
     perform plain_lisp 8 Stop_for_gc w = Inr w' \<and> perform plain_lisp 8 Trap_pending w' = Inl Lose"
proof -
  obtain v where v: "run_events plain_lisp 8 signal_race_run new_world = Some v"
    "can_happen (Signal SIGINT 7) v" "signal_window v"
    using race_run_facts(1) by (auto split: option.splits)
  obtain w where w: "run_events plain_lisp 8 stop_race_run new_world = Some w" "stop_window w"
    using race_run_facts(2) by (auto split: option.splits)
  have "perform plain_lisp 8 (Signal SIGINT 7) v = Inl Lose"
    using race_windows_lose[OF instance_facts run_reached[OF new_world_reached v(1)]] v(2,3) by blast
  moreover have "\<exists>w'. perform plain_lisp 8 Stop_for_gc w = Inr w' \<and> perform plain_lisp 8 Trap_pending w' = Inl Lose"
    using race_windows_lose[OF instance_facts run_reached[OF new_world_reached w(1)]] w(2) by blast
  ultimately show ?thesis using v(1) w(1) by blast
qed

end
