(* ===== verification/Spec2Isabelle.thy ===== *)
theory Spec2Isabelle
  imports HopscotchMap HopscotchCache VarIO Murmur Lispobj Search TinyLock HeapSort Allocator
    Ppc Mips Sparc Arm64 Loongarch64 LinkagePpc SweepLive OldSpace Deferral
begin

text \<open>
  The C runtime of the repository (\<open>src/src/runtime\<close>): the garbage collector and its
  allocator, the data structures they use, the handling of signals and breakpoints, and the glue
  between compiled Lisp code and C. This is a shallow embedding: each C function is a HOL function
  of the same name, and its properties are theorems about that function.

  The configuration is the one the build makes by default on x86-64 Linux: 64-bit words, little
  endian, native threads with futexes, Unicode, immobile space, soft card marks, the generational
  collector, no safepoints and no linkage space. The breakpoint theories model the other processors in
  their own word size and byte order.
\<close>

text \<open>
  \<^bold>\<open>Parts of the program and how they interact.\<close>

  The allocator (\<open>gencgc.c\<close>) serves requests from open regions of dynamic space. When a region is
  used up it closes it, which records what was used in the page table, searches the table for
  pages and opens a region there. Large objects get pages of their own. The collector uses the
  same entry points for what it copies. The page table tells where the objects of a page start,
  so that the searches of \<open>search.c\<close> can find the object around an address.

  A full collection that does not move objects (\<open>fullcgc.c\<close>) marks what can be reached. It
  takes roots from the static space and from lists the caller gives, scans objects with
  \<open>trace-object.inc\<close>, queues those it has marked in \<open>queue.h\<close>, and keeps weak hash tables
  aside (\<open>gc-common.c\<close>): a weak entry lives when its key does, so the triggers of a key are kept
  in a hopscotch table whose values are lists of the cells of \<open>private-cons.inc\<close>. Hopscotch tables
  (\<open>hopscotch.c\<close>) also serve the collector as sets of pinned objects and as content-hashed tables,
  on storage from a small cache, with hash codes from \<open>murmur_hash.h\<close>.

  A deferrable signal may arrive when the thread cannot take it: in a pseudo-atomic section (an
  allocation, say), or with interrupts or the collector inhibited. The handlers of \<open>interrupt.c\<close> then
  note the signal in the thread; requests to collect (\<open>gengc.inc\<close>) and to stop for another thread's
  collection (\<open>stop-the-world.c\<close>) are noted likewise, and a trap at the end of the section handles what is
  pending.

  Compiled code calls C through the alien linkage table, which \<open>os_link_runtime\<close> fills at
  start and which each processor's \<open>arch_write_linkage_table_entry\<close> writes. Breakpoints of the
  debugger replace an instruction; the trap handler calls \<open>arch_do_displaced_inst\<close> to execute the
  original one and to plant the trap again, in each processor's own way.
\<close>

text \<open>
  \<^bold>\<open>How the code is translated.\<close>

  A C struct is a \<open>record\<close>, a tagged union or an enumeration a \<open>datatype\<close>. Words are
  \<open>uword\<close> (64 bits), \<open>32 word\<close> or \<open>8 word\<close>, wherever the code's arithmetic can wrap
  or works on bits. Page and cell indices that the code bounds are \<open>nat\<close> or \<open>int\<close>. Arrays are
  lists with \<open>xs ! i\<close> and \<open>xs[i := v]\<close> under guards that keep \<open>i\<close> in range, or functions of the
  address where the code works on raw memory; in \<open>Bytes\<close> memory is byte-addressed, for code that
  casts one pointer to several widths. State is passed explicitly.

  A function that can call \<open>lose\<close>, fail an assertion or report heap exhaustion returns
  \<open>'a result\<close>, which is \<open>fault + 'a\<close> (\<open>Prelude\<close>); \<open>rbind\<close> sequences such calls. So a theorem of the form
  \<open>f x = Inr y\<close> also says that no assertion fails. Loops over structures are recursions on
  them. The remaining loops have a bound that the theory proves to be enough, or fuel, and then a
  theorem that a stated amount of fuel gives a result. The build's tables and other code outside
  the C sources are parameters with their documented behaviour as named hypotheses.
\<close>

text \<open>
  \<^bold>\<open>Shared theories.\<close>

  \<open>Prelude\<close>: machine types, results, bit primitives, masks, and facts on words and lists that
  several theories use. \<open>Align\<close>: the macros of \<open>align.h\<close>. \<open>Bytes\<close>: byte-addressed memory with loads
  and stores of several widths and their framing. \<open>Lispobj\<close>: tags of \<open>lispobj.h\<close>, the fields of \<open>sc-offset.c\<close>
  and forwarding pointers (\<open>forwarding-ptr.inc\<close>); tagging and forwarding are proved to lose nothing.
\<close>

text \<open>
  \<^bold>\<open>Hash tables.\<close>

  \<open>Hopscotch\<close> translates \<open>hopscotch.c\<close>: creation, insertion with displacement and growth, the
  lookups, deletion and reset. The state of a table is the record \<open>hopscotch_table\<close> with keys, values and hop words
  as lists. \<open>HopscotchInv\<close> states the invariant (hop words say exactly which neighbours of a bin
  belong to it; no key occurs twice) and its preservation; \<open>HopscotchOps\<close> shows what each operation does,
  \<open>HopscotchTerm\<close> when insertion returns, \<open>HopscotchMap\<close> has the interface \<open>word_map\<close> as a locale,
  its interpretation on the tables, and the refinement of finite maps for any sequence of
  operations. Insertion, which may double the table again and again, has fuel: more than \<open>n - m\<close> is enough for
  a table of \<open>2 ^ m\<close> bins when the keys have distinct bins at \<open>2 ^ n\<close>, for \<open>n\<close> up to 30: a table of
  \<open>2 ^ 31\<close> bins does not fit the code's \<open>int\<close>, so keys that differ only in the top two bits of their hash
  are outside the theorem. The load threshold is computed as a wrapping \<open>int\<close>, as the code does.
  \<open>HopscotchCache\<close> is the storage cache, whose blocks have a 32-bit size in their header (no table of
  8 to \<open>2 ^ 27\<close> bins is given too little), \<open>Murmur\<close> the hash functions.
\<close>

text \<open>
  \<^bold>\<open>Allocation.\<close>

  \<open>PageTable\<close> has \<open>struct page\<close> and the accessors of \<open>gencgc-impl.h\<close> and \<open>gc.h\<close>, card marks and page
  preparation. \<open>FindPages\<close> is \<open>gc_find_freeish_pages\<close> with the start page hints: what it returns is
  free, and when it gives up there is no run of free pages that would do, nor an extensible page with
  room for the whole request (a run that begins with a partly used page is passed over by the code if that page
  alone is too small, except for code). \<open>AllocRegion\<close> has
  \<open>gc_alloc_new_region\<close>, \<open>gc_close_region\<close>, \<open>gc_alloc_large\<close> and \<open>gc_general_alloc\<close> with the functions
  behind them, on the record \<open>gc\<close> (page table, generations, regions, areas, counters). \<open>AllocInv\<close> and
  \<open>AllocClose\<close> have the invariants and what each operation does to them; \<open>Allocator\<close> puts them together in
  \<open>alloc_inv\<close>, which every allocation keeps: the page table is well formed, the bytes accounted are the bytes used, open regions
  do not share pages, and no assertion fails but the one on the size of requests for list cells
  (between what a page of cells holds and the size of a large object), which the theorem gives as an outcome.
  Requests are multiples of 16 bytes. Each function runs under \<open>free_pages_lock\<close> and is one step. \<open>TinyLock\<close> models that
  lock (\<open>tiny-lock.h\<close>) in small steps of any number of threads: mutual exclusion, no lost wakeup, and what a
  compare-and-exchange that fails spuriously does to it. \<open>HeapSort\<close> is the collector's sort (up to
  \<open>2 ^ 30\<close> words, where its \<open>int\<close> indices end), \<open>Search\<close> the searches; that of the split-ordered list
  is correct unless its last node is deleted and the sought hash lies behind it, when it walks past the end.
\<close>

text \<open>
  \<^bold>\<open>Marking.\<close>

  \<open>Objects\<close> has the widetags, the size of every kind of object and the parts of code objects.
  \<open>PrivateCons\<close> are the collector's list cells, \<open>MarkQueue\<close> the queue with its pages, \<open>FullMark\<close> the mark bits, the
  marking of one pointer and the interpretation of the queue interface; \<open>WeakTables\<close> what marking does with
  weak vectors, pointers and tables; \<open>TraceObject\<close> the scan of one object. \<open>Tracing\<close> states the two interfaces
  as locales, \<open>bounded_queue\<close> and \<open>marking\<close> (which extends it), and proves the loop once over them: it ends, and
  marks what can be reached. \<open>MarkPhase\<close> has the graph of a heap and what a well-formed heap is, \<open>Marking\<close> shows
  that the functions of \<open>fullcgc.c\<close> meet the interface, and \<open>MarkRoots\<close> has the roots, the phase as a whole and
  its theorem: on heaps without weak vectors and weak hash tables, whose paths are translated but have
  no theorem, it ends with exactly the reachable objects marked. The loop is a partial function, \<open>Some\<close> when it ends; the measure is
  the number of unmarked objects, since an object is queued once.
\<close>

text \<open>
  \<^bold>\<open>Sweeping.\<close>

  \<open>Sweep\<close> translates what follows the mark phase, \<open>execute_full_sweep_phase\<close> with all it calls: weak pointers and vectors
  lose their dead objects, weak tables their dead entries, the finalizers of dead objects are triggered, and dead objects on
  fixed-object pages, in text space and in dynamic space are overwritten or, if large, freed; the state is the marker with the
  list of dead code and the generation masks of text pages. \<open>SweepRange\<close> shows what the sweep of a range does to
  each object, \<open>SweepLayout\<close> that the range can be walked afterwards, \<open>SweepLive\<close> joins this with the mark phase: in a range of dynamic
  space, what is reachable stays bit for bit and the rest becomes blank. \<open>FreeLarge\<close> shows that freeing a large object keeps
  the allocator's invariant. Loops over lists and ranges are partial functions, \<open>None\<close> if they do not end. Nothing is
  proved of culling and of finalizers, and the theorem on mark and sweep is about the same heaps as that
  on marking.
\<close>

text \<open>
  \<^bold>\<open>Objects that stay where they are.\<close>

  A collection that moves objects must not move what a control stack may point to. \<open>Pinning\<close> has the tests of
  \<open>gencgc.c\<close> for whether a word is a root and the shrinking of large objects, on the record \<open>compactor\<close>, which extends
  that of the sweep; \<open>PinRoots\<close> pins what a word leads to, in dynamic space by a key in a hopscotch table and bits of
  the page, in the immobile spaces by giving the object its new generation (\<open>immobile-space.c\<close>). \<open>PinFilter\<close> keeps the keys at which
  objects really begin, \<open>PinFill\<close> makes fillers of what is between them and moves their pages to the new space, and
  \<open>OldSpace\<close> frees the old one. Shown are that the filter is exact, that the fillers touch no word of a pinned object and
  leave pages that can be walked, that the invariant of the allocator is kept throughout, and that a pinned object
  survives all this. The tests for roots have no theorem: they are heuristics, which the filter corrects.
\<close>

text \<open>
  \<^bold>\<open>Signals.\<close>

  \<open>Signals\<close> has the signal sets of \<open>interrupt.c\<close>. \<open>Interrupts\<close> translates the deferral of signals, the stop handler,
  \<open>maybe_gc\<close> and \<open>trigger_gc\<close>, on the record \<open>thread\<close> (thread-local variables, binding stack, pseudo-atomic bits,
  \<open>struct interrupt_data\<close>, signal masks). \<open>InterruptSteps\<close> makes them events of a thread together with what the macros
  \<open>without-interrupts\<close>, \<open>without-gcing\<close> and \<open>pseudo-atomic\<close> do between two instructions. \<open>InterruptInv\<close> has the
  invariant and what each handler computes; \<open>InterruptEvents\<close> (signals, stop requests), \<open>InterruptTrap\<close>
  (the trap) and \<open>InterruptProtocol\<close> (the macros) show that each event keeps it. \<open>Deferral\<close> has the reachable
  states and the properties: no check in the handlers stops the process and no signal is lost, except in two windows, in
  which the process does stop. One thread is modelled; other threads and the kernel act through the order of
  events, and Lisp functions through the hypothesis \<open>lisp_behaves\<close>.
\<close>

text \<open>
  \<^bold>\<open>Breakpoints and calls to C.\<close>

  \<open>Stepping\<close> holds what the processors share: contexts, code memory, planting and removing a
  breakpoint, with the locale \<open>displaced_stepping\<close> for their contract. \<open>Ppc\<close>, \<open>Mips\<close>, \<open>Sparc\<close>, \<open>Arm64\<close> and \<open>Loongarch64\<close> translate \<open>arch_do_displaced_inst\<close> and
  its helpers from each \<open>*-arch.c\<close>. Their theorems compare the emulation of branches with the
  instruction set, and show that stepping over a breakpoint is invisible to the program, or that the
  trampoline comes back to the next instruction. What the code gets wrong is kept apart and shown in lemmas:
  on PowerPC the reference leaves open where traps, \<open>bctar\<close>, returns from interrupts and prefixed instructions
  continue, and the theorem does not cover them; on the 64-bit ARM the code tries to simulate every instruction
  word whose top bit is clear, and only the others reach the trampoline. \<open>Linkage\<close>, \<open>LinkageRisc\<close> and \<open>LinkagePpc\<close> have \<open>os_link_runtime\<close>, the locale \<open>linkage_table\<close> for what it needs of a writer, and the writers of entries:
  control that enters an entry arrives at the function it is for (on PowerPC in its little-endian form, and
  with \<open>call_into_c\<close> below \<open>2 ^ 31\<close>). \<open>VarIO\<close> packs and unpacks
  variable-length integers of debug information.
\<close>

text \<open>
  \<^bold>\<open>What the lemmas of a theory show, in general.\<close>

  First come facts on the data (what an accessor reads after an update), then for each operation
  that it keeps the invariant and computes its result, branch by branch, errors included, and
  at the end the properties, each after a text that begins with its number and states it. A
  property with hypotheses is followed by a theorem that applies it at a concrete input.
\<close>

text \<open>
  \<^bold>\<open>Not modelled.\<close>

  Copying collection proper (scavenging, transporting and the driver of \<open>gencgc.c\<close>), core files, the mark-region and the Cheney collector, and
  what the immobile and the permanent space do besides keeping objects that are pointed to: they are other
  components of the same size as those modelled, or belong to other builds. Creation of threads, signal delivery by
  the kernel, memory mapping, I/O, compression and the wrappers of system calls: what they do is the operating
  system's. The debugger's monitor, the printer and the backtrace write text for a person. \<open>perfecthash.c\<close> and
  \<open>tlsf.c\<close> are third-party code.
\<close>

end
